(* ===== verification/Prelude.thy ===== *)
theory Prelude
  imports Main "HOL-Library.Word" "HOL-Library.List_Lexorder"
begin

text \<open>
  The shared vocabulary of the TinyLSM development: the machine integers and byte strings of the
  C++ sources, the fact collections the component theories extend, and the generic lemmas about
  slices of byte strings, sorted lists and association lists that carry their proofs.

  A C++ \<open>std::string\<close>, \<open>std::string_view\<close> or \<open>std::span<const std::byte>\<close> is a list of 8-bit
  words. \<open>std::string_view::operator<\<close> compares bytes as unsigned values, which is the
  lexicographic order of \<open>HOL-Library.List_Lexorder\<close> over \<open>8 word\<close>. The number of elements of an
  in-memory container is a natural number; a \<open>std::size_t\<close> or \<open>std::uint64_t\<close> that is stored or
  computed with is a 64-bit word.
\<close>

unbundle bit_operations_syntax

type_synonym byte = "8 word"
type_synonym bytes = "8 word list"
type_synonym u16 = "16 word"
type_synonym u32 = "32 word"
type_synonym u64 = "64 word"

named_theorems slice_simps \<open>reading a field back out of concatenated byte strings\<close>
named_theorems length_simps \<open>lengths of encoded fields\<close>
named_theorems inv_intros \<open>preservation of the component invariants\<close>

subsection \<open>Words and natural numbers\<close>

definition max_u32 :: nat where
  "max_u32 = 2 ^ 32 - 1"

definition max_u64 :: nat where
  "max_u64 = 2 ^ 64 - 1"

lemma unat_u32_le: "unat (w :: u32) \<le> max_u32"
  using unsigned_less [of w, where 'a = nat] by (simp add: max_u32_def)

lemma unat_u64_le: "unat (w :: u64) \<le> max_u64"
  using unsigned_less [of w, where 'a = nat] by (simp add: max_u64_def)

lemma unat_of_nat_u32 [simp]: "n \<le> max_u32 \<Longrightarrow> unat (of_nat n :: u32) = n"
  by (simp add: max_u32_def unat_of_nat)

lemma unat_of_nat_u64 [simp]: "n \<le> max_u64 \<Longrightarrow> unat (of_nat n :: u64) = n"
  by (simp add: max_u64_def unat_of_nat)

lemma max_u32_le_max_u64: "max_u32 \<le> max_u64"
  by (simp add: max_u32_def max_u64_def)

lemma unat_u32_le_u64: "unat (w :: u32) \<le> max_u64"
  using unat_u32_le [of w] max_u32_le_max_u64 by linarith

lemma word_less_or_le: "\<not> (a :: 'a :: len word) < b \<Longrightarrow> b \<le> a"
  by simp

subsection \<open>Slices of concatenated byte strings\<close>

lemma nth_append_at [slice_simps]: "(xs @ y # ys) ! length xs = y"
  by simp

lemma drop_append_at [slice_simps]: "n = length xs \<Longrightarrow> drop n (xs @ ys) = ys"
  by simp

lemma take_append_at [slice_simps]: "n = length xs \<Longrightarrow> take n (xs @ ys) = xs"
  by simp

lemma take_drop_append_at:
  "m = length xs \<Longrightarrow> n = length ys \<Longrightarrow> take n (drop m (xs @ ys @ zs)) = ys"
  by simp

lemma drop_shift: "m + n \<le> length xs \<Longrightarrow> drop (m + n) xs = drop n (drop m xs)"
  by (simp add: add.commute)

subsection \<open>Lists\<close>

lemma hd_in_set_if: "xs \<noteq> [] \<Longrightarrow> hd xs \<in> set xs"
  by simp

lemma find_None_iff_all: "List.find P xs = None \<longleftrightarrow> (\<forall>x \<in> set xs. \<not> P x)"
  by (induction xs) auto

lemma find_Some_in: "List.find P xs = Some x \<Longrightarrow> x \<in> set xs \<and> P x"
  by (induction xs) (auto split: if_splits)

lemma find_filter_hd: "List.find P xs = (case filter P xs of [] \<Rightarrow> None | x # _ \<Rightarrow> Some x)"
  by (induction xs) auto

lemma find_append:
  "List.find P (xs @ ys) = (case List.find P xs of None \<Rightarrow> List.find P ys | Some x \<Rightarrow> Some x)"
  by (induction xs) auto

lemma sorted_wrt_Cons_hd:
  "transp R \<Longrightarrow> sorted_wrt R (x # xs) \<longleftrightarrow> (xs = [] \<or> R x (hd xs)) \<and> sorted_wrt R xs"
  by (cases xs) (auto dest: transpD)

lemma sorted_wrt_map_distinct:
  assumes "sorted_wrt R (map f xs)" and "irreflp R"
  shows "distinct (map f xs)"
  using assms by (induction xs) (auto simp: irreflp_def)

subsection \<open>Lexicographic order of byte strings\<close>

text \<open>
  \<open>std::string_view\<close> comparison is a strict total order, so every ordered container of the engine
  can rely on the library's \<open>linorder\<close> facts.
\<close>

lemma empty_bytes_least [simp]: "([] :: bytes) \<le> k"
  by (cases k) (simp_all add: list_le_def list_less_def)

lemma not_less_empty [simp]: "\<not> k < ([] :: bytes)"
  by (simp add: not_less)

lemma not_less_less_eq: "\<not> (a :: bytes) < b \<Longrightarrow> \<not> b < a \<Longrightarrow> a = b"
  by simp

lemma prefix_less_append: "(s :: bytes) \<noteq> [] \<Longrightarrow> p < p @ s"
  by (induction p) (cases s, auto simp: list_less_def)

end
