(* ===== verification/Status.thy ===== *)
theory Status
  imports Prelude
begin

text \<open>
  \<open>include/tinylsm/status.h\<close> and \<open>result.h\<close>: error codes, the \<open>Status\<close> class with its context
  wrapper and printer, and the fallible result type the component models return.

  Callers branch on \<open>StatusCode\<close> only (the header documents messages as diagnostic text), so the
  component operations of the other theories return a \<open>StatusCode\<close>, with \<open>kOk\<close> for success, or a
  value of \<open>'a result\<close>. \<open>WithContext_code\<close> below is why this loses nothing: adding context never
  changes the code. \<open>UB\<close> marks a C++ execution that leaves defined behaviour (a read outside a
  span); a component is memory safe exactly when it never returns it.
\<close>

section \<open>Status\<close>

datatype StatusCode =
  kOk | kNotFound | kInvalidArgument | kIOError | kCorruption | kResourceExhausted
| kAlreadyClosed | kNotSupported

record Status =
  st_code :: StatusCode
  st_message :: string

definition status_Ok :: Status where
  "status_Ok = \<lparr>st_code = kOk, st_message = ''''\<rparr>"

definition status_ok :: "Status \<Rightarrow> bool" where
  "status_ok s = (st_code s = kOk)"

definition WithContext :: "Status \<Rightarrow> string \<Rightarrow> Status" where
  "WithContext s context =
     (if status_ok s then s
      else if st_message s = [] then \<lparr>st_code = st_code s, st_message = context\<rparr>
      else \<lparr>st_code = st_code s, st_message = context @ '': '' @ st_message s\<rparr>)"

fun CodeName :: "StatusCode \<Rightarrow> string" where
  "CodeName kOk = ''OK''"
| "CodeName kNotFound = ''NotFound''"
| "CodeName kInvalidArgument = ''InvalidArgument''"
| "CodeName kIOError = ''IOError''"
| "CodeName kCorruption = ''Corruption''"
| "CodeName kResourceExhausted = ''ResourceExhausted''"
| "CodeName kAlreadyClosed = ''AlreadyClosed''"
| "CodeName kNotSupported = ''NotSupported''"

definition ToString :: "Status \<Rightarrow> string" where
  "ToString s =
     (if status_ok s then ''OK''
      else CodeName (st_code s) @ (if st_message s = [] then [] else '': '' @ st_message s))"

lemma WithContext_code: "st_code (WithContext s c) = st_code s"
  by (simp add: WithContext_def)

lemma WithContext_ok: "status_ok (WithContext s c) = status_ok s"
  by (simp add: status_ok_def WithContext_code)

lemma CodeName_inject: "CodeName a = CodeName b \<longleftrightarrow> a = b"
  by (cases a; cases b) simp_all

section \<open>Result\<close>

text \<open>
  \<open>Result<T>\<close> holds a value or a non-OK status. Constructing a failed result from an OK status
  throws (\<open>ValidateError\<close>); no component model builds \<open>Err kOk\<close>, which \<open>result_wf\<close> states.
\<close>

datatype 'a result = Ok 'a | Err StatusCode | UB

fun result_wf :: "'a result \<Rightarrow> bool" where
  "result_wf (Ok x) = True"
| "result_wf (Err c) = (c \<noteq> kOk)"
| "result_wf UB = True"

fun result_status :: "'a result \<Rightarrow> StatusCode option" where
  "result_status (Ok x) = Some kOk"
| "result_status (Err c) = Some c"
| "result_status UB = None"

fun rbind :: "'a result \<Rightarrow> ('a \<Rightarrow> 'b result) \<Rightarrow> 'b result" where
  "rbind (Ok x) f = f x"
| "rbind (Err c) f = Err c"
| "rbind UB f = UB"

definition require :: "bool \<Rightarrow> StatusCode \<Rightarrow> 'b result \<Rightarrow> 'b result" where
  "require p c r = (if p then r else Err c)"

lemma require_simps [simp]:
  "require True c r = r"
  "require False c r = Err c"
  by (simp_all add: require_def)

lemma rbind_Ok_iff: "rbind r f = Ok y \<longleftrightarrow> (\<exists>x. r = Ok x \<and> f x = Ok y)"
  by (cases r) auto

lemma rbind_UB_iff: "rbind r f = UB \<longleftrightarrow> r = UB \<or> (\<exists>x. r = Ok x \<and> f x = UB)"
  by (cases r) auto

lemma rbind_Err_iff: "rbind r f = Err c \<longleftrightarrow> r = Err c \<or> (\<exists>x. r = Ok x \<and> f x = Err c)"
  by (cases r) auto

lemma require_Ok_iff: "require p c r = Ok y \<longleftrightarrow> p \<and> r = Ok y"
  by (simp add: require_def)

lemma require_UB_iff: "require p c r = UB \<longleftrightarrow> p \<and> r = UB"
  by (simp add: require_def)

lemmas result_iffs = rbind_Ok_iff rbind_UB_iff require_Ok_iff require_UB_iff

lemma rbind_cong [fundef_cong]:
  "r = r' \<Longrightarrow> (\<And>x. r' = Ok x \<Longrightarrow> f x = g x) \<Longrightarrow> rbind r f = rbind r' g"
  by (cases r') auto

subsection \<open>Fallible operations on a state\<close>

type_synonym ('s, 'a) op = "'s \<Rightarrow> 'a result \<times> 's"

definition op_bind :: "('s, 'a) op \<Rightarrow> ('a \<Rightarrow> ('s, 'b) op) \<Rightarrow> ('s, 'b) op" where
  "op_bind m g s =
     (case m s of (Ok x, s') \<Rightarrow> g x s' | (Err c, s') \<Rightarrow> (Err c, s') | (UB, s') \<Rightarrow> (UB, s'))"

definition op_return :: "'a \<Rightarrow> ('s, 'a) op" where
  "op_return x s = (Ok x, s)"

definition op_fail :: "StatusCode \<Rightarrow> ('s, 'a) op" where
  "op_fail c s = (Err c, s)"

lemma op_bind_cong [fundef_cong]:
  "s = t \<Longrightarrow> m t = m' t \<Longrightarrow> (\<And>x s'. m' t = (Ok x, s') \<Longrightarrow> g x s' = g' x s') \<Longrightarrow>
   op_bind m g s = op_bind m' g' t"
  by (auto simp: op_bind_def split: prod.splits result.splits)

lemma op_bind_simps:
  "m s = (Ok x, s') \<Longrightarrow> op_bind m g s = g x s'"
  "m s = (Err c, s') \<Longrightarrow> op_bind m g s = (Err c, s')"
  "m s = (UB, s') \<Longrightarrow> op_bind m g s = (UB, s')"
  by (simp_all add: op_bind_def)

lemma op_bind_Ok_iff:
  "op_bind m g s = (Ok y, t) \<longleftrightarrow> (\<exists>x s'. m s = (Ok x, s') \<and> g x s' = (Ok y, t))"
  by (auto simp: op_bind_def split: prod.splits result.splits)

lemmas op_simps = op_return_def op_fail_def

subsection \<open>Checked reads from a span\<close>

text \<open>
  Reading byte \<open>i\<close> of a span, or assigning \<open>n\<close> bytes starting at \<open>off\<close> to a string, is defined
  only inside the span.
\<close>

definition span_at :: "bytes \<Rightarrow> nat \<Rightarrow> byte result" where
  "span_at b i = (if i < length b then Ok (b ! i) else UB)"

definition slice :: "bytes \<Rightarrow> nat \<Rightarrow> nat \<Rightarrow> bytes result" where
  "slice b off n = (if off + n \<le> length b then Ok (take n (drop off b)) else UB)"

lemma span_at_Ok: "i < length b \<Longrightarrow> span_at b i = Ok (b ! i)"
  by (simp add: span_at_def)

lemma slice_Ok: "off + n \<le> length b \<Longrightarrow> slice b off n = Ok (take n (drop off b))"
  by (simp add: slice_def)

lemma slice_append [slice_simps]:
  "off = length p \<Longrightarrow> n = length s \<Longrightarrow> slice (p @ s @ q) off n = Ok s"
  by (simp add: slice_def)

lemma slice_eq_UB_iff: "slice b off n = UB \<longleftrightarrow> length b < off + n"
  by (simp add: slice_def)

lemma span_at_eq_UB_iff: "span_at b i = UB \<longleftrightarrow> length b \<le> i"
  by (simp add: span_at_def)

end
