(* ===== verification/Coding.thy ===== *)
theory Coding
  imports Status
begin

text \<open>
  \<open>src/util\<close>: little-endian fixed-width integers (\<open>coding.cpp\<close>), the CRC32C checksum
  (\<open>crc32c.cpp\<close>) and the byte-wise key order (\<open>bytewise_less.h\<close>). The lemmas show that every
  field written by \<open>PutFixed\<close> is read back by \<open>GetFixed\<close> wherever it sits in a record, and that
  the checksum notices every change confined to a single byte.
\<close>

section \<open>Fixed-width little-endian integers\<close>

definition PutFixed16 :: "bytes \<Rightarrow> u16 \<Rightarrow> bytes" where
  "PutFixed16 out v = out @ [ucast v, ucast (drop_bit 8 v)]"

definition PutFixed32 :: "bytes \<Rightarrow> u32 \<Rightarrow> bytes" where
  "PutFixed32 out v = out @ map (\<lambda>shift. ucast (drop_bit shift v)) [0, 8, 16, 24]"

definition PutFixed64 :: "bytes \<Rightarrow> u64 \<Rightarrow> bytes" where
  "PutFixed64 out v =
     out @ map (\<lambda>shift. ucast (drop_bit shift v)) [0, 8, 16, 24, 32, 40, 48, 56]"

text \<open>
  The readers return \<open>false\<close> (here \<open>None\<close>) and leave the output variable alone when fewer bytes
  than the width are left. Most callers check the size first and ignore the return value; they
  read through \<open>Get16\<close>, \<open>Get32\<close> and \<open>Get64\<close>, which give the initial value 0 of the variable then.
\<close>

definition GetFixed16 :: "bytes \<Rightarrow> nat \<Rightarrow> u16 option" where
  "GetFixed16 inp off =
     (if off > length inp \<or> length inp - off < 2 then None
      else Some (ucast (inp ! off) OR push_bit 8 (ucast (inp ! (off + 1)))))"

definition GetFixed32 :: "bytes \<Rightarrow> nat \<Rightarrow> u32 option" where
  "GetFixed32 inp off =
     (if off > length inp \<or> length inp - off < 4 then None
      else Some (foldl (\<lambda>v i. v OR push_bit (8 * i) (ucast (inp ! (off + i)))) 0 [0, 1, 2, 3]))"

definition GetFixed64 :: "bytes \<Rightarrow> nat \<Rightarrow> u64 option" where
  "GetFixed64 inp off =
     (if off > length inp \<or> length inp - off < 8 then None
      else Some (foldl (\<lambda>v i. v OR push_bit (8 * i) (ucast (inp ! (off + i)))) 0
                   [0, 1, 2, 3, 4, 5, 6, 7]))"

definition Get16 :: "bytes \<Rightarrow> nat \<Rightarrow> u16" where
  "Get16 inp off = (case GetFixed16 inp off of None \<Rightarrow> 0 | Some v \<Rightarrow> v)"

definition Get32 :: "bytes \<Rightarrow> nat \<Rightarrow> u32" where
  "Get32 inp off = (case GetFixed32 inp off of None \<Rightarrow> 0 | Some v \<Rightarrow> v)"

definition Get64 :: "bytes \<Rightarrow> nat \<Rightarrow> u64" where
  "Get64 inp off = (case GetFixed64 inp off of None \<Rightarrow> 0 | Some v \<Rightarrow> v)"

abbreviation le16 :: "u16 \<Rightarrow> bytes" where "le16 \<equiv> PutFixed16 []"
abbreviation le32 :: "u32 \<Rightarrow> bytes" where "le32 \<equiv> PutFixed32 []"
abbreviation le64 :: "u64 \<Rightarrow> bytes" where "le64 \<equiv> PutFixed64 []"

lemma PutFixed_append:
  "out \<noteq> [] \<Longrightarrow> PutFixed16 out v = out @ le16 v"
  "out \<noteq> [] \<Longrightarrow> PutFixed32 out w = out @ le32 w"
  "out \<noteq> [] \<Longrightarrow> PutFixed64 out x = out @ le64 x"
  by (simp_all add: PutFixed16_def PutFixed32_def PutFixed64_def)

lemma PutFixed16_le16: "PutFixed16 out v = out @ le16 v"
  by (simp add: PutFixed16_def)

lemma PutFixed32_le32: "PutFixed32 out v = out @ le32 v"
  by (simp add: PutFixed32_def)

lemma PutFixed64_le64: "PutFixed64 out v = out @ le64 v"
  by (simp add: PutFixed64_def)

lemma length_le [simp, length_simps]:
  "length (le16 v) = 2" "length (le32 w) = 4" "length (le64 x) = 8"
  by (simp_all add: PutFixed16_def PutFixed32_def PutFixed64_def)

lemma le_neq_Nil [simp]: "le16 v \<noteq> []" "le32 w \<noteq> []" "le64 x \<noteq> []"
  by (simp_all add: PutFixed16_def PutFixed32_def PutFixed64_def)

text \<open>Byte \<open>i\<close> of a word carries exactly the bits \<open>8 * i\<close> to \<open>8 * i + 7\<close>.\<close>

lemma bit_byte_field:
  "bit (push_bit (8 * i) (ucast (ucast (drop_bit (8 * i) v) :: byte)) :: 'a :: len word) n
   \<longleftrightarrow> bit (v :: 'a word) n \<and> n div 8 = i"
proof -
  have "8 * i \<le> n \<and> n - 8 * i < 8 \<longleftrightarrow> n div 8 = i" by auto
  moreover have "bit v n \<Longrightarrow> n < LENGTH('a)" by (rule bit_imp_le_length)
  ultimately show ?thesis by (auto simp: bit_simps)
qed

lemma bit_byte_fields:
  "bit (foldl (\<lambda>a i. a OR push_bit (8 * i) (ucast (ucast (drop_bit (8 * i) v) :: byte))) 0 is :: 'a :: len word) n
   \<longleftrightarrow> bit (v :: 'a word) n \<and> n div 8 \<in> set is"
  by (induction "is" rule: rev_induct) (auto simp: bit_or_iff bit_byte_field)

lemma word16_bytes:
  "foldl (\<lambda>a i. a OR push_bit (8 * i) (ucast (ucast (drop_bit (8 * i) v) :: byte))) 0 [0, 1]
   = (v :: u16)"
  by (rule bit_word_eqI) (simp only: bit_byte_fields, auto)

lemma word32_bytes:
  "foldl (\<lambda>a i. a OR push_bit (8 * i) (ucast (ucast (drop_bit (8 * i) v) :: byte))) 0 [0, 1, 2, 3]
   = (v :: u32)"
  by (rule bit_word_eqI) (simp only: bit_byte_fields, auto)

lemma word64_bytes:
  "foldl (\<lambda>a i. a OR push_bit (8 * i) (ucast (ucast (drop_bit (8 * i) v) :: byte))) 0
     [0, 1, 2, 3, 4, 5, 6, 7] = (v :: u64)"
  by (rule bit_word_eqI) (simp only: bit_byte_fields, auto)

lemma GetFixed16_at: "GetFixed16 (p @ le16 v @ q) (length p) = Some v"
  using word16_bytes [of v] by (simp add: GetFixed16_def PutFixed16_def nth_append)

lemma GetFixed32_at: "GetFixed32 (p @ le32 v @ q) (length p) = Some v"
  using word32_bytes [of v] by (simp add: GetFixed32_def PutFixed32_def nth_append)

lemma GetFixed64_at: "GetFixed64 (p @ le64 v @ q) (length p) = Some v"
  using word64_bytes [of v] by (simp add: GetFixed64_def PutFixed64_def nth_append)

lemma Get16_at [slice_simps]: "off = length p \<Longrightarrow> Get16 (p @ le16 v @ q) off = v"
  by (simp add: Get16_def GetFixed16_at)

lemma Get32_at [slice_simps]: "off = length p \<Longrightarrow> Get32 (p @ le32 v @ q) off = v"
  by (simp add: Get32_def GetFixed32_at)

lemma Get64_at [slice_simps]: "off = length p \<Longrightarrow> Get64 (p @ le64 v @ q) off = v"
  by (simp add: Get64_def GetFixed64_at)

text \<open>
  Walking over a record field by field: a read past a field is a read in what follows it. With the
  lengths of the fields, \<open>slice_simps\<close> evaluates every read of an encoded record.
\<close>

lemma Get_skip [slice_simps]:
  "length a \<le> off \<Longrightarrow> Get16 (a @ b) off = Get16 b (off - length a)"
  "length a \<le> off \<Longrightarrow> Get32 (a @ b) off = Get32 b (off - length a)"
  "length a \<le> off \<Longrightarrow> Get64 (a @ b) off = Get64 b (off - length a)"
  by (auto simp: Get16_def GetFixed16_def Get32_def GetFixed32_def Get64_def GetFixed64_def nth_append Suc_diff_le)

lemma Get_skip_Cons [slice_simps]:
  "0 < off \<Longrightarrow> Get16 (x # b) off = Get16 b (off - 1)"
  "0 < off \<Longrightarrow> Get32 (x # b) off = Get32 b (off - 1)"
  "0 < off \<Longrightarrow> Get64 (x # b) off = Get64 b (off - 1)"
  using Get_skip [of "[x]" off b] by (simp_all add: Suc_le_eq)

lemma Get_here [slice_simps]:
  "Get16 (le16 v @ q) 0 = v" "Get32 (le32 w @ q) 0 = w" "Get64 (le64 x @ q) 0 = x"
  "Get16 (le16 v) 0 = v" "Get32 (le32 w) 0 = w" "Get64 (le64 x) 0 = x"
  using Get16_at [of 0 "[]" v] Get32_at [of 0 "[]" w] Get64_at [of 0 "[]" x]
  by (simp_all, metis append_Nil2 Get16_at, metis append_Nil2 Get32_at, metis append_Nil2 Get64_at)

lemma slice_skip [slice_simps]:
  "length a \<le> off \<Longrightarrow> slice (a @ b) off n = slice b (off - length a) n"
  "0 < off \<Longrightarrow> slice (x # b) off n = slice b (off - 1) n"
  by (auto simp: slice_def drop_Cons')

lemma slice_here [slice_simps]: "n = length s \<Longrightarrow> slice (s @ q) 0 n = Ok s" "n = length s \<Longrightarrow> slice s 0 n = Ok s"
  by (simp_all add: slice_def)

lemma span_at_skip [slice_simps]:
  "length a \<le> i \<Longrightarrow> span_at (a @ b) i = span_at b (i - length a)"
  "0 < i \<Longrightarrow> span_at (x # b) i = span_at b (i - 1)"
  "span_at (x # b) 0 = Ok x"
  by (auto simp: span_at_def nth_append nth_Cons')

lemma GetFixed_None_iff:
  "GetFixed16 b off = None \<longleftrightarrow> length b < off + 2"
  "GetFixed32 b off = None \<longleftrightarrow> length b < off + 4"
  "GetFixed64 b off = None \<longleftrightarrow> length b < off + 8"
  by (auto simp: GetFixed16_def GetFixed32_def GetFixed64_def)

text \<open>Subtraction of two \<open>std::size_t\<close> values wraps around below zero.\<close>

definition size_minus :: "nat \<Rightarrow> nat \<Rightarrow> nat" where
  "size_minus a b = (if b \<le> a then a - b else 2 ^ 64 + a - b)"

lemma size_minus_le [simp]: "b \<le> a \<Longrightarrow> size_minus a b = a - b"
  by (simp add: size_minus_def)

section \<open>CRC32C\<close>

text \<open>One step of the inner loop: \<open>mask\<close> is all ones exactly when the low bit is set.\<close>

definition crc_bit :: "u32 \<Rightarrow> u32" where
  "crc_bit crc =
     (let mask = 0 - (crc AND 1) in drop_bit 1 crc XOR (0x82f63b78 AND mask))"

definition crc_byte :: "u32 \<Rightarrow> byte \<Rightarrow> u32" where
  "crc_byte crc byt = (crc_bit ^^ 8) (crc XOR ucast byt)"

definition ExtendCrc32c :: "u32 \<Rightarrow> bytes \<Rightarrow> u32" where
  "ExtendCrc32c crc data = foldl crc_byte crc data"

definition Crc32c :: "bytes \<Rightarrow> u32" where
  "Crc32c data = NOT (ExtendCrc32c 0xffffffff data)"

definition Crc32c2 :: "bytes \<Rightarrow> bytes \<Rightarrow> u32" where
  "Crc32c2 first second = NOT (ExtendCrc32c (ExtendCrc32c 0xffffffff first) second)"

lemma Crc32c2_append: "Crc32c2 a b = Crc32c (a @ b)"
  by (simp add: Crc32c2_def Crc32c_def ExtendCrc32c_def)

text \<open>
  The polynomial has its top bit set, so the top bit of the result of a step tells which way the
  step went and the step can be undone: it is injective.
\<close>

lemma crc_bit_cases:
  "crc_bit c = (if bit c 0 then drop_bit 1 c XOR 0x82f63b78 else drop_bit 1 c)"
proof (cases "bit c 0")
  case True
  then have "c AND 1 = 1"
    by (simp add: bit_0 one_and_eq and_one_eq odd_iff_mod_2_eq_one)
  with True show ?thesis by (simp add: crc_bit_def Let_def)
next
  case False
  then have "c AND 1 = 0"
    by (simp add: bit_0 and_one_eq even_iff_mod_2_eq_zero)
  with False show ?thesis by (simp add: crc_bit_def Let_def)
qed

lemma crc_bit_top: "bit (crc_bit c) 31 = bit c 0"
  by (auto simp: crc_bit_cases bit_simps dest: bit_imp_le_length)

lemma xor_right_eq_iff: "(a :: 'a :: len word) XOR c = b XOR c \<longleftrightarrow> a = b"
  by (metis xor.assoc xor.right_neutral xor_self_eq)

lemma ucast_byte_eq_iff: "(ucast (x :: byte) :: u32) = ucast y \<longleftrightarrow> x = y"
proof
  assume eq: "(ucast x :: u32) = ucast y"
  show "x = y"
  proof (rule bit_word_eqI)
    fix n assume "n < LENGTH(8)"
    then have "bit z n = bit (ucast z :: u32) n" for z :: byte by (simp add: bit_simps)
    then show "bit x n = bit y n" using eq by simp
  qed
qed simp

lemma crc_bit_shift: "crc_bit a = crc_bit b \<Longrightarrow> drop_bit 1 a = drop_bit 1 b"
proof -
  assume eq: "crc_bit a = crc_bit b"
  then have "bit a 0 = bit b 0"
    using crc_bit_top [of a] crc_bit_top [of b] by simp
  with eq show ?thesis
    by (cases "bit a 0") (simp_all add: crc_bit_cases xor_right_eq_iff)
qed

lemma inj_crc_bit: "inj crc_bit"
proof (rule injI)
  fix a b :: u32
  assume eq: "crc_bit a = crc_bit b"
  show "a = b"
  proof (rule bit_word_eqI)
    fix n assume "n < LENGTH(32)"
    show "bit a n = bit b n"
    proof (cases n)
      case 0
      then show ?thesis using eq crc_bit_top [of a] crc_bit_top [of b] by simp
    next
      case (Suc m)
      have "bit (drop_bit 1 a) m = bit (drop_bit 1 b) m"
        using crc_bit_shift [OF eq] by simp
      with Suc show ?thesis by (simp add: bit_simps)
    qed
  qed
qed

lemma crc_byte_inj_state: "crc_byte a x = crc_byte b x \<longleftrightarrow> a = b"
proof
  assume "crc_byte a x = crc_byte b x"
  then show "a = b"
    by (simp add: crc_byte_def inj_eq [OF inj_fn [OF inj_crc_bit]] xor_right_eq_iff)
qed simp

lemma crc_byte_inj_byte: "crc_byte a x = crc_byte a y \<longleftrightarrow> x = y"
proof
  assume "crc_byte a x = crc_byte a y"
  then have "ucast x XOR a = ucast y XOR a"
    by (simp add: crc_byte_def inj_eq [OF inj_fn [OF inj_crc_bit]] xor.commute)
  then show "x = y" by (simp only: xor_right_eq_iff ucast_byte_eq_iff)
qed simp

lemma ExtendCrc32c_inj_state: "ExtendCrc32c a d = ExtendCrc32c b d \<longleftrightarrow> a = b"
  by (induction d arbitrary: a b) (simp_all add: ExtendCrc32c_def crc_byte_inj_state)

lemma not_word_eq_iff: "NOT (a :: 'a :: len word) = NOT b \<longleftrightarrow> a = b"
  by (metis bit.double_compl)

lemma Crc32c_one_byte: "Crc32c (p @ x # q) = Crc32c (p @ y # q) \<longleftrightarrow> x = y"
proof -
  have "Crc32c (p @ x # q) = Crc32c (p @ y # q) \<longleftrightarrow>
      crc_byte (ExtendCrc32c 0xffffffff p) x = crc_byte (ExtendCrc32c 0xffffffff p) y"
    using ExtendCrc32c_inj_state
    by (simp add: Crc32c_def ExtendCrc32c_def not_word_eq_iff)
  then show ?thesis by (simp add: crc_byte_inj_byte)
qed

text \<open>The same for a corrupted byte given by its position.\<close>

lemma Crc32c_list_update:
  assumes "i < length d" and "x \<noteq> d ! i"
  shows "Crc32c (d[i := x]) \<noteq> Crc32c d"
proof -
  have "d = take i d @ d ! i # drop (Suc i) d"
    using assms(1) by (simp add: id_take_nth_drop)
  moreover have "d[i := x] = take i d @ x # drop (Suc i) d"
    using assms(1) by (simp add: upd_conv_take_nth_drop)
  ultimately show ?thesis using Crc32c_one_byte assms(2) by metis
qed

section \<open>Key order\<close>

definition BytewiseLess :: "bytes \<Rightarrow> bytes \<Rightarrow> bool" where
  "BytewiseLess lhs rhs = (lhs < rhs)"

text \<open>
  An instance of \<open>std::map<std::string, T, BytewiseLess>\<close> needs a strict weak ordering whose
  incomparable keys are equal.
\<close>

lemma BytewiseLess_strict_total:
  "\<not> BytewiseLess a a"
  "BytewiseLess a b \<Longrightarrow> BytewiseLess b c \<Longrightarrow> BytewiseLess a c"
  "\<not> BytewiseLess a b \<Longrightarrow> \<not> BytewiseLess b a \<Longrightarrow> a = b"
  by (auto simp: BytewiseLess_def)

section \<open>Properties\<close>

text \<open>
  The CRC32C of \<open>src/util/crc32c.cpp\<close> tells any two inputs apart that differ in exactly one byte,
  wherever that byte stands and whatever surrounds it.
\<close>

theorem crc32c_tells_one_byte_apart: "Crc32c (p @ x # q) = Crc32c (p @ y # q) \<longleftrightarrow> x = y"
  by (rule Crc32c_one_byte)

end
