(* ===== verification/Manifest_Codec.thy ===== *)
theory Manifest_Codec
  imports Coding
begin

text \<open>
  \<open>src/manifest/manifest_codec.cpp\<close>: the snapshot that names the files of a database, its validation,
  and its framing (magic, version, length and CRC32C) around a Protobuf payload. The Protobuf runtime
  and the classes it generates from \<open>proto/manifest.proto\<close> are the parameter \<open>pb\<close>; \<open>protobuf_ok\<close> is
  what the code relies on: a serialized message has the announced size and parses back to itself.
\<close>

section \<open>Snapshots\<close>

definition kManifestHeaderBytes :: nat where "kManifestHeaderBytes = 16"
definition kMaxManifestFileBytes :: nat where "kMaxManifestFileBytes = 128 * 1024 * 1024"

record TableMeta =
  tm_file_number :: u64
  tm_file_size :: u64
  tm_smallest_key :: bytes
  tm_largest_key :: bytes
  tm_min_sequence :: u64
  tm_max_sequence :: u64

record ManifestSnapshot =
  active_wal_number :: u64
  next_file_number :: u64
  last_sequence :: u64
  live_tables :: "TableMeta list"
  immutable_wal_number :: u64

definition kManifestMagic :: u32 where "kManifestMagic = 0x31464e4d"
definition kVersion1 :: u16 where "kVersion1 = 1"
definition kVersion2 :: u16 where "kVersion2 = 2"
definition kVersion3 :: u16 where "kVersion3 = 3"

text \<open>The loop over the tables, with the numbers seen so far and the table before.\<close>

fun validate_tables :: "ManifestSnapshot \<Rightarrow> u64 set \<Rightarrow> TableMeta option \<Rightarrow> TableMeta list \<Rightarrow> string option" where
  "validate_tables s file_numbers previous [] = None"
| "validate_tables s file_numbers previous (t # ts) =
     (if tm_file_number t = 0 \<or> tm_file_number t = active_wal_number s \<or>
         tm_file_number t = immutable_wal_number s \<or> tm_file_number t \<ge> next_file_number s \<or>
         tm_file_number t \<in> file_numbers
      then Some ''manifest table file numbers are invalid''
      else if tm_file_size t = 0 \<or> BytewiseLess (tm_largest_key t) (tm_smallest_key t)
      then Some ''manifest table key metadata is invalid''
      else if tm_min_sequence t = 0 \<or> tm_max_sequence t = 0 \<or> tm_min_sequence t > tm_max_sequence t \<or>
              tm_max_sequence t > last_sequence s
      then Some ''manifest table sequence metadata is invalid''
      else if (case previous of None \<Rightarrow> False | Some p \<Rightarrow> tm_max_sequence p \<ge> tm_min_sequence t)
      then Some ''manifest table sequence ranges are not strictly ordered''
      else validate_tables s (insert (tm_file_number t) file_numbers) (Some t) ts)"

definition ValidateSnapshot :: "ManifestSnapshot \<Rightarrow> string option" where
  "ValidateSnapshot s =
     (if active_wal_number s = 0 then Some ''manifest active WAL number is invalid''
      else if immutable_wal_number s = active_wal_number s
      then Some ''manifest active and immutable WAL numbers collide''
      else if next_file_number s \<le> active_wal_number s \<or> next_file_number s \<le> immutable_wal_number s
      then Some ''manifest next file number is invalid''
      else validate_tables s {} None (live_tables s))"

text \<open>What a valid snapshot promises, without the loop.\<close>

definition table_valid :: "ManifestSnapshot \<Rightarrow> TableMeta \<Rightarrow> bool" where
  "table_valid s t \<longleftrightarrow>
     tm_file_number t \<noteq> 0 \<and> tm_file_number t \<noteq> active_wal_number s \<and> tm_file_number t \<noteq> immutable_wal_number s \<and>
     tm_file_number t < next_file_number s \<and> tm_file_size t \<noteq> 0 \<and> tm_smallest_key t \<le> tm_largest_key t \<and>
     tm_min_sequence t \<noteq> 0 \<and> tm_min_sequence t \<le> tm_max_sequence t \<and> tm_max_sequence t \<le> last_sequence s"

definition snapshot_valid :: "ManifestSnapshot \<Rightarrow> bool" where
  "snapshot_valid s \<longleftrightarrow>
     active_wal_number s \<noteq> 0 \<and> immutable_wal_number s \<noteq> active_wal_number s \<and>
     active_wal_number s < next_file_number s \<and> immutable_wal_number s < next_file_number s \<and>
     (\<forall>t \<in> set (live_tables s). table_valid s t) \<and> distinct (map tm_file_number (live_tables s)) \<and>
     sorted_wrt (\<lambda>a b. tm_max_sequence a < tm_min_sequence b) (live_tables s)"

section \<open>The Protobuf payload\<close>

text \<open>
  \<open>proto/manifest.proto\<close>; \<open>unknown\<close> counts the fields the parser met that the schema does not have.
\<close>

record TableMetaProto =
  tp_meta :: TableMeta
  tp_unknown :: nat

record ManifestSnapshotProto =
  mp_active_wal_number :: u64
  mp_next_file_number :: u64
  mp_last_sequence :: u64
  mp_live_tables :: "TableMetaProto list"
  mp_immutable_wal_number :: u64
  mp_unknown :: nat

record Protobuf =
  ByteSizeLong :: "ManifestSnapshotProto \<Rightarrow> nat"
  SerializeToString :: "ManifestSnapshotProto \<Rightarrow> bytes option"
  ParseFromArray :: "bytes \<Rightarrow> ManifestSnapshotProto option"

definition no_unknown :: "ManifestSnapshotProto \<Rightarrow> bool" where
  "no_unknown m \<longleftrightarrow> mp_unknown m = 0 \<and> (\<forall>t \<in> set (mp_live_tables m). tp_unknown t = 0)"

definition protobuf_ok :: "Protobuf \<Rightarrow> bool" where
  "protobuf_ok pb \<longleftrightarrow>
     (\<forall>m b. no_unknown m \<and> SerializeToString pb m = Some b \<longrightarrow>
        ByteSizeLong pb m = length b \<and> ParseFromArray pb b = Some m)"

definition to_message :: "ManifestSnapshot \<Rightarrow> ManifestSnapshotProto" where
  "to_message s =
     \<lparr>mp_active_wal_number = active_wal_number s, mp_next_file_number = next_file_number s,
      mp_last_sequence = last_sequence s,
      mp_live_tables = map (\<lambda>t. \<lparr>tp_meta = t, tp_unknown = 0\<rparr>) (live_tables s),
      mp_immutable_wal_number = immutable_wal_number s, mp_unknown = 0\<rparr>"

section \<open>Framing\<close>

definition Encode :: "Protobuf \<Rightarrow> ManifestSnapshot \<Rightarrow> bytes result" where
  "Encode pb s =
     (if ValidateSnapshot s \<noteq> None then Err kInvalidArgument
      else if list_ex (\<lambda>t. length (tm_smallest_key t) > kMaxManifestFileBytes - kManifestHeaderBytes \<or>
                           length (tm_largest_key t) > kMaxManifestFileBytes - kManifestHeaderBytes) (live_tables s)
      then Err kResourceExhausted
      else
        let message = to_message s in
        if ByteSizeLong pb message > kMaxManifestFileBytes - kManifestHeaderBytes then Err kResourceExhausted
        else case SerializeToString pb message of
          None \<Rightarrow> Err kInvalidArgument
        | Some payload \<Rightarrow>
            let out = PutFixed32 [] kManifestMagic;
                out = PutFixed16 out kVersion3;
                out = PutFixed16 out 0;
                out = PutFixed32 out (of_nat (length payload));
                out = PutFixed32 out (Crc32c2 out payload)
            in Ok (out @ payload))"

definition Decode :: "Protobuf \<Rightarrow> bytes \<Rightarrow> ManifestSnapshot result" where
  "Decode pb bytes =
     (if length bytes < kManifestHeaderBytes \<or> length bytes > kMaxManifestFileBytes then Err kCorruption
      else
        let magic = Get32 bytes 0; version = Get16 bytes 4; reserved = Get16 bytes 6;
            size = Get32 bytes 8; crc = Get32 bytes 12 in
        if magic \<noteq> kManifestMagic \<or> (version \<noteq> kVersion1 \<and> version \<noteq> kVersion2 \<and> version \<noteq> kVersion3) \<or>
           reserved \<noteq> 0 \<or> unat size \<noteq> length bytes - kManifestHeaderBytes
        then Err kCorruption
        else
          let payload = drop kManifestHeaderBytes bytes;
              actual_crc = (if version = kVersion1 then Crc32c payload else Crc32c2 (take 12 bytes) payload) in
          if actual_crc \<noteq> crc then Err kCorruption
          else case ParseFromArray pb payload of
            None \<Rightarrow> Err kCorruption
          | Some message \<Rightarrow>
              if mp_unknown message \<noteq> 0 then Err kCorruption
              else if version = kVersion1 \<and> length (mp_live_tables message) > 1 then Err kCorruption
              else if list_ex (\<lambda>t. tp_unknown t \<noteq> 0) (mp_live_tables message) then Err kCorruption
              else
                let s = \<lparr>active_wal_number = mp_active_wal_number message,
                         next_file_number = mp_next_file_number message,
                         last_sequence = mp_last_sequence message,
                         live_tables = map tp_meta (mp_live_tables message),
                         immutable_wal_number =
                           (if version = kVersion3 then mp_immutable_wal_number message else 0)\<rparr> in
                if ValidateSnapshot s \<noteq> None then Err kCorruption else Ok s)"

section \<open>Validation\<close>

lemma validate_tables_None:
  "validate_tables s seen prev ts = None \<longleftrightarrow>
     (\<forall>t \<in> set ts. table_valid s t \<and> tm_file_number t \<notin> seen) \<and> distinct (map tm_file_number ts) \<and>
     sorted_wrt (\<lambda>a b. tm_max_sequence a < tm_min_sequence b) ts \<and>
     (case prev of None \<Rightarrow> True | Some p \<Rightarrow> \<forall>t \<in> set ts. tm_max_sequence p < tm_min_sequence t)"
proof (induction s seen prev ts rule: validate_tables.induct)
  case (2 s seen prev t ts)
  show ?case
  proof (cases "table_valid s t \<and> tm_file_number t \<notin> seen \<and>
      (case prev of None \<Rightarrow> True | Some p \<Rightarrow> tm_max_sequence p < tm_min_sequence t)")
    case True
    then have step: "validate_tables s seen prev (t # ts) =
        validate_tables s (insert (tm_file_number t) seen) (Some t) ts"
      by (auto simp: table_valid_def BytewiseLess_def not_le split: option.splits)
    have chain: "tm_max_sequence p < tm_min_sequence x"
      if "tm_max_sequence p < tm_min_sequence t" "tm_max_sequence t < tm_min_sequence x" for p x
      using that True by (auto simp: table_valid_def)
    have IH: "validate_tables s (insert (tm_file_number t) seen) (Some t) ts = None \<longleftrightarrow>
        (\<forall>x \<in> set ts. table_valid s x \<and> tm_file_number x \<notin> insert (tm_file_number t) seen) \<and>
        distinct (map tm_file_number ts) \<and> sorted_wrt (\<lambda>a b. tm_max_sequence a < tm_min_sequence b) ts \<and>
        (\<forall>x \<in> set ts. tm_max_sequence t < tm_min_sequence x)"
      using True by (subst 2) (auto simp: table_valid_def BytewiseLess_def not_le split: option.splits)
    show ?thesis unfolding step IH using True chain by (cases prev) (auto intro: rev_image_eqI)
  next
    case False
    have "validate_tables s seen prev (t # ts) \<noteq> None"
      using False by (auto simp: table_valid_def BytewiseLess_def not_le not_less split: option.splits)
    then show ?thesis using False by (auto split: option.splits)
  qed
qed (auto split: option.splits)

lemma ValidateSnapshot_None: "ValidateSnapshot s = None \<longleftrightarrow> snapshot_valid s"
  by (auto simp: ValidateSnapshot_def snapshot_valid_def validate_tables_None not_le)

lemma ValidateSnapshot_Some: "(\<exists>y. ValidateSnapshot s = Some y) \<longleftrightarrow> \<not> snapshot_valid s"
  by (simp add: ValidateSnapshot_None [symmetric])

section \<open>Framing\<close>

definition manifest_header :: "bytes \<Rightarrow> bytes" where
  "manifest_header payload = le32 kManifestMagic @ le16 kVersion3 @ le16 0 @ le32 (of_nat (length payload))"

definition manifest_frame :: "bytes \<Rightarrow> bytes" where
  "manifest_frame payload = manifest_header payload @ le32 (Crc32c (manifest_header payload @ payload)) @ payload"

lemma length_manifest [simp, length_simps]:
  "length (manifest_header p) = 12" "length (manifest_frame p) = 16 + length p"
  by (simp_all add: manifest_header_def manifest_frame_def)

lemma Encode_Ok_iff:
  "Encode pb s = Ok b \<longleftrightarrow>
     snapshot_valid s \<and>
     (\<forall>t \<in> set (live_tables s). length (tm_smallest_key t) \<le> kMaxManifestFileBytes - kManifestHeaderBytes \<and>
        length (tm_largest_key t) \<le> kMaxManifestFileBytes - kManifestHeaderBytes) \<and>
     ByteSizeLong pb (to_message s) \<le> kMaxManifestFileBytes - kManifestHeaderBytes \<and>
     (\<exists>p. SerializeToString pb (to_message s) = Some p \<and> b = manifest_frame p)"
proof -
  have "PutFixed32 (PutFixed32 (PutFixed16 (PutFixed16 (PutFixed32 [] kManifestMagic) kVersion3) 0) (of_nat (length p)))
      (Crc32c2 (PutFixed32 (PutFixed16 (PutFixed16 (PutFixed32 [] kManifestMagic) kVersion3) 0) (of_nat (length p))) p) @ p =
      manifest_frame p" for p
    by (simp add: manifest_frame_def manifest_header_def PutFixed_append Crc32c2_append)
  moreover have "list_ex (\<lambda>t. length (tm_smallest_key t) > n \<or> length (tm_largest_key t) > n) ts \<longleftrightarrow>
      \<not> (\<forall>t \<in> set ts. length (tm_smallest_key t) \<le> n \<and> length (tm_largest_key t) \<le> n)" for n ts
    by (simp add: list_ex_iff) (meson not_le)
  ultimately show ?thesis
    by (auto simp: Encode_def ValidateSnapshot_Some Let_def not_less split: option.splits)
qed

text \<open>The reads of a frame's fields.\<close>

lemma frame_fields:
  "Get32 (manifest_frame p) 0 = kManifestMagic" "Get16 (manifest_frame p) 4 = kVersion3"
  "Get16 (manifest_frame p) 6 = 0" "Get32 (manifest_frame p) 8 = of_nat (length p)"
  "Get32 (manifest_frame p) 12 = Crc32c (manifest_header p @ p)"
  "drop 16 (manifest_frame p) = p" "take 12 (manifest_frame p) = manifest_header p"
  by (simp_all add: manifest_frame_def manifest_header_def slice_simps)

lemma Decode_frame:
  assumes "length p \<le> kMaxManifestFileBytes - kManifestHeaderBytes"
  shows "Decode pb (manifest_frame p) =
    (case ParseFromArray pb p of
       None \<Rightarrow> Err kCorruption
     | Some m \<Rightarrow>
         if mp_unknown m \<noteq> 0 \<or> list_ex (\<lambda>t. tp_unknown t \<noteq> 0) (mp_live_tables m) then Err kCorruption
         else
           let s = \<lparr>active_wal_number = mp_active_wal_number m, next_file_number = mp_next_file_number m,
                    last_sequence = mp_last_sequence m, live_tables = map tp_meta (mp_live_tables m),
                    immutable_wal_number = mp_immutable_wal_number m\<rparr> in
           if ValidateSnapshot s \<noteq> None then Err kCorruption else Ok s)"
proof -
  have "length p \<le> max_u32" using assms by (simp add: kMaxManifestFileBytes_def kManifestHeaderBytes_def max_u32_def)
  then show ?thesis using assms
    by (auto simp: Decode_def kManifestHeaderBytes_def kMaxManifestFileBytes_def frame_fields Crc32c2_append
        kVersion1_def kVersion3_def split: option.splits)
qed

lemma Encode_Decode:
  assumes pb: "protobuf_ok pb" and enc: "Encode pb s = Ok b"
  shows "Decode pb b = Ok s"
proof -
  from enc obtain p where p: "snapshot_valid s" "SerializeToString pb (to_message s) = Some p" "b = manifest_frame p"
    "ByteSizeLong pb (to_message s) \<le> kMaxManifestFileBytes - kManifestHeaderBytes"
    by (auto simp: Encode_Ok_iff)
  have "no_unknown (to_message s)" by (simp add: no_unknown_def to_message_def)
  with pb p(2) have "ByteSizeLong pb (to_message s) = length p" "ParseFromArray pb p = Some (to_message s)"
    by (auto simp: protobuf_ok_def)
  with p show ?thesis
    by (cases s) (simp add: Decode_frame to_message_def list_ex_iff ValidateSnapshot_Some comp_def Let_def)
qed

lemma Decode_Ok_valid: "Decode pb b = Ok s \<Longrightarrow> snapshot_valid s"
  by (auto simp: Decode_def Let_def ValidateSnapshot_None split: if_splits option.splits)

lemma Decode_total: "Decode pb b = Err kCorruption \<or> (\<exists>s. Decode pb b = Ok s)"
  by (auto simp: Decode_def Let_def split: option.splits)

subsection \<open>Damage\<close>

lemma le32_Get32: "le32 (Get32 [a, b, c, d] 0) = [a, b, c, d]"
proof -
  let ?w = "Get32 [a, b, c, d] 0"
  have w: "?w = ucast a OR push_bit 8 (ucast b) OR push_bit 16 (ucast c) OR push_bit 24 (ucast d)"
    by (simp add: Get32_def GetFixed32_def or.assoc)
  have high: "\<not> bit (x :: byte) n" if "8 \<le> n" for x n
    using that bit_imp_le_length [of x n] by auto
  have "ucast ?w = a" "ucast (drop_bit 8 ?w) = b" "ucast (drop_bit 16 ?w) = c" "ucast (drop_bit 24 ?w) = d"
    unfolding w by (rule bit_word_eqI; auto simp: bit_simps high)+
  then show ?thesis by (simp add: PutFixed32_def)
qed

lemma Get32_inject: "length a = 4 \<Longrightarrow> length b = 4 \<Longrightarrow> Get32 a 0 = Get32 b 0 \<Longrightarrow> a = b"
  by (auto simp: length_Suc_conv numeral_eq_Suc) (metis le32_Get32 list.inject)+

lemma Get16_low: "6 \<le> length b \<Longrightarrow> ucast (Get16 b 4) = b ! 4"
proof -
  assume "6 \<le> length b"
  then have "Get16 b 4 = ucast (b ! 4) OR push_bit 8 (ucast (b ! 5))" by (auto simp: Get16_def GetFixed16_def)
  then show ?thesis by (simp, intro bit_word_eqI) (auto simp: bit_simps)
qed

lemma Get32_window: "off + 4 \<le> length b \<Longrightarrow> Get32 b off = Get32 (take 4 (drop off b)) 0"
  by (auto simp: Get32_def GetFixed32_def)

text \<open>A change of the stored fields or of anything the checksum covers.\<close>

lemma Decode_damaged:
  assumes i: "i < length (manifest_frame p)" and x: "x \<noteq> manifest_frame p ! i" and v: "i \<noteq> 4 \<or> x \<noteq> 1"
  shows "Decode pb ((manifest_frame p)[i := x]) = Err kCorruption"
proof (rule ccontr)
  let ?f = "manifest_frame p" and ?g = "(manifest_frame p)[i := x]"
  assume "\<not> ?thesis"
  then have acc: "Get32 ?g 0 = kManifestMagic" "Get16 ?g 4 \<in> {kVersion1, kVersion2, kVersion3}"
    "(if Get16 ?g 4 = kVersion1 then Crc32c (drop 16 ?g) else Crc32c (take 12 ?g @ drop 16 ?g)) = Get32 ?g 12"
    by (auto simp: Decode_def Let_def kManifestHeaderBytes_def Crc32c2_append split: if_splits)
  have "?f ! 4 = 3"
    by (simp add: manifest_frame_def manifest_header_def PutFixed32_def PutFixed16_def kVersion3_def nth_append)
  then have "?g ! 4 \<noteq> 1" using v i by (cases "i = 4") auto
  then have "Get16 ?g 4 \<noteq> kVersion1" using Get16_low [of ?g] by (auto simp: kVersion1_def)
  with acc(3) have crc: "Crc32c (take 12 ?g @ drop 16 ?g) = Get32 ?g 12" by simp
  consider "i < 12 \<or> 16 \<le> i" | "12 \<le> i" "i < 16" by linarith
  then show False
  proof cases
    case 1
    define j where "j = (if i < 12 then i else i - 4)"
    have same: "take 4 (drop 12 ?g) = take 4 (drop 12 ?f)"
      using 1 by (auto simp: drop_update_swap)
    then have "Get32 ?g 12 = Get32 ?f 12" using Get32_window [of 12 ?f] Get32_window [of 12 ?g] by simp
    moreover have "take 12 ?g @ drop 16 ?g = (take 12 ?f @ drop 16 ?f)[j := x]" "j < length (take 12 ?f @ drop 16 ?f)"
      "(take 12 ?f @ drop 16 ?f) ! j = ?f ! i"
      using 1 i by (auto simp: j_def list_update_append drop_update_swap nth_append take_update_swap list_update_beyond)
    ultimately show False
      using crc x Crc32c_list_update [of j "take 12 ?f @ drop 16 ?f" x] by (simp add: frame_fields)
  next
    case 2
    have "take 12 ?g = take 12 ?f" "drop 16 ?g = drop 16 ?f" using 2 by simp_all
    with crc have "Get32 ?g 12 = Get32 ?f 12" by (simp add: frame_fields)
    then have "take 4 (drop 12 ?g) = take 4 (drop 12 ?f)"
      using Get32_window [of 12 ?f] Get32_window [of 12 ?g] by (intro Get32_inject) simp_all
    then have "take 4 (drop 12 ?g) ! (i - 12) = take 4 (drop 12 ?f) ! (i - 12)" by simp
    then show False using 2 x i by simp
  qed
qed

section \<open>Properties\<close>

text \<open>
  A concrete payload format for the witnesses: the wire bytes Protobuf gives a snapshot of a young
  database, with one-byte numbers and no tables.
\<close>

definition sample_payload :: "ManifestSnapshotProto \<Rightarrow> bytes option" where
  "sample_payload m =
     (if mp_live_tables m = [] \<and> mp_last_sequence m = 0 \<and> mp_immutable_wal_number m < 128 \<and>
         mp_active_wal_number m < 128 \<and> mp_next_file_number m < 128
      then Some ([8, ucast (mp_active_wal_number m), 16, ucast (mp_next_file_number m)] @
                 (if mp_immutable_wal_number m = 0 then [] else [40, ucast (mp_immutable_wal_number m)])) else None)"

fun sample_parse :: "bytes \<Rightarrow> ManifestSnapshotProto option" where
  "sample_parse (f # a # g # n # rest) =
     (if f = 8 \<and> g = 16 \<and> a < 128 \<and> n < 128 \<and> (rest = [] \<or> (length rest = 2 \<and> hd rest = 40 \<and> last rest < 128))
      then Some \<lparr>mp_active_wal_number = ucast a, mp_next_file_number = ucast n, mp_last_sequence = 0,
                 mp_live_tables = [], mp_immutable_wal_number = (if rest = [] then 0 else ucast (last rest)),
                 mp_unknown = 0\<rparr> else None)"
| "sample_parse _ = None"

definition sample_pb :: Protobuf where
  "sample_pb =
     \<lparr>ByteSizeLong = (\<lambda>m. case sample_payload m of None \<Rightarrow> 0 | Some b \<Rightarrow> length b),
      SerializeToString = sample_payload, ParseFromArray = sample_parse\<rparr>"

definition initial_snapshot :: ManifestSnapshot where
  "initial_snapshot =
     \<lparr>active_wal_number = 1, next_file_number = 2, last_sequence = 0, live_tables = [], immutable_wal_number = 0\<rparr>"

lemma small_number:
  assumes "(a :: u64) < 128"
  shows "(ucast (ucast a :: byte) :: u64) = a" and "(ucast a :: byte) < 128"
proof -
  have a: "unat a < 128" using assms by (simp add: word_less_nat_alt)
  then have b: "unat (ucast a :: byte) = unat a"
    by (simp add: unsigned_ucast_eq unsigned_take_bit_eq take_bit_nat_eq_self)
  then show "(ucast a :: byte) < 128" using a by (simp add: word_less_nat_alt)
  have "unat (ucast (ucast a :: byte) :: u64) = unat a"
    unfolding unsigned_ucast_eq unsigned_take_bit_eq b using a by (simp add: take_bit_nat_eq_self)
  then show "(ucast (ucast a :: byte) :: u64) = a" by (rule unsigned_word_eqI)
qed

lemma sample_pb_ok: "protobuf_ok sample_pb"
  by (auto simp: protobuf_ok_def sample_pb_def sample_payload_def no_unknown_def small_number
      intro!: ManifestSnapshotProto.equality split: if_splits)

lemma sample_encodes: "Encode sample_pb initial_snapshot = Ok (manifest_frame [8, 1, 16, 2])"
  by (simp add: Encode_Ok_iff snapshot_valid_def initial_snapshot_def sample_pb_def sample_payload_def to_message_def
      kMaxManifestFileBytes_def kManifestHeaderBytes_def)

text \<open>
  Encoding a manifest and decoding the bytes gives the same snapshot back, for every Protobuf
  implementation that parses what it serialized; and what the encoder accepts respects the file limit.
\<close>

theorem manifest_roundtrip:
  assumes "protobuf_ok pb" and "Encode pb s = Ok b"
  shows "Decode pb b = Ok s \<and> length b \<le> kMaxManifestFileBytes"
proof -
  obtain p where p: "SerializeToString pb (to_message s) = Some p" "b = manifest_frame p"
    "ByteSizeLong pb (to_message s) \<le> kMaxManifestFileBytes - kManifestHeaderBytes"
    using assms(2) by (auto simp: Encode_Ok_iff)
  have "no_unknown (to_message s)" by (simp add: no_unknown_def to_message_def)
  with assms(1) p have "length b \<le> kMaxManifestFileBytes"
    by (auto simp: protobuf_ok_def kMaxManifestFileBytes_def kManifestHeaderBytes_def)
  then show ?thesis using Encode_Decode [OF assms] by simp
qed

theorem manifest_roundtrip_witness:
  "\<exists>b. Encode sample_pb initial_snapshot = Ok b \<and> Decode sample_pb b = Ok initial_snapshot"
  using manifest_roundtrip [OF sample_pb_ok sample_encodes] sample_encodes by blast

text \<open>
  C34: Whatever bytes a manifest file holds, decoding gives \<open>kCorruption\<close> or a snapshot in which every
  number is allocated and used once (the two logs and each table), every table has an ordered key range
  and a sequence range within the last sequence, and the tables' sequence ranges are disjoint and increase
  from the oldest table to the newest.
\<close>

theorem manifest_decode_sound:
  "Decode pb b = Err kCorruption \<or> (\<exists>s. Decode pb b = Ok s \<and> snapshot_valid s)"
  using Decode_total [of pb b] Decode_Ok_valid by blast

text \<open>
  A manifest with any one byte altered, in the header, the checksum or the payload, is refused as
  corrupted; the only change outside this guarantee is one that turns the version into 1, whose checksum
  does not cover the header.
\<close>

theorem manifest_damage_detected:
  assumes "Encode pb s = Ok b" and "i < length b" and "x \<noteq> b ! i" and "i \<noteq> 4 \<or> x \<noteq> 1"
  shows "Decode pb (b[i := x]) = Err kCorruption"
  using assms Decode_damaged [of i _ x pb] by (auto simp: Encode_Ok_iff)

theorem manifest_damage_detected_witness:
  "\<exists>b x. Encode sample_pb initial_snapshot = Ok b \<and> x \<noteq> b ! 18 \<and> Decode sample_pb (b[18 := x]) = Err kCorruption"
proof -
  let ?b = "manifest_frame [8, 1, 16, 2]"
  have "Decode sample_pb (?b[18 := ?b ! 18 + 1]) = Err kCorruption"
    by (rule manifest_damage_detected [OF sample_encodes]) simp_all
  then show ?thesis using sample_encodes by (intro exI [of _ ?b] exI [of _ "?b ! 18 + 1"]) simp
qed

end
