(* ===== verification/File_Io.thy ===== *)
theory File_Io
  imports Status
begin

text \<open>
  \<open>src/io/file.cpp\<close>: the loops the POSIX file classes put around system calls. A file carries its
  bytes and, for each system call, the outcomes the operating system will report: a short count,
  an interruption, or an error. An exhausted list of outcomes stands for calls that succeed in
  full, so every run of the loops is finite and the lemmas hold for every finite pattern of short
  reads, short writes and interruptions.
\<close>

section \<open>Outcomes of system calls\<close>

datatype io_outcome = Count nat | Interrupted | Failed

text \<open>\<open>read\<close> and \<open>pread\<close> return at least one byte unless the end of the file is reached.\<close>

definition transfer :: "nat \<Rightarrow> nat \<Rightarrow> nat" where
  "transfer n available = min available (max 1 n)"

lemma transfer_le: "transfer n a \<le> a"
  by (simp add: transfer_def)

lemma transfer_zero: "transfer n a = 0 \<longleftrightarrow> a = 0"
  by (auto simp: transfer_def)

section \<open>Sequential files\<close>

record SequentialFile =
  sq_data :: bytes
  sq_reads :: "io_outcome list"

text \<open>\<open>PosixSequentialFile::Read\<close>: retry on \<open>EINTR\<close>, otherwise return what \<open>read\<close> returned.\<close>

fun sq_read_loop :: "bytes \<Rightarrow> io_outcome list \<Rightarrow> nat \<Rightarrow> bytes result \<times> SequentialFile" where
  "sq_read_loop d [] want = (Ok (take want d), \<lparr>sq_data = drop want d, sq_reads = []\<rparr>)"
| "sq_read_loop d (Interrupted # os) want = sq_read_loop d os want"
| "sq_read_loop d (Failed # os) want = (Err kIOError, \<lparr>sq_data = d, sq_reads = os\<rparr>)"
| "sq_read_loop d (Count n # os) want =
     (let k = transfer n (min want (length d))
      in (Ok (take k d), \<lparr>sq_data = drop k d, sq_reads = os\<rparr>))"

definition SequentialRead :: "nat \<Rightarrow> (SequentialFile, bytes) op" where
  "SequentialRead want f = sq_read_loop (sq_data f) (sq_reads f) want"

definition reads_ok :: "io_outcome list \<Rightarrow> bool" where
  "reads_ok os = list_all (\<lambda>r. r \<noteq> Failed) os"

lemma reads_ok_simps [simp]:
  "reads_ok []" "reads_ok (r # os) \<longleftrightarrow> r \<noteq> Failed \<and> reads_ok os"
  by (simp_all add: reads_ok_def)

lemma sq_read_loop_Ok:
  "sq_read_loop d os want = (Ok x, f) \<Longrightarrow>
     d = x @ sq_data f \<and> length x \<le> want \<and> (x = [] \<longleftrightarrow> want = 0 \<or> d = [])"
proof (induction d os want rule: sq_read_loop.induct)
  case (4 d n os want)
  define k where "k = transfer n (min want (length d))"
  have k: "k \<le> want" "k \<le> length d" "k = 0 \<longleftrightarrow> want = 0 \<or> d = []"
    using transfer_le [of n "min want (length d)"] transfer_zero [of n "min want (length d)"]
    by (auto simp: k_def min_def split: if_splits)
  from 4 have "x = take k d" "f = \<lparr>sq_data = drop k d, sq_reads = os\<rparr>"
    by (simp_all add: Let_def k_def)
  with k show ?case by auto
next
  case (2 d os want)
  from 2(2) show ?case by (intro 2(1)) simp
qed auto

lemma sq_read_loop_total:
  "reads_ok os \<Longrightarrow> \<exists>x f. sq_read_loop d os want = (Ok x, f) \<and> reads_ok (sq_reads f)"
  by (induction d os want rule: sq_read_loop.induct) (auto simp: Let_def)

lemma sq_read_loop_no_UB: "fst (sq_read_loop d os want) \<noteq> UB"
  by (induction d os want rule: sq_read_loop.induct) (auto simp: Let_def)

section \<open>Random-access files\<close>

record RandomAccessFile =
  ra_data :: bytes
  ra_reads :: "io_outcome list"

fun ra_read_loop :: "bytes \<Rightarrow> io_outcome list \<Rightarrow> nat \<Rightarrow> nat \<Rightarrow> bytes result \<times> io_outcome list" where
  "ra_read_loop d [] off want = (Ok (take want (drop off d)), [])"
| "ra_read_loop d (Interrupted # os) off want = ra_read_loop d os off want"
| "ra_read_loop d (Failed # os) off want = (Err kIOError, os)"
| "ra_read_loop d (Count n # os) off want =
     (Ok (take (transfer n (min want (length d - off))) (drop off d)), os)"

definition ReadAt :: "nat \<Rightarrow> nat \<Rightarrow> (RandomAccessFile, bytes) op" where
  "ReadAt off want f =
     (case ra_read_loop (ra_data f) (ra_reads f) off want of
        (r, os) \<Rightarrow> (r, f\<lparr>ra_reads := os\<rparr>))"

definition FileSize :: "RandomAccessFile \<Rightarrow> nat" where
  "FileSize f = length (ra_data f)"

lemma ReadAt_data: "ReadAt off want f = (r, f') \<Longrightarrow> ra_data f' = ra_data f"
  by (auto simp: ReadAt_def split: prod.splits)

lemma ra_read_loop_Ok:
  "ra_read_loop d os off want = (Ok x, os') \<Longrightarrow>
     (\<exists>k \<le> want. k \<le> length d - off \<and> x = take k (drop off d) \<and> (k = 0 \<longleftrightarrow> want = 0 \<or> length d \<le> off))"
proof (induction d os off want rule: ra_read_loop.induct)
  case (1 d off want)
  then show ?case
    by (intro exI [of _ "min want (length d - off)"]) (auto simp: min_def split: if_splits)
next
  case (4 d n os off want)
  then show ?case
    using transfer_le [of n "min want (length d - off)"] transfer_zero [of n "min want (length d - off)"]
    by (intro exI [of _ "transfer n (min want (length d - off))"]) (auto simp: min_def split: if_splits)
qed auto

lemma ReadAt_Ok:
  assumes "ReadAt off want f = (Ok x, f')"
  obtains k where "k \<le> want" "k \<le> length (ra_data f) - off" "x = take k (drop off (ra_data f))"
    "k = 0 \<longleftrightarrow> want = 0 \<or> length (ra_data f) \<le> off"
  using assms ra_read_loop_Ok [of "ra_data f" "ra_reads f" off want x]
  by (auto simp: ReadAt_def split: prod.splits)

lemma ra_read_loop_total:
  "reads_ok os \<Longrightarrow> \<exists>x os'. ra_read_loop d os off want = (Ok x, os') \<and> reads_ok os'"
  by (induction d os off want rule: ra_read_loop.induct) auto

lemma ra_read_loop_Err: "ra_read_loop d os off want = (x, os') \<Longrightarrow> (\<exists>y. x = Ok y) \<or> x = Err kIOError"
  by (induction d os off want rule: ra_read_loop.induct) auto

lemma ReadAt_total:
  "reads_ok (ra_reads f) \<Longrightarrow> \<exists>x f'. ReadAt off want f = (Ok x, f') \<and> reads_ok (ra_reads f')"
  using ra_read_loop_total [of "ra_reads f" "ra_data f" off want] by (auto simp: ReadAt_def)

text \<open>
  \<open>ReadExactly\<close> fills the buffer or fails; a read of zero bytes before it is full is corruption.
\<close>

function ReadExactly :: "nat \<Rightarrow> nat \<Rightarrow> (RandomAccessFile, bytes) op" where
  "ReadExactly off n f =
     (if n = 0 then op_return [] f
      else op_bind (ReadAt off n) (\<lambda>x.
        if x = [] then op_fail kCorruption
        else op_bind (ReadExactly (off + length x) (n - length x)) (\<lambda>y. op_return (x @ y))) f)"
  by pat_completeness auto
termination
  by (relation "measure (\<lambda>(off, n, f). n)") auto

declare ReadExactly.simps [simp del]

lemma ReadExactly_in_range:
  "reads_ok (ra_reads f) \<Longrightarrow> off + n \<le> length (ra_data f) \<Longrightarrow>
     \<exists>f'. ReadExactly off n f = (Ok (take n (drop off (ra_data f))), f') \<and> reads_ok (ra_reads f') \<and>
       ra_data f' = ra_data f"
proof (induction n arbitrary: off f rule: less_induct)
  case (less n)
  show ?case
  proof (cases "n = 0")
    case False
    obtain x f1 where r: "ReadAt off n f = (Ok x, f1)" "reads_ok (ra_reads f1)"
      using ReadAt_total [OF less.prems(1)] by blast
    obtain k where k0: "k \<le> n" "k \<le> length (ra_data f) - off" "x = take k (drop off (ra_data f))"
      "k = 0 \<longleftrightarrow> n = 0 \<or> length (ra_data f) \<le> off"
      by (rule ReadAt_Ok [OF r(1)])
    then have k: "k \<le> n" "k \<noteq> 0" "x = take k (drop off (ra_data f))" "length x = k"
      using False less.prems(2) by auto
    have d1: "ra_data f1 = ra_data f" by (rule ReadAt_data [OF r(1)])
    obtain f' where rest: "ReadExactly (off + k) (n - k) f1 =
        (Ok (take (n - k) (drop (off + k) (ra_data f))), f')" "reads_ok (ra_reads f')" "ra_data f' = ra_data f"
      using less.IH [of "n - k" f1 "off + k"] False k r(2) less.prems(2) d1 by auto
    have "x @ take (n - k) (drop (off + k) (ra_data f)) = take n (drop off (ra_data f))"
      using k take_add [of k "n - k" "drop off (ra_data f)"] by (simp add: add.commute)
    then have "ReadExactly off n f = (Ok (take n (drop off (ra_data f))), f')"
      using False k(2,4) r(1) rest(1)
      by (subst ReadExactly.simps) (auto simp add: op_bind_def op_simps)
    with rest show ?thesis by blast
  qed (use less.prems in \<open>simp add: ReadExactly.simps [of off 0] op_simps\<close>)
qed

lemma ReadExactly_past_end:
  "reads_ok (ra_reads f) \<Longrightarrow> length (ra_data f) < off + n \<Longrightarrow> 0 < n \<Longrightarrow>
     fst (ReadExactly off n f) = Err kCorruption"
proof (induction n arbitrary: off f rule: less_induct)
  case (less n)
  obtain x f1 where r: "ReadAt off n f = (Ok x, f1)" "reads_ok (ra_reads f1)"
    using ReadAt_total [OF less.prems(1)] by blast
  have d1: "ra_data f1 = ra_data f" by (rule ReadAt_data [OF r(1)])
  obtain k where k: "k \<le> n" "k \<le> length (ra_data f) - off" "x = take k (drop off (ra_data f))"
    "k = 0 \<longleftrightarrow> n = 0 \<or> length (ra_data f) \<le> off"
    using ReadAt_Ok [OF r(1)] by blast
  show ?case
  proof (cases "k = 0")
    case True
    then show ?thesis
      using less.prems(3) k by (subst ReadExactly.simps) (simp add: op_bind_def r(1) op_simps)
  next
    case False
    then have ne: "x \<noteq> []" "length x = k" using k by auto
    have "fst (ReadExactly (off + k) (n - k) f1) = Err kCorruption"
      using less.IH [of "n - k" f1 "off + k"] False k less.prems r(2) d1 by auto
    then show ?thesis
      using less.prems(3) ne
      by (subst ReadExactly.simps)
         (cases "ReadExactly (off + k) (n - k) f1", simp add: r(1) op_bind_def)
  qed
qed

text \<open>Every outcome: the exact bytes, a failed system call, or corruption for a range past the end.\<close>

lemma ReadExactly_outcomes:
  "ReadExactly off n f = (x, f') \<Longrightarrow>
     ra_data f' = ra_data f \<and> (reads_ok (ra_reads f) \<longrightarrow> reads_ok (ra_reads f')) \<and>
     (x = Ok (take n (drop off (ra_data f))) \<and> (n = 0 \<or> off + n \<le> length (ra_data f)) \<or>
      x = Err kIOError \<and> \<not> reads_ok (ra_reads f) \<or>
      x = Err kCorruption \<and> length (ra_data f) < off + n)"
proof (induction n arbitrary: off f x f' rule: less_induct)
  case (less n)
  show ?case
  proof (cases "n = 0")
    case False
    obtain z f1 where z: "ReadAt off n f = (z, f1)" by fastforce
    have d: "ra_data f1 = ra_data f" by (rule ReadAt_data [OF z])
    have ok: "reads_ok (ra_reads f) \<Longrightarrow> reads_ok (ra_reads f1) \<and> (\<exists>y. z = Ok y)"
      using ReadAt_total [of f off n] z by auto
    show ?thesis
    proof (cases z)
      case (Ok y)
      obtain k where k: "k \<le> n" "k \<le> length (ra_data f) - off" "y = take k (drop off (ra_data f))"
        "k = 0 \<longleftrightarrow> n = 0 \<or> length (ra_data f) \<le> off"
        by (rule ReadAt_Ok [OF z [unfolded Ok]])
      show ?thesis
      proof (cases "y = []")
        case True
        then have "length (ra_data f) < off + n" using k False by auto
        moreover have "(x, f') = (Err kCorruption, f1)" using less.prems False z Ok True
          by (subst (asm) ReadExactly.simps) (simp add: op_bind_def op_simps)
        ultimately show ?thesis using d ok by simp
      next
        case y: False
        obtain w f2 where w: "ReadExactly (off + length y) (n - length y) f1 = (w, f2)" by fastforce
        have ly: "length y = k" "0 < k" using k y by auto
        have ih: "ra_data f2 = ra_data f \<and> (reads_ok (ra_reads f1) \<longrightarrow> reads_ok (ra_reads f2)) \<and>
           (w = Ok (take (n - k) (drop (off + k) (ra_data f))) \<and> (n - k = 0 \<or> off + k + (n - k) \<le> length (ra_data f)) \<or>
            w = Err kIOError \<and> \<not> reads_ok (ra_reads f1) \<or>
            w = Err kCorruption \<and> length (ra_data f) < off + k + (n - k))"
          using less.IH [OF _ w] False ly d by simp
        have cat: "y @ take (n - k) (drop (off + k) (ra_data f)) = take n (drop off (ra_data f))"
          using k take_add [of k "n - k" "drop off (ra_data f)"] by (simp add: add.commute)
        have "(x, f') = (case w of Ok v \<Rightarrow> Ok (y @ v) | Err c \<Rightarrow> Err c | UB \<Rightarrow> UB, f2)"
          using less.prems False z Ok y w
          by (subst (asm) ReadExactly.simps) (auto simp: op_bind_def op_simps split: result.splits)
        moreover have "off + k + (n - k) = off + n" "n - k = 0 \<Longrightarrow> off + n \<le> length (ra_data f)"
          using k ly by auto
        ultimately show ?thesis using ih cat ok by auto
      qed
    next
      case (Err c)
      have "c = kIOError"
        using z Err ra_read_loop_Err by (fastforce simp: ReadAt_def split: prod.splits)
      moreover have "(x, f') = (Err c, f1)" using less.prems False z Err
        by (subst (asm) ReadExactly.simps) (simp add: op_bind_def op_simps)
      ultimately show ?thesis using d ok Err by auto
    next
      case UB
      then show ?thesis using z ra_read_loop_Err by (fastforce simp: ReadAt_def split: prod.splits)
    qed
  qed (use less.prems in \<open>auto simp: ReadExactly.simps [of off 0] op_simps\<close>)
qed


section \<open>Writable files\<close>

text \<open>
  \<open>wf_data\<close> is what a reader of the file sees, \<open>wf_durable\<close> the bytes that are known to survive a
  power loss: \<open>fsync\<close> makes everything written so far durable.
\<close>

record WritableFile =
  wf_open :: bool
  wf_data :: bytes
  wf_durable :: bytes
  wf_writes :: "io_outcome list"
  wf_syncs :: "io_outcome list"
  wf_closes :: "io_outcome list"

text \<open>
  The loop of \<open>PosixWritableFile::Append\<close> over the unwritten suffix: a short write is continued, an
  interruption is retried, a zero count is turned into an error.
\<close>

fun append_loop :: "bytes \<Rightarrow> io_outcome list \<Rightarrow> bytes \<Rightarrow> StatusCode \<times> bytes \<times> io_outcome list" where
  "append_loop [] os content = (kOk, content, os)"
| "append_loop data [] content = (kOk, content @ data, [])"
| "append_loop data (Interrupted # os) content = append_loop data os content"
| "append_loop data (Failed # os) content = (kIOError, content, os)"
| "append_loop data (Count n # os) content =
     (if n = 0 then (kIOError, content, os)
      else append_loop (drop (min n (length data)) data) os (content @ take (min n (length data)) data))"

definition Append :: "bytes \<Rightarrow> WritableFile \<Rightarrow> StatusCode \<times> WritableFile" where
  "Append data f =
     (if \<not> wf_open f \<and> data \<noteq> [] then (kIOError, f)
      else case append_loop data (wf_writes f) (wf_data f) of
        (c, content, os) \<Rightarrow> (c, f\<lparr>wf_data := content, wf_writes := os\<rparr>))"

definition Sync :: "WritableFile \<Rightarrow> StatusCode \<times> WritableFile" where
  "Sync f =
     (if \<not> wf_open f then (kIOError, f)
      else case wf_syncs f of
        [] \<Rightarrow> (kOk, f\<lparr>wf_durable := wf_data f\<rparr>)
      | Count n # os \<Rightarrow> (kOk, f\<lparr>wf_durable := wf_data f, wf_syncs := os\<rparr>)
      | _ # os \<Rightarrow> (kIOError, f\<lparr>wf_syncs := os\<rparr>))"

definition CloseFile :: "WritableFile \<Rightarrow> StatusCode \<times> WritableFile" where
  "CloseFile f =
     (if \<not> wf_open f then (kOk, f)
      else case wf_closes f of
        [] \<Rightarrow> (kOk, f\<lparr>wf_open := False\<rparr>)
      | Count n # os \<Rightarrow> (kOk, f\<lparr>wf_open := False, wf_closes := os\<rparr>)
      | _ # os \<Rightarrow> (kIOError, f\<lparr>wf_open := False, wf_closes := os\<rparr>))"

lemma append_loop_result:
  "append_loop data os content = (c, content', os') \<Longrightarrow>
     (c = kOk \<and> content' = content @ data) \<or>
     (c = kIOError \<and> (\<exists>k < length data. content' = content @ take k data))"
proof (induction data os content rule: append_loop.induct)
  case (5 b data n os content)
  let ?d = "b # data"
  show ?case
  proof (cases "n = 0")
    case True
    with 5 show ?thesis by auto
  next
    case False
    define m where "m = min n (length ?d)"
    have m: "0 < m" "m \<le> length ?d" using False by (auto simp: m_def)
    have "append_loop (drop m ?d) os (content @ take m ?d) = (c, content', os')"
      using 5(2) False by (simp add: m_def)
    then have "(c = kOk \<and> content' = (content @ take m ?d) @ drop m ?d) \<or>
        (c = kIOError \<and> (\<exists>k < length (drop m ?d). content' = (content @ take m ?d) @ take k (drop m ?d)))"
      using 5(1) [OF False] by (simp add: m_def)
    moreover have "(content @ take m ?d) @ take k (drop m ?d) = content @ take (m + k) ?d" for k
      by (simp only: append_assoc take_add)
    moreover have "k < length (drop m ?d) \<Longrightarrow> m + k < length ?d" for k using m by auto
    ultimately show ?thesis by (metis append_assoc append_take_drop_id)
  qed
qed auto

lemma append_loop_all: "append_loop d [] c = (kOk, c @ d, [])"
  by (cases d) simp_all

text \<open>An append is complete when it reports success, and a proper prefix when it fails.\<close>

lemma Append_result:
  assumes "Append data f = (c, f')"
  shows "(c = kOk \<and> wf_data f' = wf_data f @ data) \<or>
     (c = kIOError \<and> data \<noteq> [] \<and> (\<exists>k < length data. wf_data f' = wf_data f @ take k data))"
  using assms append_loop_result [of data "wf_writes f" "wf_data f"]
  by (auto simp: Append_def split: if_splits prod.splits)

section \<open>Properties\<close>

text \<open>
  \<open>ReadExactly\<close> under every pattern of short reads, interruptions and failures: it returns exactly the
  requested bytes, or the failed call's \<open>kIOError\<close>, or \<open>kCorruption\<close> for a range that ends past the file,
  and it never changes the file.
\<close>

theorem read_exactly_outcomes:
  "(\<lambda>(x, f'). ra_data f' = ra_data f \<and>
     (x = Ok (take n (drop off (ra_data f))) \<and> (n = 0 \<or> off + n \<le> length (ra_data f)) \<or>
      x = Err kIOError \<and> \<not> reads_ok (ra_reads f) \<or>
      x = Err kCorruption \<and> \<not> off + n \<le> length (ra_data f))) (ReadExactly off n f)"
proof -
  obtain x f' where r: "ReadExactly off n f = (x, f')" by fastforce
  show ?thesis using ReadExactly_outcomes [OF r] unfolding r prod.case not_le by blast
qed

text \<open>
  \<open>Append\<close> either reports success and has written all of its data behind what was there, or reports
  \<open>kIOError\<close> and has written a proper prefix: what is in the file is never reordered, skipped or written twice.
\<close>

theorem append_all_or_prefix:
  "(\<lambda>(c, f'). (c = kOk \<and> wf_data f' = wf_data f @ d) \<or>
     (c = kIOError \<and> (\<exists>k < length d. wf_data f' = wf_data f @ take k d))) (Append d f)"
proof -
  obtain c f' where r: "Append d f = (c, f')" by fastforce
  show ?thesis using Append_result [OF r] unfolding r prod.case by blast
qed

end
