(* ===== verification/File_System.thy ===== *)
theory File_System
  imports File_Io "HOL-Library.Sublist"
begin

text \<open>
  \<open>PosixFileSystem\<close> of \<open>src/io/file.cpp\<close>: the operations on names. The state is one database
  directory: names bound to numbered files (the inodes), for each file what a reader sees and what an
  \<open>fsync\<close> has made durable, and the directory states since the last directory sync. Every system call
  has its outcome in the state, so the lemmas hold for every pattern of failures: \<open>fs_faults\<close> says of
  each call on names whether it fails, and \<open>fs_plans\<close> what the calls on each opened file will report.

  \<open>crashed\<close> is what a power loss may leave: each name is bound as in some directory state since the last
  directory sync, and a file whose last change was synced keeps its contents, every other file at least
  the part that was.
\<close>

section \<open>State\<close>

record FileNode =
  nd_data :: bytes
  nd_durable :: bytes
  nd_clean :: bool

record IoPlan =
  pl_transfers :: "io_outcome list"
  pl_syncs :: "io_outcome list"
  pl_closes :: "io_outcome list"

type_synonym directory = "(string \<times> nat) list"

record FileSystem =
  fs_exists :: bool
  fs_locked :: bool
  fs_dir :: directory
  fs_past :: "directory list"
  fs_nodes :: "nat \<Rightarrow> FileNode"
  fs_fresh :: nat
  fs_faults :: "bool list"
  fs_plans :: "IoPlan list"

definition pop_fault :: "FileSystem \<Rightarrow> bool \<times> FileSystem" where
  "pop_fault fs = (case fs_faults fs of [] \<Rightarrow> (False, fs) | b # bs \<Rightarrow> (b, fs\<lparr>fs_faults := bs\<rparr>))"

text \<open>A system call on names: \<open>kIOError\<close> and no effect when it fails.\<close>

definition syscall :: "(FileSystem, 'a) op \<Rightarrow> (FileSystem, 'a) op" where
  "syscall m fs = (case pop_fault fs of (fault, fs') \<Rightarrow> if fault then (Err kIOError, fs') else m fs')"

definition no_plan :: IoPlan where
  "no_plan = \<lparr>pl_transfers = [], pl_syncs = [], pl_closes = []\<rparr>"

definition pop_plan :: "FileSystem \<Rightarrow> IoPlan \<times> FileSystem" where
  "pop_plan fs = (case fs_plans fs of [] \<Rightarrow> (no_plan, fs) | p # ps \<Rightarrow> (p, fs\<lparr>fs_plans := ps\<rparr>))"

definition change_dir :: "directory \<Rightarrow> FileSystem \<Rightarrow> FileSystem" where
  "change_dir d fs = fs\<lparr>fs_dir := d, fs_past := fs_dir fs # fs_past fs\<rparr>"

definition set_node :: "nat \<Rightarrow> FileNode \<Rightarrow> FileSystem \<Rightarrow> FileSystem" where
  "set_node i n fs = fs\<lparr>fs_nodes := (fs_nodes fs)(i := n)\<rparr>"

definition bound :: "FileSystem \<Rightarrow> string \<Rightarrow> nat option" where
  "bound fs name = map_of (fs_dir fs) name"

section \<open>Operations on names\<close>

definition OpenSequential :: "string \<Rightarrow> (FileSystem, SequentialFile) op" where
  "OpenSequential name = syscall (\<lambda>fs.
     case bound fs name of
       None \<Rightarrow> (Err kIOError, fs)
     | Some i \<Rightarrow> (case pop_plan fs of (p, fs') \<Rightarrow>
         (Ok \<lparr>sq_data = nd_data (fs_nodes fs i), sq_reads = pl_transfers p\<rparr>, fs')))"

definition OpenRandomAccess :: "string \<Rightarrow> (FileSystem, RandomAccessFile) op" where
  "OpenRandomAccess name = syscall (\<lambda>fs.
     case bound fs name of
       None \<Rightarrow> (Err kIOError, fs)
     | Some i \<Rightarrow> (case pop_plan fs of (p, fs') \<Rightarrow>
         (Ok \<lparr>ra_data = nd_data (fs_nodes fs i), ra_reads = pl_transfers p\<rparr>, fs')))"

text \<open>
  A handle for writing is the number of its file with the state of \<open>PosixWritableFile\<close>. \<open>O_CREAT\<close> makes
  a missing file, \<open>O_TRUNC\<close> empties an existing one and \<open>O_APPEND\<close> keeps it.
\<close>

type_synonym handle = "nat \<times> WritableFile"

definition fresh_node :: FileNode where
  "fresh_node = \<lparr>nd_data = [], nd_durable = [], nd_clean = False\<rparr>"

definition open_handle :: "nat \<Rightarrow> FileNode \<Rightarrow> IoPlan \<Rightarrow> handle" where
  "open_handle i n p =
     (i, \<lparr>wf_open = True, wf_data = nd_data n, wf_durable = nd_durable n, wf_writes = pl_transfers p,
          wf_syncs = pl_syncs p, wf_closes = pl_closes p\<rparr>)"

definition OpenWritable :: "string \<Rightarrow> bool \<Rightarrow> (FileSystem, handle) op" where
  "OpenWritable name appending = syscall (\<lambda>fs.
     case pop_plan fs of (p, fs') \<Rightarrow>
       (case bound fs' name of
          None \<Rightarrow>
            (Ok (open_handle (fs_fresh fs') fresh_node p),
             change_dir (fs_dir fs' @ [(name, fs_fresh fs')])
               ((set_node (fs_fresh fs') fresh_node fs')\<lparr>fs_fresh := Suc (fs_fresh fs')\<rparr>))
        | Some i \<Rightarrow>
            if appending then (Ok (open_handle i (fs_nodes fs' i) p), fs')
            else (Ok (open_handle i fresh_node p), set_node i fresh_node fs')))"

definition CreateDir :: "(FileSystem, unit) op" where
  "CreateDir = syscall (\<lambda>fs. (Ok (), fs\<lparr>fs_exists := True\<rparr>))"

definition ListDir :: "(FileSystem, string list) op" where
  "ListDir = syscall (\<lambda>fs. (Ok (map fst (fs_dir fs)), fs))"

definition rename_entry :: "string \<Rightarrow> string \<Rightarrow> directory \<Rightarrow> directory" where
  "rename_entry a b d =
     (if a = b then d
      else map (\<lambda>(n, i). if n = a then (b, i) else (n, i)) (filter (\<lambda>(n, i). n \<noteq> b) d))"

definition Rename :: "string \<Rightarrow> string \<Rightarrow> (FileSystem, unit) op" where
  "Rename a b = syscall (\<lambda>fs.
     case bound fs a of
       None \<Rightarrow> (Err kIOError, fs)
     | Some i \<Rightarrow> (Ok (), change_dir (rename_entry a b (fs_dir fs)) fs))"

text \<open>\<open>unlink\<close> of a missing file fails with \<open>ENOENT\<close>, which \<open>Remove\<close> accepts.\<close>

definition Remove :: "string \<Rightarrow> (FileSystem, unit) op" where
  "Remove name = syscall (\<lambda>fs.
     case bound fs name of
       None \<Rightarrow> (Ok (), fs)
     | Some i \<Rightarrow> (Ok (), change_dir (filter (\<lambda>(n, i). n \<noteq> name) (fs_dir fs)) fs))"

text \<open>\<open>truncate\<close> takes a signed size: a value from $2^{63}$ on is negative and refused.\<close>

definition Truncate :: "string \<Rightarrow> u64 \<Rightarrow> (FileSystem, unit) op" where
  "Truncate name n = syscall (\<lambda>fs.
     case bound fs name of
       None \<Rightarrow> (Err kIOError, fs)
     | Some i \<Rightarrow>
         if 2 ^ 63 \<le> unat n then (Err kIOError, fs)
         else
           let nd = fs_nodes fs i in
           (Ok (), set_node i
              \<lparr>nd_data = take (unat n) (nd_data nd) @ replicate (unat n - length (nd_data nd)) 0,
               nd_durable = take (unat n) (nd_durable nd), nd_clean = False\<rparr> fs))"

definition FileExists :: "string \<Rightarrow> (FileSystem, bool) op" where
  "FileExists name = syscall (\<lambda>fs. (Ok (bound fs name \<noteq> None), fs))"

text \<open>\<open>FileExists\<close> asked about the database directory itself.\<close>

definition DirExists :: "(FileSystem, bool) op" where
  "DirExists = syscall (\<lambda>fs. (Ok (fs_exists fs), fs))"

text \<open>\<open>open\<close>, \<open>fsync\<close> and \<open>close\<close> of the directory: a failed \<open>close\<close> is reported although the sync is done.\<close>

definition SyncDir :: "(FileSystem, unit) op" where
  "SyncDir =
     syscall (syscall (\<lambda>fs. syscall (\<lambda>fs. (Ok (), fs)) (fs\<lparr>fs_past := []\<rparr>)))"

definition LockFile :: "string \<Rightarrow> (FileSystem, unit) op" where
  "LockFile name = syscall (\<lambda>fs.
     let fs' = (case bound fs name of
                  Some i \<Rightarrow> fs
                | None \<Rightarrow> change_dir (fs_dir fs @ [(name, fs_fresh fs)])
                    ((set_node (fs_fresh fs) fresh_node fs)\<lparr>fs_fresh := Suc (fs_fresh fs)\<rparr>)) in
     syscall (\<lambda>fs. if fs_locked fs then (Err kIOError, fs) else (Ok (), fs\<lparr>fs_locked := True\<rparr>)) fs')"

definition ReleaseLock :: "FileSystem \<Rightarrow> FileSystem" where
  "ReleaseLock fs = fs\<lparr>fs_locked := False\<rparr>"

section \<open>Operations on handles\<close>

text \<open>
  What a handle wrote is what its file holds. Syncing is noted in the file too; an empty file has no
  bytes to tell a sync by, so \<open>handle_Sync\<close> notes it explicitly.
\<close>

definition write_back :: "handle \<Rightarrow> FileSystem \<Rightarrow> FileSystem" where
  "write_back h fs =
     (case h of (i, w) \<Rightarrow>
        let n = fs_nodes fs i in
        set_node i
          \<lparr>nd_data = wf_data w, nd_durable = wf_durable w,
           nd_clean = (nd_clean n \<and> wf_data w = nd_data n \<or> wf_durable w = wf_data w \<and> wf_data w \<noteq> [])\<rparr> fs)"

definition on_handle :: "(WritableFile \<Rightarrow> StatusCode \<times> WritableFile) \<Rightarrow> handle \<Rightarrow> (FileSystem, handle) op" where
  "on_handle f h fs =
     (case f (snd h) of (c, w) \<Rightarrow>
        if c = kOk then (Ok (fst h, w), write_back (fst h, w) fs)
        else (Err c, write_back (fst h, w) fs))"

definition mark_clean :: "handle \<Rightarrow> FileSystem \<Rightarrow> FileSystem" where
  "mark_clean h fs = set_node (fst h) ((fs_nodes fs (fst h))\<lparr>nd_clean := True\<rparr>) fs"

definition handle_Append :: "bytes \<Rightarrow> handle \<Rightarrow> (FileSystem, handle) op" where
  "handle_Append d = on_handle (Append d)"

definition handle_Sync :: "handle \<Rightarrow> (FileSystem, handle) op" where
  "handle_Sync h = op_bind (on_handle Sync h) (\<lambda>h fs. (Ok h, mark_clean h fs))"

definition handle_Close :: "handle \<Rightarrow> (FileSystem, handle) op" where
  "handle_Close = on_handle CloseFile"

section \<open>Power loss\<close>

definition node_survives :: "FileNode \<Rightarrow> bytes \<Rightarrow> bool" where
  "node_survives n c = (if nd_clean n then c = nd_data n else prefix (nd_durable n) c)"

definition crashed :: "FileSystem \<Rightarrow> FileSystem \<Rightarrow> bool" where
  "crashed fs fs' \<longleftrightarrow>
     (\<forall>name. \<exists>d \<in> set (fs_dir fs # fs_past fs). bound fs' name = map_of d name) \<and>
     (\<forall>i. node_survives (fs_nodes fs i) (nd_data (fs_nodes fs' i)))"

text \<open>The same for a file system whose directory updates reach the disk in the order they were made.\<close>

definition crashed_in_order :: "FileSystem \<Rightarrow> FileSystem \<Rightarrow> bool" where
  "crashed_in_order fs fs' \<longleftrightarrow>
     (\<exists>d \<in> set (fs_dir fs # fs_past fs). bound fs' = map_of d) \<and>
     (\<forall>i. node_survives (fs_nodes fs i) (nd_data (fs_nodes fs' i)))"

lemma crashed_in_order_crashed: "crashed_in_order fs fs' \<Longrightarrow> crashed fs fs'"
  by (auto simp: crashed_in_order_def crashed_def)

text \<open>The file a name denotes, now and after every crash.\<close>

definition file_is :: "FileSystem \<Rightarrow> string \<Rightarrow> bytes \<Rightarrow> bool" where
  "file_is fs name c \<longleftrightarrow> (\<exists>i. bound fs name = Some i \<and> nd_data (fs_nodes fs i) = c)"

definition entry_settled :: "FileSystem \<Rightarrow> string \<Rightarrow> nat \<Rightarrow> bool" where
  "entry_settled fs name i \<longleftrightarrow> (\<forall>d \<in> set (fs_dir fs # fs_past fs). map_of d name = Some i)"

definition settled :: "FileSystem \<Rightarrow> string \<Rightarrow> nat \<Rightarrow> bytes \<Rightarrow> bool" where
  "settled fs name i c \<longleftrightarrow>
     (\<forall>d \<in> set (fs_dir fs # fs_past fs). map_of d name = Some i) \<and>
     nd_clean (fs_nodes fs i) \<and> nd_data (fs_nodes fs i) = c"

lemma settled_entry:
  "settled fs name i c \<longleftrightarrow> entry_settled fs name i \<and> nd_clean (fs_nodes fs i) \<and> nd_data (fs_nodes fs i) = c"
  by (simp add: settled_def entry_settled_def)

lemma entry_settled_survives: "entry_settled fs name i \<Longrightarrow> crashed fs fs' \<Longrightarrow> bound fs' name = Some i"
  unfolding entry_settled_def crashed_def by metis

lemma entry_settled_bound: "entry_settled fs name i \<Longrightarrow> bound fs name = Some i"
  by (simp add: entry_settled_def bound_def)

definition fs_inv :: "FileSystem \<Rightarrow> bool" where
  "fs_inv fs \<longleftrightarrow>
     distinct (map fst (fs_dir fs)) \<and> distinct (map snd (fs_dir fs)) \<and>
     (\<forall>d \<in> set (fs_dir fs # fs_past fs). \<forall>e \<in> set d. snd e < fs_fresh fs)"

lemma settled_survives: "settled fs name i c \<Longrightarrow> crashed fs fs' \<Longrightarrow> file_is fs' name c"
proof -
  assume s: "settled fs name i c" and c: "crashed fs fs'"
  obtain d where "d \<in> set (fs_dir fs # fs_past fs)" "bound fs' name = map_of d name"
    using c unfolding crashed_def by blast
  moreover have "node_survives (fs_nodes fs i) (nd_data (fs_nodes fs' i))" using c by (simp add: crashed_def)
  ultimately show ?thesis using s unfolding settled_def file_is_def node_survives_def by metis
qed

lemma settled_visible: "settled fs name i c \<Longrightarrow> file_is fs name c"
  by (auto simp: settled_def file_is_def bound_def)

subsection \<open>What each operation changes\<close>

text \<open>Two states with the same files differ only in the outcomes still to come.\<close>

definition same_files :: "FileSystem \<Rightarrow> FileSystem \<Rightarrow> bool" where
  "same_files fs fs' \<longleftrightarrow>
     fs_dir fs' = fs_dir fs \<and> fs_past fs' = fs_past fs \<and> fs_nodes fs' = fs_nodes fs \<and> fs_fresh fs' = fs_fresh fs"

lemma same_files_refl [simp]: "same_files fs fs"
  by (simp add: same_files_def)

lemma same_files_trans: "same_files a b \<Longrightarrow> same_files b c \<Longrightarrow> same_files a c"
  by (simp add: same_files_def)

lemma same_files_bound: "same_files fs fs' \<Longrightarrow> bound fs' = bound fs"
  by (auto simp: same_files_def bound_def)

lemma same_files_settled: "same_files fs fs' \<Longrightarrow> settled fs' name i c = settled fs name i c"
  by (simp add: same_files_def settled_def)

lemma same_files_inv: "same_files fs fs' \<Longrightarrow> fs_inv fs' = fs_inv fs"
  by (simp add: same_files_def fs_inv_def)

lemma pop_fault_same: "pop_fault fs = (b, fs') \<Longrightarrow> same_files fs fs'"
  by (auto simp: pop_fault_def same_files_def split: list.splits)

lemma pop_plan_same: "pop_plan fs = (p, fs') \<Longrightarrow> same_files fs fs'"
  by (auto simp: pop_plan_def same_files_def split: list.splits)

lemma syscall_cases:
  assumes "syscall m fs = (r, fs')"
  obtains (failed) "r = Err kIOError" "same_files fs fs'"
    | (performed) fs1 where "same_files fs fs1" "m fs1 = (r, fs')"
  using assms pop_fault_same by (auto simp: syscall_def split: prod.splits if_splits)

lemma OpenWritable_cases:
  assumes "OpenWritable name appending fs = (r, fs')"
  obtains (failed) "r = Err kIOError" "same_files fs fs'"
    | (created) p where "bound fs name = None" "r = Ok (open_handle (fs_fresh fs) fresh_node p)"
        "fs_dir fs' = fs_dir fs @ [(name, fs_fresh fs)]" "fs_past fs' = fs_dir fs # fs_past fs"
        "fs_nodes fs' = (fs_nodes fs)(fs_fresh fs := fresh_node)" "fs_fresh fs' = Suc (fs_fresh fs)"
    | (reopened) i p where "bound fs name = Some i" "appending" "r = Ok (open_handle i (fs_nodes fs i) p)" "same_files fs fs'"
    | (truncated) i p where "bound fs name = Some i" "\<not> appending" "r = Ok (open_handle i fresh_node p)"
        "same_files (set_node i fresh_node fs) fs'"
proof -
  from assms consider "r = Err kIOError" "same_files fs fs'"
    | fs1 where "same_files fs fs1"
        "(case pop_plan fs1 of (p, fs') \<Rightarrow>
           (case bound fs' name of
              None \<Rightarrow> (Ok (open_handle (fs_fresh fs') fresh_node p),
                 change_dir (fs_dir fs' @ [(name, fs_fresh fs')])
                   ((set_node (fs_fresh fs') fresh_node fs')\<lparr>fs_fresh := Suc (fs_fresh fs')\<rparr>))
            | Some i \<Rightarrow> if appending then (Ok (open_handle i (fs_nodes fs' i) p), fs')
                else (Ok (open_handle i fresh_node p), set_node i fresh_node fs'))) = (r, fs')"
    unfolding OpenWritable_def by (rule syscall_cases)
  then show ?thesis
  proof cases
    case 1
    then show ?thesis by (rule failed)
  next
    case (2 fs1)
    obtain p fs2 where p: "pop_plan fs1 = (p, fs2)" by fastforce
    have same: "same_files fs fs2" using 2(1) pop_plan_same [OF p] by (rule same_files_trans)
    show ?thesis
    proof (cases "bound fs name")
      case None
      have b: "bound fs2 name = None" using None same by (simp add: same_files_bound)
      have "r = Ok (open_handle (fs_fresh fs2) fresh_node p)"
        "fs' = change_dir (fs_dir fs2 @ [(name, fs_fresh fs2)])
           ((set_node (fs_fresh fs2) fresh_node fs2)\<lparr>fs_fresh := Suc (fs_fresh fs2)\<rparr>)"
        using 2(2) by (simp_all add: p b)
      with None same show ?thesis
        by (intro created [of p]) (simp_all add: same_files_def change_dir_def set_node_def)
    next
      case (Some i)
      show ?thesis
      proof (cases appending)
        case True
        have "bound fs2 name = Some i" "fs_nodes fs2 = fs_nodes fs"
          using Some same by (simp_all add: same_files_bound) (simp add: same_files_def)
        then show ?thesis using 2(2) same True Some by (intro reopened [of i p]) (simp_all add: p)
      next
        case False
        have "bound fs2 name = Some i" using Some same by (simp add: same_files_bound)
        then have "r = Ok (open_handle i fresh_node p)" "fs' = set_node i fresh_node fs2"
          using 2(2) False by (simp_all add: p)
        then show ?thesis using same False Some
          by (intro truncated [of i p]) (simp_all add: same_files_def set_node_def)
      qed
    qed
  qed
qed

lemma on_handle_cases:
  assumes "on_handle f (i, w) fs = (r, fs')"
  obtains w' c where "f w = (c, w')" "r = (if c = kOk then Ok (i, w') else Err c)"
    "fs' = write_back (i, w') fs"
  using assms by (auto simp: on_handle_def split: prod.splits if_splits)

lemma write_back_simps [simp]:
  "fs_dir (write_back h fs) = fs_dir fs" "fs_past (write_back h fs) = fs_past fs"
  "fs_fresh (write_back h fs) = fs_fresh fs" "bound (write_back h fs) = bound fs"
  "j \<noteq> fst h \<Longrightarrow> fs_nodes (write_back h fs) j = fs_nodes fs j"
  "nd_data (fs_nodes (write_back h fs) (fst h)) = wf_data (snd h)"
  "nd_durable (fs_nodes (write_back h fs) (fst h)) = wf_durable (snd h)"
  by (auto simp: write_back_def set_node_def bound_def Let_def split: prod.splits)

lemma mark_clean_simps [simp]:
  "fs_dir (mark_clean h fs) = fs_dir fs" "fs_past (mark_clean h fs) = fs_past fs"
  "fs_fresh (mark_clean h fs) = fs_fresh fs" "bound (mark_clean h fs) = bound fs"
  "j \<noteq> fst h \<Longrightarrow> fs_nodes (mark_clean h fs) j = fs_nodes fs j"
  "nd_data (fs_nodes (mark_clean h fs) j) = nd_data (fs_nodes fs j)"
  "nd_clean (fs_nodes (mark_clean h fs) (fst h))"
  by (auto simp: mark_clean_def set_node_def bound_def)

text \<open>
  A frame for handles: as long as a handle's own number is not the one a name is settled on, nothing
  done through the handle unsettles that name.
\<close>

definition only_node :: "nat \<Rightarrow> FileSystem \<Rightarrow> FileSystem \<Rightarrow> bool" where
  "only_node i fs fs' \<longleftrightarrow>
     fs_dir fs' = fs_dir fs \<and> fs_past fs' = fs_past fs \<and> fs_fresh fs' = fs_fresh fs \<and>
     (\<forall>j. j \<noteq> i \<longrightarrow> fs_nodes fs' j = fs_nodes fs j)"

lemma only_node_refl [simp]: "only_node i fs fs"
  by (simp add: only_node_def)

lemma only_node_trans: "only_node i a b \<Longrightarrow> only_node i b c \<Longrightarrow> only_node i a c"
  by (simp add: only_node_def)

lemma only_node_settled: "only_node i fs fs' \<Longrightarrow> j \<noteq> i \<Longrightarrow> settled fs' name j c = settled fs name j c"
  by (auto simp: only_node_def settled_def)

lemma only_node_inv: "only_node i fs fs' \<Longrightarrow> fs_inv fs' = fs_inv fs"
  by (simp add: only_node_def fs_inv_def)

lemma only_node_bound: "only_node i fs fs' \<Longrightarrow> bound fs' = bound fs"
  by (auto simp: only_node_def bound_def)

lemma write_back_only: "only_node (fst h) fs (write_back h fs)"
  by (auto simp: only_node_def)

lemma mark_clean_only: "only_node (fst h) fs (mark_clean h fs)"
  by (auto simp: only_node_def)

lemma on_handle_only: "on_handle f (i, w) fs = (r, fs') \<Longrightarrow> only_node i fs fs'"
  by (metis fst_conv on_handle_cases write_back_only)

lemma handle_Append_only: "handle_Append d (i, w) fs = (r, fs') \<Longrightarrow> only_node i fs fs'"
  unfolding handle_Append_def by (rule on_handle_only)

lemma handle_Close_only: "handle_Close (i, w) fs = (r, fs') \<Longrightarrow> only_node i fs fs'"
  unfolding handle_Close_def by (rule on_handle_only)

lemma handle_Sync_only:
  assumes "handle_Sync (i, w) fs = (r, fs')"
  shows "only_node i fs fs'"
proof -
  obtain x fs1 where x: "on_handle Sync (i, w) fs = (x, fs1)" by fastforce
  have 1: "only_node i fs fs1" by (rule on_handle_only [OF x])
  show ?thesis
  proof (cases x)
    case (Ok h)
    with x have "fst h = i" by (auto simp: on_handle_def split: prod.splits if_splits)
    with assms x Ok have "only_node i fs1 fs'"
      using mark_clean_only [of h fs1] by (simp add: handle_Sync_def op_bind_def)
    with 1 show ?thesis by (rule only_node_trans)
  qed (use assms x 1 in \<open>simp_all add: handle_Sync_def op_bind_def\<close>)
qed

lemma handle_Append_Ok:
  "handle_Append d (i, w) fs = (Ok h, fs') \<Longrightarrow> fst h = i \<and> wf_data (snd h) = wf_data w @ d \<and>
     nd_data (fs_nodes fs' i) = wf_data w @ d"
proof -
  assume a: "handle_Append d (i, w) fs = (Ok h, fs')"
  obtain c w' where w: "Append d w = (c, w')" by fastforce
  with a have "c = kOk" "h = (i, w')" "fs' = write_back (i, w') fs"
    by (auto simp: handle_Append_def on_handle_def split: if_splits)
  moreover from this w have "wf_data w' = wf_data w @ d" using Append_result [OF w] by simp
  ultimately show ?thesis using write_back_simps(6) [of "(i, w')" fs] by simp
qed

lemma handle_Sync_Ok:
  "handle_Sync (i, w) fs = (Ok h, fs') \<Longrightarrow> fst h = i \<and> wf_data (snd h) = wf_data w \<and> wf_durable (snd h) = wf_data w \<and>
     nd_data (fs_nodes fs' i) = wf_data w \<and> nd_clean (fs_nodes fs' i)"
  by (auto simp: handle_Sync_def op_bind_def on_handle_def Sync_def mark_clean_def set_node_def write_back_def Let_def
      split: prod.splits if_splits list.splits io_outcome.splits)

lemma CloseFile_data: "CloseFile w = (c, w') \<Longrightarrow> wf_data w' = wf_data w \<and> wf_durable w' = wf_durable w"
  by (auto simp: CloseFile_def split: if_splits list.splits io_outcome.splits)

lemma handle_Close_keeps:
  "handle_Close (i, w) fs = (r, fs') \<Longrightarrow> nd_data (fs_nodes fs i) = wf_data w \<Longrightarrow> nd_clean (fs_nodes fs i) \<Longrightarrow>
     nd_data (fs_nodes fs' i) = wf_data w \<and> nd_clean (fs_nodes fs' i)"
  by (auto simp: handle_Close_def on_handle_def write_back_def set_node_def Let_def dest!: CloseFile_data split: prod.splits if_splits)

subsection \<open>Names\<close>

lemma map_of_rename:
  assumes "distinct (map fst d)" and "map_of d a = Some i" and "a \<noteq> b"
  shows "map_of (rename_entry a b d) = (map_of d)(a := None, b := Some i)"
proof -
  have "map_of (map (\<lambda>(n, i). if n = a then (b, i) else (n, i)) (filter (\<lambda>(n, i). n \<noteq> b) d)) x =
      (if x = b then map_of d a else if x = a then None else map_of d x)" if "distinct (map fst d)" for x
    using that assms(3)
  proof (induction d)
    case (Cons e d)
    then show ?case by (cases e) (auto simp: map_of_eq_None_iff split: if_split_asm)
  qed auto
  then show ?thesis using assms by (auto simp: rename_entry_def fun_eq_iff)
qed

lemma rename_entry_inv:
  assumes "distinct (map fst d)" "distinct (map snd d)"
  shows "distinct (map fst (rename_entry a b d)) \<and> distinct (map snd (rename_entry a b d)) \<and>
    snd ` set (rename_entry a b d) \<subseteq> snd ` set d"
  using assms
proof (induction d)
  case (Cons e d)
  have sub: "fst ` set (rename_entry a b d) \<subseteq> fst ` set d \<union> (if a \<in> fst ` set d then {b} else {})" for d
    by (force simp: rename_entry_def split: if_splits)
  have sub2: "b \<in> fst ` set (rename_entry a b d) \<Longrightarrow> a \<noteq> b \<Longrightarrow> a \<in> fst ` set d" for d
    by (force simp: rename_entry_def split: if_splits)
  show ?case
  proof (cases "a = b")
    case True
    then show ?thesis using Cons.prems by (simp add: rename_entry_def)
  next
    case False
    obtain n i where e: "e = (n, i)" by fastforce
    have IH: "distinct (map fst (rename_entry a b d))" "distinct (map snd (rename_entry a b d))"
      "snd ` set (rename_entry a b d) \<subseteq> snd ` set d"
      using Cons by auto
    have fresh: "n \<notin> fst ` set d" "i \<notin> snd ` set d" using Cons.prems e by auto
    have step: "rename_entry a b (e # d) =
        (if n = b then rename_entry a b d else (if n = a then (b, i) else (n, i)) # rename_entry a b d)"
      using False e by (simp add: rename_entry_def)
    have "n = a \<Longrightarrow> b \<notin> fst ` set (rename_entry a b d)" using sub2 fresh False by auto
    moreover have "n \<noteq> b \<Longrightarrow> n \<notin> fst ` set (rename_entry a b d)" using sub [of d] fresh by (auto split: if_splits)
    moreover have "i \<notin> snd ` set (rename_entry a b d)" using IH(3) fresh by auto
    ultimately show ?thesis unfolding step using IH e by auto
  qed
qed (simp add: rename_entry_def)

subsection \<open>Frames\<close>

text \<open>
  An operation that concerns the names \<open>N\<close> leaves every other name bound to the same file with the same
  contents, and settled if it was.
\<close>

definition untouched :: "string set \<Rightarrow> FileSystem \<Rightarrow> FileSystem \<Rightarrow> bool" where
  "untouched N fs fs' \<longleftrightarrow>
     (\<forall>n. n \<notin> N \<longrightarrow> bound fs' n = bound fs n \<and>
        (\<forall>k. bound fs n = Some k \<longrightarrow> fs_nodes fs' k = fs_nodes fs k) \<and>
        (\<forall>k. entry_settled fs n k \<longrightarrow> entry_settled fs' n k))"

definition keeps :: "string set \<Rightarrow> FileSystem \<Rightarrow> FileSystem \<Rightarrow> bool" where
  "keeps N fs fs' \<longleftrightarrow> fs_inv fs' \<and> untouched N fs fs'"

lemma keeps_trans: "keeps N a b \<Longrightarrow> keeps N b c \<Longrightarrow> keeps N a c"
  unfolding keeps_def untouched_def by metis

lemma keeps_mono: "keeps M a b \<Longrightarrow> M \<subseteq> N \<Longrightarrow> keeps N a b"
  by (auto simp: keeps_def untouched_def)

lemma keeps_inv: "keeps N a b \<Longrightarrow> fs_inv b"
  by (simp add: keeps_def)

lemma keeps_entry: "keeps N a b \<Longrightarrow> n \<notin> N \<Longrightarrow> entry_settled a n k \<Longrightarrow> entry_settled b n k"
  by (simp add: keeps_def untouched_def)

lemma keeps_node: "keeps N a b \<Longrightarrow> n \<notin> N \<Longrightarrow> bound a n = Some k \<Longrightarrow> fs_nodes b k = fs_nodes a k"
  by (simp add: keeps_def untouched_def)

lemma keeps_settled: "keeps N a b \<Longrightarrow> n \<notin> N \<Longrightarrow> settled a n k c \<Longrightarrow> settled b n k c"
proof -
  assume k: "keeps N a b" and n: "n \<notin> N" and s: "settled a n k c"
  have e: "entry_settled a n k" using s by (simp add: settled_entry)
  have "fs_nodes b k = fs_nodes a k" by (rule keeps_node [OF k n entry_settled_bound [OF e]])
  then show ?thesis using s keeps_entry [OF k n e] by (simp add: settled_entry)
qed

lemma keeps_bound: "keeps N a b \<Longrightarrow> n \<notin> N \<Longrightarrow> bound b n = bound a n"
  by (simp add: keeps_def untouched_def)

lemma same_files_keeps: "fs_inv fs \<Longrightarrow> same_files fs fs' \<Longrightarrow> keeps N fs fs'"
  by (auto simp: keeps_def untouched_def same_files_inv same_files_bound)
     (simp_all add: same_files_def entry_settled_def)

lemma keeps_refl: "fs_inv fs \<Longrightarrow> keeps N fs fs"
  by (simp add: same_files_keeps)

lemma bound_inject: "fs_inv fs \<Longrightarrow> bound fs a = Some i \<Longrightarrow> bound fs b = Some i \<Longrightarrow> a = b"
  unfolding fs_inv_def bound_def by (metis distinct_map inj_onD map_of_SomeD snd_conv Pair_inject)

lemma settled_bound: "settled fs n k c \<Longrightarrow> bound fs n = Some k"
  by (simp add: settled_def bound_def)

lemma bound_below_fresh: "fs_inv fs \<Longrightarrow> bound fs n = Some k \<Longrightarrow> k < fs_fresh fs"
  by (fastforce simp: fs_inv_def bound_def dest: map_of_SomeD)

lemma only_node_keeps:
  assumes "fs_inv fs" "only_node i fs fs'" "bound fs name = Some i"
  shows "keeps {name} fs fs'"
  unfolding keeps_def untouched_def
proof (intro conjI allI impI)
  fix n assume n: "n \<notin> {name}"
  show "bound fs' n = bound fs n" using assms(2) by (simp add: only_node_bound)
  have ne: "k \<noteq> i" if "bound fs n = Some k" for k using bound_inject [OF assms(1)] assms(3) that n by blast
  show "fs_nodes fs' k = fs_nodes fs k" if "bound fs n = Some k" for k
    using ne [OF that] assms(2) by (simp add: only_node_def)
  show "entry_settled fs' n k" if "entry_settled fs n k" for k
    using that assms(2) by (simp add: only_node_def entry_settled_def)
qed (use assms in \<open>simp add: only_node_inv\<close>)

lemma OpenWritable_frame:
  assumes inv: "fs_inv fs" and o: "OpenWritable name appending fs = (r, fs')"
  shows "keeps {name} fs fs' \<and>
    (r = Err kIOError \<or> (\<exists>j w. r = Ok (j, w) \<and> bound fs' name = Some j \<and> (\<not> appending \<longrightarrow> wf_data w = [])))"
  using o
proof (cases rule: OpenWritable_cases)
  case failed
  then show ?thesis using inv by (simp add: same_files_keeps)
next
  case (created p)
  have fresh: "name \<notin> fst ` set (fs_dir fs)" using created(1) by (simp add: bound_def map_of_eq_None_iff)
  then have inv': "fs_inv fs'" using inv created unfolding fs_inv_def by (auto simp: less_Suc_eq)
  have b: "bound fs' n = bound fs n" if "n \<noteq> name" for n
    using that created(3) by (simp add: bound_def map_add_def split: option.splits)
  have "entry_settled fs' n k" if s: "entry_settled fs n k" and n: "n \<noteq> name" for n k
  proof -
    have "map_of (fs_dir fs') n = Some k" using b [OF n] entry_settled_bound [OF s] by (simp add: bound_def)
    then show ?thesis using s created by (auto simp: entry_settled_def)
  qed
  moreover have "fs_nodes fs' k = fs_nodes fs k" if "bound fs n = Some k" for n k
    using bound_below_fresh [OF inv that] created(5) by simp
  ultimately have "keeps {name} fs fs'" using inv' b by (auto simp: keeps_def untouched_def)
  moreover have "bound fs' name = Some (fs_fresh fs)"
    using created(1,3) by (simp add: bound_def map_add_def split: option.splits)
  ultimately show ?thesis using created(2) by (simp add: open_handle_def fresh_node_def)
next
  case (reopened j p)
  then show ?thesis using inv by (simp add: same_files_keeps same_files_bound open_handle_def)
next
  case (truncated j p)
  have only: "only_node j fs (set_node j fresh_node fs)" by (simp add: only_node_def set_node_def)
  have k: "keeps {name} fs (set_node j fresh_node fs)" by (rule only_node_keeps [OF inv only truncated(1)])
  then have "keeps {name} fs fs'" using truncated(4) by (blast intro: keeps_trans same_files_keeps keeps_inv)
  moreover have "bound fs' name = Some j"
    using truncated(1,4) only by (simp add: same_files_bound only_node_bound)
  ultimately show ?thesis using truncated(3) by (simp add: open_handle_def fresh_node_def)
qed

lemma Rename_frame:
  assumes inv: "fs_inv fs" and ne: "a \<noteq> b" and r: "Rename a b fs = (r, fs')"
  shows "(r = Err kIOError \<and> same_files fs fs') \<or>
    (\<exists>j. bound fs a = Some j \<and> r = Ok () \<and> keeps {a, b} fs fs' \<and> bound fs' = (bound fs)(a := None, b := Some j) \<and>
       fs_nodes fs' = fs_nodes fs \<and> fs_past fs' = fs_dir fs # fs_past fs)"
proof -
  from r consider "r = Err kIOError" "same_files fs fs'"
    | fs1 where "same_files fs fs1"
        "(case bound fs1 a of None \<Rightarrow> (Err kIOError, fs1)
          | Some i \<Rightarrow> (Ok (), change_dir (rename_entry a b (fs_dir fs1)) fs1)) = (r, fs')"
    unfolding Rename_def by (rule syscall_cases)
  then show ?thesis
  proof cases
    case (2 fs1)
    show ?thesis
    proof (cases "bound fs a")
      case None
      then show ?thesis using 2 by (simp add: same_files_bound)
    next
      case (Some j)
      let ?d = "rename_entry a b (fs_dir fs)"
      have d: "distinct (map fst (fs_dir fs))" "distinct (map snd (fs_dir fs))" using inv by (simp_all add: fs_inv_def)
      have "bound fs1 a = Some j" using 2(1) Some by (simp add: same_files_bound)
      then have fs': "r = Ok ()" "fs_dir fs' = ?d" "fs_past fs' = fs_dir fs # fs_past fs" "fs_nodes fs' = fs_nodes fs"
        "fs_fresh fs' = fs_fresh fs"
        using 2 by (auto simp: change_dir_def same_files_def)
      have b: "bound fs' = (bound fs)(a := None, b := Some j)"
        using map_of_rename [OF d(1) _ ne, of j] Some fs'(2) by (auto simp: bound_def fun_eq_iff)
      moreover have "fs_inv fs'"
        using inv rename_entry_inv [OF d, of a b] fs' unfolding fs_inv_def by fastforce
      moreover have "untouched {a, b} fs fs'"
        using b fs' by (auto simp: untouched_def entry_settled_def bound_def fun_eq_iff split: if_splits)
      ultimately show ?thesis using fs' Some by (auto simp: keeps_def)
    qed
  qed blast
qed

lemma Remove_frame:
  assumes inv: "fs_inv fs" and r: "Remove name fs = (r, fs')"
  shows "keeps {name} fs fs' \<and> (r = Err kIOError \<or> r = Ok () \<and> bound fs' name = None)"
proof -
  from r consider "r = Err kIOError" "same_files fs fs'"
    | fs1 where "same_files fs fs1"
        "(case bound fs1 name of None \<Rightarrow> (Ok (), fs1)
          | Some i \<Rightarrow> (Ok (), change_dir (filter (\<lambda>(n, i). n \<noteq> name) (fs_dir fs1)) fs1)) = (r, fs')"
    unfolding Remove_def by (rule syscall_cases)
  then show ?thesis
  proof cases
    case (2 fs1)
    show ?thesis
    proof (cases "bound fs name")
      case None
      then show ?thesis using 2 inv by (simp add: same_files_bound same_files_keeps)
    next
      case (Some j)
      let ?d = "filter (\<lambda>(n, i). n \<noteq> name) (fs_dir fs)"
      have "bound fs1 name = Some j" using 2(1) Some by (simp add: same_files_bound)
      then have fs': "r = Ok ()" "fs_dir fs' = ?d" "fs_past fs' = fs_dir fs # fs_past fs" "fs_nodes fs' = fs_nodes fs"
        "fs_fresh fs' = fs_fresh fs"
        using 2 by (auto simp: change_dir_def same_files_def)
      have m: "map_of (filter (\<lambda>(n, i). n \<noteq> name) d) n = (if n = name then None else map_of d n)" for d :: directory and n
        by (induction d) auto
      have b: "bound fs' n = (if n = name then None else bound fs n)" for n using fs'(2) m by (simp add: bound_def)
      have "fs_inv fs'"
        using inv fs' unfolding fs_inv_def by (auto simp: distinct_map inj_on_def)
      moreover have "untouched {name} fs fs'"
        using b fs' by (auto simp: untouched_def entry_settled_def bound_def)
      ultimately show ?thesis using fs' b by (auto simp: keeps_def)
    qed
  qed (use inv in \<open>simp add: same_files_keeps\<close>)
qed

lemma SyncDir_cases:
  assumes "SyncDir fs = (r, fs')"
  shows "(r = Err kIOError \<and> same_files fs fs') \<or>
    ((r = Ok () \<or> r = Err kIOError) \<and> same_files (fs\<lparr>fs_past := []\<rparr>) fs')"
proof -
  obtain b1 f1 where 1: "pop_fault fs = (b1, f1)" by fastforce
  obtain b2 f2 where 2: "pop_fault f1 = (b2, f2)" by fastforce
  obtain b3 f3 where 3: "pop_fault (f2\<lparr>fs_past := []\<rparr>) = (b3, f3)" by fastforce
  note s = pop_fault_same [OF 1] pop_fault_same [OF 2] pop_fault_same [OF 3]
  show ?thesis
    using assms s by (simp add: SyncDir_def syscall_def 1 2 3 split: if_splits) (auto simp: same_files_def)
qed

lemma SyncDir_frame: "fs_inv fs \<Longrightarrow> SyncDir fs = (r, fs') \<Longrightarrow> keeps {} fs fs' \<and> (r = Ok () \<or> r = Err kIOError)"
proof -
  assume inv: "fs_inv fs" and s: "SyncDir fs = (r, fs')"
  have "keeps {} fs (fs\<lparr>fs_past := []\<rparr>)"
    using inv by (auto simp: keeps_def untouched_def fs_inv_def entry_settled_def bound_def)
  then show ?thesis
    using SyncDir_cases [OF s] inv by (blast intro: same_files_keeps keeps_trans keeps_inv)
qed

text \<open>After a successful directory sync every synced file is settled under its name.\<close>

lemma SyncDir_settles:
  "SyncDir fs = (Ok u, fs') \<Longrightarrow> bound fs n = Some i \<Longrightarrow> nd_clean (fs_nodes fs i) \<Longrightarrow> settled fs' n i (nd_data (fs_nodes fs i))"
  using SyncDir_cases [of fs "Ok u" fs'] by (auto simp: settled_def same_files_def bound_def)

subsection \<open>Writing a file through its handle\<close>

lemma Append_code: "Append d w = (c, w') \<Longrightarrow> c = kOk \<or> c = kIOError"
  using Append_result by blast

lemma Sync_code: "Sync w = (c, w') \<Longrightarrow> c = kOk \<or> c = kIOError"
  by (auto simp: Sync_def split: if_splits list.splits io_outcome.splits)

lemma CloseFile_code: "CloseFile w = (c, w') \<Longrightarrow> c = kOk \<or> c = kIOError"
  by (auto simp: CloseFile_def split: if_splits list.splits io_outcome.splits)

lemma on_handle_code:
  assumes "\<And>w c w'. f w = (c, w') \<Longrightarrow> c = kOk \<or> c = kIOError" and "on_handle f h fs = (r, fs')"
  shows "r = Err kIOError \<or> (\<exists>w'. r = Ok (fst h, w'))"
  using assms(2) assms(1) [of "snd h"] by (auto simp: on_handle_def split: prod.splits if_splits)

lemma handle_Append_frame:
  assumes "fs_inv fs" "bound fs name = Some j" "handle_Append d (j, w) fs = (r, fs')"
  shows "keeps {name} fs fs' \<and> bound fs' name = Some j \<and>
    (r = Err kIOError \<or> (\<exists>w'. r = Ok (j, w') \<and> wf_data w' = wf_data w @ d \<and> nd_data (fs_nodes fs' j) = wf_data w'))"
proof -
  have only: "only_node j fs fs'" by (rule handle_Append_only [OF assms(3)])
  have "r = Err kIOError \<or> (\<exists>w'. r = Ok (j, w'))"
    using on_handle_code [of "Append d", OF Append_code assms(3) [unfolded handle_Append_def]] by simp
  then show ?thesis
    using only_node_keeps [OF assms(1) only assms(2)] only_node_bound [OF only] assms(2) handle_Append_Ok [of d j w fs _ fs'] assms(3)
    by auto
qed

lemma handle_Sync_frame:
  assumes "fs_inv fs" "bound fs name = Some j" "handle_Sync (j, w) fs = (r, fs')"
  shows "keeps {name} fs fs' \<and> bound fs' name = Some j \<and>
    (r = Err kIOError \<or> (\<exists>w'. r = Ok (j, w') \<and> wf_data w' = wf_data w \<and> wf_durable w' = wf_data w \<and>
       nd_data (fs_nodes fs' j) = wf_data w \<and> nd_clean (fs_nodes fs' j)))"
proof -
  have only: "only_node j fs fs'" by (rule handle_Sync_only [OF assms(3)])
  have "r = Err kIOError \<or> (\<exists>w'. r = Ok (j, w'))"
  proof -
    obtain x fs1 where x: "on_handle Sync (j, w) fs = (x, fs1)" by fastforce
    have "x = Err kIOError \<or> (\<exists>w'. x = Ok (j, w'))" using on_handle_code [of Sync, OF Sync_code x] by simp
    then show ?thesis using assms(3) x by (auto simp: handle_Sync_def op_bind_def)
  qed
  then show ?thesis
    using only_node_keeps [OF assms(1) only assms(2)] only_node_bound [OF only] assms(2) handle_Sync_Ok [of j w fs _ fs'] assms(3)
    by auto
qed

lemma handle_Close_frame:
  assumes "fs_inv fs" "bound fs name = Some j" "handle_Close (j, w) fs = (r, fs')"
    and "nd_data (fs_nodes fs j) = wf_data w" "nd_clean (fs_nodes fs j)"
  shows "keeps {name} fs fs' \<and> bound fs' name = Some j \<and> nd_data (fs_nodes fs' j) = wf_data w \<and>
    nd_clean (fs_nodes fs' j) \<and> (r = Err kIOError \<or> (\<exists>w'. r = Ok (j, w')))"
proof -
  have only: "only_node j fs fs'" by (rule handle_Close_only [OF assms(3)])
  have "r = Err kIOError \<or> (\<exists>w'. r = Ok (j, w'))"
    using on_handle_code [of CloseFile, OF CloseFile_code assms(3) [unfolded handle_Close_def]] by simp
  then show ?thesis
    using only_node_keeps [OF assms(1) only assms(2)] only_node_bound [OF only] assms(2) handle_Close_keeps [OF assms(3-5)]
    by auto
qed

lemma handle_Sync_node: "handle_Sync (i, w) fs = (Ok h, fs') \<Longrightarrow> nd_durable (fs_nodes fs' i) = wf_durable (snd h)"
  by (auto simp: handle_Sync_def op_bind_def on_handle_def mark_clean_def set_node_def write_back_def Let_def
      split: prod.splits if_splits)

end
