(* ===== verification/Manifest_State.thy ===== *)
theory Manifest_State
  imports Manifest_Codec File_System
begin

text \<open>
  \<open>src/manifest/manifest_state.cpp\<close>: loading the manifest of a database directory and replacing it
  through a synced temporary file, a rename and a directory sync. The state is the directory of
  \<open>File_System\<close>; the last committed snapshot is \<open>ms_current\<close>. The main fact is that a publication is
  atomic: whatever fails, and wherever the power is lost, the directory holds the old manifest or the new
  one, and the reported outcome says which.
\<close>

section \<open>Loading and publishing\<close>

definition kManifest :: string where "kManifest = ''MANIFEST''"
definition kTemp :: string where "kTemp = ''MANIFEST.tmp''"

datatype ManifestPublishState = kNotPublished | kVisibleNotDurable | kDurable

record ManifestPublishOutcome =
  po_state :: ManifestPublishState
  po_status :: StatusCode

definition NotPublished :: "StatusCode \<Rightarrow> ManifestPublishOutcome" where
  "NotPublished c = \<lparr>po_state = kNotPublished, po_status = c\<rparr>"

definition VisibleNotDurable :: "StatusCode \<Rightarrow> ManifestPublishOutcome" where
  "VisibleNotDurable c = \<lparr>po_state = kVisibleNotDurable, po_status = c\<rparr>"

definition Durable :: ManifestPublishOutcome where
  "Durable = \<lparr>po_state = kDurable, po_status = kOk\<rparr>"

record ManifestState =
  ms_current :: ManifestSnapshot

definition Load :: "Protobuf \<Rightarrow> (FileSystem, ManifestSnapshot) op" where
  "Load pb =
     op_bind (OpenRandomAccess kManifest) (\<lambda>f fs.
       if FileSize f > kMaxManifestFileBytes then (Err kCorruption, fs)
       else (case ReadExactly 0 (FileSize f) f of
               (Ok bytes, _) \<Rightarrow> (Decode pb bytes, fs)
             | (Err c, _) \<Rightarrow> (Err c, fs)
             | (UB, _) \<Rightarrow> (UB, fs)))"

text \<open>The part of \<open>Publish\<close> whose failures leave the manifest untouched.\<close>

definition write_temp :: "bytes \<Rightarrow> (FileSystem, unit) op" where
  "write_temp encoded =
     op_bind (OpenWritable kTemp False) (\<lambda>h.
     op_bind (handle_Append encoded h) (\<lambda>h.
     op_bind (handle_Sync h) (\<lambda>h.
     op_bind (handle_Close h) (\<lambda>_.
     Rename kTemp kManifest))))"

definition Publish ::
  "Protobuf \<Rightarrow> ManifestSnapshot \<Rightarrow> ManifestState \<Rightarrow> FileSystem \<Rightarrow> ManifestPublishOutcome result \<times> ManifestState \<times> FileSystem" where
  "Publish pb next ms fs =
     (case Encode pb next of
        Err c \<Rightarrow> (Ok (NotPublished c), ms, fs)
      | UB \<Rightarrow> (UB, ms, fs)
      | Ok encoded \<Rightarrow>
          (case write_temp encoded fs of
             (Err c, fs1) \<Rightarrow> (Ok (NotPublished c), ms, fs1)
           | (UB, fs1) \<Rightarrow> (UB, ms, fs1)
           | (Ok _, fs1) \<Rightarrow>
               (case SyncDir fs1 of
                  (Err c, fs2) \<Rightarrow> (Ok (VisibleNotDurable c), ms, fs2)
                | (UB, fs2) \<Rightarrow> (UB, ms, fs2)
                | (Ok _, fs2) \<Rightarrow> (Ok Durable, ms\<lparr>ms_current := next\<rparr>, fs2))))"

lemma names_distinct [simp]: "kTemp \<noteq> kManifest" "kManifest \<noteq> kTemp"
  by (simp_all add: kTemp_def kManifest_def)

section \<open>Loading\<close>

lemma OpenRandomAccess_cases:
  assumes "OpenRandomAccess name fs = (r, fs')"
  obtains (failed) "r = Err kIOError" "same_files fs fs'"
    | (opened) i and p :: IoPlan where "bound fs name = Some i" "same_files fs fs'"
        "r = Ok \<lparr>ra_data = nd_data (fs_nodes fs i), ra_reads = pl_transfers p\<rparr>"
proof -
  from assms consider "r = Err kIOError" "same_files fs fs'"
    | fs1 where "same_files fs fs1"
        "(case bound fs1 name of
            None \<Rightarrow> (Err kIOError, fs1)
          | Some i \<Rightarrow> (case pop_plan fs1 of (p, fs') \<Rightarrow>
              (Ok \<lparr>ra_data = nd_data (fs_nodes fs1 i), ra_reads = pl_transfers p\<rparr>, fs'))) = (r, fs')"
    unfolding OpenRandomAccess_def by (rule syscall_cases)
  then show ?thesis
  proof cases
    case (2 fs1)
    note b = same_files_bound [OF 2(1)]
    have n: "fs_nodes fs1 = fs_nodes fs" using 2(1) by (simp add: same_files_def)
    obtain p fs2 where p: "pop_plan fs1 = (p, fs2)" by fastforce
    have "same_files fs fs2" using 2(1) pop_plan_same [OF p] by (rule same_files_trans)
    with 2 b n p show ?thesis by (cases "bound fs name") (auto intro: failed opened [of _ p])
  qed (rule failed)
qed

text \<open>Loading a manifest that was encoded returns its snapshot, unless a system call fails.\<close>

lemma Load_encoded:
  assumes pb: "protobuf_ok pb" and enc: "Encode pb s = Ok b" and f: "file_is fs kManifest b"
    and l: "Load pb fs = (r, fs')"
  shows "(r = Ok s \<or> r = Err kIOError) \<and> same_files fs fs'"
proof -
  obtain x fs1 where x: "OpenRandomAccess kManifest fs = (x, fs1)" by fastforce
  from x show ?thesis
  proof (cases rule: OpenRandomAccess_cases)
    case failed
    with l x show ?thesis by (simp add: Load_def op_bind_def)
  next
    case (opened i p)
    let ?f = "\<lparr>ra_data = b, ra_reads = pl_transfers p\<rparr> :: RandomAccessFile"
    have "x = Ok ?f" using opened f by (auto simp: file_is_def)
    moreover have "length b \<le> kMaxManifestFileBytes" "Decode pb b = Ok s"
      using pb enc by (auto simp: Encode_Decode Encode_Ok_iff protobuf_ok_def no_unknown_def to_message_def
          kMaxManifestFileBytes_def kManifestHeaderBytes_def)
    moreover obtain y g where y: "ReadExactly 0 (length b) ?f = (y, g)" by fastforce
    moreover have "y = Ok b \<or> y = Err kIOError" using ReadExactly_outcomes [OF y] by auto
    ultimately show ?thesis using l x opened(2) by (auto simp: Load_def op_bind_def FileSize_def)
  qed
qed

lemma Load_reliable:
  assumes "protobuf_ok pb" and "Encode pb s = Ok b" and "file_is fs kManifest b"
    and "fs_faults fs = []" and "fs_plans fs = []"
  shows "fst (Load pb fs) = Ok s"
proof -
  obtain i where i: "bound fs kManifest = Some i" "nd_data (fs_nodes fs i) = b"
    using assms(3) by (auto simp: file_is_def)
  let ?f = "\<lparr>ra_data = b, ra_reads = []\<rparr> :: RandomAccessFile"
  have "OpenRandomAccess kManifest fs = (Ok ?f, fs)"
    using i assms(4,5) by (simp add: OpenRandomAccess_def syscall_def pop_fault_def pop_plan_def no_plan_def)
  moreover obtain g where "ReadExactly 0 (length b) ?f = (Ok b, g)" using ReadExactly_in_range [of ?f 0 "length b"] by auto
  moreover have "length b \<le> kMaxManifestFileBytes" "Decode pb b = Ok s"
    using assms(1,2) by (auto simp: Encode_Decode Encode_Ok_iff protobuf_ok_def no_unknown_def to_message_def
        kMaxManifestFileBytes_def kManifestHeaderBytes_def)
  ultimately show ?thesis by (simp add: Load_def op_bind_def FileSize_def)
qed

section \<open>Publishing\<close>

text \<open>
  The directory a publication starts from: the manifest is settled on a synced file, and the
  temporary name is not bound to that file.
\<close>

definition manifest_settled :: "FileSystem \<Rightarrow> bytes \<Rightarrow> bool" where
  "manifest_settled fs b \<longleftrightarrow> fs_inv fs \<and> (\<exists>i. settled fs kManifest i b)"

text \<open>
  Writing the temporary file: a failure concerns no other name; success has bound the manifest's name
  to a synced file with the new contents, and until the directory is synced the old one may come back.
\<close>

lemma write_temp_result:
  assumes inv: "fs_inv fs" and w: "write_temp b fs = (r, fs')"
  shows "(r = Err kIOError \<and> keeps {kTemp} fs fs') \<or>
    (r = Ok () \<and> keeps {kTemp, kManifest} fs fs' \<and>
     (\<exists>j. bound fs' kManifest = Some j \<and> nd_data (fs_nodes fs' j) = b \<and> nd_clean (fs_nodes fs' j) \<and>
        (\<forall>i c. settled fs kManifest i c \<longrightarrow>
           nd_data (fs_nodes fs' i) = c \<and> nd_clean (fs_nodes fs' i) \<and> (\<forall>d \<in> set (fs_past fs'). map_of d kManifest = Some i))))"
proof -
  obtain r1 f1 where 1: "OpenWritable kTemp False fs = (r1, f1)" by fastforce
  note o = OpenWritable_frame [OF inv 1]
  show ?thesis
  proof (cases "r1 = Err kIOError")
    case True
    then show ?thesis using w 1 o by (simp add: write_temp_def op_bind_def)
  next
    case False
    then obtain j w1 where r1: "r1 = Ok (j, w1)" "bound f1 kTemp = Some j" "wf_data w1 = []" "keeps {kTemp} fs f1"
      using o by auto
    obtain r2 f2 where 2: "handle_Append b (j, w1) f1 = (r2, f2)" by fastforce
    note a = handle_Append_frame [OF keeps_inv [OF r1(4)] r1(2) 2]
    have k2: "keeps {kTemp} fs f2" using r1(4) a by (blast intro: keeps_trans)
    show ?thesis
    proof (cases "r2 = Err kIOError")
      case True
      then show ?thesis using w 1 2 r1(1) k2 by (simp add: write_temp_def op_bind_def)
    next
      case False
      then obtain w2 where r2: "r2 = Ok (j, w2)" "wf_data w2 = b" "bound f2 kTemp = Some j" using a r1(3) by auto
      obtain r3 f3 where 3: "handle_Sync (j, w2) f2 = (r3, f3)" by fastforce
      note s = handle_Sync_frame [OF keeps_inv [OF k2] r2(3) 3]
      have k3: "keeps {kTemp} fs f3" using k2 s by (blast intro: keeps_trans)
      show ?thesis
      proof (cases "r3 = Err kIOError")
        case True
        then show ?thesis using w 1 2 3 r1(1) r2(1) k3 by (simp add: write_temp_def op_bind_def)
      next
        case False
        then obtain w3 where r3: "r3 = Ok (j, w3)" "wf_data w3 = b" "bound f3 kTemp = Some j"
          "nd_data (fs_nodes f3 j) = wf_data w3" "nd_clean (fs_nodes f3 j)"
          using s r2(2) by auto
        obtain r4 f4 where 4: "handle_Close (j, w3) f3 = (r4, f4)" by fastforce
        note c = handle_Close_frame [OF keeps_inv [OF k3] r3(3) 4 r3(4,5)]
        have k4: "keeps {kTemp} fs f4" using k3 c by (blast intro: keeps_trans)
        have w': "write_temp b fs = (case r4 of Ok _ \<Rightarrow> Rename kTemp kManifest f4 | Err c \<Rightarrow> (Err c, f4) | UB \<Rightarrow> (UB, f4))"
          using 1 2 3 4 r1(1) r2(1) r3(1) by (simp add: write_temp_def op_bind_def split: result.splits)
        show ?thesis
        proof (cases "r4 = Err kIOError")
          case True
          then show ?thesis using w w' k4 by simp
        next
          case False
          then have ren: "Rename kTemp kManifest f4 = (r, fs')" using c w w' by auto
          from Rename_frame [OF keeps_inv [OF k4] names_distinct(1) ren]
          show ?thesis
          proof
            assume "r = Err kIOError \<and> same_files f4 fs'"
            then show ?thesis using k4 by (blast intro: keeps_trans same_files_keeps keeps_inv)
          next
            assume "\<exists>j. bound f4 kTemp = Some j \<and> r = Ok () \<and> keeps {kTemp, kManifest} f4 fs' \<and>
                bound fs' = (bound f4)(kTemp := None, kManifest := Some j) \<and> fs_nodes fs' = fs_nodes f4 \<and>
                fs_past fs' = fs_dir f4 # fs_past f4"
            then have ok: "r = Ok ()" "keeps {kTemp, kManifest} f4 fs'" "bound fs' kManifest = Some j"
              "fs_nodes fs' = fs_nodes f4" "fs_past fs' = fs_dir f4 # fs_past f4"
              using c by auto
            have "keeps {kTemp, kManifest} fs fs'" using keeps_mono [OF k4] ok(2) by (blast intro: keeps_trans)
            moreover have "nd_data (fs_nodes fs' i) = x \<and> nd_clean (fs_nodes fs' i) \<and> (\<forall>d \<in> set (fs_past fs'). map_of d kManifest = Some i)"
              if "settled fs kManifest i x" for i x
              using keeps_settled [OF k4 _ that] ok(4,5) by (simp add: settled_def)
            ultimately show ?thesis using ok c r3(2) by auto
          qed
        qed
      qed
    qed
  qed
qed

lemma Publish_keeps:
  assumes inv: "fs_inv fs" and p: "Publish pb next ms fs = (r, ms', fs')"
  shows "keeps {kTemp, kManifest} fs fs'"
proof (cases "Encode pb next")
  case (Ok new)
  obtain r1 f1 where 1: "write_temp new fs = (r1, f1)" by fastforce
  have k: "keeps {kTemp, kManifest} fs f1" using write_temp_result [OF inv 1] keeps_mono by blast
  obtain r2 f2 where 2: "SyncDir f1 = (r2, f2)" by fastforce
  have "keeps {kTemp, kManifest} fs f2"
    using k SyncDir_frame [OF keeps_inv [OF k] 2] by (blast intro: keeps_trans keeps_mono)
  then show ?thesis using p Ok 1 2 k by (auto simp: Publish_def split: result.splits)
qed (use p inv in \<open>auto simp: Publish_def keeps_refl\<close>)

text \<open>What a crash may show of the manifest after a publication.\<close>

lemma Publish_result:
  assumes inv: "fs_inv fs" and old: "settled fs kManifest i old" and enc: "Encode pb next = Ok new"
    and p: "Publish pb next ms fs = (r, ms', fs')"
  shows "keeps {kTemp, kManifest} fs fs' \<and>
    (\<exists>c. c \<noteq> kOk \<and> r = Ok (NotPublished c) \<and> ms' = ms \<and> settled fs' kManifest i old \<or>
       c \<noteq> kOk \<and> r = Ok (VisibleNotDurable c) \<and> ms' = ms \<and> file_is fs' kManifest new \<and>
         (\<forall>fs''. crashed fs' fs'' \<longrightarrow> file_is fs'' kManifest old \<or> file_is fs'' kManifest new) \<and>
         (\<forall>fs''. crashed_in_order fs' fs'' \<longrightarrow> bound fs'' = bound fs' \<or> file_is fs'' kManifest old) \<or>
       r = Ok Durable \<and> ms' = ms\<lparr>ms_current := next\<rparr> \<and> (\<exists>j. settled fs' kManifest j new) \<and> fs_past fs' = [])"
proof -
  obtain r1 f1 where 1: "write_temp new fs = (r1, f1)" by fastforce
  show ?thesis
    using write_temp_result [OF inv 1]
  proof (elim disjE conjE exE)
    assume e: "r1 = Err kIOError" and k: "keeps {kTemp} fs f1"
    have "settled f1 kManifest i old" using keeps_settled [OF k _ old] by simp
    moreover have "r = Ok (NotPublished kIOError)" "ms' = ms" "fs' = f1"
      using p enc 1 e by (simp_all add: Publish_def)
    ultimately show ?thesis using keeps_mono [OF k] by blast
  next
    fix j
    assume ok: "r1 = Ok ()" and k: "keeps {kTemp, kManifest} fs f1" and j: "bound f1 kManifest = Some j"
      "nd_data (fs_nodes f1 j) = new" "nd_clean (fs_nodes f1 j)"
      and set: "\<forall>i c. settled fs kManifest i c \<longrightarrow>
        nd_data (fs_nodes f1 i) = c \<and> nd_clean (fs_nodes f1 i) \<and> (\<forall>d \<in> set (fs_past f1). map_of d kManifest = Some i)"
    have i: "nd_data (fs_nodes f1 i) = old" "nd_clean (fs_nodes f1 i)" "\<forall>d \<in> set (fs_past f1). map_of d kManifest = Some i"
      using set old by blast+
    obtain r2 f2 where 2: "SyncDir f1 = (r2, f2)" by fastforce
    have k2: "keeps {kTemp, kManifest} fs f2"
      using k SyncDir_frame [OF keeps_inv [OF k] 2] by (blast intro: keeps_trans keeps_mono)
    have fs': "fs' = f2" using p enc 1 ok 2 by (auto simp: Publish_def split: result.splits)
    have sub: "set (fs_past f2) \<subseteq> set (fs_past f1)" "fs_dir f2 = fs_dir f1" "fs_nodes f2 = fs_nodes f1"
      using SyncDir_cases [OF 2] by (auto simp: same_files_def)
    have vis: "file_is f2 kManifest new" using j sub by (auto simp: file_is_def bound_def)
    have crash: "file_is f'' kManifest old \<or> file_is f'' kManifest new" if c: "crashed f2 f''" for f''
    proof -
      obtain d where d: "d \<in> set (fs_dir f2 # fs_past f2)" "bound f'' kManifest = map_of d kManifest"
        using c unfolding crashed_def by blast
      have "node_survives (fs_nodes f1 k) (nd_data (fs_nodes f'' k))" for k using c sub by (simp add: crashed_def)
      then have "nd_data (fs_nodes f'' i) = old" "nd_data (fs_nodes f'' j) = new"
        using i j by (metis node_survives_def)+
      moreover have "bound f'' kManifest = Some i \<or> bound f'' kManifest = Some j"
        using d i(3) j(1) sub by (auto simp: bound_def)
      ultimately show ?thesis by (auto simp: file_is_def)
    qed
    have ordered: "bound f'' = bound f2 \<or> file_is f'' kManifest old" if c: "crashed_in_order f2 f''" for f''
    proof -
      obtain d where d: "d \<in> set (fs_dir f2 # fs_past f2)" "bound f'' = map_of d"
        using c unfolding crashed_in_order_def by blast
      have "node_survives (fs_nodes f1 i) (nd_data (fs_nodes f'' i))" using c sub by (simp add: crashed_in_order_def)
      then have "nd_data (fs_nodes f'' i) = old" using i by (simp add: node_survives_def)
      then show ?thesis using d i(3) sub by (auto simp: bound_def file_is_def fun_eq_iff)
    qed
    show ?thesis
    proof (cases "r2 = Ok ()")
      case True
      have "settled f2 kManifest j new" using SyncDir_settles [of f1 "()" f2 kManifest j] 2 True j by simp
      moreover have "fs_past f2 = []" using SyncDir_cases [OF 2] True by (simp add: same_files_def)
      moreover have "r = Ok Durable" "ms' = ms\<lparr>ms_current := next\<rparr>"
        using p enc 1 ok 2 True by (simp_all add: Publish_def)
      ultimately show ?thesis using k2 fs' by blast
    next
      case False
      then have "r2 = Err kIOError" using SyncDir_frame [OF keeps_inv [OF k] 2] by blast
      then have "r = Ok (VisibleNotDurable kIOError)" "ms' = ms"
        using p enc 1 ok 2 by (simp_all add: Publish_def)
      then show ?thesis using k2 fs' vis crash ordered by blast
    qed
  qed
qed

section \<open>Properties\<close>

text \<open>The snapshots a restart may load once the power is lost in a state.\<close>

definition recovers :: "Protobuf \<Rightarrow> FileSystem \<Rightarrow> ManifestSnapshot set \<Rightarrow> bool" where
  "recovers pb fs S \<longleftrightarrow>
     (\<forall>fs'. crashed fs fs' \<and> fs_faults fs' = [] \<and> fs_plans fs' = [] \<longrightarrow> (\<exists>s \<in> S. fst (Load pb fs') = Ok s))"

lemma settled_recovers:
  "protobuf_ok pb \<Longrightarrow> Encode pb s = Ok b \<Longrightarrow> settled fs kManifest i b \<Longrightarrow> recovers pb fs {s}"
  using settled_survives Load_reliable by (fastforce simp: recovers_def)

text \<open>
  C7: Publishing a manifest is atomic, for every pattern of failing system calls and a power loss at any
  point after: with \<open>kNotPublished\<close> a restart loads the old snapshot, with \<open>kDurable\<close> the new one, and with
  \<open>kVisibleNotDurable\<close> one of the two; the handle's current snapshot changes only when the new one is durable,
  and an outcome short of durable always carries an error.
\<close>

theorem manifest_publish_atomic:
  assumes pb: "protobuf_ok pb" and inv: "fs_inv fs"
    and old: "Encode pb (ms_current ms) = Ok b" "settled fs kManifest i b"
    and p: "Publish pb next ms fs = (r, ms', fs')"
  shows "\<exists>out. r = Ok out \<and> fs_inv fs' \<and>
    (case po_state out of
       kNotPublished \<Rightarrow> po_status out \<noteq> kOk \<and> ms' = ms \<and> recovers pb fs' {ms_current ms}
     | kVisibleNotDurable \<Rightarrow> po_status out \<noteq> kOk \<and> ms' = ms \<and> recovers pb fs' {ms_current ms, next}
     | kDurable \<Rightarrow> po_status out = kOk \<and> ms_current ms' = next \<and> recovers pb fs' {next})"
proof (cases "Encode pb next")
  case (Ok new)
  note res = Publish_result [OF inv old(2) Ok p]
  then have "fs_inv fs'" by (blast intro: keeps_inv)
  moreover have "recovers pb fs' {ms_current ms, next}"
    if "\<forall>fs''. crashed fs' fs'' \<longrightarrow> file_is fs'' kManifest b \<or> file_is fs'' kManifest new"
    using that Load_reliable [OF pb old(1)] Load_reliable [OF pb Ok] by (auto simp: recovers_def)
  moreover note settled_recovers [OF pb old(1)] settled_recovers [OF pb Ok]
  ultimately show ?thesis
    using res by (elim conjE exE disjE) (auto simp: NotPublished_def VisibleNotDurable_def Durable_def)
next
  case (Err c)
  then have "c \<noteq> kOk" by (auto simp: Encode_def Let_def split: if_splits option.splits)
  then show ?thesis using p Err inv settled_recovers [OF pb old] by (auto simp: Publish_def NotPublished_def)
next
  case UB
  then show ?thesis by (auto simp: Encode_def Let_def split: if_splits option.splits)
qed

definition sample_fs :: FileSystem where
  "sample_fs =
     \<lparr>fs_exists = True, fs_locked = True, fs_dir = [(kManifest, 0)], fs_past = [],
      fs_nodes = (\<lambda>_. \<lparr>nd_data = manifest_frame [8, 1, 16, 2], nd_durable = manifest_frame [8, 1, 16, 2], nd_clean = True\<rparr>),
      fs_fresh = 1, fs_faults = [False, False, False, True], fs_plans = []\<rparr>"

theorem manifest_publish_atomic_witness:
  "\<exists>out fs'. Publish sample_pb (initial_snapshot\<lparr>next_file_number := 3\<rparr>) \<lparr>ms_current = initial_snapshot\<rparr> sample_fs =
       (Ok out, \<lparr>ms_current = initial_snapshot\<rparr>, fs') \<and> po_state out = kVisibleNotDurable \<and>
     recovers sample_pb fs' {initial_snapshot, initial_snapshot\<lparr>next_file_number := 3\<rparr>}"
proof -
  let ?next = "initial_snapshot\<lparr>next_file_number := 3\<rparr>" and ?ms = "\<lparr>ms_current = initial_snapshot\<rparr>"
  obtain r ms' fs' where p: "Publish sample_pb ?next ?ms sample_fs = (r, ms', fs')" by (metis prod_cases3)
  have "fs_inv sample_fs" "settled sample_fs kManifest 0 (manifest_frame [8, 1, 16, 2])"
    by (simp_all add: fs_inv_def settled_def sample_fs_def)
  note atomic = manifest_publish_atomic [OF sample_pb_ok this(1) _ this(2) p, unfolded ManifestState.select_convs, OF sample_encodes]
  then obtain out where out: "r = Ok out" "case po_state out of
       kNotPublished \<Rightarrow> po_status out \<noteq> kOk \<and> ms' = ?ms \<and> recovers sample_pb fs' {initial_snapshot}
     | kVisibleNotDurable \<Rightarrow> po_status out \<noteq> kOk \<and> ms' = ?ms \<and> recovers sample_pb fs' {initial_snapshot, ?next}
     | kDurable \<Rightarrow> po_status out = kOk \<and> ms_current ms' = ?next \<and> recovers sample_pb fs' {?next}"
    by blast
  have "Encode sample_pb ?next = Ok (manifest_frame [8, 1, 16, 3])"
    by (simp add: Encode_Ok_iff snapshot_valid_def initial_snapshot_def sample_pb_def sample_payload_def to_message_def
        kMaxManifestFileBytes_def kManifestHeaderBytes_def)
  then have "po_state out = kVisibleNotDurable"
    using p out(1)
    by (simp add: Publish_def write_temp_def op_bind_def OpenWritable_def syscall_def pop_fault_def pop_plan_def sample_fs_def
        bound_def no_plan_def open_handle_def fresh_node_def handle_Append_def handle_Sync_def handle_Close_def on_handle_def
        Append_def Sync_def CloseFile_def write_back_def mark_clean_def set_node_def change_dir_def Rename_def SyncDir_def
        rename_entry_def VisibleNotDurable_def append_loop_all) auto
  with p out show ?thesis by auto
qed

end
