(* ===== verification/Entries.thy ===== *)
theory Entries
  imports Coding
begin

text \<open>
  The data every component exchanges: \<open>src/model/internal_entry.h\<close> (a version of a key), the
  internal order (user key ascending, sequence descending) that \<open>internal_iterator.cpp\<close> and
  \<open>sstable_builder.cpp\<close> each define, the public \<open>Entry\<close> and \<open>WriteBatch\<close>, and the specification
  of multi-version reads: which version a reader at a sequence number sees. The locale
  \<open>version_source\<close> is the read contract shared by the MemTable and the table blocks.
\<close>

section \<open>Versions\<close>

datatype ValueType = kValue | kTombstone

fun type_byte :: "ValueType \<Rightarrow> byte" where
  "type_byte kValue = 1"
| "type_byte kTombstone = 2"

text \<open>\<open>static_cast<ValueType>(byte)\<close> after the guard that the byte is 1 or 2.\<close>

definition byte_type :: "byte \<Rightarrow> ValueType" where
  "byte_type b = (if b = 1 then kValue else kTombstone)"

record InternalEntry =
  user_key :: bytes
  sequence :: u64
  etype :: ValueType
  evalue :: bytes

text \<open>\<open>sizeof(InternalEntry)\<close>: two 32-byte strings, a 64-bit sequence and a padded type byte.\<close>

definition sizeof_InternalEntry :: nat where
  "sizeof_InternalEntry = 80"

lemma byte_type_type_byte [simp]: "byte_type (type_byte t) = t"
  by (cases t) (simp_all add: byte_type_def)

lemma type_byte_valid [simp]: "type_byte t = 1 \<or> type_byte t = 2"
  by (cases t) simp_all

subsection \<open>The internal order\<close>

definition InternalLess :: "InternalEntry \<Rightarrow> InternalEntry \<Rightarrow> bool" where
  "InternalLess l r =
     (if BytewiseLess (user_key l) (user_key r) then True
      else if BytewiseLess (user_key r) (user_key l) then False
      else sequence l > sequence r)"

definition InternalLess_builder :: "InternalEntry \<Rightarrow> InternalEntry \<Rightarrow> bool" where
  "InternalLess_builder l r =
     (BytewiseLess (user_key l) (user_key r) \<or>
      (user_key l = user_key r \<and> sequence l > sequence r))"

lemma InternalLess_iff:
  "InternalLess l r \<longleftrightarrow>
     user_key l < user_key r \<or> (user_key l = user_key r \<and> sequence r < sequence l)"
  by (auto simp: InternalLess_def BytewiseLess_def)

lemma InternalLess_builder_eq: "InternalLess_builder = InternalLess"
  by (auto simp: fun_eq_iff InternalLess_iff InternalLess_builder_def BytewiseLess_def)

lemma InternalLess_irrefl [simp]: "\<not> InternalLess e e"
  by (simp add: InternalLess_iff)

lemma InternalLess_trans: "InternalLess a b \<Longrightarrow> InternalLess b c \<Longrightarrow> InternalLess a c"
  by (auto simp: InternalLess_iff)

lemma InternalLess_asym: "InternalLess a b \<Longrightarrow> \<not> InternalLess b a"
  using InternalLess_trans InternalLess_irrefl by blast

lemma transp_InternalLess [simp]: "transp InternalLess"
  by (auto intro: transpI InternalLess_trans)

definition same_version :: "InternalEntry \<Rightarrow> InternalEntry \<Rightarrow> bool" where
  "same_version a b = (user_key a = user_key b \<and> sequence a = sequence b)"

lemma InternalLess_linear: "InternalLess a b \<or> same_version a b \<or> InternalLess b a"
  by (auto simp: InternalLess_iff same_version_def)

lemma same_version_not_less: "same_version a b \<Longrightarrow> \<not> InternalLess a b"
  by (simp add: InternalLess_iff same_version_def)

lemma same_version_sym: "same_version a b \<Longrightarrow> same_version b a"
  by (simp add: same_version_def)

abbreviation ordered :: "InternalEntry list \<Rightarrow> bool" where
  "ordered \<equiv> sorted_wrt InternalLess"

lemma ordered_Cons2: "ordered (a # b # es) \<longleftrightarrow> InternalLess a b \<and> ordered (b # es)"
  by (auto intro: InternalLess_trans)

lemma ordered_keys: "ordered es \<Longrightarrow> sorted (map user_key es)"
  by (induction es) (auto simp: InternalLess_iff)

lemma ordered_distinct: "ordered es \<Longrightarrow> distinct es"
  by (induction es) auto

text \<open>An entry is well formed as the writers produce it: a tombstone carries no value.\<close>

definition entry_ok :: "InternalEntry \<Rightarrow> bool" where
  "entry_ok e = (sequence e \<noteq> 0 \<and> (etype e = kTombstone \<longrightarrow> evalue e = []))"

section \<open>Visibility\<close>

text \<open>
  \<open>docs/design/snapshot-mvcc.md\<close>: a read at sequence \<open>n\<close> selects, among the versions of the key,
  the one with the greatest sequence no greater than \<open>n\<close>.
\<close>

definition visible :: "InternalEntry set \<Rightarrow> bytes \<Rightarrow> u64 \<Rightarrow> InternalEntry \<Rightarrow> bool" where
  "visible V k n e \<longleftrightarrow>
     e \<in> V \<and> user_key e = k \<and> sequence e \<le> n \<and>
     (\<forall>e' \<in> V. user_key e' = k \<and> sequence e' \<le> n \<longrightarrow> sequence e' \<le> sequence e)"

definition none_visible :: "InternalEntry set \<Rightarrow> bytes \<Rightarrow> u64 \<Rightarrow> bool" where
  "none_visible V k n \<longleftrightarrow> (\<forall>e \<in> V. \<not> (user_key e = k \<and> sequence e \<le> n))"

definition versions_unique :: "InternalEntry set \<Rightarrow> bool" where
  "versions_unique V \<longleftrightarrow> (\<forall>a \<in> V. \<forall>b \<in> V. same_version a b \<longrightarrow> a = b)"

lemma visible_unique:
  "versions_unique V \<Longrightarrow> visible V k n a \<Longrightarrow> visible V k n b \<Longrightarrow> a = b"
  unfolding visible_def versions_unique_def same_version_def by (blast intro: order.antisym)

lemma visible_not_none: "visible V k n e \<Longrightarrow> \<not> none_visible V k n"
  by (auto simp: visible_def none_visible_def)

lemma ordered_versions_unique: "ordered es \<Longrightarrow> versions_unique (set es)"
proof (induction es)
  case (Cons x es)
  then show ?case
    by (auto simp: versions_unique_def dest: same_version_not_less same_version_not_less [OF same_version_sym])
qed (simp add: versions_unique_def)

text \<open>
  The executable reference: in a list in internal order the first hit is the visible version.
\<close>

definition find_version :: "InternalEntry list \<Rightarrow> bytes \<Rightarrow> u64 \<Rightarrow> InternalEntry option" where
  "find_version es k n = List.find (\<lambda>e. user_key e = k \<and> sequence e \<le> n) es"

lemma find_version_None: "find_version es k n = None \<longleftrightarrow> none_visible (set es) k n"
  by (auto simp: find_version_def find_None_iff_all none_visible_def)

lemma find_version_visible:
  assumes "ordered es" and "find_version es k n = Some e"
  shows "visible (set es) k n e"
  using assms
proof (induction es)
  case (Cons x es)
  show ?case
  proof (cases "user_key x = k \<and> sequence x \<le> n")
    case True
    moreover have "sequence e' \<le> sequence x" if "e' \<in> set es" "user_key e' = k" for e'
      using that True Cons.prems(1) by (auto simp: InternalLess_iff)
    ultimately show ?thesis
      using Cons.prems(2) by (auto simp: find_version_def visible_def)
  next
    case False
    with Cons show ?thesis
      by (auto simp: find_version_def visible_def)
  qed
qed (simp add: find_version_def)

lemma find_version_Some_iff:
  assumes "ordered es"
  shows "find_version es k n = Some e \<longleftrightarrow> visible (set es) k n e"
proof
  assume vis: "visible (set es) k n e"
  then obtain e' where "find_version es k n = Some e'"
    using find_version_None visible_not_none by (metis option.exhaust)
  with assms vis show "find_version es k n = Some e"
    using find_version_visible visible_unique ordered_versions_unique by metis
qed (rule find_version_visible [OF assms])

subsection \<open>The read contract\<close>

text \<open>
  A version source answers point reads over the versions it holds: either the visible version, or
  \<open>kNotFound\<close> exactly when no version is visible.
\<close>

locale version_source =
  fixes invar :: "'s \<Rightarrow> bool"
    and contents :: "'s \<Rightarrow> InternalEntry set"
    and get :: "'s \<Rightarrow> bytes \<Rightarrow> u64 \<Rightarrow> InternalEntry result"
  assumes contents_unique: "invar s \<Longrightarrow> versions_unique (contents s)"
    and get_visible: "invar s \<Longrightarrow> get s k n = Ok e \<Longrightarrow> visible (contents s) k n e"
    and get_error: "invar s \<Longrightarrow> get s k n = Err c \<Longrightarrow> c = kNotFound \<and> none_visible (contents s) k n"
    and get_safe: "invar s \<Longrightarrow> get s k n \<noteq> UB"
begin

lemma get_Ok_iff: "invar s \<Longrightarrow> get s k n = Ok e \<longleftrightarrow> visible (contents s) k n e"
proof
  assume i: "invar s" and v: "visible (contents s) k n e"
  show "get s k n = Ok e"
  proof (cases "get s k n")
    case (Ok x)
    with i v show ?thesis using get_visible contents_unique visible_unique by metis
  next
    case (Err c)
    then show ?thesis using i v get_error visible_not_none by blast
  next
    case UB
    then show ?thesis using get_safe i by simp
  qed
qed (rule get_visible)

lemma get_NotFound_iff: "invar s \<Longrightarrow> get s k n = Err kNotFound \<longleftrightarrow> none_visible (contents s) k n"
proof
  assume i: "invar s" and none: "none_visible (contents s) k n"
  then show "get s k n = Err kNotFound"
    by (cases "get s k n") (auto dest: get_visible get_error get_safe visible_not_none)
qed (simp add: get_error)

end

end
