(* ===== verification/Sstable_Format.thy ===== *)
theory Sstable_Format
  imports Entries
begin

text \<open>
  The SSTable byte formats, \<open>src/sstable/sstable_format.h\<close> and the first part of
  \<open>sstable_builder.cpp\<close>: data blocks in format version 1 (plain entries with an offset table) and
  version 2 (prefix-compressed keys with restart points), the block index, the properties section
  and the footers. One definition per encoder and decoder, every check included. A decoder reads
  through \<open>slice\<close> and \<open>span_at\<close>, so an access outside the buffer it is given shows as \<open>UB\<close>.
\<close>

section \<open>Constants and data\<close>

definition kSstableMagic :: u64 where "kSstableMagic = 0x315453534d534c54"
definition kSstableVersionV1 :: u32 where "kSstableVersionV1 = 1"
definition kSstableVersion :: u32 where "kSstableVersion = 2"
definition kSstableV1FooterSize :: nat where "kSstableV1FooterSize = 36"
definition kSstableFooterSize :: nat where "kSstableFooterSize = 52"
definition kDefaultRestartInterval :: u32 where "kDefaultRestartInterval = 16"

lemmas sst_consts = kSstableV1FooterSize_def kSstableFooterSize_def

record BlockMeta =
  bm_first_key :: bytes
  bm_last_key :: bytes
  bm_offset :: u64
  bm_size :: u64

record Footer =
  ft_version :: u32
  ft_index_offset :: u64
  ft_index_size :: u64
  ft_properties_offset :: u64
  ft_properties_size :: u64

record TableProperties =
  tp_entry_count :: u64
  tp_smallest_key :: bytes
  tp_largest_key :: bytes
  tp_min_sequence :: u64
  tp_max_sequence :: u64

definition FitsU32 :: "nat \<Rightarrow> bool" where
  "FitsU32 n = (n \<le> max_u32)"

section \<open>Data blocks, version 1\<close>

fun encode_v1_entries ::
  "InternalEntry list \<Rightarrow> bytes \<Rightarrow> u32 list \<Rightarrow> (bytes \<times> u32 list) result" where
  "encode_v1_entries [] out offsets = Ok (out, offsets)"
| "encode_v1_entries (e # es) out offsets =
     (if \<not> FitsU32 (length out) \<or> \<not> FitsU32 (length (user_key e)) \<or> \<not> FitsU32 (length (evalue e))
      then Err kInvalidArgument
      else
        let out' = PutFixed32 (PutFixed32 (PutFixed64 out (sequence e) @ [type_byte (etype e)])
                      (of_nat (length (user_key e)))) (of_nat (length (evalue e)))
                     @ user_key e @ evalue e
        in encode_v1_entries es out' (offsets @ [of_nat (length out)]))"

definition EncodeDataBlockV1 :: "InternalEntry list \<Rightarrow> bytes result" where
  "EncodeDataBlockV1 entries =
     (if entries = [] then Err kInvalidArgument
      else rbind (encode_v1_entries entries [] []) (\<lambda>(out, offsets).
        let out = foldl PutFixed32 out offsets;
            out = PutFixed32 out (of_nat (length entries))
        in Ok (PutFixed32 out (Crc32c out))))"

text \<open>The loop of \<open>DecodeDataBlockV1\<close> from index \<open>i\<close>, with \<open>n\<close> entries left.\<close>

fun decode_v1_entries ::
  "bytes \<Rightarrow> nat \<Rightarrow> nat \<Rightarrow> nat \<Rightarrow> InternalEntry option \<Rightarrow> InternalEntry list result" where
  "decode_v1_entries bytes offsets_start i 0 previous = Ok []"
| "decode_v1_entries bytes offsets_start i (Suc n) previous =
     (let offset = Get32 bytes (offsets_start + 4 * i);
          next = (if n = 0 then of_nat offsets_start else Get32 bytes (offsets_start + 4 * (i + 1))) in
      if offset > next \<or> unat next > offsets_start \<or> unat (next - offset) < 17 then Err kCorruption
      else
        let off = unat offset;
            seq = Get64 bytes off; key_size = Get32 bytes (off + 9); value_size = Get32 bytes (off + 13) in
        if 17 + unat key_size + unat value_size \<noteq> unat (next - offset) then Err kCorruption
        else rbind (span_at bytes (off + 8)) (\<lambda>type.
        if type \<noteq> 1 \<and> type \<noteq> 2 then Err kCorruption
        else rbind (slice bytes (off + 17) (unat key_size)) (\<lambda>key.
        rbind (slice bytes (off + 17 + unat key_size) (unat value_size)) (\<lambda>val.
        let e = \<lparr>user_key = key, sequence = seq, etype = byte_type type, evalue = val\<rparr> in
        if (previous \<noteq> None \<and> \<not> InternalLess_builder (the previous) e) \<or>
           (etype e = kTombstone \<and> evalue e \<noteq> []) then Err kCorruption
        else rbind (decode_v1_entries bytes offsets_start (i + 1) n (Some e)) (\<lambda>es. Ok (e # es))))))"

definition DecodeDataBlockV1 :: "bytes \<Rightarrow> InternalEntry list result" where
  "DecodeDataBlockV1 bytes =
     (if length bytes < 8 then Err kCorruption
      else
        let count = Get32 bytes (length bytes - 8);
            expected = Get32 bytes (length bytes - 4) in
        if Crc32c (take (length bytes - 4) bytes) \<noteq> expected then Err kCorruption
        else
          let trailer = 8 + 4 * unat count in
          if trailer > length bytes then Err kCorruption
          else decode_v1_entries bytes (length bytes - trailer) 0 (unat count) None)"

section \<open>Data blocks, version 2\<close>

text \<open>
  \<open>DecodeV2Entry\<close> returns false on a malformed entry, which every caller reports as corruption; the
  model returns that error. On success it gives the entry and the new position.
\<close>

definition DecodeV2Entry ::
  "bytes \<Rightarrow> nat \<Rightarrow> nat \<Rightarrow> bytes \<Rightarrow> (InternalEntry \<times> nat) result" where
  "DecodeV2Entry bytes position entries_end previous_key =
     (case (GetFixed32 bytes position, GetFixed32 bytes (position + 4),
            GetFixed64 bytes (position + 8), GetFixed32 bytes (position + 17)) of
        (Some shared, Some unshared, Some seq, Some value_size) \<Rightarrow>
          if unat shared > length previous_key \<or> position > entries_end \<or>
             entries_end - position < 21 \<or>
             unat unshared + unat value_size > entries_end - position - 21
          then Err kCorruption
          else rbind (span_at bytes (position + 16)) (\<lambda>type.
          if (type \<noteq> 1 \<and> type \<noteq> 2) \<or> seq = 0 then Err kCorruption
          else rbind (slice bytes (position + 21) (unat unshared)) (\<lambda>suffix.
          rbind (slice bytes (position + 21 + unat unshared) (unat value_size)) (\<lambda>val.
          let entry = \<lparr>user_key = take (unat shared) previous_key @ suffix, sequence = seq,
                       etype = byte_type type, evalue = val\<rparr> in
          if etype entry \<noteq> kTombstone \<or> evalue entry = []
          then Ok (entry, position + (21 + unat unshared + unat value_size))
          else Err kCorruption)))
      | _ \<Rightarrow> Err kCorruption)"

record V2BlockLayout =
  vl_entries_end :: nat
  vl_restarts :: "u32 list"
  vl_entry_count :: u32

text \<open>The loop of \<open>ParseV2BlockLayout\<close> over the restart table.\<close>

fun parse_restarts :: "bytes \<Rightarrow> nat \<Rightarrow> nat \<Rightarrow> nat \<Rightarrow> u32 list \<Rightarrow> u32 list result" where
  "parse_restarts bytes restarts_begin i 0 restarts = Ok restarts"
| "parse_restarts bytes restarts_begin i (Suc n) restarts =
     (let restart = Get32 bytes (restarts_begin + 4 * i) in
      if unat restart \<ge> restarts_begin \<or> (i > 0 \<and> restart \<le> last restarts) then Err kCorruption
      else parse_restarts bytes restarts_begin (i + 1) n (restarts @ [restart]))"

definition ParseV2BlockLayout :: "bytes \<Rightarrow> V2BlockLayout result" where
  "ParseV2BlockLayout bytes =
     (if length bytes < 12 then Err kCorruption
      else
        let restart_count = Get32 bytes (length bytes - 12);
            entry_count = Get32 bytes (length bytes - 8);
            expected = Get32 bytes (length bytes - 4) in
        if Crc32c (take (length bytes - 4) bytes) \<noteq> expected then Err kCorruption
        else if entry_count = 0 \<or> restart_count = 0 \<or> restart_count > entry_count then Err kCorruption
        else
          let restart_bytes = 4 * unat restart_count in
          if restart_bytes > length bytes - 12 then Err kCorruption
          else
            let restarts_begin = length bytes - 12 - restart_bytes in
            rbind (parse_restarts bytes restarts_begin 0 (unat restart_count) []) (\<lambda>restarts.
            if hd restarts \<noteq> 0 then Err kCorruption
            else Ok \<lparr>vl_entries_end = restarts_begin, vl_restarts = restarts, vl_entry_count = entry_count\<rparr>))"

text \<open>The loop of \<open>DecodeDataBlockV2\<close>: the entries, the final position and restart index.\<close>

fun decode_v2_entries ::
  "bytes \<Rightarrow> V2BlockLayout \<Rightarrow> nat \<Rightarrow> nat \<Rightarrow> nat \<Rightarrow> bytes \<Rightarrow> InternalEntry option
   \<Rightarrow> (InternalEntry list \<times> nat \<times> nat) result" where
  "decode_v2_entries bytes layout 0 position restart_index previous_key back = Ok ([], position, restart_index)"
| "decode_v2_entries bytes layout (Suc n) position restart_index previous_key back =
     (let at_restart = restart_index < length (vl_restarts layout) \<and>
                       position = unat (vl_restarts layout ! restart_index);
          previous_key = (if at_restart then [] else previous_key);
          restart_index = (if at_restart then restart_index + 1 else restart_index) in
      rbind (DecodeV2Entry bytes position (vl_entries_end layout) previous_key) (\<lambda>(entry, position').
      if back \<noteq> None \<and> \<not> InternalLess_builder (the back) entry then Err kCorruption
      else rbind (decode_v2_entries bytes layout n position' restart_index (user_key entry) (Some entry))
             (\<lambda>(es, p, r). Ok (entry # es, p, r))))"

definition DecodeDataBlockV2 :: "bytes \<Rightarrow> InternalEntry list result" where
  "DecodeDataBlockV2 bytes =
     rbind (ParseV2BlockLayout bytes) (\<lambda>layout.
     rbind (decode_v2_entries bytes layout (unat (vl_entry_count layout)) 0 0 [] None) (\<lambda>(out, position, restart_index).
     if position \<noteq> vl_entries_end layout \<or> restart_index \<noteq> length (vl_restarts layout)
     then Err kCorruption else Ok out))"

text \<open>\<open>std::mismatch\<close> of the previous key and the key: the length of the common prefix.\<close>

fun common_prefix :: "bytes \<Rightarrow> bytes \<Rightarrow> nat" where
  "common_prefix (x # xs) (y # ys) = (if x = y then Suc (common_prefix xs ys) else 0)"
| "common_prefix _ _ = 0"

fun encode_v2_entries ::
  "u32 \<Rightarrow> InternalEntry list \<Rightarrow> nat \<Rightarrow> bytes \<Rightarrow> u32 list \<Rightarrow> bytes \<Rightarrow> InternalEntry option
   \<Rightarrow> (bytes \<times> u32 list) result" where
  "encode_v2_entries restart_interval [] i out restarts previous_key previous = Ok (out, restarts)"
| "encode_v2_entries restart_interval (entry # es) i out restarts previous_key previous =
     (if (previous \<noteq> None \<and> \<not> InternalLess_builder (the previous) entry) \<or>
         (etype entry = kTombstone \<and> evalue entry \<noteq> []) then Err kInvalidArgument
      else
        let restart = (i mod unat restart_interval = 0);
            shared = (if restart then 0 else common_prefix previous_key (user_key entry));
            unshared = length (user_key entry) - shared in
        if \<not> FitsU32 (length out) \<or> \<not> FitsU32 shared \<or> \<not> FitsU32 unshared \<or> \<not> FitsU32 (length (evalue entry))
        then Err kInvalidArgument
        else
          let restarts = (if restart then restarts @ [of_nat (length out)] else restarts);
              out = PutFixed64 (PutFixed32 (PutFixed32 out (of_nat shared)) (of_nat unshared)) (sequence entry)
                      @ [type_byte (etype entry)];
              out = PutFixed32 out (of_nat (length (evalue entry)))
                      @ drop shared (user_key entry) @ evalue entry
          in encode_v2_entries restart_interval es (i + 1) out restarts (user_key entry) (Some entry))"

definition EncodeDataBlock :: "InternalEntry list \<Rightarrow> u32 \<Rightarrow> bytes result" where
  "EncodeDataBlock entries restart_interval =
     (if entries = [] then Err kInvalidArgument
      else if restart_interval = 0 then Err kInvalidArgument
      else rbind (encode_v2_entries restart_interval entries 0 [] [] [] None) (\<lambda>(out, restarts).
        let out = foldl PutFixed32 out restarts;
            out = PutFixed32 out (of_nat (length restarts));
            out = PutFixed32 out (of_nat (length entries))
        in Ok (PutFixed32 out (Crc32c out))))"

definition DecodeDataBlock :: "bytes \<Rightarrow> u32 \<Rightarrow> InternalEntry list result" where
  "DecodeDataBlock bytes version =
     (if version = kSstableVersionV1 then DecodeDataBlockV1 bytes
      else if version = kSstableVersion then DecodeDataBlockV2 bytes
      else Err kCorruption)"

subsection \<open>Point lookup in a block\<close>

fun find_in_entries :: "InternalEntry list \<Rightarrow> bytes \<Rightarrow> u64 \<Rightarrow> InternalEntry result" where
  "find_in_entries [] key n = Err kNotFound"
| "find_in_entries (entry # es) key n =
     (if BytewiseLess key (user_key entry) then Err kNotFound
      else if user_key entry = key \<and> sequence entry \<le> n then Ok entry
      else find_in_entries es key n)"

definition restart_key :: "bytes \<Rightarrow> V2BlockLayout \<Rightarrow> nat \<Rightarrow> bytes result" where
  "restart_key bytes layout index =
     rbind (DecodeV2Entry bytes (unat (vl_restarts layout ! index)) (vl_entries_end layout) [])
       (\<lambda>(entry, position). if position > vl_entries_end layout then Err kCorruption else Ok (user_key entry))"

text \<open>The binary search: the number of restart points whose key is not above the target.\<close>

function search_restart :: "bytes \<Rightarrow> V2BlockLayout \<Rightarrow> bytes \<Rightarrow> nat \<Rightarrow> nat \<Rightarrow> nat result" where
  "search_restart bytes layout key first limit =
     (if first < limit then
        let middle = first + (limit - first) div 2 in
        rbind (restart_key bytes layout middle) (\<lambda>candidate.
          if \<not> BytewiseLess key candidate then search_restart bytes layout key (middle + 1) limit
          else search_restart bytes layout key first middle)
      else Ok first)"
  by pat_completeness auto
termination
  by (relation "measure (\<lambda>(bytes, layout, key, first, limit). limit - first)") auto

declare search_restart.simps [simp del]

text \<open>The scan of one restart group. Every decoded entry moves the position forward.\<close>

lemma DecodeV2Entry_advances: "DecodeV2Entry bytes p e k = Ok (entry, q) \<Longrightarrow> p < q \<and> q \<le> e"
  by (auto simp: DecodeV2Entry_def Let_def rbind_Ok_iff not_less split: option.splits if_splits)

function scan_group ::
  "bytes \<Rightarrow> V2BlockLayout \<Rightarrow> bytes \<Rightarrow> u64 \<Rightarrow> nat \<Rightarrow> nat \<Rightarrow> bytes \<Rightarrow> InternalEntry result" where
  "scan_group bytes layout key n group_end position previous_key =
     (if position < group_end then
        rbind (DecodeV2Entry bytes position (vl_entries_end layout) previous_key) (\<lambda>r.
          let entry = fst r; position' = snd r in
          if position' > group_end then Err kCorruption
          else if BytewiseLess (user_key entry) key
          then scan_group bytes layout key n group_end position' (user_key entry)
          else if BytewiseLess key (user_key entry) then Err kNotFound
          else if sequence entry \<le> n then Ok entry
          else scan_group bytes layout key n group_end position' (user_key entry))
      else Err kNotFound)"
  by pat_completeness auto
termination
  by (relation "measure (\<lambda>(bytes, layout, key, n, group_end, position, k). group_end - position)")
     (auto dest!: DecodeV2Entry_advances)

declare scan_group.simps [simp del]

definition FindDataBlockEntry :: "bytes \<Rightarrow> u32 \<Rightarrow> bytes \<Rightarrow> u64 \<Rightarrow> InternalEntry result" where
  "FindDataBlockEntry bytes version key n =
     (if version = kSstableVersionV1
      then rbind (DecodeDataBlockV1 bytes) (\<lambda>entries. find_in_entries entries key n)
      else if version \<noteq> kSstableVersion then Err kCorruption
      else rbind (ParseV2BlockLayout bytes) (\<lambda>layout.
        rbind (search_restart bytes layout key 0 (length (vl_restarts layout))) (\<lambda>first.
          let group = (if first = 0 then 0 else first - 1);
              group_end = (if group + 1 = length (vl_restarts layout) then vl_entries_end layout
                           else unat (vl_restarts layout ! (group + 1)))
          in scan_group bytes layout key n group_end (unat (vl_restarts layout ! group)) [])))"

section \<open>Index\<close>

fun encode_index_entries :: "BlockMeta list \<Rightarrow> bytes \<Rightarrow> bytes result" where
  "encode_index_entries [] out = Ok out"
| "encode_index_entries (b # bs) out =
     (if \<not> FitsU32 (length (bm_first_key b)) \<or> \<not> FitsU32 (length (bm_last_key b)) then Err kInvalidArgument
      else encode_index_entries bs
        (PutFixed64 (PutFixed64 (PutFixed32 (PutFixed32 out (of_nat (length (bm_first_key b))))
           (of_nat (length (bm_last_key b)))) (bm_offset b)) (bm_size b) @ bm_first_key b @ bm_last_key b))"

definition EncodeIndex :: "BlockMeta list \<Rightarrow> bytes result" where
  "EncodeIndex blocks =
     rbind (encode_index_entries blocks (PutFixed32 [] (of_nat (length blocks)))) (\<lambda>out.
       Ok (PutFixed32 out (Crc32c out)))"

text \<open>
  The loop of \<open>DecodeIndex\<close>. \<open>bytes.size() - 4 - p\<close> is computed in \<open>std::size_t\<close>, which wraps
  around when the entry header reaches into the checksum.
\<close>

fun decode_index_entries :: "bytes \<Rightarrow> nat \<Rightarrow> nat \<Rightarrow> bytes option \<Rightarrow> (BlockMeta list \<times> nat) result" where
  "decode_index_entries bytes 0 p previous = Ok ([], p)"
| "decode_index_entries bytes (Suc n) p previous =
     (case (GetFixed32 bytes p, GetFixed32 bytes (p + 4), GetFixed64 bytes (p + 8), GetFixed64 bytes (p + 16)) of
        (Some first_size, Some last_size, Some offset, Some block_size) \<Rightarrow>
          let p = p + 24 in
          if unat first_size + unat last_size > size_minus (length bytes - 4) p then Err kCorruption
          else rbind (slice bytes p (unat first_size)) (\<lambda>first_key.
          rbind (slice bytes (p + unat first_size) (unat last_size)) (\<lambda>last_key.
          if first_key > last_key \<or> (previous \<noteq> None \<and> \<not> the previous < first_key) then Err kCorruption
          else rbind (decode_index_entries bytes n (p + unat first_size + unat last_size) (Some last_key)) (\<lambda>(bs, p).
            Ok (\<lparr>bm_first_key = first_key, bm_last_key = last_key, bm_offset = offset, bm_size = block_size\<rparr> # bs, p))))
      | _ \<Rightarrow> Err kCorruption)"

definition DecodeIndex :: "bytes \<Rightarrow> BlockMeta list result" where
  "DecodeIndex bytes =
     (if length bytes < 8 then Err kCorruption
      else
        let expected = Get32 bytes (length bytes - 4); count = Get32 bytes 0 in
        if Crc32c (take (length bytes - 4) bytes) \<noteq> expected then Err kCorruption
        else rbind (decode_index_entries bytes (unat count) 4 None) (\<lambda>(out, p).
          if p \<noteq> length bytes - 4 then Err kCorruption else Ok out))"

section \<open>Properties and footers\<close>

definition EncodeProperties :: "TableProperties \<Rightarrow> bytes result" where
  "EncodeProperties p =
     (if tp_entry_count p = 0 \<or> tp_min_sequence p = 0 \<or> tp_min_sequence p > tp_max_sequence p \<or>
         tp_smallest_key p > tp_largest_key p \<or>
         \<not> FitsU32 (length (tp_smallest_key p)) \<or> \<not> FitsU32 (length (tp_largest_key p))
      then Err kInvalidArgument
      else
        let out = PutFixed64 (PutFixed64 (PutFixed64 [] (tp_entry_count p)) (tp_min_sequence p)) (tp_max_sequence p);
            out = PutFixed32 (PutFixed32 out (of_nat (length (tp_smallest_key p)))) (of_nat (length (tp_largest_key p)));
            out = out @ tp_smallest_key p @ tp_largest_key p
        in Ok (PutFixed32 out (Crc32c out)))"

definition DecodeProperties :: "bytes \<Rightarrow> TableProperties result" where
  "DecodeProperties bytes =
     (if length bytes < 32 + 4 then Err kCorruption
      else
        let entry_count = Get64 bytes 0; min_sequence = Get64 bytes 8; max_sequence = Get64 bytes 16;
            smallest_size = Get32 bytes 24; largest_size = Get32 bytes 28;
            expected = Get32 bytes (length bytes - 4) in
        if Crc32c (take (length bytes - 4) bytes) \<noteq> expected then Err kCorruption
        else if entry_count = 0 \<or> min_sequence = 0 \<or> min_sequence > max_sequence \<or>
                unat smallest_size + unat largest_size \<noteq> length bytes - 32 - 4 then Err kCorruption
        else rbind (slice bytes 32 (unat smallest_size)) (\<lambda>smallest_key.
        rbind (slice bytes (32 + unat smallest_size) (unat largest_size)) (\<lambda>largest_key.
        if smallest_key > largest_key then Err kCorruption
        else Ok \<lparr>tp_entry_count = entry_count, tp_smallest_key = smallest_key, tp_largest_key = largest_key,
                 tp_min_sequence = min_sequence, tp_max_sequence = max_sequence\<rparr>)))"

definition EncodeFooter :: "Footer \<Rightarrow> bytes" where
  "EncodeFooter f =
     (let out = PutFixed32 [] (ft_version f);
          out = PutFixed64 (PutFixed64 out (ft_index_offset f)) (ft_index_size f);
          out = PutFixed64 (PutFixed64 out (ft_properties_offset f)) (ft_properties_size f);
          out = PutFixed64 out kSstableMagic
      in PutFixed32 (PutFixed32 out (Crc32c out)) 0)"

definition EncodeFooterV1 :: "u64 \<Rightarrow> u64 \<Rightarrow> bytes" where
  "EncodeFooterV1 index_offset index_size =
     (let out = PutFixed64 (PutFixed64 (PutFixed64 (PutFixed32 [] kSstableVersionV1) index_offset) index_size) kSstableMagic
      in PutFixed32 (PutFixed32 out (Crc32c out)) 0)"

definition DecodeFooter :: "bytes \<Rightarrow> Footer result" where
  "DecodeFooter bytes =
     (if length bytes \<noteq> kSstableV1FooterSize \<and> length bytes \<noteq> kSstableFooterSize then Err kCorruption
      else
        let version = Get32 bytes 0; is_v1_layout = (length bytes = kSstableV1FooterSize);
            magic_offset = (if is_v1_layout then 20 else 36);
            checksum_offset = (if is_v1_layout then 28 else 44);
            reserved_offset = (if is_v1_layout then 32 else 48);
            magic = Get64 bytes magic_offset; expected = Get32 bytes checksum_offset;
            reserved = Get32 bytes reserved_offset in
        if (is_v1_layout \<and> version \<noteq> kSstableVersionV1) \<or> (\<not> is_v1_layout \<and> version \<noteq> kSstableVersion) \<or>
           magic \<noteq> kSstableMagic \<or> reserved \<noteq> 0 \<or> Crc32c (take checksum_offset bytes) \<noteq> expected
        then Err kCorruption
        else Ok \<lparr>ft_version = version, ft_index_offset = Get64 bytes 4, ft_index_size = Get64 bytes 12,
                 ft_properties_offset = (if is_v1_layout then 0 else Get64 bytes 20),
                 ft_properties_size = (if is_v1_layout then 0 else Get64 bytes 28)\<rparr>)"

end
