(* ===== verification/Sstable_Codec.thy ===== *)
theory Sstable_Codec
  imports Sstable_Format
begin

text \<open>
  Properties of the SSTable formats: the block, properties and footer decoders never read outside
  their input, what a block decoder accepts is strictly ordered, decoding inverts encoding for
  blocks, index, properties and footers, and what the point lookup in a version-2 block computes.
\<close>

section \<open>Memory safety\<close>

lemma decode_v1_entries_safe:
  "offsets_start \<le> length bytes \<Longrightarrow> decode_v1_entries bytes offsets_start i n previous \<noteq> UB"
proof (induction n arbitrary: i previous)
  case (Suc n)
  let ?offset = "Get32 bytes (offsets_start + 4 * i)"
  define nx where "nx = (if n = 0 then of_nat offsets_start else Get32 bytes (offsets_start + 4 * (i + 1)))"
  show ?case
  proof (cases "?offset > nx \<or> unat nx > offsets_start \<or> unat (nx - ?offset) < 17")
    case False
    then have d: "unat (nx - ?offset) = unat nx - unat ?offset" "unat ?offset \<le> unat nx"
      by (simp_all add: unat_sub word_le_nat_alt not_less)
    let ?off = "unat ?offset"
    let ?ks = "Get32 bytes (?off + 9)" and ?vs = "Get32 bytes (?off + 13)"
    have in_range: "?off + 17 + unat ?ks + unat ?vs \<le> length bytes"
      if "17 + unat ?ks + unat ?vs = unat (nx - ?offset)"
      using that d False Suc.prems by linarith
    have "?off + 8 < length bytes" using d False Suc.prems by linarith
    then show ?thesis
      using Suc.IH Suc.prems in_range False
      by (auto simp: Let_def nx_def [symmetric] rbind_UB_iff slice_eq_UB_iff span_at_eq_UB_iff simp del: One_nat_def
            split: if_splits)
  qed (simp add: Let_def nx_def [symmetric])
qed simp

lemma DecodeDataBlockV1_safe: "DecodeDataBlockV1 bytes \<noteq> UB"
  by (auto simp: DecodeDataBlockV1_def Let_def decode_v1_entries_safe)

lemma DecodeV2Entry_safe: "e \<le> length bytes \<Longrightarrow> DecodeV2Entry bytes p e k \<noteq> UB"
  by (auto simp: DecodeV2Entry_def Let_def rbind_UB_iff slice_eq_UB_iff span_at_eq_UB_iff not_less split: option.splits if_splits)

lemma parse_restarts_safe: "parse_restarts bytes b i n rs \<noteq> UB"
  by (induction n arbitrary: i rs) (auto simp: Let_def)

lemma parse_restarts_length: "parse_restarts bytes b i n rs = Ok rs' \<Longrightarrow> length rs' = length rs + n"
  by (induction n arbitrary: i rs) (auto simp: Let_def split: if_splits)

lemma ParseV2BlockLayout_Ok:
  assumes "ParseV2BlockLayout bytes = Ok layout"
  shows "vl_entries_end layout \<le> length bytes" "vl_restarts layout \<noteq> []" "hd (vl_restarts layout) = 0"
    "vl_entry_count layout \<noteq> 0"
proof -
  obtain rs where rs: "parse_restarts bytes (length bytes - 12 - 4 * unat (Get32 bytes (length bytes - 12))) 0
      (unat (Get32 bytes (length bytes - 12))) [] = Ok rs" "hd rs = 0" "Get32 bytes (length bytes - 12) \<noteq> 0"
    and l: "layout = \<lparr>vl_entries_end = length bytes - 12 - 4 * unat (Get32 bytes (length bytes - 12)),
        vl_restarts = rs, vl_entry_count = Get32 bytes (length bytes - 8)\<rparr>" "Get32 bytes (length bytes - 8) \<noteq> 0"
    using assms by (auto simp: ParseV2BlockLayout_def Let_def rbind_Ok_iff split: if_splits)
  have "length rs \<noteq> 0" using parse_restarts_length [OF rs(1)] rs(3) by (simp add: unat_eq_0)
  with rs l show "vl_entries_end layout \<le> length bytes" "vl_restarts layout \<noteq> []" "hd (vl_restarts layout) = 0"
    "vl_entry_count layout \<noteq> 0" by auto
qed

lemma ParseV2BlockLayout_safe: "ParseV2BlockLayout bytes \<noteq> UB"
  by (auto simp: ParseV2BlockLayout_def Let_def rbind_UB_iff parse_restarts_safe split: if_splits)

lemma decode_v2_entries_safe:
  "vl_entries_end layout \<le> length bytes \<Longrightarrow> decode_v2_entries bytes layout n p r k b \<noteq> UB"
  by (induction n arbitrary: p r k b) (auto simp: Let_def rbind_UB_iff DecodeV2Entry_safe split: if_splits)

lemma DecodeDataBlockV2_safe: "DecodeDataBlockV2 bytes \<noteq> UB"
  using decode_v2_entries_safe ParseV2BlockLayout_Ok(1)
  by (auto simp: DecodeDataBlockV2_def rbind_UB_iff ParseV2BlockLayout_safe split: if_splits)

lemma DecodeDataBlock_safe: "DecodeDataBlock bytes version \<noteq> UB"
  by (simp add: DecodeDataBlock_def DecodeDataBlockV1_safe DecodeDataBlockV2_safe)

lemma find_in_entries_safe: "find_in_entries es key n \<noteq> UB"
  by (induction es) auto

lemma restart_key_safe: "vl_entries_end layout \<le> length bytes \<Longrightarrow> restart_key bytes layout i \<noteq> UB"
  by (auto simp: restart_key_def rbind_UB_iff DecodeV2Entry_safe split: if_splits)

lemma search_restart_safe:
  "vl_entries_end layout \<le> length bytes \<Longrightarrow> search_restart bytes layout key first limit \<noteq> UB"
  by (induction bytes layout key first limit rule: search_restart.induct)
     (subst search_restart.simps, auto simp: Let_def rbind_UB_iff restart_key_safe split: if_splits)

lemma scan_group_safe:
  "vl_entries_end layout \<le> length bytes \<Longrightarrow> scan_group bytes layout key n g p k \<noteq> UB"
proof (induction bytes layout key n g p k rule: scan_group.induct)
  case (1 bytes layout key n g p k)
  have IH: "scan_group bytes layout key n g q (user_key e) \<noteq> UB"
    if d: "p < g" "DecodeV2Entry bytes p (vl_entries_end layout) k = Ok (e, q)" "\<not> q > g"
      "BytewiseLess (user_key e) key \<or> \<not> BytewiseLess key (user_key e) \<and> \<not> sequence e \<le> n" for e q
  proof (cases "BytewiseLess (user_key e) key")
    case True
    then show ?thesis using 1(1) [OF d(1,2) refl refl] d 1(3) by simp
  next
    case False
    then show ?thesis using 1(2) [OF d(1,2) refl refl] d 1(3) by simp
  qed
  show ?case
    by (subst scan_group.simps) (use 1(3) in \<open>auto simp: Let_def rbind_UB_iff DecodeV2Entry_safe dest: IH split: if_splits\<close>)
qed

lemma FindDataBlockEntry_safe: "FindDataBlockEntry bytes version key n \<noteq> UB"
  using ParseV2BlockLayout_Ok(1)
  by (auto simp: FindDataBlockEntry_def rbind_UB_iff DecodeDataBlockV1_safe find_in_entries_safe
        ParseV2BlockLayout_safe search_restart_safe scan_group_safe Let_def split: if_splits)

lemma DecodeProperties_safe: "DecodeProperties bytes \<noteq> UB"
  by (auto simp: DecodeProperties_def Let_def rbind_UB_iff slice_eq_UB_iff split: if_splits)

lemma DecodeFooter_safe: "DecodeFooter bytes \<noteq> UB"
  by (simp add: DecodeFooter_def Let_def)

section \<open>What the block decoders accept\<close>

lemma ordered_step: "ordered es \<Longrightarrow> es = [] \<or> InternalLess e (hd es) \<Longrightarrow> ordered (e # es)"
  by (cases es) (auto intro: InternalLess_trans)

lemma decode_v1_entries_sound:
  "decode_v1_entries bytes os i n previous = Ok es \<Longrightarrow>
     length es = n \<and> ordered es \<and> (\<forall>e \<in> set es. etype e = kTombstone \<longrightarrow> evalue e = []) \<and>
     (es \<noteq> [] \<longrightarrow> previous \<noteq> None \<longrightarrow> InternalLess (the previous) (hd es))"
proof (induction n arbitrary: i previous es)
  case (Suc n)
  define nx where "nx = (if n = 0 then of_nat os else Get32 bytes (os + 4 * (i + 1)))"
  have "\<exists>e es'. decode_v1_entries bytes os (i + 1) n (Some e) = Ok es' \<and>
    (previous \<noteq> None \<longrightarrow> InternalLess (the previous) e) \<and> (etype e = kTombstone \<longrightarrow> evalue e = []) \<and> es = e # es'"
    using Suc.prems unfolding decode_v1_entries.simps nx_def [symmetric]
    by (auto simp: Let_def rbind_Ok_iff InternalLess_builder_eq simp del: One_nat_def split: if_splits)
  then obtain e es' where rest: "decode_v1_entries bytes os (i + 1) n (Some e) = Ok es'"
    and e: "previous \<noteq> None \<longrightarrow> InternalLess (the previous) e" "etype e = kTombstone \<longrightarrow> evalue e = []" "es = e # es'"
    by blast
  note IH = Suc.IH [OF rest]
  have "ordered (e # es')" using IH by (intro ordered_step) auto
  then show ?case using e IH by simp
qed simp

lemma DecodeV2Entry_sound:
  "DecodeV2Entry bytes p e k = Ok (entry, q) \<Longrightarrow> entry_ok entry"
  by (auto simp: DecodeV2Entry_def Let_def rbind_Ok_iff entry_ok_def split: option.splits if_splits)

lemma decode_v2_entries_sound:
  "decode_v2_entries bytes layout n p r k prev = Ok (es, q, r') \<Longrightarrow>
     length es = n \<and> ordered es \<and> (\<forall>e \<in> set es. entry_ok e) \<and>
     (es \<noteq> [] \<longrightarrow> prev \<noteq> None \<longrightarrow> InternalLess (the prev) (hd es))"
proof (induction n arbitrary: p r k prev es q r')
  case (Suc n)
  obtain e es' p1 r1 where rest: "decode_v2_entries bytes layout n p1 r1 (user_key e) (Some e) = Ok (es', q, r')"
    and e: "prev \<noteq> None \<longrightarrow> InternalLess (the prev) e" "entry_ok e" "es = e # es'"
    using Suc.prems
    by (auto simp: Let_def rbind_Ok_iff InternalLess_builder_eq dest: DecodeV2Entry_sound split: if_splits)
  note IH = Suc.IH [OF rest]
  have "ordered (e # es')" using IH by (intro ordered_step) auto
  then show ?case using e IH by simp
qed simp

lemma DecodeDataBlock_ordered: "DecodeDataBlock bytes version = Ok es \<Longrightarrow> ordered es"
  by (auto simp: DecodeDataBlock_def DecodeDataBlockV1_def DecodeDataBlockV2_def Let_def rbind_Ok_iff
        dest!: decode_v1_entries_sound decode_v2_entries_sound split: if_splits)

section \<open>Footers, properties and index: decoding inverts encoding\<close>

definition footer_body :: "Footer \<Rightarrow> bytes" where
  "footer_body f = le32 (ft_version f) @ le64 (ft_index_offset f) @ le64 (ft_index_size f) @
     le64 (ft_properties_offset f) @ le64 (ft_properties_size f) @ le64 kSstableMagic"

lemma EncodeFooter_layout: "EncodeFooter f = footer_body f @ le32 (Crc32c (footer_body f)) @ le32 0"
  by (simp add: EncodeFooter_def footer_body_def Let_def PutFixed_append)

lemma length_footer_body [simp]: "length (footer_body f) = 44"
  by (simp add: footer_body_def)

lemma length_EncodeFooter: "length (EncodeFooter f) = kSstableFooterSize"
  by (simp add: EncodeFooter_layout kSstableFooterSize_def)

lemma DecodeEncodeFooter: "ft_version f = kSstableVersion \<Longrightarrow> DecodeFooter (EncodeFooter f) = Ok f"
proof -
  assume v: "ft_version f = kSstableVersion"
  let ?b = "EncodeFooter f"
  have len: "length ?b = 52" by (simp add: length_EncodeFooter kSstableFooterSize_def)
  have crc: "take 44 ?b = footer_body f" "Get32 ?b 44 = Crc32c (footer_body f)" "Get32 ?b 48 = 0"
    by (simp_all add: EncodeFooter_layout slice_simps)
  have fields: "Get32 ?b 0 = ft_version f" "Get64 ?b 4 = ft_index_offset f" "Get64 ?b 12 = ft_index_size f"
    "Get64 ?b 20 = ft_properties_offset f" "Get64 ?b 28 = ft_properties_size f" "Get64 ?b 36 = kSstableMagic"
    by (simp_all add: EncodeFooter_layout footer_body_def slice_simps)
  show ?thesis using v by (simp add: DecodeFooter_def Let_def len sst_consts crc fields)
qed

definition footer_v1_body :: "u64 \<Rightarrow> u64 \<Rightarrow> bytes" where
  "footer_v1_body off sz = le32 kSstableVersionV1 @ le64 off @ le64 sz @ le64 kSstableMagic"

lemma DecodeEncodeFooterV1:
  "DecodeFooter (EncodeFooterV1 off sz) =
     Ok \<lparr>ft_version = kSstableVersionV1, ft_index_offset = off, ft_index_size = sz,
         ft_properties_offset = 0, ft_properties_size = 0\<rparr>"
proof -
  let ?b = "EncodeFooterV1 off sz"
  have layout: "?b = footer_v1_body off sz @ le32 (Crc32c (footer_v1_body off sz)) @ le32 0"
    by (simp add: EncodeFooterV1_def footer_v1_body_def Let_def PutFixed_append)
  have body: "length (footer_v1_body off sz) = 28" by (simp add: footer_v1_body_def)
  have len: "length ?b = 36" by (simp add: layout body)
  have crc: "take 28 ?b = footer_v1_body off sz" "Get32 ?b 28 = Crc32c (footer_v1_body off sz)" "Get32 ?b 32 = 0"
    by (simp_all add: layout body slice_simps)
  have fields: "Get32 ?b 0 = kSstableVersionV1" "Get64 ?b 4 = off" "Get64 ?b 12 = sz" "Get64 ?b 20 = kSstableMagic"
    by (simp_all add: layout footer_v1_body_def slice_simps)
  show ?thesis by (simp add: DecodeFooter_def Let_def len sst_consts crc fields)
qed

lemma checked_tail:
  "take (length (b @ le32 c) - 4) (b @ le32 c) = b" "Get32 (b @ le32 c) (length (b @ le32 c) - 4) = c"
  by (simp_all add: slice_simps)

definition properties_body :: "TableProperties \<Rightarrow> bytes" where
  "properties_body p = le64 (tp_entry_count p) @ le64 (tp_min_sequence p) @ le64 (tp_max_sequence p) @
     le32 (of_nat (length (tp_smallest_key p))) @ le32 (of_nat (length (tp_largest_key p))) @
     tp_smallest_key p @ tp_largest_key p"

definition properties_ok :: "TableProperties \<Rightarrow> bool" where
  "properties_ok p \<longleftrightarrow> tp_entry_count p \<noteq> 0 \<and> tp_min_sequence p \<noteq> 0 \<and> tp_min_sequence p \<le> tp_max_sequence p \<and>
     tp_smallest_key p \<le> tp_largest_key p \<and> length (tp_smallest_key p) \<le> max_u32 \<and> length (tp_largest_key p) \<le> max_u32"

lemma EncodeProperties_eq:
  "EncodeProperties p =
     (if properties_ok p then Ok (properties_body p @ le32 (Crc32c (properties_body p))) else Err kInvalidArgument)"
  by (auto simp: EncodeProperties_def properties_ok_def properties_body_def Let_def PutFixed_append FitsU32_def not_less not_le)

lemma DecodeEncodeProperties:
  assumes "EncodeProperties p = Ok b"
  shows "DecodeProperties b = Ok p"
proof -
  have ok: "properties_ok p" and b: "b = properties_body p @ le32 (Crc32c (properties_body p))"
    using assms by (auto simp: EncodeProperties_eq split: if_splits)
  note tail = checked_tail [of "properties_body p" "Crc32c (properties_body p)"]
  have lens: "unat (of_nat (length (tp_smallest_key p)) :: u32) = length (tp_smallest_key p)"
    "unat (of_nat (length (tp_largest_key p)) :: u32) = length (tp_largest_key p)"
    using ok by (simp_all add: properties_ok_def)
  have len: "length b = 36 + length (tp_smallest_key p) + length (tp_largest_key p)"
    by (simp add: b properties_body_def)
  have fields: "Get64 b 0 = tp_entry_count p" "Get64 b 8 = tp_min_sequence p" "Get64 b 16 = tp_max_sequence p"
    "Get32 b 24 = of_nat (length (tp_smallest_key p))" "Get32 b 28 = of_nat (length (tp_largest_key p))"
    "slice b 32 (length (tp_smallest_key p)) = Ok (tp_smallest_key p)"
    "slice b (32 + length (tp_smallest_key p)) (length (tp_largest_key p)) = Ok (tp_largest_key p)"
    by (simp_all add: b properties_body_def slice_simps)
  have crc: "take (length b - 4) b = properties_body p" "Get32 b (length b - 4) = Crc32c (properties_body p)"
    using tail unfolding b by simp_all
  have "\<not> tp_smallest_key p > tp_largest_key p" "\<not> tp_min_sequence p > tp_max_sequence p"
    using ok by (simp_all add: properties_ok_def not_less)
  then show ?thesis
    using ok by (simp add: DecodeProperties_def Let_def fields lens crc) (simp add: len properties_ok_def)
qed

text \<open>A block index as the builder makes it: key ranges in order and disjoint.\<close>

definition index_entry_bytes :: "BlockMeta \<Rightarrow> bytes" where
  "index_entry_bytes b = le32 (of_nat (length (bm_first_key b))) @ le32 (of_nat (length (bm_last_key b))) @
     le64 (bm_offset b) @ le64 (bm_size b) @ bm_first_key b @ bm_last_key b"

fun index_ok :: "bytes option \<Rightarrow> BlockMeta list \<Rightarrow> bool" where
  "index_ok previous [] = True"
| "index_ok previous (b # bs) = (bm_first_key b \<le> bm_last_key b \<and>
     (previous = None \<or> the previous < bm_first_key b) \<and> index_ok (Some (bm_last_key b)) bs)"

definition index_keys_fit :: "BlockMeta list \<Rightarrow> bool" where
  "index_keys_fit bs \<longleftrightarrow> (\<forall>b \<in> set bs. length (bm_first_key b) \<le> max_u32 \<and> length (bm_last_key b) \<le> max_u32)"

definition index_body :: "BlockMeta list \<Rightarrow> bytes" where
  "index_body bs = le32 (of_nat (length bs)) @ concat (map index_entry_bytes bs)"

lemma length_index_entry_bytes: "length (index_entry_bytes b) = 24 + length (bm_first_key b) + length (bm_last_key b)"
  by (simp add: index_entry_bytes_def)

lemma encode_index_entries_eq:
  "out \<noteq> [] \<Longrightarrow> encode_index_entries bs out =
     (if index_keys_fit bs then Ok (out @ concat (map index_entry_bytes bs)) else Err kInvalidArgument)"
  by (induction bs arbitrary: out)
     (auto simp: index_keys_fit_def FitsU32_def index_entry_bytes_def PutFixed_append not_le)

lemma EncodeIndex_eq:
  "EncodeIndex bs = (if index_keys_fit bs then Ok (index_body bs @ le32 (Crc32c (index_body bs))) else Err kInvalidArgument)"
  by (simp add: EncodeIndex_def encode_index_entries_eq index_body_def PutFixed_append)

lemma GetFixed_Some:
  "off + 4 \<le> length b \<Longrightarrow> GetFixed32 b off = Some (Get32 b off)"
  "off + 8 \<le> length b \<Longrightarrow> GetFixed64 b off = Some (Get64 b off)"
  by (simp_all add: Get32_def GetFixed32_def Get64_def GetFixed64_def)

lemma decode_index_entries_encoded:
  assumes "index_keys_fit bs" "index_ok previous bs"
  shows "decode_index_entries (pre @ concat (map index_entry_bytes bs) @ le32 c) (length bs) (length pre) previous =
     Ok (bs, length pre + length (concat (map index_entry_bytes bs)))"
  using assms
proof (induction bs arbitrary: pre previous)
  case (Cons b bs)
  let ?rest = "concat (map index_entry_bytes bs)"
  let ?bytes = "pre @ index_entry_bytes b @ ?rest @ le32 c"
  have fit: "unat (of_nat (length (bm_first_key b)) :: u32) = length (bm_first_key b)"
    "unat (of_nat (length (bm_last_key b)) :: u32) = length (bm_last_key b)"
    using Cons.prems(1) by (simp_all add: index_keys_fit_def)
  have fields: "GetFixed32 ?bytes (length pre) = Some (of_nat (length (bm_first_key b)))"
    "GetFixed32 ?bytes (length pre + 4) = Some (of_nat (length (bm_last_key b)))"
    "GetFixed64 ?bytes (length pre + 8) = Some (bm_offset b)"
    "GetFixed64 ?bytes (length pre + 16) = Some (bm_size b)"
    "slice ?bytes (length pre + 24) (length (bm_first_key b)) = Ok (bm_first_key b)"
    "slice ?bytes (length pre + 24 + length (bm_first_key b)) (length (bm_last_key b)) = Ok (bm_last_key b)"
    by (simp_all add: GetFixed_Some index_entry_bytes_def slice_simps)
  have IH: "decode_index_entries ((pre @ index_entry_bytes b) @ ?rest @ le32 c) (length bs)
      (length (pre @ index_entry_bytes b)) (Some (bm_last_key b)) =
      Ok (bs, length (pre @ index_entry_bytes b) + length ?rest)"
    using Cons.prems by (intro Cons.IH) (auto simp: index_keys_fit_def)
  have guard: "\<not> (length (bm_first_key b) + length (bm_last_key b) > size_minus (length ?bytes - 4) (length pre + 24))"
    by (simp add: length_index_entry_bytes)
  have order: "\<not> (bm_first_key b > bm_last_key b \<or> (previous \<noteq> None \<and> \<not> the previous < bm_first_key b))"
    using Cons.prems(2) by auto
  have off: "length pre + 24 + length (bm_first_key b) + length (bm_last_key b) = length (pre @ index_entry_bytes b)"
    by (simp add: length_index_entry_bytes)
  have "decode_index_entries ?bytes (Suc (length bs)) (length pre) previous =
      Ok (b # bs, length (pre @ index_entry_bytes b) + length ?rest)"
    using guard order IH by (simp add: fields Let_def fit off)
  then show ?case by simp
qed simp

lemma DecodeEncodeIndex:
  assumes enc: "EncodeIndex bs = Ok b" and ok: "index_ok None bs" "length bs \<le> max_u32"
  shows "DecodeIndex b = Ok bs"
proof -
  have fit: "index_keys_fit bs" and b: "b = index_body bs @ le32 (Crc32c (index_body bs))"
    using enc by (auto simp: EncodeIndex_eq split: if_splits)
  have crc: "take (length b - 4) b = index_body bs" "Get32 b (length b - 4) = Crc32c (index_body bs)"
    using checked_tail unfolding b by simp_all
  have count: "Get32 b 0 = of_nat (length bs)" "unat (of_nat (length bs) :: u32) = length bs"
    using ok(2) by (simp_all add: b index_body_def slice_simps)
  have "decode_index_entries (le32 (of_nat (length bs)) @ concat (map index_entry_bytes bs) @ le32 (Crc32c (index_body bs)))
      (length bs) (length (le32 (of_nat (length bs)))) None =
      Ok (bs, length (le32 (of_nat (length bs))) + length (concat (map index_entry_bytes bs)))"
    by (rule decode_index_entries_encoded [OF fit ok(1)])
  then have dec: "decode_index_entries b (length bs) 4 None = Ok (bs, length (index_body bs))"
    by (simp add: b index_body_def)
  have "length b = length (index_body bs) + 4" "4 \<le> length (index_body bs)" by (simp_all add: b index_body_def)
  then show ?thesis using crc by (simp add: DecodeIndex_def Let_def count dec)
qed

text \<open>
  A checksummed index can make \<open>DecodeIndex\<close> read outside its buffer: an entry header that ends in
  the checksum puts \<open>p\<close> behind \<open>bytes.size() - 4\<close>, and the remaining length wraps around.
\<close>

definition overlapping_index :: bytes where
  "overlapping_index =
     (let body = le32 1 @ le32 1 @ le32 0 @ le64 0 @ le32 0 in body @ le32 (Crc32c body))"

lemma DecodeIndex_overlapping: "DecodeIndex overlapping_index = UB"
proof -
  let ?body = "le32 1 @ le32 1 @ le32 0 @ le64 0 @ le32 0"
  let ?b = "?body @ le32 (Crc32c ?body)"
  have len: "length ?b = 28" by simp
  have crc: "take (length ?b - 4) ?b = ?body" "Get32 ?b (length ?b - 4) = Crc32c ?body" by (rule checked_tail)+
  have fields: "Get32 ?b 0 = 1" "GetFixed32 ?b 4 = Some 1" "GetFixed32 ?b (4 + 4) = Some 0"
    "GetFixed64 ?b (4 + 8) = Some 0" "GetFixed64 ?b (4 + 16) = Some (Get64 ?b 20)"
    by (simp_all add: GetFixed_Some slice_simps)
  have guard: "\<not> (unat (1 :: u32) + unat (0 :: u32) > size_minus (28 - 4) (4 + 24))"
    by (simp add: size_minus_def)
  have "slice ?b (4 + 24) (unat (1 :: u32)) = UB" by (simp add: slice_def)
  then have "decode_index_entries ?b (Suc 0) 4 None = UB"
    using guard len by (simp only: decode_index_entries.simps fields prod.case option.case Let_def if_False rbind.simps)
  then have "DecodeIndex ?b = UB"
    unfolding DecodeIndex_def Let_def crc fields(1) using len by simp
  then show ?thesis by (simp add: overlapping_index_def Let_def)
qed

section \<open>Properties\<close>

text \<open>
  C38: The table sections round trip: every version-2 footer, every version-1 footer, every properties
  section the encoder accepts and every index with increasing key ranges decode to what was encoded.
\<close>

theorem table_sections_roundtrip:
  "(ft_version f = kSstableVersion \<longrightarrow> DecodeFooter (EncodeFooter f) = Ok f) \<and>
   DecodeFooter (EncodeFooterV1 off sz) =
     Ok \<lparr>ft_version = kSstableVersionV1, ft_index_offset = off, ft_index_size = sz,
         ft_properties_offset = 0, ft_properties_size = 0\<rparr> \<and>
   (EncodeProperties p = Ok pb \<longrightarrow> DecodeProperties pb = Ok p) \<and>
   (EncodeIndex bs = Ok ib \<and> index_ok None bs \<and> length bs \<le> max_u32 \<longrightarrow> DecodeIndex ib = Ok bs)"
  using DecodeEncodeFooter DecodeEncodeFooterV1 DecodeEncodeProperties DecodeEncodeIndex by blast

theorem table_sections_roundtrip_witness:
  "DecodeFooter (EncodeFooter \<lparr>ft_version = kSstableVersion, ft_index_offset = 10, ft_index_size = 20,
      ft_properties_offset = 30, ft_properties_size = 40\<rparr>) =
     Ok \<lparr>ft_version = kSstableVersion, ft_index_offset = 10, ft_index_size = 20,
         ft_properties_offset = 30, ft_properties_size = 40\<rparr> \<and>
   (\<exists>pb. EncodeProperties \<lparr>tp_entry_count = 1, tp_smallest_key = [1], tp_largest_key = [2], tp_min_sequence = 3, tp_max_sequence = 3\<rparr> = Ok pb \<and>
      DecodeProperties pb = Ok \<lparr>tp_entry_count = 1, tp_smallest_key = [1], tp_largest_key = [2], tp_min_sequence = 3, tp_max_sequence = 3\<rparr>) \<and>
   (\<exists>ib. EncodeIndex [\<lparr>bm_first_key = [1], bm_last_key = [2], bm_offset = 0, bm_size = 9\<rparr>] = Ok ib \<and>
      DecodeIndex ib = Ok [\<lparr>bm_first_key = [1], bm_last_key = [2], bm_offset = 0, bm_size = 9\<rparr>])"
proof -
  let ?f = "\<lparr>ft_version = kSstableVersion, ft_index_offset = 10, ft_index_size = 20,
      ft_properties_offset = 30, ft_properties_size = 40\<rparr> :: Footer"
  let ?p = "\<lparr>tp_entry_count = 1, tp_smallest_key = [1], tp_largest_key = [2], tp_min_sequence = 3, tp_max_sequence = 3\<rparr> :: TableProperties"
  let ?bs = "[\<lparr>bm_first_key = [1], bm_last_key = [2], bm_offset = 0, bm_size = 9\<rparr>] :: BlockMeta list"
  obtain pb where pb: "EncodeProperties ?p = Ok pb"
    by (simp add: EncodeProperties_def Let_def FitsU32_def max_u32_def)
  obtain ib where ib: "EncodeIndex ?bs = Ok ib"
    by (simp add: EncodeIndex_def Let_def FitsU32_def max_u32_def)
  have "index_ok None ?bs" "length ?bs \<le> max_u32" by (simp_all add: max_u32_def)
  then show ?thesis using table_sections_roundtrip [of ?f 0 0 ?p pb ?bs ib] pb ib by simp
qed

text \<open>
  For arbitrary bytes, the block, lookup, properties and footer decoders never read outside the
  bytes they were given. The index decoder is the exception, see below.
\<close>

theorem table_decoders_memory_safe:
  "DecodeDataBlock bytes version \<noteq> UB \<and> FindDataBlockEntry bytes version key n \<noteq> UB \<and>
   DecodeProperties bytes \<noteq> UB \<and> DecodeFooter bytes \<noteq> UB"
  by (simp add: DecodeDataBlock_safe FindDataBlockEntry_safe DecodeProperties_safe DecodeFooter_safe)

text \<open>
  C39: The index decoder leaves the index section: on a 28-byte index with a valid checksum whose single
  entry overlaps the checksum, \<open>bytes.size() - 4 - p\<close> wraps around, the length check passes, and the
  first key is read past the end of the buffer.
\<close>

theorem index_decoder_reads_out_of_bounds:
  "length overlapping_index = 28 \<and> Crc32c (take 24 overlapping_index) = Get32 overlapping_index 24 \<and>
   DecodeIndex overlapping_index = UB"
proof -
  let ?body = "le32 1 @ le32 1 @ le32 0 @ le64 0 @ le32 0"
  have "length ?body = 24" by simp
  then show ?thesis
    using checked_tail [of ?body "Crc32c ?body"] DecodeIndex_overlapping by (simp add: overlapping_index_def Let_def)
qed

end
