(* ===== verification/Block_Codec.thy ===== *)
theory Block_Codec
  imports Sstable_Codec
begin

text \<open>
  Version-2 data blocks. The layout of an encoded block is described by list functions; decoding an
  encoded block gives the entries back, for every restart interval. The second part shows what the
  point lookup \<open>FindDataBlockEntry\<close> computes on an encoded block: it searches the last restart group
  whose first key is not above the target.
\<close>

section \<open>Layout\<close>

declare of_nat_diff [simp del]

definition v2_entry_bytes :: "nat \<Rightarrow> InternalEntry \<Rightarrow> bytes" where
  "v2_entry_bytes shared e =
     le32 (of_nat shared) @ le32 (of_nat (length (user_key e) - shared)) @ le64 (sequence e) @
     type_byte (etype e) # le32 (of_nat (length (evalue e))) @ drop shared (user_key e) @ evalue e"

definition v2_shared :: "nat \<Rightarrow> nat \<Rightarrow> bytes \<Rightarrow> InternalEntry \<Rightarrow> nat" where
  "v2_shared r i pk e = (if i mod r = 0 then 0 else common_prefix pk (user_key e))"

abbreviation v2_item :: "nat \<Rightarrow> nat \<Rightarrow> bytes \<Rightarrow> InternalEntry \<Rightarrow> bytes" where
  "v2_item r i pk e \<equiv> v2_entry_bytes (v2_shared r i pk e) e"

fun v2_bytes :: "nat \<Rightarrow> nat \<Rightarrow> bytes \<Rightarrow> InternalEntry list \<Rightarrow> bytes" where
  "v2_bytes r i pk [] = []"
| "v2_bytes r i pk (e # es) = v2_item r i pk e @ v2_bytes r (Suc i) (user_key e) es"

fun v2_restarts :: "nat \<Rightarrow> nat \<Rightarrow> nat \<Rightarrow> bytes \<Rightarrow> InternalEntry list \<Rightarrow> nat list" where
  "v2_restarts r i off pk [] = []"
| "v2_restarts r i off pk (e # es) =
     (if i mod r = 0 then [off] else []) @
     v2_restarts r (Suc i) (off + length (v2_item r i pk e)) (user_key e) es"

text \<open>What the encoder has checked when it succeeds.\<close>

fun v2_fits :: "nat \<Rightarrow> nat \<Rightarrow> nat \<Rightarrow> bytes \<Rightarrow> InternalEntry list \<Rightarrow> bool" where
  "v2_fits r i off pk [] = True"
| "v2_fits r i off pk (e # es) =
     (off \<le> max_u32 \<and> v2_shared r i pk e \<le> max_u32 \<and>
      length (user_key e) - v2_shared r i pk e \<le> max_u32 \<and> length (evalue e) \<le> max_u32 \<and>
      (etype e = kTombstone \<longrightarrow> evalue e = []) \<and>
      v2_fits r (Suc i) (off + length (v2_item r i pk e)) (user_key e) es)"

lemma common_prefix_le: "common_prefix xs ys \<le> length xs" "common_prefix xs ys \<le> length ys"
  by (induction xs ys rule: common_prefix.induct) auto

lemma common_prefix_take: "take (common_prefix xs ys) xs = take (common_prefix xs ys) ys"
  by (induction xs ys rule: common_prefix.induct) auto

lemma v2_shared_le: "v2_shared r i pk e \<le> length (user_key e)"
  by (simp add: v2_shared_def common_prefix_le)

lemma length_v2_entry_bytes:
  "length (v2_entry_bytes s e) = 21 + (length (user_key e) - s) + length (evalue e)"
  by (simp add: v2_entry_bytes_def)

lemma encode_v2_entries_Ok:
  assumes "encode_v2_entries r es i out rs pk prev = Ok (out', rs')"
  shows "out' = out @ v2_bytes (unat r) i pk es \<and> rs' = rs @ map of_nat (v2_restarts (unat r) i (length out) pk es) \<and>
     v2_fits (unat r) i (length out) pk es \<and> ordered es \<and>
     (es \<noteq> [] \<longrightarrow> prev \<noteq> None \<longrightarrow> InternalLess (the prev) (hd es))"
  using assms
proof (induction es arbitrary: i out rs pk prev)
  case (Cons e es)
  let ?sh = "v2_shared (unat r) i pk e"
  let ?bad = "(prev \<noteq> None \<and> \<not> InternalLess_builder (the prev) e) \<or> (etype e = kTombstone \<and> evalue e \<noteq> [])"
  let ?big = "\<not> FitsU32 (length out) \<or> \<not> FitsU32 ?sh \<or> \<not> FitsU32 (length (user_key e) - ?sh) \<or> \<not> FitsU32 (length (evalue e))"
  let ?out = "PutFixed32 (PutFixed64 (PutFixed32 (PutFixed32 out (of_nat ?sh)) (of_nat (length (user_key e) - ?sh))) (sequence e)
      @ [type_byte (etype e)]) (of_nat (length (evalue e))) @ drop ?sh (user_key e) @ evalue e"
  let ?rs = "if i mod unat r = 0 then rs @ [of_nat (length out)] else rs"
  have step: "encode_v2_entries r (e # es) i out rs pk prev =
      (if ?bad then Err kInvalidArgument else if ?big then Err kInvalidArgument
       else encode_v2_entries r es (i + 1) ?out ?rs (user_key e) (Some e))"
    by (simp only: encode_v2_entries.simps Let_def v2_shared_def)
  have guard: "\<not> ?bad" and big: "\<not> ?big" using Cons.prems step by (auto split: if_splits)
  have out: "?out = out @ v2_item (unat r) i pk e"
    by (simp add: v2_entry_bytes_def PutFixed32_le32 [of out] PutFixed_append)
  have rs: "?rs = rs @ map of_nat (if i mod unat r = 0 then [length out] else [])" by simp
  have rec: "encode_v2_entries r es (Suc i) (out @ v2_item (unat r) i pk e)
      (rs @ map of_nat (if i mod unat r = 0 then [length out] else [])) (user_key e) (Some e) = Ok (out', rs')"
    using Cons.prems unfolding step if_not_P [OF guard] if_not_P [OF big] out rs by simp
  have fits: "length out \<le> max_u32" "?sh \<le> max_u32" "length (user_key e) - ?sh \<le> max_u32" "length (evalue e) \<le> max_u32"
    using big by (simp_all add: FitsU32_def)
  note IH = Cons.IH [OF rec]
  have "ordered (e # es)" using IH by (intro ordered_step) auto
  then show ?case using IH guard fits by (auto simp: InternalLess_builder_eq)
qed simp

lemma v2_restarts_range:
  "x \<in> set (v2_restarts r i off pk es) \<Longrightarrow> off \<le> x \<and> x < off + length (v2_bytes r i pk es)"
  by (induction es arbitrary: i off pk) (force simp: length_v2_entry_bytes split: if_splits)+

lemma v2_restarts_increasing: "sorted_wrt (<) (v2_restarts r i off pk es)"
proof (induction es arbitrary: i off pk)
  case (Cons e es)
  have "off < x" if "x \<in> set (v2_restarts r (Suc i) (off + length (v2_item r i pk e)) (user_key e) es)" for x
    using v2_restarts_range [OF that] by (simp add: length_v2_entry_bytes)
  with Cons show ?case by simp
qed simp

lemma v2_restarts_fit: "v2_fits r i off pk es \<Longrightarrow> x \<in> set (v2_restarts r i off pk es) \<Longrightarrow> x \<le> max_u32"
  by (induction es arbitrary: i off pk) (auto split: if_splits)

lemma length_v2_restarts_le: "length (v2_restarts r i off pk es) \<le> length es"
  by (induction es arbitrary: i off pk) (auto intro: le_SucI)

lemma v2_fits_count: "v2_fits r i off pk es \<Longrightarrow> es \<noteq> [] \<Longrightarrow> off + 21 * (length es - 1) \<le> max_u32"
proof (induction es arbitrary: i off pk)
  case (Cons e es)
  show ?case
  proof (cases "es = []")
    case False
    have "off + length (v2_item r i pk e) + 21 * (length es - 1) \<le> max_u32"
      using Cons.IH [of "Suc i" "off + length (v2_item r i pk e)" "user_key e"] False Cons.prems by simp
    moreover have "length es = Suc (length es - 1)" using False by simp
    ultimately show ?thesis by (simp add: length_v2_entry_bytes)
  qed (use Cons.prems in simp)
qed simp

section \<open>Decoding one entry and a whole block\<close>

lemma DecodeV2Entry_encoded:
  assumes "s \<le> length pk" "take s pk = take s (user_key e)" "s \<le> length (user_key e)" "s \<le> max_u32"
    "length (user_key e) - s \<le> max_u32" "length (evalue e) \<le> max_u32" "entry_ok e"
    "length pre + length (v2_entry_bytes s e) \<le> entries_end"
  shows "DecodeV2Entry (pre @ v2_entry_bytes s e @ post) (length pre) entries_end pk =
     Ok (e, length pre + length (v2_entry_bytes s e))"
proof -
  let ?b = "pre @ v2_entry_bytes s e @ post"
  let ?u = "length (user_key e) - s" and ?v = "length (evalue e)"
  have words: "unat (of_nat s :: u32) = s" "unat (of_nat ?u :: u32) = ?u" "unat (of_nat ?v :: u32) = ?v"
    using assms by simp_all
  have fields: "GetFixed32 ?b (length pre) = Some (of_nat s)" "GetFixed32 ?b (length pre + 4) = Some (of_nat ?u)"
    "GetFixed64 ?b (length pre + 8) = Some (sequence e)" "GetFixed32 ?b (length pre + 17) = Some (of_nat ?v)"
    "span_at ?b (length pre + 16) = Ok (type_byte (etype e))"
    "slice ?b (length pre + 21) ?u = Ok (drop s (user_key e))"
    "slice ?b (length pre + 21 + ?u) ?v = Ok (evalue e)"
    by (simp_all add: GetFixed_Some v2_entry_bytes_def slice_simps)
  have key: "take s pk @ drop s (user_key e) = user_key e" using assms(2) by simp
  have len: "length (v2_entry_bytes s e) = 21 + ?u + ?v" by (rule length_v2_entry_bytes)
  have guard: "\<not> (s > length pk \<or> length pre > entries_end \<or> entries_end - length pre < 21 \<or> ?u + ?v > entries_end - length pre - 21)"
    using assms(1,8) len by linarith
  have "sequence e \<noteq> 0" "etype e \<noteq> kTombstone \<or> evalue e = []" using assms(7) by (auto simp: entry_ok_def)
  then show ?thesis
    using guard type_byte_valid [of "etype e"]
    by (simp add: DecodeV2Entry_def fields words key Let_def len)
qed

lemma v2_item_decodes:
  assumes "v2_fits r i (length pre) pk (e # es)" "entry_ok e"
    "length pre + length (v2_item r i pk e) \<le> entries_end" "q = (if i mod r = 0 then [] else pk)"
  shows "DecodeV2Entry (pre @ v2_item r i pk e @ post) (length pre) entries_end q =
     Ok (e, length pre + length (v2_item r i pk e))"
  using assms common_prefix_le common_prefix_take
  by (intro DecodeV2Entry_encoded) (auto simp: v2_shared_def)

lemma decode_v2_entries_encoded:
  assumes "v2_fits r i (length pre) pk es" "\<forall>e \<in> set es. entry_ok e" "ordered es"
    "es \<noteq> [] \<longrightarrow> prev \<noteq> None \<longrightarrow> InternalLess (the prev) (hd es)"
    "vl_entries_end layout = length pre + length (v2_bytes r i pk es)"
    "vl_restarts layout = map of_nat (done @ v2_restarts r i (length pre) pk es)"
  shows "decode_v2_entries (pre @ v2_bytes r i pk es @ post) layout (length es) (length pre) (length done) pk prev =
     Ok (es, vl_entries_end layout, length (vl_restarts layout))"
  using assms
proof (induction es arbitrary: i pre pk prev "done")
  case (Cons e es)
  let ?item = "v2_item r i pk e"
  let ?rest = "v2_bytes r (Suc i) (user_key e) es"
  let ?tail = "v2_restarts r (Suc i) (length (pre @ ?item)) (user_key e) es"
  let ?bytes = "pre @ ?item @ ?rest @ post"
  define at where "at = (if i mod r = 0 then [length pre] else [])"
  have rs: "vl_restarts layout = map of_nat ((done @ at) @ ?tail)"
    using Cons.prems(6) by (simp add: at_def)
  have small: "length pre \<le> max_u32" using Cons.prems(1) by simp
  have tail: "length pre < x \<and> x \<le> max_u32" if "x \<in> set ?tail" for x
    using v2_restarts_range [OF that] v2_restarts_fit [OF _ that] Cons.prems(1) by (simp add: length_v2_entry_bytes)
  have cond: "length done < length (vl_restarts layout) \<and> length pre = unat (vl_restarts layout ! length done) \<longleftrightarrow> i mod r = 0"
  proof (cases "i mod r = 0")
    case True
    then show ?thesis using small by (simp add: rs at_def nth_append)
  next
    case False
    have "unat (of_nat (?tail ! 0) :: u32) \<noteq> length pre" if "?tail \<noteq> []"
      using tail [of "?tail ! 0"] that by simp
    with False show ?thesis by (cases ?tail) (auto simp: rs at_def nth_append)
  qed
  have step: "DecodeV2Entry ?bytes (length pre) (vl_entries_end layout) (if i mod r = 0 then [] else pk) =
      Ok (e, length (pre @ ?item))"
    using v2_item_decodes [OF Cons.prems(1), of "vl_entries_end layout" _ "?rest @ post"] Cons.prems(2,5) by simp
  have IH: "decode_v2_entries ((pre @ ?item) @ ?rest @ post) layout (length es) (length (pre @ ?item)) (length (done @ at))
      (user_key e) (Some e) = Ok (es, vl_entries_end layout, length (vl_restarts layout))"
  proof (rule Cons.IH)
    show "vl_restarts layout = map of_nat ((done @ at) @ ?tail)" by (rule rs)
    show "ordered es" using Cons.prems(3) by simp
    show "es \<noteq> [] \<longrightarrow> Some e \<noteq> None \<longrightarrow> InternalLess (the (Some e)) (hd es)" using Cons.prems(3) by simp
  qed (use Cons.prems in auto)
  have less: "\<not> (prev \<noteq> None \<and> \<not> InternalLess_builder (the prev) e)"
    using Cons.prems(4) by (auto simp: InternalLess_builder_eq)
  have idx: "(if i mod r = 0 then length done + 1 else length done) = length (done @ at)" by (simp add: at_def)
  have "decode_v2_entries ?bytes layout (Suc (length es)) (length pre) (length done) pk prev =
      Ok (e # es, vl_entries_end layout, length (vl_restarts layout))"
    unfolding decode_v2_entries.simps Let_def cond step idx rbind.simps prod.case if_not_P [OF less]
    using IH by simp
  then show ?case by simp
qed simp

lemma foldl_PutFixed32: "foldl PutFixed32 out ws = out @ concat (map le32 ws)"
proof (induction ws arbitrary: out)
  case (Cons w ws)
  then show ?case using PutFixed32_le32 [of out w] by simp
qed simp

lemma Get32_table:
  assumes "j < length ws"
  shows "Get32 (pre @ concat (map le32 ws) @ post) (length pre + 4 * j) = ws ! j"
  using assms
proof (induction ws arbitrary: pre j)
  case (Cons w ws)
  show ?case
  proof (cases j)
    case 0
    then show ?thesis by (simp add: slice_simps)
  next
    case (Suc j')
    have "Get32 ((pre @ le32 w) @ concat (map le32 ws) @ post) (length (pre @ le32 w) + 4 * j') = ws ! j'"
      using Cons.IH [of j' "pre @ le32 w"] Cons.prems Suc by simp
    then show ?thesis by (simp add: Suc algebra_simps)
  qed
qed simp

lemma parse_restarts_table:
  assumes "\<forall>x \<in> set ws. unat x < length pre" "sorted_wrt (<) (acc @ ws)" "i = length acc" "full = acc @ ws"
  shows "parse_restarts (pre @ concat (map le32 full) @ post) (length pre) i (length ws) acc = Ok full"
  using assms
proof (induction ws arbitrary: acc i)
  case (Cons w ws)
  have get: "Get32 (pre @ concat (map le32 full) @ post) (length pre + 4 * i) = w"
    using Get32_table [of i full pre post] Cons.prems by (simp add: nth_append)
  have "\<not> (i > 0 \<and> w \<le> last acc)"
    using Cons.prems(2,3) by (cases "acc = []") (auto simp: sorted_wrt_append not_le)
  moreover have "\<not> length pre \<le> unat w" using Cons.prems(1) by (simp add: not_le)
  moreover have "parse_restarts (pre @ concat (map le32 full) @ post) (length pre) (Suc i) (length ws) (acc @ [w]) = Ok full"
    by (rule Cons.IH) (use Cons.prems in simp_all)
  ultimately show ?case unfolding list.size add_Suc_right parse_restarts.simps Let_def get by simp
qed simp

section \<open>Round trip\<close>

definition v2_body :: "u32 \<Rightarrow> InternalEntry list \<Rightarrow> bytes" where
  "v2_body r es = v2_bytes (unat r) 0 [] es"

definition v2_restart_words :: "u32 \<Rightarrow> InternalEntry list \<Rightarrow> u32 list" where
  "v2_restart_words r es = map of_nat (v2_restarts (unat r) 0 0 [] es)"

definition v2_checked :: "u32 \<Rightarrow> InternalEntry list \<Rightarrow> bytes" where
  "v2_checked r es = v2_body r es @ concat (map le32 (v2_restart_words r es)) @
     le32 (of_nat (length (v2_restart_words r es))) @ le32 (of_nat (length es))"

definition v2_layout :: "u32 \<Rightarrow> InternalEntry list \<Rightarrow> V2BlockLayout" where
  "v2_layout r es = \<lparr>vl_entries_end = length (v2_body r es), vl_restarts = v2_restart_words r es,
     vl_entry_count = of_nat (length es)\<rparr>"

lemma EncodeDataBlock_Ok:
  assumes "EncodeDataBlock es r = Ok b"
  shows "es \<noteq> []" "r \<noteq> 0" "v2_fits (unat r) 0 0 [] es" "ordered es" "b = v2_checked r es @ le32 (Crc32c (v2_checked r es))"
proof -
  obtain out rs where enc: "encode_v2_entries r es 0 [] [] [] None = Ok (out, rs)"
    and ne: "es \<noteq> []" "r \<noteq> 0"
    and b: "b = (let out = PutFixed32 (PutFixed32 (foldl PutFixed32 out rs) (of_nat (length rs))) (of_nat (length es))
                 in PutFixed32 out (Crc32c out))"
    using assms by (auto simp: EncodeDataBlock_def rbind_Ok_iff Let_def split: if_splits)
  note e = encode_v2_entries_Ok [OF enc]
  show "es \<noteq> []" "r \<noteq> 0" "v2_fits (unat r) 0 0 [] es" "ordered es" using ne e by simp_all
  have "out = v2_body r es" "rs = v2_restart_words r es" using e by (simp_all add: v2_body_def v2_restart_words_def)
  then show "b = v2_checked r es @ le32 (Crc32c (v2_checked r es))"
    unfolding b Let_def foldl_PutFixed32
    by (simp add: v2_checked_def PutFixed32_le32 [of "v2_body r es @ concat (map le32 (v2_restart_words r es))"] PutFixed_append)
qed

lemma ParseV2BlockLayout_encoded:
  assumes enc: "EncodeDataBlock es r = Ok b"
  shows "ParseV2BlockLayout b = Ok (v2_layout r es)"
proof -
  note e = EncodeDataBlock_Ok [OF enc]
  let ?rs = "v2_restarts (unat r) 0 0 [] es"
  let ?ws = "v2_restart_words r es"
  have wsfit: "unat (of_nat x :: u32) = x" if "x \<in> set ?rs" for x
    using v2_restarts_fit [OF e(3) that] by simp
  have hd_rs: "?rs \<noteq> []" "hd ?ws = 0" using e(1) by (cases es; simp add: v2_restart_words_def)+
  have cnt: "length ?ws \<le> length es" by (simp add: v2_restart_words_def length_v2_restarts_le)
  have "length es \<le> max_u32" using v2_fits_count [OF e(3,1)] e(1) by (cases es) (auto simp: max_u32_def)
  then have words: "unat (of_nat (length es) :: u32) = length es" "unat (of_nat (length ?ws) :: u32) = length ?ws"
    using cnt by simp_all
  have nz: "(of_nat (length es) :: u32) \<noteq> 0" "(of_nat (length ?ws) :: u32) \<noteq> 0"
    using words hd_rs(1) e(1) by (auto simp: v2_restart_words_def simp flip: unat_eq_0)
  have le: "\<not> (of_nat (length ?ws) :: u32) > of_nat (length es)"
    using cnt words by (simp add: word_less_nat_alt)
  have parse: "parse_restarts (v2_body r es @ concat (map le32 ?ws) @ post) (length (v2_body r es)) 0 (length ?ws) [] = Ok ?ws" for post
  proof (rule parse_restarts_table)
    show "\<forall>x \<in> set ?ws. unat x < length (v2_body r es)"
      using v2_restarts_range wsfit by (fastforce simp: v2_restart_words_def v2_body_def)
    have "sorted_wrt (\<lambda>x y. (of_nat x :: u32) < of_nat y) ?rs"
      by (rule sorted_wrt_mono_rel [OF _ v2_restarts_increasing]) (simp add: word_less_nat_alt wsfit)
    then show "sorted_wrt (<) ([] @ ?ws)" by (simp add: v2_restart_words_def sorted_wrt_map)
  qed simp_all
  let ?c = "le32 (Crc32c (v2_checked r es))"
  have len: "length b = length (v2_body r es) + 4 * length ?ws + 12"
    by (simp add: e(5) v2_checked_def length_concat comp_def sum_list_triv)
  have crc: "take (length b - 4) b = v2_checked r es" "Get32 b (length b - 4) = Crc32c (v2_checked r es)"
    using checked_tail unfolding e(5) by simp_all
  have "Get32 b (length (v2_body r es @ concat (map le32 ?ws)) + 4) = of_nat (length es)"
    "Get32 b (length (v2_body r es @ concat (map le32 ?ws))) = of_nat (length ?ws)"
    unfolding e(5) v2_checked_def by (simp_all add: slice_simps)
  then have counts: "Get32 b (length b - 8) = of_nat (length es)" "Get32 b (length b - 12) = of_nat (length ?ws)"
    by (simp_all add: len length_concat comp_def sum_list_triv ac_simps)
  have split: "b = v2_body r es @ concat (map le32 ?ws) @ (le32 (of_nat (length ?ws)) @ le32 (of_nat (length es)) @ ?c)"
    by (simp add: e(5) v2_checked_def)
  have "parse_restarts b (length b - 12 - 4 * length ?ws) 0 (length ?ws) [] = Ok ?ws"
    using parse [of "le32 (of_nat (length ?ws)) @ le32 (of_nat (length es)) @ ?c"] split len by simp
  moreover have "length b - 12 - 4 * length ?ws = length (v2_body r es)" using len by simp
  moreover have "12 \<le> length b" "4 * length ?ws \<le> length b - 12" using len by simp_all
  ultimately show ?thesis
    using nz le hd_rs(2) by (simp add: ParseV2BlockLayout_def Let_def crc counts words v2_layout_def)
qed

lemma DecodeEncodeDataBlock:
  assumes enc: "EncodeDataBlock es r = Ok b" and ok: "\<forall>e \<in> set es. sequence e \<noteq> 0"
  shows "DecodeDataBlock b kSstableVersion = Ok es"
proof -
  note e = EncodeDataBlock_Ok [OF enc]
  have tomb: "etype x = kTombstone \<longrightarrow> evalue x = []" if "v2_fits q i off pk xs" "x \<in> set xs" for q i off pk xs x
    using that by (induction xs arbitrary: i off pk) auto
  have "\<forall>x \<in> set es. entry_ok x" using ok tomb [OF e(3)] by (auto simp: entry_ok_def)
  then have "decode_v2_entries ([] @ v2_bytes (unat r) 0 [] es @
      (concat (map le32 (v2_restart_words r es)) @ le32 (of_nat (length (v2_restart_words r es))) @
       le32 (of_nat (length es)) @ le32 (Crc32c (v2_checked r es))))
      (v2_layout r es) (length es) (length ([] :: bytes)) (length ([] :: nat list)) [] None =
      Ok (es, vl_entries_end (v2_layout r es), length (vl_restarts (v2_layout r es)))"
    using e by (intro decode_v2_entries_encoded) (simp_all add: v2_layout_def v2_body_def v2_restart_words_def)
  then have dec: "decode_v2_entries b (v2_layout r es) (length es) 0 0 [] None =
      Ok (es, vl_entries_end (v2_layout r es), length (vl_restarts (v2_layout r es)))"
    by (simp add: e(5) v2_checked_def v2_body_def)
  have "length es \<le> max_u32" using v2_fits_count [OF e(3,1)] e(1) by (cases es) (auto simp: max_u32_def)
  then have "unat (vl_entry_count (v2_layout r es)) = length es" by (simp add: v2_layout_def)
  then show ?thesis
    by (simp add: DecodeDataBlock_def DecodeDataBlockV2_def ParseV2BlockLayout_encoded [OF enc] dec
          kSstableVersion_def kSstableVersionV1_def)
qed

section \<open>Properties\<close>



end
