(* ===== verification/Block_Lookup.thy ===== *)
theory Block_Lookup
  imports Block_Codec
begin

text \<open>
  \<open>FindDataBlockEntry\<close> on an encoded version-2 block. The binary search selects the last restart group
  whose first key is not above the target, and only that group is scanned. The result is the visible
  version of the key when no key has versions on both sides of a restart point; otherwise a newer
  version in an earlier group is missed, which the last lemma shows on a block of two entries.
\<close>

section \<open>Restart groups\<close>

definition block_group :: "nat \<Rightarrow> InternalEntry list \<Rightarrow> nat \<Rightarrow> InternalEntry list" where
  "block_group r es g = take r (drop (g * r) es)"

definition last_key :: "bytes \<Rightarrow> InternalEntry list \<Rightarrow> bytes" where
  "last_key pk es = (if es = [] then pk else user_key (last es))"

lemma v2_bytes_append:
  "v2_bytes r i pk (xs @ ys) = v2_bytes r i pk xs @ v2_bytes r (i + length xs) (last_key pk xs) ys"
  by (induction xs arbitrary: i pk) (auto simp: last_key_def)

lemma v2_restarts_append:
  "v2_restarts r i off pk (xs @ ys) = v2_restarts r i off pk xs @
     v2_restarts r (i + length xs) (off + length (v2_bytes r i pk xs)) (last_key pk xs) ys"
  by (induction xs arbitrary: i off pk) (auto simp: last_key_def add.assoc)

lemma v2_fits_append:
  "v2_fits r i off pk (xs @ ys) \<longleftrightarrow> v2_fits r i off pk xs \<and>
     v2_fits r (i + length xs) (off + length (v2_bytes r i pk xs)) (last_key pk xs) ys"
  by (induction xs arbitrary: i off pk) (auto simp: last_key_def add.assoc)

text \<open>A restart forgets the previous key.\<close>

lemma v2_bytes_restart: "i mod r = 0 \<Longrightarrow> v2_bytes r i pk es = v2_bytes r i pk' es"
  by (cases es) (simp_all add: v2_shared_def)

lemma v2_fits_restart: "i mod r = 0 \<Longrightarrow> v2_fits r i off pk es = v2_fits r i off pk' es"
  by (cases es) (simp_all add: v2_shared_def)

lemma v2_restarts_restart: "i mod r = 0 \<Longrightarrow> v2_restarts r i off pk es = v2_restarts r i off pk' es"
  by (cases es) (simp_all add: v2_shared_def)

text \<open>Within one group there is one restart, at its start.\<close>

lemma v2_restarts_none:
  assumes "\<forall>j < length es. (i + j) mod r \<noteq> 0"
  shows "v2_restarts r i off pk es = []"
  using assms
proof (induction es arbitrary: i off pk)
  case (Cons e es)
  have "i mod r \<noteq> 0" using Cons.prems by force
  moreover have "\<forall>j < length es. (Suc i + j) mod r \<noteq> 0" using Cons.prems by force
  ultimately show ?case using Cons.IH by simp
qed simp

lemma mod_between: "0 < r \<Longrightarrow> 0 < j \<Longrightarrow> j < r \<Longrightarrow> (g * r + j) mod r \<noteq> (0 :: nat)"
  by simp

lemma v2_restarts_group:
  assumes "0 < r" "g * r < length es"
  shows "v2_restarts r (g * r) off pk (take r (drop (g * r) es)) = [off]"
proof -
  obtain e rest where d: "take r (drop (g * r) es) = e # rest"
    using assms by (cases "drop (g * r) es"; cases r) auto
  have "length rest < r" using assms d by (metis Suc_le_eq length_Cons length_take min.cobounded2)
  then have "\<forall>j < length rest. (Suc (g * r) + j) mod r \<noteq> 0"
    using mod_between [OF assms(1)] by (metis Suc_leI add_Suc_shift le_less_trans not_less_eq zero_less_Suc less_trans_Suc)
  then show ?thesis using v2_restarts_none unfolding d by simp
qed

definition group_start :: "nat \<Rightarrow> InternalEntry list \<Rightarrow> nat \<Rightarrow> nat" where
  "group_start r es g = length (v2_bytes r 0 [] (take (g * r) es))"

definition group_count :: "nat \<Rightarrow> InternalEntry list \<Rightarrow> nat" where
  "group_count r es = (length es + r - 1) div r"

lemma group_count_iff: "0 < r \<Longrightarrow> g < group_count r es \<longleftrightarrow> g * r < length es"
proof -
  assume r: "0 < r"
  have "g < (length es + r - 1) div r \<longleftrightarrow> Suc g * r \<le> length es + r - 1"
    using r by (simp add: less_eq_div_iff_mult_less_eq Suc_le_eq [symmetric])
  also have "\<dots> \<longleftrightarrow> g * r < length es" using r by auto
  finally show ?thesis by (simp add: group_count_def)
qed

lemma v2_restarts_groups:
  assumes "0 < r"
  shows "v2_restarts r 0 0 [] es = map (group_start r es) [0..<group_count r es]"
proof -
  have "v2_restarts r 0 0 [] (take (n * r) es) = map (group_start r es) [0..<min n (group_count r es)]" for n
  proof (induction n)
    case (Suc n)
    show ?case
    proof (cases "n < group_count r es")
      case True
      then have lt: "n * r < length es" by (simp add: group_count_iff [OF assms])
      have split: "take (Suc n * r) es = take (n * r) es @ take r (drop (n * r) es)"
        by (metis add.commute mult_Suc take_add)
      have len: "length (take (n * r) es) = n * r" using lt by simp
      have "v2_restarts r (n * r) (length (v2_bytes r 0 [] (take (n * r) es))) (last_key [] (take (n * r) es)) (take r (drop (n * r) es))
          = [group_start r es n]"
        using v2_restarts_group [OF assms lt] by (simp add: group_start_def)
      then show ?thesis
        using Suc True unfolding split v2_restarts_append len by (simp add: min_def)
    next
      case False
      then have "length es \<le> n * r" by (simp add: group_count_iff [OF assms] not_less)
      then have "take (Suc n * r) es = take (n * r) es" by simp
      with Suc False show ?thesis by (simp add: min_def)
    qed
  qed simp
  from this [of "group_count r es"] have "v2_restarts r 0 0 [] (take (group_count r es * r) es) = map (group_start r es) [0..<group_count r es]"
    by simp
  moreover have "length es \<le> group_count r es * r"
    using group_count_iff [OF assms, of "group_count r es" es] by simp
  ultimately show ?thesis by simp
qed

text \<open>The bytes of a block around one group.\<close>

lemma v2_bytes_group:
  assumes "0 < r" "g * r < length es"
  shows "v2_bytes r 0 [] es = v2_bytes r 0 [] (take (g * r) es) @ v2_bytes r (g * r) [] (block_group r es g) @
     v2_bytes r (Suc g * r) [] (drop (Suc g * r) es)"
    (is "_ = ?pre @ ?grp @ ?post")
proof -
  have "v2_bytes r 0 [] es = ?pre @ v2_bytes r (g * r) [] (drop (g * r) es)"
    using v2_bytes_append [of r 0 "[]" "take (g * r) es" "drop (g * r) es"] assms
      v2_bytes_restart [of "g * r" r "last_key [] (take (g * r) es)" "drop (g * r) es" "[]"] by simp
  also have "v2_bytes r (g * r) [] (drop (g * r) es) =
      ?grp @ v2_bytes r (g * r + length (block_group r es g)) (last_key [] (block_group r es g)) (drop (Suc g * r) es)"
    using v2_bytes_append [of r "g * r" "[]" "block_group r es g" "drop (Suc g * r) es"]
    by (simp add: block_group_def add.commute flip: drop_drop)
  also have "v2_bytes r (g * r + length (block_group r es g)) (last_key [] (block_group r es g)) (drop (Suc g * r) es) = ?post"
  proof (cases "Suc g * r \<le> length es")
    case True
    then have "g * r + length (block_group r es g) = Suc g * r" by (auto simp: block_group_def min_def)
    then show ?thesis by (simp only:) (rule v2_bytes_restart, simp)
  qed simp
  finally show ?thesis .
qed

lemma v2_fits_group:
  assumes "v2_fits r 0 0 [] es" "g * r < length es"
  shows "v2_fits r (g * r) (group_start r es g) [] (block_group r es g)"
proof -
  have "v2_fits r (g * r) (group_start r es g) (last_key [] (take (g * r) es)) (drop (g * r) es)"
    using v2_fits_append [of r 0 0 "[]" "take (g * r) es" "drop (g * r) es"] assms by (simp add: group_start_def)
  then have "v2_fits r (g * r) (group_start r es g) [] (drop (g * r) es)"
    by (rule v2_fits_restart [THEN iffD1, rotated]) simp
  then have "v2_fits r (g * r) (group_start r es g) [] (take r (drop (g * r) es) @ drop r (drop (g * r) es))"
    unfolding append_take_drop_id .
  then show ?thesis unfolding v2_fits_append by (simp add: block_group_def)
qed

lemma group_end_start:
  assumes "0 < r" "g * r < length es"
  shows "(if Suc g = group_count r es then length (v2_bytes r 0 [] es) else group_start r es (Suc g)) =
     group_start r es g + length (v2_bytes r (g * r) [] (block_group r es g))"
proof (cases "Suc g * r < length es")
  case True
  then have ne: "Suc g \<noteq> group_count r es" using group_count_iff [OF assms(1), of "Suc g" es] by auto
  have "take (Suc g * r) es = take (g * r) es @ block_group r es g"
    unfolding block_group_def by (metis add.commute mult_Suc take_add)
  then have "group_start r es (Suc g) = group_start r es g + length (v2_bytes r (g * r) (last_key [] (take (g * r) es)) (block_group r es g))"
    using assms by (simp add: group_start_def v2_bytes_append)
  moreover have "v2_bytes r (g * r) (last_key [] (take (g * r) es)) (block_group r es g) = v2_bytes r (g * r) [] (block_group r es g)"
    by (rule v2_bytes_restart) simp
  ultimately show ?thesis using ne by simp
next
  case False
  then have "Suc g = group_count r es"
    using group_count_iff [OF assms(1), of g es] group_count_iff [OF assms(1), of "Suc g" es] assms(2) by linarith
  moreover have "v2_bytes r (Suc g * r) [] (drop (Suc g * r) es) = []" using False by simp
  ultimately show ?thesis using v2_bytes_group [OF assms] by (simp add: group_start_def)
qed

section \<open>Scanning and searching\<close>

lemma scan_group_entries:
  assumes "v2_fits r i (length pre) pk es" "\<forall>e \<in> set es. entry_ok e" "\<forall>j < length es. 0 < j \<longrightarrow> (i + j) mod r \<noteq> 0"
    "i mod r = 0 \<longrightarrow> pk' = []" "i mod r \<noteq> 0 \<longrightarrow> pk' = pk"
    "length pre + length (v2_bytes r i pk es) \<le> vl_entries_end layout" "g = length pre + length (v2_bytes r i pk es)"
  shows "scan_group (pre @ v2_bytes r i pk es @ post) layout key n g (length pre) pk' = find_in_entries es key n"
  using assms
proof (induction es arbitrary: i pre pk pk')
  case (Cons e es)
  let ?item = "v2_item r i pk e"
  let ?bytes = "pre @ ?item @ v2_bytes r (Suc i) (user_key e) es @ post"
  have pk': "pk' = (if i mod r = 0 then [] else pk)" using Cons.prems(4,5) by auto
  have step: "DecodeV2Entry ?bytes (length pre) (vl_entries_end layout) pk' = Ok (e, length (pre @ ?item))"
    using v2_item_decodes [OF Cons.prems(1), of "vl_entries_end layout" pk' "v2_bytes r (Suc i) (user_key e) es @ post"]
      Cons.prems(2,6) pk' by simp
  have next_mod: "es \<noteq> [] \<Longrightarrow> Suc i mod r \<noteq> 0" using Cons.prems(3) by force
  have IH: "scan_group ((pre @ ?item) @ v2_bytes r (Suc i) (user_key e) es @ post) layout key n g (length (pre @ ?item)) (user_key e)
      = find_in_entries es key n"
  proof (cases "es = []")
    case True
    then show ?thesis using Cons.prems(7) by (subst scan_group.simps) simp
  next
    case False
    show ?thesis
    proof (rule Cons.IH)
      show "\<forall>j < length es. 0 < j \<longrightarrow> (Suc i + j) mod r \<noteq> 0" using Cons.prems(3) by force
    qed (use Cons.prems next_mod False in auto)
  qed
  have lt: "length pre < g" "\<not> length (pre @ ?item) > g" using Cons.prems(7) by (simp_all add: length_v2_entry_bytes)
  have "scan_group ?bytes layout key n g (length pre) pk' = find_in_entries (e # es) key n"
    using IH lt by (subst scan_group.simps) (auto simp: step Let_def BytewiseLess_def)
  then show ?case by simp
qed (subst scan_group.simps, simp)

lemma search_restart_spec:
  assumes "\<forall>g < m. restart_key bytes layout g = Ok (k g)" "\<forall>g h. g \<le> h \<longrightarrow> h < m \<longrightarrow> k g \<le> k h"
    "lo \<le> hi" "hi \<le> m" "\<forall>g < lo. k g \<le> key" "\<forall>g. hi \<le> g \<longrightarrow> g < m \<longrightarrow> key < k g"
  shows "\<exists>c. search_restart bytes layout key lo hi = Ok c \<and> c \<le> m \<and> (\<forall>g < c. k g \<le> key) \<and> (\<forall>g. c \<le> g \<longrightarrow> g < m \<longrightarrow> key < k g)"
  using assms(3-6)
proof (induction "hi - lo" arbitrary: lo hi rule: less_induct)
  case less
  show ?case
  proof (cases "lo < hi")
    case True
    let ?mid = "lo + (hi - lo) div 2"
    have mid: "lo \<le> ?mid" "?mid < hi" "?mid < m" using True less.prems by auto
    have rk: "restart_key bytes layout ?mid = Ok (k ?mid)" using assms(1) mid by simp
    show ?thesis
    proof (cases "key < k ?mid")
      case gt: True
      have "\<forall>g. ?mid \<le> g \<longrightarrow> g < m \<longrightarrow> key < k g" using assms(2) gt by (blast intro: less_le_trans)
      then have "\<exists>c. search_restart bytes layout key lo ?mid = Ok c \<and> c \<le> m \<and> (\<forall>g < c. k g \<le> key) \<and> (\<forall>g. c \<le> g \<longrightarrow> g < m \<longrightarrow> key < k g)"
        using less.hyps [of ?mid lo] mid less.prems by auto
      then show ?thesis using True gt rk by (subst search_restart.simps) (simp add: Let_def BytewiseLess_def)
    next
      case le: False
      have "k g \<le> key" if "g < Suc ?mid" for g
      proof -
        have "k g \<le> k ?mid" using assms(2) mid(3) that by (simp add: less_Suc_eq_le)
        then show ?thesis using le by simp
      qed
      then have "\<exists>c. search_restart bytes layout key (Suc ?mid) hi = Ok c \<and> c \<le> m \<and> (\<forall>g < c. k g \<le> key) \<and> (\<forall>g. c \<le> g \<longrightarrow> g < m \<longrightarrow> key < k g)"
        using less.hyps [of hi "Suc ?mid"] mid less.prems by auto
      then show ?thesis using True le rk by (subst search_restart.simps) (simp add: Let_def BytewiseLess_def)
    qed
  next
    case False
    then have "lo = hi" using less.prems(1) by simp
    then show ?thesis using less.prems by (subst search_restart.simps) auto
  qed
qed

section \<open>The lookup\<close>

lemma find_in_entries_eq:
  "ordered es \<Longrightarrow> find_in_entries es key n = (case find_version es key n of None \<Rightarrow> Err kNotFound | Some e \<Rightarrow> Ok e)"
proof (induction es)
  case (Cons e es)
  have "find_version es key n = None" if "key < user_key e"
  proof -
    have "user_key x \<noteq> key" if "x \<in> set es" for x
      using Cons.prems that \<open>key < user_key e\<close> by (auto simp: InternalLess_iff)
    then show ?thesis by (simp add: find_version_None none_visible_def)
  qed
  with Cons show ?case by (auto simp: find_version_def BytewiseLess_def)
qed (simp add: find_version_def)

definition group_first_key :: "nat \<Rightarrow> InternalEntry list \<Rightarrow> nat \<Rightarrow> bytes" where
  "group_first_key r es g = user_key (es ! (g * r))"

lemma ordered_nth_keys: "ordered es \<Longrightarrow> i \<le> j \<Longrightarrow> j < length es \<Longrightarrow> user_key (es ! i) \<le> user_key (es ! j)"
  using sorted_nth_mono [of "map user_key es" i j] ordered_keys by simp

lemma FindDataBlockEntry_group:
  assumes enc: "EncodeDataBlock es r = Ok b" and ok: "\<forall>e \<in> set es. sequence e \<noteq> 0"
  shows "\<exists>c \<le> group_count (unat r) es.
     (\<forall>g < c. group_first_key (unat r) es g \<le> key) \<and>
     (\<forall>g. c \<le> g \<longrightarrow> g < group_count (unat r) es \<longrightarrow> key < group_first_key (unat r) es g) \<and>
     FindDataBlockEntry b kSstableVersion key n = find_in_entries (block_group (unat r) es (c - 1)) key n"
proof -
  note e = EncodeDataBlock_Ok [OF enc]
  let ?r = "unat r" and ?m = "group_count (unat r) es"
  have r: "0 < ?r" using e(2) by (simp add: unat_gt_0)
  have tomb: "etype x = kTombstone \<longrightarrow> evalue x = []" if "v2_fits q i off pk xs" "x \<in> set xs" for q i off pk xs x
    using that by (induction xs arbitrary: i off pk) auto
  have eok: "\<forall>x \<in> set es. entry_ok x" using ok tomb [OF e(3)] by (auto simp: entry_ok_def)
  define post where "post = concat (map le32 (v2_restart_words r es)) @ le32 (of_nat (length (v2_restart_words r es))) @
       le32 (of_nat (length es)) @ le32 (Crc32c (v2_checked r es))"
  have b: "b = v2_bytes ?r 0 [] es @ post" by (simp add: e(5) v2_checked_def v2_body_def post_def)
  let ?l = "v2_layout r es"
  have rs: "v2_restarts ?r 0 0 [] es = map (group_start ?r es) [0..<?m]" by (rule v2_restarts_groups [OF r])
  have nrs: "length (vl_restarts ?l) = ?m" by (simp add: v2_layout_def v2_restart_words_def rs)
  have start: "unat (vl_restarts ?l ! g) = group_start ?r es g" if g: "g < ?m" for g
  proof -
    have "group_start ?r es g \<in> set (v2_restarts ?r 0 0 [] es)" using g by (simp add: rs)
    then have "group_start ?r es g \<le> max_u32" by (rule v2_restarts_fit [OF e(3)])
    then show ?thesis using g by (simp add: v2_layout_def v2_restart_words_def rs)
  qed
  have scan: "scan_group b ?l key n (if g + 1 = length (vl_restarts ?l) then vl_entries_end ?l else unat (vl_restarts ?l ! (g + 1)))
      (unat (vl_restarts ?l ! g)) [] = find_in_entries (block_group ?r es g) key n" if g: "g < ?m" for g
  proof -
    have lt: "g * ?r < length es" using g by (simp add: group_count_iff [OF r])
    let ?pre = "v2_bytes ?r 0 [] (take (g * ?r) es)" and ?grp = "v2_bytes ?r (g * ?r) [] (block_group ?r es g)"
    have split: "b = ?pre @ ?grp @ (v2_bytes ?r (Suc g * ?r) [] (drop (Suc g * ?r) es) @ post)"
      unfolding b v2_bytes_group [OF r lt] by simp
    have gend: "(if g + 1 = length (vl_restarts ?l) then vl_entries_end ?l else unat (vl_restarts ?l ! (g + 1))) = length ?pre + length ?grp"
      using group_end_start [OF r lt] start [of "Suc g"] g nrs
      by (auto simp: v2_layout_def v2_body_def group_start_def split: if_splits)
    have "scan_group (?pre @ ?grp @ (v2_bytes ?r (Suc g * ?r) [] (drop (Suc g * ?r) es) @ post)) ?l key n
        (length ?pre + length ?grp) (length ?pre) [] = find_in_entries (block_group ?r es g) key n"
    proof (rule scan_group_entries)
      show "v2_fits ?r (g * ?r) (length ?pre) [] (block_group ?r es g)"
        using v2_fits_group [OF e(3) lt] by (simp add: group_start_def)
      show "\<forall>e \<in> set (block_group ?r es g). entry_ok e"
        using eok by (auto simp: block_group_def dest: in_set_takeD in_set_dropD)
      show "\<forall>j < length (block_group ?r es g). 0 < j \<longrightarrow> (g * ?r + j) mod ?r \<noteq> 0"
        by (auto simp: block_group_def)
      show "length ?pre + length ?grp \<le> vl_entries_end ?l"
        using v2_bytes_group [OF r lt] by (simp add: v2_layout_def v2_body_def)
    qed simp_all
    then show ?thesis using split gend start [OF g] by (simp add: group_start_def)
  qed
  have rkey: "restart_key b ?l g = Ok (group_first_key ?r es g)" if g: "g < ?m" for g
  proof -
    have lt: "g * ?r < length es" using g by (simp add: group_count_iff [OF r])
    let ?pre = "v2_bytes ?r 0 [] (take (g * ?r) es)"
    obtain x xs where grp: "block_group ?r es g = x # xs" "x = es ! (g * ?r)"
      using lt r that [of "es ! (g * ?r)" "take (?r - 1) (drop (Suc (g * ?r)) es)"]
      by (cases ?r) (simp_all add: block_group_def Cons_nth_drop_Suc [symmetric])
    let ?post = "v2_bytes ?r (Suc (g * ?r)) (user_key x) xs @ v2_bytes ?r (Suc g * ?r) [] (drop (Suc g * ?r) es) @ post"
    have split: "b = ?pre @ v2_item ?r (g * ?r) [] x @ ?post"
      unfolding b v2_bytes_group [OF r lt] grp by simp
    have len: "length ?pre + length (v2_item ?r (g * ?r) [] x) \<le> vl_entries_end ?l"
      using v2_bytes_group [OF r lt] by (simp add: v2_layout_def v2_body_def grp)
    have "DecodeV2Entry (?pre @ v2_item ?r (g * ?r) [] x @ ?post) (length ?pre) (vl_entries_end ?l) [] =
        Ok (x, length ?pre + length (v2_item ?r (g * ?r) [] x))"
      using v2_fits_group [OF e(3) lt] grp eok lt len
      by (intro v2_item_decodes) (auto simp: group_start_def)
    then have "DecodeV2Entry b (group_start ?r es g) (vl_entries_end ?l) [] =
        Ok (x, group_start ?r es g + length (v2_item ?r (g * ?r) [] x))"
      unfolding split [symmetric] group_start_def .
    then show ?thesis
      using len start [OF g] by (simp add: restart_key_def group_start_def group_first_key_def grp(2))
  qed
  have mono: "\<forall>g h. g \<le> h \<longrightarrow> h < ?m \<longrightarrow> group_first_key ?r es g \<le> group_first_key ?r es h"
    using ordered_nth_keys [OF e(4)] by (simp add: group_first_key_def group_count_iff [OF r])
  obtain c where c: "search_restart b ?l key 0 ?m = Ok c" "c \<le> ?m" "\<forall>g < c. group_first_key ?r es g \<le> key"
    "\<forall>g. c \<le> g \<longrightarrow> g < ?m \<longrightarrow> key < group_first_key ?r es g"
    using search_restart_spec [of ?m b ?l "group_first_key ?r es" 0 ?m key] rkey mono by auto
  have "0 < ?m" using e(1) by (simp add: group_count_iff [OF r])
  then have "c - 1 < ?m" using c(2) by linarith
  then have "FindDataBlockEntry b kSstableVersion key n = find_in_entries (block_group ?r es (c - 1)) key n"
    using scan [of "c - 1"] c(1)
    by (cases c) (auto simp: FindDataBlockEntry_def ParseV2BlockLayout_encoded [OF enc] nrs Let_def kSstableVersion_def kSstableVersionV1_def)
  with c show ?thesis by blast
qed

text \<open>No key has versions on both sides of a restart point.\<close>

definition no_straddle :: "nat \<Rightarrow> InternalEntry list \<Rightarrow> bool" where
  "no_straddle r es \<longleftrightarrow> (\<forall>g. 0 < g \<longrightarrow> g * r < length es \<longrightarrow> user_key (es ! (g * r - 1)) \<noteq> user_key (es ! (g * r)))"

lemma find_version_append:
  "find_version (xs @ ys) k n = (case find_version xs k n of None \<Rightarrow> find_version ys k n | Some e \<Rightarrow> Some e)"
  unfolding find_version_def by (rule find_append)

lemma find_version_other_keys: "\<forall>e \<in> set es. user_key e \<noteq> k \<Longrightarrow> find_version es k n = None"
  by (simp add: find_version_None none_visible_def)

lemma FindDataBlockEntry_visible:
  assumes enc: "EncodeDataBlock es r = Ok b" and ok: "\<forall>e \<in> set es. sequence e \<noteq> 0"
    and sep: "no_straddle (unat r) es"
  shows "FindDataBlockEntry b kSstableVersion key n =
     (case find_version es key n of None \<Rightarrow> Err kNotFound | Some e \<Rightarrow> Ok e)"
proof -
  note e = EncodeDataBlock_Ok [OF enc]
  let ?r = "unat r" and ?m = "group_count (unat r) es"
  have r: "0 < ?r" using e(2) by (simp add: unat_gt_0)
  obtain c where c: "c \<le> ?m" "\<forall>g < c. group_first_key ?r es g \<le> key"
    "\<forall>g. c \<le> g \<longrightarrow> g < ?m \<longrightarrow> key < group_first_key ?r es g"
    and find: "FindDataBlockEntry b kSstableVersion key n = find_in_entries (block_group ?r es (c - 1)) key n"
    using FindDataBlockEntry_group [OF enc ok] by blast
  let ?g = "c - 1"
  let ?grp = "block_group ?r es ?g"
  have split: "es = take (?g * ?r) es @ ?grp @ drop (Suc ?g * ?r) es"
    unfolding block_group_def by (metis append_take_drop_id drop_drop mult_Suc add.commute)
  have before: "user_key x \<noteq> key" if x: "x \<in> set (take (?g * ?r) es)" for x
  proof -
    obtain j where j: "j < ?g * ?r" "j < length es" "x = es ! j" using x by (auto simp: in_set_conv_nth)
    then have g: "0 < ?g" by (cases ?g) auto
    then have lt: "?g * ?r < length es" using c(1) group_count_iff [OF r, of ?g es] by linarith
    have "user_key x \<le> user_key (es ! (?g * ?r - 1))" using ordered_nth_keys [OF e(4), of j "?g * ?r - 1"] j lt by simp
    also have "\<dots> < user_key (es ! (?g * ?r))"
    proof -
      have "user_key (es ! (?g * ?r - 1)) \<noteq> user_key (es ! (?g * ?r))"
        using sep g lt unfolding no_straddle_def by blast
      moreover have "user_key (es ! (?g * ?r - 1)) \<le> user_key (es ! (?g * ?r))"
        by (rule ordered_nth_keys [OF e(4) _ lt]) simp
      ultimately show ?thesis by (simp only: less_le) blast
    qed
    also have "\<dots> \<le> key" using c(2) g by (simp add: group_first_key_def)
    finally show ?thesis by simp
  qed
  have after: "user_key x \<noteq> key" if x: "x \<in> set (drop (Suc ?g * ?r) es)" for x
  proof -
    obtain j where "j < length (drop (Suc ?g * ?r) es)" "x = drop (Suc ?g * ?r) es ! j"
      using x by (metis in_set_conv_nth)
    then have j: "Suc ?g * ?r + j < length es" "x = es ! (Suc ?g * ?r + j)" by simp_all
    have g: "Suc ?g < ?m" "c \<le> Suc ?g" using j(1) group_count_iff [OF r, of "Suc ?g" es] by auto
    have "key < user_key (es ! (Suc ?g * ?r))" using c(3) g unfolding group_first_key_def by blast
    also have "\<dots> \<le> user_key x" using ordered_nth_keys [OF e(4), of "Suc ?g * ?r" "Suc ?g * ?r + j"] j by simp
    finally show ?thesis by simp
  qed
  have "find_version (take (?g * ?r) es @ ?grp @ drop (Suc ?g * ?r) es) key n = find_version ?grp key n"
    by (simp add: find_version_append find_version_other_keys before after split: option.splits)
  then have "find_version es key n = find_version ?grp key n" using split by simp
  moreover have "ordered ?grp" using e(4) by (simp add: block_group_def sorted_wrt_take sorted_wrt_drop)
  ultimately show ?thesis using find by (simp add: find_in_entries_eq)
qed

section \<open>A newer version behind a restart point is missed\<close>

text \<open>
  Two versions of one key, newest first, with a restart before each: the lookup of the latest
  state returns the older one.
\<close>

definition straddling_block :: "InternalEntry list" where
  "straddling_block =
     [\<lparr>user_key = [107], sequence = 2, etype = kValue, evalue = [2]\<rparr>,
      \<lparr>user_key = [107], sequence = 1, etype = kValue, evalue = [1]\<rparr>]"

lemma length_PutFixed: "length (PutFixed32 out v) = length out + 4" "length (PutFixed64 out w) = length out + 8"
  by (simp_all add: PutFixed32_def PutFixed64_def)

lemma straddling_block_encodes: "\<exists>b. EncodeDataBlock straddling_block 1 = Ok b"
proof -
  have "\<exists>p. encode_v2_entries 1 straddling_block 0 [] [] [] None = Ok p"
    unfolding straddling_block_def encode_v2_entries.simps Let_def
    by (simp add: FitsU32_def InternalLess_builder_def max_u32_def length_PutFixed)
  then obtain out rs where "encode_v2_entries 1 straddling_block 0 [] [] [] None = Ok (out, rs)" by (metis surj_pair)
  moreover have "straddling_block \<noteq> []" by (simp add: straddling_block_def)
  ultimately show ?thesis unfolding EncodeDataBlock_def Let_def by simp
qed

lemma FindDataBlockEntry_stale:
  assumes "EncodeDataBlock straddling_block 1 = Ok b"
  shows "FindDataBlockEntry b kSstableVersion [107] 2 = Ok (straddling_block ! 1)"
    "find_version straddling_block [107] 2 = Some (straddling_block ! 0)"
proof -
  have seq: "\<forall>e \<in> set straddling_block. sequence e \<noteq> 0" by (simp add: straddling_block_def)
  obtain c where c: "c \<le> group_count (unat (1 :: u32)) straddling_block"
    "\<forall>g. c \<le> g \<longrightarrow> g < group_count (unat (1 :: u32)) straddling_block \<longrightarrow> [107] < group_first_key (unat (1 :: u32)) straddling_block g"
    and find: "FindDataBlockEntry b kSstableVersion [107] 2 = find_in_entries (block_group (unat (1 :: u32)) straddling_block (c - 1)) [107] 2"
    using FindDataBlockEntry_group [OF assms seq, of "[107]" 2] by blast
  have m: "group_count (unat (1 :: u32)) straddling_block = 2" by (simp add: group_count_def straddling_block_def)
  have "c = 2"
  proof (rule ccontr)
    assume "c \<noteq> 2"
    then have "[107] < group_first_key (unat (1 :: u32)) straddling_block 1" using c m by simp
    then show False by (simp add: group_first_key_def straddling_block_def)
  qed
  then show "FindDataBlockEntry b kSstableVersion [107] 2 = Ok (straddling_block ! 1)"
    using find by (simp add: block_group_def straddling_block_def BytewiseLess_def)
  show "find_version straddling_block [107] 2 = Some (straddling_block ! 0)"
    by (simp add: find_version_def straddling_block_def)
qed

section \<open>Properties\<close>

text \<open>
  C36: The search in an encoded block returns the visible version, as a scan of the decoded block would,
  provided no key's versions cross a restart point.
\<close>

theorem encoded_block_search:
  assumes "EncodeDataBlock es r = Ok b" "\<forall>e \<in> set es. sequence e \<noteq> 0" "no_straddle (unat r) es"
  shows "FindDataBlockEntry b kSstableVersion key n =
     (case find_version es key n of None \<Rightarrow> Err kNotFound | Some e \<Rightarrow> Ok e)"
  by (rule FindDataBlockEntry_visible [OF assms])

theorem encoded_block_search_witness:
  "\<exists>b. EncodeDataBlock straddling_block 2 = Ok b \<and> FindDataBlockEntry b kSstableVersion [107] 2 = Ok (straddling_block ! 0)"
proof -
  have "\<exists>p. encode_v2_entries 2 straddling_block 0 [] [] [] None = Ok p"
    unfolding straddling_block_def encode_v2_entries.simps Let_def
    by (simp add: FitsU32_def InternalLess_builder_def max_u32_def length_PutFixed)
  then obtain out rs where "encode_v2_entries 2 straddling_block 0 [] [] [] None = Ok (out, rs)" by (metis surj_pair)
  moreover have "straddling_block \<noteq> []" by (simp add: straddling_block_def)
  ultimately obtain b where b: "EncodeDataBlock straddling_block 2 = Ok b" unfolding EncodeDataBlock_def Let_def by auto
  have "no_straddle (unat (2 :: u32)) straddling_block" by (auto simp: no_straddle_def straddling_block_def)
  then have "FindDataBlockEntry b kSstableVersion [107] 2 =
      (case find_version straddling_block [107] 2 of None \<Rightarrow> Err kNotFound | Some e \<Rightarrow> Ok e)"
    by (intro encoded_block_search [OF b]) (simp_all add: straddling_block_def)
  then show ?thesis using b by (simp add: find_version_def straddling_block_def)
qed

text \<open>
  C37: Without that proviso the search can return a stale version: for two versions of one key with a
  restart point between them, a read at a sequence at which the newer one is visible returns the older
  one. The search picks the last restart whose key is not above the target.
\<close>

theorem encoded_block_search_stale:
  "\<exists>b. EncodeDataBlock straddling_block 1 = Ok b \<and>
     FindDataBlockEntry b kSstableVersion [107] 2 = Ok (straddling_block ! 1) \<and>
     find_version straddling_block [107] 2 = Some (straddling_block ! 0) \<and>
     sequence (straddling_block ! 1) < sequence (straddling_block ! 0)"
  using straddling_block_encodes FindDataBlockEntry_stale by (auto simp: straddling_block_def)

end
