(* ===== verification/Sstable_Builder.thy ===== *)
theory Sstable_Builder
  imports Block_Lookup File_Io
begin

text \<open>
  \<open>SSTableBuilder\<close> of \<open>src/sstable/sstable_builder.cpp\<close>: entries are collected into a pending block,
  a full block is encoded and appended to the file, and \<open>Finish\<close> appends index, properties and
  footer, syncs and closes the file. The invariant ties the file contents, the block index and the
  running table properties to the entries accepted so far.
\<close>

section \<open>State and operations\<close>

record BuiltTableInfo =
  ti_file_size :: u64
  ti_entry_count :: u64
  ti_smallest_key :: bytes
  ti_largest_key :: bytes
  ti_min_sequence :: u64
  ti_max_sequence :: u64

record SSTableBuilder =
  sb_file :: WritableFile
  sb_block_bytes :: nat
  sb_restart_interval :: u32
  sb_pending :: "InternalEntry list"
  sb_pending_bytes :: nat
  sb_blocks :: "BlockMeta list"
  sb_offset :: u64
  sb_info :: BuiltTableInfo
  sb_has_entries :: bool
  sb_finished :: bool

definition SSTableBuilder_new :: "WritableFile \<Rightarrow> nat \<Rightarrow> u32 \<Rightarrow> SSTableBuilder" where
  "SSTableBuilder_new file block_bytes restart_interval =
     \<lparr>sb_file = file, sb_block_bytes = block_bytes, sb_restart_interval = restart_interval,
      sb_pending = [], sb_pending_bytes = 0, sb_blocks = [], sb_offset = 0,
      sb_info = \<lparr>ti_file_size = 0, ti_entry_count = 0, ti_smallest_key = [], ti_largest_key = [],
                 ti_min_sequence = 0, ti_max_sequence = 0\<rparr>,
      sb_has_entries = False, sb_finished = False\<rparr>"

definition FlushBlock :: "SSTableBuilder \<Rightarrow> StatusCode \<times> SSTableBuilder" where
  "FlushBlock b =
     (if sb_pending b = [] then (kOk, b)
      else case EncodeDataBlock (sb_pending b) (sb_restart_interval b) of
        Err c \<Rightarrow> (c, b)
      | UB \<Rightarrow> (kCorruption, b)
      | Ok encoded \<Rightarrow>
          if length encoded > unat (- 1 - sb_offset b) then (kResourceExhausted, b)
          else
            let meta = \<lparr>bm_first_key = user_key (hd (sb_pending b)), bm_last_key = user_key (last (sb_pending b)),
                        bm_offset = sb_offset b, bm_size = of_nat (length encoded)\<rparr> in
            case Append encoded (sb_file b) of (c, f) \<Rightarrow>
              if c \<noteq> kOk then (c, b\<lparr>sb_file := f\<rparr>)
              else (kOk, b\<lparr>sb_file := f, sb_offset := sb_offset b + of_nat (length encoded),
                           sb_blocks := sb_blocks b @ [meta], sb_pending := [], sb_pending_bytes := 0\<rparr>))"

text \<open>The bookkeeping of \<open>Add\<close> after a possible flush.\<close>

definition record_entry :: "InternalEntry \<Rightarrow> nat \<Rightarrow> SSTableBuilder \<Rightarrow> StatusCode \<times> SSTableBuilder" where
  "record_entry e estimate b =
     (let info = (if sb_has_entries b then sb_info b
                  else (sb_info b)\<lparr>ti_smallest_key := user_key e, ti_min_sequence := sequence e,
                                   ti_max_sequence := sequence e\<rparr>);
          info = info\<lparr>ti_largest_key := user_key e, ti_min_sequence := min (ti_min_sequence info) (sequence e),
                      ti_max_sequence := max (ti_max_sequence info) (sequence e)\<rparr>;
          b = b\<lparr>sb_has_entries := True, sb_info := info\<rparr> in
      if ti_entry_count info = - 1 then (kResourceExhausted, b)
      else (kOk, b\<lparr>sb_info := info\<lparr>ti_entry_count := ti_entry_count info + 1\<rparr>,
                   sb_pending_bytes := sb_pending_bytes b + estimate,
                   sb_pending := sb_pending b @ [e]\<rparr>))"

definition Add :: "InternalEntry \<Rightarrow> SSTableBuilder \<Rightarrow> StatusCode \<times> SSTableBuilder" where
  "Add e b =
     (if sb_finished b then (kInvalidArgument, b)
      else if sb_restart_interval b = 0 then (kInvalidArgument, b)
      else if (sb_pending b \<noteq> [] \<and> \<not> InternalLess_builder (last (sb_pending b)) e) \<or>
              (sb_blocks b \<noteq> [] \<and> \<not> bm_last_key (last (sb_blocks b)) < user_key e) then (kInvalidArgument, b)
      else
        let estimate = 21 + length (user_key e) + length (evalue e) in
        if sb_pending b \<noteq> [] \<and> user_key (last (sb_pending b)) \<noteq> user_key e \<and>
           sb_pending_bytes b + estimate + (length (sb_pending b) + 1) * 4 + 8 > sb_block_bytes b
        then (case FlushBlock b of (c, b') \<Rightarrow> if c \<noteq> kOk then (c, b') else record_entry e estimate b')
        else record_entry e estimate b)"

text \<open>One section of the table: range check, append and the new offset.\<close>

definition append_section :: "bytes result \<Rightarrow> SSTableBuilder \<Rightarrow> StatusCode \<times> SSTableBuilder" where
  "append_section encoded b =
     (case encoded of
        Err c \<Rightarrow> (c, b)
      | UB \<Rightarrow> (kCorruption, b)
      | Ok bytes \<Rightarrow>
          if length bytes > unat (- 1 - sb_offset b) then (kResourceExhausted, b)
          else case Append bytes (sb_file b) of (c, f) \<Rightarrow>
            if c \<noteq> kOk then (c, b\<lparr>sb_file := f\<rparr>)
            else (kOk, b\<lparr>sb_file := f, sb_offset := sb_offset b + of_nat (length bytes)\<rparr>))"

definition info_properties :: "BuiltTableInfo \<Rightarrow> TableProperties" where
  "info_properties i =
     \<lparr>tp_entry_count = ti_entry_count i, tp_smallest_key = ti_smallest_key i, tp_largest_key = ti_largest_key i,
      tp_min_sequence = ti_min_sequence i, tp_max_sequence = ti_max_sequence i\<rparr>"

text \<open>The footer, the sync and the close: the footer is appended without a range check.\<close>

definition finish_file :: "Footer \<Rightarrow> SSTableBuilder \<Rightarrow> BuiltTableInfo result \<times> SSTableBuilder" where
  "finish_file footer b =
     (case Append (EncodeFooter footer) (sb_file b) of (c, f) \<Rightarrow>
        if c \<noteq> kOk then (Err c, b\<lparr>sb_file := f\<rparr>)
        else
          let offset = sb_offset b + of_nat (length (EncodeFooter footer)) in
          case Sync f of (c, f) \<Rightarrow>
            if c \<noteq> kOk then (Err c, b\<lparr>sb_file := f, sb_offset := offset\<rparr>)
            else case CloseFile f of (c, f) \<Rightarrow>
              if c \<noteq> kOk then (Err c, b\<lparr>sb_file := f, sb_offset := offset\<rparr>)
              else
                let info = (sb_info b)\<lparr>ti_file_size := offset\<rparr> in
                (Ok info, b\<lparr>sb_file := f, sb_offset := offset, sb_finished := True, sb_info := info\<rparr>))"

definition section_size :: "bytes result \<Rightarrow> u64" where
  "section_size encoded = (case encoded of Ok bytes \<Rightarrow> of_nat (length bytes) | _ \<Rightarrow> 0)"

definition Finish :: "SSTableBuilder \<Rightarrow> BuiltTableInfo result \<times> SSTableBuilder" where
  "Finish b =
     (if sb_finished b then (Err kInvalidArgument, b)
      else if sb_pending b = [] \<and> sb_blocks b = [] then (Err kInvalidArgument, b)
      else case FlushBlock b of (c, b1) \<Rightarrow>
        if c \<noteq> kOk then (Err c, b1)
        else
          let index = EncodeIndex (sb_blocks b1); index_offset = sb_offset b1 in
          case append_section index b1 of (c, b2) \<Rightarrow>
            if c \<noteq> kOk then (Err c, b2)
            else
              let properties = EncodeProperties (info_properties (sb_info b2));
                  properties_offset = sb_offset b2 in
              case append_section properties b2 of (c, b3) \<Rightarrow>
                if c \<noteq> kOk then (Err c, b3)
                else finish_file
                  \<lparr>ft_version = kSstableVersion, ft_index_offset = index_offset,
                   ft_index_size = section_size index,
                   ft_properties_offset = properties_offset,
                   ft_properties_size = section_size properties\<rparr> b3)"

text \<open>How flush and compaction use the builder: add every entry, then finish.\<close>

fun add_all :: "InternalEntry list \<Rightarrow> SSTableBuilder \<Rightarrow> StatusCode \<times> SSTableBuilder" where
  "add_all [] b = (kOk, b)"
| "add_all (e # es) b = (case Add e b of (c, b') \<Rightarrow> if c \<noteq> kOk then (c, b') else add_all es b')"

definition build_table :: "InternalEntry list \<Rightarrow> SSTableBuilder \<Rightarrow> BuiltTableInfo result \<times> SSTableBuilder" where
  "build_table es b = (case add_all es b of (c, b') \<Rightarrow> if c \<noteq> kOk then (Err c, b') else Finish b')"

section \<open>Invariant\<close>

text \<open>
  \<open>chunks\<close> are the blocks written so far. Every chunk was encoded with success, chunks do not share
  keys, and the index entries carry the key range and the place of each chunk.
\<close>

definition block_of :: "u32 \<Rightarrow> InternalEntry list \<Rightarrow> bytes" where
  "block_of r es = (case EncodeDataBlock es r of Ok b \<Rightarrow> b | _ \<Rightarrow> [])"

fun metas :: "u32 \<Rightarrow> nat \<Rightarrow> InternalEntry list list \<Rightarrow> BlockMeta list" where
  "metas r off [] = []"
| "metas r off (c # cs) =
     \<lparr>bm_first_key = user_key (hd c), bm_last_key = user_key (last c), bm_offset = of_nat off,
      bm_size = of_nat (length (block_of r c))\<rparr> # metas r (off + length (block_of r c)) cs"

definition chunk_ok :: "u32 \<Rightarrow> InternalEntry list \<Rightarrow> bool" where
  "chunk_ok r c \<longleftrightarrow> (\<exists>b. EncodeDataBlock c r = Ok b)"

definition chunks_sep :: "InternalEntry list list \<Rightarrow> bool" where
  "chunks_sep cs \<longleftrightarrow> sorted_wrt (\<lambda>c d. \<forall>x \<in> set c. \<forall>y \<in> set d. user_key x < user_key y) cs"

abbreviation chunk_bytes :: "u32 \<Rightarrow> InternalEntry list list \<Rightarrow> bytes" where
  "chunk_bytes r cs \<equiv> concat (map (block_of r) cs)"

definition info_of :: "InternalEntry list \<Rightarrow> BuiltTableInfo \<Rightarrow> bool" where
  "info_of es i \<longleftrightarrow> es \<noteq> [] \<longrightarrow>
     unat (ti_entry_count i) = length es \<and> ti_smallest_key i = user_key (hd es) \<and> ti_largest_key i = user_key (last es) \<and>
     ti_min_sequence i = Min (sequence ` set es) \<and> ti_max_sequence i = Max (sequence ` set es)"

definition sb_inv :: "InternalEntry list list \<Rightarrow> SSTableBuilder \<Rightarrow> bool" where
  "sb_inv cs b \<longleftrightarrow>
     (let r = sb_restart_interval b; es = concat cs @ sb_pending b in
      (\<forall>c \<in> set cs. chunk_ok r c \<and> c \<noteq> []) \<and> chunks_sep (cs @ (if sb_pending b = [] then [] else [sb_pending b])) \<and>
      ordered (sb_pending b) \<and> sb_blocks b = metas r 0 cs \<and>
      wf_data (sb_file b) = chunk_bytes r cs \<and> unat (sb_offset b) = length (chunk_bytes r cs) \<and>
      (sb_has_entries b \<longleftrightarrow> es \<noteq> []) \<and> info_of es (sb_info b) \<and> (es = [] \<longrightarrow> ti_entry_count (sb_info b) = 0))"

lemma chunk_ok_facts:
  assumes "chunk_ok r c"
  shows "EncodeDataBlock c r = Ok (block_of r c)" "ordered c" "c \<noteq> []"
proof -
  obtain b where "EncodeDataBlock c r = Ok b" using assms by (auto simp: chunk_ok_def)
  then show "EncodeDataBlock c r = Ok (block_of r c)" "ordered c" "c \<noteq> []"
    using EncodeDataBlock_Ok by (simp_all add: block_of_def)
qed

lemma metas_append: "metas r off (cs @ ds) = metas r off cs @ metas r (off + length (chunk_bytes r cs)) ds"
  by (induction cs arbitrary: off) (simp_all add: add.assoc)

lemma length_metas [simp]: "length (metas r off cs) = length cs"
  by (induction cs arbitrary: off) simp_all

lemma metas_Nil_iff [simp]: "metas r off cs = [] \<longleftrightarrow> cs = []"
  by (cases cs) simp_all

lemma ordered_last_key: "ordered c \<Longrightarrow> x \<in> set c \<Longrightarrow> user_key x \<le> user_key (last c)"
  using ordered_keys [of c] by (induction c) (auto split: if_splits)

lemma ordered_last_cases: "ordered c \<Longrightarrow> x \<in> set c \<Longrightarrow> x = last c \<or> InternalLess x (last c)"
  by (induction c) auto

lemma EncodeDataBlock_error: "EncodeDataBlock es r = Err c \<Longrightarrow> c = kInvalidArgument"
proof -
  have "encode_v2_entries r es i out rs pk prev = Err c \<Longrightarrow> c = kInvalidArgument" for i out rs pk prev
    by (induction es arbitrary: i out rs pk prev) (auto simp: Let_def split: if_splits)
  then show "EncodeDataBlock es r = Err c \<Longrightarrow> c = kInvalidArgument"
    by (auto simp: EncodeDataBlock_def Let_def rbind_Err_iff split: if_splits)
qed

lemma Append_ok: "Append d f = (kOk, f') \<Longrightarrow> wf_data f' = wf_data f @ d"
  using Append_result [of d f kOk f'] by auto

lemma sb_inv_new: "wf_data f = [] \<Longrightarrow> sb_inv [] (SSTableBuilder_new f n r)"
  by (simp add: sb_inv_def SSTableBuilder_new_def chunks_sep_def info_of_def)

lemma offset_room: "length d \<le> unat (- 1 - (o1 :: u64)) \<Longrightarrow> unat (o1 + of_nat (length d)) = unat o1 + length d"
proof -
  assume le: "length d \<le> unat (- 1 - o1)"
  have u: "unat (- 1 - o1) = max_u64 - unat o1"
  proof -
    have "unat (- 1 - o1) = unat (- 1 :: u64) - unat o1" by (rule unat_sub) simp
    then show ?thesis by (simp add: max_u64_def unsigned_minus_1_eq_mask mask_eq_exp_minus_1)
  qed
  then have "length d \<le> max_u64" using le by simp
  then have d: "unat (of_nat (length d) :: u64) = length d" by simp
  have "unat o1 + unat (of_nat (length d) :: u64) < 2 ^ LENGTH(64)"
    using le u d unat_u64_le [of o1] by (simp add: max_u64_def)
  then show ?thesis using unat_add_lem [of o1 "of_nat (length d)"] d by simp
qed

lemma unat_eq_of_nat_u64: "unat (w :: u64) = n \<Longrightarrow> w = of_nat n"
  using unat_u64_le [of w] by (simp add: word_unat_eq_iff)

lemma FlushBlock_ok:
  assumes inv: "sb_inv cs b" and step: "FlushBlock b = (kOk, b')"
  shows "sb_inv (if sb_pending b = [] then cs else cs @ [sb_pending b]) b' \<and> sb_pending b' = [] \<and>
     sb_restart_interval b' = sb_restart_interval b \<and> sb_finished b' = sb_finished b \<and> sb_info b' = sb_info b"
proof (cases "sb_pending b = []")
  case True
  with inv step show ?thesis by (simp add: FlushBlock_def)
next
  case False
  let ?r = "sb_restart_interval b" and ?p = "sb_pending b"
  obtain enc f where enc: "EncodeDataBlock ?p ?r = Ok enc" and room: "\<not> length enc > unat (- 1 - sb_offset b)"
    and app: "Append enc (sb_file b) = (kOk, f)"
    and b': "b' = b\<lparr>sb_file := f, sb_offset := sb_offset b + of_nat (length enc),
       sb_blocks := sb_blocks b @ [\<lparr>bm_first_key = user_key (hd ?p), bm_last_key = user_key (last ?p),
                        bm_offset = sb_offset b, bm_size = of_nat (length enc)\<rparr>], sb_pending := [], sb_pending_bytes := 0\<rparr>"
    using step False
    by (auto simp: FlushBlock_def Let_def dest: EncodeDataBlock_error split: result.splits if_splits prod.splits)
  have blk: "block_of ?r ?p = enc" using enc by (simp add: block_of_def)
  have off: "sb_offset b = of_nat (length (chunk_bytes ?r cs))"
    by (rule unat_eq_of_nat_u64) (use inv in \<open>simp add: sb_inv_def Let_def\<close>)
  have "chunk_ok ?r ?p" using enc by (auto simp: chunk_ok_def)
  moreover have "unat (sb_offset b + of_nat (length enc)) = unat (sb_offset b) + length enc"
    using room by (intro offset_room) simp
  moreover have "sb_blocks b' = metas ?r 0 (cs @ [?p])"
    using inv b' blk off by (simp add: sb_inv_def Let_def metas_append)
  ultimately show ?thesis
    using inv False b' blk Append_ok [OF app] by (auto simp: sb_inv_def Let_def)
qed

lemma info_of_snoc:
  fixes e :: InternalEntry
  assumes "info_of es i" "es \<noteq> [] \<longrightarrow> h" "es = [] \<longrightarrow> \<not> h \<and> ti_entry_count i = 0"
  defines "j \<equiv> (if h then i else i\<lparr>ti_smallest_key := user_key e, ti_min_sequence := sequence e, ti_max_sequence := sequence e\<rparr>)"
  assumes "ti_entry_count j \<noteq> - 1"
  shows "info_of (es @ [e]) (j\<lparr>ti_largest_key := user_key e, ti_min_sequence := min (ti_min_sequence j) (sequence e),
     ti_max_sequence := max (ti_max_sequence j) (sequence e), ti_entry_count := ti_entry_count j + 1\<rparr>)"
proof -
  have cnt: "unat (ti_entry_count j + 1) = Suc (unat (ti_entry_count j))"
  proof -
    have "1 + ti_entry_count j \<noteq> 0" using assms(5) by (simp add: add_eq_0_iff)
    then show ?thesis using unatSuc [of "ti_entry_count j"] by (simp add: add.commute)
  qed
  show ?thesis
  proof (cases "es = []")
    case True
    with assms cnt show ?thesis by (simp add: info_of_def)
  next
    case False
    have "Min (sequence ` (set es \<union> {e})) = min (Min (sequence ` set es)) (sequence e)"
      "Max (sequence ` (set es \<union> {e})) = max (Max (sequence ` set es)) (sequence e)"
      using False by (simp_all add: min.commute max.commute)
    with False assms cnt show ?thesis by (simp add: info_of_def)
  qed
qed

lemma record_entry_ok:
  assumes inv: "sb_inv cs b" and step: "record_entry e n b = (kOk, b')"
    and less: "sb_pending b \<noteq> [] \<longrightarrow> InternalLess (last (sb_pending b)) e"
    and above: "\<forall>x \<in> set (concat cs). user_key x < user_key e"
  shows "sb_inv cs b' \<and> sb_pending b' = sb_pending b @ [e] \<and>
     sb_restart_interval b' = sb_restart_interval b \<and> sb_finished b' = sb_finished b"
proof -
  let ?i = "if sb_has_entries b then sb_info b
     else (sb_info b)\<lparr>ti_smallest_key := user_key e, ti_min_sequence := sequence e, ti_max_sequence := sequence e\<rparr>"
  have cnt: "ti_entry_count ?i \<noteq> - 1"
    and b': "b' = b\<lparr>sb_has_entries := True, sb_info := ?i\<lparr>ti_largest_key := user_key e,
        ti_min_sequence := min (ti_min_sequence ?i) (sequence e), ti_max_sequence := max (ti_max_sequence ?i) (sequence e),
        ti_entry_count := ti_entry_count ?i + 1\<rparr>, sb_pending_bytes := sb_pending_bytes b + n, sb_pending := sb_pending b @ [e]\<rparr>"
    using step by (auto simp: record_entry_def Let_def split: if_splits)
  have "info_of ((concat cs @ sb_pending b) @ [e]) (sb_info b')"
    using info_of_snoc [of "concat cs @ sb_pending b" "sb_info b" "sb_has_entries b" e] inv cnt
    by (simp add: b' sb_inv_def Let_def)
  moreover have "ordered (sb_pending b @ [e])"
  proof -
    have "InternalLess x e" if "x \<in> set (sb_pending b)" for x
    proof -
      have "ordered (sb_pending b)" using inv by (simp add: sb_inv_def Let_def)
      then have "x = last (sb_pending b) \<or> InternalLess x (last (sb_pending b))"
        using that by (rule ordered_last_cases)
      moreover have "InternalLess (last (sb_pending b)) e" using less that by auto
      ultimately show ?thesis using InternalLess_trans by blast
    qed
    then show ?thesis using inv by (simp add: sb_inv_def Let_def sorted_wrt_append)
  qed
  moreover have "chunks_sep (cs @ [sb_pending b @ [e]])"
    using inv above by (auto simp: sb_inv_def Let_def chunks_sep_def sorted_wrt_append split: if_splits)
  ultimately show ?thesis using inv by (auto simp: b' sb_inv_def Let_def)
qed

lemma last_block_bounds:
  assumes inv: "sb_inv cs b" and less: "sb_blocks b \<noteq> [] \<longrightarrow> bm_last_key (last (sb_blocks b)) < k"
  shows "\<forall>x \<in> set (concat cs). user_key x < k"
proof (cases cs rule: rev_cases)
  case (snoc ds d)
  have ok: "chunk_ok (sb_restart_interval b) d" and sep: "chunks_sep cs"
    using inv by (auto simp: sb_inv_def Let_def snoc chunks_sep_def sorted_wrt_append)
  note d = chunk_ok_facts [OF ok]
  have "user_key (last d) < k" using less inv by (simp add: sb_inv_def Let_def snoc metas_append)
  then have dk: "user_key x < k" if "x \<in> set d" for x using ordered_last_key [OF d(2) that] by simp
  have "user_key x < k" if x: "x \<in> set (concat ds)" for x
  proof -
    obtain c where "c \<in> set ds" "x \<in> set c" using x by auto
    then have "user_key x < user_key (last d)" using sep d(3) by (auto simp: snoc chunks_sep_def sorted_wrt_append)
    then show ?thesis using dk [of "last d"] d(3) by simp
  qed
  with dk show ?thesis by (auto simp: snoc)
qed simp

lemma Add_ok:
  assumes inv: "sb_inv cs b" and step: "Add e b = (kOk, b')"
  shows "\<exists>cs'. sb_inv cs' b' \<and> concat cs' @ sb_pending b' = (concat cs @ sb_pending b) @ [e] \<and>
     sb_restart_interval b' = sb_restart_interval b \<and> sb_finished b' = sb_finished b"
proof -
  let ?n = "21 + length (user_key e) + length (evalue e)"
  have guard: "sb_pending b \<noteq> [] \<longrightarrow> InternalLess (last (sb_pending b)) e"
    "sb_blocks b \<noteq> [] \<longrightarrow> bm_last_key (last (sb_blocks b)) < user_key e"
    using step by (auto simp: Add_def InternalLess_builder_eq Let_def split: if_splits)
  note above = last_block_bounds [OF inv guard(2)]
  consider (flush) b1 where "FlushBlock b = (kOk, b1)" "record_entry e ?n b1 = (kOk, b')"
      "sb_pending b \<noteq> []" "user_key (last (sb_pending b)) \<noteq> user_key e"
    | (keep) "record_entry e ?n b = (kOk, b')"
    using step by (auto simp: Add_def Let_def split: if_splits prod.splits)
  then show ?thesis
  proof cases
    case flush
    note f = FlushBlock_ok [OF inv flush(1)]
    have "user_key (last (sb_pending b)) < user_key e" using guard(1) flush(3,4) by (simp add: InternalLess_iff)
    moreover have "ordered (sb_pending b)" using inv by (simp add: sb_inv_def Let_def)
    ultimately have "\<forall>x \<in> set (sb_pending b). user_key x < user_key e"
      using ordered_last_key by fastforce
    then have "\<forall>x \<in> set (concat (cs @ [sb_pending b])). user_key x < user_key e" using above by auto
    then have "sb_inv (cs @ [sb_pending b]) b' \<and> sb_pending b' = [] @ [e] \<and>
       sb_restart_interval b' = sb_restart_interval b1 \<and> sb_finished b' = sb_finished b1"
      using record_entry_ok [OF _ flush(2), of "cs @ [sb_pending b]"] f flush(3) by simp
    then show ?thesis using f by (intro exI [of _ "cs @ [sb_pending b]"]) simp
  next
    case keep
    then show ?thesis using record_entry_ok [OF inv keep guard(1) above] by (intro exI [of _ cs]) simp
  qed
qed

lemma add_all_ok:
  "sb_inv cs b \<Longrightarrow> add_all es b = (kOk, b') \<Longrightarrow>
     \<exists>cs'. sb_inv cs' b' \<and> concat cs' @ sb_pending b' = (concat cs @ sb_pending b) @ es \<and>
       sb_restart_interval b' = sb_restart_interval b"
proof (induction es arbitrary: cs b)
  case (Cons e es)
  obtain b1 where a: "Add e b = (kOk, b1)" "add_all es b1 = (kOk, b')"
    using Cons.prems(2) by (auto split: prod.splits if_splits)
  obtain cs1 where cs1: "sb_inv cs1 b1" "concat cs1 @ sb_pending b1 = (concat cs @ sb_pending b) @ [e]"
    "sb_restart_interval b1 = sb_restart_interval b"
    using Add_ok [OF Cons.prems(1) a(1)] by blast
  then show ?case using Cons.IH [OF cs1(1) a(2)] by fastforce
qed fastforce

section \<open>The finished table\<close>

definition footer_of :: "nat \<Rightarrow> bytes \<Rightarrow> bytes \<Rightarrow> Footer" where
  "footer_of off idx props =
     \<lparr>ft_version = kSstableVersion, ft_index_offset = of_nat off, ft_index_size = of_nat (length idx),
      ft_properties_offset = of_nat (off + length idx), ft_properties_size = of_nat (length props)\<rparr>"

text \<open>The bytes of a table: the blocks, the index over them, the properties and the footer.\<close>

definition table_image :: "u32 \<Rightarrow> InternalEntry list list \<Rightarrow> bytes \<Rightarrow> bytes \<Rightarrow> bytes" where
  "table_image r cs idx props =
     chunk_bytes r cs @ idx @ props @ EncodeFooter (footer_of (length (chunk_bytes r cs)) idx props)"

definition table_ok :: "u32 \<Rightarrow> InternalEntry list list \<Rightarrow> bytes \<Rightarrow> bytes \<Rightarrow> TableProperties \<Rightarrow> bool" where
  "table_ok r cs idx props p \<longleftrightarrow>
     cs \<noteq> [] \<and> (\<forall>c \<in> set cs. chunk_ok r c) \<and> chunks_sep cs \<and>
     EncodeIndex (metas r 0 cs) = Ok idx \<and> EncodeProperties p = Ok props \<and>
     length (chunk_bytes r cs) + length idx + length props \<le> max_u64"

lemma append_section_ok:
  assumes "append_section enc b = (kOk, b')" "unat (sb_offset b) = n" "\<And>c. enc = Err c \<Longrightarrow> c \<noteq> kOk"
  obtains d where "enc = Ok d" "wf_data (sb_file b') = wf_data (sb_file b) @ d" "unat (sb_offset b') = n + length d"
    "sb_info b' = sb_info b"
  using assms offset_room [of _ "sb_offset b"]
  by (force simp: append_section_def not_less dest: Append_ok split: result.splits if_splits prod.splits)

lemma finish_file_ok:
  assumes "finish_file ft b = (Ok info, b')"
  shows "wf_data (sb_file b') = wf_data (sb_file b) @ EncodeFooter ft \<and> wf_durable (sb_file b') = wf_data (sb_file b') \<and>
     info = (sb_info b)\<lparr>ti_file_size := sb_offset b + of_nat (length (EncodeFooter ft))\<rparr> \<and> sb_finished b'"
  using assms
  by (auto simp: finish_file_def Sync_def CloseFile_def Let_def dest!: Append_ok
        split: prod.splits if_splits list.splits io_outcome.splits)

lemma Finish_ok:
  assumes inv: "sb_inv cs b" and fin: "Finish b = (Ok info, b')"
  shows "\<exists>ds idx props. concat ds = concat cs @ sb_pending b \<and>
     table_ok (sb_restart_interval b) ds idx props (info_properties (sb_info b)) \<and>
     wf_data (sb_file b') = table_image (sb_restart_interval b) ds idx props \<and>
     wf_durable (sb_file b') = wf_data (sb_file b') \<and> info_of (concat ds) info \<and> concat ds \<noteq> [] \<and>
     info = (sb_info b)\<lparr>ti_file_size := of_nat (length (table_image (sb_restart_interval b) ds idx props))\<rparr>"
proof -
  let ?r = "sb_restart_interval b"
  obtain b1 where fl: "FlushBlock b = (kOk, b1)" and nonempty: "\<not> (sb_pending b = [] \<and> sb_blocks b = [])"
    using fin by (auto simp: Finish_def split: if_splits prod.splits)
  define ds where "ds = (if sb_pending b = [] then cs else cs @ [sb_pending b])"
  note f = FlushBlock_ok [OF inv fl]
  have inv1: "sb_inv ds b1" using f by (simp add: ds_def)
  have cat: "concat ds = concat cs @ sb_pending b" by (simp add: ds_def)
  have ds: "ds \<noteq> []" using nonempty inv by (auto simp: ds_def sb_inv_def Let_def)
  let ?off = "length (chunk_bytes ?r ds)"
  have r1: "sb_restart_interval b1 = ?r" and info1: "sb_info b1 = sb_info b" using f by blast+
  have off1: "unat (sb_offset b1) = ?off" and file1: "wf_data (sb_file b1) = chunk_bytes ?r ds"
    and blocks1: "sb_blocks b1 = metas ?r 0 ds"
    using inv1 unfolding sb_inv_def Let_def r1 by blast+
  obtain c2 b2 where a2: "append_section (EncodeIndex (sb_blocks b1)) b1 = (c2, b2)" by fastforce
  then have s2: "append_section (EncodeIndex (sb_blocks b1)) b1 = (kOk, b2)"
    using fin fl by (cases "c2 = kOk") (simp_all add: Finish_def Let_def split: if_splits)
  obtain idx where idx: "EncodeIndex (sb_blocks b1) = Ok idx"
    and b2: "wf_data (sb_file b2) = wf_data (sb_file b1) @ idx" "unat (sb_offset b2) = ?off + length idx"
      "sb_info b2 = sb_info b1"
    by (rule append_section_ok [OF s2 off1]) (auto simp: EncodeIndex_eq split: if_splits)
  have info2: "sb_info b2 = sb_info b" using b2(3) info1 by simp
  obtain c3 b3 where a3: "append_section (EncodeProperties (info_properties (sb_info b))) b2 = (c3, b3)" by fastforce
  then have s3: "append_section (EncodeProperties (info_properties (sb_info b))) b2 = (kOk, b3)"
    using fin fl s2 info2 by (cases "c3 = kOk") (simp_all add: Finish_def Let_def split: if_splits)
  obtain props where props: "EncodeProperties (info_properties (sb_info b)) = Ok props"
    and b3: "wf_data (sb_file b3) = wf_data (sb_file b2) @ props" "unat (sb_offset b3) = ?off + length idx + length props"
      "sb_info b3 = sb_info b2"
    by (rule append_section_ok [OF s3 b2(2)]) (auto simp: EncodeProperties_eq split: if_splits)
  have info3: "sb_info b3 = sb_info b" using b3(3) info2 by simp
  have offs: "sb_offset b1 = of_nat ?off" "sb_offset b2 = of_nat (?off + length idx)"
    "sb_offset b3 = of_nat (?off + length idx + length props)"
    using off1 b2(2) b3(2) by (blast intro: unat_eq_of_nat_u64)+
  have ff: "finish_file (footer_of ?off idx props) b3 = (Ok info, b')"
    using fin fl s2 s3 info2 nonempty idx props offs
    by (simp add: Finish_def Let_def section_size_def footer_of_def split: if_splits)
  note e = finish_file_ok [OF ff]
  have img: "wf_data (sb_file b') = table_image ?r ds idx props"
    using e b3(1) b2(1) file1 by (simp add: table_image_def)
  have size: "of_nat (length (table_image ?r ds idx props)) =
      sb_offset b3 + of_nat (length (EncodeFooter (footer_of ?off idx props)))"
    by (simp add: table_image_def offs ac_simps)
  have tok: "table_ok ?r ds idx props (info_properties (sb_info b))"
    using ds inv1 r1 idx blocks1 props b3(2) unat_u64_le [of "sb_offset b3"]
    by (auto simp: table_ok_def sb_inv_def Let_def chunks_sep_def sorted_wrt_append)
  have "info_of (concat ds) (sb_info b)" using inv by (simp add: cat sb_inv_def Let_def)
  then have io: "info_of (concat ds) info" using e info3 by (simp add: info_of_def)
  have ne: "concat ds \<noteq> []" using ds inv1 by (cases ds) (auto simp: sb_inv_def Let_def)
  show ?thesis
    by (rule exI [of _ ds], rule exI [of _ idx], rule exI [of _ props]) (use cat tok img e io ne size info3 in simp)
qed

lemma build_table_ok:
  assumes fresh: "wf_data f = []" and built: "build_table es (SSTableBuilder_new f n r) = (Ok info, b)"
  shows "\<exists>cs idx props. concat cs = es \<and> table_ok r cs idx props (info_properties info) \<and>
     wf_data (sb_file b) = table_image r cs idx props \<and> wf_durable (sb_file b) = wf_data (sb_file b) \<and>
     info_of es info \<and> es \<noteq> [] \<and> ti_file_size info = of_nat (length (wf_data (sb_file b)))"
proof -
  obtain b1 where a: "add_all es (SSTableBuilder_new f n r) = (kOk, b1)" "Finish b1 = (Ok info, b)"
    using built by (auto simp: build_table_def split: prod.splits if_splits)
  obtain cs1 where c: "sb_inv cs1 b1" "concat cs1 @ sb_pending b1 = es" "sb_restart_interval b1 = r"
    using add_all_ok [OF sb_inv_new [OF fresh] a(1)] by (auto simp: SSTableBuilder_new_def)
  obtain ds idx props where "concat ds = es" "table_ok r ds idx props (info_properties (sb_info b1))"
    "wf_data (sb_file b) = table_image r ds idx props" "wf_durable (sb_file b) = wf_data (sb_file b)"
    "info_of (concat ds) info" "concat ds \<noteq> []" "info = (sb_info b1)\<lparr>ti_file_size := of_nat (length (table_image r ds idx props))\<rparr>"
    using Finish_ok [OF c(1) a(2), unfolded c(2,3)] by blast
  then show ?thesis
    by (intro exI [of _ ds] exI [of _ idx] exI [of _ props]) (auto simp: info_properties_def)
qed

end
