(* ===== verification/Block_Cache.thy ===== *)
theory Block_Cache
  imports Entries
begin

text \<open>
  \<open>src/sstable/block_cache.cpp\<close>: the least-recently-used cache of decoded data blocks, its charge
  accounting and its counters. The lemmas show that the charge is the exact sum of the charges of
  the cached blocks and never exceeds the capacity, that an insertion evicts the least recently
  used blocks and no more than it must, and that a hit returns the block stored under the key.
\<close>

section \<open>State and operations\<close>

text \<open>The counters of \<open>ReadMetricsState\<close> that the cache updates.\<close>

record CacheMetrics =
  cache_hits :: u64
  cache_misses :: u64
  cache_inserts :: u64
  cache_evictions :: u64
  cache_charge_bytes :: u64
  cache_capacity_bytes :: u64

record BlockCacheKey =
  table_number :: u64
  block_offset :: u64

record CacheEntry =
  ce_key :: BlockCacheKey
  ce_block :: "InternalEntry list"
  ce_charge :: u64

text \<open>
  \<open>index_\<close> maps a key to the list node that holds it. A key has at most one node, so the node is
  identified by its key and the index by its set of keys, kept as a list.
\<close>

record BlockCache =
  bc_capacity :: u64
  bc_charge :: u64
  bc_lru :: "CacheEntry list"
  bc_index :: "BlockCacheKey list"
  bc_metrics :: CacheMetrics

definition BlockCache_new :: "u64 \<Rightarrow> CacheMetrics \<Rightarrow> BlockCache" where
  "BlockCache_new capacity metrics =
     \<lparr>bc_capacity = capacity, bc_charge = 0, bc_lru = [], bc_index = [],
      bc_metrics = metrics\<lparr>cache_capacity_bytes := capacity\<rparr>\<rparr>"

text \<open>\<open>lru_.splice(lru_.begin(), lru_, node)\<close>\<close>

definition splice_front :: "BlockCacheKey \<Rightarrow> CacheEntry list \<Rightarrow> CacheEntry list" where
  "splice_front key lru =
     filter (\<lambda>e. ce_key e = key) lru @ filter (\<lambda>e. ce_key e \<noteq> key) lru"

definition cache_Remove :: "CacheEntry \<Rightarrow> BlockCache \<Rightarrow> BlockCache" where
  "cache_Remove e c =
     c\<lparr>bc_charge := bc_charge c - ce_charge e,
       bc_index := removeAll (ce_key e) (bc_index c),
       bc_lru := filter (\<lambda>x. ce_key x \<noteq> ce_key e) (bc_lru c)\<rparr>"

definition Lookup :: "BlockCacheKey \<Rightarrow> BlockCache \<Rightarrow> InternalEntry list option \<times> BlockCache" where
  "Lookup key c =
     (if bc_capacity c = 0 then (None, c)
      else if key \<notin> set (bc_index c)
      then (None, c\<lparr>bc_metrics := (bc_metrics c)\<lparr>cache_misses := cache_misses (bc_metrics c) + 1\<rparr>\<rparr>)
      else
        let lru = splice_front key (bc_lru c) in
        (Some (ce_block (hd lru)),
         c\<lparr>bc_lru := lru, bc_metrics := (bc_metrics c)\<lparr>cache_hits := cache_hits (bc_metrics c) + 1\<rparr>\<rparr>))"

text \<open>The eviction loop of \<open>Insert\<close>: each round removes the node at the back.\<close>

function evict :: "u64 \<Rightarrow> BlockCache \<Rightarrow> BlockCache" where
  "evict charge c =
     (if bc_lru c \<noteq> [] \<and> charge > bc_capacity c - bc_charge c
      then let c' = cache_Remove (last (bc_lru c)) c in
        evict charge (c'\<lparr>bc_metrics := (bc_metrics c')\<lparr>cache_evictions := cache_evictions (bc_metrics c') + 1\<rparr>\<rparr>)
      else c)"
  by pat_completeness auto
termination
  by (relation "measure (\<lambda>(charge, c). length (bc_lru c))")
     (auto simp: cache_Remove_def intro!: length_filter_less [where x = "last _"])

declare evict.simps [simp del]

definition Insert :: "BlockCacheKey \<Rightarrow> InternalEntry list option \<Rightarrow> u64 \<Rightarrow> BlockCache \<Rightarrow> BlockCache" where
  "Insert key block charge c =
     (if bc_capacity c = 0 \<or> block = None \<or> charge > bc_capacity c then c
      else if key \<in> set (bc_index c) then c\<lparr>bc_lru := splice_front key (bc_lru c)\<rparr>
      else
        let c1 = evict charge c;
            total_charge = bc_charge c1 + charge in
        c1\<lparr>bc_lru := \<lparr>ce_key = key, ce_block = the block, ce_charge = charge\<rparr> # bc_lru c1,
           bc_index := key # bc_index c1,
           bc_charge := total_charge,
           bc_metrics := (bc_metrics c1)\<lparr>cache_charge_bytes := total_charge,
                                          cache_inserts := cache_inserts (bc_metrics c1) + 1\<rparr>\<rparr>)"

definition EraseTable :: "u64 \<Rightarrow> BlockCache \<Rightarrow> BlockCache" where
  "EraseTable number c =
     (if bc_capacity c = 0 then c
      else
        let c1 = foldl (\<lambda>c e. if table_number (ce_key e) \<noteq> number then c else cache_Remove e c) c (bc_lru c)
        in c1\<lparr>bc_metrics := (bc_metrics c1)\<lparr>cache_charge_bytes := bc_charge c1\<rparr>\<rparr>)"

text \<open>
  \<open>BlockCharge\<close>. The container capacities are chosen by the standard library, so they are arguments:
  the capacity of the block's vector and, for each entry, of its key and its value.
\<close>

definition AddSaturating :: "u64 \<Rightarrow> u64 \<Rightarrow> u64" where
  "AddSaturating total_charge v = (if v > - 1 - total_charge then - 1 else total_charge + v)"

definition BlockCharge :: "u64 \<Rightarrow> (u64 \<times> u64) list \<Rightarrow> u64" where
  "BlockCharge block_capacity capacities =
     foldl (\<lambda>charge (key_capacity, value_capacity).
              AddSaturating (AddSaturating charge key_capacity) value_capacity)
       (AddSaturating (24 + 16 + 16 + 4 * 8) (block_capacity * of_nat sizeof_InternalEntry)) capacities"

section \<open>Invariant\<close>

abbreviation lru_charge :: "CacheEntry list \<Rightarrow> nat" where
  "lru_charge es \<equiv> sum_list (map (\<lambda>e. unat (ce_charge e)) es)"

definition bc_inv :: "BlockCache \<Rightarrow> bool" where
  "bc_inv c \<longleftrightarrow> distinct (map ce_key (bc_lru c)) \<and> set (bc_index c) = ce_key ` set (bc_lru c) \<and>
     unat (bc_charge c) = lru_charge (bc_lru c) \<and> bc_charge c \<le> bc_capacity c"

lemma bc_inv_new [simp]: "bc_inv (BlockCache_new capacity m)"
  by (simp add: bc_inv_def BlockCache_new_def)

lemma splice_front_mem:
  assumes "distinct (map ce_key lru)" "e \<in> set lru" "ce_key e = key"
  shows "splice_front key lru = e # filter (\<lambda>x. ce_key x \<noteq> key) lru"
proof -
  have "filter (\<lambda>x. ce_key x = key) lru = [e]"
    using assms by (induction lru) (auto simp: filter_empty_conv image_iff dest: sym)
  then show ?thesis by (simp add: splice_front_def)
qed

lemma lru_charge_partition:
  "lru_charge (filter P es) + lru_charge (filter (\<lambda>x. \<not> P x) es) = lru_charge es"
  by (induction es) auto

lemma lru_charge_splice [simp]: "lru_charge (splice_front key es) = lru_charge es"
  using lru_charge_partition [of "\<lambda>e. ce_key e = key" es] by (simp add: splice_front_def)

lemma splice_front_keys:
  "distinct (map ce_key es) \<Longrightarrow> distinct (map ce_key (splice_front key es))"
  "set (splice_front key es) = set es"
  by (auto simp: splice_front_def distinct_map inj_on_def)

lemma Lookup_inv [inv_intros]: "bc_inv c \<Longrightarrow> bc_inv (snd (Lookup key c))"
  by (auto simp: Lookup_def bc_inv_def Let_def splice_front_keys)

lemma Lookup_hit:
  assumes "bc_inv c" "bc_capacity c \<noteq> 0" "e \<in> set (bc_lru c)"
  shows "fst (Lookup (ce_key e) c) = Some (ce_block e)" "bc_lru (snd (Lookup (ce_key e) c)) = e # filter (\<lambda>x. ce_key x \<noteq> ce_key e) (bc_lru c)"
  using assms splice_front_mem [of "bc_lru c" e "ce_key e"] by (auto simp: Lookup_def bc_inv_def Let_def)

lemma Lookup_miss:
  "bc_inv c \<Longrightarrow> fst (Lookup key c) = None \<longleftrightarrow> bc_capacity c = 0 \<or> key \<notin> ce_key ` set (bc_lru c)"
  by (auto simp: Lookup_def bc_inv_def Let_def)

text \<open>Removing a node gives back exactly its charge.\<close>

lemma filter_key_last:
  assumes "distinct (map ce_key (xs @ [e]))"
  shows "filter (\<lambda>x. ce_key x \<noteq> ce_key e) (xs @ [e]) = xs"
  using assms by (auto simp: filter_id_conv image_iff dest: sym)

lemma cache_Remove_inv:
  assumes inv: "bc_inv c" and e: "e \<in> set (bc_lru c)"
  shows "bc_inv (cache_Remove e c)"
    "bc_lru (cache_Remove e c) = filter (\<lambda>x. ce_key x \<noteq> ce_key e) (bc_lru c)"
    "bc_capacity (cache_Remove e c) = bc_capacity c" "bc_metrics (cache_Remove e c) = bc_metrics c"
proof -
  let ?rest = "filter (\<lambda>x. ce_key x \<noteq> ce_key e) (bc_lru c)"
  have sum: "lru_charge (bc_lru c) = unat (ce_charge e) + lru_charge ?rest"
    using splice_front_mem [OF _ e refl] inv lru_charge_splice [of "ce_key e" "bc_lru c"] by (simp add: bc_inv_def)
  then have le: "ce_charge e \<le> bc_charge c" using inv by (simp add: bc_inv_def word_le_nat_alt)
  then have diff: "unat (bc_charge c - ce_charge e) = lru_charge ?rest"
    using sum inv by (simp add: bc_inv_def unat_sub)
  have "bc_charge c - ce_charge e \<le> bc_charge c" using diff sum inv by (simp add: bc_inv_def word_le_nat_alt)
  with diff inv show "bc_inv (cache_Remove e c)"
    by (auto simp: bc_inv_def cache_Remove_def distinct_map inj_on_def)
  show "bc_lru (cache_Remove e c) = ?rest" "bc_capacity (cache_Remove e c) = bc_capacity c" "bc_metrics (cache_Remove e c) = bc_metrics c"
    by (simp_all add: cache_Remove_def)
qed

section \<open>Eviction\<close>

text \<open>The most recently used blocks that leave room for a new charge.\<close>

fun fitting_prefix :: "nat \<Rightarrow> CacheEntry list \<Rightarrow> CacheEntry list" where
  "fitting_prefix room [] = []"
| "fitting_prefix room (e # es) =
     (if unat (ce_charge e) \<le> room then e # fitting_prefix (room - unat (ce_charge e)) es else [])"

lemma fitting_prefix_all: "lru_charge es \<le> room \<Longrightarrow> fitting_prefix room es = es"
  by (induction es arbitrary: room) auto

lemma fitting_prefix_snoc: "room < lru_charge (xs @ [e]) \<Longrightarrow> fitting_prefix room (xs @ [e]) = fitting_prefix room xs"
  by (induction xs arbitrary: room) auto

lemma evict_fitting:
  assumes "bc_inv c" "charge \<le> bc_capacity c"
  shows "bc_inv (evict charge c) \<and> bc_capacity (evict charge c) = bc_capacity c \<and>
     bc_lru (evict charge c) = fitting_prefix (unat (bc_capacity c) - unat charge) (bc_lru c) \<and>
     unat (bc_charge (evict charge c)) + unat charge \<le> unat (bc_capacity c)"
  using assms
proof (induction charge c rule: evict.induct)
  case (1 charge c)
  have cap: "unat (bc_capacity c - bc_charge c) = unat (bc_capacity c) - lru_charge (bc_lru c)"
    and le: "lru_charge (bc_lru c) \<le> unat (bc_capacity c)"
    using 1(2) by (simp_all add: bc_inv_def unat_sub word_le_nat_alt)
  have room: "charge > bc_capacity c - bc_charge c \<longleftrightarrow> unat (bc_capacity c) < lru_charge (bc_lru c) + unat charge"
    using cap le by (auto simp: word_less_nat_alt)
  show ?case
  proof (cases "bc_lru c \<noteq> [] \<and> charge > bc_capacity c - bc_charge c")
    case True
    then obtain xs e where lru: "bc_lru c = xs @ [e]" by (metis rev_exhaust)
    let ?c = "cache_Remove (last (bc_lru c)) c"
    let ?c' = "?c\<lparr>bc_metrics := (bc_metrics ?c)\<lparr>cache_evictions := cache_evictions (bc_metrics ?c) + 1\<rparr>\<rparr>"
    note rm = cache_Remove_inv [OF 1(2), of "last (bc_lru c)"]
    have step: "evict charge c = evict charge ?c'" using True by (subst evict.simps) (simp add: Let_def)
    have xs: "bc_lru ?c' = xs" using rm(2) lru filter_key_last [of xs e] 1(2) by (simp add: bc_inv_def)
    have inv': "bc_inv ?c'" "bc_capacity ?c' = bc_capacity c" using rm lru by (simp_all add: bc_inv_def)
    have "unat (bc_capacity c) - unat charge < lru_charge (xs @ [e])"
      using True room lru 1(3) by (simp add: word_le_nat_alt)
    then have "fitting_prefix (unat (bc_capacity c) - unat charge) (bc_lru c) = fitting_prefix (unat (bc_capacity c) - unat charge) xs"
      unfolding lru by (rule fitting_prefix_snoc)
    with 1(1) [OF True refl inv'(1)] inv'(2) 1(3) xs step show ?thesis by simp
  next
    case False
    then have ev: "evict charge c = c" by (subst evict.simps) auto
    have fits: "lru_charge (bc_lru c) + unat charge \<le> unat (bc_capacity c)"
      using False room 1(3) by (cases "bc_lru c = []") (auto simp: word_le_nat_alt)
    then have "fitting_prefix (unat (bc_capacity c) - unat charge) (bc_lru c) = bc_lru c"
      by (intro fitting_prefix_all) simp
    with ev fits 1(2) show ?thesis by (simp add: bc_inv_def)
  qed
qed

lemma Insert_new:
  assumes inv: "bc_inv c" and ok: "bc_capacity c \<noteq> 0" "charge \<le> bc_capacity c" "key \<notin> ce_key ` set (bc_lru c)"
  shows "bc_inv (Insert key (Some block) charge c)"
    "bc_lru (Insert key (Some block) charge c) =
       \<lparr>ce_key = key, ce_block = block, ce_charge = charge\<rparr> #
         fitting_prefix (unat (bc_capacity c) - unat charge) (bc_lru c)"
proof -
  let ?c = "evict charge c"
  note ev = evict_fitting [OF inv ok(2)]
  have sub: "set (fitting_prefix room es) \<subseteq> set es" for room es
    by (induction es arbitrary: room) auto
  have fresh: "key \<notin> ce_key ` set (bc_lru ?c)" using ev ok(3) sub by fastforce
  have total_charge: "unat (bc_charge ?c + charge) = unat (bc_charge ?c) + unat charge"
    using ev unsigned_less [of "bc_capacity c", where 'a = nat] by (intro unat_add_lem [THEN iffD1]) simp
  have def: "key \<notin> set (bc_index c)" using inv ok(3) by (simp add: bc_inv_def)
  have not: "\<not> charge > bc_capacity c" using ok(2) by simp
  show "bc_lru (Insert key (Some block) charge c) =
       \<lparr>ce_key = key, ce_block = block, ce_charge = charge\<rparr> #
         fitting_prefix (unat (bc_capacity c) - unat charge) (bc_lru c)"
    using def not ok(1) ev by (simp add: Insert_def Let_def)
  show "bc_inv (Insert key (Some block) charge c)"
    using def not ok(1) ev fresh total_charge by (auto simp: Insert_def Let_def bc_inv_def word_le_nat_alt)
qed

lemma Insert_inv [inv_intros]: "bc_inv c \<Longrightarrow> bc_inv (Insert key block charge c)"
proof -
  assume inv: "bc_inv c"
  show ?thesis
  proof (cases "bc_capacity c = 0 \<or> block = None \<or> charge > bc_capacity c \<or> key \<in> set (bc_index c)")
    case True
    with inv show ?thesis by (auto simp: Insert_def bc_inv_def splice_front_keys)
  next
    case False
    with inv show ?thesis using Insert_new(1) [of c charge key "the block"] by (auto simp: bc_inv_def)
  qed
qed

lemma EraseTable_cases:
  assumes inv: "bc_inv c" and on: "bc_capacity c \<noteq> 0"
  shows "bc_inv (EraseTable number c)"
    "bc_lru (EraseTable number c) = filter (\<lambda>e. table_number (ce_key e) \<noteq> number) (bc_lru c)"
proof -
  let ?step = "\<lambda>c e. if table_number (ce_key e) \<noteq> number then c else cache_Remove e c"
  have loop: "bc_inv (foldl ?step c es) \<and>
      bc_lru (foldl ?step c es) = filter (\<lambda>e. \<not> (table_number (ce_key e) = number \<and> ce_key e \<in> ce_key ` set es)) (bc_lru c)"
    if "bc_inv c" "set es \<subseteq> set (bc_lru c)" "distinct (map ce_key es)" for c es
    using that
  proof (induction es arbitrary: c)
    case (Cons e es)
    show ?case
    proof (cases "table_number (ce_key e) = number")
      case True
      note rm = cache_Remove_inv [OF Cons.prems(1), of e]
      have "set es \<subseteq> set (bc_lru (cache_Remove e c))"
        using Cons.prems rm(2) by (auto simp: image_iff)
      with Cons.IH [of "cache_Remove e c"] rm Cons.prems True show ?thesis
        by (auto intro!: filter_cong)
    next
      case False
      with Cons.IH [OF Cons.prems(1)] Cons.prems show ?thesis by (auto intro!: filter_cong)
    qed
  qed (simp add: filter_id_conv)
  have "distinct (map ce_key (bc_lru c))" using inv by (simp add: bc_inv_def)
  note l = loop [OF inv order_refl this]
  show "bc_inv (EraseTable number c)" using l [THEN conjunct1] on by (simp add: EraseTable_def Let_def bc_inv_def)
  have "filter (\<lambda>e. \<not> (table_number (ce_key e) = number \<and> ce_key e \<in> ce_key ` set (bc_lru c))) (bc_lru c) =
      filter (\<lambda>e. table_number (ce_key e) \<noteq> number) (bc_lru c)"
    by (intro filter_cong) auto
  with l on show "bc_lru (EraseTable number c) = filter (\<lambda>e. table_number (ce_key e) \<noteq> number) (bc_lru c)"
    by (simp add: EraseTable_def Let_def)
qed

section \<open>Properties\<close>

text \<open>
  The cache keeps its invariant through every operation: the index names exactly the keys of the
  list, no key occurs twice, the charge counter is the exact sum of the charges (it never wraps) and
  stays within the capacity.
\<close>

theorem block_cache_invariant:
  assumes "bc_inv c"
  shows "bc_inv (snd (Lookup key c)) \<and> bc_inv (Insert key block charge c) \<and> bc_inv (EraseTable number c)"
proof -
  have "bc_inv (EraseTable number c)"
    using EraseTable_cases(1) [OF assms] assms by (cases "bc_capacity c = 0") (simp_all add: EraseTable_def)
  then show ?thesis using Lookup_inv [OF assms] Insert_inv [OF assms] by simp
qed

theorem block_cache_invariant_witness:
  "bc_inv (Insert \<lparr>table_number = 1, block_offset = 0\<rparr> (Some []) 10
     (BlockCache_new 16 \<lparr>cache_hits = 0, cache_misses = 0, cache_inserts = 0, cache_evictions = 0,
        cache_charge_bytes = 0, cache_capacity_bytes = 0\<rparr>))"
  using block_cache_invariant [OF bc_inv_new] by blast

text \<open>
  Least recently used replacement: inserting a new block that fits puts it in front and keeps of
  the old entries, most recent first, the longest prefix that fits in the room that is left; a later
  lookup of the new key is a hit with the inserted block.
\<close>

theorem block_cache_lru:
  assumes "bc_inv c" "bc_capacity c \<noteq> 0" "charge \<le> bc_capacity c" "key \<notin> ce_key ` set (bc_lru c)"
  shows "bc_lru (Insert key (Some block) charge c) =
      \<lparr>ce_key = key, ce_block = block, ce_charge = charge\<rparr> #
        fitting_prefix (unat (bc_capacity c) - unat charge) (bc_lru c) \<and>
    fst (Lookup key (Insert key (Some block) charge c)) = Some block"
proof -
  note new = Insert_new [OF assms, of block]
  let ?e = "\<lparr>ce_key = key, ce_block = block, ce_charge = charge\<rparr>"
  have "bc_capacity (Insert key (Some block) charge c) \<noteq> 0"
    using assms(2) evict_fitting [OF assms(1,3)] by (simp add: Insert_def Let_def)
  then have "fst (Lookup (ce_key ?e) (Insert key (Some block) charge c)) = Some (ce_block ?e)"
    using new by (intro Lookup_hit(1)) simp_all
  then show ?thesis using new(2) by simp
qed

theorem block_cache_lru_witness:
  "fst (Lookup \<lparr>table_number = 1, block_offset = 0\<rparr> (Insert \<lparr>table_number = 1, block_offset = 0\<rparr> (Some []) 10
     (BlockCache_new 16 \<lparr>cache_hits = 0, cache_misses = 0, cache_inserts = 0, cache_evictions = 0,
        cache_charge_bytes = 0, cache_capacity_bytes = 0\<rparr>))) = Some []"
proof -
  let ?m = "\<lparr>cache_hits = 0, cache_misses = 0, cache_inserts = 0, cache_evictions = 0,
    cache_charge_bytes = 0, cache_capacity_bytes = 0\<rparr> :: CacheMetrics"
  show ?thesis
    by (rule block_cache_lru [OF bc_inv_new, of 16 ?m 10 "\<lparr>table_number = 1, block_offset = 0\<rparr>" "[]", THEN conjunct2])
       (simp_all add: BlockCache_new_def)
qed

end
