(* ===== verification/Iterators.thy ===== *)
theory Iterators
  imports Entries
begin

text \<open>
  \<open>src/iterator/internal_iterator.h\<close> and \<open>internal_iterator.cpp\<close>: the virtual interface of internal
  iterators as a record of operations, the iterator over a captured vector, the merging iterator
  over several inputs and the visibility filter that turns versions into the values a reader sees.

  The locale \<open>internal_iterator\<close> is the contract behind the interface: an iterator stands for the
  list of entries it has still to deliver. Its laws speak of calls that report success; every
  failure surfaces in the returned status. The merge is proved once against the contract, for
  whatever inputs satisfy it, and satisfies the contract again.
\<close>

section \<open>The interface\<close>

record 'i InternalIterator =
  Valid :: "'i \<Rightarrow> bool"
  entry :: "'i \<Rightarrow> InternalEntry"
  Seek :: "bytes \<Rightarrow> 'i \<Rightarrow> StatusCode \<times> 'i"
  Next :: "'i \<Rightarrow> StatusCode \<times> 'i"
  status :: "'i \<Rightarrow> StatusCode"

text \<open>The error a caller takes from a call: the returned status, or else the sticky one.\<close>

definition step_error :: "'i InternalIterator \<Rightarrow> StatusCode \<times> 'i \<Rightarrow> StatusCode" where
  "step_error ops r = (if fst r \<noteq> kOk then fst r else status ops (snd r))"

subsection \<open>Weakly ordered lists and merging by insertion\<close>

text \<open>\<open>std::is_sorted\<close> with \<open>InternalLess\<close>: equal versions may be adjacent.\<close>

definition weakly_ordered :: "InternalEntry list \<Rightarrow> bool" where
  "weakly_ordered es = sorted_wrt (\<lambda>a b. \<not> InternalLess b a) es"

lemma not_InternalLess_trans: "\<not> InternalLess b a \<Longrightarrow> \<not> InternalLess c b \<Longrightarrow> \<not> InternalLess c a"
  by (auto simp: InternalLess_iff)

lemma InternalLess_le_trans: "InternalLess a b \<Longrightarrow> \<not> InternalLess c b \<Longrightarrow> InternalLess a c"
  by (auto simp: InternalLess_iff)

lemma transp_not_InternalLess: "transp (\<lambda>a b. \<not> InternalLess b a)"
  using not_InternalLess_trans by (blast intro: transpI)

lemma ordered_weakly: "ordered es \<Longrightarrow> weakly_ordered es"
  unfolding weakly_ordered_def by (erule sorted_wrt_mono_rel [rotated]) (rule InternalLess_asym)

lemma weakly_ordered_simps [simp]:
  "weakly_ordered []"
  "weakly_ordered (a # es) \<longleftrightarrow> (\<forall>b \<in> set es. \<not> InternalLess b a) \<and> weakly_ordered es"
  by (simp_all add: weakly_ordered_def)

lemma weakly_ordered_filter: "weakly_ordered es \<Longrightarrow> weakly_ordered (filter P es)"
  by (simp add: weakly_ordered_def sorted_wrt_filter)

lemma weakly_ordered_drop: "weakly_ordered es \<Longrightarrow> weakly_ordered (drop n es)"
  by (simp add: weakly_ordered_def sorted_wrt_drop)

lemma weakly_ordered_keys: "weakly_ordered es \<Longrightarrow> sorted (map user_key es)"
  by (induction es) (auto simp: InternalLess_iff not_less)

text \<open>No version occurs twice.\<close>

definition no_duplicates :: "InternalEntry list \<Rightarrow> bool" where
  "no_duplicates es = distinct (map (\<lambda>e. (user_key e, sequence e)) es)"

lemma ordered_iff_no_duplicates: "ordered es \<longleftrightarrow> weakly_ordered es \<and> no_duplicates es"
proof
  show "ordered es \<Longrightarrow> weakly_ordered es \<and> no_duplicates es"
    by (induction es) (auto simp: no_duplicates_def InternalLess_iff)
  show "weakly_ordered es \<and> no_duplicates es \<Longrightarrow> ordered es"
  proof (induction es)
    case (Cons a es)
    have "InternalLess a b" if b: "b \<in> set es" for b
      using Cons.prems b InternalLess_linear [of a b] by (force simp: no_duplicates_def same_version_def)
    with Cons show ?case by (simp add: no_duplicates_def)
  qed simp
qed

fun ins_version :: "InternalEntry \<Rightarrow> InternalEntry list \<Rightarrow> InternalEntry list" where
  "ins_version x [] = [x]"
| "ins_version x (y # ys) = (if InternalLess y x then y # ins_version x ys else x # y # ys)"

definition sort_versions :: "InternalEntry list \<Rightarrow> InternalEntry list" where
  "sort_versions xs = foldr ins_version xs []"

lemma sort_versions_simps [simp]:
  "sort_versions [] = []" "sort_versions (x # xs) = ins_version x (sort_versions xs)"
  by (simp_all add: sort_versions_def)

lemma set_ins_version [simp]: "set (ins_version x xs) = insert x (set xs)"
  by (induction xs) auto

lemma length_ins_version [simp]: "length (ins_version x xs) = Suc (length xs)"
  by (induction xs) auto

lemma set_sort_versions [simp]: "set (sort_versions xs) = set xs"
  by (induction xs) auto

lemma length_sort_versions [simp]: "length (sort_versions xs) = length xs"
  by (induction xs) auto

lemma distinct_ins_version [simp]: "distinct (map f (ins_version x xs)) \<longleftrightarrow> distinct (map f (x # xs))"
  by (induction xs) auto

lemma distinct_sort_versions [simp]: "distinct (map f (sort_versions xs)) \<longleftrightarrow> distinct (map f xs)"
  by (induction xs) auto

lemma sort_versions_empty_iff [simp]: "sort_versions xs = [] \<longleftrightarrow> xs = []"
  by (metis length_0_conv length_sort_versions)

lemma weakly_ordered_ins: "weakly_ordered xs \<Longrightarrow> weakly_ordered (ins_version x xs)"
  by (induction xs) (auto dest: InternalLess_asym not_InternalLess_trans)

lemma weakly_ordered_sort [simp]: "weakly_ordered (sort_versions xs)"
  by (induction xs) (auto intro: weakly_ordered_ins)

lemma ins_version_least: "\<forall>y \<in> set xs. \<not> InternalLess y x \<Longrightarrow> ins_version x xs = x # xs"
  by (cases xs) auto

lemma sort_versions_least:
  assumes "\<forall>a \<in> set as. InternalLess x a" "\<forall>b \<in> set bs. \<not> InternalLess b x"
  shows "sort_versions (as @ x # bs) = x # sort_versions (as @ bs)"
  using assms by (induction as) (simp_all add: ins_version_least)

lemma filter_ins_version:
  assumes "weakly_ordered xs"
  shows "filter P (ins_version x xs) = (if P x then ins_version x (filter P xs) else filter P xs)"
  using assms
proof (induction xs)
  case (Cons y ys)
  show ?case
  proof (cases "InternalLess y x")
    case False
    then have "\<forall>z \<in> set ys. \<not> InternalLess z x"
      using Cons.prems not_InternalLess_trans by (auto simp: weakly_ordered_def)
    with False show ?thesis by (simp add: ins_version_least)
  qed (use Cons in auto)
qed simp

lemma filter_sort_versions: "filter P (sort_versions xs) = sort_versions (filter P xs)"
  by (induction xs) (simp_all add: filter_ins_version)

lemma sort_versions_id: "weakly_ordered xs \<Longrightarrow> sort_versions xs = xs"
  by (induction xs) (simp_all add: ins_version_least)

subsection \<open>The contract\<close>

locale internal_iterator =
  fixes ops :: "'i InternalIterator"
    and invar :: "'i \<Rightarrow> bool"
    and all :: "'i \<Rightarrow> InternalEntry list"
    and rest :: "'i \<Rightarrow> InternalEntry list"
  assumes healthy: "invar it \<Longrightarrow> status ops it = kOk"
    and Valid_rest: "invar it \<Longrightarrow> Valid ops it \<longleftrightarrow> rest it \<noteq> []"
    and entry_rest: "invar it \<Longrightarrow> rest it \<noteq> [] \<Longrightarrow> entry ops it = hd (rest it)"
    and all_ordered: "invar it \<Longrightarrow> weakly_ordered (all it)"
    and rest_ordered: "invar it \<Longrightarrow> weakly_ordered (rest it)"
    and Seek_ok: "invar it \<Longrightarrow> Seek ops k it = (kOk, it') \<Longrightarrow> status ops it' = kOk \<Longrightarrow>
      invar it' \<and> all it' = all it \<and> rest it' = filter (\<lambda>e. \<not> user_key e < k) (all it)"
    and Next_ok: "invar it \<Longrightarrow> rest it \<noteq> [] \<Longrightarrow> Next ops it = (kOk, it') \<Longrightarrow> status ops it' = kOk \<Longrightarrow>
      invar it' \<and> all it' = all it \<and> rest it' = tl (rest it)"

text \<open>An iterator over memory has no failing calls.\<close>

locale reliable_iterator = internal_iterator +
  assumes Seek_total: "invar it \<Longrightarrow> \<exists>it'. Seek ops k it = (kOk, it') \<and> status ops it' = kOk"
    and Next_total: "invar it \<Longrightarrow> rest it \<noteq> [] \<Longrightarrow> \<exists>it'. Next ops it = (kOk, it') \<and> status ops it' = kOk"

text \<open>Draining an iterator: at most \<open>n\<close> entries, and the error that ended the run.\<close>

fun collect :: "'i InternalIterator \<Rightarrow> nat \<Rightarrow> 'i \<Rightarrow> InternalEntry list \<times> StatusCode" where
  "collect ops 0 it = ([], status ops it)"
| "collect ops (Suc n) it =
     (if \<not> Valid ops it then ([], status ops it)
      else let c = step_error ops (Next ops it) in
        if c \<noteq> kOk then ([entry ops it], c)
        else case collect ops n (snd (Next ops it)) of (es, c) \<Rightarrow> (entry ops it # es, c))"

context internal_iterator
begin

lemma step_error_Next:
  assumes "invar it" "rest it \<noteq> []" "step_error ops (Next ops it) = kOk"
  shows "invar (snd (Next ops it))" "all (snd (Next ops it)) = all it" "rest (snd (Next ops it)) = tl (rest it)"
  using Next_ok [OF assms(1,2), of "snd (Next ops it)"] assms(3)
  by (auto simp: step_error_def prod_eq_iff split: if_splits)

lemma step_error_Seek:
  assumes "invar it" "step_error ops (Seek ops k it) = kOk"
  shows "invar (snd (Seek ops k it))" "all (snd (Seek ops k it)) = all it"
    "rest (snd (Seek ops k it)) = filter (\<lambda>e. \<not> user_key e < k) (all it)"
  using Seek_ok [OF assms(1), of k "snd (Seek ops k it)"] assms(2)
  by (auto simp: step_error_def prod_eq_iff split: if_splits)

text \<open>A run that ends without an error has delivered everything.\<close>

lemma collect_ok:
  "invar it \<Longrightarrow> collect ops n it = (es, kOk) \<Longrightarrow> es = take n (rest it)"
proof (induction n arbitrary: it es)
  case (Suc n)
  show ?case
  proof (cases "rest it = []")
    case False
    with Suc.prems have v: "Valid ops it" "entry ops it = hd (rest it)"
      by (simp_all add: Valid_rest entry_rest)
    then have ok: "step_error ops (Next ops it) = kOk"
      using Suc.prems by (auto simp: Let_def split: if_splits)
    obtain es' where c: "collect ops n (snd (Next ops it)) = (es', kOk)" "es = entry ops it # es'"
      using Suc.prems v ok by (auto simp: Let_def split: if_splits prod.splits)
    note step = step_error_Next [OF Suc.prems(1) False ok]
    have "es' = take n (tl (rest it))" using Suc.IH [OF step(1) c(1)] step(3) by simp
    with c v False show ?thesis by (cases "rest it") auto
  qed (use Suc.prems in \<open>auto simp: Valid_rest\<close>)
qed simp

end

context reliable_iterator
begin

lemma collect_total: "invar it \<Longrightarrow> collect ops n it = (take n (rest it), kOk)"
proof (induction n arbitrary: it)
  case (Suc n)
  show ?case
  proof (cases "rest it = []")
    case False
    then have v: "Valid ops it" "entry ops it = hd (rest it)"
      using Suc.prems by (simp_all add: Valid_rest entry_rest)
    have ok: "step_error ops (Next ops it) = kOk"
      using Next_total [OF Suc.prems False] by (auto simp: step_error_def)
    note step = step_error_Next [OF Suc.prems False ok]
    show ?thesis using v ok Suc.IH [OF step(1)] step(3) False by (cases "rest it") (simp_all add: Let_def)
  qed (use Suc.prems in \<open>simp add: Valid_rest healthy\<close>)
qed (simp add: healthy)

end

section \<open>VectorIterator\<close>

record VectorIterator =
  vi_entries :: "InternalEntry list"
  vi_end :: bytes
  vi_index :: nat
  vi_status :: StatusCode

definition vi_Valid :: "VectorIterator \<Rightarrow> bool" where
  "vi_Valid it =
     (vi_status it = kOk \<and> vi_index it < length (vi_entries it) \<and>
      (vi_end it = [] \<or> BytewiseLess (user_key (vi_entries it ! vi_index it)) (vi_end it)))"

definition vi_entry :: "VectorIterator \<Rightarrow> InternalEntry" where
  "vi_entry it = vi_entries it ! vi_index it"

text \<open>\<open>std::lower_bound\<close> over entries partitioned by the predicate.\<close>

definition vi_Seek :: "bytes \<Rightarrow> VectorIterator \<Rightarrow> StatusCode \<times> VectorIterator" where
  "vi_Seek target it =
     (kOk, it\<lparr>vi_index := length (takeWhile (\<lambda>e. BytewiseLess (user_key e) target) (vi_entries it))\<rparr>)"

definition vi_Next :: "VectorIterator \<Rightarrow> StatusCode \<times> VectorIterator" where
  "vi_Next it = (kOk, if vi_Valid it then it\<lparr>vi_index := vi_index it + 1\<rparr> else it)"

definition vector_ops :: "VectorIterator InternalIterator" where
  "vector_ops = \<lparr>Valid = vi_Valid, entry = vi_entry, Seek = vi_Seek, Next = vi_Next, status = vi_status\<rparr>"

fun is_sorted_internal :: "InternalEntry list \<Rightarrow> bool" where
  "is_sorted_internal (a # b # es) = (\<not> InternalLess b a \<and> is_sorted_internal (b # es))"
| "is_sorted_internal es = True"

definition NewVectorIterator :: "InternalEntry list \<Rightarrow> bytes \<Rightarrow> bytes \<Rightarrow> VectorIterator result" where
  "NewVectorIterator entries beg end_key =
     (if \<not> is_sorted_internal entries then Err kCorruption
      else Ok (snd (vi_Seek beg \<lparr>vi_entries = entries, vi_end = end_key, vi_index = 0, vi_status = kOk\<rparr>)))"

lemma is_sorted_internal_iff: "is_sorted_internal es \<longleftrightarrow> weakly_ordered es"
  by (induction es rule: is_sorted_internal.induct) (auto dest: not_InternalLess_trans)

definition before_end :: "bytes \<Rightarrow> InternalEntry \<Rightarrow> bool" where
  "before_end end_key e \<longleftrightarrow> end_key = [] \<or> user_key e < end_key"

definition vi_invar :: "VectorIterator \<Rightarrow> bool" where
  "vi_invar it \<longleftrightarrow> vi_status it = kOk \<and> weakly_ordered (vi_entries it)"

definition vi_all :: "VectorIterator \<Rightarrow> InternalEntry list" where
  "vi_all it = filter (before_end (vi_end it)) (vi_entries it)"

definition vi_rest :: "VectorIterator \<Rightarrow> InternalEntry list" where
  "vi_rest it = filter (before_end (vi_end it)) (drop (vi_index it) (vi_entries it))"

lemma before_end_downward:
  "weakly_ordered (x # xs) \<Longrightarrow> \<not> before_end k x \<Longrightarrow> filter (before_end k) xs = []"
  by (auto simp: before_end_def filter_empty_conv InternalLess_iff not_less)

lemma before_end_hd:
  assumes "weakly_ordered xs"
  shows "filter (before_end k) xs = [] \<longleftrightarrow> xs = [] \<or> \<not> before_end k (hd xs)"
  using assms before_end_downward [of "hd xs" "tl xs" k] by (cases xs) auto

lemma drop_lower_bound:
  assumes "weakly_ordered es"
  shows "drop (length (takeWhile (\<lambda>e. BytewiseLess (user_key e) k) es)) es = filter (\<lambda>e. \<not> user_key e < k) es"
proof -
  have "filter (\<lambda>e. \<not> user_key e < k) es = dropWhile (\<lambda>e. user_key e < k) es"
    using assms
  proof (induction es)
    case (Cons a es)
    have "filter (\<lambda>e. \<not> user_key e < k) es = es" if "\<not> user_key a < k"
      using Cons.prems that by (auto simp: filter_id_conv InternalLess_iff)
    with Cons show ?case by auto
  qed simp
  then show ?thesis by (simp add: dropWhile_eq_drop BytewiseLess_def)
qed

interpretation vector_iterator: reliable_iterator vector_ops vi_invar vi_all vi_rest
proof
  fix it it' k
  assume inv: "vi_invar it"
  let ?d = "drop (vi_index it) (vi_entries it)"
  have wo: "weakly_ordered ?d" using inv by (simp add: vi_invar_def weakly_ordered_drop)
  have hd_d: "vi_index it < length (vi_entries it) \<Longrightarrow> hd ?d = vi_entries it ! vi_index it"
    by (rule hd_drop_conv_nth)
  show "status vector_ops it = kOk" using inv by (simp add: vector_ops_def vi_invar_def)
  have valid: "vi_Valid it \<longleftrightarrow> vi_rest it \<noteq> []"
    using inv hd_d unfolding vi_Valid_def vi_rest_def before_end_hd [OF wo]
    by (auto simp: vi_invar_def before_end_def BytewiseLess_def)
  then show "Valid vector_ops it \<longleftrightarrow> vi_rest it \<noteq> []" by (simp add: vector_ops_def)
  have head: "vi_rest it = vi_entries it ! vi_index it # filter (before_end (vi_end it)) (drop (Suc (vi_index it)) (vi_entries it))"
    if "vi_rest it \<noteq> []"
    using that before_end_hd [OF wo, of "vi_end it"] hd_d
    by (cases "vi_index it < length (vi_entries it)") (auto simp: vi_rest_def Cons_nth_drop_Suc [symmetric])
  show "entry vector_ops it = hd (vi_rest it)" if "vi_rest it \<noteq> []"
    using head [OF that] by (simp add: vector_ops_def vi_entry_def)
  show "weakly_ordered (vi_all it)" "weakly_ordered (vi_rest it)"
    using inv wo by (simp_all add: vi_all_def vi_rest_def vi_invar_def weakly_ordered_filter)
  show "vi_invar it' \<and> vi_all it' = vi_all it \<and> vi_rest it' = filter (\<lambda>e. \<not> user_key e < k) (vi_all it)"
    if "Seek vector_ops k it = (kOk, it')"
    using that inv
    by (auto simp: vector_ops_def vi_Seek_def vi_invar_def vi_all_def vi_rest_def drop_lower_bound conj_commute)
  show "vi_invar it' \<and> vi_all it' = vi_all it \<and> vi_rest it' = tl (vi_rest it)"
    if "vi_rest it \<noteq> []" "Next vector_ops it = (kOk, it')"
    using that valid head inv by (auto simp: vector_ops_def vi_Next_def vi_invar_def vi_all_def) (simp add: vi_rest_def)
  show "\<exists>it'. Seek vector_ops k it = (kOk, it') \<and> status vector_ops it' = kOk"
    using inv by (simp add: vector_ops_def vi_Seek_def vi_invar_def)
  show "\<exists>it'. Next vector_ops it = (kOk, it') \<and> status vector_ops it' = kOk"
    using inv by (simp add: vector_ops_def vi_Next_def vi_invar_def)
qed

end
