(* ===== verification/Sstable_Reader.thy ===== *)
theory Sstable_Reader
  imports Sstable_Builder Block_Cache Iterators
begin

text \<open>
  \<open>src/sstable/sstable_reader.cpp\<close>: opening a table, reading blocks through the cache, point reads,
  validation against the stored properties, and the table iterator. The methods are \<open>const\<close> in the
  source but move shared state: the file's system calls, the block cache and the counters. That state
  is threaded explicitly.
\<close>

section \<open>State\<close>

record ReadCounters =
  rc_table_probes :: u64
  rc_block_reads :: u64
  rc_block_decodes :: u64

record TableState =
  ts_file :: RandomAccessFile
  ts_cache :: "BlockCache option"
  ts_counters :: ReadCounters

record SSTableReader =
  sr_file_size :: u64
  sr_version :: u32
  sr_blocks :: "BlockMeta list"
  sr_properties :: "TableProperties option"
  sr_table_number :: u64

definition on_file :: "(RandomAccessFile, 'a) op \<Rightarrow> (TableState, 'a) op" where
  "on_file m ts = (case m (ts_file ts) of (r, f) \<Rightarrow> (r, ts\<lparr>ts_file := f\<rparr>))"

definition op_of :: "'a result \<Rightarrow> ('s, 'a) op" where
  "op_of r s = (r, s)"

definition op_modify :: "('s \<Rightarrow> 's) \<Rightarrow> ('s, unit) op" where
  "op_modify f s = (Ok (), f s)"

definition count_probe :: "TableState \<Rightarrow> TableState" where
  "count_probe ts = ts\<lparr>ts_counters := (ts_counters ts)\<lparr>rc_table_probes := rc_table_probes (ts_counters ts) + 1\<rparr>\<rparr>"

definition count_read :: "TableState \<Rightarrow> TableState" where
  "count_read ts = ts\<lparr>ts_counters := (ts_counters ts)\<lparr>rc_block_reads := rc_block_reads (ts_counters ts) + 1\<rparr>\<rparr>"

definition count_decode :: "TableState \<Rightarrow> TableState" where
  "count_decode ts = ts\<lparr>ts_counters := (ts_counters ts)\<lparr>rc_block_decodes := rc_block_decodes (ts_counters ts) + 1\<rparr>\<rparr>"

section \<open>Opening\<close>

text \<open>Version-1 footers are tried first; a table with a version-2 footer is longer.\<close>

definition read_footer :: "nat \<Rightarrow> (RandomAccessFile, Footer) op" where
  "read_footer file_size =
     op_bind (ReadExactly (file_size - kSstableV1FooterSize) kSstableV1FooterSize) (\<lambda>v1_bytes.
       case DecodeFooter v1_bytes of
         Ok footer \<Rightarrow> op_return footer
       | UB \<Rightarrow> op_of UB
       | Err c \<Rightarrow>
           if file_size < kSstableFooterSize then op_fail c
           else op_bind (ReadExactly (file_size - kSstableFooterSize) kSstableFooterSize) (\<lambda>v2_bytes.
             op_of (DecodeFooter v2_bytes)))"

text \<open>The section ranges, in 64-bit arithmetic as in the source.\<close>

definition sections_ok :: "Footer \<Rightarrow> u64 \<Rightarrow> bool" where
  "sections_ok f sections_end =
     (\<not> (ft_index_offset f > sections_end \<or> ft_index_size f > sections_end - ft_index_offset f) \<and>
      (if ft_version f = kSstableVersionV1
       then ft_index_offset f + ft_index_size f = sections_end
       else \<not> (ft_index_offset f + ft_index_size f \<noteq> ft_properties_offset f \<or>
               ft_properties_offset f > sections_end \<or>
               ft_properties_size f > sections_end - ft_properties_offset f \<or>
               ft_properties_offset f + ft_properties_size f \<noteq> sections_end)))"

definition block_in_range :: "u64 \<Rightarrow> BlockMeta \<Rightarrow> bool" where
  "block_in_range index_offset b = (\<not> (bm_offset b > index_offset \<or> bm_size b > index_offset - bm_offset b))"

definition Open :: "u64 \<Rightarrow> (RandomAccessFile, SSTableReader) op" where
  "Open number f =
     (let file_size = FileSize f in
      if file_size < kSstableV1FooterSize then (Err kCorruption, f)
      else op_bind (read_footer file_size) (\<lambda>footer.
        let footer_size = (if ft_version footer = kSstableVersionV1 then kSstableV1FooterSize else kSstableFooterSize);
            sections_end = of_nat file_size - of_nat footer_size in
        if \<not> sections_ok footer sections_end then op_fail kCorruption
        else op_bind (ReadExactly (unat (ft_index_offset footer)) (unat (ft_index_size footer))) (\<lambda>index_bytes.
        op_bind (op_of (DecodeIndex index_bytes)) (\<lambda>blocks.
        op_bind (if ft_version footer = kSstableVersion
                 then op_bind (ReadExactly (unat (ft_properties_offset footer)) (unat (ft_properties_size footer)))
                        (\<lambda>bytes. op_bind (op_of (DecodeProperties bytes)) (\<lambda>p. op_return (Some p)))
                 else op_return None) (\<lambda>properties.
        if \<not> list_all (block_in_range (ft_index_offset footer)) blocks then op_fail kCorruption
        else op_return
          \<lparr>sr_file_size = of_nat file_size, sr_version = ft_version footer, sr_blocks = blocks,
           sr_properties = properties, sr_table_number = number\<rparr>)))) f)"

section \<open>Reading a block\<close>

text \<open>
  \<open>charge\<close> stands for \<open>BlockCharge\<close> of the block, which depends on the capacities the standard library
  chose for the decoded containers.
\<close>

definition load_block ::
  "(InternalEntry list \<Rightarrow> u64) \<Rightarrow> SSTableReader \<Rightarrow> BlockMeta \<Rightarrow> bool \<Rightarrow> (TableState, InternalEntry list) op" where
  "load_block charge r m use_cache =
     op_bind (on_file (ReadExactly (unat (bm_offset m)) (unat (bm_size m)))) (\<lambda>bytes.
     op_bind (op_modify count_read) (\<lambda>_.
     op_bind (op_of (DecodeDataBlock bytes (sr_version r))) (\<lambda>entries.
     op_bind (op_modify count_decode) (\<lambda>_.
     if entries = [] then op_fail kCorruption
     else if user_key (hd entries) \<noteq> bm_first_key m \<or> user_key (last entries) \<noteq> bm_last_key m then op_fail kCorruption
     else if list_ex (\<lambda>e. sequence e = 0) entries then op_fail kCorruption
     else op_bind (op_modify (\<lambda>ts.
            case ts_cache ts of
              Some c \<Rightarrow> if use_cache
                then ts\<lparr>ts_cache := Some (Insert \<lparr>table_number = sr_table_number r, block_offset = bm_offset m\<rparr>
                                              (Some entries) (charge entries) c)\<rparr>
                else ts
            | None \<Rightarrow> ts)) (\<lambda>_. op_return entries)))))"

definition ReadBlock ::
  "(InternalEntry list \<Rightarrow> u64) \<Rightarrow> SSTableReader \<Rightarrow> BlockMeta \<Rightarrow> bool \<Rightarrow> (TableState, InternalEntry list) op" where
  "ReadBlock charge r m use_cache ts =
     (case ts_cache ts of
        Some c \<Rightarrow>
          if use_cache
          then (case Lookup \<lparr>table_number = sr_table_number r, block_offset = bm_offset m\<rparr> c of
                  (Some block, c') \<Rightarrow> (Ok block, ts\<lparr>ts_cache := Some c'\<rparr>)
                | (None, c') \<Rightarrow> load_block charge r m use_cache (ts\<lparr>ts_cache := Some c'\<rparr>))
          else load_block charge r m use_cache ts
      | None \<Rightarrow> load_block charge r m use_cache ts)"

definition FindInV2Block :: "BlockMeta \<Rightarrow> bytes \<Rightarrow> u64 \<Rightarrow> (TableState, InternalEntry) op" where
  "FindInV2Block m key n =
     op_bind (on_file (ReadExactly (unat (bm_offset m)) (unat (bm_size m)))) (\<lambda>bytes.
     op_bind (op_modify (\<lambda>ts. count_decode (count_read ts))) (\<lambda>_.
     op_of (FindDataBlockEntry bytes kSstableVersion key n)))"

section \<open>Point reads\<close>

fun scan_versions :: "InternalEntry list \<Rightarrow> bytes \<Rightarrow> u64 \<Rightarrow> InternalEntry result" where
  "scan_versions [] key n = Err kNotFound"
| "scan_versions (e # es) key n =
     (if user_key e \<noteq> key then Err kNotFound
      else if sequence e \<le> n then Ok e
      else scan_versions es key n)"

definition cache_enabled :: "BlockCache option \<Rightarrow> bool" where
  "cache_enabled c = (case c of None \<Rightarrow> False | Some c \<Rightarrow> bc_capacity c \<noteq> 0)"

definition Table_Get ::
  "(InternalEntry list \<Rightarrow> u64) \<Rightarrow> SSTableReader \<Rightarrow> bytes \<Rightarrow> u64 \<Rightarrow> (TableState, InternalEntry) op" where
  "Table_Get charge r key n =
     op_bind (op_modify count_probe) (\<lambda>_.
       case dropWhile (\<lambda>b. bm_last_key b < key) (sr_blocks r) of
         [] \<Rightarrow> op_fail kNotFound
       | m # _ \<Rightarrow>
           if key < bm_first_key m then op_fail kNotFound
           else (\<lambda>ts.
             if sr_version r = kSstableVersion \<and> \<not> cache_enabled (ts_cache ts) then FindInV2Block m key n ts
             else op_bind (ReadBlock charge r m True) (\<lambda>entries.
               op_of (scan_versions (dropWhile (\<lambda>a. user_key a < key) entries) key n)) ts))"

section \<open>Validation\<close>

record TableScan =
  sc_entry_count :: u64
  sc_smallest_key :: bytes
  sc_largest_key :: bytes
  sc_min_sequence :: u64
  sc_max_sequence :: u64
  sc_previous_key :: bytes
  sc_has_entries :: bool

definition scan_entry :: "TableScan \<Rightarrow> InternalEntry \<Rightarrow> TableScan" where
  "scan_entry s e =
     (let s = (if sc_has_entries s then s
               else s\<lparr>sc_smallest_key := user_key e, sc_min_sequence := sequence e,
                      sc_max_sequence := sequence e, sc_has_entries := True\<rparr>)
      in s\<lparr>sc_largest_key := user_key e, sc_min_sequence := min (sc_min_sequence s) (sequence e),
           sc_max_sequence := max (sc_max_sequence s) (sequence e), sc_entry_count := sc_entry_count s + 1\<rparr>)"

fun validate_blocks ::
  "(InternalEntry list \<Rightarrow> u64) \<Rightarrow> SSTableReader \<Rightarrow> BlockMeta list \<Rightarrow> TableScan \<Rightarrow> (TableState, TableScan) op" where
  "validate_blocks charge r [] s = op_return s"
| "validate_blocks charge r (m # ms) s =
     op_bind (ReadBlock charge r m False) (\<lambda>entries.
       if sc_has_entries s \<and> \<not> BytewiseLess (sc_previous_key s) (user_key (hd entries)) then op_fail kCorruption
       else validate_blocks charge r ms
              ((foldl scan_entry s entries)\<lparr>sc_previous_key := user_key (last entries)\<rparr>))"

definition ValidateAndGetProperties ::
  "(InternalEntry list \<Rightarrow> u64) \<Rightarrow> SSTableReader \<Rightarrow> (TableState, BuiltTableInfo) op" where
  "ValidateAndGetProperties charge r =
     (if sr_blocks r = [] then op_fail kCorruption
      else op_bind (validate_blocks charge r (sr_blocks r)
          \<lparr>sc_entry_count = 0, sc_smallest_key = [], sc_largest_key = [], sc_min_sequence = 0,
           sc_max_sequence = 0, sc_previous_key = [], sc_has_entries = False\<rparr>) (\<lambda>s.
        if (case sr_properties r of
              None \<Rightarrow> False
            | Some p \<Rightarrow> sc_entry_count s \<noteq> tp_entry_count p \<or> sc_smallest_key s \<noteq> tp_smallest_key p \<or>
                sc_largest_key s \<noteq> tp_largest_key p \<or> sc_min_sequence s \<noteq> tp_min_sequence p \<or>
                sc_max_sequence s \<noteq> tp_max_sequence p)
        then op_fail kCorruption
        else op_return \<lparr>ti_file_size = sr_file_size r, ti_entry_count = sc_entry_count s,
               ti_smallest_key = sc_smallest_key s, ti_largest_key = sc_largest_key s,
               ti_min_sequence = sc_min_sequence s, ti_max_sequence = sc_max_sequence s\<rparr>))"

section \<open>Iterator\<close>

text \<open>
  An iterator carries its own view of the shared state. What it delivers does not depend on the
  cache contents, so the views of several iterators need not be merged.
\<close>

record TableIterator =
  si_reader :: SSTableReader
  si_state :: TableState
  si_end :: bytes
  si_block_index :: nat
  si_entries :: "InternalEntry list option"
  si_entry_index :: nat
  si_valid :: bool
  si_status :: StatusCode

definition SetEof :: "TableIterator \<Rightarrow> TableIterator" where
  "SetEof it = it\<lparr>si_valid := False, si_entries := None, si_entry_index := 0,
                  si_block_index := length (sr_blocks (si_reader it))\<rparr>"

definition LoadBlock :: "(InternalEntry list \<Rightarrow> u64) \<Rightarrow> TableIterator \<Rightarrow> StatusCode result \<times> TableIterator" where
  "LoadBlock charge it =
     (case ReadBlock charge (si_reader it) (sr_blocks (si_reader it) ! si_block_index it) True (si_state it) of
        (Ok entries, ts) \<Rightarrow> (Ok kOk, it\<lparr>si_state := ts, si_entries := Some entries\<rparr>)
      | (Err c, ts) \<Rightarrow> (Ok c, it\<lparr>si_state := ts, si_status := c, si_valid := False, si_entries := None\<rparr>)
      | (UB, ts) \<Rightarrow> (UB, it\<lparr>si_state := ts\<rparr>))"

definition UpdateValidity :: "TableIterator \<Rightarrow> TableIterator" where
  "UpdateValidity it =
     (let valid = (case si_entries it of
                     None \<Rightarrow> False
                   | Some es \<Rightarrow> si_entry_index it < length es \<and>
                       (si_end it = [] \<or> BytewiseLess (user_key (es ! si_entry_index it)) (si_end it)))
      in if valid then it\<lparr>si_valid := True\<rparr> else SetEof (it\<lparr>si_valid := False\<rparr>))"

text \<open>\<open>Seek\<close> and \<open>Next\<close> return \<open>kCorruption\<close> for an execution that leaves defined behaviour.\<close>

definition load_and_position ::
  "(InternalEntry list \<Rightarrow> u64) \<Rightarrow> (InternalEntry list \<Rightarrow> nat) \<Rightarrow> TableIterator \<Rightarrow> StatusCode \<times> TableIterator" where
  "load_and_position charge position it =
     (case LoadBlock charge it of
        (Ok c, it) \<Rightarrow>
          if c \<noteq> kOk then (c, it)
          else let it = UpdateValidity (it\<lparr>si_entry_index := position (the (si_entries it))\<rparr>) in (si_status it, it)
      | (_, it) \<Rightarrow> (kCorruption, it\<lparr>si_status := kCorruption, si_valid := False\<rparr>))"

definition si_Seek :: "(InternalEntry list \<Rightarrow> u64) \<Rightarrow> bytes \<Rightarrow> TableIterator \<Rightarrow> StatusCode \<times> TableIterator" where
  "si_Seek charge beg it =
     (let blocks = sr_blocks (si_reader it);
          it = it\<lparr>si_block_index := length (takeWhile (\<lambda>b. BytewiseLess (bm_last_key b) beg) blocks)\<rparr> in
      if si_block_index it = length blocks \<or>
         (si_end it \<noteq> [] \<and> \<not> BytewiseLess (bm_first_key (blocks ! si_block_index it)) (si_end it))
      then (kOk, SetEof it)
      else load_and_position charge (\<lambda>entries. length (takeWhile (\<lambda>e. BytewiseLess (user_key e) beg) entries)) it)"

definition si_Next :: "(InternalEntry list \<Rightarrow> u64) \<Rightarrow> TableIterator \<Rightarrow> StatusCode \<times> TableIterator" where
  "si_Next charge it =
     (if si_status it \<noteq> kOk then (si_status it, it)
      else if \<not> si_valid it then (kOk, it)
      else
        let it = it\<lparr>si_entry_index := si_entry_index it + 1\<rparr> in
        if si_entry_index it < length (the (si_entries it))
        then let it = UpdateValidity it in (si_status it, it)
        else
          let it = it\<lparr>si_block_index := si_block_index it + 1\<rparr>; blocks = sr_blocks (si_reader it) in
          if si_block_index it = length blocks \<or>
             (si_end it \<noteq> [] \<and> \<not> BytewiseLess (bm_first_key (blocks ! si_block_index it)) (si_end it))
          then (kOk, SetEof it)
          else load_and_position charge (\<lambda>entries. 0) it)"

definition table_ops :: "(InternalEntry list \<Rightarrow> u64) \<Rightarrow> TableIterator InternalIterator" where
  "table_ops charge =
     \<lparr>Valid = (\<lambda>it. si_status it = kOk \<and> si_valid it),
      entry = (\<lambda>it. the (si_entries it) ! si_entry_index it),
      Seek = si_Seek charge, Next = si_Next charge, status = si_status\<rparr>"

definition Table_NewIterator ::
  "(InternalEntry list \<Rightarrow> u64) \<Rightarrow> SSTableReader \<Rightarrow> TableState \<Rightarrow> bytes \<Rightarrow> bytes \<Rightarrow> TableIterator result" where
  "Table_NewIterator charge r ts beg end_key =
     (if end_key \<noteq> [] \<and> BytewiseLess end_key beg then Err kInvalidArgument
      else case si_Seek charge beg
          \<lparr>si_reader = r, si_state = ts, si_end = end_key, si_block_index = length (sr_blocks r),
           si_entries = None, si_entry_index = 0, si_valid = False, si_status = kOk\<rparr> of
        (c, it) \<Rightarrow> if c \<noteq> kOk then Err c else Ok it)"

text \<open>The loop of \<open>Scan\<close>; an iterator over a table of \<open>n\<close> entries is drained in at most \<open>n\<close> steps.\<close>

definition Table_Scan ::
  "(InternalEntry list \<Rightarrow> u64) \<Rightarrow> nat \<Rightarrow> SSTableReader \<Rightarrow> TableState \<Rightarrow> bytes \<Rightarrow> bytes \<Rightarrow> InternalEntry list result" where
  "Table_Scan charge fuel r ts beg end_key =
     rbind (Table_NewIterator charge r ts beg end_key) (\<lambda>it.
       case collect (table_ops charge) fuel it of (es, c) \<Rightarrow> if c \<noteq> kOk then Err c else Ok es)"

section \<open>Well-formed tables\<close>

definition block_entries :: "SSTableReader \<Rightarrow> bytes \<Rightarrow> BlockMeta \<Rightarrow> InternalEntry list" where
  "block_entries r data m =
     (case DecodeDataBlock (take (unat (bm_size m)) (drop (unat (bm_offset m)) data)) (sr_version r) of
        Ok es \<Rightarrow> es | _ \<Rightarrow> [])"

definition table_entries :: "SSTableReader \<Rightarrow> bytes \<Rightarrow> InternalEntry list" where
  "table_entries r data = concat (map (block_entries r data) (sr_blocks r))"

definition block_ok :: "SSTableReader \<Rightarrow> bytes \<Rightarrow> BlockMeta \<Rightarrow> bool" where
  "block_ok r data m \<longleftrightarrow>
     unat (bm_offset m) + unat (bm_size m) \<le> length data \<and>
     DecodeDataBlock (take (unat (bm_size m)) (drop (unat (bm_offset m)) data)) (sr_version r) = Ok (block_entries r data m) \<and>
     block_entries r data m \<noteq> [] \<and> user_key (hd (block_entries r data m)) = bm_first_key m \<and>
     user_key (last (block_entries r data m)) = bm_last_key m \<and> (\<forall>e \<in> set (block_entries r data m). sequence e \<noteq> 0)"

definition reader_ok :: "SSTableReader \<Rightarrow> bytes \<Rightarrow> bool" where
  "reader_ok r data \<longleftrightarrow> (\<forall>m \<in> set (sr_blocks r). block_ok r data m) \<and>
     sorted_wrt (\<lambda>a b. bm_last_key a < bm_first_key b) (sr_blocks r) \<and> distinct (map bm_offset (sr_blocks r))"

text \<open>What the cache holds for this table is what the blocks decode to.\<close>

definition cache_ok :: "SSTableReader \<Rightarrow> bytes \<Rightarrow> BlockCache \<Rightarrow> bool" where
  "cache_ok r data c \<longleftrightarrow> bc_inv c \<and>
     (\<forall>e \<in> set (bc_lru c). \<forall>m \<in> set (sr_blocks r).
        ce_key e = \<lparr>table_number = sr_table_number r, block_offset = bm_offset m\<rparr> \<longrightarrow> ce_block e = block_entries r data m)"

definition ts_ok :: "SSTableReader \<Rightarrow> bytes \<Rightarrow> TableState \<Rightarrow> bool" where
  "ts_ok r data ts \<longleftrightarrow> ra_data (ts_file ts) = data \<and> (\<forall>c. ts_cache ts = Some c \<longrightarrow> cache_ok r data c)"

lemma block_ok_ordered: "block_ok r data m \<Longrightarrow> ordered (block_entries r data m)"
  unfolding block_ok_def using DecodeDataBlock_ordered by blast

lemma block_key_range:
  assumes "block_ok r data m" "e \<in> set (block_entries r data m)"
  shows "bm_first_key m \<le> user_key e" "user_key e \<le> bm_last_key m"
proof -
  let ?es = "block_entries r data m"
  have ord: "ordered ?es" by (rule block_ok_ordered [OF assms(1)])
  then show "user_key e \<le> bm_last_key m" using ordered_last_key [OF ord assms(2)] assms(1) by (simp add: block_ok_def)
  have "sorted (map user_key ?es)" by (rule ordered_keys [OF ord])
  then have "user_key (hd ?es) \<le> user_key e" using assms(2) by (cases ?es) auto
  then show "bm_first_key m \<le> user_key e" using assms(1) by (simp add: block_ok_def)
qed

lemma blocks_ordered:
  assumes "\<forall>m \<in> set ms. block_ok r data m" "sorted_wrt (\<lambda>a b. bm_last_key a < bm_first_key b) ms"
  shows "ordered (concat (map (block_entries r data) ms))"
  using assms
proof (induction ms)
  case (Cons m ms)
  have "InternalLess x y" if x: "x \<in> set (block_entries r data m)" and y: "y \<in> set (concat (map (block_entries r data) ms))" for x y
  proof -
    obtain m' where m': "m' \<in> set ms" "y \<in> set (block_entries r data m')" using y by auto
    have "user_key x \<le> bm_last_key m" using block_key_range(2) [of r data m x] Cons.prems(1) x by simp
    also have "\<dots> < bm_first_key m'" using Cons.prems(2) m'(1) by simp
    also have "\<dots> \<le> user_key y" using block_key_range(1) [of r data m' y] Cons.prems(1) m' by simp
    finally show ?thesis by (simp add: InternalLess_iff)
  qed
  moreover have "ordered (block_entries r data m)" using Cons.prems(1) block_ok_ordered by simp
  moreover have "ordered (concat (map (block_entries r data) ms))" using Cons by simp
  ultimately show ?case by (simp add: sorted_wrt_append)
qed simp

lemma table_entries_ordered: "reader_ok r data \<Longrightarrow> ordered (table_entries r data)"
  unfolding table_entries_def reader_ok_def by (blast intro: blocks_ordered)

section \<open>Reading blocks is correct with and without the cache\<close>

lemma ts_ok_simps [simp]:
  "ts_ok r data (count_probe ts) = ts_ok r data ts" "ts_ok r data (count_read ts) = ts_ok r data ts"
  "ts_ok r data (count_decode ts) = ts_ok r data ts"
  "ts_file (count_probe ts) = ts_file ts" "ts_cache (count_probe ts) = ts_cache ts"
  "ts_file (count_read ts) = ts_file ts" "ts_cache (count_read ts) = ts_cache ts"
  "ts_file (count_decode ts) = ts_file ts" "ts_cache (count_decode ts) = ts_cache ts"
  by (simp_all add: ts_ok_def count_probe_def count_read_def count_decode_def)

lemma cache_ok_subset:
  "cache_ok r data c \<Longrightarrow> bc_inv c' \<Longrightarrow> set (bc_lru c') \<subseteq> set (bc_lru c) \<Longrightarrow> cache_ok r data c'"
  by (auto simp: cache_ok_def)

lemma Lookup_cache_ok:
  assumes ok: "cache_ok r data c"
  shows "cache_ok r data (snd (Lookup key c))"
proof (rule cache_ok_subset [OF ok])
  have inv: "bc_inv c" using ok by (simp add: cache_ok_def)
  then show "bc_inv (snd (Lookup key c))" by (rule Lookup_inv)
  show "set (bc_lru (snd (Lookup key c))) \<subseteq> set (bc_lru c)"
    by (auto simp: Lookup_def Let_def splice_front_keys)
qed

lemma fitting_prefix_subset: "set (fitting_prefix room es) \<subseteq> set es"
  by (induction es arbitrary: room) auto

lemma Insert_cache_ok:
  assumes ok: "cache_ok r data c" "reader_ok r data" and m: "m \<in> set (sr_blocks r)"
  shows "cache_ok r data (Insert \<lparr>table_number = sr_table_number r, block_offset = bm_offset m\<rparr>
           (Some (block_entries r data m)) charge c)" (is "cache_ok r data (Insert ?k (Some ?b) charge c)")
proof (cases "bc_capacity c = 0 \<or> charge > bc_capacity c \<or> ?k \<in> set (bc_index c)")
  case True
  then have "set (bc_lru (Insert ?k (Some ?b) charge c)) \<subseteq> set (bc_lru c)" by (auto simp: Insert_def splice_front_keys)
  then show ?thesis using ok(1) by (intro cache_ok_subset [OF ok(1)] Insert_inv) (auto simp: cache_ok_def)
next
  case False
  have inv: "bc_inv c" using ok(1) by (simp add: cache_ok_def)
  then have fresh: "?k \<notin> ce_key ` set (bc_lru c)" using False by (simp add: bc_inv_def)
  have "bm_offset m' = bm_offset m \<Longrightarrow> m' = m" if "m' \<in> set (sr_blocks r)" for m'
    using ok(2) m that by (auto simp: reader_ok_def distinct_map inj_on_def)
  then show ?thesis
    using Insert_new [OF inv _ _ fresh, of charge ?b] False ok(1) fitting_prefix_subset
    by (fastforce simp: cache_ok_def not_less)
qed

lemma DecodeDataBlock_Nil: "DecodeDataBlock [] v = Err kCorruption"
  by (simp add: DecodeDataBlock_def DecodeDataBlockV1_def DecodeDataBlockV2_def ParseV2BlockLayout_def)

text \<open>Whatever the file holds, a block that is returned has passed every check of \<open>ReadBlock\<close>.\<close>

lemma load_block_cases:
  assumes run: "load_block charge r m b ts = (x, ts')"
  shows "ra_data (ts_file ts') = ra_data (ts_file ts) \<and>
     (reads_ok (ra_reads (ts_file ts)) \<longrightarrow> reads_ok (ra_reads (ts_file ts'))) \<and>
     (x = Ok (block_entries r (ra_data (ts_file ts)) m) \<and> block_ok r (ra_data (ts_file ts)) m \<and>
        ts_cache ts' = (if b then map_option (Insert \<lparr>table_number = sr_table_number r, block_offset = bm_offset m\<rparr>
          (Some (block_entries r (ra_data (ts_file ts)) m)) (charge (block_entries r (ra_data (ts_file ts)) m))) (ts_cache ts)
          else ts_cache ts) \<or>
      (\<exists>c. x = Err c) \<and> ts_cache ts' = ts_cache ts \<and>
        (\<not> block_ok r (ra_data (ts_file ts)) m \<or> x = Err kIOError \<and> \<not> reads_ok (ra_reads (ts_file ts))))"
proof -
  let ?d = "ra_data (ts_file ts)"
  let ?o = "unat (bm_offset m)" and ?n = "unat (bm_size m)"
  obtain y f where rd: "ReadExactly ?o ?n (ts_file ts) = (y, f)" by fastforce
  note out = ReadExactly_outcomes [OF rd]
  consider (ok) "y = Ok (take ?n (drop ?o ?d))" "?n = 0 \<or> ?o + ?n \<le> length ?d"
    | (io) "y = Err kIOError" "\<not> reads_ok (ra_reads (ts_file ts))"
    | (past) "y = Err kCorruption" "length ?d < ?o + ?n"
    using out by blast
  then show ?thesis
  proof cases
    case io
    then show ?thesis using run rd out by (auto simp: load_block_def on_file_def op_bind_def)
  next
    case past
    then have "\<not> block_ok r ?d m" by (simp add: block_ok_def)
    with past show ?thesis using run rd out by (auto simp: load_block_def on_file_def op_bind_def)
  next
    case ok
    let ?bytes = "take ?n (drop ?o ?d)"
    have in_range: "?o + ?n \<le> length ?d" if "DecodeDataBlock ?bytes (sr_version r) = Ok es" for es
      using ok(2) that DecodeDataBlock_Nil by (cases "?n = 0") auto
    show ?thesis
    proof (cases "DecodeDataBlock ?bytes (sr_version r)")
      case (Ok es)
      have es: "block_entries r ?d m = es" by (simp add: block_entries_def Ok)
      have bok: "block_ok r ?d m \<longleftrightarrow> es \<noteq> [] \<and> user_key (hd es) = bm_first_key m \<and>
          user_key (last es) = bm_last_key m \<and> \<not> list_ex (\<lambda>e. sequence e = 0) es"
        using in_range [OF Ok] Ok by (auto simp: block_ok_def es list_ex_iff)
      show ?thesis
      proof (cases "block_ok r ?d m")
        case True
        then show ?thesis using run rd out ok(1) Ok bok
          by (auto simp: load_block_def on_file_def op_bind_def op_modify_def op_of_def op_simps es
              count_read_def count_decode_def split: option.splits)
      next
        case False
        then have "x = Err kCorruption \<and> ts' = count_decode (count_read (ts\<lparr>ts_file := f\<rparr>))"
          using run rd ok(1) Ok bok
          by (auto simp: load_block_def on_file_def op_bind_def op_modify_def op_of_def op_simps split: if_splits)
        then show ?thesis using out False by simp
      qed
    next
      case (Err c)
      then have "\<not> block_ok r ?d m" by (simp add: block_ok_def)
      moreover have "x = Err c \<and> ts' = count_read (ts\<lparr>ts_file := f\<rparr>)"
        using run rd ok(1) Err by (simp add: load_block_def on_file_def op_bind_def op_modify_def op_of_def)
      ultimately show ?thesis using out by simp
    qed (use DecodeDataBlock_safe in simp)
  qed
qed

text \<open>Through the cache the same block comes back, and only a failed system call is an error.\<close>

lemma ReadBlock_ok:
  assumes r: "reader_ok r data" and m: "m \<in> set (sr_blocks r)" and ts: "ts_ok r data ts"
    and run: "ReadBlock charge r m b ts = (x, ts')"
  shows "ts_ok r data ts' \<and> (reads_ok (ra_reads (ts_file ts)) \<longrightarrow> reads_ok (ra_reads (ts_file ts'))) \<and>
     (x = Ok (block_entries r data m) \<or> x = Err kIOError \<and> \<not> reads_ok (ra_reads (ts_file ts)))"
proof -
  let ?key = "\<lparr>table_number = sr_table_number r, block_offset = bm_offset m\<rparr>"
  have bok: "block_ok r data m" using r m by (simp add: reader_ok_def)
  have load: ?thesis if l: "load_block charge r m b t = (x, ts')" and t: "ts_ok r data t" "ts_file t = ts_file ts" for t
  proof -
    have d: "ra_data (ts_file t) = data" using t by (simp add: ts_ok_def)
    note lb = load_block_cases [OF l, unfolded d]
    have "ts_ok r data ts'"
    proof (cases "x = Ok (block_entries r data m)")
      case True
      then have "ts_cache ts' = (if b then map_option (Insert ?key (Some (block_entries r data m))
          (charge (block_entries r data m))) (ts_cache t) else ts_cache t)" using lb by auto
      then show ?thesis using lb t(1) d Insert_cache_ok [OF _ r m] by (auto simp: ts_ok_def)
    next
      case False
      then have "ts_cache ts' = ts_cache t" using lb by blast
      then show ?thesis using lb t(1) d by (simp add: ts_ok_def)
    qed
    then show ?thesis using lb bok t(2) by auto
  qed
  show ?thesis
  proof (cases "\<exists>c. ts_cache ts = Some c \<and> b")
    case False
    then show ?thesis using load [OF _ ts refl] run by (auto simp: ReadBlock_def split: option.splits)
  next
    case True
    then obtain c where c: "ts_cache ts = Some c" "b" by blast
    have cok: "cache_ok r data c" using ts c by (simp add: ts_ok_def)
    obtain h c' where l: "Lookup ?key c = (h, c')" by fastforce
    have "cache_ok r data c'" using Lookup_cache_ok [OF cok, of ?key] l by simp
    then have t: "ts_ok r data (ts\<lparr>ts_cache := Some c'\<rparr>)" using ts by (simp add: ts_ok_def)
    show ?thesis
    proof (cases h)
      case None
      then show ?thesis using load [OF _ t] run c l by (simp add: ReadBlock_def)
    next
      case (Some block)
      have inv: "bc_inv c" using cok by (simp add: cache_ok_def)
      have "\<not> (bc_capacity c = 0 \<or> ?key \<notin> ce_key ` set (bc_lru c))" using Lookup_miss [OF inv, of ?key] l Some by simp
      then obtain e where e: "e \<in> set (bc_lru c)" "ce_key e = ?key" "bc_capacity c \<noteq> 0" by force
      have "block = ce_block e" using Lookup_hit(1) [OF inv e(3,1)] l Some e(2) by simp
      also have "\<dots> = block_entries r data m" using cok e m by (simp add: cache_ok_def)
      finally show ?thesis using run c l Some t by (auto simp: ReadBlock_def)
    qed
  qed
qed

section \<open>Point reads return the visible version\<close>

definition lookup_result :: "InternalEntry list \<Rightarrow> bytes \<Rightarrow> u64 \<Rightarrow> InternalEntry result" where
  "lookup_result es key n = (case find_version es key n of None \<Rightarrow> Err kNotFound | Some e \<Rightarrow> Ok e)"

lemma lookup_result_skip: "\<forall>e \<in> set xs. user_key e \<noteq> key \<Longrightarrow> lookup_result (xs @ ys) key n = lookup_result ys key n"
  by (simp add: lookup_result_def find_version_append find_version_other_keys)

lemma lookup_result_stop: "\<forall>e \<in> set ys. user_key e \<noteq> key \<Longrightarrow> lookup_result (xs @ ys) key n = lookup_result xs key n"
  by (simp add: lookup_result_def find_version_append find_version_other_keys split: option.splits)

lemma scan_versions_lookup:
  "ordered es \<Longrightarrow> \<forall>e \<in> set es. key \<le> user_key e \<Longrightarrow> scan_versions es key n = lookup_result es key n"
proof (induction es)
  case (Cons e es)
  show ?case
  proof (cases "user_key e = key")
    case False
    then have "\<forall>x \<in> set (e # es). user_key x \<noteq> key" using Cons.prems by (auto simp: InternalLess_iff)
    then show ?thesis using False lookup_result_skip [of "e # es" key "[]" n] by (simp add: lookup_result_def find_version_def)
  next
    case True
    with Cons show ?thesis by (auto simp: lookup_result_def find_version_def)
  qed
qed (simp add: lookup_result_def find_version_def)

lemma scan_block:
  assumes "ordered es"
  shows "scan_versions (dropWhile (\<lambda>a. user_key a < key) es) key n = lookup_result es key n"
proof -
  have sorted: "sorted (map user_key es)" by (rule ordered_keys [OF assms])
  have ge: "\<forall>e \<in> set (dropWhile (\<lambda>a. user_key a < key) es). key \<le> user_key e"
    using sorted by (induction es) (auto intro: order_trans)
  have "ordered (dropWhile (\<lambda>a. user_key a < key) es)"
    using assms by (metis dropWhile_eq_drop sorted_wrt_drop)
  then have "scan_versions (dropWhile (\<lambda>a. user_key a < key) es) key n =
      lookup_result (dropWhile (\<lambda>a. user_key a < key) es) key n"
    using ge by (rule scan_versions_lookup)
  also have "\<dots> = lookup_result (takeWhile (\<lambda>a. user_key a < key) es @ dropWhile (\<lambda>a. user_key a < key) es) key n"
    by (rule lookup_result_skip [symmetric]) (auto dest: set_takeWhileD)
  finally show ?thesis by simp
qed

text \<open>Only one block can hold a key.\<close>

lemma lookup_in_blocks:
  assumes ok: "\<forall>m \<in> set ms. block_ok r data m" "sorted_wrt (\<lambda>a b. bm_last_key a < bm_first_key b) ms"
  shows "lookup_result (concat (map (block_entries r data) ms)) key n =
    (case dropWhile (\<lambda>b. bm_last_key b < key) ms of
       [] \<Rightarrow> Err kNotFound
     | m # _ \<Rightarrow> if key < bm_first_key m then Err kNotFound else lookup_result (block_entries r data m) key n)"
  using assms
proof (induction ms)
  case (Cons m ms)
  let ?es = "block_entries r data m" and ?rest = "concat (map (block_entries r data) ms)"
  have bok: "block_ok r data m" using Cons.prems by simp
  have later: "bm_last_key m < user_key e" if e: "e \<in> set ?rest" for e
  proof -
    obtain m' where m': "m' \<in> set ms" "e \<in> set (block_entries r data m')" using e by auto
    then have "bm_last_key m < bm_first_key m'" using Cons.prems by simp
    also have "\<dots> \<le> user_key e" using block_key_range(1) [of r data m' e] m' Cons.prems by simp
    finally show ?thesis .
  qed
  show ?case
  proof (cases "bm_last_key m < key")
    case True
    have "\<forall>e \<in> set ?es. user_key e \<noteq> key" using block_key_range(2) [OF bok] True by (auto simp: not_less [symmetric])
    then show ?thesis using Cons True by (simp add: lookup_result_skip)
  next
    case False
    then have rest: "\<forall>e \<in> set ?rest. user_key e \<noteq> key" using later by auto
    have "lookup_result (?es @ ?rest) key n = lookup_result ?es key n" by (rule lookup_result_stop [OF rest])
    moreover have "lookup_result ?es key n = Err kNotFound" if "key < bm_first_key m"
    proof -
      have "\<forall>e \<in> set ?es. user_key e \<noteq> key" using block_key_range(1) [OF bok] that by (auto simp: not_less [symmetric])
      then show ?thesis by (simp add: lookup_result_def find_version_other_keys)
    qed
    ultimately show ?thesis using False by simp
  qed
qed (simp add: lookup_result_def find_version_def)

text \<open>
  When the cache is disabled, a version-2 block is searched in its encoded form. That search is only
  right for blocks in which no key's versions cross a restart point (\<open>no_straddle\<close>).
\<close>

definition encoded_search_ok :: "SSTableReader \<Rightarrow> bytes \<Rightarrow> bool" where
  "encoded_search_ok r data \<longleftrightarrow> (\<forall>m \<in> set (sr_blocks r). \<exists>i.
     EncodeDataBlock (block_entries r data m) i = Ok (take (unat (bm_size m)) (drop (unat (bm_offset m)) data)) \<and>
     no_straddle (unat i) (block_entries r data m))"

lemma FindInV2Block_ok:
  assumes r: "reader_ok r data" "encoded_search_ok r data" and m: "m \<in> set (sr_blocks r)" and ts: "ts_ok r data ts"
    and run: "FindInV2Block m key n ts = (x, ts')"
  shows "ts_ok r data ts' \<and> (x = lookup_result (block_entries r data m) key n \<or>
     x = Err kIOError \<and> \<not> reads_ok (ra_reads (ts_file ts)))"
proof -
  let ?o = "unat (bm_offset m)" and ?n = "unat (bm_size m)"
  have d: "ra_data (ts_file ts) = data" using ts by (simp add: ts_ok_def)
  have bok: "block_ok r data m" using r(1) m by (simp add: reader_ok_def)
  obtain i where i: "EncodeDataBlock (block_entries r data m) i = Ok (take ?n (drop ?o data))"
    "no_straddle (unat i) (block_entries r data m)" using r(2) m by (auto simp: encoded_search_ok_def)
  have find: "FindDataBlockEntry (take ?n (drop ?o data)) kSstableVersion key n = lookup_result (block_entries r data m) key n"
    using FindDataBlockEntry_visible [OF i(1) _ i(2)] bok by (simp add: lookup_result_def block_ok_def)
  obtain y f where rd: "ReadExactly ?o ?n (ts_file ts) = (y, f)" by fastforce
  have t: "ts_ok r data (ts\<lparr>ts_file := f\<rparr>)"
    using ReadExactly_outcomes [OF rd] ts by (simp add: ts_ok_def)
  consider "y = Ok (take ?n (drop ?o data))" | "y = Err kIOError" "\<not> reads_ok (ra_reads (ts_file ts))"
    using ReadExactly_outcomes [OF rd] bok d by (auto simp: block_ok_def)
  then show ?thesis
    using run rd t find by cases (auto simp: FindInV2Block_def on_file_def op_bind_def op_modify_def op_of_def)
qed

lemma Table_Get_ok:
  assumes r: "reader_ok r data" and ts: "ts_ok r data ts"
    and search: "sr_version r = kSstableVersion \<Longrightarrow> \<not> cache_enabled (ts_cache ts) \<Longrightarrow> encoded_search_ok r data"
    and run: "Table_Get charge r key n ts = (x, ts')"
  shows "ts_ok r data ts' \<and> (x = lookup_result (table_entries r data) key n \<or>
     x = Err kIOError \<and> \<not> reads_ok (ra_reads (ts_file ts)))"
proof -
  note blocks = lookup_in_blocks [of "sr_blocks r" r data key n]
  have ok: "\<forall>m \<in> set (sr_blocks r). block_ok r data m" "sorted_wrt (\<lambda>a b. bm_last_key a < bm_first_key b) (sr_blocks r)"
    using r by (simp_all add: reader_ok_def)
  show ?thesis
  proof (cases "dropWhile (\<lambda>b. bm_last_key b < key) (sr_blocks r)")
    case Nil
    show ?thesis using run ts blocks [OF ok]
      by (auto simp: Nil Table_Get_def op_bind_def op_modify_def op_simps table_entries_def)
  next
    case (Cons m ms)
    have m: "m \<in> set (sr_blocks r)" using Cons by (metis list.set_intros(1) set_dropWhileD)
    show ?thesis
    proof (cases "key < bm_first_key m")
      case True
      then show ?thesis using run ts blocks [OF ok] Cons
        by (auto simp: Table_Get_def op_bind_def op_modify_def op_simps table_entries_def)
    next
      case False
      have all: "lookup_result (table_entries r data) key n = lookup_result (block_entries r data m) key n"
        using blocks [OF ok] Cons False by (simp add: table_entries_def)
      have p: "ts_ok r data (count_probe ts)" using ts by simp
      show ?thesis
      proof (cases "sr_version r = kSstableVersion \<and> \<not> cache_enabled (ts_cache ts)")
        case True
        then have "FindInV2Block m key n (count_probe ts) = (x, ts')"
          using run Cons False by (simp add: Table_Get_def op_bind_def op_modify_def)
        then show ?thesis using FindInV2Block_ok [OF r search m p] True all by simp
      next
        case slow: False
        obtain y t where y: "ReadBlock charge r m True (count_probe ts) = (y, t)" by fastforce
        have "(x, ts') = (case y of Ok es \<Rightarrow> scan_versions (dropWhile (\<lambda>a. user_key a < key) es) key n
            | Err c \<Rightarrow> Err c | UB \<Rightarrow> UB, t)"
          using run Cons False slow y
          by (auto simp: Table_Get_def op_bind_def op_modify_def op_of_def split: result.splits)
        moreover have "scan_versions (dropWhile (\<lambda>a. user_key a < key) (block_entries r data m)) key n =
            lookup_result (block_entries r data m) key n"
          using scan_block block_ok_ordered ok(1) m by blast
        ultimately show ?thesis using ReadBlock_ok [OF r m p y] all by auto
      qed
    qed
  qed
qed

end
