(* ===== verification/Sstable_Table.thy ===== *)
theory Sstable_Table
  imports Sstable_Reader
begin

text \<open>
  Builder and reader together: a table written by \<open>SSTableBuilder\<close> is accepted by \<open>SSTableReader::Open\<close> and
  \<open>ValidateAndGetProperties\<close>, and its blocks hold the entries that were added.
\<close>

section \<open>Telling the footer versions apart\<close>

text \<open>
  \<open>Open\<close> first tries the last 36 bytes as a version-1 footer. Of a version-2 footer these bytes begin with
  the high half of the index size, which is the version-1 number only for an index of 4 GiB or more.
\<close>

lemma drop_le64_high:
  assumes "n < 2 ^ 32"
  shows "drop 4 (le64 (of_nat n)) = le32 0"
proof -
  have "(ucast (drop_bit (32 + k) (of_nat n :: u64)) :: byte) = 0" for k
  proof -
    have u: "unat (of_nat n :: u64) = n" using assms by (intro unat_of_nat_u64) (simp add: max_u64_def)
    have "(2 :: nat) ^ 32 \<le> 2 ^ (32 + k)" by (rule power_increasing) simp_all
    then have "n < 2 ^ (32 + k)" by (rule order_less_le_trans [OF assms])
    then have "unat (drop_bit (32 + k) (of_nat n :: u64)) = 0"
      unfolding unat_drop_bit_eq u by (simp only: drop_bit_eq_div div_less)
    then show ?thesis by (simp add: unat_eq_zero)
  qed
  from this [of 0] this [of 8] this [of 16] this [of 24] show ?thesis
    by (simp add: PutFixed64_def PutFixed32_def)
qed

lemma v2_footer_not_v1:
  assumes "length idx < 2 ^ 32"
  shows "DecodeFooter (drop 16 (EncodeFooter (footer_of off idx props))) = Err kCorruption"
proof -
  let ?f = "footer_of off idx props"
  let ?tail = "le64 (ft_properties_offset ?f) @ le64 (ft_properties_size ?f) @ le64 kSstableMagic @
    le32 (Crc32c (footer_body ?f)) @ le32 0"
  have "drop 16 (EncodeFooter ?f) = drop 4 (le64 (of_nat (length idx))) @ ?tail"
    by (simp add: EncodeFooter_layout footer_body_def footer_of_def)
  then have d: "drop 16 (EncodeFooter ?f) = le32 0 @ ?tail" using drop_le64_high [OF assms] by simp
  have "length (drop 16 (EncodeFooter ?f)) = kSstableV1FooterSize"
    by (simp add: length_EncodeFooter kSstableFooterSize_def kSstableV1FooterSize_def)
  moreover have "Get32 (drop 16 (EncodeFooter ?f)) 0 = 0" unfolding d by (simp add: slice_simps)
  ultimately show ?thesis by (simp add: DecodeFooter_def Let_def kSstableVersionV1_def)
qed

section \<open>The blocks of a written table\<close>

lemma metas_blocks:
  assumes "data = pre @ chunk_bytes r cs @ post" "length data \<le> max_u64" "sr_version rd = kSstableVersion"
    "\<forall>c \<in> set cs. chunk_ok r c" "\<forall>e \<in> set (concat cs). sequence e \<noteq> 0"
  shows "map (block_entries rd data) (metas r (length pre) cs) = cs \<and>
     (\<forall>m \<in> set (metas r (length pre) cs). block_ok rd data m \<and> unat (bm_offset m) + unat (bm_size m) \<le> length pre + length (chunk_bytes r cs) \<and>
        length pre \<le> unat (bm_offset m) \<and> 0 < unat (bm_size m)) \<and>
     distinct (map bm_offset (metas r (length pre) cs))"
  using assms
proof (induction cs arbitrary: pre)
  case (Cons c cs)
  let ?b = "block_of r c"
  note c = chunk_ok_facts [of r c]
  have cok: "chunk_ok r c" using Cons.prems by simp
  have le: "length pre \<le> max_u64" "length ?b \<le> max_u64" using Cons.prems(1,2) by auto
  define m where "m = \<lparr>bm_first_key = user_key (hd c), bm_last_key = user_key (last c),
    bm_offset = of_nat (length pre), bm_size = of_nat (length ?b)\<rparr>"
  have dec: "DecodeDataBlock ?b kSstableVersion = Ok c"
    using DecodeEncodeDataBlock [OF c(1) [OF cok]] Cons.prems(5) by simp
  then have ne: "?b \<noteq> []" using DecodeDataBlock_Nil by auto
  have sl: "take (unat (bm_size m)) (drop (unat (bm_offset m)) data) = ?b"
    using le Cons.prems(1) by (simp add: m_def)
  have ents: "block_entries rd data m = c" using sl dec Cons.prems(3) by (simp add: block_entries_def)
  have bok: "block_ok rd data m"
    using sl dec ents le c(3) [OF cok] Cons.prems(1,3,5) by (auto simp: block_ok_def m_def)
  have ih: "map (block_entries rd data) (metas r (length (pre @ ?b)) cs) = cs \<and>
     (\<forall>m \<in> set (metas r (length (pre @ ?b)) cs). block_ok rd data m \<and>
        unat (bm_offset m) + unat (bm_size m) \<le> length (pre @ ?b) + length (chunk_bytes r cs) \<and>
        length (pre @ ?b) \<le> unat (bm_offset m) \<and> 0 < unat (bm_size m)) \<and>
     distinct (map bm_offset (metas r (length (pre @ ?b)) cs))"
    by (rule Cons.IH) (use Cons.prems in auto)
  have "of_nat (length pre) \<noteq> bm_offset m'" if "m' \<in> set (metas r (length (pre @ ?b)) cs)" for m'
  proof
    assume "of_nat (length pre) = bm_offset m'"
    then have "unat (bm_offset m') = length pre" using le by (metis unat_of_nat_u64)
    moreover have "length (pre @ ?b) \<le> unat (bm_offset m')" using ih that by blast
    ultimately show False using ne by simp
  qed
  then have fresh: "bm_offset m \<notin> bm_offset ` set (metas r (length (pre @ ?b)) cs)" by (auto simp: m_def)
  have split: "metas r (length pre) (c # cs) = m # metas r (length (pre @ ?b)) cs" by (simp add: m_def)
  have m: "unat (bm_offset m) = length pre" "unat (bm_size m) = length ?b" using le by (simp_all add: m_def)
  show ?case unfolding split using ih ents bok m ne fresh by auto
qed simp

lemma metas_sorted:
  assumes "\<forall>c \<in> set cs. c \<noteq> []" "chunks_sep cs"
  shows "sorted_wrt (\<lambda>a b. bm_last_key a < bm_first_key b) (metas r off cs)"
proof -
  have key: "m \<in> set (metas r off cs) \<Longrightarrow> \<exists>c \<in> set cs. bm_first_key m = user_key (hd c)" for m off cs
    by (induction cs arbitrary: off) auto
  show ?thesis using assms
  proof (induction cs arbitrary: off)
    case (Cons c cs)
    have "user_key (last c) < bm_first_key m" if m: "m \<in> set (metas r (off + length (block_of r c)) cs)" for m
    proof -
      obtain d where d: "d \<in> set cs" "bm_first_key m = user_key (hd d)" using key [OF m] by blast
      then show ?thesis using Cons.prems by (auto simp: chunks_sep_def)
    qed
    moreover have "chunks_sep cs" using Cons.prems(2) by (simp add: chunks_sep_def)
    ultimately show ?case using Cons by simp
  qed simp
qed

lemma metas_index_ok:
  assumes "\<forall>c \<in> set cs. chunk_ok r c" "chunks_sep cs" "previous \<noteq> None \<Longrightarrow> cs \<noteq> [] \<Longrightarrow> the previous < user_key (hd (hd cs))"
  shows "index_ok previous (metas r off cs)"
  using assms
proof (induction cs arbitrary: off previous)
  case (Cons c cs)
  note c = chunk_ok_facts [of r c]
  have cok: "chunk_ok r c" using Cons.prems by simp
  have "user_key (hd c) \<le> user_key (last c)" using ordered_last_key [OF c(2) [OF cok]] c(3) [OF cok] by simp
  moreover have "index_ok (Some (user_key (last c))) (metas r (off + length (block_of r c)) cs)"
  proof (rule Cons.IH)
    show "the (Some (user_key (last c))) < user_key (hd (hd cs))" if "cs \<noteq> []"
    proof -
      have "hd cs \<in> set cs" using that by simp
      moreover from this have "hd cs \<noteq> []" using Cons.prems(1) chunk_ok_facts(3) [of r "hd cs"] by simp
      ultimately show ?thesis using Cons.prems(2) c(3) [OF cok] by (auto simp: chunks_sep_def)
    qed
  qed (use Cons.prems in \<open>auto simp: chunks_sep_def\<close>)
  ultimately show ?case using Cons.prems(3) by (cases previous) auto
qed simp

section \<open>Opening a written table\<close>

lemma index_length: "EncodeIndex bs = Ok idx \<Longrightarrow> length idx < 2 ^ 32 \<Longrightarrow> length bs \<le> max_u32"
proof -
  assume "EncodeIndex bs = Ok idx" "length idx < 2 ^ 32"
  then have "length (index_body bs) < 2 ^ 32" by (auto simp: EncodeIndex_eq split: if_splits)
  moreover have "length bs \<le> length (concat (map index_entry_bytes bs))"
    by (induction bs) (simp_all add: length_index_entry_bytes)
  ultimately show ?thesis by (simp add: index_body_def max_u32_def)
qed

text \<open>Reading one section of the file.\<close>

lemma read_section:
  assumes "reads_ok (ra_reads f)" "ra_data f = pre @ sec @ post" "off = length pre" "n = length sec"
  obtains f' where "ReadExactly off n f = (Ok sec, f')" "reads_ok (ra_reads f')" "ra_data f' = ra_data f"
  using ReadExactly_in_range [OF assms(1), of off n] assms(2-4) by auto

lemma read_footer_image:
  assumes f: "ra_data f = table_image r cs idx props" "reads_ok (ra_reads f)" and idx: "length idx < 2 ^ 32"
  obtains f' where "read_footer (FileSize f) f = (Ok (footer_of (length (chunk_bytes r cs)) idx props), f')"
    "reads_ok (ra_reads f')" "ra_data f' = ra_data f"
proof -
  let ?ft = "footer_of (length (chunk_bytes r cs)) idx props"
  let ?body = "chunk_bytes r cs @ idx @ props"
  have len: "length (EncodeFooter ?ft) = 52" by (simp add: length_EncodeFooter kSstableFooterSize_def)
  have data: "ra_data f = ?body @ EncodeFooter ?ft" by (simp add: f table_image_def)
  then have size: "FileSize f = length ?body + 52" using len by (simp add: FileSize_def)
  have "ra_data f = (?body @ take 16 (EncodeFooter ?ft)) @ drop 16 (EncodeFooter ?ft) @ []" by (simp add: data)
  then obtain f1 where f1: "ReadExactly (FileSize f - kSstableV1FooterSize) kSstableV1FooterSize f = (Ok (drop 16 (EncodeFooter ?ft)), f1)"
    "reads_ok (ra_reads f1)" "ra_data f1 = ra_data f"
    by (rule read_section [OF f(2), where off = "FileSize f - kSstableV1FooterSize" and n = kSstableV1FooterSize])
       (simp_all add: size len kSstableV1FooterSize_def)
  have "ra_data f1 = ?body @ EncodeFooter ?ft @ []" by (simp add: f1(3) data)
  then obtain f2 where f2: "ReadExactly (FileSize f - kSstableFooterSize) kSstableFooterSize f1 = (Ok (EncodeFooter ?ft), f2)"
    "reads_ok (ra_reads f2)" "ra_data f2 = ra_data f1"
    by (rule read_section [OF f1(2), where off = "FileSize f - kSstableFooterSize" and n = kSstableFooterSize])
       (simp_all add: size len kSstableFooterSize_def)
  have "DecodeFooter (EncodeFooter ?ft) = Ok ?ft" by (rule DecodeEncodeFooter) (simp add: footer_of_def)
  then have "read_footer (FileSize f) f = (Ok ?ft, f2)"
    using f1(1) f2(1) v2_footer_not_v1 [OF idx] size
    by (simp add: read_footer_def op_bind_def op_of_def kSstableFooterSize_def)
  then show thesis using that f2 f1(3) by simp
qed

lemma Open_image:
  assumes tab: "table_ok r cs idx props p" and f: "ra_data f = table_image r cs idx props" "reads_ok (ra_reads f)"
    and size: "length (table_image r cs idx props) \<le> max_u64" and idx: "length idx < 2 ^ 32"
    and seq: "\<forall>e \<in> set (concat cs). sequence e \<noteq> 0"
  obtains rd f' where "Open number f = (Ok rd, f')" "reads_ok (ra_reads f')" "ra_data f' = ra_data f"
    "rd = \<lparr>sr_file_size = of_nat (FileSize f), sr_version = kSstableVersion, sr_blocks = metas r 0 cs,
           sr_properties = Some p, sr_table_number = number\<rparr>"
    "reader_ok rd (ra_data f)" "table_entries rd (ra_data f) = concat cs"
proof -
  let ?L = "length (chunk_bytes r cs)"
  let ?ft = "footer_of ?L idx props"
  have len: "length (EncodeFooter ?ft) = 52" by (simp add: length_EncodeFooter kSstableFooterSize_def)
  have data: "ra_data f = chunk_bytes r cs @ idx @ props @ EncodeFooter ?ft" by (simp add: f table_image_def)
  have fs: "FileSize f = ?L + length idx + length props + 52" by (simp add: FileSize_def data len)
  have le: "?L + length idx + length props + 52 \<le> max_u64" using size by (simp add: table_image_def len)
  have cs: "cs \<noteq> []" "\<forall>c \<in> set cs. chunk_ok r c" "chunks_sep cs" "EncodeIndex (metas r 0 cs) = Ok idx" "EncodeProperties p = Ok props"
    using tab by (simp_all add: table_ok_def)
  obtain f1 where f1: "read_footer (FileSize f) f = (Ok ?ft, f1)" "reads_ok (ra_reads f1)" "ra_data f1 = ra_data f"
    using read_footer_image [OF f idx] by blast
  define rd where "rd = \<lparr>sr_file_size = of_nat (FileSize f), sr_version = kSstableVersion, sr_blocks = metas r 0 cs,
    sr_properties = Some p, sr_table_number = number\<rparr>"
  have "ra_data f1 = chunk_bytes r cs @ idx @ (props @ EncodeFooter ?ft)" by (simp add: f1(3) data)
  then obtain f2 where f2: "ReadExactly ?L (length idx) f1 = (Ok idx, f2)" "reads_ok (ra_reads f2)" "ra_data f2 = ra_data f1"
    by (rule read_section [OF f1(2)]) simp_all
  have "ra_data f2 = (chunk_bytes r cs @ idx) @ props @ EncodeFooter ?ft" by (simp add: f2(3) f1(3) data)
  then obtain f3 where f3: "ReadExactly (?L + length idx) (length props) f2 = (Ok props, f3)" "reads_ok (ra_reads f3)" "ra_data f3 = ra_data f2"
    by (rule read_section [OF f2(2)]) simp_all
  have dec: "DecodeIndex idx = Ok (metas r 0 cs)" "DecodeProperties props = Ok p"
    using DecodeEncodeIndex [OF cs(4)] metas_index_ok [OF cs(2,3), of None 0] index_length [OF cs(4) idx] DecodeEncodeProperties [OF cs(5)] by simp_all
  have u: "unat (ft_index_offset ?ft) = ?L" "unat (ft_index_size ?ft) = length idx"
    "unat (ft_properties_offset ?ft) = ?L + length idx" "unat (ft_properties_size ?ft) = length props"
    using le by (simp_all add: footer_of_def del: of_nat_add)
  have send: "(of_nat (FileSize f) - of_nat kSstableFooterSize :: u64) = of_nat (?L + length idx + length props)"
    by (simp add: fs kSstableFooterSize_def)
  have lt: "\<not> (of_nat b :: u64) < of_nat a" if "a \<le> b" "b \<le> max_u64" for a b
    using that by (simp add: word_less_nat_alt)
  have "of_nat (?L + length idx + length props) - ft_index_offset ?ft = of_nat (length idx + length props)"
    "of_nat (?L + length idx + length props) - ft_properties_offset ?ft = of_nat (length props)"
    by (simp_all add: footer_of_def)
  then have sec: "sections_ok ?ft (of_nat (?L + length idx + length props))"
    using lt le by (simp add: sections_ok_def footer_of_def kSstableVersion_def kSstableVersionV1_def del: of_nat_add)
       (simp add: add.assoc)
  have blocks: "map (block_entries rd (ra_data f)) (metas r 0 cs) = cs" "\<forall>m \<in> set (metas r 0 cs). block_ok rd (ra_data f) m"
    "\<forall>m \<in> set (metas r 0 cs). unat (bm_offset m) + unat (bm_size m) \<le> ?L" "distinct (map bm_offset (metas r 0 cs))"
    using metas_blocks [of "ra_data f" "[]" r cs "idx @ props @ EncodeFooter ?ft" rd] data le len cs(2) seq by (simp_all add: rd_def)
  have range: "list_all (block_in_range (ft_index_offset ?ft)) (metas r 0 cs)"
  proof -
    have "block_in_range (ft_index_offset ?ft) m" if m: "m \<in> set (metas r 0 cs)" for m
    proof -
      have bnd: "unat (bm_offset m) + unat (bm_size m) \<le> ?L" using blocks(3) m by blast
      then have off: "bm_offset m \<le> ft_index_offset ?ft" using u(1) by (simp add: word_le_nat_alt)
      then show ?thesis using bnd u(1) by (simp add: block_in_range_def word_less_nat_alt unat_sub not_less)
    qed
    then show ?thesis by (simp add: list_all_iff)
  qed
  have ver: "ft_version ?ft = kSstableVersion" "kSstableVersion \<noteq> kSstableVersionV1"
    by (simp_all add: footer_of_def kSstableVersion_def kSstableVersionV1_def)
  have big: "\<not> FileSize f < kSstableV1FooterSize" by (simp add: fs kSstableV1FooterSize_def)
  have "Open number f = (Ok rd, f3)"
    using f1(1) f2(1) f3(1) sec range big
    by (simp add: Open_def Let_def op_bind_def op_of_def op_simps ver send u dec rd_def)
  moreover have "\<forall>c \<in> set cs. c \<noteq> []" using cs(2) chunk_ok_facts(3) by blast
  then have "reader_ok rd (ra_data f)" using blocks metas_sorted [OF _ cs(3), of r 0] by (simp add: reader_ok_def rd_def)
  moreover have "table_entries rd (ra_data f) = concat cs" using blocks(1) by (simp add: table_entries_def rd_def)
  ultimately show thesis using that f3 f2(3) f1(3) by (simp add: rd_def)
qed

section \<open>Validation\<close>

definition empty_scan :: TableScan where
  "empty_scan = \<lparr>sc_entry_count = 0, sc_smallest_key = [], sc_largest_key = [], sc_min_sequence = 0,
     sc_max_sequence = 0, sc_previous_key = [], sc_has_entries = False\<rparr>"

text \<open>What the scan has accumulated after the entries \<open>es\<close>.\<close>

definition scan_of :: "InternalEntry list \<Rightarrow> TableScan \<Rightarrow> bool" where
  "scan_of es s \<longleftrightarrow> (sc_has_entries s \<longleftrightarrow> es \<noteq> []) \<and> sc_entry_count s = of_nat (length es) \<and>
     (es \<noteq> [] \<longrightarrow> sc_smallest_key s = user_key (hd es) \<and> sc_largest_key s = user_key (last es) \<and>
        sc_min_sequence s = Min (sequence ` set es) \<and> sc_max_sequence s = Max (sequence ` set es))"

lemma scan_of_snoc: "scan_of es s \<Longrightarrow> scan_of (es @ [e]) (scan_entry s e)"
  by (cases "es = []") (auto simp: scan_of_def scan_entry_def Let_def min.commute max.commute)

lemma scan_of_append: "scan_of es s \<Longrightarrow> scan_of (es @ xs) (foldl scan_entry s xs)"
proof (induction xs arbitrary: es s)
  case (Cons x xs)
  show ?case using Cons.IH [OF scan_of_snoc [OF Cons.prems, of x]] by simp
qed simp

lemma scan_of_previous [simp]: "scan_of es (s\<lparr>sc_previous_key := k\<rparr>) = scan_of es s"
  by (simp add: scan_of_def)

lemma ReadBlock_uncached: "ReadBlock charge r m False = load_block charge r m False"
  by (simp add: fun_eq_iff ReadBlock_def split: option.splits)

lemma validate_blocks_sound:
  "validate_blocks charge r ms s ts = (Ok s', ts') \<Longrightarrow> ra_data (ts_file ts) = data \<Longrightarrow> scan_of es s \<Longrightarrow> ordered es \<Longrightarrow>
   (es \<noteq> [] \<longrightarrow> sc_previous_key s = user_key (last es)) \<Longrightarrow>
     (\<forall>m \<in> set ms. block_ok r data m) \<and> scan_of (es @ concat (map (block_entries r data) ms)) s' \<and>
     ordered (es @ concat (map (block_entries r data) ms))"
proof (induction ms arbitrary: s ts es)
  case (Cons m ms)
  obtain x t where lb: "load_block charge r m False ts = (x, t)" by fastforce
  note c = load_block_cases [OF lb, unfolded Cons.prems(2)]
  let ?b = "block_entries r data m"
  have ok: "x = Ok ?b" "block_ok r data m" and d: "ra_data (ts_file t) = data"
    using Cons.prems(1) lb c by (auto simp: ReadBlock_uncached op_bind_def)
  have ne: "?b \<noteq> []" using ok(2) by (simp add: block_ok_def)
  have gap: "es \<noteq> [] \<Longrightarrow> user_key (last es) < user_key (hd ?b)"
    using Cons.prems(1,3,5) lb ok(1) by (auto simp: ReadBlock_uncached op_bind_def op_simps scan_of_def BytewiseLess_def split: if_splits)
  have rest: "validate_blocks charge r ms ((foldl scan_entry s ?b)\<lparr>sc_previous_key := user_key (last ?b)\<rparr>) t = (Ok s', ts')"
    using Cons.prems(1) lb ok(1) by (auto simp: ReadBlock_uncached op_bind_def op_simps split: if_splits)
  have ordb: "ordered ?b" by (rule block_ok_ordered [OF ok(2)])
  have "InternalLess a b" if a: "a \<in> set es" and b: "b \<in> set ?b" for a b
  proof -
    have "user_key a \<le> user_key (last es)" by (rule ordered_last_key [OF Cons.prems(4) a])
    also have "\<dots> < user_key (hd ?b)" by (rule gap) (use a in auto)
    also have "\<dots> \<le> user_key b" using ordered_keys [OF ordb] b by (cases ?b) auto
    finally show ?thesis by (simp add: InternalLess_iff)
  qed
  then have "ordered (es @ ?b)" using Cons.prems(4) ordb by (simp add: sorted_wrt_append)
  moreover have "scan_of (es @ ?b) ((foldl scan_entry s ?b)\<lparr>sc_previous_key := user_key (last ?b)\<rparr>)"
    using scan_of_append [OF Cons.prems(3)] by simp
  ultimately show ?case using Cons.IH [OF rest d, of "es @ ?b"] ne ok(2) by simp
qed (auto simp: op_simps)

lemma validate_blocks_total:
  "ra_data (ts_file ts) = data \<Longrightarrow> reads_ok (ra_reads (ts_file ts)) \<Longrightarrow> \<forall>m \<in> set ms. block_ok r data m \<Longrightarrow>
   sorted_wrt (\<lambda>a b. bm_last_key a < bm_first_key b) ms \<Longrightarrow> scan_of es s \<Longrightarrow>
   (es \<noteq> [] \<longrightarrow> sc_previous_key s = user_key (last es) \<and> (\<forall>m \<in> set ms. user_key (last es) < bm_first_key m)) \<Longrightarrow>
     \<exists>s' ts'. validate_blocks charge r ms s ts = (Ok s', ts') \<and> ra_data (ts_file ts') = data \<and> ts_cache ts' = ts_cache ts"
proof (induction ms arbitrary: s ts es)
  case (Cons m ms)
  obtain x t where lb: "load_block charge r m False ts = (x, t)" by fastforce
  note c = load_block_cases [OF lb, unfolded Cons.prems(1)]
  let ?b = "block_entries r data m"
  let ?s = "(foldl scan_entry s ?b)\<lparr>sc_previous_key := user_key (last ?b)\<rparr>"
  have bok: "block_ok r data m" using Cons.prems(3) by simp
  have ok: "x = Ok ?b" "ra_data (ts_file t) = data" "reads_ok (ra_reads (ts_file t))" "ts_cache t = ts_cache ts"
    using c bok Cons.prems(2) by auto
  have ne: "?b \<noteq> []" and first: "user_key (hd ?b) = bm_first_key m" and lst: "user_key (last ?b) = bm_last_key m"
    using bok by (simp_all add: block_ok_def)
  have "\<exists>s' ts'. validate_blocks charge r ms ?s t = (Ok s', ts') \<and> ra_data (ts_file ts') = data \<and> ts_cache ts' = ts_cache t"
    by (rule Cons.IH [of _ "es @ ?b"]) (use Cons.prems ok ne lst scan_of_append [OF Cons.prems(5)] in auto)
  moreover have "validate_blocks charge r (m # ms) s ts = validate_blocks charge r ms ?s t"
    using lb ok(1) Cons.prems(5,6) first by (auto simp: ReadBlock_uncached op_bind_def op_simps scan_of_def BytewiseLess_def)
  ultimately show ?case using ok(4) by simp
qed (auto simp: op_simps)

lemma ValidateAndGetProperties_sound:
  assumes "ValidateAndGetProperties charge r ts = (Ok info, ts')" "ra_data (ts_file ts) = data"
  shows "(\<forall>m \<in> set (sr_blocks r). block_ok r data m) \<and> ordered (table_entries r data) \<and> table_entries r data \<noteq> [] \<and>
    ti_entry_count info = of_nat (length (table_entries r data)) \<and>
    ti_smallest_key info = user_key (hd (table_entries r data)) \<and> ti_largest_key info = user_key (last (table_entries r data)) \<and>
    ti_min_sequence info = Min (sequence ` set (table_entries r data)) \<and> ti_max_sequence info = Max (sequence ` set (table_entries r data)) \<and>
    ti_file_size info = sr_file_size r"
proof -
  obtain s where s: "sr_blocks r \<noteq> []" "validate_blocks charge r (sr_blocks r) empty_scan ts = (Ok s, ts')"
    and info: "info = \<lparr>ti_file_size = sr_file_size r, ti_entry_count = sc_entry_count s,
               ti_smallest_key = sc_smallest_key s, ti_largest_key = sc_largest_key s,
               ti_min_sequence = sc_min_sequence s, ti_max_sequence = sc_max_sequence s\<rparr>"
    using assms(1) by (auto simp: ValidateAndGetProperties_def op_bind_Ok_iff op_simps empty_scan_def split: if_splits)
  have "scan_of [] empty_scan" by (simp add: scan_of_def empty_scan_def)
  then have v: "\<forall>m \<in> set (sr_blocks r). block_ok r data m" "scan_of (table_entries r data) s" "ordered (table_entries r data)"
    using validate_blocks_sound [OF s(2) assms(2), of "[]"] by (simp_all add: table_entries_def)
  moreover have "table_entries r data \<noteq> []"
    using s(1) v(1) by (cases "sr_blocks r") (auto simp: table_entries_def block_ok_def)
  ultimately show ?thesis by (simp add: info scan_of_def)
qed

lemma ValidateAndGetProperties_total:
  assumes r: "reader_ok rd data" "table_entries rd data = es" "es \<noteq> []"
    and p: "sr_properties rd = Some (info_properties info)" "info_of es info"
    and ts: "ra_data (ts_file ts) = data" "reads_ok (ra_reads (ts_file ts))"
  shows "\<exists>i ts'. ValidateAndGetProperties charge rd ts = (Ok i, ts')"
proof -
  have start: "scan_of [] empty_scan" by (simp add: scan_of_def empty_scan_def)
  have blocks: "\<forall>m \<in> set (sr_blocks rd). block_ok rd data m" "sorted_wrt (\<lambda>a b. bm_last_key a < bm_first_key b) (sr_blocks rd)"
    using r(1) by (simp_all add: reader_ok_def)
  obtain s ts' where v: "validate_blocks charge rd (sr_blocks rd) empty_scan ts = (Ok s, ts')"
    using validate_blocks_total [OF ts blocks start, of charge] by auto
  have "scan_of es s" using validate_blocks_sound [OF v ts(1) start] r(2) by (simp add: table_entries_def)
  moreover have "of_nat (length es) = ti_entry_count info" using p(2) r(3) unat_eq_of_nat_u64 [of "ti_entry_count info"] by (simp add: info_of_def)
  ultimately have "sc_entry_count s = ti_entry_count info" "sc_smallest_key s = ti_smallest_key info" "sc_largest_key s = ti_largest_key info"
    "sc_min_sequence s = ti_min_sequence info" "sc_max_sequence s = ti_max_sequence info"
    using p(2) r(3) by (simp_all add: scan_of_def info_of_def)
  moreover have "sr_blocks rd \<noteq> []" using r(2,3) by (auto simp: table_entries_def)
  ultimately show ?thesis using v p(1)
    by (simp add: ValidateAndGetProperties_def op_bind_def op_simps info_properties_def empty_scan_def)
qed

section \<open>A small table\<close>

definition sample_entry :: InternalEntry where
  "sample_entry = \<lparr>user_key = [1], sequence = 5, etype = kValue, evalue = [7]\<rparr>"

definition sample_file :: WritableFile where
  "sample_file = \<lparr>wf_open = True, wf_data = [], wf_durable = [], wf_writes = [], wf_syncs = [], wf_closes = []\<rparr>"

lemma sample_sections:
  "\<exists>blk. EncodeDataBlock [sample_entry] 16 = Ok blk \<and> length blk < 100"
  "\<exists>idx. EncodeIndex [\<lparr>bm_first_key = [1], bm_last_key = [1], bm_offset = 0, bm_size = z\<rparr>] = Ok idx \<and> length idx < 100"
  "\<exists>pb. EncodeProperties \<lparr>tp_entry_count = 1, tp_smallest_key = [1], tp_largest_key = [1], tp_min_sequence = 5,
     tp_max_sequence = 5\<rparr> = Ok pb \<and> length pb < 100"
proof -
  show "\<exists>blk. EncodeDataBlock [sample_entry] 16 = Ok blk \<and> length blk < 100"
    unfolding EncodeDataBlock_def encode_v2_entries.simps Let_def
    by (simp add: sample_entry_def FitsU32_def InternalLess_builder_def max_u32_def length_PutFixed)
qed (simp_all add: EncodeIndex_eq index_keys_fit_def index_body_def length_index_entry_bytes max_u32_def length_PutFixed
       EncodeProperties_def Let_def FitsU32_def)

lemma sample_table_built:
  "\<exists>info b. build_table [sample_entry] (SSTableBuilder_new sample_file 4096 16) = (Ok info, b) \<and> length (wf_data (sb_file b)) < 1000"
proof -
  obtain blk where blk: "EncodeDataBlock [sample_entry] 16 = Ok blk" "length blk < 100" using sample_sections(1) by blast
  obtain idx where idx: "EncodeIndex [\<lparr>bm_first_key = [1], bm_last_key = [1], bm_offset = 0,
      bm_size = of_nat (length blk)\<rparr>] = Ok idx" "length idx < 100" using sample_sections(2) by blast
  obtain pb where pb: "EncodeProperties \<lparr>tp_entry_count = 1, tp_smallest_key = [1], tp_largest_key = [1],
      tp_min_sequence = 5, tp_max_sequence = 5\<rparr> = Ok pb" "length pb < 100" using sample_sections(3) by blast
  define b1 where "b1 = \<lparr>sb_file = sample_file, sb_block_bytes = 4096, sb_restart_interval = 16,
      sb_pending = [sample_entry], sb_pending_bytes = 23, sb_blocks = [], sb_offset = 0,
      sb_info = \<lparr>ti_file_size = 0, ti_entry_count = 1, ti_smallest_key = [1], ti_largest_key = [1],
                 ti_min_sequence = 5, ti_max_sequence = 5\<rparr>,
      sb_has_entries = True, sb_finished = False\<rparr>"
  have add: "add_all [sample_entry] (SSTableBuilder_new sample_file 4096 16) = (kOk, b1)"
    by (simp add: Add_def SSTableBuilder_new_def record_entry_def Let_def b1_def sample_entry_def)
  have room: "length d \<le> unat (- 1 - (of_nat n :: u64))" if "length d < 100" "n < 200" for d n
  proof -
    have "unat (- 1 - (of_nat n :: u64)) = unat (- 1 :: u64) - n"
      using that by (subst unat_sub) (simp_all add: word_le_nat_alt unsigned_minus_1_eq_mask mask_eq_exp_minus_1 unat_of_nat)
    then show ?thesis using that by (simp add: unsigned_minus_1_eq_mask mask_eq_exp_minus_1)
  qed
  note rooms = room [of blk 0] room [of idx "length blk"] room [of pb "length blk + length idx"]
  have key: "user_key sample_entry = [1]" by (simp add: sample_entry_def)
  let ?meta = "\<lparr>bm_first_key = [1], bm_last_key = [1], bm_offset = 0, bm_size = of_nat (length blk)\<rparr>"
  define b2 where "b2 = b1\<lparr>sb_file := sample_file\<lparr>wf_data := blk\<rparr>, sb_offset := of_nat (length blk),
    sb_blocks := [?meta], sb_pending := [], sb_pending_bytes := 0\<rparr>"
  define b3 where "b3 = b2\<lparr>sb_file := sample_file\<lparr>wf_data := blk @ idx\<rparr>, sb_offset := of_nat (length blk + length idx)\<rparr>"
  define b4 where "b4 = b3\<lparr>sb_file := sample_file\<lparr>wf_data := blk @ idx @ pb\<rparr>,
    sb_offset := of_nat (length blk + length idx + length pb)\<rparr>"
  have "FlushBlock b1 = (kOk, b2)"
    using blk rooms(1) by (simp add: FlushBlock_def b1_def b2_def key not_less Append_def sample_file_def append_loop_all Let_def)
  moreover have "EncodeIndex (sb_blocks b2) = Ok idx" using idx(1) by (simp add: b2_def)
  moreover have "append_section (Ok idx) b2 = (kOk, b3)"
    using blk(2) idx(2) rooms(2) by (simp add: append_section_def b2_def b3_def not_less Append_def sample_file_def append_loop_all)
  moreover have "EncodeProperties (info_properties (sb_info b3)) = Ok pb"
    using pb(1) by (simp add: b3_def b2_def b1_def info_properties_def)
  moreover have "append_section (Ok pb) b3 = (kOk, b4)"
    using blk(2) idx(2) pb(2) rooms(3)
    by (simp add: append_section_def b3_def b4_def not_less Append_def sample_file_def append_loop_all)
  moreover have "\<exists>info b. finish_file ft b4 = (Ok info, b) \<and> length (wf_data (sb_file b)) < 1000" for ft
    using blk(2) idx(2) pb(2)
    by (simp add: finish_file_def b4_def Append_def Sync_def CloseFile_def sample_file_def append_loop_all Let_def
        length_EncodeFooter kSstableFooterSize_def)
  ultimately have "\<exists>info b. Finish b1 = (Ok info, b) \<and> length (wf_data (sb_file b)) < 1000"
    by (simp add: Finish_def Let_def) (simp add: b1_def)
  with add show ?thesis by (simp add: build_table_def)
qed

section \<open>Properties\<close>

text \<open>
  C6: Write, open, read: a table written by the builder (below 4 GiB) is accepted by \<open>Open\<close>, holds
  exactly the entries that were added, and with the block cache enabled every point read, at any
  sequence and whatever the cache holds for other tables, returns the visible version of the key, or
  \<open>kNotFound\<close> when there is none; and the table passes \<open>ValidateAndGetProperties\<close>.
\<close>

theorem built_table_serves_reads:
  assumes built: "wf_data w = []" "build_table es (SSTableBuilder_new w block_bytes restart) = (Ok info, b)"
    and disk: "ra_data f = wf_data (sb_file b)" "reads_ok (ra_reads f)" "length (wf_data (sb_file b)) < 2 ^ 32"
  shows "\<exists>rd f'. Open number f = (Ok rd, f') \<and> ra_data f' = ra_data f \<and> table_entries rd (ra_data f) = es \<and>
    (\<forall>ts key n. ts_ok rd (ra_data f) ts \<and> cache_enabled (ts_cache ts) \<and> reads_ok (ra_reads (ts_file ts)) \<longrightarrow>
       fst (Table_Get charge rd key n ts) = lookup_result es key n) \<and>
    (\<forall>ts. ra_data (ts_file ts) = ra_data f \<and> reads_ok (ra_reads (ts_file ts)) \<longrightarrow>
       (\<exists>i ts'. ValidateAndGetProperties charge rd ts = (Ok i, ts')))"
proof -
  obtain cs idx props where t: "concat cs = es" "table_ok restart cs idx props (info_properties info)"
    "wf_data (sb_file b) = table_image restart cs idx props" "info_of es info" "es \<noteq> []"
    using build_table_ok [OF built] by blast
  have "tp_min_sequence (info_properties info) \<noteq> 0"
    using t(2) by (auto simp: table_ok_def EncodeProperties_def split: if_splits)
  then have "Min (sequence ` set es) \<noteq> 0" using t(4,5) by (simp add: info_of_def info_properties_def)
  then have seq: "\<forall>e \<in> set (concat cs). sequence e \<noteq> 0"
  proof -
    assume m: "Min (sequence ` set es) \<noteq> 0"
    have "Min (sequence ` set es) \<le> sequence e" if "e \<in> set es" for e using that by simp
    then show ?thesis using m t(1) by (metis word_le_0_iff)
  qed
  have idx: "length idx < 2 ^ 32" using disk(3) by (simp add: t(3) table_image_def)
  have size: "length (table_image restart cs idx props) \<le> max_u64" using disk(3) by (simp add: t(3) max_u64_def)
  have data: "ra_data f = table_image restart cs idx props" using disk(1) t(3) by simp
  obtain rd f' where o: "Open number f = (Ok rd, f')" "ra_data f' = ra_data f" "reader_ok rd (ra_data f)"
    "table_entries rd (ra_data f) = concat cs" "sr_properties rd = Some (info_properties info)"
    using Open_image [OF t(2) data disk(2) size idx seq] by (metis SSTableReader.select_convs(4))
  have "fst (Table_Get charge rd key n ts) = lookup_result es key n"
    if "ts_ok rd (ra_data f) ts" "cache_enabled (ts_cache ts)" "reads_ok (ra_reads (ts_file ts))" for ts key n
    using Table_Get_ok [OF o(3) that(1) _ prod.collapse [symmetric], of charge key n] that(2,3) o(4) t(1) by simp
  moreover have "\<exists>i ts'. ValidateAndGetProperties charge rd ts = (Ok i, ts')"
    if "ra_data (ts_file ts) = ra_data f" "reads_ok (ra_reads (ts_file ts))" for ts
    using ValidateAndGetProperties_total [OF o(3) _ t(5) o(5) t(4) that] o(4) t(1) by simp
  ultimately show ?thesis using o t(1) by blast
qed

theorem built_table_serves_reads_witness:
  "\<exists>info b rd f'. build_table [sample_entry] (SSTableBuilder_new sample_file 4096 16) = (Ok info, b) \<and>
     Open 7 \<lparr>ra_data = wf_data (sb_file b), ra_reads = [Count 3, Interrupted]\<rparr> = (Ok rd, f') \<and>
     table_entries rd (wf_data (sb_file b)) = [sample_entry]"
proof -
  obtain info b where b: "build_table [sample_entry] (SSTableBuilder_new sample_file 4096 16) = (Ok info, b)"
    "length (wf_data (sb_file b)) < 1000" using sample_table_built by blast
  have "wf_data sample_file = []" by (simp add: sample_file_def)
  then have "\<exists>rd f'. Open 7 \<lparr>ra_data = wf_data (sb_file b), ra_reads = [Count 3, Interrupted]\<rparr> = (Ok rd, f') \<and>
     table_entries rd (wf_data (sb_file b)) = [sample_entry]"
    using built_table_serves_reads [OF _ b(1), of "\<lparr>ra_data = wf_data (sb_file b), ra_reads = [Count 3, Interrupted]\<rparr>" 7] b(2)
    by fastforce
  then show ?thesis using b(1) by blast
qed

text \<open>
  C40: A table that passes \<open>ValidateAndGetProperties\<close>, whatever produced its file, is completely well
  formed: every block passes its checks, the entries of all blocks together are strictly ordered, and
  the returned properties are the exact key range, sequence range and (modulo $2^{64}$) count of them.
\<close>

theorem validated_table_is_sound:
  assumes "ValidateAndGetProperties charge r ts = (Ok info, ts')"
  shows "(\<forall>m \<in> set (sr_blocks r). block_ok r (ra_data (ts_file ts)) m) \<and> ordered (table_entries r (ra_data (ts_file ts))) \<and>
    table_entries r (ra_data (ts_file ts)) \<noteq> [] \<and>
    ti_entry_count info = of_nat (length (table_entries r (ra_data (ts_file ts)))) \<and>
    ti_smallest_key info = user_key (hd (table_entries r (ra_data (ts_file ts)))) \<and>
    ti_largest_key info = user_key (last (table_entries r (ra_data (ts_file ts)))) \<and>
    ti_min_sequence info = Min (sequence ` set (table_entries r (ra_data (ts_file ts)))) \<and>
    ti_max_sequence info = Max (sequence ` set (table_entries r (ra_data (ts_file ts))))"
  using ValidateAndGetProperties_sound [OF assms refl] by blast

theorem validated_table_is_sound_witness:
  "\<exists>rd ts info ts'. ValidateAndGetProperties (\<lambda>es. 0) rd ts = (Ok info, ts') \<and> ordered (table_entries rd (ra_data (ts_file ts))) \<and>
     table_entries rd (ra_data (ts_file ts)) \<noteq> []"
proof -
  obtain info b where b: "build_table [sample_entry] (SSTableBuilder_new sample_file 4096 16) = (Ok info, b)"
    "length (wf_data (sb_file b)) < 1000" using sample_table_built by blast
  obtain cs idx props where t: "concat cs = [sample_entry]" "table_ok 16 cs idx props (info_properties info)"
    "wf_data (sb_file b) = table_image 16 cs idx props" "info_of [sample_entry] info"
    using build_table_ok [OF _ b(1)] by (auto simp: sample_file_def)
  let ?f = "\<lparr>ra_data = wf_data (sb_file b), ra_reads = []\<rparr>"
  have pre: "ra_data ?f = table_image 16 cs idx props" "reads_ok (ra_reads ?f)" "length (table_image 16 cs idx props) \<le> max_u64"
    "length idx < 2 ^ 32" "\<forall>e \<in> set (concat cs). sequence e \<noteq> 0"
    using b(2) t by (simp_all add: max_u64_def sample_entry_def table_image_def)
  obtain rd f' where o: "reader_ok rd (ra_data ?f)" "table_entries rd (ra_data ?f) = concat cs" "sr_properties rd = Some (info_properties info)"
    using Open_image [OF t(2) pre] by (metis SSTableReader.select_convs(4))
  let ?ts = "\<lparr>ts_file = ?f, ts_cache = None, ts_counters = \<lparr>rc_table_probes = 0, rc_block_reads = 0, rc_block_decodes = 0\<rparr>\<rparr>"
  obtain i ts' where v: "ValidateAndGetProperties (\<lambda>es. 0) rd ?ts = (Ok i, ts')"
    using ValidateAndGetProperties_total [OF o(1) o(2) [unfolded t(1)] _ o(3) t(4), of ?ts "\<lambda>es. 0"] by auto
  then show ?thesis using validated_table_is_sound [OF v] by blast
qed

end
