(* ===== verification/Wal_Codec.thy ===== *)
theory Wal_Codec
  imports Entries
begin

text \<open>
  \<open>src/wal/wal_record_codec.cpp\<close>: the version-1 single-entry record and the version-2 batch
  record of the write-ahead log. Encoders check the limits and concatenate the fields; decoders
  read them back with every length, checksum and ordering check of the source. The lemmas show
  that decoding inverts encoding, that a decoder never reads outside the record it is given, that
  whatever a decoder accepts is well formed, and that one damaged payload byte is always noticed.
\<close>

section \<open>Format constants and limits\<close>

definition kWalMagic :: u32 where "kWalMagic = 0x314c4157"
definition kWalVersion :: u16 where "kWalVersion = 1"
definition kWalBatchVersion :: u16 where "kWalBatchVersion = 2"
definition kWalBatchRecordType :: byte where "kWalBatchRecordType = 3"
definition kWalHeaderSize :: nat where "kWalHeaderSize = 16"
definition kWalPayloadHeaderSize :: nat where "kWalPayloadHeaderSize = 16"
definition kWalBatchPayloadHeaderSize :: nat where "kWalBatchPayloadHeaderSize = 4"
definition kWalBatchEntryHeaderSize :: nat where "kWalBatchEntryHeaderSize = 20"
definition kMaxWalBatchBytes :: nat where "kMaxWalBatchBytes = 134217728"
definition kMaxWalBatchOperations :: nat where "kMaxWalBatchOperations = 1000000"

lemmas wal_consts =
  kWalHeaderSize_def kWalPayloadHeaderSize_def kWalBatchPayloadHeaderSize_def
  kWalBatchEntryHeaderSize_def kMaxWalBatchBytes_def kMaxWalBatchOperations_def

record DecodeLimits =
  max_key_bytes :: u32
  max_value_bytes :: u32

section \<open>Single records\<close>

definition record_payload :: "InternalEntry \<Rightarrow> bytes" where
  "record_payload e =
     PutFixed32 (PutFixed32 (PutFixed64 [] (sequence e)) (of_nat (length (user_key e))))
       (of_nat (length (evalue e))) @ user_key e @ evalue e"

definition EncodeWalRecord :: "InternalEntry \<Rightarrow> DecodeLimits \<Rightarrow> bytes result" where
  "EncodeWalRecord e limits =
     (if length (user_key e) > unat (max_key_bytes limits) \<or>
         length (evalue e) > unat (max_value_bytes limits) \<or>
         length (user_key e) > max_u32 \<or> length (evalue e) > max_u32
      then Err kInvalidArgument
      else if etype e = kTombstone \<and> evalue e \<noteq> [] then Err kInvalidArgument
      else
        let payload = record_payload e;
            checked = [type_byte (etype e)] @ payload;
            out = PutFixed16 (PutFixed32 [] kWalMagic) kWalVersion @ [type_byte (etype e)] @ [0];
            out = PutFixed32 out (of_nat (length payload));
            out = PutFixed32 out (Crc32c checked)
        in Ok (out @ payload))"

definition DecodeWalRecord :: "bytes \<Rightarrow> DecodeLimits \<Rightarrow> InternalEntry result" where
  "DecodeWalRecord rec limits =
     (if length rec < kWalHeaderSize + kWalPayloadHeaderSize then Err kCorruption
      else
        let magic = Get32 rec 0; version = Get16 rec 4;
            payload_size = Get32 rec 8; expected_crc = Get32 rec 12 in
        rbind (span_at rec 7) (\<lambda>reserved.
        if magic \<noteq> kWalMagic \<or> version \<noteq> kWalVersion \<or> reserved \<noteq> 0 then Err kCorruption
        else if unat payload_size \<noteq> size_minus (length rec) kWalHeaderSize then Err kCorruption
        else rbind (span_at rec 6) (\<lambda>type.
        if type \<noteq> type_byte kValue \<and> type \<noteq> type_byte kTombstone then Err kCorruption
        else rbind (slice rec kWalHeaderSize (unat payload_size)) (\<lambda>payload.
        if Crc32c ([type] @ payload) \<noteq> expected_crc then Err kCorruption
        else
          let seq = Get64 rec 16; key_size = Get32 rec 24; value_size = Get32 rec 28 in
          if key_size > max_key_bytes limits \<or> value_size > max_value_bytes limits \<or>
             unat key_size + unat value_size + kWalPayloadHeaderSize \<noteq> unat payload_size
          then Err kCorruption
          else rbind (slice rec 32 (unat key_size)) (\<lambda>key.
               rbind (slice rec (32 + unat key_size) (unat value_size)) (\<lambda>val.
               if byte_type type = kTombstone \<and> val \<noteq> [] then Err kCorruption
               else Ok \<lparr>user_key = key, sequence = seq, etype = byte_type type, evalue = val\<rparr>))))))"

section \<open>Batch records\<close>

text \<open>
  The validation loop of \<open>EncodeWalBatch\<close>. \<open>payload_size\<close> cannot wrap: it is at most
  \<open>kMaxWalBatchBytes\<close> before each addition. The check that the enum holds one of its two values
  has no counterpart, because the data type has no other value.
\<close>

fun batch_encode_check ::
  "DecodeLimits \<Rightarrow> InternalEntry list \<Rightarrow> u64 \<Rightarrow> nat \<Rightarrow> StatusCode" where
  "batch_encode_check limits [] previous_sequence payload_size = kOk"
| "batch_encode_check limits (entry # es) previous_sequence payload_size =
     (if sequence entry = 0 \<or>
         (previous_sequence \<noteq> 0 \<and> sequence entry \<noteq> previous_sequence + 1) then kInvalidArgument
      else if length (user_key entry) > unat (max_key_bytes limits) \<or>
              length (evalue entry) > unat (max_value_bytes limits) \<or>
              length (user_key entry) > max_u32 \<or> length (evalue entry) > max_u32
      then kInvalidArgument
      else if etype entry = kTombstone \<and> evalue entry \<noteq> [] then kInvalidArgument
      else
        let payload_size' = payload_size + kWalBatchEntryHeaderSize
                              + length (user_key entry) + length (evalue entry) in
        if payload_size' > kMaxWalBatchBytes \<or> payload_size' > max_u32 then kInvalidArgument
        else batch_encode_check limits es (sequence entry) payload_size')"

definition put_batch_entry :: "bytes \<Rightarrow> InternalEntry \<Rightarrow> bytes" where
  "put_batch_entry payload entry =
     PutFixed32
       (PutFixed32 (PutFixed64 payload (sequence entry) @ [type_byte (etype entry)] @ [0, 0, 0])
          (of_nat (length (user_key entry))))
       (of_nat (length (evalue entry))) @ user_key entry @ evalue entry"

definition batch_payload :: "InternalEntry list \<Rightarrow> bytes" where
  "batch_payload entries = foldl put_batch_entry (PutFixed32 [] (of_nat (length entries))) entries"

definition EncodeWalBatch :: "InternalEntry list \<Rightarrow> DecodeLimits \<Rightarrow> bytes result" where
  "EncodeWalBatch entries limits =
     (if entries = [] then Err kInvalidArgument
      else if length entries > kMaxWalBatchOperations then Err kInvalidArgument
      else
        let c = batch_encode_check limits entries 0 kWalBatchPayloadHeaderSize in
        if c \<noteq> kOk then Err c
        else
          let payload = batch_payload entries;
              checked = [kWalBatchRecordType] @ payload;
              out = PutFixed16 (PutFixed32 [] kWalMagic) kWalBatchVersion
                      @ [kWalBatchRecordType] @ [0];
              out = PutFixed32 out (of_nat (length payload));
              out = PutFixed32 out (Crc32c checked)
          in Ok (out @ payload))"

text \<open>The entry loop of \<open>DecodeWalBatch\<close>: \<open>n\<close> entries are left to read at \<open>offset\<close>.\<close>

fun decode_batch_entries ::
  "bytes \<Rightarrow> DecodeLimits \<Rightarrow> nat \<Rightarrow> nat \<Rightarrow> u64 \<Rightarrow> (InternalEntry list \<times> nat) result" where
  "decode_batch_entries rec limits 0 offset previous_sequence = Ok ([], offset)"
| "decode_batch_entries rec limits (Suc n) offset previous_sequence =
     (if size_minus (length rec) offset < kWalBatchEntryHeaderSize then Err kCorruption
      else
        let seq = Get64 rec offset in
        rbind (span_at rec (offset + 8)) (\<lambda>type.
        rbind (span_at rec (offset + 9)) (\<lambda>flag1.
        rbind (span_at rec (offset + 10)) (\<lambda>flag2.
        rbind (span_at rec (offset + 11)) (\<lambda>flag3.
        if flag1 \<noteq> 0 \<or> flag2 \<noteq> 0 \<or> flag3 \<noteq> 0 then Err kCorruption
        else
          let key_size = Get32 rec (offset + 12); value_size = Get32 rec (offset + 16);
              offset = offset + kWalBatchEntryHeaderSize in
          if seq = 0 \<or>
             (previous_sequence \<noteq> 0 \<and>
              (previous_sequence = - 1 \<or> seq \<noteq> previous_sequence + 1)) then Err kCorruption
          else if type \<noteq> type_byte kValue \<and> type \<noteq> type_byte kTombstone then Err kCorruption
          else if key_size > max_key_bytes limits \<or> value_size > max_value_bytes limits \<or>
                  unat key_size + unat value_size > size_minus (length rec) offset
          then Err kCorruption
          else rbind (slice rec offset (unat key_size)) (\<lambda>key.
               rbind (slice rec (offset + unat key_size) (unat value_size)) (\<lambda>val.
               let offset = offset + unat key_size + unat value_size in
               if byte_type type = kTombstone \<and> val \<noteq> [] then Err kCorruption
               else rbind (decode_batch_entries rec limits n offset seq) (\<lambda>(es, end_offset).
                 Ok (\<lparr>user_key = key, sequence = seq, etype = byte_type type, evalue = val\<rparr> # es,
                     end_offset)))))))))"

definition DecodeWalBatch :: "bytes \<Rightarrow> DecodeLimits \<Rightarrow> InternalEntry list result" where
  "DecodeWalBatch rec limits =
     (if length rec < kWalHeaderSize + kWalBatchPayloadHeaderSize then Err kCorruption
      else
        let magic = Get32 rec 0; version = Get16 rec 4;
            payload_size = Get32 rec 8; expected_crc = Get32 rec 12 in
        rbind (span_at rec 6) (\<lambda>type. rbind (span_at rec 7) (\<lambda>reserved.
        if magic \<noteq> kWalMagic \<or> version \<noteq> kWalBatchVersion \<or> type \<noteq> kWalBatchRecordType \<or>
           reserved \<noteq> 0 then Err kCorruption
        else if unat payload_size \<noteq> size_minus (length rec) kWalHeaderSize \<or>
                unat payload_size > kMaxWalBatchBytes then Err kCorruption
        else rbind (slice rec kWalHeaderSize (unat payload_size)) (\<lambda>payload.
        if Crc32c ([kWalBatchRecordType] @ payload) \<noteq> expected_crc then Err kCorruption
        else
          let count = Get32 rec kWalHeaderSize in
          if count = 0 \<or> unat count > kMaxWalBatchOperations \<or>
             unat count * kWalBatchEntryHeaderSize > unat payload_size - kWalBatchPayloadHeaderSize
          then Err kCorruption
          else rbind (decode_batch_entries rec limits (unat count)
                        (kWalHeaderSize + kWalBatchPayloadHeaderSize) 0) (\<lambda>(es, offset).
               if offset \<noteq> length rec then Err kCorruption else Ok es)))))"

section \<open>Encoded layout\<close>

lemmas put_simps = PutFixed16_le16 PutFixed32_le32 PutFixed64_le64

lemma record_payload_layout:
  "record_payload e =
     le64 (sequence e) @ le32 (of_nat (length (user_key e))) @ le32 (of_nat (length (evalue e)))
       @ user_key e @ evalue e"
  by (simp add: record_payload_def PutFixed_append)

lemma length_record_payload [length_simps]:
  "length (record_payload e) = 16 + length (user_key e) + length (evalue e)"
  by (simp add: record_payload_layout)

definition record_frame :: "InternalEntry \<Rightarrow> bytes" where
  "record_frame e =
     PutFixed32 (PutFixed32 (PutFixed16 (PutFixed32 [] kWalMagic) kWalVersion @ [type_byte (etype e)] @ [0])
       (of_nat (length (record_payload e)))) (Crc32c ([type_byte (etype e)] @ record_payload e))
       @ record_payload e"

lemma record_frame_layout:
  "record_frame e = le32 kWalMagic @ le16 kWalVersion @ type_byte (etype e) # 0 #
       le32 (of_nat (length (record_payload e))) @
       le32 (Crc32c (type_byte (etype e) # record_payload e)) @ record_payload e"
  by (simp add: record_frame_def PutFixed_append)

lemma EncodeWalRecord_layout:
  assumes "EncodeWalRecord e limits = Ok r"
  shows "r = le32 kWalMagic @ le16 kWalVersion @ type_byte (etype e) # 0 #
       le32 (of_nat (length (record_payload e))) @
       le32 (Crc32c (type_byte (etype e) # record_payload e)) @ record_payload e"
    and "length (user_key e) \<le> unat (max_key_bytes limits)"
    and "length (evalue e) \<le> unat (max_value_bytes limits)"
    and "length (user_key e) \<le> max_u32" "length (evalue e) \<le> max_u32"
    and "etype e = kTombstone \<Longrightarrow> evalue e = []"
proof -
  have eq: "EncodeWalRecord e limits =
      (if length (user_key e) > unat (max_key_bytes limits) \<or>
         length (evalue e) > unat (max_value_bytes limits) \<or>
         length (user_key e) > max_u32 \<or> length (evalue e) > max_u32
       then Err kInvalidArgument
       else if etype e = kTombstone \<and> evalue e \<noteq> [] then Err kInvalidArgument
       else Ok (record_frame e))"
    unfolding EncodeWalRecord_def record_frame_def Let_def ..
  show "r = le32 kWalMagic @ le16 kWalVersion @ type_byte (etype e) # 0 #
       le32 (of_nat (length (record_payload e))) @
       le32 (Crc32c (type_byte (etype e) # record_payload e)) @ record_payload e"
    using assms unfolding eq record_frame_layout [symmetric] by (simp split: if_splits)
  show "length (user_key e) \<le> unat (max_key_bytes limits)"
    "length (evalue e) \<le> unat (max_value_bytes limits)"
    "length (user_key e) \<le> max_u32" "length (evalue e) \<le> max_u32"
    "etype e = kTombstone \<Longrightarrow> evalue e = []"
    using assms unfolding eq by (simp_all split: if_splits)
qed

lemma word_le_limit: "n \<le> unat (m :: u32) \<Longrightarrow> n \<le> max_u32 \<Longrightarrow> \<not> m < of_nat n"
  by (simp add: word_less_nat_alt)

lemma EncodeDecodeWalRecord:
  assumes enc: "EncodeWalRecord e limits = Ok r"
    and fits: "16 + length (user_key e) + length (evalue e) \<le> max_u32"
  shows "DecodeWalRecord r limits = Ok e"
proof -
  note layout = EncodeWalRecord_layout [OF enc]
  have len: "length r = 32 + length (user_key e) + length (evalue e)"
    unfolding layout(1) by (simp add: length_record_payload)
  have psize: "unat (of_nat (length (record_payload e)) :: u32) = 16 + length (user_key e) + length (evalue e)"
    unfolding length_record_payload by (rule unat_of_nat_u32 [OF fits])
  have payload: "slice r 16 (16 + length (user_key e) + length (evalue e)) = Ok (record_payload e)"
    unfolding layout(1) by (simp add: slice_simps length_record_payload)
  have fields: "Get32 r 0 = kWalMagic" "Get16 r 4 = kWalVersion"
    "Get32 r 8 = of_nat (length (record_payload e))"
    "Get32 r 12 = Crc32c (type_byte (etype e) # record_payload e)"
    "span_at r 7 = Ok 0" "span_at r 6 = Ok (type_byte (etype e))"
    unfolding layout(1) by (simp_all add: slice_simps)
  have body: "Get64 r 16 = sequence e" "Get32 r 24 = of_nat (length (user_key e))"
    "Get32 r 28 = of_nat (length (evalue e))"
    "slice r 32 (length (user_key e)) = Ok (user_key e)"
    "slice r (32 + length (user_key e)) (length (evalue e)) = Ok (evalue e)"
    unfolding layout(1) by (simp_all add: record_payload_layout slice_simps)
  show ?thesis
    using layout(2-) len psize
    by (simp add: DecodeWalRecord_def Let_def fields body payload wal_consts word_le_limit)
qed

section \<open>Memory safety of the decoders\<close>

lemma DecodeWalRecord_safe: "DecodeWalRecord r limits \<noteq> UB"
  by (auto simp: DecodeWalRecord_def Let_def wal_consts rbind_UB_iff slice_eq_UB_iff span_at_eq_UB_iff
      split: if_splits)

lemma decode_batch_entries_safe:
  "offset \<le> length rec \<Longrightarrow> decode_batch_entries rec limits n offset p \<noteq> UB"
proof (induction n arbitrary: offset p)
  case (Suc n)
  show ?case
  proof (cases "length rec - offset < 20")
    case False
    with Suc.prems have at: "span_at rec (offset + 8) = Ok (rec ! (offset + 8))"
      "span_at rec (offset + 9) = Ok (rec ! (offset + 9))"
      "span_at rec (offset + 10) = Ok (rec ! (offset + 10))"
      "span_at rec (offset + 11) = Ok (rec ! (offset + 11))"
      by (simp_all add: span_at_Ok)
    have rest: "offset + 20 + k + v \<le> length rec \<Longrightarrow>
        decode_batch_entries rec limits n (offset + 20 + k + v) q \<noteq> UB" for k v q
      by (rule Suc.IH)
    from False Suc.prems have "size_minus (length rec) (offset + 20) = length rec - (offset + 20)"
      by simp
    with at False Suc.prems rest show ?thesis
      by (auto simp: Let_def wal_consts rbind_UB_iff slice_eq_UB_iff)
  qed (use Suc.prems in \<open>simp add: wal_consts\<close>)
qed simp

lemma DecodeWalBatch_safe: "DecodeWalBatch r limits \<noteq> UB"
proof -
  have "decode_batch_entries r limits n 20 0 \<noteq> UB" if "20 \<le> length r" for n
    by (rule decode_batch_entries_safe [OF that])
  then show ?thesis
    by (auto simp: DecodeWalBatch_def Let_def wal_consts rbind_UB_iff slice_eq_UB_iff span_at_eq_UB_iff
        split: if_splits prod.splits)
qed

section \<open>Round trip of batches\<close>

definition batch_entry_bytes :: "InternalEntry \<Rightarrow> bytes" where
  "batch_entry_bytes e =
     le64 (sequence e) @ type_byte (etype e) # 0 # 0 # 0 # le32 (of_nat (length (user_key e)))
       @ le32 (of_nat (length (evalue e))) @ user_key e @ evalue e"

abbreviation batch_entry_size :: "InternalEntry \<Rightarrow> nat" where
  "batch_entry_size e \<equiv> 20 + length (user_key e) + length (evalue e)"

lemma length_batch_entry_bytes [length_simps]: "length (batch_entry_bytes e) = batch_entry_size e"
  by (simp add: batch_entry_bytes_def)

lemma put_batch_entry_append: "payload \<noteq> [] \<Longrightarrow> put_batch_entry payload e = payload @ batch_entry_bytes e"
  by (simp add: put_batch_entry_def batch_entry_bytes_def PutFixed_append)

lemma batch_payload_layout:
  "batch_payload es = le32 (of_nat (length es)) @ concat (map batch_entry_bytes es)"
proof -
  have "payload \<noteq> [] \<Longrightarrow> foldl put_batch_entry payload es = payload @ concat (map batch_entry_bytes es)"
    for payload
    by (induction es arbitrary: payload) (simp_all add: put_batch_entry_append)
  then show ?thesis by (simp add: batch_payload_def)
qed

text \<open>What the encoder's validation loop has established when it returns.\<close>

definition entry_fits :: "DecodeLimits \<Rightarrow> InternalEntry \<Rightarrow> bool" where
  "entry_fits limits e \<longleftrightarrow>
     length (user_key e) \<le> unat (max_key_bytes limits) \<and>
     length (evalue e) \<le> unat (max_value_bytes limits) \<and> entry_ok e"

fun consecutive :: "u64 \<Rightarrow> InternalEntry list \<Rightarrow> bool" where
  "consecutive p [] = True"
| "consecutive p (e # es) = (sequence e \<noteq> 0 \<and> (p \<noteq> 0 \<longrightarrow> sequence e = p + 1) \<and> consecutive (sequence e) es)"

lemma entry_fits_u32:
  "entry_fits limits e \<Longrightarrow> length (user_key e) \<le> max_u32 \<and> length (evalue e) \<le> max_u32"
  using unat_u32_le by (auto simp: entry_fits_def intro: order_trans)

lemma batch_encode_check_Ok_iff:
  "batch_encode_check limits es p n = kOk \<longleftrightarrow>
     consecutive p es \<and> (\<forall>e \<in> set es. entry_fits limits e) \<and>
     (es \<noteq> [] \<longrightarrow> n + sum_list (map batch_entry_size es) \<le> kMaxWalBatchBytes)"
proof (induction es arbitrary: p n)
  case (Cons e es)
  let ?n = "n + batch_entry_size e"
  have max: "kMaxWalBatchBytes \<le> max_u32" by (simp add: wal_consts max_u32_def)
  have unfold: "batch_encode_check limits (e # es) p n = kOk \<longleftrightarrow>
      sequence e \<noteq> 0 \<and> (p \<noteq> 0 \<longrightarrow> sequence e = p + 1) \<and> entry_fits limits e \<and>
      ?n \<le> kMaxWalBatchBytes \<and> batch_encode_check limits es (sequence e) ?n = kOk"
    using max unat_u32_le [of "max_key_bytes limits"] unat_u32_le [of "max_value_bytes limits"]
    by (auto simp: Let_def entry_fits_def entry_ok_def kWalBatchEntryHeaderSize_def not_less ac_simps)
  show ?case
    unfolding unfold Cons.IH by (cases "es = []") (auto simp: add.assoc)
qed simp

lemma decode_batch_entries_encoded:
  assumes "\<forall>e \<in> set es. entry_fits limits e" and "consecutive p es"
    and "p \<noteq> 0 \<longrightarrow> es \<noteq> [] \<longrightarrow> p \<noteq> - 1"
  shows "decode_batch_entries (pre @ concat (map batch_entry_bytes es)) limits (length es) (length pre) p
     = Ok (es, length pre + sum_list (map batch_entry_size es))"
  using assms
proof (induction es arbitrary: pre p)
  case (Cons e es)
  let ?rest = "concat (map batch_entry_bytes es)"
  let ?rec = "pre @ batch_entry_bytes e @ ?rest"
  have fit: "entry_fits limits e" using Cons.prems(1) by simp
  note u32 = entry_fits_u32 [OF fit]
  have IH: "decode_batch_entries ((pre @ batch_entry_bytes e) @ ?rest) limits (length es)
      (length (pre @ batch_entry_bytes e)) (sequence e) =
      Ok (es, length (pre @ batch_entry_bytes e) + sum_list (map batch_entry_size es))"
  proof (rule Cons.IH)
    show "sequence e \<noteq> 0 \<longrightarrow> es \<noteq> [] \<longrightarrow> sequence e \<noteq> - 1"
      using Cons.prems(2) by (cases es) auto
  qed (use Cons.prems in auto)
  have len: "length ?rec = length pre + batch_entry_size e + length ?rest"
    by (simp add: length_batch_entry_bytes)
  have fields: "Get64 ?rec (length pre) = sequence e"
    "span_at ?rec (length pre + 8) = Ok (type_byte (etype e))"
    "span_at ?rec (length pre + 9) = Ok 0" "span_at ?rec (length pre + 10) = Ok 0"
    "span_at ?rec (length pre + 11) = Ok 0"
    "Get32 ?rec (length pre + 12) = of_nat (length (user_key e))"
    "Get32 ?rec (length pre + 16) = of_nat (length (evalue e))"
    "slice ?rec (length pre + 20) (length (user_key e)) = Ok (user_key e)"
    "slice ?rec (length pre + 20 + length (user_key e)) (length (evalue e)) = Ok (evalue e)"
    by (simp_all add: batch_entry_bytes_def slice_simps)
  have tomb: "etype e = kTombstone \<longrightarrow> evalue e = []" and nz: "sequence e \<noteq> 0"
    using fit by (simp_all add: entry_fits_def entry_ok_def)
  have lim: "\<not> max_key_bytes limits < of_nat (length (user_key e))"
    "\<not> max_value_bytes limits < of_nat (length (evalue e))"
    using fit u32 by (simp_all add: entry_fits_def word_le_limit)
  have seq: "\<not> (p \<noteq> 0 \<and> (p = - 1 \<or> sequence e \<noteq> p + 1))"
    using Cons.prems(2,3) by auto
  have off: "length pre + 20 + length (user_key e) + length (evalue e) = length (pre @ batch_entry_bytes e)"
    by (simp add: length_batch_entry_bytes)
  show ?case
    using seq tomb nz lim u32 IH
    by (simp add: Let_def wal_consts fields len off length_batch_entry_bytes del: length_append)
       (simp add: length_batch_entry_bytes)
qed simp

definition batch_frame :: "InternalEntry list \<Rightarrow> bytes" where
  "batch_frame es =
     PutFixed32 (PutFixed32 (PutFixed16 (PutFixed32 [] kWalMagic) kWalBatchVersion
         @ [kWalBatchRecordType] @ [0]) (of_nat (length (batch_payload es))))
       (Crc32c ([kWalBatchRecordType] @ batch_payload es)) @ batch_payload es"

lemma batch_frame_layout:
  "batch_frame es = le32 kWalMagic @ le16 kWalBatchVersion @ kWalBatchRecordType # 0 #
       le32 (of_nat (length (batch_payload es))) @
       le32 (Crc32c (kWalBatchRecordType # batch_payload es)) @ batch_payload es"
  by (simp add: batch_frame_def PutFixed_append)

definition batch_ok :: "DecodeLimits \<Rightarrow> InternalEntry list \<Rightarrow> bool" where
  "batch_ok limits es \<longleftrightarrow> es \<noteq> [] \<and> length es \<le> kMaxWalBatchOperations \<and> consecutive 0 es \<and>
     (\<forall>e \<in> set es. entry_fits limits e) \<and>
     4 + sum_list (map batch_entry_size es) \<le> kMaxWalBatchBytes"

lemma EncodeWalBatch_eq:
  "EncodeWalBatch es limits = (if batch_ok limits es then Ok (batch_frame es) else Err kInvalidArgument)"
proof -
  have err: "batch_encode_check limits es p n = c \<Longrightarrow> c = kOk \<or> c = kInvalidArgument" for p n c
    by (induction limits es p n rule: batch_encode_check.induct) (auto simp: Let_def split: if_splits)
  have ok: "es \<noteq> [] \<Longrightarrow> batch_encode_check limits es 0 kWalBatchPayloadHeaderSize = kOk \<longleftrightarrow>
      consecutive 0 es \<and> (\<forall>e \<in> set es. entry_fits limits e) \<and>
      4 + sum_list (map batch_entry_size es) \<le> kMaxWalBatchBytes"
    by (simp add: batch_encode_check_Ok_iff kWalBatchPayloadHeaderSize_def)
  show ?thesis
    using err [of 0 kWalBatchPayloadHeaderSize "batch_encode_check limits es 0 kWalBatchPayloadHeaderSize"] ok
    by (auto simp: EncodeWalBatch_def Let_def batch_ok_def batch_frame_def not_less)
qed

lemma length_batch_payload [length_simps]:
  "length (batch_payload es) = 4 + sum_list (map batch_entry_size es)"
  by (simp add: batch_payload_layout length_concat comp_def length_batch_entry_bytes)

lemma length_batch_frame [length_simps]:
  "length (batch_frame es) = 20 + sum_list (map batch_entry_size es)"
  by (simp add: batch_frame_layout length_batch_payload)

lemma batch_entry_sizes_ge: "20 * length es \<le> sum_list (map batch_entry_size es)"
  by (induction es) auto

lemma batch_ok_sizes:
  assumes "batch_ok limits es"
  shows "length (batch_payload es) \<le> kMaxWalBatchBytes" "length (batch_payload es) \<le> max_u32"
    "length es \<le> max_u32"
  using assms by (auto simp: batch_ok_def length_batch_payload wal_consts max_u32_def)

lemma EncodeDecodeWalBatch:
  assumes ok: "batch_ok limits es"
  shows "DecodeWalBatch (batch_frame es) limits = Ok es"
proof -
  let ?r = "batch_frame es"
  note sizes = batch_ok_sizes [OF ok]
  have len: "length ?r = 16 + length (batch_payload es)"
    by (simp add: length_batch_frame length_batch_payload)
  have psize: "unat (of_nat (length (batch_payload es)) :: u32) = length (batch_payload es)"
    by (rule unat_of_nat_u32 [OF sizes(2)])
  have count: "unat (of_nat (length es) :: u32) = length es"
    by (rule unat_of_nat_u32 [OF sizes(3)])
  have nz: "(of_nat (length es) :: u32) \<noteq> 0"
    using count ok by (auto simp: batch_ok_def simp flip: unat_eq_0)
  have fields: "Get32 ?r 0 = kWalMagic" "Get16 ?r 4 = kWalBatchVersion"
    "Get32 ?r 8 = of_nat (length (batch_payload es))"
    "Get32 ?r 12 = Crc32c (kWalBatchRecordType # batch_payload es)"
    "span_at ?r 7 = Ok 0" "span_at ?r 6 = Ok kWalBatchRecordType"
    "slice ?r 16 (length (batch_payload es)) = Ok (batch_payload es)"
    unfolding batch_frame_layout by (simp_all add: slice_simps)
  have cnt: "Get32 ?r 16 = of_nat (length es)"
    unfolding batch_frame_layout by (simp add: batch_payload_layout slice_simps)
  let ?pre = "le32 kWalMagic @ le16 kWalBatchVersion @ kWalBatchRecordType # 0 #
       le32 (of_nat (length (batch_payload es))) @
       le32 (Crc32c (kWalBatchRecordType # batch_payload es)) @ le32 (of_nat (length es))"
  have split: "?r = ?pre @ concat (map batch_entry_bytes es)"
    unfolding batch_frame_layout by (simp add: batch_payload_layout)
  have "decode_batch_entries (?pre @ concat (map batch_entry_bytes es)) limits (length es) (length ?pre) 0 =
      Ok (es, length ?pre + sum_list (map batch_entry_size es))"
    using ok by (intro decode_batch_entries_encoded) (auto simp: batch_ok_def)
  then have entries: "decode_batch_entries ?r limits (length es) 20 0 = Ok (es, length ?r)"
    unfolding split [symmetric] by (simp add: length_batch_frame)
  have "length es * 20 \<le> length (batch_payload es) - 4"
    using batch_entry_sizes_ge [of es] by (simp add: length_batch_payload)
  moreover have "length es \<le> 1000000" "length (batch_payload es) \<le> 134217728"
    using ok sizes(1) by (simp_all add: batch_ok_def wal_consts)
  moreover have "4 \<le> length (batch_payload es)" by (simp add: length_batch_payload)
  ultimately show ?thesis
    using len nz
    by (simp add: DecodeWalBatch_def Let_def fields cnt psize count wal_consts entries not_less)
qed

section \<open>What the decoders accept\<close>

lemma decode_batch_entries_sound:
  "decode_batch_entries rec limits n offset p = Ok (es, q) \<Longrightarrow>
     length es = n \<and> consecutive p es \<and> (\<forall>e \<in> set es. entry_fits limits e)"
proof (induction n arbitrary: offset p es q)
  case (Suc n)
  let ?seq = "Get64 rec offset"
  let ?ks = "Get32 rec (offset + 12)" and ?vs = "Get32 rec (offset + 16)"
  have g: "\<not> size_minus (length rec) offset < kWalBatchEntryHeaderSize"
    using Suc.prems by (auto split: if_splits)
  obtain ty key val es' q' where
    ks: "\<not> ?ks > max_key_bytes limits" and vs: "\<not> ?vs > max_value_bytes limits"
    and seq: "?seq \<noteq> 0" "p \<noteq> 0 \<longrightarrow> ?seq = p + 1"
    and key: "slice rec (offset + 20) (unat ?ks) = Ok key"
    and val: "slice rec (offset + 20 + unat ?ks) (unat ?vs) = Ok val"
    and tomb: "byte_type ty = kTombstone \<longrightarrow> val = []"
    and rest: "decode_batch_entries rec limits n (offset + 20 + unat ?ks + unat ?vs) ?seq = Ok (es', q')"
    and es: "es = \<lparr>user_key = key, sequence = ?seq, etype = byte_type ty, evalue = val\<rparr> # es'"
    using Suc.prems g
    by (simp add: Let_def rbind_Ok_iff kWalBatchEntryHeaderSize_def split: if_splits prod.splits) blast
  have "length key \<le> unat ?ks" "length val \<le> unat ?vs"
    using key val by (auto simp: slice_def split: if_splits)
  then have "entry_fits limits \<lparr>user_key = key, sequence = ?seq, etype = byte_type ty, evalue = val\<rparr>"
    using ks vs seq tomb by (auto simp: entry_fits_def entry_ok_def not_less word_le_nat_alt)
  with Suc.IH [OF rest] seq es show ?case by simp
qed simp

lemma DecodeWalBatch_sound:
  "DecodeWalBatch r limits = Ok es \<Longrightarrow> es \<noteq> [] \<and> consecutive 0 es \<and> (\<forall>e \<in> set es. entry_fits limits e)"
proof -
  assume "DecodeWalBatch r limits = Ok es"
  then have "unat (Get32 r 16) \<noteq> 0" "\<exists>q. decode_batch_entries r limits (unat (Get32 r 16)) 20 0 = Ok (es, q)"
    by (auto simp: DecodeWalBatch_def Let_def wal_consts rbind_Ok_iff unat_eq_0 split: if_splits prod.splits)
  then show ?thesis using decode_batch_entries_sound by fastforce
qed

text \<open>
  A frame whose payload differs from the written one in a single byte is refused: the stored
  checksum no longer matches.
\<close>

definition batch_header :: "InternalEntry list \<Rightarrow> bytes" where
  "batch_header es = le32 kWalMagic @ le16 kWalBatchVersion @ kWalBatchRecordType # 0 #
       le32 (of_nat (length (batch_payload es))) @ le32 (Crc32c (kWalBatchRecordType # batch_payload es))"

lemma batch_frame_header: "batch_frame es = batch_header es @ batch_payload es"
  by (simp add: batch_frame_layout batch_header_def)

lemma length_batch_header [simp, length_simps]: "length (batch_header es) = 16"
  by (simp add: batch_header_def)

lemma DecodeWalBatch_damaged:
  assumes "16 \<le> i" "i < length (batch_frame es)" "x \<noteq> batch_frame es ! i"
  shows "DecodeWalBatch ((batch_frame es)[i := x]) limits = Err kCorruption"
proof -
  let ?p = "(batch_payload es)[i - 16 := x]"
  have r: "(batch_frame es)[i := x] = batch_header es @ ?p"
    using assms(1) by (simp add: batch_frame_header list_update_append)
  have "x \<noteq> batch_payload es ! (i - 16)" "i - 16 < length (batch_payload es)"
    using assms by (auto simp: batch_frame_header nth_append)
  then have crc: "Crc32c (kWalBatchRecordType # ?p) \<noteq> Crc32c (kWalBatchRecordType # batch_payload es)"
    using Crc32c_list_update [of "Suc (i - 16)" "kWalBatchRecordType # batch_payload es" x] by simp
  have "Get32 (batch_header es @ ?p) 12 = Crc32c (kWalBatchRecordType # batch_payload es)"
    by (simp add: batch_header_def slice_simps)
  moreover have "span_at (batch_header es @ ?p) 6 = Ok kWalBatchRecordType"
    "span_at (batch_header es @ ?p) 7 = Ok 0"
    by (simp_all add: batch_header_def slice_simps)
  moreover have "slice (batch_header es @ ?p) 16 (length ?p) = Ok ?p"
    by (simp add: slice_simps)
  ultimately show ?thesis
    using crc unfolding r by (auto simp: DecodeWalBatch_def Let_def wal_consts)
qed

section \<open>Properties\<close>

text \<open>
  A batch the encoder accepts is decoded to the same entries. The encoder accepts exactly the
  non-empty batches of consecutive non-zero sequences within the limits, and refuses every other one
  with \<open>kInvalidArgument\<close>.
\<close>

theorem wal_batch_roundtrip:
  "if batch_ok limits es then \<exists>r. EncodeWalBatch es limits = Ok r \<and> DecodeWalBatch r limits = Ok es
   else EncodeWalBatch es limits = Err kInvalidArgument"
  using EncodeDecodeWalBatch [of limits es] by (simp add: EncodeWalBatch_eq)

text \<open>
  C33: For arbitrary bytes, both WAL decoders stay within the record they were given: no out-of-range
  access and no wrapped length is used, whatever the header and the length fields say.
\<close>

theorem wal_decoders_memory_safe: "DecodeWalRecord r limits \<noteq> UB \<and> DecodeWalBatch r limits \<noteq> UB"
  by (simp add: DecodeWalRecord_safe DecodeWalBatch_safe)

text \<open>
  What the batch decoder accepts is a non-empty run of consecutive non-zero sequences in which
  every key and value respects the decode limits and no tombstone carries a value.
\<close>

theorem wal_batch_decode_sound:
  "DecodeWalBatch r limits = Ok es \<Longrightarrow> es \<noteq> [] \<and> consecutive 0 es \<and> (\<forall>e \<in> set es. entry_fits limits e)"
  by (rule DecodeWalBatch_sound)

theorem wal_batch_decode_sound_witness:
  "consecutive 0 [\<lparr>user_key = [1], sequence = 9, etype = kValue, evalue = [7]\<rparr>]"
proof -
  let ?es = "[\<lparr>user_key = [1], sequence = 9, etype = kValue, evalue = [7]\<rparr>] :: InternalEntry list"
  let ?l = "\<lparr>max_key_bytes = 8, max_value_bytes = 8\<rparr> :: DecodeLimits"
  have "batch_ok ?l ?es"
    by (simp add: batch_ok_def entry_fits_def entry_ok_def kMaxWalBatchOperations_def kMaxWalBatchBytes_def)
  then have "DecodeWalBatch (batch_frame ?es) ?l = Ok ?es" by (rule EncodeDecodeWalBatch)
  then show ?thesis using wal_batch_decode_sound by blast
qed

text \<open>
  A batch record of which one payload byte was altered is refused as corruption: the checksum
  covers the whole payload.
\<close>

theorem wal_batch_damage_detected:
  assumes "16 \<le> i" "i < length (batch_frame es)" "x \<noteq> batch_frame es ! i"
  shows "DecodeWalBatch ((batch_frame es)[i := x]) limits = Err kCorruption"
  by (rule DecodeWalBatch_damaged [OF assms])

theorem wal_batch_damage_detected_witness:
  "\<exists>x. DecodeWalBatch ((batch_frame [\<lparr>user_key = [1], sequence = 9, etype = kValue, evalue = [7]\<rparr>])[20 := x])
         \<lparr>max_key_bytes = 8, max_value_bytes = 8\<rparr> = Err kCorruption"
proof -
  let ?f = "batch_frame [\<lparr>user_key = [1], sequence = 9, etype = kValue, evalue = [7]\<rparr>]"
  have "20 < length ?f" by (simp add: length_batch_frame)
  moreover have "?f ! 20 + 1 \<noteq> ?f ! 20" by simp
  ultimately show ?thesis using wal_batch_damage_detected [of 20 _ "?f ! 20 + 1"] by fastforce
qed

end
