(* ===== verification/Wal_Log.thy ===== *)
theory Wal_Log
  imports Wal_Codec File_Io
begin

text \<open>
  \<open>src/wal/wal_writer.cpp\<close> and \<open>wal_reader.cpp\<close>: appending encoded records to the log file, and
  replaying a log. \<open>Replay\<close> reads a header and a payload at a time, through short reads, decodes
  the record, checks that sequences keep increasing and hands the entries to a callback. The main
  lemma is the recovery contract: from any prefix of a log of encoded batches, replay applies
  exactly the batches that are complete in the prefix, in order, and reports where they end.
\<close>

section \<open>Writer\<close>

record WalWriter =
  ww_file :: WritableFile
  ww_limits :: DecodeLimits

definition append_encoded :: "bytes result \<Rightarrow> WalWriter \<Rightarrow> StatusCode result \<times> WalWriter" where
  "append_encoded encoded w =
     (case encoded of
        Ok bytes \<Rightarrow> (case Append bytes (ww_file w) of (c, f) \<Rightarrow> (Ok c, w\<lparr>ww_file := f\<rparr>))
      | Err c \<Rightarrow> (Ok c, w)
      | UB \<Rightarrow> (UB, w))"

definition WalWriter_Append :: "InternalEntry \<Rightarrow> WalWriter \<Rightarrow> StatusCode result \<times> WalWriter" where
  "WalWriter_Append entry w = append_encoded (EncodeWalRecord entry (ww_limits w)) w"

definition WalWriter_AppendBatch :: "InternalEntry list \<Rightarrow> WalWriter \<Rightarrow> StatusCode result \<times> WalWriter" where
  "WalWriter_AppendBatch entries w = append_encoded (EncodeWalBatch entries (ww_limits w)) w"

definition WalWriter_Sync :: "WalWriter \<Rightarrow> StatusCode \<times> WalWriter" where
  "WalWriter_Sync w = (case Sync (ww_file w) of (c, f) \<Rightarrow> (c, w\<lparr>ww_file := f\<rparr>))"

definition WalWriter_Close :: "WalWriter \<Rightarrow> StatusCode \<times> WalWriter" where
  "WalWriter_Close w = (case CloseFile (ww_file w) of (c, f) \<Rightarrow> (c, w\<lparr>ww_file := f\<rparr>))"

section \<open>Reader\<close>

function ReadUpTo :: "nat \<Rightarrow> (SequentialFile, bytes) op" where
  "ReadUpTo n f =
     (if n = 0 then op_return [] f
      else op_bind (SequentialRead n) (\<lambda>x.
        if x = [] then op_return []
        else op_bind (ReadUpTo (n - length x)) (\<lambda>y. op_return (x @ y))) f)"
  by pat_completeness auto
termination
  by (relation "measure (\<lambda>(n, f). n)") auto

declare ReadUpTo.simps [simp del]

record WalReplayResult =
  max_sequence :: u64
  valid_bytes :: u64
  truncated_tail :: bool

text \<open>Reading one record: a header and its payload, either of which may be cut short.\<close>

datatype frame_read = Eof | Truncated | Frame u16 bytes

definition max_payload :: "DecodeLimits \<Rightarrow> u16 \<Rightarrow> nat" where
  "max_payload limits version =
     (if version = kWalVersion
      then kWalPayloadHeaderSize + unat (max_key_bytes limits) + unat (max_value_bytes limits)
      else kMaxWalBatchBytes)"

definition read_frame :: "DecodeLimits \<Rightarrow> (SequentialFile, frame_read) op" where
  "read_frame limits =
     op_bind (ReadUpTo kWalHeaderSize) (\<lambda>header.
       if header = [] then op_return Eof
       else if length header < kWalHeaderSize then op_return Truncated
       else
         let magic = Get32 header 0; version = Get16 header 4; payload_size = Get32 header 8 in
         if magic \<noteq> kWalMagic \<or> (version \<noteq> kWalVersion \<and> version \<noteq> kWalBatchVersion)
         then op_fail kCorruption
         else if unat payload_size > max_payload limits version then op_fail kCorruption
         else op_bind (ReadUpTo (unat payload_size)) (\<lambda>payload.
           if length payload < unat payload_size then op_return Truncated
           else op_return (Frame version (header @ payload))))"

definition decode_frame :: "DecodeLimits \<Rightarrow> u16 \<Rightarrow> bytes \<Rightarrow> InternalEntry list result" where
  "decode_frame limits version rec =
     (if version = kWalVersion then rbind (DecodeWalRecord rec limits) (\<lambda>e. Ok [e])
      else DecodeWalBatch rec limits)"

lemma ReadUpTo_step:
  "n \<noteq> 0 \<Longrightarrow> ReadUpTo n f = op_bind (SequentialRead n) (\<lambda>x.
     if x = [] then op_return []
     else op_bind (ReadUpTo (n - length x)) (\<lambda>y. op_return (x @ y))) f"
  by (subst ReadUpTo.simps) simp

lemma ReadUpTo_prefix:
  "ReadUpTo n f = (Ok x, f') \<Longrightarrow> sq_data f = x @ sq_data f' \<and> length x = min n (length (sq_data f))"
proof (induction n arbitrary: f x f' rule: less_induct)
  case (less n)
  show ?case
  proof (cases "n = 0")
    case False
    then obtain a f1 where a: "SequentialRead n f = (Ok a, f1)"
      and rest: "(if a = [] then op_return []
         else op_bind (ReadUpTo (n - length a)) (\<lambda>y. op_return (a @ y))) f1 = (Ok x, f')"
      using less.prems unfolding ReadUpTo_step [OF False] op_bind_Ok_iff by blast
    have d: "sq_data f = a @ sq_data f1" "length a \<le> n" "a = [] \<longleftrightarrow> n = 0 \<or> sq_data f = []"
      using sq_read_loop_Ok [of "sq_data f" "sq_reads f" n a f1] a unfolding SequentialRead_def by blast+
    show ?thesis
    proof (cases "a = []")
      case True
      with rest d False show ?thesis by (auto simp: op_simps)
    next
      case ne: False
      then obtain y where y: "ReadUpTo (n - length a) f1 = (Ok y, f')" "x = a @ y"
        using rest by (auto simp: op_bind_Ok_iff op_simps)
      have lt: "n - length a < n" using False ne by simp
      have IH: "sq_data f1 = y @ sq_data f'" "length y = min (n - length a) (length (sq_data f1))"
        using less.IH [OF lt y(1)] by blast+
      have "sq_data f = x @ sq_data f'" unfolding d(1) IH(1) y(2) by simp
      moreover have "length x = min n (length (sq_data f))"
        unfolding y(2) d(1) length_append IH(2) min_def using d(2) by arith
      ultimately show ?thesis by blast
    qed
  qed (use less.prems in \<open>auto simp: ReadUpTo.simps [of 0] op_simps\<close>)
qed

lemma ReadUpTo_total:
  "reads_ok (sq_reads f) \<Longrightarrow> \<exists>x f'. ReadUpTo n f = (Ok x, f') \<and> reads_ok (sq_reads f')"
proof (induction n arbitrary: f rule: less_induct)
  case (less n)
  obtain a f1 where a: "SequentialRead n f = (Ok a, f1)" "reads_ok (sq_reads f1)"
    using sq_read_loop_total [OF less.prems, of "sq_data f" n] by (auto simp: SequentialRead_def)
  show ?case
  proof (cases "n = 0 \<or> a = []")
    case True
    with a less.prems show ?thesis
      by (auto simp: ReadUpTo.simps [of n f] op_bind_def op_simps)
  next
    case False
    then obtain y f' where "ReadUpTo (n - length a) f1 = (Ok y, f')" "reads_ok (sq_reads f')"
      using less.IH [of "n - length a" f1] a by auto
    with False a show ?thesis
      by (auto simp: ReadUpTo.simps [of n f] op_bind_def op_simps)
  qed
qed

text \<open>Whatever the pattern of short reads, the loop reads as much as is there.\<close>

lemma ReadUpTo_take:
  assumes "reads_ok (sq_reads f)"
  obtains f' where "ReadUpTo n f = (Ok (take n (sq_data f)), f')"
    "sq_data f' = drop n (sq_data f)" "reads_ok (sq_reads f')"
proof -
  obtain x f' where r: "ReadUpTo n f = (Ok x, f')" "reads_ok (sq_reads f')"
    using ReadUpTo_total [OF assms] by blast
  have d: "sq_data f = x @ sq_data f'" and l: "length x = min n (length (sq_data f))"
    using ReadUpTo_prefix [OF r(1)] by blast+
  have "take n (x @ sq_data f') = x \<and> drop n (x @ sq_data f') = sq_data f'"
    using l unfolding d by (simp add: min_def split: if_splits)
  then have "take n (sq_data f) = x \<and> drop n (sq_data f) = sq_data f'" unfolding d .
  with r that show thesis by metis
qed

lemma read_frame_shrinks:
  assumes "read_frame limits f = (Ok (Frame v rec), f')"
  shows "length (sq_data f') < length (sq_data f)"
proof -
  obtain h f1 where h: "ReadUpTo kWalHeaderSize f = (Ok h, f1)" "h \<noteq> []"
    and rest: "\<exists>p. ReadUpTo (unat (Get32 h 8)) f1 = (Ok p, f')"
    using assms
    by (auto simp: read_frame_def op_bind_Ok_iff op_simps Let_def split: if_splits)
  from rest obtain p where "sq_data f1 = p @ sq_data f'" using ReadUpTo_prefix by blast
  moreover have "sq_data f = h @ sq_data f1" using ReadUpTo_prefix [OF h(1)] by simp
  ultimately show ?thesis using h(2) by simp
qed

function replay_loop ::
  "DecodeLimits \<Rightarrow> (InternalEntry list \<Rightarrow> 'st \<Rightarrow> StatusCode \<times> 'st) \<Rightarrow> SequentialFile \<Rightarrow> u64
   \<Rightarrow> WalReplayResult \<Rightarrow> 'st \<Rightarrow> WalReplayResult result \<times> 'st" where
  "replay_loop limits apply f previous_sequence result st =
     (case read_frame limits f of
        (Err c, f') \<Rightarrow> (Err c, st)
      | (UB, f') \<Rightarrow> (UB, st)
      | (Ok Eof, f') \<Rightarrow> (Ok result, st)
      | (Ok Truncated, f') \<Rightarrow> (Ok (result\<lparr>truncated_tail := True\<rparr>), st)
      | (Ok (Frame version rec), f') \<Rightarrow>
          (case decode_frame limits version rec of
             Err c \<Rightarrow> (Err c, st)
           | UB \<Rightarrow> (UB, st)
           | Ok decoded \<Rightarrow>
               if sequence (hd decoded) \<le> previous_sequence then (Err kCorruption, st)
               else (case apply decoded st of (c, st') \<Rightarrow>
                 if c \<noteq> kOk then (Err c, st')
                 else replay_loop limits apply f' (sequence (last decoded))
                        (result\<lparr>max_sequence := sequence (last decoded),
                                valid_bytes := valid_bytes result + of_nat (length rec)\<rparr>) st')))"
  by pat_completeness auto
termination
  by (relation "measure (\<lambda>(limits, apply, f, p, r, st). length (sq_data f))")
     (auto dest!: sym [of _ "read_frame _ _"] read_frame_shrinks)

declare replay_loop.simps [simp del]

definition Replay ::
  "DecodeLimits \<Rightarrow> SequentialFile \<Rightarrow> u64 \<Rightarrow> (InternalEntry list \<Rightarrow> 'st \<Rightarrow> StatusCode \<times> 'st)
   \<Rightarrow> 'st \<Rightarrow> WalReplayResult result \<times> 'st" where
  "Replay limits f sequence_floor apply st =
     replay_loop limits apply f sequence_floor
       \<lparr>max_sequence = 0, valid_bytes = 0, truncated_tail = False\<rparr> st"

section \<open>Recovery from a cut log\<close>

text \<open>
  The batches whose frames lie entirely in the first \<open>n\<close> bytes of a log, the requirement that
  their sequences increase from a floor, and what the callback does with them.
\<close>

abbreviation log_bytes :: "InternalEntry list list \<Rightarrow> bytes" where
  "log_bytes bs \<equiv> concat (map batch_frame bs)"

fun complete_frames :: "nat \<Rightarrow> InternalEntry list list \<Rightarrow> InternalEntry list list" where
  "complete_frames n [] = []"
| "complete_frames n (b # bs) =
     (if length (batch_frame b) \<le> n then b # complete_frames (n - length (batch_frame b)) bs else [])"

fun frames_increase :: "u64 \<Rightarrow> InternalEntry list list \<Rightarrow> bool" where
  "frames_increase p [] = True"
| "frames_increase p (b # bs) = (p < sequence (hd b) \<and> frames_increase (sequence (last b)) bs)"

fun apply_frames ::
  "(InternalEntry list \<Rightarrow> 'st \<Rightarrow> StatusCode \<times> 'st) \<Rightarrow> InternalEntry list list \<Rightarrow> 'st \<Rightarrow> StatusCode \<times> 'st" where
  "apply_frames apply [] st = (kOk, st)"
| "apply_frames apply (b # bs) st =
     (case apply b st of (c, st') \<Rightarrow> if c \<noteq> kOk then (c, st') else apply_frames apply bs st')"

definition frames_max :: "u64 \<Rightarrow> InternalEntry list list \<Rightarrow> u64" where
  "frames_max p bs = (if bs = [] then p else sequence (last (last bs)))"

lemma batch_frame_nonempty: "16 < length (batch_frame es)"
  by (simp add: length_batch_frame)

lemma read_frame_eof: "sq_data f = [] \<Longrightarrow> reads_ok (sq_reads f) \<Longrightarrow> fst (read_frame limits f) = Ok Eof"
  by (rule ReadUpTo_take [of f kWalHeaderSize]) (auto simp: read_frame_def op_bind_def op_simps)

lemma header_fields:
  "Get32 (batch_header es) 0 = kWalMagic" "Get16 (batch_header es) 4 = kWalBatchVersion"
  "Get32 (batch_header es) 8 = of_nat (length (batch_payload es))"
  by (simp_all add: batch_header_def slice_simps)

text \<open>Once the header of a batch is read, the payload decides.\<close>

lemma read_frame_header:
  assumes ok: "batch_ok limits es" and data: "sq_data f = batch_header es @ d" and reads: "reads_ok (sq_reads f)"
  obtains f' where "sq_data f' = drop (length (batch_payload es)) d" "reads_ok (sq_reads f')"
    "read_frame limits f =
       (Ok (if length d < length (batch_payload es) then Truncated
            else Frame kWalBatchVersion (batch_header es @ take (length (batch_payload es)) d)), f')"
proof -
  let ?n = "length (batch_payload es)"
  have n: "unat (of_nat ?n :: u32) = ?n" by (rule unat_of_nat_u32 [OF batch_ok_sizes(2) [OF ok]])
  have max: "\<not> unat (of_nat ?n :: u32) > max_payload limits kWalBatchVersion"
    using n batch_ok_sizes(1) [OF ok] by (simp add: max_payload_def kWalBatchVersion_def kWalVersion_def)
  obtain f1 where h: "ReadUpTo kWalHeaderSize f = (Ok (batch_header es), f1)"
    and f1: "sq_data f1 = d" "reads_ok (sq_reads f1)"
    by (rule ReadUpTo_take [OF reads, of kWalHeaderSize]) (auto simp: data kWalHeaderSize_def)
  obtain f' where p: "ReadUpTo ?n f1 = (Ok (take ?n d), f')"
    and f': "sq_data f' = drop ?n d" "reads_ok (sq_reads f')"
    by (rule ReadUpTo_take [OF f1(2), of ?n]) (auto simp: f1(1))
  have ne: "batch_header es \<noteq> []" using length_batch_header [of es] by fastforce
  show thesis
  proof (rule that [OF f'])
    show "read_frame limits f =
       (Ok (if length d < ?n then Truncated
            else Frame kWalBatchVersion (batch_header es @ take ?n d)), f')"
      using max by (simp add: read_frame_def op_bind_def h [unfolded kWalHeaderSize_def] p n header_fields op_simps kWalHeaderSize_def Let_def ne)
  qed
qed

lemma read_frame_complete:
  assumes "batch_ok limits es" "sq_data f = batch_frame es @ rest" "reads_ok (sq_reads f)"
  obtains f' where "read_frame limits f = (Ok (Frame kWalBatchVersion (batch_frame es)), f')"
    "sq_data f' = rest" "reads_ok (sq_reads f')"
  using read_frame_header [of limits es f "batch_payload es @ rest"] assms
  by (force simp: batch_frame_header)

lemma read_frame_torn:
  assumes "batch_ok limits es" "sq_data f = take n (batch_frame es)" "0 < n" "n < length (batch_frame es)"
    "reads_ok (sq_reads f)"
  shows "fst (read_frame limits f) = Ok Truncated"
proof (cases "n < 16")
  case True
  obtain f1 where h: "ReadUpTo kWalHeaderSize f = (Ok (take n (batch_header es)), f1)"
    by (rule ReadUpTo_take [OF assms(5), of kWalHeaderSize])
       (use True in \<open>auto simp: assms(2) kWalHeaderSize_def batch_frame_header min_def\<close>)
  have "batch_header es \<noteq> []" using length_batch_header [of es] by fastforce
  then show ?thesis
    using True assms(3) h [unfolded kWalHeaderSize_def]
    by (simp add: read_frame_def op_bind_def op_simps kWalHeaderSize_def)
next
  case False
  then have "sq_data f = batch_header es @ take (n - 16) (batch_payload es)"
    by (simp add: assms(2) batch_frame_header)
  moreover have "n - 16 < length (batch_payload es)"
    using False assms(4) by (simp add: batch_frame_header)
  ultimately show ?thesis
    using read_frame_header [OF assms(1) _ assms(5), of "take (n - 16) (batch_payload es)"] by fastforce
qed

lemma decode_frame_batch: "batch_ok limits es \<Longrightarrow> decode_frame limits kWalBatchVersion (batch_frame es) = Ok es"
  by (simp add: decode_frame_def kWalBatchVersion_def kWalVersion_def EncodeDecodeWalBatch)

lemma replay_loop_log:
  assumes "sq_data f = take n (log_bytes bs)" "reads_ok (sq_reads f)"
    "\<forall>b \<in> set bs. batch_ok limits b" "frames_increase p bs"
  shows "replay_loop limits apply f p r st =
     (let cs = complete_frames n bs in
      case apply_frames apply cs st of (c, st') \<Rightarrow>
        if c \<noteq> kOk then (Err c, st')
        else (Ok \<lparr>max_sequence = frames_max (max_sequence r) cs,
                   valid_bytes = valid_bytes r + of_nat (length (log_bytes cs)),
                   truncated_tail = truncated_tail r \<or> length (log_bytes cs) < min n (length (log_bytes bs))\<rparr>, st'))"
  using assms
proof (induction bs arbitrary: f n p r st)
  case Nil
  then have "fst (read_frame limits f) = Ok Eof" by (intro read_frame_eof) simp_all
  then show ?case
    by (subst replay_loop.simps) (cases "read_frame limits f", simp add: frames_max_def)
next
  case (Cons b bs)
  let ?l = "length (batch_frame b)"
  have ok: "batch_ok limits b" and inc: "p < sequence (hd b)" "frames_increase (sequence (last b)) bs"
    using Cons.prems by auto
  show ?case
  proof (cases "?l \<le> n")
    case True
    then have "sq_data f = batch_frame b @ take (n - ?l) (log_bytes bs)" using Cons.prems(1) by simp
    then obtain f' where rf: "read_frame limits f = (Ok (Frame kWalBatchVersion (batch_frame b)), f')"
      and f': "sq_data f' = take (n - ?l) (log_bytes bs)" "reads_ok (sq_reads f')"
      using read_frame_complete [OF ok _ Cons.prems(2)] by blast
    obtain c st' where a: "apply b st = (c, st')" by fastforce
    define r' where "r' = r\<lparr>max_sequence := sequence (last b), valid_bytes := valid_bytes r + of_nat ?l\<rparr>"
    have step: "replay_loop limits apply f p r st =
        (if c \<noteq> kOk then (Err c, st') else replay_loop limits apply f' (sequence (last b)) r' st')"
      by (subst replay_loop.simps) (simp add: rf decode_frame_batch [OF ok] a r'_def inc(1) [unfolded not_le [symmetric]])
    have "c = kOk \<Longrightarrow> ?thesis"
      using Cons.IH [OF f' _ inc(2), of r' st'] Cons.prems(3) True a
      by (auto simp: step r'_def frames_max_def Let_def add.assoc split: prod.splits if_splits)
    moreover have "c \<noteq> kOk \<Longrightarrow> ?thesis" using True a by (simp add: step)
    ultimately show ?thesis by blast
  next
    case False
    show ?thesis
    proof (cases "n = 0")
      case True
      then have "fst (read_frame limits f) = Ok Eof" using Cons.prems by (intro read_frame_eof) simp_all
      then show ?thesis using False True
        by (subst replay_loop.simps) (cases "read_frame limits f", simp add: frames_max_def Let_def)
    next
      case n0: False
      then have "fst (read_frame limits f) = Ok Truncated"
        using False Cons.prems by (intro read_frame_torn [OF ok, of f n]) simp_all
      then show ?thesis using False n0
        by (subst replay_loop.simps) (cases "read_frame limits f", simp add: frames_max_def Let_def)
    qed
  qed
qed

text \<open>A complete frame whose sequences do not go on from the ones before it ends replay with an error.\<close>

lemma replay_loop_stale:
  assumes "sq_data f = log_bytes bs @ batch_frame b @ rest" "reads_ok (sq_reads f)"
    "\<forall>x \<in> set bs. batch_ok limits x" "batch_ok limits b" "frames_increase p bs" "sequence (hd b) \<le> frames_max p bs"
  shows "\<exists>c. fst (replay_loop limits apply f p r st) = Err c"
  using assms
proof (induction bs arbitrary: f p r st)
  case Nil
  obtain f' where "read_frame limits f = (Ok (Frame kWalBatchVersion (batch_frame b)), f')"
    using read_frame_complete [OF Nil.prems(4) _ Nil.prems(2), of rest] Nil.prems(1) by auto
  then show ?case using Nil.prems(6)
    by (subst replay_loop.simps) (simp add: decode_frame_batch [OF Nil.prems(4)] frames_max_def)
next
  case (Cons x bs)
  have ok: "batch_ok limits x" and inc: "p < sequence (hd x)" "frames_increase (sequence (last x)) bs"
    using Cons.prems by auto
  obtain f' where rf: "read_frame limits f = (Ok (Frame kWalBatchVersion (batch_frame x)), f')"
    and f': "sq_data f' = log_bytes bs @ batch_frame b @ rest" "reads_ok (sq_reads f')"
    using read_frame_complete [OF ok _ Cons.prems(2), of "log_bytes bs @ batch_frame b @ rest"] Cons.prems(1) by auto
  obtain c st' where a: "apply x st = (c, st')" by fastforce
  have step: "replay_loop limits apply f p r st =
      (if c \<noteq> kOk then (Err c, st')
       else replay_loop limits apply f' (sequence (last x))
         (r\<lparr>max_sequence := sequence (last x), valid_bytes := valid_bytes r + of_nat (length (batch_frame x))\<rparr>) st')"
    by (subst replay_loop.simps) (simp add: rf decode_frame_batch [OF ok] a inc(1) [unfolded not_le [symmetric]])
  have "frames_max (sequence (last x)) bs = frames_max p (x # bs)" by (simp add: frames_max_def)
  then show ?case
    using Cons.IH [OF f' _ Cons.prems(4) inc(2)] Cons.prems(3,6) by (auto simp: step)
qed

end
