(* ===== verification/Ordered_Map.thy ===== *)
theory Ordered_Map
  imports Prelude
begin

text \<open>
  \<open>std::map\<close> as the sources use it: a strictly key-sorted association list. \<open>om_find\<close> is
  \<open>find\<close>, \<open>om_put\<close> is insertion or assignment through an iterator or \<open>operator[]\<close>, \<open>om_erase\<close> is
  \<open>erase\<close> and \<open>om_lower_bound\<close> the suffix that starts at \<open>lower_bound\<close>. The MemTable, its staging
  area and the snapshot registry are built on it. Iteration order is the list order.
\<close>

type_synonym ('k, 'v) omap = "('k \<times> 'v) list"

abbreviation om_find :: "('k, 'v) omap \<Rightarrow> 'k \<Rightarrow> 'v option" where
  "om_find \<equiv> map_of"

fun om_put :: "'k::linorder \<Rightarrow> 'v \<Rightarrow> ('k, 'v) omap \<Rightarrow> ('k, 'v) omap" where
  "om_put k v [] = [(k, v)]"
| "om_put k v ((k', v') # m) =
     (if k < k' then (k, v) # (k', v') # m
      else if k = k' then (k, v) # m
      else (k', v') # om_put k v m)"

fun om_erase :: "'k \<Rightarrow> ('k, 'v) omap \<Rightarrow> ('k, 'v) omap" where
  "om_erase k [] = []"
| "om_erase k ((k', v') # m) = (if k = k' then m else (k', v') # om_erase k m)"

definition om_lower_bound :: "'k::linorder \<Rightarrow> ('k, 'v) omap \<Rightarrow> ('k, 'v) omap" where
  "om_lower_bound k m = dropWhile (\<lambda>(k', v). k' < k) m"

abbreviation om_sorted :: "('k::linorder, 'v) omap \<Rightarrow> bool" where
  "om_sorted m \<equiv> sorted_wrt (<) (map fst m)"

lemma om_find_put [simp]: "om_find (om_put k v m) = (om_find m)(k \<mapsto> v)"
  by (induction m) (auto simp: fun_eq_iff)

lemma om_keys_put [simp]: "fst ` set (om_put k v m) = insert k (fst ` set m)"
proof (induction m)
  case (Cons x m)
  then show ?case by (cases x) (simp add: insert_commute)
qed simp

lemma om_sorted_Cons: "om_sorted (x # m) \<longleftrightarrow> (\<forall>k \<in> fst ` set m. fst x < k) \<and> om_sorted m"
  by simp

lemma om_sorted_put [inv_intros]: "om_sorted m \<Longrightarrow> om_sorted (om_put k v m)"
proof (induction m)
  case (Cons x m)
  obtain k' v' where x: "x = (k', v')" by fastforce
  consider "k < k'" | "k = k'" | "k' < k" by fastforce
  then show ?case
  proof cases
    case 1
    with Cons.prems x show ?thesis by auto
  next
    case 2
    with Cons.prems x show ?thesis by simp
  next
    case 3
    then have "om_put k v (x # m) = x # om_put k v m" using x by auto
    with 3 Cons x show ?thesis by (simp only: om_sorted_Cons om_keys_put) auto
  qed
qed simp

lemma om_find_None_keys: "om_find m k = None \<longleftrightarrow> k \<notin> fst ` set m"
  by (rule map_of_eq_None_iff)

lemma om_find_in_set: "om_sorted m \<Longrightarrow> om_find m k = Some v \<longleftrightarrow> (k, v) \<in> set m"
  by (simp add: map_of_eq_Some_iff strict_sorted_iff)

lemma om_erase_filter: "om_sorted m \<Longrightarrow> om_erase k m = filter (\<lambda>(k', v). k' \<noteq> k) m"
proof (induction m)
  case (Cons x m)
  obtain k' v' where x: "x = (k', v')" by fastforce
  have "filter (\<lambda>(a, v). a \<noteq> k) m = m" if "k = k'"
    using Cons.prems x that by (auto simp: filter_id_conv)
  with Cons x show ?case by auto
qed simp

lemma om_sorted_filter: "om_sorted m \<Longrightarrow> om_sorted (filter P m)"
  by (induction m) auto

lemma om_find_erase: "om_sorted m \<Longrightarrow> om_find (om_erase k m) = (om_find m)(k := None)"
proof (induction m)
  case (Cons x m)
  obtain k' v' where x: "x = (k', v')" by fastforce
  have "om_find m k' = None" using Cons.prems x by (auto simp: map_of_eq_None_iff)
  with Cons x show ?case by (auto simp: fun_eq_iff)
qed simp

lemma om_sorted_erase [inv_intros]: "om_sorted m \<Longrightarrow> om_sorted (om_erase k m)"
  by (simp add: om_erase_filter om_sorted_filter)

text \<open>A sorted association list is determined by its lookup function.\<close>

lemma om_eqI:
  assumes "om_sorted a" "om_sorted b" "om_find a = om_find b"
  shows "a = b"
proof -
  have "set a = set b"
    using assms by (auto simp: om_find_in_set [symmetric])
  moreover have "sorted (map fst a)" "distinct (map fst a)" "sorted (map fst b)" "distinct (map fst b)"
    using assms(1,2) by (simp_all add: strict_sorted_iff)
  ultimately show ?thesis
    by (intro map_sorted_distinct_set_unique [of fst]) (auto simp: inj_on_def distinct_map)
qed

lemma om_lower_bound_filter:
  "om_sorted m \<Longrightarrow> om_lower_bound k m = filter (\<lambda>(k', v). \<not> k' < k) m"
proof (induction m)
  case (Cons x m)
  obtain k' v' where x: "x = (k', v')" by fastforce
  have "filter (\<lambda>(a, v). \<not> a < k) m = m" if "\<not> k' < k"
    using Cons.prems x that by (auto simp: filter_id_conv)
  with Cons x show ?case by (auto simp: om_lower_bound_def)
qed (simp add: om_lower_bound_def)

lemma om_takeWhile_filter:
  "om_sorted m \<Longrightarrow> takeWhile (\<lambda>(k', v). k' < k) m = filter (\<lambda>(k', v). k' < k) m"
proof (induction m)
  case (Cons x m)
  obtain k' v' where x: "x = (k', v')" by fastforce
  have "filter (\<lambda>(a, v). a < k) m = []" if "\<not> k' < k"
    using Cons.prems x that by (auto simp: filter_empty_conv)
  with Cons x show ?case by auto
qed simp

end
