(* ===== verification/MemTable.thy ===== *)
theory MemTable
  imports Entries Ordered_Map
begin

text \<open>
  \<open>src/memtable/memtable.cpp\<close>: the ordered multi-version table of unflushed writes. The state is
  the \<open>std::map\<close> from user key to versions (newest first) and the byte counter; one definition per
  method. The lemmas show the representation invariant and the byte accounting, that \<open>ApplyBatch\<close>
  is the atomic form of applying its entries one by one, that \<open>Get\<close> answers the visibility
  specification and that \<open>Scan\<close> lists the half-open key range in internal order.
\<close>

section \<open>State and operations\<close>

record MemTable =
  mt_entries :: "(bytes, InternalEntry list) omap"
  mt_bytes :: u64

definition MemTable_empty :: MemTable where
  "MemTable_empty = \<lparr>mt_entries = [], mt_bytes = 0\<rparr>"

definition EntryBytes :: "InternalEntry \<Rightarrow> u64" where
  "EntryBytes e =
     of_nat sizeof_InternalEntry + of_nat (length (user_key e)) + of_nat (length (evalue e))"

text \<open>\<open>std::numeric_limits<std::size_t>::max()\<close> is \<open>- 1\<close> as a 64-bit word.\<close>

definition Apply :: "InternalEntry \<Rightarrow> MemTable \<Rightarrow> StatusCode \<times> MemTable" where
  "Apply entry m =
     (if sequence entry = 0 then (kCorruption, m)
      else let added = EntryBytes entry in
      if added > - 1 - mt_bytes m then (kResourceExhausted, m)
      else let versions = (case om_find (mt_entries m) (user_key entry) of
                             None \<Rightarrow> [] | Some vs \<Rightarrow> vs);
               emplaced = m\<lparr>mt_entries := om_put (user_key entry) versions (mt_entries m)\<rparr> in
      if versions \<noteq> [] \<and> sequence entry \<le> sequence (hd versions) then (kCorruption, emplaced)
      else (kOk, emplaced\<lparr>mt_entries :=
                              om_put (user_key entry) (entry # versions) (mt_entries emplaced),
                           mt_bytes := mt_bytes m + added\<rparr>))"

text \<open>The validation loop of \<open>ApplyBatch\<close>, which returns \<open>added_bytes\<close>.\<close>

fun batch_validate :: "InternalEntry list \<Rightarrow> u64 \<Rightarrow> u64 \<Rightarrow> StatusCode + u64" where
  "batch_validate [] previous_sequence added_bytes = Inr added_bytes"
| "batch_validate (entry # es) previous_sequence added_bytes =
     (if sequence entry = 0 \<or>
         (previous_sequence \<noteq> 0 \<and> sequence entry \<le> previous_sequence) then Inl kCorruption
      else let added = EntryBytes entry in
      if added > - 1 - added_bytes then Inl kResourceExhausted
      else batch_validate es (sequence entry) (added_bytes + added))"

text \<open>\<open>staged[entry.user_key].push_back(entry)\<close> for every entry.\<close>

definition stage_one ::
  "(bytes, InternalEntry list) omap \<Rightarrow> InternalEntry \<Rightarrow> (bytes, InternalEntry list) omap" where
  "stage_one staged entry =
     om_put (user_key entry)
       ((case om_find staged (user_key entry) of None \<Rightarrow> [] | Some vs \<Rightarrow> vs) @ [entry]) staged"

definition stage :: "InternalEntry list \<Rightarrow> (bytes, InternalEntry list) omap" where
  "stage entries = foldl stage_one [] entries"

text \<open>The loop that completes the staged vectors with the existing versions.\<close>

fun complete_staged ::
  "(bytes, InternalEntry list) omap \<Rightarrow> (bytes, InternalEntry list) omap
   \<Rightarrow> StatusCode + (bytes, InternalEntry list) omap" where
  "complete_staged existing [] = Inr []"
| "complete_staged existing ((key, versions) # staged) =
     (let old = om_find existing key in
      if old \<noteq> None \<and> the old \<noteq> [] \<and> sequence (hd versions) \<le> sequence (hd (the old))
      then Inl kCorruption
      else let completed = (case old of None \<Rightarrow> rev versions | Some vs \<Rightarrow> rev versions @ vs) in
      case complete_staged existing staged of
        Inl c \<Rightarrow> Inl c
      | Inr rest \<Rightarrow> Inr ((key, completed) # rest))"

text \<open>The commit loop: swap the vector of an existing key, transfer the node of a new one.\<close>

definition commit_staged ::
  "(bytes, InternalEntry list) omap \<Rightarrow> (bytes, InternalEntry list) omap
   \<Rightarrow> (bytes, InternalEntry list) omap" where
  "commit_staged existing staged = foldl (\<lambda>m (key, versions). om_put key versions m) existing staged"

definition ApplyBatch :: "InternalEntry list \<Rightarrow> MemTable \<Rightarrow> StatusCode \<times> MemTable" where
  "ApplyBatch entries m =
     (if entries = [] then (kOk, m)
      else case batch_validate entries 0 0 of
        Inl c \<Rightarrow> (c, m)
      | Inr added_bytes \<Rightarrow>
          if added_bytes > - 1 - mt_bytes m then (kResourceExhausted, m)
          else (case complete_staged (mt_entries m) (stage entries) of
                  Inl c \<Rightarrow> (c, m)
                | Inr staged \<Rightarrow>
                    (kOk, \<lparr>mt_entries = commit_staged (mt_entries m) staged,
                            mt_bytes = mt_bytes m + added_bytes\<rparr>)))"

definition MemTable_Get :: "MemTable \<Rightarrow> bytes \<Rightarrow> u64 \<Rightarrow> InternalEntry result" where
  "MemTable_Get m key n =
     (case om_find (mt_entries m) key of
        None \<Rightarrow> Err kNotFound
      | Some versions \<Rightarrow>
          (case List.find (\<lambda>entry. sequence entry \<le> n) versions of
             None \<Rightarrow> Err kNotFound
           | Some entry \<Rightarrow> Ok entry))"

definition MemTable_Scan :: "MemTable \<Rightarrow> bytes \<Rightarrow> bytes \<Rightarrow> InternalEntry list" where
  "MemTable_Scan m beg end_key =
     concat (map snd (takeWhile (\<lambda>(key, versions). end_key = [] \<or> BytewiseLess key end_key)
                        (om_lower_bound beg (mt_entries m))))"

definition ApproximateMemoryUsage :: "MemTable \<Rightarrow> u64" where
  "ApproximateMemoryUsage m = mt_bytes m"

definition MemTable_Empty :: "MemTable \<Rightarrow> bool" where
  "MemTable_Empty m = (mt_entries m = [])"

definition MemTable_Clear :: "MemTable \<Rightarrow> MemTable" where
  "MemTable_Clear m = \<lparr>mt_entries = [], mt_bytes = 0\<rparr>"

section \<open>Representation invariant\<close>

definition versions_ok :: "bytes \<Rightarrow> InternalEntry list \<Rightarrow> bool" where
  "versions_ok k vs \<longleftrightarrow>
     vs \<noteq> [] \<and> (\<forall>e \<in> set vs. user_key e = k \<and> sequence e \<noteq> 0) \<and>
     sorted_wrt (\<lambda>a b. sequence b < sequence a) vs"

definition mt_all :: "MemTable \<Rightarrow> InternalEntry list" where
  "mt_all m = concat (map snd (mt_entries m))"

definition mt_shape :: "(bytes, InternalEntry list) omap \<Rightarrow> bool" where
  "mt_shape es \<longleftrightarrow> om_sorted es \<and> (\<forall>(k, vs) \<in> set es. versions_ok k vs)"

definition mt_inv :: "MemTable \<Rightarrow> bool" where
  "mt_inv m \<longleftrightarrow> mt_shape (mt_entries m)"

text \<open>The byte counter is the exact sum, without wrap-around.\<close>

definition mt_accounted :: "MemTable \<Rightarrow> bool" where
  "mt_accounted m \<longleftrightarrow> unat (mt_bytes m) = sum_list (map (\<lambda>e. unat (EntryBytes e)) (mt_all m))"

definition versions_of :: "(bytes, InternalEntry list) omap \<Rightarrow> bytes \<Rightarrow> InternalEntry list" where
  "versions_of es k = (case om_find es k of None \<Rightarrow> [] | Some vs \<Rightarrow> vs)"

lemma versions_of_put [simp]:
  "versions_of (om_put k vs es) k' = (if k' = k then vs else versions_of es k')"
  by (simp add: versions_of_def)

lemma versions_of_Nil [simp]: "versions_of [] k = []"
  by (simp add: versions_of_def)

lemma mt_shape_put [inv_intros]:
  "mt_shape es \<Longrightarrow> versions_ok k vs \<Longrightarrow> mt_shape (om_put k vs es)"
  unfolding mt_shape_def
  by (auto simp: om_sorted_put om_find_in_set [symmetric] split: if_splits)

lemma mt_shape_Nil [simp]: "mt_shape []"
  by (simp add: mt_shape_def)

lemma versions_of_ok: "mt_shape es \<Longrightarrow> versions_of es k \<noteq> [] \<Longrightarrow> versions_ok k (versions_of es k)"
  by (auto simp: versions_of_def mt_shape_def split: option.splits dest: map_of_SomeD)

lemma find_versions_of:
  "mt_shape es \<Longrightarrow> om_find es k = (if versions_of es k = [] then None else Some (versions_of es k))"
  by (auto simp: versions_of_def mt_shape_def versions_ok_def split: option.splits dest: map_of_SomeD)

text \<open>A well-formed table is determined by the version list of each key.\<close>

lemma mt_shape_eqI:
  assumes "mt_shape a" "mt_shape b" "\<And>k. versions_of a k = versions_of b k"
  shows "a = b"
proof (rule om_eqI)
  show "om_sorted a" "om_sorted b" using assms by (simp_all add: mt_shape_def)
  show "om_find a = om_find b"
    using assms by (simp add: fun_eq_iff find_versions_of)
qed

lemma mt_all_member:
  "mt_shape es \<Longrightarrow> e \<in> set (concat (map snd es)) \<longleftrightarrow> e \<in> set (versions_of es (user_key e))"
proof
  assume s: "mt_shape es" and "e \<in> set (concat (map snd es))"
  then obtain k vs where kv: "(k, vs) \<in> set es" "e \<in> set vs" by auto
  moreover have "user_key e = k" using s kv by (auto simp: mt_shape_def versions_ok_def)
  moreover have "om_find es k = Some vs" using s kv(1) by (simp add: mt_shape_def om_find_in_set)
  ultimately show "e \<in> set (versions_of es (user_key e))" by (simp add: versions_of_def)
next
  assume "e \<in> set (versions_of es (user_key e))"
  then show "e \<in> set (concat (map snd es))"
    by (force simp: versions_of_def split: option.splits dest: map_of_SomeD [OF sym])
qed

lemma versions_of_user_key: "mt_shape es \<Longrightarrow> e \<in> set (versions_of es k) \<Longrightarrow> user_key e = k"
  using versions_of_ok [of es k] by (cases "versions_of es k = []") (auto simp: versions_ok_def)


section \<open>Invariant and accounting of the single-entry insert\<close>

lemma versions_ok_single [inv_intros]: "sequence e \<noteq> 0 \<Longrightarrow> versions_ok (user_key e) [e]"
  by (simp add: versions_ok_def)

lemma versions_ok_Cons:
  assumes "versions_ok k vs" "user_key e = k" "sequence e \<noteq> 0" "sequence (hd vs) < sequence e"
  shows "versions_ok k (e # vs)"
proof -
  have "sequence v \<le> sequence (hd vs)" if "v \<in> set vs" for v
    using assms(1) that by (cases vs) (auto simp: versions_ok_def)
  with assms show ?thesis by (fastforce simp: versions_ok_def)
qed

definition extend_version :: "(bytes, InternalEntry list) omap \<Rightarrow> InternalEntry \<Rightarrow> bool" where
  "extend_version es e \<longleftrightarrow> sequence e \<noteq> 0 \<and>
     (versions_of es (user_key e) = [] \<or> sequence (hd (versions_of es (user_key e))) < sequence e)"

definition insert_version ::
  "InternalEntry \<Rightarrow> (bytes, InternalEntry list) omap \<Rightarrow> (bytes, InternalEntry list) omap" where
  "insert_version e es = om_put (user_key e) (e # versions_of es (user_key e)) es"

lemma insert_version_shape [inv_intros]:
  "mt_shape es \<Longrightarrow> extend_version es e \<Longrightarrow> mt_shape (insert_version e es)"
  unfolding insert_version_def extend_version_def
  by (cases "versions_of es (user_key e) = []")
     (auto intro!: mt_shape_put versions_ok_single versions_ok_Cons versions_of_ok)

lemma versions_of_insert_version:
  "versions_of (insert_version e es) k = (if user_key e = k then [e] else []) @ versions_of es k"
  by (simp add: insert_version_def)

lemma om_put_put [simp]: "om_put k a (om_put k b es) = om_put k a es"
  by (induction es) auto

lemma om_put_same: "om_find es k = Some v \<Longrightarrow> om_sorted es \<Longrightarrow> om_put k v es = es"
proof (induction es)
  case (Cons x es)
  obtain k' v' where x: "x = (k', v')" by fastforce
  have "k' < k" if "k \<noteq> k'"
    using Cons.prems x that by (fastforce dest: map_of_SomeD)
  with Cons x show ?case by (auto split: if_splits)
qed simp

lemma Apply_cases:
  assumes "mt_inv m"
  shows "Apply e m =
    (if sequence e = 0 then (kCorruption, m)
     else if EntryBytes e > - 1 - mt_bytes m then (kResourceExhausted, m)
     else if \<not> extend_version (mt_entries m) e then (kCorruption, m)
     else (kOk, \<lparr>mt_entries = insert_version e (mt_entries m), mt_bytes = mt_bytes m + EntryBytes e\<rparr>))"
proof -
  let ?vs = "versions_of (mt_entries m) (user_key e)"
  have vs: "(case om_find (mt_entries m) (user_key e) of None \<Rightarrow> [] | Some vs \<Rightarrow> vs) = ?vs"
    by (simp add: versions_of_def)
  have same: "om_put (user_key e) ?vs (mt_entries m) = mt_entries m" if "?vs \<noteq> []"
  proof (rule om_put_same)
    show "om_find (mt_entries m) (user_key e) = Some ?vs"
      using that by (auto simp: versions_of_def split: option.splits)
    show "om_sorted (mt_entries m)" using assms by (simp add: mt_inv_def mt_shape_def)
  qed
  show ?thesis
    unfolding Apply_def vs Let_def
    using same by (cases m) (auto simp: extend_version_def insert_version_def not_le not_less)
qed

text \<open>
  Entry sizes are far below \<open>2 ^ 64\<close>, and the overflow guard makes every addition exact.
\<close>

lemma guarded_add_exact: "\<not> (a :: u64) > - 1 - b \<Longrightarrow> unat (b + a) = unat b + unat a"
proof -
  assume "\<not> a > - 1 - b"
  then have "unat a \<le> unat (- 1 - b)" by (simp only: not_less word_le_nat_alt)
  also have "unat (- 1 - b) = unat (- 1 :: u64) - unat b"
    by (rule unat_sub) simp
  finally have "unat b + unat a \<le> unat (- 1 :: u64)"
    using word_le_nat_alt [of b "- 1"] by simp
  then have "unat b + unat a < 2 ^ LENGTH(64)"
    using unsigned_less [of "- 1 :: u64", where 'a = nat] by linarith
  then show ?thesis by (simp only: unat_add_lem)
qed

lemma guard_iff: "(a :: u64) > - 1 - b \<longleftrightarrow> max_u64 < unat b + unat a"
proof -
  have "unat (- 1 - b) = unat (- 1 :: u64) - unat b" by (rule unat_sub) simp
  moreover have "unat (- 1 :: u64) = max_u64" by (simp add: max_u64_def unsigned_minus_1_eq_mask mask_eq_exp_minus_1)
  ultimately show ?thesis
    using unat_u64_le [of b] by (auto simp: word_less_nat_alt)
qed

lemma Apply_preserves_inv [inv_intros]: "mt_inv m \<Longrightarrow> mt_inv (snd (Apply e m))"
  by (auto simp: Apply_cases) (auto simp: mt_inv_def intro: inv_intros)

section \<open>Batches\<close>

text \<open>Applying the entries one by one, stopping at the first error.\<close>

fun Apply_all :: "InternalEntry list \<Rightarrow> MemTable \<Rightarrow> StatusCode \<times> MemTable" where
  "Apply_all [] m = (kOk, m)"
| "Apply_all (e # es) m =
     (case Apply e m of (c, m') \<Rightarrow> if c = kOk then Apply_all es m' else (c, m'))"

abbreviation batch_bytes :: "InternalEntry list \<Rightarrow> nat" where
  "batch_bytes es \<equiv> sum_list (map (\<lambda>e. unat (EntryBytes e)) es)"

definition increasing :: "InternalEntry list \<Rightarrow> bool" where
  "increasing es \<longleftrightarrow> sorted_wrt (\<lambda>a b. sequence a < sequence b) es \<and> (\<forall>e \<in> set es. sequence e \<noteq> 0)"

lemma batch_validate_Inr:
  "batch_validate es p a = Inr t \<Longrightarrow>
     increasing es \<and> (p \<noteq> 0 \<longrightarrow> (\<forall>e \<in> set es. p < sequence e)) \<and> unat t = unat a + batch_bytes es"
proof (induction es arbitrary: p a)
  case (Cons e es)
  then have ok: "sequence e \<noteq> 0" "p \<noteq> 0 \<longrightarrow> p < sequence e" "\<not> EntryBytes e > - 1 - a"
    and rest: "batch_validate es (sequence e) (a + EntryBytes e) = Inr t"
    by (auto simp: Let_def not_le split: if_splits)
  from Cons.IH [OF rest] ok(1) have
    "increasing es" "\<forall>x \<in> set es. sequence e < sequence x"
    "unat t = unat (a + EntryBytes e) + batch_bytes es" by simp_all
  with ok guarded_add_exact [OF ok(3)] show ?case
    by (fastforce simp: increasing_def)
qed (simp add: increasing_def)

lemma batch_validate_increasing:
  assumes "increasing es" and "p \<noteq> 0 \<longrightarrow> (\<forall>e \<in> set es. p < sequence e)"
    and "unat a + batch_bytes es \<le> max_u64"
  shows "\<exists>t. batch_validate es p a = Inr t"
  using assms
proof (induction es arbitrary: p a)
  case (Cons e es)
  have fits: "\<not> EntryBytes e > - 1 - a"
    using Cons.prems(3) by (simp add: guard_iff)
  then have "unat (a + EntryBytes e) = unat a + unat (EntryBytes e)" by (rule guarded_add_exact)
  with Cons.prems have "\<exists>t. batch_validate es (sequence e) (a + EntryBytes e) = Inr t"
    by (intro Cons.IH) (auto simp: increasing_def)
  with fits Cons.prems show ?case by (auto simp: Let_def increasing_def not_le)
qed simp

lemma foldl_stage_versions:
  "versions_of (foldl stage_one st es) k = versions_of st k @ filter (\<lambda>e. user_key e = k) es"
proof (induction es arbitrary: st)
  case (Cons e es)
  have "versions_of (stage_one st e) k = versions_of st k @ (if user_key e = k then [e] else [])"
    by (auto simp: stage_one_def versions_of_def)
  with Cons show ?case by simp
qed simp

lemma stage_versions: "versions_of (stage es) k = filter (\<lambda>e. user_key e = k) es"
  by (simp add: stage_def foldl_stage_versions)

lemma foldl_stage_sorted: "om_sorted st \<Longrightarrow> om_sorted (foldl stage_one st es)"
  by (induction es arbitrary: st) (auto simp: stage_one_def intro: om_sorted_put)

lemma foldl_stage_keys: "fst ` set (foldl stage_one st es) = fst ` set st \<union> user_key ` set es"
  by (induction es arbitrary: st) (auto simp: stage_one_def)

lemma stage_sorted: "om_sorted (stage es)"
  by (simp add: stage_def foldl_stage_sorted)

lemma stage_find:
  "om_find (stage es) k =
     (let vs = filter (\<lambda>e. user_key e = k) es in if vs = [] then None else Some vs)"
proof (cases "om_find (stage es) k")
  case None
  then have "k \<notin> user_key ` set es"
    by (simp add: map_of_eq_None_iff stage_def foldl_stage_keys)
  then have "filter (\<lambda>e. user_key e = k) es = []" by (auto simp: filter_empty_conv)
  with None show ?thesis by simp
next
  case (Some vs)
  then have "k \<in> user_key ` set es"
    using foldl_stage_keys [of "[]" es] by (force simp: stage_def dest: map_of_SomeD)
  moreover have "vs = filter (\<lambda>e. user_key e = k) es"
    using stage_versions [of es k] Some by (simp add: versions_of_def)
  ultimately show ?thesis using Some by (auto simp: filter_empty_conv)
qed

lemma complete_staged_Cons:
  "complete_staged ex ((k, vs) # st) =
     (if versions_of ex k \<noteq> [] \<and> sequence (hd vs) \<le> sequence (hd (versions_of ex k))
      then Inl kCorruption
      else case complete_staged ex st of
             Inl c \<Rightarrow> Inl c | Inr rest \<Rightarrow> Inr ((k, rev vs @ versions_of ex k) # rest))"
  by (cases "om_find ex k") (auto simp: versions_of_def Let_def split: sum.splits)

lemma complete_staged_eq:
  "complete_staged ex st =
     (if \<exists>(k, vs) \<in> set st. versions_of ex k \<noteq> [] \<and> sequence (hd vs) \<le> sequence (hd (versions_of ex k))
      then Inl kCorruption
      else Inr (map (\<lambda>(k, vs). (k, rev vs @ versions_of ex k)) st))"
proof (induction st)
  case (Cons x st)
  obtain k vs where x: "x = (k, vs)" by fastforce
  show ?case unfolding x complete_staged_Cons Cons.IH by auto
qed simp

lemma commit_staged_versions:
  "distinct (map fst st) \<Longrightarrow>
   versions_of (commit_staged ex st) k = (case om_find st k of None \<Rightarrow> versions_of ex k | Some vs \<Rightarrow> vs)"
proof (induction st arbitrary: ex)
  case (Cons x st)
  obtain k' vs where x: "x = (k', vs)" by fastforce
  have "om_find st k' = None" using Cons.prems x by (simp add: map_of_eq_None_iff)
  with Cons x show ?case by (auto simp: commit_staged_def split: option.splits)
qed (simp add: commit_staged_def)

lemma commit_staged_shape [inv_intros]:
  "mt_shape ex \<Longrightarrow> \<forall>(k, vs) \<in> set st. versions_ok k vs \<Longrightarrow> mt_shape (commit_staged ex st)"
proof (induction st arbitrary: ex)
  case (Cons x st)
  then show ?case by (cases x) (simp add: commit_staged_def mt_shape_put)
qed (simp add: commit_staged_def)

lemma versions_ok_batch:
  assumes "increasing vs" "vs \<noteq> []" "\<forall>e \<in> set vs. user_key e = k"
    and "old = [] \<or> versions_ok k old \<and> sequence (hd old) < sequence (hd vs)"
  shows "versions_ok k (rev vs @ old)"
proof -
  have old: "sequence o' < sequence v" if "o' \<in> set old" "v \<in> set vs" for o' v
  proof -
    have "old \<noteq> []" using that(1) by auto
    then have "sequence o' \<le> sequence (hd old)"
      using assms(4) that(1) by (cases old) (auto simp: versions_ok_def)
    moreover have "sequence (hd vs) \<le> sequence v"
      using assms(1) that(2) by (cases vs) (auto simp: increasing_def)
    ultimately show ?thesis using assms(4) \<open>old \<noteq> []\<close> by (auto intro: order.strict_trans1 order.strict_trans2)
  qed
  have "sorted_wrt (\<lambda>a b. sequence b < sequence a) (rev vs)"
    using assms(1) by (simp add: increasing_def sorted_wrt_rev)
  with assms old show ?thesis
    by (auto simp: versions_ok_def increasing_def sorted_wrt_append)
qed

lemma increasing_filter: "increasing es \<Longrightarrow> increasing (filter P es)"
  by (induction es) (auto simp: increasing_def)

text \<open>The entries of an accepted batch are newer than every version of their key.\<close>

definition newer_than :: "(bytes, InternalEntry list) omap \<Rightarrow> InternalEntry list \<Rightarrow> bool" where
  "newer_than ex es \<longleftrightarrow> (\<forall>e \<in> set es. versions_of ex (user_key e) = [] \<or>
     sequence (hd (versions_of ex (user_key e))) < sequence e)"

lemma hd_filter_key_iff:
  assumes "increasing es"
  shows "(\<exists>(k, vs) \<in> set (stage es). versions_of ex k \<noteq> [] \<and>
            sequence (hd vs) \<le> sequence (hd (versions_of ex k))) \<longleftrightarrow> \<not> newer_than ex es"
    (is "?l \<longleftrightarrow> _")
proof
  assume ?l
  then obtain k vs where kv: "(k, vs) \<in> set (stage es)" "versions_of ex k \<noteq> []"
    "sequence (hd vs) \<le> sequence (hd (versions_of ex k))" by auto
  have "om_find (stage es) k = Some vs" using kv(1) by (simp add: om_find_in_set stage_sorted)
  then have "vs = filter (\<lambda>e. user_key e = k) es" "vs \<noteq> []"
    by (auto simp: stage_find Let_def split: if_splits)
  then have "hd vs \<in> set es" "user_key (hd vs) = k"
    using hd_in_set [of vs] by auto
  with kv show "\<not> newer_than ex es" by (auto simp: newer_than_def not_less intro!: bexI [of _ "hd vs"])
next
  assume "\<not> newer_than ex es"
  then obtain e where e: "e \<in> set es" "versions_of ex (user_key e) \<noteq> []"
    "sequence e \<le> sequence (hd (versions_of ex (user_key e)))"
    by (auto simp: newer_than_def not_less)
  let ?vs = "filter (\<lambda>x. user_key x = user_key e) es"
  have "e \<in> set ?vs" using e(1) by simp
  then have "sequence (hd ?vs) \<le> sequence e"
    using increasing_filter [OF assms, of "\<lambda>x. user_key x = user_key e"]
    by (cases ?vs) (auto simp: increasing_def)
  moreover have "om_find (stage es) (user_key e) = Some ?vs"
    using \<open>e \<in> set ?vs\<close> by (auto simp: stage_find Let_def filter_empty_conv)
  ultimately show ?l
    using e by (intro bexI [of _ "(user_key e, ?vs)"]) (auto simp: om_find_in_set stage_sorted)
qed

definition batch_entries ::
  "InternalEntry list \<Rightarrow> (bytes, InternalEntry list) omap \<Rightarrow> (bytes, InternalEntry list) omap" where
  "batch_entries es ex =
     commit_staged ex (map (\<lambda>(k, vs). (k, rev vs @ versions_of ex k)) (stage es))"

lemma batch_entries_versions:
  "versions_of (batch_entries es ex) k = rev (filter (\<lambda>e. user_key e = k) es) @ versions_of ex k"
proof -
  have f: "map_of (map (\<lambda>(k, vs). (k, rev vs @ versions_of ex k)) st) k =
      map_option (\<lambda>vs. rev vs @ versions_of ex k) (map_of st k)" for st
    by (induction st) auto
  have "map fst (map (\<lambda>(k, vs). (k, rev vs @ versions_of ex k)) (stage es)) = map fst (stage es)"
    by auto
  then have "distinct (map fst (map (\<lambda>(k, vs). (k, rev vs @ versions_of ex k)) (stage es)))"
    using stage_sorted [of es] by (simp only: strict_sorted_iff)
  then show ?thesis
    by (auto simp: batch_entries_def commit_staged_versions f stage_find Let_def)
qed

lemma batch_entries_shape [inv_intros]:
  assumes "mt_shape ex" "increasing es" "newer_than ex es"
  shows "mt_shape (batch_entries es ex)"
  unfolding batch_entries_def
proof (rule commit_staged_shape [OF assms(1)], clarsimp)
  fix k vs assume "(k, vs) \<in> set (stage es)"
  then have "om_find (stage es) k = Some vs" by (simp add: om_find_in_set stage_sorted)
  then have vs: "vs = filter (\<lambda>e. user_key e = k) es" "vs \<noteq> []"
    by (auto simp: stage_find Let_def split: if_splits)
  then have "hd vs \<in> set es" "user_key (hd vs) = k" using hd_in_set [of vs] by auto
  then have "versions_of ex k = [] \<or> sequence (hd (versions_of ex k)) < sequence (hd vs)"
    using assms(3) by (auto simp: newer_than_def)
  then show "versions_ok k (rev vs @ versions_of ex k)"
    using vs assms(1) by (intro versions_ok_batch) (auto intro: increasing_filter assms(2) versions_of_ok)
qed

lemma ApplyBatch_cases:
  assumes "es \<noteq> []"
  shows "ApplyBatch es m =
    (case batch_validate es 0 0 of
       Inl c \<Rightarrow> (c, m)
     | Inr added \<Rightarrow>
         if added > - 1 - mt_bytes m then (kResourceExhausted, m)
         else if \<not> newer_than (mt_entries m) es then (kCorruption, m)
         else (kOk, \<lparr>mt_entries = batch_entries es (mt_entries m), mt_bytes = mt_bytes m + added\<rparr>))"
proof (cases "batch_validate es 0 0")
  case (Inr added)
  then have "increasing es" by (auto dest: batch_validate_Inr)
  with Inr assms show ?thesis
    by (simp add: ApplyBatch_def complete_staged_eq hd_filter_key_iff batch_entries_def)
qed (simp add: assms ApplyBatch_def)

lemma batch_validate_not_Ok: "batch_validate es p a = Inl c \<Longrightarrow> c \<noteq> kOk"
  by (induction es p a rule: batch_validate.induct) (auto simp: Let_def split: if_splits)

lemma ApplyBatch_Ok:
  assumes "ApplyBatch es m = (kOk, m')"
  shows "increasing es \<and> newer_than (mt_entries m) es \<and>
     unat (mt_bytes m) + batch_bytes es \<le> max_u64 \<and>
     mt_entries m' = batch_entries es (mt_entries m) \<and>
     unat (mt_bytes m') = unat (mt_bytes m) + batch_bytes es"
proof (cases "es = []")
  case True
  with assms unat_u64_le show ?thesis
    by (simp add: ApplyBatch_def increasing_def newer_than_def batch_entries_def stage_def commit_staged_def)
next
  case False
  note r = assms [unfolded ApplyBatch_cases [OF False]]
  obtain added where v: "batch_validate es 0 0 = Inr added"
    using r by (cases "batch_validate es 0 0") (auto dest: batch_validate_not_Ok)
  then have inc: "increasing es" and total: "unat added = batch_bytes es"
    using batch_validate_Inr [OF v] by simp_all
  have fits: "\<not> added > - 1 - mt_bytes m" and newer: "newer_than (mt_entries m) es"
    and m': "m' = \<lparr>mt_entries = batch_entries es (mt_entries m), mt_bytes = mt_bytes m + added\<rparr>"
    using r v by (auto split: if_splits)
  show ?thesis
    using inc newer m' total guarded_add_exact [OF fits] fits by (simp add: guard_iff not_less)
qed

lemma ApplyBatch_error: "ApplyBatch es m = (c, m') \<Longrightarrow> c \<noteq> kOk \<Longrightarrow> m' = m"
  by (cases "es = []")
     (auto simp: ApplyBatch_def ApplyBatch_cases split: sum.splits if_splits)

lemma ApplyBatch_progress:
  assumes "increasing es" "newer_than (mt_entries m) es"
    "unat (mt_bytes m) + batch_bytes es \<le> max_u64"
  shows "fst (ApplyBatch es m) = kOk"
proof (cases "es = []")
  case False
  obtain added where v: "batch_validate es 0 0 = Inr added"
    using batch_validate_increasing [of es 0 0] assms by auto
  have "unat added = batch_bytes es" using batch_validate_Inr [OF v] by simp
  with assms(3) have "\<not> added > - 1 - mt_bytes m" by (simp add: guard_iff)
  with v assms(2) False show ?thesis by (simp add: ApplyBatch_cases)
qed (simp add: ApplyBatch_def)

lemma ApplyBatch_preserves_inv [inv_intros]: "mt_inv m \<Longrightarrow> mt_inv (snd (ApplyBatch es m))"
proof -
  assume inv: "mt_inv m"
  obtain c m' where r: "ApplyBatch es m = (c, m')" by fastforce
  show ?thesis
  proof (cases "c = kOk")
    case True
    with r inv ApplyBatch_Ok [of es m m'] show ?thesis
      by (auto simp: mt_inv_def intro: batch_entries_shape)
  next
    case False
    with r inv ApplyBatch_error [OF r] show ?thesis by simp
  qed
qed

subsection \<open>A batch is the sequential application of its entries\<close>

lemma Apply_all_newer:
  assumes "mt_inv m" "increasing es" "newer_than (mt_entries m) es"
    "unat (mt_bytes m) + batch_bytes es \<le> max_u64"
  shows "\<exists>m'. Apply_all es m = (kOk, m') \<and> mt_inv m' \<and>
     (\<forall>k. versions_of (mt_entries m') k =
        rev (filter (\<lambda>e. user_key e = k) es) @ versions_of (mt_entries m) k) \<and>
     unat (mt_bytes m') = unat (mt_bytes m) + batch_bytes es"
  using assms
proof (induction es arbitrary: m)
  case (Cons e es)
  define m1 where "m1 = \<lparr>mt_entries = insert_version e (mt_entries m), mt_bytes = mt_bytes m + EntryBytes e\<rparr>"
  have ext: "extend_version (mt_entries m) e"
    using Cons.prems by (auto simp: extend_version_def increasing_def newer_than_def)
  have fits: "\<not> EntryBytes e > - 1 - mt_bytes m" using Cons.prems(4) by (simp add: guard_iff)
  have step: "Apply e m = (kOk, m1)"
    using ext fits Cons.prems(1,2) by (simp add: Apply_cases m1_def increasing_def)
  have inv1: "mt_inv m1" using Apply_preserves_inv [OF Cons.prems(1), of e] step by simp
  have bytes1: "unat (mt_bytes m1) = unat (mt_bytes m) + unat (EntryBytes e)"
    using guarded_add_exact [OF fits] by (simp add: m1_def)
  have vs1: "versions_of (mt_entries m1) k = (if user_key e = k then [e] else []) @ versions_of (mt_entries m) k" for k
    by (simp add: m1_def versions_of_insert_version)
  have "newer_than (mt_entries m1) es"
    using Cons.prems(2,3) by (auto simp: newer_than_def vs1 increasing_def)
  then obtain m' where "Apply_all es m1 = (kOk, m')" "mt_inv m'"
    "\<forall>k. versions_of (mt_entries m') k = rev (filter (\<lambda>e. user_key e = k) es) @ versions_of (mt_entries m1) k"
    "unat (mt_bytes m') = unat (mt_bytes m1) + batch_bytes es"
    using Cons.IH [OF inv1] Cons.prems(2,4) bytes1 by (auto simp: increasing_def)
  then show ?case using step bytes1 by (auto simp: vs1)
qed simp

lemma ApplyBatch_sequential:
  assumes inv: "mt_inv m" and ok: "ApplyBatch es m = (kOk, m')"
  shows "Apply_all es m = (kOk, m')"
proof -
  note b = ApplyBatch_Ok [OF ok]
  obtain m2 where m2: "Apply_all es m = (kOk, m2)" "mt_inv m2"
    "\<forall>k. versions_of (mt_entries m2) k = rev (filter (\<lambda>e. user_key e = k) es) @ versions_of (mt_entries m) k"
    "unat (mt_bytes m2) = unat (mt_bytes m) + batch_bytes es"
    using Apply_all_newer [OF inv] b by blast
  have "mt_inv m'" using ApplyBatch_preserves_inv [OF inv, of es] ok by simp
  then have "mt_entries m2 = mt_entries m'"
    using m2 b by (intro mt_shape_eqI) (simp_all add: mt_inv_def batch_entries_versions)
  moreover have "mt_bytes m2 = mt_bytes m'" using m2(4) b by (simp add: word_unat_eq_iff)
  ultimately have "m2 = m'" by simp
  with m2(1) show ?thesis by simp
qed

section \<open>Reads\<close>

lemma filter_key_concat:
  assumes "mt_shape es"
  shows "filter (\<lambda>e. user_key e = k) (concat (map snd es)) = versions_of es k"
  using assms
proof (induction es)
  case (Cons x es)
  obtain k' vs where x: "x = (k', vs)" by fastforce
  have shape: "mt_shape es" and ok: "versions_ok k' vs" and fresh: "k' \<notin> fst ` set es"
    using Cons.prems x by (auto simp: mt_shape_def)
  have IH: "filter (\<lambda>e. user_key e = k) (concat (map snd es)) = versions_of es k"
    by (rule Cons.IH [OF shape])
  show ?case
  proof (cases "k = k'")
    case True
    then have "versions_of es k = []"
      using fresh by (simp add: versions_of_def map_of_eq_None_iff [THEN iffD2])
    moreover have "filter (\<lambda>e. user_key e = k) vs = vs"
      using ok True by (auto simp: versions_ok_def filter_id_conv)
    ultimately show ?thesis using IH x True by (simp add: versions_of_def)
  next
    case False
    then have "filter (\<lambda>e. user_key e = k) vs = []"
      using ok by (auto simp: versions_ok_def filter_empty_conv)
    then show ?thesis using IH x False by (simp add: versions_of_def)
  qed
qed simp

lemma mt_all_ordered:
  assumes "mt_inv m"
  shows "ordered (mt_all m)"
proof -
  have "ordered (concat (map snd es))" if "mt_shape es" for es
    using that
  proof (induction es)
    case (Cons x es)
    obtain k vs where x: "x = (k, vs)" by fastforce
    have shape: "mt_shape es" and ok: "versions_ok k vs" using Cons.prems x by (auto simp: mt_shape_def)
    have less: "InternalLess a b" if ab: "a \<in> set vs" "b \<in> set (concat (map snd es))" for a b
    proof -
      obtain k' vs' where "(k', vs') \<in> set es" "b \<in> set vs'" using ab(2) by auto
      then have "k < k'" "user_key b = k'" using Cons.prems x by (auto simp: mt_shape_def versions_ok_def)
      moreover have "user_key a = k" using ok ab(1) by (simp add: versions_ok_def)
      ultimately show ?thesis by (simp add: InternalLess_iff)
    qed
    have "ordered vs"
    proof (rule sorted_wrt_mono_rel)
      show "sorted_wrt (\<lambda>a b. sequence b < sequence a) vs" using ok by (simp add: versions_ok_def)
      show "InternalLess a b" if ab: "a \<in> set vs" "b \<in> set vs" "sequence b < sequence a" for a b
        using ok ab by (auto simp: versions_ok_def InternalLess_iff)
    qed
    moreover have "ordered (concat (map snd es))" by (rule Cons.IH [OF shape])
    ultimately show ?case using less x by (simp add: sorted_wrt_append)
  qed simp
  with assms show ?thesis by (simp add: mt_all_def mt_inv_def)
qed

lemma find_conj_filter: "List.find (\<lambda>x. P x \<and> Q x) xs = List.find Q (filter P xs)"
  by (induction xs) auto

lemma MemTable_Get_find:
  assumes "mt_inv m"
  shows "MemTable_Get m k n =
     (case find_version (mt_all m) k n of None \<Rightarrow> Err kNotFound | Some e \<Rightarrow> Ok e)"
proof -
  have "find_version (mt_all m) k n = List.find (\<lambda>e. sequence e \<le> n) (versions_of (mt_entries m) k)"
    using assms by (simp add: find_version_def find_conj_filter mt_all_def mt_inv_def filter_key_concat)
  then show ?thesis by (auto simp: MemTable_Get_def versions_of_def split: option.splits)
qed

text \<open>The MemTable keeps the read contract.\<close>

interpretation memtable: version_source mt_inv "\<lambda>m. set (mt_all m)" MemTable_Get
proof
  fix m k n e c
  assume inv: "mt_inv m"
  note ord = mt_all_ordered [OF inv]
  show "versions_unique (set (mt_all m))" by (rule ordered_versions_unique [OF ord])
  show "visible (set (mt_all m)) k n e" if "MemTable_Get m k n = Ok e"
    using that ord inv by (auto simp: MemTable_Get_find find_version_visible split: option.splits)
  show "c = kNotFound \<and> none_visible (set (mt_all m)) k n" if "MemTable_Get m k n = Err c"
    using that inv by (auto simp: MemTable_Get_find find_version_None [symmetric] split: option.splits)
  show "MemTable_Get m k n \<noteq> UB"
    using inv by (simp add: MemTable_Get_find split: option.splits)
qed

definition in_range :: "bytes \<Rightarrow> bytes \<Rightarrow> bytes \<Rightarrow> bool" where
  "in_range beg end_key k \<longleftrightarrow> beg \<le> k \<and> (end_key = [] \<or> k < end_key)"

lemma concat_filter_shape:
  assumes "mt_shape es"
  shows "concat (map snd (filter (\<lambda>(k, v). P k) es)) = filter (\<lambda>x. P (user_key x)) (concat (map snd es))"
  using assms
proof (induction es)
  case (Cons x es)
  obtain k vs where x: "x = (k, vs)" by fastforce
  have "mt_shape es" "\<forall>v \<in> set vs. user_key v = k"
    using Cons.prems x by (auto simp: mt_shape_def versions_ok_def)
  with Cons.IH x show ?case by (auto simp: filter_id_conv filter_empty_conv)
qed simp

lemma MemTable_Scan_filter:
  assumes "mt_inv m"
  shows "MemTable_Scan m b e = filter (\<lambda>x. in_range b e (user_key x)) (mt_all m)"
proof -
  let ?es = "mt_entries m"
  have sorted: "om_sorted ?es" using assms by (simp add: mt_inv_def mt_shape_def)
  have lb: "om_lower_bound b ?es = filter (\<lambda>(k, v). \<not> k < b) ?es"
    by (rule om_lower_bound_filter [OF sorted])
  have "takeWhile (\<lambda>(k, v). e = [] \<or> BytewiseLess k e) (om_lower_bound b ?es) =
      filter (\<lambda>(k, v). in_range b e k) ?es"
  proof (cases "e = []")
    case True
    have "takeWhile (\<lambda>(k, v). True) xs = xs" for xs :: "(bytes, InternalEntry list) omap"
      by (simp add: takeWhile_eq_all_conv)
    with True show ?thesis by (simp add: lb in_range_def not_less)
  next
    case False
    have "takeWhile (\<lambda>(k, v). k < e) (om_lower_bound b ?es) =
        filter (\<lambda>(k, v). k < e) (om_lower_bound b ?es)"
      using sorted by (intro om_takeWhile_filter) (simp add: lb om_sorted_filter)
    with False show ?thesis
      by (simp add: BytewiseLess_def lb in_range_def not_less case_prod_unfold conj_commute)
  qed
  then show ?thesis
    using assms by (simp add: MemTable_Scan_def mt_all_def mt_inv_def concat_filter_shape)
qed

lemma MemTable_Scan_ordered: "mt_inv m \<Longrightarrow> ordered (MemTable_Scan m b e)"
  by (simp add: MemTable_Scan_filter sorted_wrt_filter mt_all_ordered)

section \<open>Contents and accounting after a batch\<close>

lemma ApplyBatch_contents:
  assumes "mt_inv m" "ApplyBatch es m = (kOk, m')"
  shows "set (mt_all m') = set (mt_all m) \<union> set es"
proof -
  have inv': "mt_inv m'" using ApplyBatch_preserves_inv [OF assms(1), of es] assms(2) by simp
  have "versions_of (mt_entries m') k =
      rev (filter (\<lambda>e. user_key e = k) es) @ versions_of (mt_entries m) k" for k
    using ApplyBatch_Ok [OF assms(2)] by (simp add: batch_entries_versions)
  with inv' assms(1) show ?thesis
    by (auto simp: mt_all_def mt_inv_def mt_all_member simp del: set_concat)
qed

lemma sum_versions_put:
  fixes f :: "InternalEntry \<Rightarrow> nat"
  assumes "om_sorted es"
  shows "sum_list (map f (concat (map snd (om_put k vs es)))) + sum_list (map f (versions_of es k)) =
     sum_list (map f (concat (map snd es))) + sum_list (map f vs)"
  using assms
proof (induction es)
  case (Cons x es)
  obtain k' vs' where x: "x = (k', vs')" by fastforce
  have "versions_of es k = []" if "k \<le> k'"
    using that Cons.prems x by (fastforce simp: versions_of_def split: option.splits dest: map_of_SomeD)
  with Cons x show ?case by (auto simp: versions_of_def)
qed simp

lemma Apply_accounted:
  assumes "mt_inv m" "mt_accounted m" "Apply e m = (kOk, m')"
  shows "mt_accounted m'"
proof -
  have m': "m' = \<lparr>mt_entries = insert_version e (mt_entries m), mt_bytes = mt_bytes m + EntryBytes e\<rparr>"
    and fits: "\<not> EntryBytes e > - 1 - mt_bytes m"
    using assms(1,3) by (auto simp: Apply_cases split: if_splits)
  have "batch_bytes (mt_all m') = batch_bytes (mt_all m) + unat (EntryBytes e)"
    using sum_versions_put [of "mt_entries m" "\<lambda>e. unat (EntryBytes e)" "user_key e"
        "e # versions_of (mt_entries m) (user_key e)"] assms(1)
    by (simp add: m' mt_all_def insert_version_def mt_inv_def mt_shape_def)
  with assms(2) guarded_add_exact [OF fits] show ?thesis
    by (simp add: mt_accounted_def m')
qed

lemma Apply_all_accounted:
  "mt_inv m \<Longrightarrow> mt_accounted m \<Longrightarrow> Apply_all es m = (kOk, m') \<Longrightarrow> mt_accounted m'"
proof (induction es arbitrary: m)
  case (Cons e es)
  obtain c m1 where a: "Apply e m = (c, m1)" by fastforce
  with Cons.prems(3) have ok: "c = kOk" "Apply_all es m1 = (kOk, m')" by (auto split: if_splits)
  have "mt_inv m1" using Apply_preserves_inv [OF Cons.prems(1), of e] a by simp
  moreover have "mt_accounted m1" using Apply_accounted [OF Cons.prems(1,2)] a ok by simp
  ultimately show ?case using Cons.IH ok by simp
qed simp

lemma ApplyBatch_accounted:
  assumes "mt_inv m" "mt_accounted m"
  shows "mt_accounted (snd (ApplyBatch es m))"
proof -
  obtain c m' where r: "ApplyBatch es m = (c, m')" by fastforce
  show ?thesis
  proof (cases "c = kOk")
    case True
    with r assms show ?thesis
      using ApplyBatch_sequential [of m es m'] Apply_all_accounted [of m es m'] by simp
  next
    case False
    with ApplyBatch_error [OF r] assms r show ?thesis by simp
  qed
qed

lemma MemTable_empty_ok [simp]: "mt_inv MemTable_empty" "mt_accounted MemTable_empty" "mt_all MemTable_empty = []"
  by (simp_all add: MemTable_empty_def mt_inv_def mt_accounted_def mt_all_def)

lemma MemTable_Clear_empty [simp]: "MemTable_Clear m = MemTable_empty"
  by (simp add: MemTable_Clear_def MemTable_empty_def)

lemma MemTable_Empty_iff: "mt_inv m \<Longrightarrow> MemTable_Empty m \<longleftrightarrow> mt_all m = []"
  by (cases "mt_entries m") (auto simp: MemTable_Empty_def mt_all_def mt_inv_def mt_shape_def versions_ok_def)

section \<open>Properties\<close>

text \<open>
  C32: A batch is atomic and equals its operations one by one: either \<open>ApplyBatch\<close> succeeds, and then
  applying the entries one after the other succeeds with the same table, which holds the old versions
  and the new ones; or it fails and the table is unchanged.
\<close>

theorem memtable_batch_atomic:
  assumes "mt_inv m"
  shows "(\<exists>m'. ApplyBatch es m = (kOk, m') \<and> Apply_all es m = (kOk, m') \<and> mt_inv m' \<and>
            set (mt_all m') = set (mt_all m) \<union> set es) \<or>
         (\<exists>c. c \<noteq> kOk \<and> ApplyBatch es m = (c, m))"
proof -
  obtain c m' where r: "ApplyBatch es m = (c, m')" by fastforce
  show ?thesis
  proof (cases "c = kOk")
    case True
    have "mt_inv m'" using ApplyBatch_preserves_inv [OF assms, of es] r by simp
    then show ?thesis
      using r True ApplyBatch_sequential [OF assms, of es m'] ApplyBatch_contents [OF assms, of es m'] by simp
  next
    case False
    then show ?thesis using r ApplyBatch_error [OF r] by simp
  qed
qed

theorem memtable_batch_atomic_witness:
  "(\<exists>m'. ApplyBatch [\<lparr>user_key = [1], sequence = 1, etype = kValue, evalue = [7]\<rparr>] MemTable_empty = (kOk, m') \<and>
       Apply_all [\<lparr>user_key = [1], sequence = 1, etype = kValue, evalue = [7]\<rparr>] MemTable_empty = (kOk, m') \<and> mt_inv m' \<and>
       set (mt_all m') = {\<lparr>user_key = [1], sequence = 1, etype = kValue, evalue = [7]\<rparr>}) \<or>
   (\<exists>c. c \<noteq> kOk \<and>
       ApplyBatch [\<lparr>user_key = [1], sequence = 1, etype = kValue, evalue = [7]\<rparr>] MemTable_empty = (c, MemTable_empty))"
  using memtable_batch_atomic [of MemTable_empty "[\<lparr>user_key = [1], sequence = 1, etype = kValue, evalue = [7]\<rparr>]"]
  by simp

text \<open>
  The representation invariant and the exact byte accounting (the counter is the sum of the entry
  sizes, so it never wrapped) hold initially and are kept by every mutating operation, on success and
  on failure.
\<close>

theorem memtable_invariant:
  assumes "mt_inv m" "mt_accounted m"
  shows "mt_inv (snd (Apply e m)) \<and> mt_inv (snd (ApplyBatch es m)) \<and> mt_inv (MemTable_Clear m) \<and>
    mt_accounted (snd (Apply e m)) \<and> mt_accounted (snd (ApplyBatch es m)) \<and> mt_accounted (MemTable_Clear m)"
proof -
  have "mt_accounted (snd (Apply e m))"
  proof (cases "fst (Apply e m) = kOk")
    case True
    then show ?thesis using Apply_accounted [OF assms, of e "snd (Apply e m)"] by (metis prod.collapse)
  next
    case False
    then have "snd (Apply e m) = m" using assms(1) by (auto simp: Apply_cases split: if_splits)
    then show ?thesis using assms(2) by simp
  qed
  then show ?thesis
    using Apply_preserves_inv [OF assms(1)] ApplyBatch_preserves_inv [OF assms(1)] ApplyBatch_accounted [OF assms] by simp
qed

theorem memtable_invariant_witness:
  "mt_inv (snd (Apply \<lparr>user_key = [1], sequence = 0, etype = kValue, evalue = []\<rparr> MemTable_empty)) \<and>
   mt_accounted (snd (ApplyBatch [\<lparr>user_key = [1], sequence = 3, etype = kValue, evalue = [7]\<rparr>] MemTable_empty))"
  using memtable_invariant [OF MemTable_empty_ok(1,2), of "\<lparr>user_key = [1], sequence = 0, etype = kValue, evalue = []\<rparr>"
      "[\<lparr>user_key = [1], sequence = 3, etype = kValue, evalue = [7]\<rparr>]"] by simp

text \<open>
  A point read after a successful batch returns exactly the visible version among the old and the
  new ones: the newest version of the key whose sequence is at most the read sequence, and
  \<open>kNotFound\<close> exactly when there is none.
\<close>

theorem memtable_read_after_batch:
  assumes "mt_inv m" "ApplyBatch es m = (kOk, m')"
  shows "(MemTable_Get m' k n = Ok e \<longleftrightarrow> visible (set (mt_all m) \<union> set es) k n e) \<and>
    (MemTable_Get m' k n = Err kNotFound \<longleftrightarrow> none_visible (set (mt_all m) \<union> set es) k n)"
proof -
  have inv: "mt_inv m'" using ApplyBatch_preserves_inv [OF assms(1), of es] assms(2) by simp
  show ?thesis
    using memtable.get_Ok_iff [OF inv] memtable.get_NotFound_iff [OF inv] ApplyBatch_contents [OF assms] by simp
qed

theorem memtable_read_after_batch_witness:
  "\<exists>m'. ApplyBatch [\<lparr>user_key = [1], sequence = 1, etype = kValue, evalue = [7]\<rparr>,
          \<lparr>user_key = [1], sequence = 2, etype = kTombstone, evalue = []\<rparr>] MemTable_empty = (kOk, m') \<and>
     MemTable_Get m' [1] 1 = Ok \<lparr>user_key = [1], sequence = 1, etype = kValue, evalue = [7]\<rparr>"
proof -
  let ?es = "[\<lparr>user_key = [1], sequence = 1, etype = kValue, evalue = [7]\<rparr>,
    \<lparr>user_key = [1], sequence = 2, etype = kTombstone, evalue = []\<rparr>] :: InternalEntry list"
  have "fst (ApplyBatch ?es MemTable_empty) = kOk" by code_simp
  then obtain m' where m': "ApplyBatch ?es MemTable_empty = (kOk, m')" by (metis prod.collapse)
  have "visible (set (mt_all MemTable_empty) \<union> set ?es) [1] 1 (?es ! 0)" by (simp add: visible_def)
  with m' show ?thesis using memtable_read_after_batch [OF MemTable_empty_ok(1) m', of "[1]" 1 "?es ! 0"] by simp
qed

text \<open>
  A range scan delivers exactly the stored versions whose key lies in the half-open range, in
  internal order (key ascending, sequence descending).
\<close>

theorem memtable_scan_range:
  assumes "mt_inv m"
  shows "ordered (MemTable_Scan m b e) \<and>
    set (MemTable_Scan m b e) = {x \<in> set (mt_all m). b \<le> user_key x \<and> (e = [] \<or> user_key x < e)}"
  using MemTable_Scan_ordered [OF assms] MemTable_Scan_filter [OF assms] by (simp add: in_range_def)

theorem memtable_scan_range_witness:
  "set (MemTable_Scan (snd (ApplyBatch [\<lparr>user_key = [1], sequence = 1, etype = kValue, evalue = [7]\<rparr>,
      \<lparr>user_key = [5], sequence = 2, etype = kValue, evalue = [8]\<rparr>] MemTable_empty)) [2] []) =
    {\<lparr>user_key = [5], sequence = 2, etype = kValue, evalue = [8]\<rparr>}"
proof -
  let ?es = "[\<lparr>user_key = [1], sequence = 1, etype = kValue, evalue = [7]\<rparr>,
      \<lparr>user_key = [5], sequence = 2, etype = kValue, evalue = [8]\<rparr>] :: InternalEntry list"
  let ?m = "snd (ApplyBatch ?es MemTable_empty)"
  have "mt_inv ?m" by (rule ApplyBatch_preserves_inv [OF MemTable_empty_ok(1)])
  then have "set (MemTable_Scan ?m [2] []) = {x \<in> set (mt_all ?m). [2] \<le> user_key x \<and> (([] :: bytes) = [] \<or> user_key x < [])}"
    using memtable_scan_range by blast
  moreover have "mt_all ?m = ?es" by code_simp
  ultimately have "set (MemTable_Scan ?m [2] []) = {x \<in> set ?es. [2] \<le> user_key x}" by simp
  moreover have "[2] \<le> user_key (?es ! 1)" "\<not> [2] \<le> user_key (?es ! 0)" by simp_all
  ultimately show ?thesis by fastforce
qed

end
