(* ===== verification/Recovery.thy ===== *)
theory Recovery
  imports Wal_Log MemTable
begin

text \<open>
  Replaying a log into a MemTable, as \<open>DB::Impl::RecoverWal\<close> in \<open>src/db/db_impl.cpp\<close> does: the batches
  whose frames are complete are applied with \<open>MemTable::ApplyBatch\<close>.
\<close>

lemma consecutive_increasing:
  "consecutive p es \<Longrightarrow> increasing es \<and> (p \<noteq> 0 \<longrightarrow> (\<forall>e \<in> set es. p < sequence e))"
proof (induction es arbitrary: p)
  case (Cons e es)
  have ih: "increasing es" "\<forall>x \<in> set es. sequence e < sequence x" using Cons.IH [of "sequence e"] Cons.prems by auto
  have "p < sequence e" if "p \<noteq> 0"
  proof -
    have "sequence e = p + 1" "sequence e \<noteq> 0" using Cons.prems that by auto
    then have "unat (sequence e) = Suc (unat p)" using unatSuc [of p] by (simp add: add.commute)
    then show ?thesis by (simp add: word_less_nat_alt)
  qed
  with ih Cons.prems show ?case by (auto simp: increasing_def dest: less_trans)
qed (simp add: increasing_def)

lemma increasing_bounds:
  assumes "increasing es" "e \<in> set es"
  shows "sequence (hd es) \<le> sequence e" "sequence e \<le> sequence (last es)"
proof -
  have "sorted_wrt (\<lambda>a b. sequence a < sequence b) es" using assms(1) by (simp add: increasing_def)
  then show "sequence (hd es) \<le> sequence e" "sequence e \<le> sequence (last es)"
    using assms(2) by (induction es) (auto intro: less_imp_le)
qed

lemma newer_than_above:
  assumes "mt_inv m" "\<forall>x \<in> set (mt_all m). sequence x \<le> p" "\<forall>e \<in> set es. p < sequence e"
  shows "newer_than (mt_entries m) es"
  unfolding newer_than_def
proof (intro ballI)
  fix e assume e: "e \<in> set es"
  have "set (versions_of (mt_entries m) (user_key e)) \<subseteq> set (mt_all m)"
  proof
    fix x assume x: "x \<in> set (versions_of (mt_entries m) (user_key e))"
    have "mt_shape (mt_entries m)" using assms(1) by (simp add: mt_inv_def)
    then have "user_key x = user_key e"
      using x by (rule versions_of_user_key)
    with x assms(1) show "x \<in> set (mt_all m)"
      by (auto simp: mt_all_def mt_inv_def mt_all_member simp del: set_concat)
  qed
  then have "versions_of (mt_entries m) (user_key e) \<noteq> [] \<Longrightarrow> sequence (hd (versions_of (mt_entries m) (user_key e))) \<le> p"
    using assms(2) hd_in_set by blast
  then show "versions_of (mt_entries m) (user_key e) = [] \<or> sequence (hd (versions_of (mt_entries m) (user_key e))) < sequence e"
    using assms(3) e by (auto intro: le_less_trans)
qed

lemma apply_frames_memtable:
  "mt_inv m \<Longrightarrow> \<forall>x \<in> set (mt_all m). sequence x \<le> p \<Longrightarrow> \<forall>b \<in> set bs. batch_ok limits b \<Longrightarrow> frames_increase p bs \<Longrightarrow>
   unat (mt_bytes m) + batch_bytes (concat bs) \<le> max_u64 \<Longrightarrow>
     \<exists>m'. apply_frames ApplyBatch bs m = (kOk, m') \<and> mt_inv m' \<and> set (mt_all m') = set (mt_all m) \<union> set (concat bs)"
proof (induction bs arbitrary: m p)
  case (Cons b bs)
  have ok: "batch_ok limits b" and p: "p < sequence (hd b)" using Cons.prems by auto
  have inc: "increasing b" and ne: "b \<noteq> []" using ok consecutive_increasing by (auto simp: batch_ok_def)
  have above: "\<forall>e \<in> set b. p < sequence e" using increasing_bounds(1) [OF inc] p by (auto intro: less_le_trans)
  have room: "unat (mt_bytes m) + batch_bytes b \<le> max_u64" using Cons.prems(5) by simp
  obtain m1 where m1: "ApplyBatch b m = (kOk, m1)"
    using ApplyBatch_progress [OF inc newer_than_above [OF Cons.prems(1,2) above] room] by (metis prod.collapse)
  have inv1: "mt_inv m1" using ApplyBatch_preserves_inv [OF Cons.prems(1), of b] m1 by simp
  have all1: "set (mt_all m1) = set (mt_all m) \<union> set b" by (rule ApplyBatch_contents [OF Cons.prems(1) m1])
  have "p \<le> sequence (last b)" using above ne by (simp add: less_imp_le)
  then have "\<forall>x \<in> set (mt_all m1). sequence x \<le> sequence (last b)"
    using all1 Cons.prems(2) increasing_bounds(2) [OF inc] by (auto intro: order_trans)
  then obtain m' where "apply_frames ApplyBatch bs m1 = (kOk, m')" "mt_inv m'" "set (mt_all m') = set (mt_all m1) \<union> set (concat bs)"
    using Cons.IH [OF inv1, of "sequence (last b)"] Cons.prems(3-5) ApplyBatch_Ok [OF m1] by auto
  then show ?case using m1 all1 by auto
qed auto

lemma complete_frames_prefix: "\<exists>cs. bs = complete_frames n bs @ cs"
proof (induction bs arbitrary: n)
  case (Cons b bs)
  obtain cs where "bs = complete_frames (n - length (batch_frame b)) bs @ cs" using Cons.IH by blast
  then show ?case by (cases "length (batch_frame b) \<le> n") auto
qed simp

lemma frames_increase_append: "frames_increase p (as @ bs) \<Longrightarrow> frames_increase p as"
  by (induction as arbitrary: p) auto

section \<open>Properties\<close>

text \<open>
  C5: Crash recovery of a log: whatever prefix of the written log survives and however the reads are cut
  up, replay succeeds, the MemTable holds exactly the operations of the batches whose frames survived
  completely (a whole number of batches, in order), the largest sequence is that of the last of them,
  the valid length is the length of those frames, and a torn tail is reported exactly when bytes of an
  incomplete frame follow.
\<close>

theorem wal_crash_recovery:
  assumes "sq_data f = take n (log_bytes bs)" "reads_ok (sq_reads f)"
    "\<forall>b \<in> set bs. batch_ok limits b" "frames_increase sequence_floor bs" "batch_bytes (concat bs) \<le> max_u64"
  shows "\<exists>m. Replay limits f sequence_floor ApplyBatch MemTable_empty =
      (Ok \<lparr>max_sequence = frames_max 0 (complete_frames n bs),
           valid_bytes = of_nat (length (log_bytes (complete_frames n bs))),
           truncated_tail = (length (log_bytes (complete_frames n bs)) < min n (length (log_bytes bs)))\<rparr>, m) \<and>
    mt_inv m \<and> set (mt_all m) = set (concat (complete_frames n bs))"
proof -
  obtain cs where cs: "bs = complete_frames n bs @ cs" using complete_frames_prefix by blast
  have inc: "frames_increase sequence_floor (complete_frames n bs)"
    using assms(4) cs frames_increase_append by metis
  have ok: "\<forall>b \<in> set (complete_frames n bs). batch_ok limits b" using assms(3) cs by (metis Un_iff set_append)
  have "batch_bytes (concat bs) = batch_bytes (concat (complete_frames n bs)) + batch_bytes (concat cs)"
    by (subst cs) simp
  then have room: "unat (mt_bytes MemTable_empty) + batch_bytes (concat (complete_frames n bs)) \<le> max_u64"
    using assms(5) by (simp add: MemTable_empty_def)
  obtain m where m: "apply_frames ApplyBatch (complete_frames n bs) MemTable_empty = (kOk, m)" "mt_inv m"
    "set (mt_all m) = set (concat (complete_frames n bs))"
    using apply_frames_memtable [OF MemTable_empty_ok(1) _ ok inc room] by auto
  then show ?thesis
    by (auto simp: Replay_def replay_loop_log [OF assms(1-4)] Let_def)
qed

theorem wal_crash_recovery_witness:
  "\<exists>m. Replay \<lparr>max_key_bytes = 8, max_value_bytes = 8\<rparr>
      \<lparr>sq_data = take 50 (log_bytes [[\<lparr>user_key = [1], sequence = 4, etype = kValue, evalue = [7]\<rparr>],
                                      [\<lparr>user_key = [2], sequence = 5, etype = kValue, evalue = [8]\<rparr>]]),
       sq_reads = [Count 3, Interrupted, Count 1]\<rparr> 3 ApplyBatch MemTable_empty =
      (Ok \<lparr>max_sequence = 4, valid_bytes = 42, truncated_tail = True\<rparr>, m) \<and>
    set (mt_all m) = {\<lparr>user_key = [1], sequence = 4, etype = kValue, evalue = [7]\<rparr>}"
proof -
  let ?b1 = "[\<lparr>user_key = [1], sequence = 4, etype = kValue, evalue = [7]\<rparr>] :: InternalEntry list"
  let ?b2 = "[\<lparr>user_key = [2], sequence = 5, etype = kValue, evalue = [8]\<rparr>] :: InternalEntry list"
  let ?f = "\<lparr>sq_data = take 50 (log_bytes [?b1, ?b2]), sq_reads = [Count 3, Interrupted, Count 1]\<rparr>"
  have len: "length (batch_frame ?b1) = 42" "length (batch_frame ?b2) = 42" by (simp_all add: length_batch_frame)
  have ok: "\<forall>b \<in> set [?b1, ?b2]. batch_ok \<lparr>max_key_bytes = 8, max_value_bytes = 8\<rparr> b"
    by (simp add: batch_ok_def entry_fits_def entry_ok_def kMaxWalBatchOperations_def kMaxWalBatchBytes_def)
  have bytes: "batch_bytes (concat [?b1, ?b2]) \<le> max_u64"
    using unat_u64_le [of "EntryBytes (hd ?b1)"] by (simp add: EntryBytes_def sizeof_InternalEntry_def max_u64_def)
  have cf: "complete_frames 50 [?b1, ?b2] = [?b1]" using len by simp
  have pre: "sq_data ?f = take 50 (log_bytes [?b1, ?b2])" "reads_ok (sq_reads ?f)" "frames_increase 3 [?b1, ?b2]" by simp_all
  show ?thesis
    using wal_crash_recovery [OF pre(1,2) ok pre(3) bytes] unfolding cf by (auto simp: len frames_max_def simp del: take_append)
qed

end
