(* ===== verification/Snapshot_Registry.thy ===== *)
theory Snapshot_Registry
  imports Ordered_Map Status "HOL-Library.Multiset"
begin

text \<open>
  \<open>src/db/snapshot_registry.cpp\<close>: the sequences that live snapshots pin, with their counts, and the
  retention statistics of the last full compaction. The abstract view is the multiset of pinned
  sequences. The locale \<open>pin_registry\<close> is what compaction relies on: the oldest pin is a lower
  bound of every pinned sequence, whatever the order in which snapshots come and go.
\<close>

section \<open>State and operations\<close>

record SnapshotState =
  ss_active :: "(u64, nat) omap"
  ss_retained_versions :: u64
  ss_retained_bytes :: u64

definition SnapshotState_empty :: SnapshotState where
  "SnapshotState_empty = \<lparr>ss_active = [], ss_retained_versions = 0, ss_retained_bytes = 0\<rparr>"

definition ActiveCount :: "SnapshotState \<Rightarrow> nat" where
  "ActiveCount s = foldl (\<lambda>active item. active + snd item) 0 (ss_active s)"

definition TryRegister :: "u64 \<Rightarrow> nat \<Rightarrow> SnapshotState \<Rightarrow> bool \<times> SnapshotState" where
  "TryRegister seq maximum s =
     (let active = foldl (\<lambda>active item. active + snd item) 0 (ss_active s) in
      if maximum \<noteq> 0 \<and> active \<ge> maximum then (False, s)
      else (True, s\<lparr>ss_active :=
              om_put seq ((case om_find (ss_active s) seq of None \<Rightarrow> 0 | Some n \<Rightarrow> n) + 1) (ss_active s)\<rparr>))"

definition Unregister :: "u64 \<Rightarrow> SnapshotState \<Rightarrow> SnapshotState" where
  "Unregister seq s =
     (case om_find (ss_active s) seq of
        None \<Rightarrow> s
      | Some n \<Rightarrow>
          if n - 1 = 0 then s\<lparr>ss_active := om_erase seq (ss_active s)\<rparr>
          else s\<lparr>ss_active := om_put seq (n - 1) (ss_active s)\<rparr>)"

definition OldestOr :: "u64 \<Rightarrow> SnapshotState \<Rightarrow> u64" where
  "OldestOr fallback s = (case ss_active s of [] \<Rightarrow> fallback | (seq, n) # _ \<Rightarrow> seq)"

definition SetLastFullCompactionRetention :: "u64 \<Rightarrow> u64 \<Rightarrow> SnapshotState \<Rightarrow> SnapshotState" where
  "SetLastFullCompactionRetention versions bytes s =
     s\<lparr>ss_retained_versions := versions, ss_retained_bytes := bytes\<rparr>"

section \<open>Invariant and abstraction\<close>

definition ss_inv :: "SnapshotState \<Rightarrow> bool" where
  "ss_inv s \<longleftrightarrow> om_sorted (ss_active s) \<and> (\<forall>(seq, n) \<in> set (ss_active s). 0 < n)"

definition pins :: "SnapshotState \<Rightarrow> u64 multiset" where
  "pins s = (\<Sum>(seq, n) \<leftarrow> ss_active s. replicate_mset n seq)"

lemma count_pins: "om_sorted (ss_active s) \<Longrightarrow>
    count (pins s) q = (case om_find (ss_active s) q of None \<Rightarrow> 0 | Some n \<Rightarrow> n)"
proof -
  have "count (\<Sum>(seq, n) \<leftarrow> m. replicate_mset n seq) q = (case om_find m q of None \<Rightarrow> 0 | Some n \<Rightarrow> n)"
    if "om_sorted m" for m :: "(u64, nat) omap"
    using that
  proof (induction m)
    case (Cons x m)
    obtain k n where x: "x = (k, n)" by fastforce
    have "om_find m k = None" using Cons.prems x by (auto simp: map_of_eq_None_iff)
    with Cons x show ?case by (auto simp: count_replicate_mset)
  qed simp
  then show "om_sorted (ss_active s) \<Longrightarrow> ?thesis" by (simp add: pins_def)
qed

lemma ActiveCount_size: "ActiveCount s = size (pins s)"
proof -
  have "foldl (\<lambda>active item. active + snd item) a m = a + size (\<Sum>(seq, n) \<leftarrow> m. replicate_mset n seq)"
    for a and m :: "(u64, nat) omap"
    by (induction m arbitrary: a) auto
  then show ?thesis by (simp add: ActiveCount_def pins_def)
qed

lemma pins_eqI: "om_sorted (ss_active s) \<Longrightarrow> (\<And>q. (case om_find (ss_active s) q of None \<Rightarrow> 0 | Some n \<Rightarrow> n) = count M q) \<Longrightarrow> pins s = M"
  by (intro multiset_eqI) (simp add: count_pins)

lemma ss_inv_empty [simp]: "ss_inv SnapshotState_empty" "pins SnapshotState_empty = {#}"
  by (simp_all add: ss_inv_def SnapshotState_empty_def pins_def)

lemma TryRegister_cases:
  assumes "ss_inv s" "TryRegister q maximum s = (ok, s')"
  shows "ss_inv s'" "ok \<longleftrightarrow> maximum = 0 \<or> size (pins s) < maximum" "pins s' = (if ok then add_mset q (pins s) else pins s)"
proof -
  have sorted: "om_sorted (ss_active s)" and pos: "\<forall>(seq, n) \<in> set (ss_active s). 0 < n"
    using assms(1) by (simp_all add: ss_inv_def)
  show ok: "ok \<longleftrightarrow> maximum = 0 \<or> size (pins s) < maximum"
    using assms(2) ActiveCount_size [of s] by (auto simp: TryRegister_def ActiveCount_def Let_def split: if_splits)
  have s': "ok \<Longrightarrow> ss_active s' = om_put q (count (pins s) q + 1) (ss_active s)" "\<not> ok \<Longrightarrow> s' = s"
    using assms(2) sorted by (auto simp: TryRegister_def Let_def count_pins split: if_splits)
  show "ss_inv s'"
    using s' assms(1) sorted pos by (cases ok) (auto simp: ss_inv_def om_sorted_put om_find_in_set [symmetric] split: if_splits)
  show "pins s' = (if ok then add_mset q (pins s) else pins s)"
    using s' sorted by (cases ok) (auto intro!: pins_eqI simp: om_sorted_put count_pins)
qed

lemma Unregister_pins:
  assumes "ss_inv s"
  shows "ss_inv (Unregister q s)" "pins (Unregister q s) = pins s - {#q#}"
proof -
  have sorted: "om_sorted (ss_active s)" and pos: "\<forall>(seq, n) \<in> set (ss_active s). 0 < n"
    using assms by (simp_all add: ss_inv_def)
  have "ss_inv (Unregister q s) \<and> pins (Unregister q s) = pins s - {#q#}"
  proof (cases "om_find (ss_active s) q")
    case None
    then have "q \<notin># pins s" using sorted by (simp add: count_pins not_in_iff)
    with None assms show ?thesis by (simp add: Unregister_def)
  next
    case (Some n)
    show ?thesis
    proof (cases "n - 1 = 0")
      case True
      then have "n = 1" using pos Some sorted by (auto simp: om_find_in_set)
      then have u: "Unregister q s = s\<lparr>ss_active := om_erase q (ss_active s)\<rparr>" using Some by (simp add: Unregister_def)
      have "om_sorted (om_erase q (ss_active s))" by (rule om_sorted_erase [OF sorted])
      moreover have "\<forall>(seq, n) \<in> set (om_erase q (ss_active s)). 0 < n"
        using pos by (auto simp: om_erase_filter [OF sorted])
      moreover from calculation(1) have "pins (Unregister q s) = pins s - {#q#}"
        using Some \<open>n = 1\<close> by (intro pins_eqI) (auto simp: u om_find_erase [OF sorted] count_pins [OF sorted])
      ultimately show ?thesis by (simp add: u ss_inv_def)
    next
      case False
      with Some sorted pos show ?thesis
        by (auto simp: Unregister_def ss_inv_def om_sorted_put om_find_in_set [symmetric] count_pins
              intro!: pins_eqI split: if_splits)
    qed
  qed
  then show "ss_inv (Unregister q s)" "pins (Unregister q s) = pins s - {#q#}" by blast+
qed

lemma OldestOr_Min:
  assumes "ss_inv s"
  shows "OldestOr fallback s = (if pins s = {#} then fallback else Min (set_mset (pins s)))"
proof (cases "ss_active s")
  case (Cons x m)
  obtain q n where x: "x = (q, n)" by fastforce
  have sorted: "om_sorted (ss_active s)" and pos: "\<forall>(seq, n) \<in> set (ss_active s). 0 < n"
    using assms by (simp_all add: ss_inv_def)
  have mem: "r \<in># pins s \<longleftrightarrow> r \<in> fst ` set (ss_active s)" for r
    using pos unfolding count_greater_zero_iff [symmetric] count_pins [OF sorted]
    by (auto split: option.splits simp: map_of_eq_None_iff dest: map_of_SomeD) (force dest: map_of_SomeD)+
  have "Min (set_mset (pins s)) = q"
    using sorted by (intro Min_eqI) (auto simp: mem Cons x)
  moreover have "pins s \<noteq> {#}" using mem [of q] by (auto simp: Cons x)
  ultimately show ?thesis by (simp add: OldestOr_def Cons x)
qed (simp add: OldestOr_def pins_def)

section \<open>The contract compaction relies on\<close>

locale pin_registry =
  fixes invar :: "'s \<Rightarrow> bool"
    and pinned :: "'s \<Rightarrow> u64 multiset"
    and pin :: "u64 \<Rightarrow> nat \<Rightarrow> 's \<Rightarrow> bool \<times> 's"
    and unpin :: "u64 \<Rightarrow> 's \<Rightarrow> 's"
    and oldest :: "u64 \<Rightarrow> 's \<Rightarrow> u64"
  assumes pin_invar: "invar s \<Longrightarrow> invar (snd (pin q m s))"
    and pin_pinned: "invar s \<Longrightarrow> pinned (snd (pin q m s)) = (if fst (pin q m s) then add_mset q (pinned s) else pinned s)"
    and unpin_invar: "invar s \<Longrightarrow> invar (unpin q s)"
    and unpin_pinned: "invar s \<Longrightarrow> pinned (unpin q s) = pinned s - {#q#}"
    and oldest_lower: "invar s \<Longrightarrow> q \<in># pinned s \<Longrightarrow> oldest fallback s \<le> q"
    and oldest_pinned: "invar s \<Longrightarrow> pinned s \<noteq> {#} \<Longrightarrow> oldest fallback s \<in># pinned s"
begin

text \<open>A pin that was granted bounds the oldest sequence until it is released.\<close>

lemma granted_pin_bounds:
  assumes "invar s" "fst (pin q m s)"
  shows "oldest fallback (snd (pin q m s)) \<le> q"
  using assms pin_invar pin_pinned by (intro oldest_lower) simp_all

lemma pin_survives_other_release:
  assumes "invar s" "q \<in># pinned s" "r \<noteq> q"
  shows "oldest fallback (unpin r s) \<le> q"
  using assms unpin_invar unpin_pinned by (intro oldest_lower) (simp_all add: in_diff_count)

lemma oldest_monotone_release:
  assumes "invar s" "pinned (unpin r s) \<noteq> {#}"
  shows "oldest fallback s \<le> oldest fallback (unpin r s)"
proof (rule oldest_lower [OF assms(1)])
  show "oldest fallback (unpin r s) \<in># pinned s"
    using oldest_pinned [OF unpin_invar [OF assms(1)] assms(2)] unpin_pinned [OF assms(1)] by (metis in_diffD)
qed

end

interpretation snapshot_state: pin_registry ss_inv pins TryRegister Unregister OldestOr
proof
  fix s q m fallback
  assume inv: "ss_inv s"
  note reg = TryRegister_cases [OF inv prod.collapse [symmetric]]
  show "ss_inv (snd (TryRegister q m s))" by (rule reg(1))
  show "pins (snd (TryRegister q m s)) = (if fst (TryRegister q m s) then add_mset q (pins s) else pins s)"
    by (rule reg(3))
  show "ss_inv (Unregister q s)" "pins (Unregister q s) = pins s - {#q#}"
    using Unregister_pins [OF inv] by blast+
  show "OldestOr fallback s \<le> q" if "q \<in># pins s"
    using that OldestOr_Min [OF inv] by auto
  show "OldestOr fallback s \<in># pins s" if "pins s \<noteq> {#}"
    using that OldestOr_Min [OF inv] Min_in [of "set_mset (pins s)"] by simp
qed

section \<open>Properties\<close>

text \<open>
  The registry refines a multiset of pinned sequences: registering adds one occurrence unless the
  configured maximum is reached (a maximum of zero is no limit), unregistering removes one, the oldest
  sequence is the least pinned one or the fallback, and the active count is the number of pins.
\<close>

theorem snapshot_registry_refines_multiset:
  assumes "ss_inv s"
  shows "ss_inv (snd (TryRegister q maximum s)) \<and> ss_inv (Unregister q s) \<and>
    fst (TryRegister q maximum s) = (maximum = 0 \<or> size (pins s) < maximum) \<and>
    pins (snd (TryRegister q maximum s)) = (if fst (TryRegister q maximum s) then add_mset q (pins s) else pins s) \<and>
    pins (Unregister q s) = pins s - {#q#} \<and>
    OldestOr fallback s = (if pins s = {#} then fallback else Min (set_mset (pins s))) \<and>
    ActiveCount s = size (pins s)"
  using TryRegister_cases [OF assms prod.collapse [symmetric]] Unregister_pins [OF assms] OldestOr_Min [OF assms]
    ActiveCount_size by simp

theorem snapshot_registry_refines_multiset_witness:
  "pins (snd (TryRegister 5 2 SnapshotState_empty)) = {#5#}"
  using snapshot_registry_refines_multiset [OF ss_inv_empty(1), of 5 2] by simp

text \<open>
  A granted pin bounds the retention floor until it is itself released: releasing any other
  sequence keeps the oldest pinned sequence at or below it.
\<close>

theorem snapshot_pin_protects:
  assumes "ss_inv s" "fst (TryRegister q maximum s)" "r \<noteq> q"
  shows "OldestOr fallback (Unregister r (snd (TryRegister q maximum s))) \<le> q"
proof (rule snapshot_state.pin_survives_other_release)
  show "ss_inv (snd (TryRegister q maximum s))" by (rule snapshot_state.pin_invar [OF assms(1)])
  show "q \<in># pins (snd (TryRegister q maximum s))" using snapshot_state.pin_pinned [OF assms(1), of q maximum] assms(2) by simp
qed (rule assms(3))

theorem snapshot_pin_protects_witness:
  "OldestOr 9 (Unregister 3 (snd (TryRegister 5 0 SnapshotState_empty))) \<le> 5"
proof (rule snapshot_pin_protects)
  show "ss_inv SnapshotState_empty" by simp
  show "fst (TryRegister 5 0 SnapshotState_empty)" by code_simp
qed simp

end
