(* ===== verification/Filename.thy ===== *)
theory Filename
  imports Status
begin

text \<open>
  \<open>src/db/filename.cpp\<close>: names of numbered files. A name is the decimal number, padded to six
  digits, and a suffix for the file type. Parsing accepts exactly the names that formatting
  produces, so recovery and cleanup recognise every file the engine writes and nothing else.
\<close>

section \<open>Formatting and parsing\<close>

datatype NumberedFileType = kWal | kSstable | kSstableTemp

record NumberedFileName =
  fn_number :: u64
  fn_type :: NumberedFileType

fun Suffix :: "NumberedFileType \<Rightarrow> string" where
  "Suffix kWal = ''.wal''"
| "Suffix kSstable = ''.sst''"
| "Suffix kSstableTemp = ''.sst.tmp''"

definition digit :: "nat \<Rightarrow> char" where
  "digit d = char_of (48 + d)"

definition digit_value :: "char \<Rightarrow> nat" where
  "digit_value c = of_char c - 48"

definition is_digit :: "char \<Rightarrow> bool" where
  "is_digit c = (48 \<le> (of_char c :: nat) \<and> (of_char c :: nat) \<le> 57)"

text \<open>\<open>std::to_string\<close> of an unsigned number.\<close>

fun decimal :: "nat \<Rightarrow> string" where
  "decimal n = (if n < 10 then [digit n] else decimal (n div 10) @ [digit (n mod 10)])"

declare decimal.simps [simp del]

text \<open>
  \<open>std::from_chars\<close> to a 64-bit unsigned number: the longest prefix of digits; an error when there
  is none or the value does not fit.
\<close>

definition decimal_value :: "string \<Rightarrow> nat" where
  "decimal_value s = foldl (\<lambda>a c. 10 * a + digit_value c) 0 s"

definition from_chars :: "string \<Rightarrow> (nat \<times> string) option" where
  "from_chars s =
     (let ds = takeWhile is_digit s in
      if ds = [] \<or> max_u64 < decimal_value ds then None
      else Some (decimal_value ds, dropWhile is_digit s))"

definition FormatNumberedFileName :: "u64 \<Rightarrow> NumberedFileType \<Rightarrow> string" where
  "FormatNumberedFileName number type =
     (let digits = decimal (unat number) in
      (if length digits < 6 then replicate (6 - length digits) (CHR ''0'') else []) @ digits @ Suffix type)"

definition ends_with :: "string \<Rightarrow> string \<Rightarrow> bool" where
  "ends_with s suffix = (length suffix \<le> length s \<and> drop (length s - length suffix) s = suffix)"

definition ParseNumberedFileName :: "string \<Rightarrow> NumberedFileName option" where
  "ParseNumberedFileName name =
     (case (if ends_with name (Suffix kSstableTemp) then Some kSstableTemp
            else if ends_with name (Suffix kSstable) then Some kSstable
            else if ends_with name (Suffix kWal) then Some kWal
            else None) of
        None \<Rightarrow> None
      | Some type \<Rightarrow>
          let digits = take (length name - length (Suffix type)) name in
          if digits = [] then None
          else (case from_chars digits of
                  None \<Rightarrow> None
                | Some (number, rest) \<Rightarrow>
                    if rest \<noteq> [] \<or> number = 0 then None
                    else if FormatNumberedFileName (of_nat number) type \<noteq> name then None
                    else Some \<lparr>fn_number = of_nat number, fn_type = type\<rparr>))"

definition WalFileName :: "u64 \<Rightarrow> string" where
  "WalFileName number = FormatNumberedFileName number kWal"

definition SstableFileName :: "u64 \<Rightarrow> string" where
  "SstableFileName number = FormatNumberedFileName number kSstable"

definition SstableTempFileName :: "u64 \<Rightarrow> string" where
  "SstableTempFileName number = FormatNumberedFileName number kSstableTemp"

section \<open>Decimal digits\<close>

lemma digit_props [simp]: "d < 10 \<Longrightarrow> is_digit (digit d)" "d < 10 \<Longrightarrow> digit_value (digit d) = d"
  by (simp_all add: is_digit_def digit_def digit_value_def)

lemma decimal_digits: "\<forall>c \<in> set (decimal n). is_digit c"
proof (induction n rule: decimal.induct)
  case (1 n)
  then show ?case by (cases "n < 10") (auto simp: decimal.simps [of n])
qed

lemma decimal_value_append: "decimal_value (s @ [c]) = 10 * decimal_value s + digit_value c"
  by (simp add: decimal_value_def)

lemma decimal_value_decimal: "decimal_value (decimal n) = n"
proof (induction n rule: decimal.induct)
  case (1 n)
  then show ?case
    by (cases "n < 10") (simp_all add: decimal.simps [of n] decimal_value_append, simp add: decimal_value_def)
qed

lemma decimal_value_zeros: "decimal_value (replicate k (CHR ''0'') @ s) = decimal_value s"
  by (induction k) (simp_all add: decimal_value_def digit_value_def)

lemma decimal_nonempty: "decimal n \<noteq> []"
  by (subst decimal.simps) simp

definition padded :: "nat \<Rightarrow> string" where
  "padded n = replicate (6 - length (decimal n)) (CHR ''0'') @ decimal n"

lemma padded_digits: "\<forall>c \<in> set (padded n). is_digit c"
  using decimal_digits by (auto simp: padded_def is_digit_def)

lemma padded_facts: "padded n \<noteq> []" "decimal_value (padded n) = n" "takeWhile is_digit (padded n) = padded n"
  "dropWhile is_digit (padded n) = []"
  using padded_digits [of n] by (simp_all add: padded_def decimal_nonempty decimal_value_zeros decimal_value_decimal)

lemma Format_padded: "FormatNumberedFileName n t = padded (unat n) @ Suffix t"
  by (simp add: FormatNumberedFileName_def padded_def Let_def)

lemma from_chars_padded: "from_chars (padded (unat (n :: u64))) = Some (unat n, [])"
  using unat_u64_le [of n] by (simp add: from_chars_def Let_def padded_facts not_less)

section \<open>Round trip\<close>

lemma ends_with_append [simp]: "ends_with (s @ t) t"
  by (simp add: ends_with_def)

lemma ends_with_last: "ends_with s t \<Longrightarrow> t \<noteq> [] \<Longrightarrow> last s = last t"
  by (metis ends_with_def append_take_drop_id last_appendR)

lemma Parse_Format:
  assumes "n \<noteq> 0"
  shows "ParseNumberedFileName (FormatNumberedFileName n t) = Some \<lparr>fn_number = n, fn_type = t\<rparr>"
proof -
  let ?name = "FormatNumberedFileName n t"
  have "last ?name = last (Suffix t)" by (cases t) (simp_all add: Format_padded)
  then have type: "(if ends_with ?name (Suffix kSstableTemp) then Some kSstableTemp
            else if ends_with ?name (Suffix kSstable) then Some kSstable
            else if ends_with ?name (Suffix kWal) then Some kWal else None) = Some t"
    using ends_with_last [of ?name "Suffix kSstableTemp"] ends_with_last [of ?name "Suffix kSstable"]
    by (cases t) (auto simp: Format_padded)
  have digits: "take (length ?name - length (Suffix t)) ?name = padded (unat n)" by (simp add: Format_padded)
  have "unat n \<noteq> 0" using assms by (simp add: unat_eq_0)
  then show ?thesis
    unfolding ParseNumberedFileName_def type option.case Let_def digits from_chars_padded prod.case
    by (simp add: padded_facts)
qed

lemma Parse_canonical:
  assumes "ParseNumberedFileName name = Some f"
  shows "fn_number f \<noteq> 0" "name = FormatNumberedFileName (fn_number f) (fn_type f)"
proof -
  obtain t digits number where r: "from_chars digits = Some (number, [])" "number \<noteq> 0"
    "FormatNumberedFileName (of_nat number) t = name" "f = \<lparr>fn_number = of_nat number, fn_type = t\<rparr>"
    using assms by (auto simp: ParseNumberedFileName_def Let_def split: if_splits option.splits prod.splits)
  then have "number \<le> max_u64" by (auto simp: from_chars_def Let_def split: if_splits)
  then have "unat (of_nat number :: u64) = number" by simp
  with r(2) have "(of_nat number :: u64) \<noteq> 0" by (metis unat_0)
  with r show "fn_number f \<noteq> 0" "name = FormatNumberedFileName (fn_number f) (fn_type f)" by auto
qed

text \<open>Different numbers or types have different names, and a name starts with a digit.\<close>

lemma Format_inject: "FormatNumberedFileName a s = FormatNumberedFileName b t \<longleftrightarrow> a = b \<and> s = t"
proof
  have tw: "takeWhile is_digit (FormatNumberedFileName n u) = padded (unat n)" for n u
    using padded_digits [of "unat n"] by (cases u) (simp_all add: Format_padded takeWhile_append is_digit_def)
  assume eq: "FormatNumberedFileName a s = FormatNumberedFileName b t"
  then have p: "padded (unat a) = padded (unat b)" using tw by metis
  then have "unat a = unat b" using padded_facts(2) by metis
  moreover have "Suffix s = Suffix t" using eq p by (simp add: Format_padded)
  then have "s = t" by (cases s; cases t) simp_all
  ultimately show "a = b \<and> s = t" using unsigned_word_eqI by blast
qed simp

lemma Format_hd: "is_digit (hd (FormatNumberedFileName n t))"
  using padded_digits [of "unat n"] padded_facts(1) [of "unat n"] by (simp add: Format_padded)

section \<open>Properties\<close>

text \<open>
  File names and numbers correspond one to one: a formatted name of a positive number parses back
  to the number and the type, and every name that parses is the formatted one, so no two spellings
  denote one file.
\<close>

theorem filename_roundtrip:
  "n \<noteq> 0 \<Longrightarrow> ParseNumberedFileName name = Some \<lparr>fn_number = n, fn_type = t\<rparr> \<longleftrightarrow> name = FormatNumberedFileName n t"
  using Parse_Format [of n t] Parse_canonical [of name "\<lparr>fn_number = n, fn_type = t\<rparr>"] by auto

theorem filename_roundtrip_witness: "ParseNumberedFileName (FormatNumberedFileName 42 kSstable) = Some \<lparr>fn_number = 42, fn_type = kSstable\<rparr>"
  using filename_roundtrip [of 42 "FormatNumberedFileName 42 kSstable" kSstable] by simp

end
