(* ===== verification/Db_State.thy ===== *)
theory Db_State
  imports Manifest_State Sstable_Table Recovery Snapshot_Registry Filename
begin

text \<open>
  \<open>DB::Impl\<close> of \<open>src/db/db_impl.h\<close>: the state of an open database, the metrics it keeps, and the helpers
  every handler uses. The handlers are in \<open>Db_Read\<close>, \<open>Write_Path\<close>, \<open>Rotation\<close>, \<open>Compaction\<close> and
  \<open>Db_Open\<close>. An operation of the database is a function on this record; \<open>mutex_\<close> is held during a
  handler, so a handler is one step, and what other threads do while a handler waits is an explicit
  argument of it. Clock readings (the nanosecond counters) and allocation failures are not modelled.
\<close>

section \<open>Options\<close>

record Options =
  o_memtable_bytes :: u64
  o_create_if_missing :: bool
  o_sync_on_write :: bool
  o_max_key_bytes :: u32
  o_max_value_bytes :: u32
  o_sstable_block_bytes :: u64
  o_sstable_restart_interval :: u32
  o_block_cache_bytes :: u64
  o_compaction_table_trigger :: u64
  o_max_active_snapshots :: u64
  o_max_pending_write_requests :: u64
  o_max_pending_write_bytes :: u64
  o_max_group_commit_requests :: u64
  o_max_group_commit_bytes :: u64

definition Limits :: "Options \<Rightarrow> DecodeLimits" where
  "Limits opts = \<lparr>max_key_bytes = o_max_key_bytes opts, max_value_bytes = o_max_value_bytes opts\<rparr>"

section \<open>Metrics\<close>

record WriteMetrics =
  wm_writes :: u64
  wm_write_batches :: u64
  wm_logical_write_bytes :: u64
  wm_wal_syncs :: u64
  wm_memtable_rotations :: u64
  wm_background_flushes :: u64
  wm_background_flush_failures :: u64
  wm_backpressure_waits :: u64
  wm_group_commits :: u64
  wm_grouped_write_requests :: u64
  wm_writer_queue_depth :: u64
  wm_max_writer_queue_depth :: u64
  wm_background_queue_depth :: u64
  wm_max_background_queue_depth :: u64
  wm_immutable_memtable_bytes :: u64
  wm_max_immutable_memtable_bytes :: u64

record CompactionMetrics =
  cm_compactions :: u64
  cm_background_compactions :: u64
  cm_compaction_failures :: u64
  cm_compaction_input_tables :: u64
  cm_compaction_output_tables :: u64
  cm_compaction_input_bytes :: u64
  cm_compaction_output_bytes :: u64
  cm_flush_output_bytes :: u64
  cm_table_count :: u64
  cm_live_sstable_bytes :: u64
  cm_compaction_debt_tables :: u64
  cm_compaction_debt_bytes :: u64

record ReadMetrics =
  rm_point_lookups :: u64
  rm_range_scans :: u64
  rm_scan_table_inputs :: u64
  rm_read_lock_acquisitions :: u64
  rm_write_lock_acquisitions :: u64
  rm_table :: ReadCounters

text \<open>\<open>UpdateMaximum\<close>: the compare-and-swap loop stores the larger of the two values.\<close>

definition UpdateMaximum :: "u64 \<Rightarrow> u64 \<Rightarrow> u64" where
  "UpdateMaximum destination v = (if destination < v then v else destination)"

section \<open>The database\<close>

text \<open>An open table: its reader and the file it reads.\<close>

record DbTable =
  dt_reader :: SSTableReader
  dt_file :: RandomAccessFile

text \<open>
  \<open>db_registry\<close> is the identity of the snapshot registry (\<open>snapshot_state_\<close> is compared as a pointer). The manifest,
  the registry and the cache are set by every successful \<open>Open\<close>, so they are no options here.
\<close>

record Db =
  db_options :: Options
  db_fs :: FileSystem
  db_memtable :: MemTable
  db_immutable :: "MemTable option"
  db_wal :: "(nat \<times> WalWriter) option"
  db_tables :: "DbTable list"
  db_manifest :: ManifestState
  db_cache :: BlockCache
  db_snapshots :: SnapshotState
  db_registry :: nat
  db_terminal_error :: "StatusCode option"
  db_background_error :: "StatusCode option"
  db_pending_cleanup :: "string list"
  db_next_sequence :: u64
  db_closed :: bool
  db_closing :: bool
  db_flush_requested :: bool
  db_compaction_requested :: bool
  db_flush_running :: bool
  db_compaction_running :: bool
  db_worker_stopping :: bool
  db_read_metrics :: ReadMetrics
  db_write_metrics :: WriteMetrics
  db_compaction_metrics :: CompactionMetrics

abbreviation db_current :: "Db \<Rightarrow> ManifestSnapshot" where
  "db_current db \<equiv> ms_current (db_manifest db)"

text \<open>The unflushed entries, and all entries, of a database.\<close>

definition memory :: "Db \<Rightarrow> InternalEntry set" where
  "memory db = set (mt_all (db_memtable db)) \<union> (case db_immutable db of None \<Rightarrow> {} | Some m \<Rightarrow> set (mt_all m))"

definition dt_entries :: "DbTable \<Rightarrow> InternalEntry list" where
  "dt_entries t = table_entries (dt_reader t) (ra_data (dt_file t))"

definition contents :: "Db \<Rightarrow> InternalEntry set" where
  "contents db = memory db \<union> (\<Union>t \<in> set (db_tables db). set (dt_entries t))"

definition CheckOpen :: "Db \<Rightarrow> StatusCode" where
  "CheckOpen db =
     (if db_closed db \<or> db_closing db then kAlreadyClosed
      else case db_terminal_error db of
        Some c \<Rightarrow> c
      | None \<Rightarrow> (case db_background_error db of Some c \<Rightarrow> c | None \<Rightarrow> kOk))"

section \<open>Running component operations inside the database\<close>

definition on_fs :: "(FileSystem, 'a) op \<Rightarrow> (Db, 'a) op" where
  "on_fs m db = (case m (db_fs db) of (r, fs) \<Rightarrow> (r, db\<lparr>db_fs := fs\<rparr>))"

definition db_modify :: "(Db \<Rightarrow> Db) \<Rightarrow> (Db, unit) op" where
  "db_modify f db = (Ok (), f db)"

definition check :: "bool \<Rightarrow> StatusCode \<Rightarrow> (Db, unit) op" where
  "check p c db = (if p then (Ok (), db) else (Err c, db))"

text \<open>An operation of a table runs on its file, the shared cache and the shared counters.\<close>

definition table_state :: "RandomAccessFile \<Rightarrow> Db \<Rightarrow> TableState" where
  "table_state f db = \<lparr>ts_file = f, ts_cache = Some (db_cache db), ts_counters = rm_table (db_read_metrics db)\<rparr>"

definition absorb_state :: "TableState \<Rightarrow> Db \<Rightarrow> Db" where
  "absorb_state ts db =
     db\<lparr>db_cache := (case ts_cache ts of Some c \<Rightarrow> c | None \<Rightarrow> db_cache db),
        db_read_metrics := (db_read_metrics db)\<lparr>rm_table := ts_counters ts\<rparr>\<rparr>"

definition on_table_file :: "(TableState, 'a) op \<Rightarrow> RandomAccessFile \<Rightarrow> (Db, 'a \<times> RandomAccessFile) op" where
  "on_table_file m f db =
     (case m (table_state f db) of
        (Ok x, ts) \<Rightarrow> (Ok (x, ts_file ts), absorb_state ts db)
      | (Err c, ts) \<Rightarrow> (Err c, absorb_state ts db)
      | (UB, ts) \<Rightarrow> (UB, absorb_state ts db))"

text \<open>The same for the table at a position, which keeps its file.\<close>

definition on_table :: "(SSTableReader \<Rightarrow> (TableState, 'a) op) \<Rightarrow> nat \<Rightarrow> (Db, 'a) op" where
  "on_table m i db =
     (let t = db_tables db ! i in
      case m (dt_reader t) (table_state (dt_file t) db) of
        (r, ts) \<Rightarrow> (r, (absorb_state ts db)\<lparr>db_tables := (db_tables db)[i := t\<lparr>dt_file := ts_file ts\<rparr>]\<rparr>))"

section \<open>Publishing a manifest\<close>

text \<open>
  Every publication of an open database handles its outcome the same way: a replacement that may be
  visible without being durable is a terminal error of the handle, any other failure is returned.
\<close>

definition db_publish :: "Protobuf \<Rightarrow> ManifestSnapshot \<Rightarrow> (Db, unit) op" where
  "db_publish pb next db =
     (case Publish pb next (db_manifest db) (db_fs db) of
        (Ok out, ms, fs) \<Rightarrow>
          let db = db\<lparr>db_manifest := ms, db_fs := fs\<rparr> in
          (case po_state out of
             kDurable \<Rightarrow> (Ok (), db)
           | kVisibleNotDurable \<Rightarrow> (Err (po_status out), db\<lparr>db_terminal_error := Some (po_status out)\<rparr>)
           | kNotPublished \<Rightarrow> (Err (po_status out), db))
      | (Err c, ms, fs) \<Rightarrow> (Err c, db\<lparr>db_manifest := ms, db_fs := fs\<rparr>)
      | (UB, ms, fs) \<Rightarrow> (UB, db\<lparr>db_manifest := ms, db_fs := fs\<rparr>))"

section \<open>Best-effort file removal\<close>

definition RememberCleanup :: "string \<Rightarrow> Db \<Rightarrow> Db" where
  "RememberCleanup path db =
     (if path \<in> set (db_pending_cleanup db) then db
      else db\<lparr>db_pending_cleanup := db_pending_cleanup db @ [path]\<rparr>)"

definition BestEffortRemove :: "string \<Rightarrow> Db \<Rightarrow> bool \<times> Db" where
  "BestEffortRemove path db =
     (case on_fs (Remove path) db of
        (Ok _, db') \<Rightarrow> (True, db')
      | (_, db') \<Rightarrow> (False, RememberCleanup path db'))"

definition BestEffortSyncDir :: "Db \<Rightarrow> Db" where
  "BestEffortSyncDir db = snd (on_fs SyncDir db)"

definition BestEffortClose :: "(nat \<times> WalWriter) option \<Rightarrow> Db \<Rightarrow> Db" where
  "BestEffortClose wal db =
     (case wal of
        None \<Rightarrow> db
      | Some (i, w) \<Rightarrow>
          (case WalWriter_Close w of (c, w') \<Rightarrow> db\<lparr>db_fs := write_back (i, ww_file w') (db_fs db)\<rparr>))"

fun remove_all :: "string list \<Rightarrow> Db \<Rightarrow> bool \<times> Db" where
  "remove_all [] db = (False, db)"
| "remove_all (p # ps) db =
     (case BestEffortRemove p db of (a, db') \<Rightarrow> (case remove_all ps db' of (b, db'') \<Rightarrow> (a \<or> b, db'')))"

text \<open>Which names a manifest leaves obsolete.\<close>

definition obsolete :: "ManifestSnapshot \<Rightarrow> string \<Rightarrow> bool" where
  "obsolete current name =
     (case ParseNumberedFileName name of
        Some numbered \<Rightarrow>
          (case fn_type numbered of
             kWal \<Rightarrow> fn_number numbered \<noteq> active_wal_number current \<and> fn_number numbered \<noteq> immutable_wal_number current
           | kSstable \<Rightarrow> list_all (\<lambda>t. tm_file_number t \<noteq> fn_number numbered) (live_tables current)
           | kSstableTemp \<Rightarrow> True)
      | None \<Rightarrow> name = kTemp)"

definition CleanupObsoleteFiles :: "Db \<Rightarrow> Db" where
  "CleanupObsoleteFiles db =
     (let pending = db_pending_cleanup db in
      case remove_all pending (db\<lparr>db_pending_cleanup := []\<rparr>) of (removed_pending, db) \<Rightarrow>
        (case on_fs ListDir db of
           (Ok names, db) \<Rightarrow>
             (case remove_all (filter (obsolete (db_current db)) names) db of
                (removed, db) \<Rightarrow> if removed_pending \<or> removed then BestEffortSyncDir db else db)
         | (_, db) \<Rightarrow> if removed_pending then BestEffortSyncDir db else db))"

text \<open>The names of numbered files are none of the manifest's.\<close>

lemma numbered_names [simp]:
  "FormatNumberedFileName n t \<noteq> kManifest" "FormatNumberedFileName n t \<noteq> kTemp"
  using Format_hd [of n t] by (auto simp: kManifest_def kTemp_def is_digit_def)

lemma file_names [simp]:
  "WalFileName n \<noteq> kManifest" "WalFileName n \<noteq> kTemp" "SstableFileName n \<noteq> kManifest" "SstableFileName n \<noteq> kTemp"
  "SstableTempFileName n \<noteq> kManifest" "SstableTempFileName n \<noteq> kTemp"
  "WalFileName a = WalFileName b \<longleftrightarrow> a = b" "SstableFileName a = SstableFileName b \<longleftrightarrow> a = b"
  "WalFileName a \<noteq> SstableFileName b" "SstableFileName b \<noteq> WalFileName a" "WalFileName a \<noteq> SstableTempFileName b"
  "SstableTempFileName b \<noteq> WalFileName a" "SstableFileName a \<noteq> SstableTempFileName b" "SstableTempFileName b \<noteq> SstableFileName a"
  by (simp_all add: WalFileName_def SstableFileName_def SstableTempFileName_def Format_inject)

lemmas file_names_sym [simp] = file_names(1-6) [symmetric]

section \<open>Gauges\<close>

definition NeedsBackgroundCompaction :: "Db \<Rightarrow> bool" where
  "NeedsBackgroundCompaction db =
     (let trigger = o_compaction_table_trigger (db_options db) in
      trigger \<noteq> 0 \<and> unat trigger \<le> length (db_tables db))"

text \<open>Summing file sizes stops at the largest 64-bit value.\<close>

fun saturating_sum :: "u64 \<Rightarrow> u64 list \<Rightarrow> u64" where
  "saturating_sum acc [] = acc"
| "saturating_sum acc (b # bs) = (if b > - 1 - acc then - 1 else saturating_sum (acc + b) bs)"

definition UpdateCompactionGauges :: "Db \<Rightarrow> Db" where
  "UpdateCompactionGauges db =
     (let sizes = map tm_file_size (live_tables (db_current db));
          trigger = o_compaction_table_trigger (db_options db);
          table_count = of_nat (length (db_tables db)) in
      db\<lparr>db_compaction_metrics := (db_compaction_metrics db)
           \<lparr>cm_table_count := table_count,
            cm_live_sstable_bytes := saturating_sum 0 sizes,
            cm_compaction_debt_tables := (if NeedsBackgroundCompaction db then table_count - trigger + 1 else 0),
            cm_compaction_debt_bytes :=
              (if NeedsBackgroundCompaction db then saturating_sum 0 (take (unat trigger) sizes) else 0)\<rparr>\<rparr>)"

lemma saturating_sum_exact: "unat (saturating_sum acc bs) = min max_u64 (unat acc + sum_list (map unat bs))"
proof (induction bs arbitrary: acc)
  case Nil
  then show ?case using unat_u64_le [of acc] by simp
next
  case (Cons b bs)
  show ?case
  proof (cases "b > - 1 - acc")
    case True
    then have "max_u64 < unat acc + unat b" by (simp add: guard_iff)
    moreover have "unat (- 1 :: u64) = max_u64" by (simp add: max_u64_def unsigned_minus_1_eq_mask mask_eq_exp_minus_1)
    ultimately show ?thesis using True by simp
  next
    case False
    then have "unat (acc + b) = unat acc + unat b" by (rule guarded_add_exact)
    then show ?thesis using Cons.IH [of "acc + b"] False by simp
  qed
qed

end
