(* ===== verification/Rotation.thy ===== *)
theory Rotation
  imports Db_State
begin

text \<open>
  Moving data from memory to disk (\<open>src/db/db_impl.cpp\<close>): \<open>RotateMemTable\<close> seals the active MemTable with
  its log and starts a new log, \<open>FlushImmutableMemTable\<close> writes the sealed MemTable as a table and
  publishes it, and the background worker's loop body runs a flush or a compaction and records its
  outcome.
\<close>

section \<open>Rotation\<close>

text \<open>The code after a durable publication: the new log takes over and the MemTable is sealed.\<close>

definition seal_memtable :: "handle \<Rightarrow> Db \<Rightarrow> Db" where
  "seal_memtable h db =
     (let old_wal = db_wal db; bytes = ApproximateMemoryUsage (db_memtable db);
          wm = db_write_metrics db;
          db = db\<lparr>db_wal := Some (fst h, \<lparr>ww_file = snd h, ww_limits = Limits (db_options db)\<rparr>),
                  db_immutable := Some (db_memtable db),
                  db_memtable := MemTable_Clear (db_memtable db),
                  db_write_metrics := wm
                    \<lparr>wm_immutable_memtable_bytes := bytes,
                     wm_background_queue_depth := 1,
                     wm_max_background_queue_depth := UpdateMaximum (wm_max_background_queue_depth wm) 1,
                     wm_max_immutable_memtable_bytes := UpdateMaximum (wm_max_immutable_memtable_bytes wm) bytes,
                     wm_memtable_rotations := wm_memtable_rotations wm + 1\<rparr>\<rparr>
      in (BestEffortClose old_wal db)\<lparr>db_flush_requested := True\<rparr>)"

definition RotateMemTable :: "Protobuf \<Rightarrow> (Db, unit) op" where
  "RotateMemTable pb db =
     (let current = db_current db; table_number = next_file_number current; wal_number = table_number + 1 in
      if db_immutable db \<noteq> None then (Err kCorruption, db)
      else if MemTable_Empty (db_memtable db) then (Ok (), db)
      else if length (live_tables current) \<noteq> length (db_tables db) then (Err kCorruption, db)
      else if table_number \<ge> - 1 - 1 then (Err kResourceExhausted, db)
      else
        op_bind (on_fs (OpenWritable (WalFileName wal_number) False)) (\<lambda>h.
        op_bind (on_fs (handle_Sync h)) (\<lambda>h.
        op_bind (db_publish pb (current\<lparr>active_wal_number := wal_number,
                                         immutable_wal_number := active_wal_number current,
                                         next_file_number := wal_number + 1\<rparr>)) (\<lambda>_ db.
          (Ok (), seal_memtable h db)))) db)"

section \<open>Flush\<close>

definition Matches :: "TableMeta \<Rightarrow> BuiltTableInfo \<Rightarrow> bool" where
  "Matches meta properties =
     (tm_file_size meta = ti_file_size properties \<and> tm_smallest_key meta = ti_smallest_key properties \<and>
      tm_largest_key meta = ti_largest_key properties \<and> tm_min_sequence meta = ti_min_sequence properties \<and>
      tm_max_sequence meta = ti_max_sequence properties)"

definition meta_of :: "u64 \<Rightarrow> BuiltTableInfo \<Rightarrow> TableMeta" where
  "meta_of number info =
     \<lparr>tm_file_number = number, tm_file_size = ti_file_size info, tm_smallest_key = ti_smallest_key info,
      tm_largest_key = ti_largest_key info, tm_min_sequence = ti_min_sequence info,
      tm_max_sequence = ti_max_sequence info\<rparr>"

text \<open>The code under the first lock of \<open>FlushImmutableMemTable\<close>: what to write, and under which number.\<close>

definition flush_begin :: "(Db, (u64 \<times> u64 \<times> InternalEntry list) option) op" where
  "flush_begin db =
     (case db_immutable db of
        None \<Rightarrow> (Ok None, db)
      | Some immutable \<Rightarrow>
          let current = db_current db; wal = immutable_wal_number current in
          if wal = 0 then (Err kCorruption, db)
          else if length (live_tables current) \<noteq> length (db_tables db) then (Err kCorruption, db)
          else if active_wal_number current < 2 then (Err kCorruption, db)
          else (Ok (Some (active_wal_number current - 1, wal, MemTable_Scan immutable [] [])),
                CleanupObsoleteFiles db))"

text \<open>
  Writing a table under its temporary name, with the bytes going to the file after each step, reading
  it back through a new reader and comparing the properties. The builder is used by the flush and by
  compaction; both leave the temporary file behind when a step fails.
\<close>

definition run_builder ::
  "InternalEntry list \<Rightarrow> handle \<Rightarrow> (Db, BuiltTableInfo) op" where
  "run_builder entries h db =
     (case build_table entries
         (SSTableBuilder_new (snd h) (unat (o_sstable_block_bytes (db_options db)))
            (o_sstable_restart_interval (db_options db))) of
        (r, b) \<Rightarrow> (r, db\<lparr>db_fs := write_back (fst h, sb_file b) (db_fs db)\<rparr>))"

definition open_reader :: "u64 \<Rightarrow> string \<Rightarrow> (Db, DbTable) op" where
  "open_reader number name =
     op_bind (on_fs (OpenRandomAccess name)) (\<lambda>f db.
       case Open number f of
         (Ok r, f') \<Rightarrow> (Ok \<lparr>dt_reader = r, dt_file = f'\<rparr>, db)
       | (Err c, f') \<Rightarrow> (Err c, db)
       | (UB, f') \<Rightarrow> (UB, db))"

definition validate_reader ::
  "(InternalEntry list \<Rightarrow> u64) \<Rightarrow> DbTable \<Rightarrow> (Db, BuiltTableInfo \<times> DbTable) op" where
  "validate_reader charge t =
     op_bind (on_table_file (ValidateAndGetProperties charge (dt_reader t)) (dt_file t)) (\<lambda>(info, f) db.
       (Ok (info, t\<lparr>dt_file := f\<rparr>), db))"

text \<open>
  The code under the second lock: the new table enters the manifest and the list of readers, the sealed MemTable goes,
  and its log is removed.
\<close>

definition flush_install :: "u64 \<Rightarrow> BuiltTableInfo \<Rightarrow> DbTable \<Rightarrow> Db \<Rightarrow> Db" where
  "flush_install immutable_wal built verified db =
     (let db = db\<lparr>db_tables := db_tables db @ [verified], db_immutable := None,
                 db_compaction_metrics := (db_compaction_metrics db)\<lparr>cm_flush_output_bytes :=
                   cm_flush_output_bytes (db_compaction_metrics db) + ti_file_size built\<rparr>\<rparr>;
          db = UpdateCompactionGauges db;
          db = db\<lparr>db_compaction_requested := (db_compaction_requested db \<or> NeedsBackgroundCompaction db),
                  db_write_metrics := (db_write_metrics db)
                    \<lparr>wm_background_queue_depth := 0, wm_immutable_memtable_bytes := 0\<rparr>\<rparr>
      in case BestEffortRemove (WalFileName immutable_wal) db of
           (removed, db) \<Rightarrow> if removed then BestEffortSyncDir db else db)"

definition flush_publish ::
  "Protobuf \<Rightarrow> u64 \<Rightarrow> u64 \<Rightarrow> BuiltTableInfo \<Rightarrow> BuiltTableInfo \<times> DbTable \<Rightarrow> (Db, unit) op" where
  "flush_publish pb number immutable_wal built verified db =
     (let current = db_current db; meta = meta_of number built in
      if db_immutable db = None \<or> immutable_wal_number current \<noteq> immutable_wal \<or> active_wal_number current \<noteq> number + 1
      then (Err kCorruption, db)
      else if \<not> Matches meta (fst verified) then (Err kCorruption, db)
      else
        op_bind (db_publish pb (current\<lparr>immutable_wal_number := 0, last_sequence := ti_max_sequence built,
                                        live_tables := live_tables current @ [meta]\<rparr>)) (\<lambda>_ db.
          (Ok (), flush_install immutable_wal built (snd verified) db)) db)"

text \<open>The work without the lock: the table is written under a temporary name, read back and renamed.\<close>

definition flush_write ::
  "(InternalEntry list \<Rightarrow> u64) \<Rightarrow> u64 \<Rightarrow> InternalEntry list \<Rightarrow> (Db, BuiltTableInfo \<times> BuiltTableInfo \<times> DbTable) op" where
  "flush_write charge number entries =
     op_bind (check (entries \<noteq> []) kCorruption) (\<lambda>_.
     op_bind (on_fs (OpenWritable (SstableTempFileName number) False)) (\<lambda>h.
     op_bind (run_builder entries h) (\<lambda>built.
     op_bind (open_reader number (SstableTempFileName number)) (\<lambda>verified.
     op_bind (validate_reader charge verified) (\<lambda>verified.
     op_bind (on_fs (Rename (SstableTempFileName number) (SstableFileName number))) (\<lambda>_.
     op_bind (on_fs SyncDir) (\<lambda>_. op_return (built, verified))))))))"

text \<open>Other threads act (\<open>others\<close>) until the lock is taken again.\<close>

definition flush_entries ::
  "Protobuf \<Rightarrow> (InternalEntry list \<Rightarrow> u64) \<Rightarrow> (Db \<Rightarrow> Db) \<Rightarrow> u64 \<times> u64 \<times> InternalEntry list \<Rightarrow> (Db, unit) op" where
  "flush_entries pb charge others work =
     (case work of (number, immutable_wal, entries) \<Rightarrow>
        op_bind (flush_write charge number entries) (\<lambda>(built, verified).
        op_bind (db_modify others) (\<lambda>_. flush_publish pb number immutable_wal built verified)))"

definition FlushImmutableMemTable :: "Protobuf \<Rightarrow> (InternalEntry list \<Rightarrow> u64) \<Rightarrow> (Db \<Rightarrow> Db) \<Rightarrow> (Db, unit) op" where
  "FlushImmutableMemTable pb charge others =
     op_bind flush_begin (\<lambda>work.
       case work of None \<Rightarrow> op_return () | Some w \<Rightarrow> flush_entries pb charge others w)"

section \<open>What a rotation changes\<close>

lemma on_fs_result: "on_fs m db = (r, db') \<Longrightarrow> \<exists>fs. m (db_fs db) = (r, fs) \<and> db' = db\<lparr>db_fs := fs\<rparr>"
  by (auto simp: on_fs_def split: prod.splits)

lemma db_publish_result:
  assumes "db_publish pb next db = (r, db')"
  obtains x ms fs te where "Publish pb next (db_manifest db) (db_fs db) = (x, ms, fs)"
    "db' = db\<lparr>db_manifest := ms, db_fs := fs, db_terminal_error := te\<rparr>"
    "r = Ok () \<longleftrightarrow> (\<exists>out. x = Ok out \<and> po_state out = kDurable)"
    "te = (case x of Ok out \<Rightarrow> if po_state out = kVisibleNotDurable then Some (po_status out) else db_terminal_error db
           | _ \<Rightarrow> db_terminal_error db)"
proof -
  obtain x ms fs where p: "Publish pb next (db_manifest db) (db_fs db) = (x, ms, fs)" by (metis prod_cases3)
  let ?te = "case x of Ok out \<Rightarrow> if po_state out = kVisibleNotDurable then Some (po_status out) else db_terminal_error db
           | _ \<Rightarrow> db_terminal_error db"
  show thesis
    by (rule that [OF p, of ?te])
       (use assms p in \<open>auto simp: db_publish_def Let_def split: result.splits ManifestPublishState.splits\<close>)
qed

text \<open>The parts of the state a failed rotation leaves as they were.\<close>

definition same_memory :: "Db \<Rightarrow> Db \<Rightarrow> bool" where
  "same_memory db db' \<longleftrightarrow>
     db_memtable db' = db_memtable db \<and> db_immutable db' = db_immutable db \<and> db_next_sequence db' = db_next_sequence db \<and>
     db_options db' = db_options db \<and> db_tables db' = db_tables db \<and> db_wal db' = db_wal db"

definition rotated_memory :: "Db \<Rightarrow> Db \<Rightarrow> bool" where
  "rotated_memory db db' \<longleftrightarrow>
     db_memtable db' = MemTable_empty \<and> db_immutable db = None \<and> db_immutable db' = Some (db_memtable db) \<and>
     db_next_sequence db' = db_next_sequence db \<and> db_options db' = db_options db \<and> db_tables db' = db_tables db"

lemma same_memory_refl [simp]: "same_memory db db"
  by (simp add: same_memory_def)

lemma BestEffortClose_simps [simp]:
  "db_memtable (BestEffortClose wal db) = db_memtable db" "db_immutable (BestEffortClose wal db) = db_immutable db"
  "db_next_sequence (BestEffortClose wal db) = db_next_sequence db" "db_options (BestEffortClose wal db) = db_options db"
  "db_tables (BestEffortClose wal db) = db_tables db" "db_wal (BestEffortClose wal db) = db_wal db"
  "db_manifest (BestEffortClose wal db) = db_manifest db" "db_terminal_error (BestEffortClose wal db) = db_terminal_error db"
  by (auto simp: BestEffortClose_def split: option.splits prod.splits)

lemma seal_memtable_simps [simp]:
  "db_memtable (seal_memtable h db) = MemTable_empty" "db_immutable (seal_memtable h db) = Some (db_memtable db)"
  "db_next_sequence (seal_memtable h db) = db_next_sequence db" "db_options (seal_memtable h db) = db_options db"
  "db_tables (seal_memtable h db) = db_tables db" "db_manifest (seal_memtable h db) = db_manifest db"
  "db_wal (seal_memtable h db) = Some (fst h, \<lparr>ww_file = snd h, ww_limits = Limits (db_options db)\<rparr>)"
  by (simp_all add: seal_memtable_def Let_def)

text \<open>The snapshot a rotation publishes, and the steps a rotation that reaches the publication has made.\<close>

definition rotation_snapshot :: "ManifestSnapshot \<Rightarrow> ManifestSnapshot" where
  "rotation_snapshot current =
     current\<lparr>active_wal_number := next_file_number current + 1, immutable_wal_number := active_wal_number current,
             next_file_number := next_file_number current + 1 + 1\<rparr>"

lemma RotateMemTable_cases:
  assumes "RotateMemTable pb db = (r, db')"
  obtains (idle) "db' = db"
    | (files) fs where "db' = db\<lparr>db_fs := fs\<rparr>" "r \<noteq> Ok ()"
        "\<exists>h fs1. OpenWritable (WalFileName (next_file_number (db_current db) + 1)) False (db_fs db) = (h, fs1) \<and>
           ((\<forall>x. h \<noteq> Ok x) \<and> fs = fs1 \<or> (\<exists>x y. h = Ok x \<and> handle_Sync x fs1 = (y, fs)))"
    | (published) h h' fs1 fs2 db3 r3 where "db_immutable db = None" "\<not> MemTable_Empty (db_memtable db)"
        "length (live_tables (db_current db)) = length (db_tables db)"
        "OpenWritable (WalFileName (next_file_number (db_current db) + 1)) False (db_fs db) = (Ok h, fs1)"
        "handle_Sync h fs1 = (Ok h', fs2)"
        "db_publish pb (rotation_snapshot (db_current db)) (db\<lparr>db_fs := fs2\<rparr>) = (r3, db3)"
        "r3 = Ok () \<and> r = Ok () \<and> db' = seal_memtable h' db3 \<or> r3 \<noteq> Ok () \<and> r \<noteq> Ok () \<and> db' = db3"
proof (cases "db_immutable db \<noteq> None \<or> MemTable_Empty (db_memtable db) \<or>
    length (live_tables (db_current db)) \<noteq> length (db_tables db) \<or> next_file_number (db_current db) \<ge> - 1 - 1")
  case True
  then show ?thesis using assms by (intro idle) (auto simp: RotateMemTable_def Let_def split: if_splits)
next
  case False
  let ?w = "WalFileName (next_file_number (db_current db) + 1)"
  obtain r1 fs1 where 1: "OpenWritable ?w False (db_fs db) = (r1, fs1)" by fastforce
  have rot: "RotateMemTable pb db =
      op_bind (on_fs (OpenWritable ?w False)) (\<lambda>h. op_bind (on_fs (handle_Sync h)) (\<lambda>h.
        op_bind (db_publish pb (rotation_snapshot (db_current db))) (\<lambda>_ db. (Ok (), seal_memtable h db)))) db"
    using False unfolding RotateMemTable_def rotation_snapshot_def Let_def by (auto split: if_splits)
  show ?thesis
  proof (cases r1)
    case (Ok h)
    obtain r2 fs2 where 2: "handle_Sync h fs1 = (r2, fs2)" by fastforce
    show ?thesis
    proof (cases r2)
      case h': (Ok h')
      obtain r3 db3 where 3: "db_publish pb (rotation_snapshot (db_current db)) (db\<lparr>db_fs := fs2\<rparr>) = (r3, db3)" by fastforce
      have "r3 = Ok () \<and> r = Ok () \<and> db' = seal_memtable h' db3 \<or> r3 \<noteq> Ok () \<and> r \<noteq> Ok () \<and> db' = db3"
        using assms rot 1 2 3 Ok h' by (cases r3) (auto simp: op_bind_def on_fs_def)
      then show ?thesis using False 1 2 3 Ok h' by (intro published [of h fs1 h' fs2 r3 db3]) auto
    qed (use assms rot 1 2 Ok in \<open>auto intro!: files [of fs2] simp: op_bind_def on_fs_def\<close>)
  qed (use assms rot 1 in \<open>auto intro!: files [of fs1] simp: op_bind_def on_fs_def\<close>)
qed

lemma RotateMemTable_memory:
  assumes "RotateMemTable pb db = (r, db')"
  shows "same_memory db db' \<or> r = Ok () \<and> rotated_memory db db'"
  using assms
proof (cases rule: RotateMemTable_cases)
  case (published h h' fs1 fs2 db3 r3)
  have "same_memory db db3"
    using published(6) by (elim db_publish_result) (auto simp: same_memory_def)
  then show ?thesis using published(1,7) by (auto simp: same_memory_def rotated_memory_def)
qed (auto simp: same_memory_def)

end
