(* ===== verification/Crash_Safety.thy ===== *)
theory Crash_Safety
  imports Rotation
begin

text \<open>
  What a power loss leaves of a database. \<open>db_safe\<close> is the state every handler starts from and returns
  to: the manifest on disk is the handle's current snapshot, and every log and table it names is durably
  in the directory. From such a state a restart loads the snapshot and finds all of its files. While a
  publication is uncertain, it finds the old snapshot or the new one, each with all of its files.
\<close>

section \<open>Safe states\<close>

definition named_files :: "ManifestSnapshot \<Rightarrow> string set" where
  "named_files s =
     {WalFileName (active_wal_number s)} \<union>
     (if immutable_wal_number s = 0 then {} else {WalFileName (immutable_wal_number s)}) \<union>
     SstableFileName ` tm_file_number ` set (live_tables s)"

definition manifest_on_disk :: "Protobuf \<Rightarrow> ManifestSnapshot \<Rightarrow> FileSystem \<Rightarrow> bool" where
  "manifest_on_disk pb s fs \<longleftrightarrow>
     fs_inv fs \<and> (\<exists>b i. Encode pb s = Ok b \<and> settled fs kManifest i b) \<and> (\<forall>n \<in> named_files s. \<exists>k. entry_settled fs n k)"

text \<open>The log writer's file is the active log, and what the writer has written is what the file holds.\<close>

definition wal_attached :: "Db \<Rightarrow> bool" where
  "wal_attached db \<longleftrightarrow>
     (\<forall>i w. db_wal db = Some (i, w) \<longrightarrow>
        bound (db_fs db) (WalFileName (active_wal_number (db_current db))) = Some i \<and>
        nd_data (fs_nodes (db_fs db) i) = wf_data (ww_file w) \<and> nd_durable (fs_nodes (db_fs db) i) = wf_durable (ww_file w))"

definition db_safe :: "Protobuf \<Rightarrow> Db \<Rightarrow> bool" where
  "db_safe pb db \<longleftrightarrow> manifest_on_disk pb (db_current db) (db_fs db) \<and> wal_attached db"

definition restarts :: "Protobuf \<Rightarrow> FileSystem \<Rightarrow> ManifestSnapshot set \<Rightarrow> bool" where
  "restarts pb fs S \<longleftrightarrow>
     (\<forall>fs'. crashed_in_order fs fs' \<and> fs_faults fs' = [] \<and> fs_plans fs' = [] \<longrightarrow>
        (\<exists>s \<in> S. fst (Load pb fs') = Ok s \<and> (\<forall>n \<in> named_files s. bound fs' n \<noteq> None)))"

lemma manifest_on_disk_restarts:
  assumes "protobuf_ok pb" "manifest_on_disk pb s fs"
  shows "restarts pb fs {s}"
proof -
  obtain b i where b: "Encode pb s = Ok b" "settled fs kManifest i b" using assms(2) by (auto simp: manifest_on_disk_def)
  have "fst (Load pb fs') = Ok s \<and> (\<forall>n \<in> named_files s. bound fs' n \<noteq> None)"
    if "crashed_in_order fs fs'" "fs_faults fs' = []" "fs_plans fs' = []" for fs'
  proof -
    note c = crashed_in_order_crashed [OF that(1)]
    have "fst (Load pb fs') = Ok s" by (rule Load_reliable [OF assms(1) b(1) settled_survives [OF b(2) c] that(2,3)])
    moreover have "bound fs' n \<noteq> None" if "n \<in> named_files s" for n
      using assms(2) that entry_settled_survives [OF _ c] by (fastforce simp: manifest_on_disk_def)
    ultimately show ?thesis by blast
  qed
  then show ?thesis by (auto simp: restarts_def)
qed

lemma named_files_names: "n \<in> named_files s \<Longrightarrow> n \<noteq> kManifest \<and> n \<noteq> kTemp"
  by (auto simp: named_files_def split: if_splits)

lemma manifest_on_disk_keeps:
  assumes "manifest_on_disk pb s fs" "keeps N fs fs'" "N \<inter> insert kManifest (named_files s) = {}"
  shows "manifest_on_disk pb s fs'"
proof -
  obtain b i where b: "Encode pb s = Ok b" "settled fs kManifest i b" using assms(1) by (auto simp: manifest_on_disk_def)
  have "settled fs' kManifest i b" using keeps_settled [OF assms(2) _ b(2)] assms(3) by blast
  moreover have "\<exists>k. entry_settled fs' n k" if "n \<in> named_files s" for n
    using assms(1,3) that keeps_entry [OF assms(2)] by (fastforce simp: manifest_on_disk_def)
  ultimately show ?thesis using b(1) keeps_inv [OF assms(2)] by (auto simp: manifest_on_disk_def)
qed

section \<open>Publishing from a safe state\<close>

lemma Publish_safe:
  assumes pb: "protobuf_ok pb" and old: "manifest_on_disk pb (ms_current ms) fs"
    and named: "\<forall>n \<in> named_files next. bound fs n \<noteq> None"
    and p: "Publish pb next ms fs = (r, ms', fs')"
  shows "keeps {kTemp, kManifest} fs fs' \<and> (\<exists>out. r = Ok out \<and>
    (case po_state out of
       kNotPublished \<Rightarrow> ms' = ms \<and> manifest_on_disk pb (ms_current ms) fs'
     | kVisibleNotDurable \<Rightarrow> ms' = ms \<and> restarts pb fs' {ms_current ms, next}
     | kDurable \<Rightarrow> ms' = ms\<lparr>ms_current := next\<rparr> \<and> manifest_on_disk pb next fs'))"
proof (cases "Encode pb next")
  case (Ok new)
  obtain b i where b: "Encode pb (ms_current ms) = Ok b" "settled fs kManifest i b" and inv: "fs_inv fs"
    using old by (auto simp: manifest_on_disk_def)
  note res = Publish_result [OF inv b(2) Ok p]
  have k: "keeps {kTemp, kManifest} fs fs'" using res by blast
  have entries: "entry_settled fs' n j" if "n \<in> named_files (ms_current ms)" "entry_settled fs n j" for n j
    using keeps_entry [OF k _ that(2)] named_files_names [OF that(1)] by blast
  have named': "bound fs' n \<noteq> None" if "n \<in> named_files next" for n
    using named that keeps_bound [OF k] named_files_names [OF that] by simp
  from res consider
      c where "r = Ok (NotPublished c)" "ms' = ms" "settled fs' kManifest i b"
    | c where "r = Ok (VisibleNotDurable c)" "ms' = ms" "file_is fs' kManifest new"
        "\<forall>fs''. crashed fs' fs'' \<longrightarrow> file_is fs'' kManifest b \<or> file_is fs'' kManifest new"
        "\<forall>fs''. crashed_in_order fs' fs'' \<longrightarrow> bound fs'' = bound fs' \<or> file_is fs'' kManifest b"
    | j where "r = Ok Durable" "ms' = ms\<lparr>ms_current := next\<rparr>" "settled fs' kManifest j new" "fs_past fs' = []"
    by blast
  then show ?thesis
  proof cases
    case 1
    have "manifest_on_disk pb (ms_current ms) fs'"
      using 1(3) b(1) keeps_inv [OF k] old entries unfolding manifest_on_disk_def by blast
    then show ?thesis using 1 k by (simp add: NotPublished_def)
  next
    case 2
    have "\<exists>s \<in> {ms_current ms, next}. fst (Load pb f) = Ok s \<and> (\<forall>n \<in> named_files s. bound f n \<noteq> None)"
      if c: "crashed_in_order fs' f" and l: "fs_faults f = []" "fs_plans f = []" for f
    proof -
      note cr = crashed_in_order_crashed [OF c]
      have "fst (Load pb f) = Ok (ms_current ms) \<or> fst (Load pb f) = Ok next"
        using 2(4) cr Load_reliable [OF pb b(1) _ l] Load_reliable [OF pb Ok _ l] by blast
      moreover have o: "bound f n \<noteq> None" if "n \<in> named_files (ms_current ms)" for n
      proof -
        obtain j where "entry_settled fs n j" using old \<open>n \<in> _\<close> by (auto simp: manifest_on_disk_def)
        then show ?thesis using entry_settled_survives [OF entries [OF that] cr] by auto
      qed
      moreover have "bound f n \<noteq> None" if "n \<in> named_files next" "fst (Load pb f) = Ok next" "ms_current ms \<noteq> next" for n
      proof -
        have "\<not> file_is f kManifest b" using Load_reliable [OF pb b(1) _ l] that(2,3) by auto
        then have "bound f = bound fs'" using 2(5) c by blast
        then show ?thesis using named' [OF that(1)] by simp
      qed
      ultimately show ?thesis by blast
    qed
    then show ?thesis using 2 k by (simp add: VisibleNotDurable_def restarts_def)
  next
    case (3 j)
    have "\<exists>k. entry_settled fs' n k" if "n \<in> named_files next" for n
      using named' [OF that] 3(4) by (auto simp: entry_settled_def bound_def)
    then have "manifest_on_disk pb next fs'"
      using 3(3) Ok keeps_inv [OF k] by (auto simp: manifest_on_disk_def)
    then show ?thesis using 3 k by (simp add: Durable_def)
  qed
next
  case (Err c)
  then show ?thesis using p old by (auto simp: Publish_def NotPublished_def manifest_on_disk_def keeps_refl)
next
  case UB
  then show ?thesis by (auto simp: Encode_def Let_def split: if_splits option.splits)
qed

section \<open>Rotation\<close>

lemma manifest_on_disk_only_node:
  assumes d: "manifest_on_disk pb s fs" and o: "only_node i fs fs'" and b: "bound fs n = Some i" "n \<noteq> kManifest"
  shows "manifest_on_disk pb s fs'"
proof -
  obtain bs j where j: "Encode pb s = Ok bs" "settled fs kManifest j bs" and inv: "fs_inv fs"
    using d by (auto simp: manifest_on_disk_def)
  have "j \<noteq> i" using bound_inject [OF inv settled_bound [OF j(2)]] b by blast
  then have "settled fs' kManifest j bs" using j(2) o by (simp add: only_node_settled)
  moreover have "entry_settled fs' m k = entry_settled fs m k" for m k
    using o by (simp add: only_node_def entry_settled_def)
  moreover have "fs_inv fs'" using inv o by (simp add: only_node_inv)
  ultimately show ?thesis using d j(1) by (auto simp: manifest_on_disk_def)
qed

lemma new_number_unused:
  assumes "snapshot_valid s"
  shows "WalFileName (next_file_number s + 1) \<notin> named_files s"
proof -
  have "next_file_number s + 1 \<noteq> x" if "x < next_file_number s" "x \<noteq> 0" for x
  proof
    assume e: "next_file_number s + 1 = x"
    then have "unat x = Suc (unat (next_file_number s))"
      using that(2) unatSuc [of "next_file_number s"] by (simp add: add.commute)
    with that(1) show False by (simp add: word_less_nat_alt)
  qed
  then show ?thesis using assms by (auto simp: named_files_def snapshot_valid_def)
qed

lemma wal_attached_keeps:
  assumes "wal_attached db" "keeps N (db_fs db) fs" "WalFileName (active_wal_number (db_current db)) \<notin> N"
    "db_fs db' = fs" "db_manifest db' = db_manifest db" "db_wal db' = db_wal db"
  shows "wal_attached db'"
  using assms keeps_bound [OF assms(2,3)] keeps_node [OF assms(2,3)] by (auto simp: wal_attached_def)

lemma handle_Sync_keeps:
  assumes "fs_inv fs" "bound fs name = Some (fst h)" "handle_Sync h fs = (r, fs')"
  shows "keeps {name} fs fs'"
  using handle_Sync_frame [OF assms(1,2), of "snd h"] assms(3) by simp

lemma RotateMemTable_safe:
  assumes pb: "protobuf_ok pb" and safe: "db_safe pb db" and r: "RotateMemTable pb db = (r, db')"
  shows "db_terminal_error db' = db_terminal_error db \<and> db_safe pb db' \<or>
    db_terminal_error db' \<noteq> None \<and> r \<noteq> Ok () \<and> restarts pb (db_fs db') {db_current db, rotation_snapshot (db_current db)}"
  using r
proof (cases rule: RotateMemTable_cases)
  case idle
  then show ?thesis using safe by simp
next
  case (files fs)
  let ?cur = "db_current db" and ?new = "WalFileName (next_file_number (db_current db) + 1)"
  have d: "manifest_on_disk pb ?cur (db_fs db)" and inv: "fs_inv (db_fs db)"
    using safe by (auto simp: db_safe_def manifest_on_disk_def)
  have un: "?new \<notin> named_files ?cur"
    using d by (intro new_number_unused) (auto simp: manifest_on_disk_def Encode_Ok_iff)
  obtain h fs1 where h: "OpenWritable ?new False (db_fs db) = (h, fs1)"
    "(\<forall>x. h \<noteq> Ok x) \<and> fs = fs1 \<or> (\<exists>x y. h = Ok x \<and> handle_Sync x fs1 = (y, fs))"
    using files(3) by blast
  note o = OpenWritable_frame [OF inv h(1)]
  have k: "keeps {?new} (db_fs db) fs"
  proof (cases "\<exists>x. h = Ok x")
    case True
    then obtain x y where x: "h = Ok x" "handle_Sync x fs1 = (y, fs)" using h(2) by blast
    then have "bound fs1 ?new = Some (fst x)" using o by auto
    then show ?thesis using o handle_Sync_keeps [OF keeps_inv _ x(2)] by (blast intro: keeps_trans)
  qed (use h(2) o in blast)
  have "manifest_on_disk pb ?cur fs" by (rule manifest_on_disk_keeps [OF d k]) (use un in auto)
  moreover have "WalFileName (active_wal_number ?cur) \<notin> {?new}" using un by (auto simp: named_files_def)
  ultimately show ?thesis using safe files(1) wal_attached_keeps [OF _ k] by (auto simp: db_safe_def)
next
  case (published h h' fs1 fs2 db3 r3)
  let ?cur = "db_current db" and ?new = "WalFileName (next_file_number (db_current db) + 1)"
  let ?next = "rotation_snapshot ?cur" and ?act = "WalFileName (active_wal_number (db_current db))"
  have d: "manifest_on_disk pb ?cur (db_fs db)" and inv: "fs_inv (db_fs db)" and att: "wal_attached db"
    using safe by (auto simp: db_safe_def manifest_on_disk_def)
  have valid: "snapshot_valid ?cur" using d by (auto simp: manifest_on_disk_def Encode_Ok_iff)
  have un: "?new \<notin> named_files ?cur" by (rule new_number_unused [OF valid])
  then have ne: "?act \<noteq> ?new" by (auto simp: named_files_def)
  note o = OpenWritable_frame [OF inv published(4)]
  then have b1: "bound fs1 ?new = Some (fst h)" by auto
  note s = handle_Sync_frame [OF keeps_inv [OF conjunct1 [OF o]] b1, of "snd h", unfolded prod.collapse, OF published(5)]
  have k: "keeps {?new} (db_fs db) fs2" using o s by (blast intro: keeps_trans)
  have h': "fst h' = fst h" "bound fs2 ?new = Some (fst h')" "nd_data (fs_nodes fs2 (fst h')) = wf_data (snd h')"
    "nd_durable (fs_nodes fs2 (fst h')) = wf_durable (snd h')"
    using s handle_Sync_node [of "fst h" "snd h" fs1 h' fs2] published(5) by auto
  have d2: "manifest_on_disk pb ?cur fs2" by (rule manifest_on_disk_keeps [OF d k]) (use un in auto)
  have named: "\<forall>n \<in> named_files ?next. bound fs2 n \<noteq> None"
  proof
    fix n assume "n \<in> named_files ?next"
    then have "n = ?new \<or> n \<in> named_files ?cur" by (auto simp: named_files_def rotation_snapshot_def split: if_splits)
    then show "bound fs2 n \<noteq> None" using h'(2) d2 entry_settled_bound by (fastforce simp: manifest_on_disk_def)
  qed
  let ?db2 = "db\<lparr>db_fs := fs2\<rparr>"
  obtain x ms fs te where q: "Publish pb ?next (db_manifest ?db2) (db_fs ?db2) = (x, ms, fs)"
    "db3 = ?db2\<lparr>db_manifest := ms, db_fs := fs, db_terminal_error := te\<rparr>"
    "r3 = Ok () \<longleftrightarrow> (\<exists>out. x = Ok out \<and> po_state out = kDurable)"
    "te = (case x of Ok out \<Rightarrow> if po_state out = kVisibleNotDurable then Some (po_status out) else db_terminal_error ?db2
           | _ \<Rightarrow> db_terminal_error ?db2)"
    by (rule db_publish_result [OF published(6)])
  have te: "db_terminal_error ?db2 = db_terminal_error db" by simp
  have p: "Publish pb ?next (db_manifest db) fs2 = (x, ms, fs)"
    "db3 = db\<lparr>db_manifest := ms, db_fs := fs, db_terminal_error := te\<rparr>"
    "r3 = Ok () \<longleftrightarrow> (\<exists>out. x = Ok out \<and> po_state out = kDurable)"
    "te = (case x of Ok out \<Rightarrow> if po_state out = kVisibleNotDurable then Some (po_status out) else db_terminal_error db
           | _ \<Rightarrow> db_terminal_error db)"
    using q(1,2) q(3) q(4) [unfolded te] by simp_all
  obtain out where out: "x = Ok out" "keeps {kTemp, kManifest} fs2 fs"
    "case po_state out of
       kNotPublished \<Rightarrow> ms = db_manifest db \<and> manifest_on_disk pb ?cur fs
     | kVisibleNotDurable \<Rightarrow> ms = db_manifest db \<and> restarts pb fs {?cur, ?next}
     | kDurable \<Rightarrow> ms = (db_manifest db)\<lparr>ms_current := ?next\<rparr> \<and> manifest_on_disk pb ?next fs"
    using Publish_safe [OF pb d2 named p(1)] by (elim conjE exE that)
  have k3: "keeps {?new, kTemp, kManifest} (db_fs db) fs"
    by (rule keeps_trans [OF keeps_mono [OF k] keeps_mono [OF out(2)]]) auto
  show ?thesis
  proof (cases "po_state out")
    case kNotPublished
    then have "db' = db3" "db_current db3 = ?cur" "manifest_on_disk pb ?cur fs" "te = db_terminal_error db"
      using published(7) p out by auto
    moreover have "wal_attached db3"
      by (rule wal_attached_keeps [OF att k3]) (use ne p out kNotPublished in auto)
    ultimately show ?thesis using p(2) by (auto simp: db_safe_def)
  next
    case kVisibleNotDurable
    then show ?thesis using published(7) p out by auto
  next
    case kDurable
    then have db': "db' = seal_memtable h' db3" "ms_current ms = ?next" "manifest_on_disk pb ?next fs" "te = db_terminal_error db"
      using published(7) p out by auto
    have fst: "bound fs ?new = Some (fst h')" "fs_nodes fs (fst h') = fs_nodes fs2 (fst h')"
      using keeps_bound [OF out(2), of ?new] keeps_node [OF out(2) _ h'(2)] h'(2) by auto
    have invf: "fs_inv fs" using keeps_inv [OF k3] .
    show ?thesis
    proof (cases "db_wal db")
      case None
      then have "db_fs db' = fs" using db' p(2) by (simp add: seal_memtable_def BestEffortClose_def Let_def)
      moreover have "active_wal_number ?next = next_file_number ?cur + 1" by (simp add: rotation_snapshot_def)
      ultimately show ?thesis using db' p(2) fst h' by (auto simp: db_safe_def wal_attached_def seal_memtable_def Let_def BestEffortClose_def None)
    next
      case (Some iw)
      obtain i w where iw: "iw = (i, w)" by fastforce
      obtain c w' where w': "WalWriter_Close w = (c, w')" by fastforce
      have "bound (db_fs db) ?act = Some i" using att Some iw by (auto simp: wal_attached_def)
      then have act: "bound fs ?act = Some i" by (subst keeps_bound [OF k3]) (use ne in simp_all)
      have f: "db_fs db' = write_back (i, ww_file w') fs"
        using db' p(2) Some iw w' by (simp add: seal_memtable_def BestEffortClose_def Let_def)
      have o2: "only_node i fs (db_fs db')" using write_back_only [of "(i, ww_file w')" fs] f by simp
      have "manifest_on_disk pb ?next (db_fs db')" by (rule manifest_on_disk_only_node [OF db'(3) o2 act]) simp
      moreover have "fst h' \<noteq> i"
      proof
        assume "fst h' = i"
        then have "?new = ?act" using bound_inject [OF invf fst(1), of ?act] act by simp
        with ne show False by simp
      qed
      then have "fs_nodes (db_fs db') (fst h') = fs_nodes fs2 (fst h')" using o2 fst(2) by (simp add: only_node_def)
      moreover have "bound (db_fs db') ?new = Some (fst h')" using fst(1) o2 by (simp add: only_node_bound)
      moreover have "active_wal_number ?next = next_file_number ?cur + 1" by (simp add: rotation_snapshot_def)
      moreover have "db_terminal_error db' = te" using db'(1) p(2) by (simp add: seal_memtable_def Let_def)
      ultimately show ?thesis using db' p(2) h' by (simp add: db_safe_def wal_attached_def)
    qed
  qed
qed

text \<open>What a rotation does to the directory, for any outcome.\<close>

lemma RotateMemTable_keeps:
  assumes inv: "fs_inv (db_fs db)" and r: "RotateMemTable pb db = (r, db')"
  shows "\<exists>fs. keeps {WalFileName (next_file_number (db_current db) + 1), kTemp, kManifest} (db_fs db) fs \<and>
    (db_fs db' = fs \<or> (\<exists>i w c w'. db_wal db = Some (i, w) \<and> WalWriter_Close w = (c, w') \<and> db_fs db' = write_back (i, ww_file w') fs))"
  using r
proof (cases rule: RotateMemTable_cases)
  case idle
  then show ?thesis using inv keeps_refl by blast
next
  case (files fs)
  let ?new = "WalFileName (next_file_number (db_current db) + 1)"
  obtain h fs1 where h: "OpenWritable ?new False (db_fs db) = (h, fs1)"
    "(\<forall>x. h \<noteq> Ok x) \<and> fs = fs1 \<or> (\<exists>x y. h = Ok x \<and> handle_Sync x fs1 = (y, fs))"
    using files(3) by blast
  note o = OpenWritable_frame [OF inv h(1)]
  have "keeps {?new} (db_fs db) fs"
  proof (cases "\<exists>x. h = Ok x")
    case True
    then obtain x y where x: "h = Ok x" "handle_Sync x fs1 = (y, fs)" using h(2) by blast
    then have "bound fs1 ?new = Some (fst x)" using o by auto
    then show ?thesis using o handle_Sync_keeps [OF keeps_inv _ x(2)] by (blast intro: keeps_trans)
  qed (use h(2) o in blast)
  then have "keeps {?new, kTemp, kManifest} (db_fs db) fs" by (rule keeps_mono) auto
  then show ?thesis using files(1) by auto
next
  case (published h h' fs1 fs2 db3 r3)
  let ?new = "WalFileName (next_file_number (db_current db) + 1)" and ?db2 = "db\<lparr>db_fs := fs2\<rparr>"
  note o = OpenWritable_frame [OF inv published(4)]
  then have "bound fs1 ?new = Some (fst h)" by auto
  then have k: "keeps {?new} (db_fs db) fs2"
    using o handle_Sync_keeps [OF keeps_inv _ published(5)] by (blast intro: keeps_trans)
  obtain x ms fs te where p: "Publish pb (rotation_snapshot (db_current db)) (db_manifest ?db2) (db_fs ?db2) = (x, ms, fs)"
    "db3 = ?db2\<lparr>db_manifest := ms, db_fs := fs, db_terminal_error := te\<rparr>"
    by (rule db_publish_result [OF published(6)])
  have k2: "keeps {kTemp, kManifest} fs2 fs" using Publish_keeps [OF keeps_inv [OF k]] p(1) by simp
  have k3: "keeps {?new, kTemp, kManifest} (db_fs db) fs"
    by (rule keeps_trans [OF keeps_mono [OF k] keeps_mono [OF k2]]) auto
  have "db_fs db' = fs \<or> (\<exists>i w c w'. db_wal db = Some (i, w) \<and> WalWriter_Close w = (c, w') \<and> db_fs db' = write_back (i, ww_file w') fs)"
  proof (cases "db_wal db")
    case None
    then show ?thesis using published(7) p(2) by (auto simp: seal_memtable_def Let_def BestEffortClose_def)
  next
    case (Some iw)
    obtain i w c w' where w: "iw = (i, w)" "WalWriter_Close w = (c, w')" by (metis surj_pair)
    then show ?thesis using published(7) p(2) Some by (auto simp: seal_memtable_def Let_def BestEffortClose_def)
  qed
  then show ?thesis using k3 by blast
qed

lemma RotateMemTable_log:
  assumes safe: "db_safe pb db" and wal: "db_wal db = Some (i, w)" and r: "RotateMemTable pb db = (r, db')"
  shows "nd_data (fs_nodes (db_fs db') i) = wf_data (ww_file w) \<and> nd_durable (fs_nodes (db_fs db') i) = wf_durable (ww_file w)"
proof -
  let ?act = "WalFileName (active_wal_number (db_current db))" and ?new = "WalFileName (next_file_number (db_current db) + 1)"
  have inv: "fs_inv (db_fs db)" and att: "bound (db_fs db) ?act = Some i"
    "nd_data (fs_nodes (db_fs db) i) = wf_data (ww_file w)" "nd_durable (fs_nodes (db_fs db) i) = wf_durable (ww_file w)"
    using safe wal by (auto simp: db_safe_def manifest_on_disk_def wal_attached_def)
  have "?new \<notin> named_files (db_current db)"
    using safe by (intro new_number_unused) (auto simp: db_safe_def manifest_on_disk_def Encode_Ok_iff)
  then have ne: "?act \<notin> {?new, kTemp, kManifest}" by (auto simp: named_files_def)
  obtain fs where k: "keeps {?new, kTemp, kManifest} (db_fs db) fs" and
    fs: "db_fs db' = fs \<or> (\<exists>i w c w'. db_wal db = Some (i, w) \<and> WalWriter_Close w = (c, w') \<and> db_fs db' = write_back (i, ww_file w') fs)"
    using RotateMemTable_keeps [OF inv r] by blast
  have n: "fs_nodes fs i = fs_nodes (db_fs db) i" by (rule keeps_node [OF k ne att(1)])
  show ?thesis
    using fs
  proof
    assume "\<exists>i w c w'. db_wal db = Some (i, w) \<and> WalWriter_Close w = (c, w') \<and> db_fs db' = write_back (i, ww_file w') fs"
    then obtain c w' where w': "WalWriter_Close w = (c, w')" "db_fs db' = write_back (i, ww_file w') fs" using wal by auto
    then show ?thesis
      using write_back_simps(6,7) [of "(i, ww_file w')" fs] CloseFile_data [of "ww_file w"]
      by (auto simp: WalWriter_Close_def split: prod.splits)
  qed (use n att in simp)
qed

section \<open>Properties\<close>

text \<open>A young database for the witnesses: one log, no table, one entry in memory.\<close>

definition sample_options :: Options where
  "sample_options =
     \<lparr>o_memtable_bytes = 4096, o_create_if_missing = True, o_sync_on_write = True, o_max_key_bytes = 16, o_max_value_bytes = 16,
      o_sstable_block_bytes = 4096, o_sstable_restart_interval = 16, o_block_cache_bytes = 4096, o_compaction_table_trigger = 4,
      o_max_active_snapshots = 8, o_max_pending_write_requests = 4, o_max_pending_write_bytes = 1024,
      o_max_group_commit_requests = 2, o_max_group_commit_bytes = 512\<rparr>"

definition sample_handle :: "io_outcome list \<Rightarrow> WritableFile" where
  "sample_handle syncs = \<lparr>wf_open = True, wf_data = [], wf_durable = [], wf_writes = [], wf_syncs = syncs, wf_closes = []\<rparr>"

definition sample_disk :: FileSystem where
  "sample_disk =
     \<lparr>fs_exists = True, fs_locked = True, fs_dir = [(kManifest, 0), (WalFileName 1, 1)], fs_past = [],
      fs_nodes = (\<lambda>_. fresh_node)
        (0 := \<lparr>nd_data = manifest_frame [8, 1, 16, 2], nd_durable = manifest_frame [8, 1, 16, 2], nd_clean = True\<rparr>),
      fs_fresh = 2, fs_faults = [], fs_plans = []\<rparr>"

definition zero_cache_metrics :: CacheMetrics where
  "zero_cache_metrics =
     \<lparr>cache_hits = 0, cache_misses = 0, cache_inserts = 0, cache_evictions = 0, cache_charge_bytes = 0, cache_capacity_bytes = 0\<rparr>"

definition zero_read_metrics :: ReadMetrics where
  "zero_read_metrics =
     \<lparr>rm_point_lookups = 0, rm_range_scans = 0, rm_scan_table_inputs = 0, rm_read_lock_acquisitions = 0,
      rm_write_lock_acquisitions = 0, rm_table = \<lparr>rc_table_probes = 0, rc_block_reads = 0, rc_block_decodes = 0\<rparr>\<rparr>"

definition zero_write_metrics :: WriteMetrics where
  "zero_write_metrics =
     \<lparr>wm_writes = 0, wm_write_batches = 0, wm_logical_write_bytes = 0, wm_wal_syncs = 0, wm_memtable_rotations = 0,
      wm_background_flushes = 0, wm_background_flush_failures = 0, wm_backpressure_waits = 0, wm_group_commits = 0,
      wm_grouped_write_requests = 0, wm_writer_queue_depth = 0, wm_max_writer_queue_depth = 0, wm_background_queue_depth = 0,
      wm_max_background_queue_depth = 0, wm_immutable_memtable_bytes = 0, wm_max_immutable_memtable_bytes = 0\<rparr>"

definition zero_compaction_metrics :: CompactionMetrics where
  "zero_compaction_metrics =
     \<lparr>cm_compactions = 0, cm_background_compactions = 0, cm_compaction_failures = 0, cm_compaction_input_tables = 0,
      cm_compaction_output_tables = 0, cm_compaction_input_bytes = 0, cm_compaction_output_bytes = 0, cm_flush_output_bytes = 0,
      cm_table_count = 0, cm_live_sstable_bytes = 0, cm_compaction_debt_tables = 0, cm_compaction_debt_bytes = 0\<rparr>"

definition sample_db :: "MemTable \<Rightarrow> io_outcome list \<Rightarrow> Db" where
  "sample_db m syncs =
     \<lparr>db_options = sample_options, db_fs = sample_disk, db_memtable = m, db_immutable = None,
      db_wal = Some (1, \<lparr>ww_file = sample_handle syncs, ww_limits = Limits sample_options\<rparr>), db_tables = [],
      db_manifest = \<lparr>ms_current = initial_snapshot\<rparr>, db_cache = BlockCache_new 4096 zero_cache_metrics,
      db_snapshots = SnapshotState_empty, db_registry = 0, db_terminal_error = None, db_background_error = None, db_pending_cleanup = [],
      db_next_sequence = 1, db_closed = False, db_closing = False, db_flush_requested = False, db_compaction_requested = False,
      db_flush_running = False, db_compaction_running = False, db_worker_stopping = False, db_read_metrics = zero_read_metrics,
      db_write_metrics = zero_write_metrics, db_compaction_metrics = zero_compaction_metrics\<rparr>"

lemma sample_db_safe: "db_safe sample_pb (sample_db m syncs)"
proof -
  have "manifest_on_disk sample_pb initial_snapshot sample_disk"
    unfolding manifest_on_disk_def
  proof (intro conjI)
    show "fs_inv sample_disk" by (simp add: fs_inv_def sample_disk_def)
    show "\<exists>b i. Encode sample_pb initial_snapshot = Ok b \<and> settled sample_disk kManifest i b"
      using sample_encodes by (intro exI [of _ "manifest_frame [8, 1, 16, 2]"] exI [of _ 0]) (simp add: settled_def sample_disk_def)
    show "\<forall>n \<in> named_files initial_snapshot. \<exists>k. entry_settled sample_disk n k"
      by (simp add: named_files_def initial_snapshot_def entry_settled_def sample_disk_def)
  qed
  then show ?thesis
    by (simp add: db_safe_def wal_attached_def sample_db_def initial_snapshot_def sample_disk_def bound_def fresh_node_def sample_handle_def)
qed



end
