(* ===== verification/Table_Iterator.thy ===== *)
theory Table_Iterator
  imports Sstable_Table
begin

text \<open>
  The iterator of a table (\<open>SSTableReader::Iterator\<close> in \<open>src/sstable/sstable_reader.cpp\<close>) satisfies the
  iterator contract: over a well-formed table it stands for the entries not yet delivered, whatever the
  block cache holds, and a call fails only when a read of the file fails.
\<close>

section \<open>What is left to deliver\<close>

definition suffix_from :: "SSTableReader \<Rightarrow> bytes \<Rightarrow> nat \<Rightarrow> nat \<Rightarrow> InternalEntry list" where
  "suffix_from r data bi ei =
     drop ei (block_entries r data (sr_blocks r ! bi)) @ concat (map (block_entries r data) (drop (Suc bi) (sr_blocks r)))"

abbreviation si_data :: "TableIterator \<Rightarrow> bytes" where
  "si_data it \<equiv> ra_data (ts_file (si_state it))"

abbreviation si_reads :: "TableIterator \<Rightarrow> bool" where
  "si_reads it \<equiv> reads_ok (ra_reads (ts_file (si_state it)))"

definition si_sound :: "TableIterator \<Rightarrow> bool" where
  "si_sound it \<longleftrightarrow> si_status it = kOk \<and> reader_ok (si_reader it) (si_data it) \<and> ts_ok (si_reader it) (si_data it) (si_state it)"

definition si_positioned :: "TableIterator \<Rightarrow> bool" where
  "si_positioned it \<longleftrightarrow>
     si_block_index it < length (sr_blocks (si_reader it)) \<and>
     si_entries it = Some (block_entries (si_reader it) (si_data it) (sr_blocks (si_reader it) ! si_block_index it)) \<and>
     si_entry_index it < length (the (si_entries it)) \<and>
     before_end (si_end it) (the (si_entries it) ! si_entry_index it)"

definition si_invar :: "TableIterator \<Rightarrow> bool" where
  "si_invar it \<longleftrightarrow> si_sound it \<and> (si_valid it \<longrightarrow> si_positioned it)"

definition si_all :: "TableIterator \<Rightarrow> InternalEntry list" where
  "si_all it = filter (before_end (si_end it)) (table_entries (si_reader it) (si_data it))"

definition si_rest :: "TableIterator \<Rightarrow> InternalEntry list" where
  "si_rest it =
     (if si_valid it
      then filter (before_end (si_end it)) (suffix_from (si_reader it) (si_data it) (si_block_index it) (si_entry_index it))
      else [])"

text \<open>The parts of an iterator that moving it does not change.\<close>

definition si_same :: "TableIterator \<Rightarrow> TableIterator \<Rightarrow> bool" where
  "si_same it it' \<longleftrightarrow> si_reader it' = si_reader it \<and> si_end it' = si_end it \<and> si_data it' = si_data it \<and> (si_reads it \<longrightarrow> si_reads it')"

lemma si_same_all: "si_same it it' \<Longrightarrow> si_all it' = si_all it"
  by (simp add: si_same_def si_all_def)

lemma suffix_from_zero: "bi < length (sr_blocks r) \<Longrightarrow> suffix_from r data bi 0 = concat (map (block_entries r data) (drop bi (sr_blocks r)))"
  by (simp add: suffix_from_def Cons_nth_drop_Suc [symmetric])

lemma suffix_from_drop:
  "bi < length (sr_blocks r) \<Longrightarrow> ei \<le> length (block_entries r data (sr_blocks r ! bi)) \<Longrightarrow>
     suffix_from r data bi ei = drop ei (suffix_from r data bi 0)"
  by (simp add: suffix_from_def)

lemma suffix_from_ordered:
  assumes "reader_ok r data" "bi < length (sr_blocks r)" "ei \<le> length (block_entries r data (sr_blocks r ! bi))"
  shows "weakly_ordered (suffix_from r data bi ei)"
proof -
  have "ordered (concat (map (block_entries r data) (drop bi (sr_blocks r))))"
    using assms(1) by (intro blocks_ordered) (auto simp: reader_ok_def sorted_wrt_drop dest: in_set_dropD)
  then have "weakly_ordered (suffix_from r data bi 0)"
    using suffix_from_zero [OF assms(2)] by (simp add: ordered_weakly)
  then show ?thesis using weakly_ordered_drop suffix_from_drop [OF assms(2,3)] by metis
qed

lemma suffix_from_step:
  "ei < length (block_entries r data (sr_blocks r ! bi)) \<Longrightarrow>
     suffix_from r data bi ei = block_entries r data (sr_blocks r ! bi) ! ei # suffix_from r data bi (Suc ei)"
  by (simp add: suffix_from_def Cons_nth_drop_Suc [symmetric])

lemma suffix_from_next_block:
  "length (block_entries r data (sr_blocks r ! bi)) \<le> Suc ei \<Longrightarrow> Suc bi < length (sr_blocks r) \<Longrightarrow>
     suffix_from r data bi (Suc ei) = suffix_from r data (Suc bi) 0"
  by (subst suffix_from_zero) (simp_all add: suffix_from_def)

lemma suffix_from_last_block:
  "length (block_entries r data (sr_blocks r ! bi)) \<le> Suc ei \<Longrightarrow> \<not> Suc bi < length (sr_blocks r) \<Longrightarrow> suffix_from r data bi (Suc ei) = []"
  by (simp add: suffix_from_def)

text \<open>A block that starts at or after the end key ends the run.\<close>

lemma suffix_from_past_end:
  assumes r: "reader_ok r data" "bi < length (sr_blocks r)" and e: "k \<noteq> []" "\<not> bm_first_key (sr_blocks r ! bi) < k"
  shows "filter (before_end k) (suffix_from r data bi 0) = []"
proof -
  let ?es = "block_entries r data (sr_blocks r ! bi)"
  have bok: "block_ok r data (sr_blocks r ! bi)" using r by (simp add: reader_ok_def)
  then have ne: "?es \<noteq> []" "\<not> before_end k (hd ?es)" using e by (auto simp: block_ok_def before_end_def)
  then have "hd (suffix_from r data bi 0) = hd ?es" by (simp add: suffix_from_def)
  then show ?thesis using before_end_hd [OF suffix_from_ordered [OF r, of 0], of k] ne by simp
qed

section \<open>Seeking\<close>

lemma seek_suffix:
  assumes r: "reader_ok r data" and bi: "bi = length (takeWhile (\<lambda>b. bm_last_key b < k) (sr_blocks r))" "bi < length (sr_blocks r)"
    and ei: "ei = length (takeWhile (\<lambda>e. user_key e < k) (block_entries r data (sr_blocks r ! bi)))"
  shows "filter (\<lambda>e. \<not> user_key e < k) (table_entries r data) = suffix_from r data bi ei"
    and "ei < length (block_entries r data (sr_blocks r ! bi))"
proof -
  let ?b = "sr_blocks r" and ?be = "block_entries r data"
  have split: "?b = take bi ?b @ ?b ! bi # drop (Suc bi) ?b" using bi(2) by (rule id_take_nth_drop)
  have ok: "block_ok r data m" if "m \<in> set ?b" for m using r that by (simp add: reader_ok_def)
  have m: "block_ok r data (?b ! bi)" "\<not> bm_last_key (?b ! bi) < k"
    using ok bi nth_length_takeWhile [of "\<lambda>b. bm_last_key b < k" ?b] by simp_all
  have "filter (\<lambda>e. \<not> user_key e < k) (concat (map ?be (take bi ?b))) = []"
  proof -
    have "user_key e < k" if "m \<in> set (take bi ?b)" "e \<in> set (?be m)" for m e
    proof -
      have "take bi ?b = takeWhile (\<lambda>b. bm_last_key b < k) ?b" using bi(1) takeWhile_eq_take by metis
      then have "bm_last_key m < k" using that(1) by (auto dest: set_takeWhileD)
      then show ?thesis using block_key_range(2) [OF ok that(2)] that(1) by (auto dest: in_set_takeD)
    qed
    then show ?thesis by (auto simp: filter_empty_conv)
  qed
  moreover have "filter (\<lambda>e. \<not> user_key e < k) (?be (?b ! bi)) = drop ei (?be (?b ! bi))"
    using drop_lower_bound [OF ordered_weakly [OF block_ok_ordered [OF m(1)]], of k] by (simp add: ei BytewiseLess_def)
  moreover have "filter (\<lambda>e. \<not> user_key e < k) (concat (map ?be (drop (Suc bi) ?b))) = concat (map ?be (drop (Suc bi) ?b))"
  proof -
    have "\<not> user_key e < k" if "m' \<in> set (drop (Suc bi) ?b)" "e \<in> set (?be m')" for m' e
    proof -
      have "sorted_wrt (\<lambda>a b. bm_last_key a < bm_first_key b) (take bi ?b @ ?b ! bi # drop (Suc bi) ?b)"
        using r split by (metis reader_ok_def)
      then have "bm_last_key (?b ! bi) < bm_first_key m'" using that(1) by (simp add: sorted_wrt_append)
      also have "\<dots> \<le> user_key e" using block_key_range(1) [OF ok that(2)] that(1) by (auto dest: in_set_dropD)
      finally show ?thesis using m(2) by simp
    qed
    then show ?thesis by (auto simp: filter_id_conv)
  qed
  moreover have "table_entries r data = concat (map ?be (take bi ?b)) @ ?be (?b ! bi) @ concat (map ?be (drop (Suc bi) ?b))"
    unfolding table_entries_def by (subst split) simp
  ultimately show "filter (\<lambda>e. \<not> user_key e < k) (table_entries r data) = suffix_from r data bi ei"
    by (simp add: suffix_from_def)
  have "last (?be (?b ! bi)) \<in> set (?be (?b ! bi))" "\<not> user_key (last (?be (?b ! bi))) < k"
    using m by (auto simp: block_ok_def)
  then have "takeWhile (\<lambda>e. user_key e < k) (?be (?b ! bi)) \<noteq> ?be (?b ! bi)"
    by (metis set_takeWhileD)
  then show "ei < length (?be (?b ! bi))"
    unfolding ei by (metis length_takeWhile_le le_neq_implies_less takeWhile_eq_take take_all order_refl)
qed

lemma seek_nothing:
  assumes "reader_ok r data" "length (takeWhile (\<lambda>b. bm_last_key b < k) (sr_blocks r)) = length (sr_blocks r)"
  shows "filter (\<lambda>e. \<not> user_key e < k) (table_entries r data) = []"
proof -
  have "takeWhile (\<lambda>b. bm_last_key b < k) (sr_blocks r) = sr_blocks r"
    using assms(2) by (metis takeWhile_eq_take take_all order_refl)
  then have "bm_last_key m < k" if "m \<in> set (sr_blocks r)" for m using that by (metis set_takeWhileD)
  then have "user_key e < k" if "m \<in> set (sr_blocks r)" "e \<in> set (block_entries r data m)" for m e
    using block_key_range(2) [OF _ that(2)] assms(1) that(1) by (fastforce simp: reader_ok_def)
  then show ?thesis by (auto simp: table_entries_def filter_empty_conv)
qed

section \<open>Moving the iterator\<close>

lemma SetEof_facts:
  "si_status (SetEof it) = si_status it" "si_same it (SetEof it)" "\<not> si_valid (SetEof it)" "si_state (SetEof it) = si_state it"
  "si_reader (SetEof it) = si_reader it"
  by (simp_all add: SetEof_def si_same_def)

lemma SetEof_invar: "si_sound it \<Longrightarrow> si_invar (SetEof it) \<and> si_rest (SetEof it) = []"
  by (simp add: SetEof_def si_invar_def si_sound_def si_rest_def)

text \<open>At a position inside a loaded block, \<open>UpdateValidity\<close> leaves what is before the end key.\<close>

lemma UpdateValidity_at:
  assumes "si_sound it" "si_block_index it < length (sr_blocks (si_reader it))"
    and "si_entries it = Some (block_entries (si_reader it) (si_data it) (sr_blocks (si_reader it) ! si_block_index it))"
    and "si_entry_index it < length (the (si_entries it))"
  shows "si_invar (UpdateValidity it) \<and> si_same it (UpdateValidity it) \<and>
    si_rest (UpdateValidity it) =
      filter (before_end (si_end it)) (suffix_from (si_reader it) (si_data it) (si_block_index it) (si_entry_index it))"
proof -
  let ?es = "the (si_entries it)" and ?xs = "suffix_from (si_reader it) (si_data it) (si_block_index it) (si_entry_index it)"
  have hd: "?xs = ?es ! si_entry_index it # suffix_from (si_reader it) (si_data it) (si_block_index it) (Suc (si_entry_index it))"
    using assms(3,4) by (subst suffix_from_step) simp_all
  have wo: "weakly_ordered ?xs"
    using assms by (intro suffix_from_ordered) (simp_all add: si_sound_def)
  show ?thesis
  proof (cases "before_end (si_end it) (?es ! si_entry_index it)")
    case True
    then have "UpdateValidity it = it\<lparr>si_valid := True\<rparr>"
      using assms(3,4) by (simp add: UpdateValidity_def before_end_def BytewiseLess_def)
    then show ?thesis using assms True by (simp add: si_invar_def si_sound_def si_positioned_def si_same_def si_rest_def)
  next
    case False
    then have u: "UpdateValidity it = SetEof (it\<lparr>si_valid := False\<rparr>)"
      using assms(3,4) by (simp add: UpdateValidity_def before_end_def BytewiseLess_def)
    have "si_sound (it\<lparr>si_valid := False\<rparr>)" using assms(1) by (simp add: si_sound_def)
    moreover have "filter (before_end (si_end it)) ?xs = []" unfolding before_end_hd [OF wo] by (simp add: hd False)
    ultimately show ?thesis using SetEof_invar [of "it\<lparr>si_valid := False\<rparr>"] SetEof_facts(2) [of "it\<lparr>si_valid := False\<rparr>"]
      by (simp add: u si_same_def)
  qed
qed

lemma load_and_position_at:
  assumes s: "si_sound it" and bi: "si_block_index it < length (sr_blocks (si_reader it))"
    and pos: "position (block_entries (si_reader it) (si_data it) (sr_blocks (si_reader it) ! si_block_index it)) = ei"
      "ei < length (block_entries (si_reader it) (si_data it) (sr_blocks (si_reader it) ! si_block_index it))"
    and run: "load_and_position charge position it = (c, it')"
  shows "c = kOk \<and> si_invar it' \<and> si_same it it' \<and>
      si_rest it' = filter (before_end (si_end it)) (suffix_from (si_reader it) (si_data it) (si_block_index it) ei) \<or>
    c = kIOError \<and> \<not> si_reads it"
proof -
  let ?r = "si_reader it" and ?d = "si_data it"
  let ?m = "sr_blocks ?r ! si_block_index it"
  have st: "reader_ok ?r ?d" "ts_ok ?r ?d (si_state it)" "si_status it = kOk" using s by (simp_all add: si_sound_def)
  obtain x ts where rb: "ReadBlock charge ?r ?m True (si_state it) = (x, ts)" by fastforce
  note ok = ReadBlock_ok [OF st(1) nth_mem [OF bi] st(2) rb]
  show ?thesis
  proof (cases "x = Ok (block_entries ?r ?d ?m)")
    case True
    let ?it = "it\<lparr>si_state := ts, si_entries := Some (block_entries ?r ?d ?m), si_entry_index := ei\<rparr>"
    have d: "ra_data (ts_file ts) = ?d" using ok by (simp add: ts_ok_def)
    have "load_and_position charge position it = (si_status (UpdateValidity ?it), UpdateValidity ?it)"
      using rb True pos(1) by (simp add: load_and_position_def LoadBlock_def Let_def)
    moreover have u: "si_invar (UpdateValidity ?it) \<and> si_same ?it (UpdateValidity ?it) \<and>
        si_rest (UpdateValidity ?it) = filter (before_end (si_end it)) (suffix_from ?r ?d (si_block_index it) ei)"
      using UpdateValidity_at [of ?it] st ok bi pos(2) d by (simp add: si_sound_def)
    moreover from this have "si_status (UpdateValidity ?it) = kOk" by (simp add: si_invar_def si_sound_def)
    moreover have "si_same it (UpdateValidity ?it)" using u ok d by (auto simp: si_same_def)
    ultimately show ?thesis using run by simp
  next
    case False
    then show ?thesis using ok rb run by (auto simp: load_and_position_def LoadBlock_def)
  qed
qed

lemma si_Seek_cases:
  assumes inv: "si_invar it" and run: "si_Seek charge k it = (c, it')"
  shows "c = kOk \<and> si_invar it' \<and> si_same it it' \<and> si_rest it' = filter (\<lambda>e. \<not> user_key e < k) (si_all it) \<or>
    c = kIOError \<and> \<not> si_reads it"
proof -
  let ?r = "si_reader it" and ?d = "si_data it"
  let ?bi = "length (takeWhile (\<lambda>b. bm_last_key b < k) (sr_blocks ?r))"
  let ?it = "it\<lparr>si_block_index := ?bi\<rparr>"
  have rok: "reader_ok ?r ?d" and s: "si_sound ?it" using inv by (simp_all add: si_invar_def si_sound_def)
  have all: "filter (\<lambda>e. \<not> user_key e < k) (si_all it) =
      filter (before_end (si_end it)) (filter (\<lambda>e. \<not> user_key e < k) (table_entries ?r ?d))"
    by (simp add: si_all_def conj_commute)
  have eof: ?thesis if "c = kOk" "it' = SetEof ?it" "filter (\<lambda>e. \<not> user_key e < k) (si_all it) = []"
    using that SetEof_invar [OF s] SetEof_facts(2) [of ?it] by (simp add: si_same_def)
  show ?thesis
  proof (cases "?bi = length (sr_blocks ?r)")
    case True
    then show ?thesis using run seek_nothing [OF rok True]
      by (intro eof) (simp_all add: si_Seek_def Let_def BytewiseLess_def all)
  next
    case False
    then have bi: "?bi < length (sr_blocks ?r)" using length_takeWhile_le [of "\<lambda>b. bm_last_key b < k" "sr_blocks ?r"] by simp
    define ei where "ei = length (takeWhile (\<lambda>e. user_key e < k) (block_entries ?r ?d (sr_blocks ?r ! ?bi)))"
    note suf = seek_suffix [OF rok refl bi ei_def]
    show ?thesis
    proof (cases "si_end it \<noteq> [] \<and> \<not> bm_first_key (sr_blocks ?r ! ?bi) < si_end it")
      case True
      then have "filter (before_end (si_end it)) (suffix_from ?r ?d ?bi 0) = []"
        using suffix_from_past_end [OF rok bi] by blast
      then have "filter (before_end (si_end it)) (suffix_from ?r ?d ?bi ei) = []"
        using suffix_from_drop [OF bi less_imp_le [OF suf(2)]] by (simp add: filter_empty_conv) (metis in_set_dropD)
      then show ?thesis using run True False suf(1)
        by (intro eof) (simp_all add: si_Seek_def Let_def BytewiseLess_def all)
    next
      case inside: False
      have "load_and_position charge (\<lambda>es. length (takeWhile (\<lambda>e. user_key e < k) es)) ?it = (c, it')"
        using run False inside by (simp add: si_Seek_def Let_def BytewiseLess_def split: if_splits)
      from load_and_position_at [OF s _ _ _ this, of ei]
      show ?thesis using bi suf ei_def by (simp add: all) (auto simp: si_same_def)
    qed
  qed
qed

lemma si_Next_cases:
  assumes inv: "si_invar it" and valid: "si_valid it" and run: "si_Next charge it = (c, it')"
  shows "c = kOk \<and> si_invar it' \<and> si_same it it' \<and> si_rest it' = tl (si_rest it) \<or> c = kIOError \<and> \<not> si_reads it"
proof -
  let ?r = "si_reader it" and ?d = "si_data it" and ?bi = "si_block_index it" and ?ei = "si_entry_index it"
  let ?es = "block_entries ?r ?d (sr_blocks ?r ! ?bi)"
  have rok: "reader_ok ?r ?d" and st: "si_status it = kOk" using inv by (simp_all add: si_invar_def si_sound_def)
  have p: "?bi < length (sr_blocks ?r)" "si_entries it = Some ?es" "?ei < length ?es" "before_end (si_end it) (?es ! ?ei)"
    using inv valid by (auto simp: si_invar_def si_positioned_def)
  have tl: "tl (si_rest it) = filter (before_end (si_end it)) (suffix_from ?r ?d ?bi (Suc ?ei))"
    using valid p(3,4) by (simp add: si_rest_def suffix_from_step)
  show ?thesis
  proof (cases "Suc ?ei < length ?es")
    case True
    let ?it = "it\<lparr>si_entry_index := Suc ?ei\<rparr>"
    have u: "si_invar (UpdateValidity ?it) \<and> si_same ?it (UpdateValidity ?it) \<and>
        si_rest (UpdateValidity ?it) = filter (before_end (si_end it)) (suffix_from ?r ?d ?bi (Suc ?ei))"
      using UpdateValidity_at [of ?it] inv p True by (simp add: si_invar_def si_sound_def)
    moreover have "(c, it') = (si_status (UpdateValidity ?it), UpdateValidity ?it)"
      using run st valid p True by (auto simp: si_Next_def Let_def)
    moreover from u have "si_status (UpdateValidity ?it) = kOk" by (simp add: si_invar_def si_sound_def)
    ultimately show ?thesis by (simp add: tl si_same_def)
  next
    case last: False
    let ?it = "it\<lparr>si_entry_index := Suc ?ei, si_block_index := Suc ?bi\<rparr>"
    have s: "si_sound ?it" using inv by (simp add: si_invar_def si_sound_def)
    have eof: ?thesis if "c = kOk" "it' = SetEof ?it" "tl (si_rest it) = []"
      using that SetEof_invar [OF s] SetEof_facts(2) [of ?it] by (simp add: si_same_def)
    have len: "length ?es \<le> Suc ?ei" using last by simp
    show ?thesis
    proof (cases "Suc ?bi < length (sr_blocks ?r)")
      case False
      then have "Suc ?bi = length (sr_blocks ?r)" using p(1) by simp
      then show ?thesis using run st valid p last suffix_from_last_block [OF len False]
        by (intro eof) (simp_all add: si_Next_def Let_def tl)
    next
      case bi: True
      note tl' = tl [unfolded suffix_from_next_block [OF len bi]]
      show ?thesis
      proof (cases "si_end it \<noteq> [] \<and> \<not> bm_first_key (sr_blocks ?r ! Suc ?bi) < si_end it")
        case True
        then have "tl (si_rest it) = []" using suffix_from_past_end [OF rok bi] by (simp add: tl')
        then show ?thesis using run st valid p last bi True by (intro eof) (simp_all add: si_Next_def Let_def BytewiseLess_def)
      next
        case False
        have "block_ok ?r ?d (sr_blocks ?r ! Suc ?bi)" using rok bi by (simp add: reader_ok_def)
        then have ne: "block_entries ?r ?d (sr_blocks ?r ! Suc ?bi) \<noteq> []" by (simp add: block_ok_def)
        have "load_and_position charge (\<lambda>es. 0) ?it = (c, it')"
          using run st valid p last bi False by (simp add: si_Next_def Let_def BytewiseLess_def split: if_splits)
        from load_and_position_at [OF s _ _ _ this, of 0]
        show ?thesis using bi ne by (simp add: tl') (auto simp: si_same_def)
      qed
    qed
  qed
qed

section \<open>The contract\<close>

lemma si_rest_valid: "si_invar it \<Longrightarrow> si_valid it \<longleftrightarrow> si_rest it \<noteq> []"
  by (auto simp: si_invar_def si_positioned_def si_rest_def suffix_from_step)

interpretation table_iterator: internal_iterator "table_ops charge" si_invar si_all si_rest for charge
proof
  fix it it' k
  assume inv: "si_invar it"
  then show "status (table_ops charge) it = kOk" by (simp add: table_ops_def si_invar_def si_sound_def)
  show "Valid (table_ops charge) it \<longleftrightarrow> si_rest it \<noteq> []"
    using inv si_rest_valid [OF inv] by (simp add: table_ops_def si_invar_def si_sound_def)
  show "entry (table_ops charge) it = hd (si_rest it)" if "si_rest it \<noteq> []"
    using inv that by (auto simp: table_ops_def si_invar_def si_positioned_def si_rest_def suffix_from_step split: if_splits)
  show "weakly_ordered (si_all it)"
    using inv by (simp add: si_all_def weakly_ordered_filter ordered_weakly table_entries_ordered si_invar_def si_sound_def)
  show "weakly_ordered (si_rest it)"
    using inv by (auto simp: si_rest_def si_invar_def si_sound_def si_positioned_def intro!: weakly_ordered_filter suffix_from_ordered)
  show "si_invar it' \<and> si_all it' = si_all it \<and> si_rest it' = filter (\<lambda>e. \<not> user_key e < k) (si_all it)"
    if "Seek (table_ops charge) k it = (kOk, it')"
    using si_Seek_cases [OF inv, of charge k kOk it'] that si_same_all by (auto simp: table_ops_def)
  show "si_invar it' \<and> si_all it' = si_all it \<and> si_rest it' = tl (si_rest it)"
    if "si_rest it \<noteq> []" "Next (table_ops charge) it = (kOk, it')"
    using si_Next_cases [OF inv, of charge kOk it'] that si_same_all si_rest_valid [OF inv] by (auto simp: table_ops_def)
qed

text \<open>Over a file whose reads succeed the iterator never fails.\<close>

definition si_good :: "TableIterator \<Rightarrow> bool" where
  "si_good it \<longleftrightarrow> si_invar it \<and> si_reads it"

interpretation table_reliable: reliable_iterator "table_ops charge" si_good si_all si_rest for charge
proof
  fix it it' k
  assume g: "si_good it"
  then have inv: "si_invar it" and rd: "si_reads it" by (simp_all add: si_good_def)
  show "status (table_ops charge) it = kOk" by (rule table_iterator.healthy [OF inv])
  show "Valid (table_ops charge) it \<longleftrightarrow> si_rest it \<noteq> []" by (rule table_iterator.Valid_rest [OF inv])
  show "entry (table_ops charge) it = hd (si_rest it)" if "si_rest it \<noteq> []" by (rule table_iterator.entry_rest [OF inv that])
  show "weakly_ordered (si_all it)" by (rule table_iterator.all_ordered [OF inv])
  show "weakly_ordered (si_rest it)" by (rule table_iterator.rest_ordered [OF inv])
  obtain cs its cn itn where runs: "si_Seek charge k it = (cs, its)" "si_Next charge it = (cn, itn)" by fastforce
  have seek: "\<exists>it''. si_Seek charge k it = (kOk, it'') \<and> si_good it'' \<and> si_all it'' = si_all it \<and>
      si_rest it'' = filter (\<lambda>e. \<not> user_key e < k) (si_all it)"
  proof -
    have "cs = kOk \<and> si_invar its \<and> si_same it its \<and> si_rest its = filter (\<lambda>e. \<not> user_key e < k) (si_all it)"
      using si_Seek_cases [OF inv runs(1)] rd by blast
    then show ?thesis using runs(1) rd si_same_all [of it its] by (simp add: si_good_def si_same_def)
  qed
  then show "\<exists>it'. Seek (table_ops charge) k it = (kOk, it') \<and> status (table_ops charge) it' = kOk"
    by (auto simp: table_ops_def si_good_def si_invar_def si_sound_def)
  show "si_good it' \<and> si_all it' = si_all it \<and> si_rest it' = filter (\<lambda>e. \<not> user_key e < k) (si_all it)"
    if "Seek (table_ops charge) k it = (kOk, it')"
    using seek that by (simp add: table_ops_def)
  have nxt: "\<exists>it''. si_Next charge it = (kOk, it'') \<and> si_good it'' \<and> si_all it'' = si_all it \<and> si_rest it'' = tl (si_rest it)"
    if "si_rest it \<noteq> []"
  proof -
    have "cn = kOk \<and> si_invar itn \<and> si_same it itn \<and> si_rest itn = tl (si_rest it)"
      using si_Next_cases [OF inv _ runs(2)] that si_rest_valid [OF inv] rd by blast
    then show ?thesis using runs(2) rd si_same_all [of it itn] by (simp add: si_good_def si_same_def)
  qed
  then show "\<exists>it'. Next (table_ops charge) it = (kOk, it') \<and> status (table_ops charge) it' = kOk" if "si_rest it \<noteq> []"
    using that by (auto simp: table_ops_def si_good_def si_invar_def si_sound_def)
  show "si_good it' \<and> si_all it' = si_all it \<and> si_rest it' = tl (si_rest it)"
    if "si_rest it \<noteq> []" "Next (table_ops charge) it = (kOk, it')"
    using nxt that by (auto simp: table_ops_def)
qed

lemma Table_NewIterator_cases:
  assumes r: "reader_ok r (ra_data (ts_file ts))" "ts_ok r (ra_data (ts_file ts)) ts" and b: "end_key = [] \<or> \<not> end_key < beg"
  shows "(\<exists>it. Table_NewIterator charge r ts beg end_key = Ok it \<and> si_invar it \<and> (reads_ok (ra_reads (ts_file ts)) \<longrightarrow> si_good it) \<and>
      si_all it = filter (before_end end_key) (table_entries r (ra_data (ts_file ts))) \<and>
      si_rest it = filter (\<lambda>e. before_end end_key e \<and> \<not> user_key e < beg) (table_entries r (ra_data (ts_file ts)))) \<or>
    Table_NewIterator charge r ts beg end_key = Err kIOError \<and> \<not> reads_ok (ra_reads (ts_file ts))"
proof -
  let ?it = "\<lparr>si_reader = r, si_state = ts, si_end = end_key, si_block_index = length (sr_blocks r), si_entries = None,
    si_entry_index = 0, si_valid = False, si_status = kOk\<rparr>"
  have inv: "si_invar ?it" using r by (simp add: si_invar_def si_sound_def)
  obtain c it where s: "si_Seek charge beg ?it = (c, it)" by fastforce
  have n: "Table_NewIterator charge r ts beg end_key = (if c \<noteq> kOk then Err c else Ok it)"
    using b s by (auto simp: Table_NewIterator_def BytewiseLess_def)
  from si_Seek_cases [OF inv s] show ?thesis
    by (auto simp: n si_good_def si_same_def si_all_def)
qed

end
