(* ===== verification/Merging_Iterator.thy ===== *)
theory Merging_Iterator
  imports Iterators
begin

text \<open>
  \<open>MergingIterator\<close> of \<open>src/iterator/internal_iterator.cpp\<close>: a heap of input indices, the winner
  whose entry is current, and the last version delivered, which is how duplicate versions are
  noticed. Against the iterator contract of its inputs, the merge delivers all their entries in
  internal order, and a successful step never repeats a version.
\<close>

section \<open>State and operations\<close>

record 'i MergingIterator =
  mi_inputs :: "'i list"
  mi_heap :: "nat list"
  mi_winner :: "nat option"
  mi_previous_key :: bytes
  mi_previous_sequence :: u64
  mi_has_previous :: bool
  mi_status :: StatusCode

definition mi_Valid :: "'i MergingIterator \<Rightarrow> bool" where
  "mi_Valid m = (mi_status m = kOk \<and> mi_winner m \<noteq> None)"

definition mi_entry :: "'i InternalIterator \<Rightarrow> 'i MergingIterator \<Rightarrow> InternalEntry" where
  "mi_entry ops m = entry ops (mi_inputs m ! the (mi_winner m))"

text \<open>\<open>HeapCompare\<close> orders the heap with the least entry on top.\<close>

definition HeapCompare :: "'i InternalIterator \<Rightarrow> 'i list \<Rightarrow> nat \<Rightarrow> nat \<Rightarrow> bool" where
  "HeapCompare ops inputs left right =
     InternalLess (entry ops (inputs ! right)) (entry ops (inputs ! left))"

text \<open>
  \<open>std::pop_heap\<close> moves an element that is maximal for the comparison to the back. The order of the
  other elements in the array is not observable, so the heap is kept as a list of its elements.
\<close>

definition heap_top :: "(nat \<Rightarrow> nat \<Rightarrow> bool) \<Rightarrow> nat \<Rightarrow> nat list \<Rightarrow> nat" where
  "heap_top lt i is = foldl (\<lambda>m j. if lt m j then j else m) i is"

definition mi_SetError :: "StatusCode \<Rightarrow> 'i MergingIterator \<Rightarrow> StatusCode \<times> 'i MergingIterator" where
  "mi_SetError c m = (c, m\<lparr>mi_status := c, mi_heap := [], mi_winner := None\<rparr>)"

definition SelectCurrent :: "'i InternalIterator \<Rightarrow> 'i MergingIterator \<Rightarrow> StatusCode \<times> 'i MergingIterator" where
  "SelectCurrent ops m =
     (case mi_heap m of
        [] \<Rightarrow> (kOk, m)
      | i # is \<Rightarrow>
          let w = heap_top (HeapCompare ops (mi_inputs m)) i is;
              heap = remove1 w (i # is);
              m' = m\<lparr>mi_heap := heap, mi_winner := Some w\<rparr>;
              selected = entry ops (mi_inputs m ! w) in
          if list_ex (\<lambda>j. user_key (entry ops (mi_inputs m ! j)) = user_key selected \<and>
                           sequence (entry ops (mi_inputs m ! j)) = sequence selected) heap
          then mi_SetError kCorruption m'
          else if mi_has_previous m \<and> user_key selected = mi_previous_key m \<and>
                  sequence selected = mi_previous_sequence m
          then mi_SetError kCorruption m'
          else (kOk, m'\<lparr>mi_previous_key := user_key selected,
                         mi_previous_sequence := sequence selected, mi_has_previous := True\<rparr>))"

text \<open>The loop of \<open>Seek\<close> over the inputs from index \<open>i\<close>, collecting the valid ones.\<close>

fun seek_inputs ::
  "'i InternalIterator \<Rightarrow> bytes \<Rightarrow> nat \<Rightarrow> 'i list \<Rightarrow> StatusCode \<times> 'i list \<times> nat list" where
  "seek_inputs ops target i [] = (kOk, [], [])"
| "seek_inputs ops target i (it # its) =
     (let r = Seek ops target it; c = step_error ops r in
      if c \<noteq> kOk then (c, snd r # its, [])
      else case seek_inputs ops target (Suc i) its of
        (c, its', heap) \<Rightarrow> (c, snd r # its', if Valid ops (snd r) then i # heap else heap))"

definition mi_Seek :: "'i InternalIterator \<Rightarrow> bytes \<Rightarrow> 'i MergingIterator \<Rightarrow> StatusCode \<times> 'i MergingIterator" where
  "mi_Seek ops target m =
     (if mi_status m \<noteq> kOk then (mi_status m, m)
      else case seek_inputs ops target 0 (mi_inputs m) of (c, inputs, heap) \<Rightarrow>
        let m' = \<lparr>mi_inputs = inputs, mi_heap = heap, mi_winner = None, mi_previous_key = [],
                  mi_previous_sequence = 0, mi_has_previous = False, mi_status = mi_status m\<rparr> in
        if c \<noteq> kOk then mi_SetError c m' else SelectCurrent ops m')"

definition mi_Next :: "'i InternalIterator \<Rightarrow> 'i MergingIterator \<Rightarrow> StatusCode \<times> 'i MergingIterator" where
  "mi_Next ops m =
     (if mi_status m \<noteq> kOk then (mi_status m, m)
      else case mi_winner m of
        None \<Rightarrow> (kOk, m)
      | Some prior \<Rightarrow>
          let r = Next ops (mi_inputs m ! prior);
              m' = m\<lparr>mi_winner := None, mi_inputs := (mi_inputs m)[prior := snd r]\<rparr> in
          if step_error ops r \<noteq> kOk then mi_SetError (step_error ops r) m'
          else SelectCurrent ops
                 (if Valid ops (snd r) then m'\<lparr>mi_heap := mi_heap m @ [prior]\<rparr> else m'))"

definition merging_ops :: "'i InternalIterator \<Rightarrow> 'i MergingIterator InternalIterator" where
  "merging_ops ops =
     \<lparr>Valid = mi_Valid, entry = mi_entry ops, Seek = mi_Seek ops, Next = mi_Next ops, status = mi_status\<rparr>"

definition NewMergingIterator :: "'i InternalIterator \<Rightarrow> 'i list \<Rightarrow> 'i MergingIterator result" where
  "NewMergingIterator ops inputs =
     (case mi_Seek ops [] \<lparr>mi_inputs = inputs, mi_heap = [], mi_winner = None, mi_previous_key = [],
             mi_previous_sequence = 0, mi_has_previous = False, mi_status = kOk\<rparr> of
        (c, m) \<Rightarrow> if c \<noteq> kOk then Err c else Ok m)"

section \<open>Invariant\<close>

definition mi_active :: "('i \<Rightarrow> InternalEntry list) \<Rightarrow> 'i MergingIterator \<Rightarrow> nat set" where
  "mi_active rest m = {i. i < length (mi_inputs m) \<and> rest (mi_inputs m ! i) \<noteq> []}"

text \<open>Between operations: the winner is strictly below the heads of all other inputs.\<close>

definition mi_selected :: "('i \<Rightarrow> InternalEntry list) \<Rightarrow> 'i MergingIterator \<Rightarrow> nat \<Rightarrow> bool" where
  "mi_selected rest m w \<longleftrightarrow>
     distinct (w # mi_heap m) \<and> set (w # mi_heap m) = mi_active rest m \<and>
     (\<forall>j \<in> set (mi_heap m). InternalLess (hd (rest (mi_inputs m ! w))) (hd (rest (mi_inputs m ! j)))) \<and>
     mi_has_previous m \<and> mi_previous_key m = user_key (hd (rest (mi_inputs m ! w))) \<and>
     mi_previous_sequence m = sequence (hd (rest (mi_inputs m ! w)))"

definition mi_invar ::
  "('i \<Rightarrow> bool) \<Rightarrow> ('i \<Rightarrow> InternalEntry list) \<Rightarrow> 'i MergingIterator \<Rightarrow> bool" where
  "mi_invar invar rest m \<longleftrightarrow>
     mi_status m = kOk \<and> (\<forall>it \<in> set (mi_inputs m). invar it) \<and>
     (case mi_winner m of
        None \<Rightarrow> mi_heap m = [] \<and> mi_active rest m = {}
      | Some w \<Rightarrow> mi_selected rest m w)"

text \<open>Before a selection: the heap holds exactly the inputs that have entries.\<close>

definition mi_ready ::
  "('i \<Rightarrow> bool) \<Rightarrow> ('i \<Rightarrow> InternalEntry list) \<Rightarrow> 'i MergingIterator \<Rightarrow> bool" where
  "mi_ready invar rest m \<longleftrightarrow>
     mi_status m = kOk \<and> mi_winner m = None \<and> (\<forall>it \<in> set (mi_inputs m). invar it) \<and>
     distinct (mi_heap m) \<and> set (mi_heap m) = mi_active rest m"

definition mi_all :: "('i \<Rightarrow> InternalEntry list) \<Rightarrow> 'i MergingIterator \<Rightarrow> InternalEntry list" where
  "mi_all all m = sort_versions (concat (map all (mi_inputs m)))"

definition mi_rest :: "('i \<Rightarrow> InternalEntry list) \<Rightarrow> 'i MergingIterator \<Rightarrow> InternalEntry list" where
  "mi_rest rest m = sort_versions (concat (map rest (mi_inputs m)))"

lemma heap_top_in: "heap_top lt i is \<in> set (i # is)"
  unfolding heap_top_def by (induction "is" arbitrary: i) auto

lemma heap_top_maximal:
  assumes "\<And>a b c. \<not> lt a b \<Longrightarrow> \<not> lt b c \<Longrightarrow> \<not> lt a c" "\<And>a. \<not> lt a a" "\<And>a b. lt a b \<Longrightarrow> \<not> lt b a"
  shows "j \<in> set (i # is) \<Longrightarrow> \<not> lt (heap_top lt i is) j"
proof -
  let ?F = "foldl (\<lambda>m j. if lt m j then j else m)"
  have start: "\<not> lt (?F i is) i" for i "is"
  proof (induction "is" arbitrary: i)
    case (Cons a "is")
    show ?case
    proof (cases "lt i a")
      case True
      then show ?thesis using Cons.IH [of a] assms(1) [OF Cons.IH [of a] assms(3)] by simp
    qed (simp add: Cons.IH)
  qed (simp add: assms(2))
  have "j \<in> set (i # is) \<Longrightarrow> \<not> lt (?F i is) j"
  proof (induction "is" arbitrary: i)
    case (Cons a "is")
    have "\<not> lt (?F (if lt i a then a else i) is) a"
      using assms(1) [OF start [of i "is"]] start [of a "is"] by (cases "lt i a") auto
    with Cons start [of i "a # is"] show ?case by auto
  qed (simp add: assms(2))
  then show "j \<in> set (i # is) \<Longrightarrow> \<not> lt (heap_top lt i is) j" by (simp add: heap_top_def)
qed

lemma split_at_index: "w < length xs \<Longrightarrow> xs = take w xs @ xs ! w # drop (Suc w) xs"
  by (rule id_take_nth_drop)

section \<open>The merge against the contract of its inputs\<close>

context internal_iterator
begin

lemma active_mem: "i \<in> mi_active rest m \<Longrightarrow> (\<forall>it \<in> set (mi_inputs m). invar it) \<Longrightarrow>
    i < length (mi_inputs m) \<and> invar (mi_inputs m ! i) \<and> rest (mi_inputs m ! i) \<noteq> [] \<and>
    entry ops (mi_inputs m ! i) = hd (rest (mi_inputs m ! i))"
  by (auto simp: mi_active_def entry_rest)

lemma SelectCurrent_ok:
  assumes ready: "mi_ready invar rest m" and step: "SelectCurrent ops m = (kOk, m')"
  shows "mi_invar invar rest m'" "mi_inputs m' = mi_inputs m"
    "mi_winner m' = Some w \<Longrightarrow> mi_has_previous m \<Longrightarrow>
       \<not> (user_key (hd (rest (mi_inputs m ! w))) = mi_previous_key m \<and>
          sequence (hd (rest (mi_inputs m ! w))) = mi_previous_sequence m)"
proof -
  have inputs: "\<forall>it \<in> set (mi_inputs m). invar it" and active: "set (mi_heap m) = mi_active rest m"
    and dist: "distinct (mi_heap m)" using ready by (simp_all add: mi_ready_def)
  let ?head = "\<lambda>i. hd (rest (mi_inputs m ! i))"
  have "mi_invar invar rest m' \<and> mi_inputs m' = mi_inputs m \<and>
    (mi_winner m' = Some w \<longrightarrow> mi_has_previous m \<longrightarrow>
       \<not> (user_key (?head w) = mi_previous_key m \<and> sequence (?head w) = mi_previous_sequence m))"
  proof (cases "mi_heap m")
    case Nil
    with ready step show ?thesis by (auto simp: SelectCurrent_def mi_ready_def mi_invar_def)
  next
    case (Cons i "is")
    define v where "v = heap_top (HeapCompare ops (mi_inputs m)) i is"
    have v: "v \<in> set (mi_heap m)" using heap_top_in [of _ i "is"] Cons by (simp add: v_def)
    have ent: "entry ops (mi_inputs m ! j) = ?head j" if "j \<in> set (mi_heap m)" for j
      using that active active_mem [OF _ inputs] by blast
    have least: "\<not> InternalLess (?head j) (?head v)" if j: "j \<in> set (mi_heap m)" for j
      using heap_top_maximal [of "HeapCompare ops (mi_inputs m)" j i "is"] j Cons ent [OF j] ent [OF v]
      by (auto simp: v_def HeapCompare_def dest: InternalLess_asym not_InternalLess_trans)
    have heap_mem: "j \<in> set (mi_heap m)" if j: "j \<in> set (remove1 v (mi_heap m))" for j
      using notin_set_remove1 j by fast
    have no: "\<not> list_ex (\<lambda>j. user_key (entry ops (mi_inputs m ! j)) = user_key (?head v) \<and>
        sequence (entry ops (mi_inputs m ! j)) = sequence (?head v)) (remove1 v (mi_heap m))"
      using step Cons ent [OF v]
      by (auto simp: SelectCurrent_def mi_SetError_def Let_def v_def [symmetric] simp del: remove1.simps split: if_splits)
    have nodup: "\<not> same_version (?head j) (?head v)" if j: "j \<in> set (remove1 v (mi_heap m))" for j
      using no j ent [OF heap_mem [OF j]] by (auto simp: list_ex_iff same_version_def)
    have strict: "InternalLess (?head v) (?head j)" if j: "j \<in> set (remove1 v (mi_heap m))" for j
      using nodup [OF j] least [OF heap_mem [OF j]] InternalLess_linear by blast
    have m': "m' = m\<lparr>mi_heap := remove1 v (mi_heap m), mi_winner := Some v, mi_previous_key := user_key (?head v),
        mi_previous_sequence := sequence (?head v), mi_has_previous := True\<rparr>"
      and prev: "\<not> (mi_has_previous m \<and> user_key (?head v) = mi_previous_key m \<and> sequence (?head v) = mi_previous_sequence m)"
      using step Cons ent [OF v]
      by (auto simp: SelectCurrent_def mi_SetError_def Let_def v_def [symmetric] simp del: remove1.simps split: if_splits)
    have "set (v # remove1 v (mi_heap m)) = mi_active rest m" "distinct (v # remove1 v (mi_heap m))"
      using v dist active by (auto simp: set_remove1_eq)
    then show ?thesis
      using m' prev strict ready
      by (auto simp: mi_invar_def mi_selected_def mi_ready_def mi_active_def)
  qed
  then show "mi_invar invar rest m'" "mi_inputs m' = mi_inputs m"
    "mi_winner m' = Some w \<Longrightarrow> mi_has_previous m \<Longrightarrow>
       \<not> (user_key (?head w) = mi_previous_key m \<and> sequence (?head w) = mi_previous_sequence m)"
    by blast+
qed

text \<open>With a winner selected, its head is the head of the merge, and the rest is merged from the tails.\<close>

lemma mi_rest_winner:
  assumes inv: "mi_invar invar rest m" and w: "mi_winner m = Some w"
  shows "mi_rest rest m =
     hd (rest (mi_inputs m ! w)) # sort_versions (concat ((map rest (mi_inputs m))[w := tl (rest (mi_inputs m ! w))]))"
proof -
  let ?in = "mi_inputs m"
  let ?x = "hd (rest (?in ! w))"
  have sel: "mi_selected rest m w" and inputs: "\<forall>it \<in> set ?in. invar it"
    using inv w by (simp_all add: mi_invar_def)
  then have wact: "w \<in> mi_active rest m" by (auto simp: mi_selected_def)
  note wm = active_mem [OF wact inputs]
  have other: "InternalLess ?x a" if "i < length ?in" "i \<noteq> w" "a \<in> set (rest (?in ! i))" for i a
  proof -
    have "i \<in> mi_active rest m" using that by (auto simp: mi_active_def)
    then have less: "InternalLess ?x (hd (rest (?in ! i)))" and "invar (?in ! i)"
      using sel that inputs by (auto simp: mi_selected_def)
    then have "\<not> InternalLess a (hd (rest (?in ! i)))"
      using rest_ordered [of "?in ! i"] that(3) by (cases "rest (?in ! i)") auto
    with less show ?thesis by (rule InternalLess_le_trans)
  qed
  have own: "\<not> InternalLess b ?x" if "b \<in> set (tl (rest (?in ! w)))" for b
    using rest_ordered [of "?in ! w"] wm that by (cases "rest (?in ! w)") auto
  let ?pre = "concat (map rest (take w ?in))" and ?post = "concat (map rest (drop (Suc w) ?in))"
  have split: "concat (map rest ?in) = ?pre @ ?x # (tl (rest (?in ! w)) @ ?post)"
    by (rule trans [OF arg_cong [OF split_at_index [of w ?in], of "\<lambda>xs. concat (map rest xs)"]])
       (use wm in simp_all)
  have upd: "concat ((map rest ?in)[w := tl (rest (?in ! w))]) = ?pre @ tl (rest (?in ! w)) @ ?post"
    using wm by (simp add: upd_conv_take_nth_drop take_map drop_map)
  have "InternalLess ?x a" if a: "a \<in> set ?pre" for a
  proof -
    obtain it where "it \<in> set (take w ?in)" "a \<in> set (rest it)" using a by auto
    then obtain i where "i < length (take w ?in)" "a \<in> set (rest (take w ?in ! i))"
      unfolding in_set_conv_nth [of it] by blast
    then show ?thesis using other [of i a] by simp
  qed
  moreover have "\<not> InternalLess b ?x" if b: "b \<in> set ?post" for b
  proof -
    obtain it where "it \<in> set (drop (Suc w) ?in)" "b \<in> set (rest it)" using b by auto
    then obtain i where "i < length (drop (Suc w) ?in)" "b \<in> set (rest (drop (Suc w) ?in ! i))"
      unfolding in_set_conv_nth [of it] by blast
    then show ?thesis using other [of "Suc w + i" b] InternalLess_asym by auto
  qed
  ultimately show ?thesis
    unfolding mi_rest_def split upd using own by (intro sort_versions_least) auto
qed

lemma mi_rest_None: "mi_invar invar rest m \<Longrightarrow> mi_winner m = None \<Longrightarrow> mi_rest rest m = []"
  by (auto simp: mi_invar_def mi_active_def mi_rest_def in_set_conv_nth)

lemma seek_inputs_ok:
  assumes "seek_inputs ops k i its = (kOk, its', heap)" "\<forall>it \<in> set its. invar it"
  shows "(\<forall>it \<in> set its'. invar it) \<and> map all its' = map all its \<and>
     map rest its' = map (\<lambda>it. filter (\<lambda>e. \<not> user_key e < k) (all it)) its \<and>
     distinct heap \<and> set heap = {j. i \<le> j \<and> j < i + length its \<and> rest (its' ! (j - i)) \<noteq> []}"
  using assms
proof (induction its arbitrary: i its' heap)
  case (Cons it its)
  let ?r = "Seek ops k it"
  have ok: "step_error ops ?r = kOk" using Cons.prems(1) by (auto simp: Let_def split: if_splits)
  obtain its1 heap1 where rec: "seek_inputs ops k (Suc i) its = (kOk, its1, heap1)"
    and its': "its' = snd ?r # its1" and heap: "heap = (if Valid ops (snd ?r) then i # heap1 else heap1)"
    using Cons.prems(1) ok by (auto simp: Let_def split: prod.splits)
  note IH = Cons.IH [OF rec]
  note sk = step_error_Seek [OF _ ok]
  have inv: "invar it" using Cons.prems(2) by simp
  have "{j. i \<le> j \<and> j < i + length (it # its) \<and> rest (its' ! (j - i)) \<noteq> []} =
      (if rest (snd ?r) \<noteq> [] then {i} else {}) \<union>
      {j. Suc i \<le> j \<and> j < Suc i + length its \<and> rest (its1 ! (j - Suc i)) \<noteq> []}"
    by (auto simp: its' nth_Cons' le_Suc_eq not_less_eq_eq split: if_splits)
  with IH inv sk Cons.prems(2) show ?case
    by (auto simp: its' heap Valid_rest)
qed simp

lemma mi_Seek_ok:
  assumes inv: "mi_status m = kOk" "\<forall>it \<in> set (mi_inputs m). invar it" and step: "mi_Seek ops k m = (kOk, m')"
  shows "mi_invar invar rest m' \<and> mi_all all m' = mi_all all m \<and>
     mi_rest rest m' = filter (\<lambda>e. \<not> user_key e < k) (mi_all all m)"
proof -
  obtain c its heap where sk: "seek_inputs ops k 0 (mi_inputs m) = (c, its, heap)" by (metis prod_cases3)
  then have c: "c = kOk" using step inv(1) by (auto simp: mi_Seek_def mi_SetError_def Let_def split: if_splits)
  note s = seek_inputs_ok [OF sk [unfolded c] inv(2)]
  define m1 where "m1 = \<lparr>mi_inputs = its, mi_heap = heap, mi_winner = None, mi_previous_key = [],
    mi_previous_sequence = 0, mi_has_previous = False, mi_status = mi_status m\<rparr>"
  have len: "length its = length (mi_inputs m)" using s map_eq_imp_length_eq by blast
  have ready: "mi_ready invar rest m1"
    using s inv(1) len by (auto simp: mi_ready_def m1_def mi_active_def)
  have sel: "SelectCurrent ops m1 = (kOk, m')" using step sk c inv(1) by (simp add: mi_Seek_def m1_def Let_def)
  note r = SelectCurrent_ok(1,2) [OF ready sel]
  have "mi_rest rest m' = sort_versions (concat (map (\<lambda>it. filter (\<lambda>e. \<not> user_key e < k) (all it)) (mi_inputs m)))"
    using r s by (simp add: mi_rest_def m1_def)
  also have "\<dots> = filter (\<lambda>e. \<not> user_key e < k) (mi_all all m)"
    by (simp add: mi_all_def filter_sort_versions filter_concat comp_def)
  finally show ?thesis using r s by (simp add: mi_all_def m1_def)
qed

text \<open>A step of the winner leads to a state ready for the next selection.\<close>

lemma mi_Next_ready:
  assumes inv: "mi_invar invar rest m" and w: "mi_winner m = Some w"
    and ok: "step_error ops (Next ops (mi_inputs m ! w)) = kOk"
  obtains m1 where "mi_ready invar rest m1" "mi_Next ops m = SelectCurrent ops m1"
    "mi_rest rest m = hd (rest (mi_inputs m ! w)) # mi_rest rest m1" "mi_all all m1 = mi_all all m"
    "mi_has_previous m1" "mi_previous_key m1 = user_key (hd (mi_rest rest m))"
    "mi_previous_sequence m1 = sequence (hd (mi_rest rest m))"
proof -
  have st: "mi_status m = kOk" and inputs: "\<forall>it \<in> set (mi_inputs m). invar it" and sel: "mi_selected rest m w"
    using inv w by (simp_all add: mi_invar_def)
  have "w \<in> mi_active rest m" using sel by (auto simp: mi_selected_def)
  note wm = active_mem [OF this inputs]
  let ?r = "Next ops (mi_inputs m ! w)"
  define m1 where "m1 = (let m' = m\<lparr>mi_winner := None, mi_inputs := (mi_inputs m)[w := snd ?r]\<rparr> in
      if Valid ops (snd ?r) then m'\<lparr>mi_heap := mi_heap m @ [w]\<rparr> else m')"
  have select: "mi_Next ops m = SelectCurrent ops m1"
    using ok st w by (simp add: mi_Next_def Let_def m1_def)
  note nx = step_error_Next [OF _ _ ok]
  have in1: "mi_inputs m1 = (mi_inputs m)[w := snd ?r]" by (simp add: m1_def Let_def)
  have ready: "mi_ready invar rest m1"
    unfolding mi_ready_def
  proof (intro conjI)
    show "mi_status m1 = kOk" "mi_winner m1 = None" using st by (simp_all add: m1_def Let_def)
    show "\<forall>it \<in> set (mi_inputs m1). invar it"
      using inputs nx wm in1 set_update_subset_insert by fastforce
    show "distinct (mi_heap m1)" using sel by (auto simp: m1_def Let_def mi_selected_def)
    show "set (mi_heap m1) = mi_active rest m1"
      using sel wm nx by (auto simp: m1_def Let_def mi_selected_def mi_active_def Valid_rest nth_list_update split: if_splits)
  qed
  have rest1: "mi_rest rest m = hd (rest (mi_inputs m ! w)) # mi_rest rest m1"
    using mi_rest_winner [OF inv w] nx wm in1 by (simp add: mi_rest_def map_update)
  have all1: "mi_all all m1 = mi_all all m"
    using in1 nx(2) wm list_update_id [of "map all (mi_inputs m)" w] by (simp add: mi_all_def map_update)
  have prev: "mi_has_previous m1" "mi_previous_key m1 = user_key (hd (mi_rest rest m))"
    "mi_previous_sequence m1 = sequence (hd (mi_rest rest m))"
    using sel rest1 by (simp_all add: m1_def Let_def mi_selected_def)
  show thesis by (rule that [OF ready select rest1 all1 prev])
qed

lemma mi_Next_ok:
  assumes inv: "mi_invar invar rest m" and ne: "mi_rest rest m \<noteq> []" and step: "mi_Next ops m = (kOk, m')"
  shows "mi_invar invar rest m' \<and> mi_all all m' = mi_all all m \<and> mi_rest rest m' = tl (mi_rest rest m) \<and>
     (mi_rest rest m' \<noteq> [] \<longrightarrow> InternalLess (hd (mi_rest rest m)) (hd (mi_rest rest m')))"
proof -
  obtain w where w: "mi_winner m = Some w" using ne mi_rest_None [OF inv] by (cases "mi_winner m") auto
  have "mi_status m = kOk" using inv by (simp add: mi_invar_def)
  then have ok: "step_error ops (Next ops (mi_inputs m ! w)) = kOk"
    using step w by (auto simp: mi_Next_def mi_SetError_def Let_def split: if_splits)
  obtain m1 where ready: "mi_ready invar rest m1" and select: "SelectCurrent ops m1 = (kOk, m')"
    and m1: "mi_rest rest m = hd (rest (mi_inputs m ! w)) # mi_rest rest m1" "mi_all all m1 = mi_all all m"
    "mi_has_previous m1" "mi_previous_key m1 = user_key (hd (mi_rest rest m))"
    "mi_previous_sequence m1 = sequence (hd (mi_rest rest m))"
    using mi_Next_ready [OF inv w ok] step by metis
  note r = SelectCurrent_ok [OF ready select]
  have rest': "mi_rest rest m' = mi_rest rest m1" and all': "mi_all all m' = mi_all all m"
    using r(2) m1(2) by (simp_all add: mi_rest_def mi_all_def)
  have strict: "InternalLess (hd (mi_rest rest m)) (hd (mi_rest rest m'))" if more: "mi_rest rest m' \<noteq> []"
  proof -
    obtain v where v: "mi_winner m' = Some v" using more mi_rest_None [OF r(1)] by (cases "mi_winner m'") auto
    have hd': "hd (mi_rest rest m') = hd (rest (mi_inputs m' ! v))"
      using mi_rest_winner [OF r(1) v] by simp
    have "\<not> same_version (hd (mi_rest rest m')) (hd (mi_rest rest m))"
      using r(3) [OF v m1(3)] m1(4,5) hd' r(2) by (auto simp: same_version_def)
    moreover have "\<not> InternalLess (hd (mi_rest rest m')) (hd (mi_rest rest m))"
      using more rest' m1(1) weakly_ordered_sort [of "concat (map rest (mi_inputs m))"]
      by (simp add: mi_rest_def [symmetric])
    ultimately show ?thesis using InternalLess_linear same_version_sym by blast
  qed
  show ?thesis using r(1) m1(1) rest' all' strict by simp
qed

text \<open>The merge satisfies the contract it is built on.\<close>

lemma merging_iterator:
  "internal_iterator (merging_ops ops) (mi_invar invar rest) (mi_all all) (mi_rest rest)"
proof
  fix m m' k
  assume inv: "mi_invar invar rest m"
  show "status (merging_ops ops) m = kOk" using inv by (simp add: merging_ops_def mi_invar_def)
  have winner: "mi_winner m = None \<longleftrightarrow> mi_rest rest m = []"
    using mi_rest_None [OF inv] mi_rest_winner [OF inv] by (cases "mi_winner m") auto
  then show "Valid (merging_ops ops) m \<longleftrightarrow> mi_rest rest m \<noteq> []"
    using inv by (simp add: merging_ops_def mi_Valid_def mi_invar_def)
  show "entry (merging_ops ops) m = hd (mi_rest rest m)" if ne: "mi_rest rest m \<noteq> []"
  proof -
    obtain w where w: "mi_winner m = Some w" using ne winner by auto
    then have "w \<in> mi_active rest m" "\<forall>it \<in> set (mi_inputs m). invar it"
      using inv by (auto simp: mi_invar_def mi_selected_def)
    then show ?thesis
      using w mi_rest_winner [OF inv w] active_mem by (simp add: merging_ops_def mi_entry_def)
  qed
  show "weakly_ordered (mi_all all m)" "weakly_ordered (mi_rest rest m)"
    by (simp_all add: mi_all_def mi_rest_def)
  show "mi_invar invar rest m' \<and> mi_all all m' = mi_all all m \<and>
      mi_rest rest m' = filter (\<lambda>e. \<not> user_key e < k) (mi_all all m)"
    if "Seek (merging_ops ops) k m = (kOk, m')"
    using that inv mi_Seek_ok [of m k m'] by (simp add: merging_ops_def mi_invar_def)
  show "mi_invar invar rest m' \<and> mi_all all m' = mi_all all m \<and> mi_rest rest m' = tl (mi_rest rest m)"
    if "mi_rest rest m \<noteq> []" "Next (merging_ops ops) m = (kOk, m')"
    using that mi_Next_ok [OF inv] by (simp add: merging_ops_def)
qed

lemma NewMergingIterator_ok:
  assumes "NewMergingIterator ops inputs = Ok m" "\<forall>it \<in> set inputs. invar it"
  shows "mi_invar invar rest m \<and> mi_rest rest m = sort_versions (concat (map all inputs))"
  using assms mi_Seek_ok [of "\<lparr>mi_inputs = inputs, mi_heap = [], mi_winner = None, mi_previous_key = [],
             mi_previous_sequence = 0, mi_has_previous = False, mi_status = kOk\<rparr>" "[]" m]
  by (auto simp: NewMergingIterator_def mi_all_def split: prod.splits if_splits)

text \<open>What a run of the merge delivers is strictly ordered, whether or not it ends in an error.\<close>

lemma merge_collect_ordered:
  assumes "mi_invar invar rest m" "collect (merging_ops ops) n m = (es, c)"
  shows "ordered es \<and> (es \<noteq> [] \<longrightarrow> mi_rest rest m \<noteq> [] \<and> hd es = hd (mi_rest rest m))"
  using assms
proof (induction n arbitrary: m es c)
  case (Suc n)
  note mi = internal_iterator.Valid_rest [OF merging_iterator Suc.prems(1)]
    internal_iterator.entry_rest [OF merging_iterator Suc.prems(1)]
  show ?case
  proof (cases "mi_rest rest m = []")
    case False
    let ?r = "Next (merging_ops ops) m"
    show ?thesis
    proof (cases "step_error (merging_ops ops) ?r = kOk")
      case True
      then have "mi_Next ops m = (kOk, snd ?r)"
        by (auto simp: step_error_def merging_ops_def prod_eq_iff split: if_splits)
      note nx = mi_Next_ok [OF Suc.prems(1) False this]
      obtain es' where c: "collect (merging_ops ops) n (snd ?r) = (es', c)" "es = hd (mi_rest rest m) # es'"
        using Suc.prems(2) mi False True by (auto simp: Let_def split: prod.splits)
      have "ordered es'" "es' \<noteq> [] \<longrightarrow> InternalLess (hd (mi_rest rest m)) (hd es')"
        using Suc.IH [OF _ c(1)] nx by auto
      then show ?thesis using c(2) False by (cases es') (auto intro: InternalLess_trans)
    qed (use Suc.prems(2) mi False in \<open>auto simp: Let_def\<close>)
  qed (use Suc.prems(2) mi in auto)
qed simp

end

section \<open>Duplicate detection\<close>

lemma distinct_concat_positions:
  assumes "distinct (map f (concat xs))" "i < length xs" "j < length xs" "a \<in> set (xs ! i)" "b \<in> set (xs ! j)" "f a = f b"
  shows "i = j"
  using assms
proof (induction xs arbitrary: i j)
  case (Cons x xs)
  have "f a \<notin> f ` set (concat xs)" if "a \<in> set x" for a using that Cons.prems(1) by auto
  moreover have "xs ! k \<in> set xs" if "k < length xs" for k using that by simp
  ultimately show ?case
    using Cons by (cases i; cases j) (auto simp del: set_concat simp: image_iff, force+)
qed simp

context reliable_iterator
begin

lemma seek_inputs_total:
  "\<forall>it \<in> set its. invar it \<Longrightarrow> fst (seek_inputs ops k i its) = kOk"
proof (induction its arbitrary: i)
  case (Cons it its)
  then have "step_error ops (Seek ops k it) = kOk"
    using Seek_total [of it k] by (auto simp: step_error_def)
  moreover have "fst (seek_inputs ops k (Suc i) its) = kOk" using Cons by simp
  ultimately show ?case by (auto simp: Let_def split: prod.splits)
qed simp

lemma SelectCurrent_error:
  assumes ready: "mi_ready invar rest m" and step: "SelectCurrent ops m = (c, m')" "c \<noteq> kOk"
  shows "c = kCorruption \<and>
    ((\<exists>i j. i \<noteq> j \<and> i \<in> mi_active rest m \<and> j \<in> mi_active rest m \<and>
       same_version (hd (rest (mi_inputs m ! i))) (hd (rest (mi_inputs m ! j)))) \<or>
     (mi_has_previous m \<and> (\<exists>i \<in> mi_active rest m.
       user_key (hd (rest (mi_inputs m ! i))) = mi_previous_key m \<and>
       sequence (hd (rest (mi_inputs m ! i))) = mi_previous_sequence m)))"
proof -
  have inputs: "\<forall>it \<in> set (mi_inputs m). invar it" and active: "set (mi_heap m) = mi_active rest m"
    and dist: "distinct (mi_heap m)" using ready by (simp_all add: mi_ready_def)
  obtain i "is" where heap: "mi_heap m = i # is"
    using step by (cases "mi_heap m") (auto simp: SelectCurrent_def)
  define v where "v = heap_top (HeapCompare ops (mi_inputs m)) i is"
  have v: "v \<in> set (mi_heap m)" using heap_top_in [of _ i "is"] heap by (simp add: v_def)
  have ent: "entry ops (mi_inputs m ! j) = hd (rest (mi_inputs m ! j))" if "j \<in> set (mi_heap m)" for j
    using that active active_mem [OF _ inputs] by blast
  have other: "j \<in> set (mi_heap m) \<and> j \<noteq> v" if "j \<in> set (remove1 v (mi_heap m))" for j
    using that dist by (auto simp: set_remove1_eq)
  consider (dup) "list_ex (\<lambda>j. user_key (entry ops (mi_inputs m ! j)) = user_key (entry ops (mi_inputs m ! v)) \<and>
        sequence (entry ops (mi_inputs m ! j)) = sequence (entry ops (mi_inputs m ! v))) (remove1 v (mi_heap m))"
    | (prev) "mi_has_previous m" "user_key (entry ops (mi_inputs m ! v)) = mi_previous_key m"
        "sequence (entry ops (mi_inputs m ! v)) = mi_previous_sequence m"
    using step heap
    by (auto simp: SelectCurrent_def Let_def v_def [symmetric] simp del: remove1.simps split: if_splits)
  moreover have "c = kCorruption"
    using step heap by (auto simp: SelectCurrent_def mi_SetError_def Let_def split: if_splits)
  ultimately show ?thesis
  proof cases
    case dup
    then obtain j where "j \<in> set (remove1 v (mi_heap m))"
      "same_version (entry ops (mi_inputs m ! j)) (entry ops (mi_inputs m ! v))"
      by (auto simp: list_ex_iff same_version_def)
    then show ?thesis using other [of j] ent v active \<open>c = kCorruption\<close> by metis
  next
    case prev
    then show ?thesis using ent [OF v] v active \<open>c = kCorruption\<close> by auto
  qed
qed

lemma SelectCurrent_total:
  assumes ready: "mi_ready invar rest m" and nodup: "no_duplicates (concat (map rest (mi_inputs m)))"
    and prev: "mi_has_previous m \<Longrightarrow> \<forall>e \<in> set (concat (map rest (mi_inputs m))).
      \<not> (user_key e = mi_previous_key m \<and> sequence e = mi_previous_sequence m)"
  shows "fst (SelectCurrent ops m) = kOk"
proof (rule ccontr)
  let ?in = "mi_inputs m"
  assume "fst (SelectCurrent ops m) \<noteq> kOk"
  then consider i j where "i \<noteq> j" "i \<in> mi_active rest m" "j \<in> mi_active rest m"
      "same_version (hd (rest (?in ! i))) (hd (rest (?in ! j)))"
    | i where "mi_has_previous m" "i \<in> mi_active rest m" "user_key (hd (rest (?in ! i))) = mi_previous_key m"
      "sequence (hd (rest (?in ! i))) = mi_previous_sequence m"
    using SelectCurrent_error [OF ready prod.collapse [symmetric]] by blast
  then show False
  proof cases
    case 1
    then show False
      using distinct_concat_positions [OF nodup [unfolded no_duplicates_def], of i j "hd (rest (?in ! i))" "hd (rest (?in ! j))"]
      by (auto simp: mi_active_def same_version_def)
  next
    case 2
    then have "hd (rest (?in ! i)) \<in> set (concat (map rest ?in))"
      by (auto simp: mi_active_def intro!: bexI [of _ "?in ! i"])
    with 2 prev show False by blast
  qed
qed

lemma mi_Next_total:
  assumes inv: "mi_invar invar rest m" and ne: "mi_rest rest m \<noteq> []" and step: "mi_Next ops m = (c, m')"
  shows "c = kOk \<or> c = kCorruption" "no_duplicates (mi_rest rest m) \<Longrightarrow> c = kOk"
proof -
  obtain w where w: "mi_winner m = Some w" using ne mi_rest_None [OF inv] by (cases "mi_winner m") auto
  then have "w \<in> mi_active rest m" "\<forall>it \<in> set (mi_inputs m). invar it"
    using inv by (auto simp: mi_invar_def mi_selected_def)
  then have ok: "step_error ops (Next ops (mi_inputs m ! w)) = kOk"
    using active_mem Next_total by (force simp: step_error_def)
  obtain m1 where ready: "mi_ready invar rest m1" and select: "SelectCurrent ops m1 = (c, m')"
    and m1: "mi_rest rest m = hd (rest (mi_inputs m ! w)) # mi_rest rest m1"
    "mi_has_previous m1" "mi_previous_key m1 = user_key (hd (mi_rest rest m))"
    "mi_previous_sequence m1 = sequence (hd (mi_rest rest m))"
    using mi_Next_ready [OF inv w ok] step by metis
  show "c = kOk \<or> c = kCorruption" using SelectCurrent_error [OF ready select] by blast
  show "c = kOk" if nodup: "no_duplicates (mi_rest rest m)"
  proof -
    let ?x = "hd (mi_rest rest m)" and ?es = "concat (map rest (mi_inputs m1))"
    have "no_duplicates (?x # sort_versions ?es)" using nodup m1(1) by (simp add: mi_rest_def [of _ m1])
    then have "no_duplicates ?es" "\<forall>e \<in> set ?es. \<not> (user_key e = user_key ?x \<and> sequence e = sequence ?x)"
      by (auto simp: no_duplicates_def image_iff simp del: set_concat)
    then have "fst (SelectCurrent ops m1) = kOk" using m1 by (intro SelectCurrent_total [OF ready]) simp_all
    with select show ?thesis by simp
  qed
qed

text \<open>
  Draining a merge of reliable inputs ends either with every entry in strict order, or with
  \<open>kCorruption\<close> exactly when two of the entries are the same version.
\<close>

lemma merge_collect_cases:
  assumes "mi_invar invar rest m" "collect (merging_ops ops) n m = (es, c)"
  shows "(c = kOk \<or> c = kCorruption) \<and> (no_duplicates (mi_rest rest m) \<longrightarrow> c = kOk)"
  using assms
proof (induction n arbitrary: m es c)
  case (Suc n)
  note mi = internal_iterator.Valid_rest [OF merging_iterator Suc.prems(1)]
    internal_iterator.healthy [OF merging_iterator Suc.prems(1)]
  let ?r = "Next (merging_ops ops) m"
  show ?case
  proof (cases "mi_rest rest m = []")
    case ne: False
    note tot = mi_Next_total [OF Suc.prems(1) ne prod.collapse [symmetric]]
    have fst_r: "fst ?r = fst (mi_Next ops m)" "snd ?r = snd (mi_Next ops m)" by (simp_all add: merging_ops_def)
    show ?thesis
    proof (cases "fst ?r = kOk")
      case True
      then have nx: "mi_Next ops m = (kOk, snd ?r)" using fst_r by (simp add: prod_eq_iff)
      note step = mi_Next_ok [OF Suc.prems(1) ne nx]
      then have st: "step_error (merging_ops ops) ?r = kOk"
        using True internal_iterator.healthy [OF merging_iterator] by (simp add: step_error_def)
      obtain es' where "collect (merging_ops ops) n (snd ?r) = (es', c)"
        using Suc.prems(2) mi ne st by (auto simp: Let_def split: prod.splits)
      moreover have "no_duplicates (mi_rest rest m) \<Longrightarrow> no_duplicates (mi_rest rest (snd ?r))"
        using step by (simp add: no_duplicates_def distinct_tl map_tl)
      ultimately show ?thesis using Suc.IH step by blast
    next
      case False
      then have "c = fst ?r" using Suc.prems(2) mi ne by (auto simp: Let_def step_error_def split: if_splits)
      with False tot fst_r show ?thesis by auto
    qed
  qed (use Suc.prems(2) mi in auto)
next
  case 0
  then show ?case using internal_iterator.healthy [OF merging_iterator 0(1)] by simp
qed

lemma merge_complete:
  assumes inv: "mi_invar invar rest m" and n: "length (mi_rest rest m) \<le> n"
  shows "snd (collect (merging_ops ops) n m) = (if no_duplicates (mi_rest rest m) then kOk else kCorruption)"
    "no_duplicates (mi_rest rest m) \<Longrightarrow> collect (merging_ops ops) n m = (mi_rest rest m, kOk)"
proof -
  obtain es c where r: "collect (merging_ops ops) n m = (es, c)" by fastforce
  have full: "es = mi_rest rest m" if "c = kOk"
    using internal_iterator.collect_ok [OF merging_iterator inv, of n es] r that n by simp
  moreover have "ordered es" using merge_collect_ordered [OF inv r] by blast
  ultimately have "no_duplicates (mi_rest rest m)" if "c = kOk"
    using that by (simp add: ordered_iff_no_duplicates)
  with merge_collect_cases [OF inv r] r
  show "snd (collect (merging_ops ops) n m) = (if no_duplicates (mi_rest rest m) then kOk else kCorruption)" by auto
  show "no_duplicates (mi_rest rest m) \<Longrightarrow> collect (merging_ops ops) n m = (mi_rest rest m, kOk)"
    using merge_collect_cases [OF inv r] r full by auto
qed

lemma NewMergingIterator_total:
  assumes "\<forall>it \<in> set inputs. invar it" "no_duplicates (concat (map all inputs))"
  shows "\<exists>m. NewMergingIterator ops inputs = Ok m"
proof -
  obtain c its heap where sk: "seek_inputs ops [] 0 inputs = (c, its, heap)" by (metis prod_cases3)
  have c: "c = kOk" using seek_inputs_total [OF assms(1), of "[]" 0] sk by simp
  note s = seek_inputs_ok [OF sk [unfolded c] assms(1)]
  define m1 where "m1 = \<lparr>mi_inputs = its, mi_heap = heap, mi_winner = None, mi_previous_key = [],
    mi_previous_sequence = 0, mi_has_previous = False, mi_status = kOk\<rparr>"
  have len: "length its = length inputs" using s map_eq_imp_length_eq by blast
  have "mi_ready invar rest m1" using s len by (auto simp: mi_ready_def m1_def mi_active_def)
  moreover have "map rest its = map all inputs" using s by simp
  ultimately have "fst (SelectCurrent ops m1) = kOk"
    using assms(2) by (intro SelectCurrent_total) (simp_all add: m1_def)
  then show ?thesis
    by (auto simp: NewMergingIterator_def mi_Seek_def sk c m1_def Let_def split: prod.splits)
qed

end

text \<open>
  Over inputs that cannot fail and that share no version, the merge cannot fail either.
\<close>

lemma no_duplicates_filter: "no_duplicates xs \<Longrightarrow> no_duplicates (filter P xs)"
  by (simp add: no_duplicates_def distinct_map inj_on_def)

context reliable_iterator
begin

lemma mi_Seek_total:
  assumes st: "mi_status m = kOk" and inv: "\<forall>it \<in> set (mi_inputs m). invar it"
    and nodup: "no_duplicates (concat (map all (mi_inputs m)))"
  shows "fst (mi_Seek ops k m) = kOk"
proof -
  obtain c its heap where sk: "seek_inputs ops k 0 (mi_inputs m) = (c, its, heap)" by (metis prod_cases3)
  have c: "c = kOk" using seek_inputs_total [OF inv, of k 0] sk by simp
  note s = seek_inputs_ok [OF sk [unfolded c] inv]
  define m1 where "m1 = \<lparr>mi_inputs = its, mi_heap = heap, mi_winner = None, mi_previous_key = [],
    mi_previous_sequence = 0, mi_has_previous = False, mi_status = mi_status m\<rparr>"
  have len: "length its = length (mi_inputs m)" using s map_eq_imp_length_eq by blast
  have "mi_ready invar rest m1" using s len st by (auto simp: mi_ready_def m1_def mi_active_def)
  moreover have "concat (map rest its) = filter (\<lambda>e. \<not> user_key e < k) (concat (map all (mi_inputs m)))"
    using s by (simp add: filter_concat comp_def)
  then have "no_duplicates (concat (map rest (mi_inputs m1)))"
    using nodup by (simp add: m1_def no_duplicates_filter)
  ultimately have "fst (SelectCurrent ops m1) = kOk" by (rule SelectCurrent_total) (simp add: m1_def)
  then show ?thesis using st by (auto simp: mi_Seek_def sk c m1_def Let_def split: prod.splits)
qed

lemma merging_reliable:
  "reliable_iterator (merging_ops ops)
     (\<lambda>m. mi_invar invar rest m \<and> no_duplicates (mi_all all m) \<and> no_duplicates (mi_rest rest m)) (mi_all all) (mi_rest rest)"
proof
  note mi = internal_iterator.healthy [OF merging_iterator] internal_iterator.Valid_rest [OF merging_iterator]
    internal_iterator.entry_rest [OF merging_iterator] internal_iterator.all_ordered [OF merging_iterator]
    internal_iterator.rest_ordered [OF merging_iterator]
  fix m m' k
  assume inv: "mi_invar invar rest m \<and> no_duplicates (mi_all all m) \<and> no_duplicates (mi_rest rest m)"
  show "status (merging_ops ops) m = kOk" "Valid (merging_ops ops) m \<longleftrightarrow> mi_rest rest m \<noteq> []"
    "weakly_ordered (mi_all all m)" "weakly_ordered (mi_rest rest m)"
    using mi inv by blast+
  show "entry (merging_ops ops) m = hd (mi_rest rest m)" if "mi_rest rest m \<noteq> []" using mi(3) inv that by blast
  show "(mi_invar invar rest m' \<and> no_duplicates (mi_all all m') \<and> no_duplicates (mi_rest rest m')) \<and>
      mi_all all m' = mi_all all m \<and> mi_rest rest m' = filter (\<lambda>e. \<not> user_key e < k) (mi_all all m)"
    if "Seek (merging_ops ops) k m = (kOk, m')" "status (merging_ops ops) m' = kOk"
    using internal_iterator.Seek_ok [OF merging_iterator _ that] inv no_duplicates_filter by auto
  show "(mi_invar invar rest m' \<and> no_duplicates (mi_all all m') \<and> no_duplicates (mi_rest rest m')) \<and>
      mi_all all m' = mi_all all m \<and> mi_rest rest m' = tl (mi_rest rest m)"
    if "mi_rest rest m \<noteq> []" "Next (merging_ops ops) m = (kOk, m')" "status (merging_ops ops) m' = kOk"
    using internal_iterator.Next_ok [OF merging_iterator _ that] inv by (auto simp: no_duplicates_def map_tl distinct_tl)
  have seek: "fst (Seek (merging_ops ops) k m) = kOk"
    using mi_Seek_total [of m k] inv by (auto simp: merging_ops_def mi_invar_def mi_all_def no_duplicates_def)
  then show "\<exists>m'. Seek (merging_ops ops) k m = (kOk, m') \<and> status (merging_ops ops) m' = kOk"
    using inv mi_Seek_ok [of m k "snd (mi_Seek ops k m)"]
    by (auto simp: merging_ops_def mi_invar_def prod_eq_iff intro!: exI [of _ "snd (mi_Seek ops k m)"])
  show "\<exists>m'. Next (merging_ops ops) m = (kOk, m') \<and> status (merging_ops ops) m' = kOk" if ne: "mi_rest rest m \<noteq> []"
  proof -
    obtain c m' where nx: "mi_Next ops m = (c, m')" by fastforce
    have c: "c = kOk" using mi_Next_total(2) [OF _ ne nx] inv by blast
    have "mi_invar invar rest m'" using mi_Next_ok [OF conjunct1 [OF inv] ne nx [unfolded c]] by blast
    then show ?thesis using nx c by (auto simp: merging_ops_def mi_invar_def)
  qed
qed

end

section \<open>Properties\<close>

text \<open>
  C30: Merging captured runs: draining the merge of any number of sorted vectors yields all of their
  entries in internal order when no version occurs twice, and ends in \<open>kCorruption\<close> exactly when one
  does. No run is skipped, reordered or truncated.
\<close>

theorem merge_is_complete:
  assumes "NewMergingIterator vector_ops its = Ok m" "\<forall>it \<in> set its. vi_invar it" "length (concat (map vi_all its)) \<le> n"
  shows "snd (collect (merging_ops vector_ops) n m) = (if no_duplicates (concat (map vi_all its)) then kOk else kCorruption) \<and>
    (no_duplicates (concat (map vi_all its)) \<longrightarrow>
       fst (collect (merging_ops vector_ops) n m) = sort_versions (concat (map vi_all its)))"
proof -
  have m: "mi_invar vi_invar vi_rest m" "mi_rest vi_rest m = sort_versions (concat (map vi_all its))"
    using vector_iterator.NewMergingIterator_ok [OF assms(1,2)] by blast+
  have "no_duplicates (mi_rest vi_rest m) = no_duplicates (concat (map vi_all its))" by (simp add: m(2) no_duplicates_def)
  then show ?thesis using vector_iterator.merge_complete [OF m(1), of n] assms(3) m(2) by auto
qed

theorem merge_is_complete_witness:
  "\<exists>m. NewMergingIterator vector_ops
     [\<lparr>vi_entries = [\<lparr>user_key = [2], sequence = 1, etype = kValue, evalue = [7]\<rparr>], vi_end = [], vi_index = 0, vi_status = kOk\<rparr>,
      \<lparr>vi_entries = [\<lparr>user_key = [1], sequence = 5, etype = kValue, evalue = [8]\<rparr>], vi_end = [], vi_index = 0, vi_status = kOk\<rparr>] = Ok m \<and>
     fst (collect (merging_ops vector_ops) 2 m) =
       [\<lparr>user_key = [1], sequence = 5, etype = kValue, evalue = [8]\<rparr>, \<lparr>user_key = [2], sequence = 1, etype = kValue, evalue = [7]\<rparr>]"
proof -
  let ?its = "[\<lparr>vi_entries = [\<lparr>user_key = [2], sequence = 1, etype = kValue, evalue = [7]\<rparr>], vi_end = [], vi_index = 0, vi_status = kOk\<rparr>,
      \<lparr>vi_entries = [\<lparr>user_key = [1], sequence = 5, etype = kValue, evalue = [8]\<rparr>], vi_end = [], vi_index = 0, vi_status = kOk\<rparr>] :: VectorIterator list"
  have inv: "\<forall>it \<in> set ?its. vi_invar it" by (simp add: vi_invar_def)
  have nodup: "no_duplicates (concat (map vi_all ?its))" by (simp add: vi_all_def before_end_def no_duplicates_def)
  obtain m where m: "NewMergingIterator vector_ops ?its = Ok m" using vector_iterator.NewMergingIterator_total [OF inv nodup] by blast
  have "fst (collect (merging_ops vector_ops) 2 m) = sort_versions (concat (map vi_all ?its))"
    using merge_is_complete [OF m inv, of 2] nodup by (simp add: vi_all_def before_end_def)
  then show ?thesis using m by (simp add: vi_all_def before_end_def InternalLess_iff)
qed

end
