(* ===== verification/Visibility_Iterator.thy ===== *)
theory Visibility_Iterator
  imports Iterators
begin

text \<open>
  \<open>VisibilityIterator\<close> of \<open>src/iterator/internal_iterator.cpp\<close>: from an input that delivers all
  versions in internal order, the value each key has at a sequence number. The loops run as long
  as the input stays valid, so they are partial functions whose value \<open>None\<close> stands for not
  returning; against the iterator contract they always return. The reference is
  \<open>visible_entries\<close>, the entries that the visibility specification selects and that are no
  tombstones.
\<close>

section \<open>State and operations\<close>

record 'i VisibilityIterator =
  vis_input :: 'i
  vis_sequence :: u64
  vis_valid :: bool
  vis_status :: StatusCode

definition vis_Valid :: "'i VisibilityIterator \<Rightarrow> bool" where
  "vis_Valid v = (vis_status v = kOk \<and> vis_valid v)"

definition vis_entry :: "'i InternalIterator \<Rightarrow> 'i VisibilityIterator \<Rightarrow> InternalEntry" where
  "vis_entry ops v = entry ops (vis_input v)"

text \<open>
  The inner loop of \<open>AdvanceToVisible\<close> over the versions of one key: the error or success, whether
  a value was found, and where the input stands.
\<close>

partial_function (option) scan_key ::
  "'i InternalIterator \<Rightarrow> u64 \<Rightarrow> bytes \<Rightarrow> bool \<Rightarrow> 'i \<Rightarrow> (StatusCode \<times> bool \<times> 'i) option" where
  "scan_key ops n key has_visible_version it =
     (if \<not> (Valid ops it \<and> user_key (entry ops it) = key) then Some (kOk, False, it)
      else if \<not> has_visible_version \<and> sequence (entry ops it) \<le> n \<and> etype (entry ops it) = kValue
      then Some (kOk, True, it)
      else
        let seen = has_visible_version \<or> sequence (entry ops it) \<le> n; r = Next ops it in
        if step_error ops r \<noteq> kOk then Some (step_error ops r, False, snd r)
        else scan_key ops n key seen (snd r))"

partial_function (option) AdvanceToVisible ::
  "'i InternalIterator \<Rightarrow> u64 \<Rightarrow> 'i \<Rightarrow> (StatusCode \<times> bool \<times> 'i) option" where
  "AdvanceToVisible ops n it =
     (if \<not> Valid ops it then Some (kOk, False, it)
      else Option.bind (scan_key ops n (user_key (entry ops it)) False it) (\<lambda>(c, found, it').
        if c \<noteq> kOk \<or> found then Some (c, found, it') else AdvanceToVisible ops n it'))"

text \<open>The loop of \<open>Next\<close> that leaves the versions of the current key.\<close>

partial_function (option) skip_key ::
  "'i InternalIterator \<Rightarrow> bytes \<Rightarrow> 'i \<Rightarrow> (StatusCode \<times> 'i) option" where
  "skip_key ops previous_key it =
     (if Valid ops it \<and> user_key (entry ops it) = previous_key
      then let r = Next ops it in
        if step_error ops r \<noteq> kOk then Some (step_error ops r, snd r)
        else skip_key ops previous_key (snd r)
      else Some (kOk, it))"

definition vis_SetError :: "StatusCode \<Rightarrow> 'i VisibilityIterator \<Rightarrow> StatusCode \<times> 'i VisibilityIterator" where
  "vis_SetError c v = (c, v\<lparr>vis_status := c, vis_valid := False\<rparr>)"

definition vis_advance ::
  "'i InternalIterator \<Rightarrow> 'i VisibilityIterator \<Rightarrow> (StatusCode \<times> 'i VisibilityIterator) option" where
  "vis_advance ops v =
     Option.bind (AdvanceToVisible ops (vis_sequence v) (vis_input v)) (\<lambda>(c, found, it).
       if c \<noteq> kOk then Some (vis_SetError c (v\<lparr>vis_input := it\<rparr>))
       else Some (kOk, v\<lparr>vis_input := it, vis_valid := vis_valid v \<or> found\<rparr>))"

definition vis_Seek ::
  "'i InternalIterator \<Rightarrow> bytes \<Rightarrow> 'i VisibilityIterator \<Rightarrow> (StatusCode \<times> 'i VisibilityIterator) option" where
  "vis_Seek ops target v =
     (if vis_status v \<noteq> kOk then Some (vis_status v, v)
      else
        let r = Seek ops target (vis_input v);
            v' = v\<lparr>vis_valid := False, vis_input := snd r\<rparr> in
        if step_error ops r \<noteq> kOk then Some (vis_SetError (step_error ops r) v')
        else vis_advance ops v')"

definition vis_Next ::
  "'i InternalIterator \<Rightarrow> 'i VisibilityIterator \<Rightarrow> (StatusCode \<times> 'i VisibilityIterator) option" where
  "vis_Next ops v =
     (if vis_status v \<noteq> kOk then Some (vis_status v, v)
      else if \<not> vis_valid v then Some (kOk, v)
      else
        let previous_key = user_key (entry ops (vis_input v)) in
        Option.bind (skip_key ops previous_key (vis_input v)) (\<lambda>(c, it).
          let v' = v\<lparr>vis_valid := False, vis_input := it\<rparr> in
          if c \<noteq> kOk then Some (vis_SetError c v') else vis_advance ops v'))"

definition NewVisibilityIterator ::
  "'i InternalIterator \<Rightarrow> 'i option \<Rightarrow> u64 \<Rightarrow> 'i VisibilityIterator result option" where
  "NewVisibilityIterator ops input n =
     (case input of
        None \<Rightarrow> Some (Err kInvalidArgument)
      | Some it \<Rightarrow>
          Option.bind (vis_advance ops \<lparr>vis_input = it, vis_sequence = n, vis_valid = False, vis_status = kOk\<rparr>)
            (\<lambda>(c, v). Some (if c \<noteq> kOk then Err c else Ok v)))"

section \<open>The reference\<close>

text \<open>
  One pass over the versions: \<open>d\<close> is the key that has been decided last. A version is delivered when
  it is the first of its key that the reader may see, and a value.
\<close>

fun visible_from :: "u64 \<Rightarrow> bytes option \<Rightarrow> InternalEntry list \<Rightarrow> InternalEntry list" where
  "visible_from n d [] = []"
| "visible_from n d (e # es) =
     (if d = Some (user_key e) \<or> n < sequence e then visible_from n d es
      else (if etype e = kValue then [e] else []) @ visible_from n (Some (user_key e)) es)"

definition visible_entries :: "u64 \<Rightarrow> InternalEntry list \<Rightarrow> InternalEntry list" where
  "visible_entries n es = visible_from n None es"

lemma visible_from_subset: "set (visible_from n d es) \<subseteq> set es"
  by (induction n d es rule: visible_from.induct) auto

lemma visible_from_absent:
  "\<forall>e \<in> set es. d \<noteq> Some (user_key e) \<Longrightarrow> visible_from n d es = visible_from n None es"
  by (induction es) auto

lemma visible_from_skip:
  "visible_from n (Some k) es = visible_from n (Some k) (dropWhile (\<lambda>e. user_key e = k) es)"
  by (induction es) auto

lemma dropWhile_key_absent:
  assumes "weakly_ordered (e # es)" "e' \<in> set (dropWhile (\<lambda>x. user_key x = user_key e) es)"
  shows "user_key e < user_key e'"
proof -
  let ?r = "dropWhile (\<lambda>x. user_key x = user_key e) es"
  obtain y ys where r: "?r = y # ys" using assms(2) by (cases ?r) auto
  then have "y \<in> set ?r" by simp
  then have y: "y \<in> set es" by (rule set_dropWhileD)
  have y': "user_key y \<noteq> user_key e"
    using hd_dropWhile [of "\<lambda>x. user_key x = user_key e" es] r by simp
  have "sorted (map user_key (e # es))" by (rule weakly_ordered_keys [OF assms(1)])
  then have ey: "user_key e \<le> user_key y" and "sorted (map user_key es)" using y by auto
  then have "sorted (map user_key ?r)" by (metis dropWhile_eq_drop drop_map sorted_wrt_drop)
  then have "user_key y \<le> user_key e'" using assms(2) r by auto
  with ey y' show ?thesis by simp
qed

lemma visible_from_next_key:
  assumes "weakly_ordered (e # es)" "user_key e = k"
  shows "visible_from n (Some k) es = visible_entries n (dropWhile (\<lambda>x. user_key x = k) es)"
proof -
  have "visible_from n (Some k) es = visible_from n (Some k) (dropWhile (\<lambda>x. user_key x = k) es)"
    by (rule visible_from_skip)
  also have "\<dots> = visible_from n None (dropWhile (\<lambda>x. user_key x = k) es)"
    using dropWhile_key_absent [OF assms(1)] assms(2) by (intro visible_from_absent) (auto dest: less_imp_neq)
  finally show ?thesis by (simp add: visible_entries_def)
qed

text \<open>The reference delivers what the visibility specification selects, each key once.\<close>

lemma find_version_Cons:
  "find_version (x # es) k n = (if user_key x = k \<and> sequence x \<le> n then Some x else find_version es k n)"
  by (simp add: find_version_def)

lemma find_version_in: "find_version es k n = Some e \<Longrightarrow> e \<in> set es \<and> user_key e = k \<and> sequence e \<le> n"
  unfolding find_version_def by (drule find_Some_in) simp

lemma visible_from_find:
  assumes "ordered es" "\<forall>k. d = Some k \<longrightarrow> (\<forall>e \<in> set es. k \<le> user_key e)"
  shows "e \<in> set (visible_from n d es) \<longleftrightarrow>
     d \<noteq> Some (user_key e) \<and> find_version es (user_key e) n = Some e \<and> etype e = kValue"
  using assms
proof (induction es arbitrary: d)
  case (Cons x es)
  have le: "user_key x \<le> user_key y" if "y \<in> set es" for y
    using Cons.prems(1) that by (auto simp: InternalLess_iff)
  show ?case
  proof (cases "d = Some (user_key x) \<or> n < sequence x")
    case True
    with Cons show ?thesis by (auto simp: find_version_Cons)
  next
    case False
    have IH: "e \<in> set (visible_from n (Some (user_key x)) es) \<longleftrightarrow>
        user_key x \<noteq> user_key e \<and> find_version es (user_key e) n = Some e \<and> etype e = kValue"
      using Cons.IH [of "Some (user_key x)"] Cons.prems le by simp
    have "d \<noteq> Some (user_key e)" if f: "find_version es (user_key e) n = Some e" "user_key x \<noteq> user_key e"
      using le [of e] find_version_in [OF f(1)] f(2) Cons.prems(2) by (metis list.set_intros(1) order.antisym)
    with False IH show ?thesis by (auto simp: find_version_Cons)
  qed
qed (simp add: find_version_def)

lemma visible_entries_spec:
  assumes "ordered es"
  shows "set (visible_entries n es) = {e. visible (set es) (user_key e) n e \<and> etype e = kValue}"
  using visible_from_find [OF assms, of None] find_version_Some_iff [OF assms]
  by (auto simp: visible_entries_def)

lemma visible_from_sorted:
  assumes "ordered es" "\<forall>k. d = Some k \<longrightarrow> (\<forall>e \<in> set es. k \<le> user_key e)"
  shows "sorted_wrt (<) (map user_key (visible_from n d es))"
  using assms
proof (induction es arbitrary: d)
  case (Cons x es)
  have le: "user_key x \<le> user_key y" if "y \<in> set es" for y
    using Cons.prems(1) that by (auto simp: InternalLess_iff)
  have "user_key x < user_key y" if y: "y \<in> set (visible_from n (Some (user_key x)) es)" for y
  proof -
    have "user_key x \<noteq> user_key y"
      using visible_from_find [of es "Some (user_key x)" y n] y Cons.prems(1) le by auto
    moreover have "y \<in> set es" using visible_from_subset y by fast
    ultimately show ?thesis using le [of y] by simp
  qed
  with Cons le show ?case by auto
qed simp

section \<open>The loops follow the list\<close>

text \<open>What the inner loop does on the list of entries the input has still to deliver.\<close>

fun scan_list :: "u64 \<Rightarrow> bytes \<Rightarrow> bool \<Rightarrow> InternalEntry list \<Rightarrow> bool \<times> InternalEntry list" where
  "scan_list n k seen [] = (False, [])"
| "scan_list n k seen (e # es) =
     (if user_key e \<noteq> k then (False, e # es)
      else if \<not> seen \<and> sequence e \<le> n \<and> etype e = kValue then (True, e # es)
      else scan_list n k (seen \<or> sequence e \<le> n) es)"

lemma scan_list_found:
  "scan_list n k seen es = (True, es') \<Longrightarrow> d \<noteq> Some k \<Longrightarrow>
     \<not> seen \<and> es' \<noteq> [] \<and> user_key (hd es') = k \<and> visible_from n d es = hd es' # visible_from n (Some k) (tl es')"
proof (induction es arbitrary: seen)
  case (Cons e es)
  have seen_False: "scan_list n k True xs = (b, ys) \<Longrightarrow> \<not> b" for xs b ys
    by (induction xs) (auto split: if_splits)
  show ?case
  proof (cases "user_key e = k \<and> \<not> (\<not> seen \<and> sequence e \<le> n \<and> etype e = kValue)")
    case True
    then have r: "scan_list n k (seen \<or> sequence e \<le> n) es = (True, es')"
      using Cons.prems(1) by (auto split: if_splits)
    then have "\<not> (seen \<or> sequence e \<le> n)" using seen_False by (metis (full_types))
    with Cons.IH [OF r Cons.prems(2)] True show ?thesis by auto
  qed (use Cons.prems in \<open>auto split: if_splits\<close>)
qed simp

lemma scan_list_suffix:
  "scan_list n k seen es = (b, es') \<Longrightarrow> \<exists>m. es' = drop m es \<and> (es \<noteq> [] \<and> user_key (hd es) = k \<and> \<not> b \<longrightarrow> 0 < m)"
proof (induction es arbitrary: seen)
  case (Cons e es)
  show ?case
  proof (cases "user_key e = k \<and> \<not> (\<not> seen \<and> sequence e \<le> n \<and> etype e = kValue)")
    case True
    then have r: "scan_list n k (seen \<or> sequence e \<le> n) es = (b, es')" using Cons.prems by (auto split: if_splits)
    obtain m where "es' = drop m es" using Cons.IH [OF r] by blast
    then show ?thesis by (intro exI [of _ "Suc m"]) simp
  next
    case False
    with Cons.prems show ?thesis by (intro exI [of _ 0]) (auto split: if_splits)
  qed
qed simp

lemma scan_list_missed:
  assumes "scan_list n k seen es = (False, es')" "weakly_ordered es" "es \<noteq> [] \<Longrightarrow> user_key (hd es) = k"
  shows "visible_from n (if seen then Some k else None) es = visible_entries n es'"
  using assms
proof (induction es arbitrary: seen)
  case (Cons e es)
  let ?seen = "seen \<or> sequence e \<le> n"
  have k: "user_key e = k" using Cons.prems(3) by simp
  have r: "scan_list n k ?seen es = (False, es')" using Cons.prems(1) k by (auto split: if_splits)
  have step: "visible_from n (if seen then Some k else None) (e # es) = visible_from n (if ?seen then Some k else None) es"
    using Cons.prems(1) k by (auto split: if_splits)
  show ?case
  proof (cases "es = [] \<or> user_key (hd es) = k")
    case True
    with Cons.IH [OF r] Cons.prems(2) step show ?thesis by auto
  next
    case False
    then obtain x xs where es: "es = x # xs" "user_key x \<noteq> k" by (cases es) auto
    then have "es' = es" using r by auto
    moreover have "visible_from n (Some k) es = visible_entries n es"
      using visible_from_next_key [OF Cons.prems(2) k] es by simp
    ultimately show ?thesis using step by (auto simp: visible_entries_def)
  qed
qed (auto simp: visible_entries_def)

text \<open>
  An iterator in good state stands at the first visible value of its input; what it has still to
  deliver is what the reference selects from the rest of the input.
\<close>

definition vis_rest :: "('i \<Rightarrow> InternalEntry list) \<Rightarrow> 'i VisibilityIterator \<Rightarrow> InternalEntry list" where
  "vis_rest rest v = visible_entries (vis_sequence v) (rest (vis_input v))"

definition vis_invar ::
  "('i \<Rightarrow> bool) \<Rightarrow> ('i \<Rightarrow> InternalEntry list) \<Rightarrow> 'i VisibilityIterator \<Rightarrow> bool" where
  "vis_invar invar rest v \<longleftrightarrow>
     vis_status v = kOk \<and> invar (vis_input v) \<and>
     (let es = rest (vis_input v) in
      if vis_valid v
      then es \<noteq> [] \<and> vis_rest rest v =
             hd es # visible_entries (vis_sequence v) (dropWhile (\<lambda>x. user_key x = user_key (hd es)) (tl es))
      else es = [])"

context internal_iterator
begin

lemma scan_key_refines:
  "invar it \<Longrightarrow> \<exists>c found it'. scan_key ops n k seen it = Some (c, found, it') \<and>
     (c = kOk \<longrightarrow> invar it' \<and> all it' = all it \<and> scan_list n k seen (rest it) = (found, rest it')) \<and>
     (c \<noteq> kOk \<longrightarrow> \<not> found)"
proof (induction "length (rest it)" arbitrary: it seen rule: less_induct)
  case less
  note ve = Valid_rest [OF less.prems] entry_rest [OF less.prems]
  show ?case
  proof (cases "rest it")
    case Nil
    with ve less.prems show ?thesis by (subst scan_key.simps) auto
  next
    case (Cons e es)
    then have e: "Valid ops it" "entry ops it = e" using ve by simp_all
    let ?r = "Next ops it"
    show ?thesis
    proof (cases "user_key e = k \<and> \<not> (\<not> seen \<and> sequence e \<le> n \<and> etype e = kValue)")
      case True
      show ?thesis
      proof (cases "step_error ops ?r = kOk")
        case ok: True
        note nx = step_error_Next [OF less.prems _ ok]
        have "length (rest (snd ?r)) < length (rest it)" using nx Cons by simp
        with less.hyps nx Cons obtain c found it' where
          "scan_key ops n k (seen \<or> sequence e \<le> n) (snd ?r) = Some (c, found, it')"
          "c = kOk \<longrightarrow> invar it' \<and> all it' = all (snd ?r) \<and> scan_list n k (seen \<or> sequence e \<le> n) (rest (snd ?r)) = (found, rest it')"
          "c \<noteq> kOk \<longrightarrow> \<not> found"
          by (metis list.distinct(1))
        then show ?thesis using True ok e Cons nx by (subst scan_key.simps) (auto simp: Let_def)
      next
        case False
        then show ?thesis using True e by (subst scan_key.simps) (auto simp: Let_def)
      qed
    next
      case False
      then show ?thesis using e Cons less.prems by (subst scan_key.simps) auto
    qed
  qed
qed

lemma AdvanceToVisible_refines:
  "invar it \<Longrightarrow> \<exists>c found it'. AdvanceToVisible ops n it = Some (c, found, it') \<and>
     (c = kOk \<longrightarrow> invar it' \<and> all it' = all it \<and> visible_entries n (rest it) = visible_entries n (rest it') \<and>
        (if found then rest it' \<noteq> [] \<and> visible_entries n (rest it') =
             hd (rest it') # visible_entries n (dropWhile (\<lambda>x. user_key x = user_key (hd (rest it'))) (tl (rest it')))
         else rest it' = [])) \<and>
     (c \<noteq> kOk \<longrightarrow> \<not> found)"
proof (induction "length (rest it)" arbitrary: it rule: less_induct)
  case less
  note ve = Valid_rest [OF less.prems] entry_rest [OF less.prems]
  show ?case
  proof (cases "rest it = []")
    case True
    with ve less.prems show ?thesis by (subst AdvanceToVisible.simps) auto
  next
    case ne: False
    let ?k = "user_key (hd (rest it))"
    obtain c found it' where sk: "scan_key ops n ?k False it = Some (c, found, it')"
      and ok: "c = kOk \<longrightarrow> invar it' \<and> all it' = all it \<and> scan_list n ?k False (rest it) = (found, rest it')"
      and err: "c \<noteq> kOk \<longrightarrow> \<not> found"
      using scan_key_refines [OF less.prems] by blast
    have step: "AdvanceToVisible ops n it =
        (if c \<noteq> kOk \<or> found then Some (c, found, it') else AdvanceToVisible ops n it')"
      using ve ne sk by (subst AdvanceToVisible.simps) simp
    consider "c \<noteq> kOk" | "c = kOk" "found" | "c = kOk" "\<not> found" by blast
    then show ?thesis
    proof cases
      case 1
      then show ?thesis using step err by auto
    next
      case 2
      then have sl: "scan_list n ?k False (rest it) = (True, rest it')" and inv': "invar it'" using ok by auto
      note f = scan_list_found [OF sl, of None]
      have "weakly_ordered (hd (rest it') # tl (rest it'))" using rest_ordered [OF inv'] f by simp
      then have "visible_from n (Some ?k) (tl (rest it')) = visible_entries n (dropWhile (\<lambda>x. user_key x = ?k) (tl (rest it')))"
        by (rule visible_from_next_key) (use f in auto)
      moreover have "scan_list n ?k False (rest it') = (True, rest it')"
      proof -
        have "scan_list n k seen es = (True, es') \<Longrightarrow> scan_list n k False es' = (True, es')" for k seen es es'
          by (induction es arbitrary: seen) (auto split: if_splits)
        then show ?thesis using sl by blast
      qed
      note g = scan_list_found [OF this, of None]
      ultimately show ?thesis using step 2 ok f g by (auto simp: visible_entries_def)
    next
      case 3
      then have sl: "scan_list n ?k False (rest it) = (False, rest it')" and inv': "invar it'" "all it' = all it" using ok by auto
      have "visible_entries n (rest it) = visible_entries n (rest it')"
        using scan_list_missed [OF sl rest_ordered [OF less.prems]] by (simp add: visible_entries_def)
      moreover have "length (rest it') < length (rest it)"
        using scan_list_suffix [OF sl] ne by auto
      ultimately show ?thesis using less.hyps [OF _ inv'(1)] step 3 inv'(2) by auto
    qed
  qed
qed

lemma skip_key_refines:
  "invar it \<Longrightarrow> \<exists>c it'. skip_key ops k it = Some (c, it') \<and>
     (c = kOk \<longrightarrow> invar it' \<and> all it' = all it \<and> rest it' = dropWhile (\<lambda>e. user_key e = k) (rest it))"
proof (induction "length (rest it)" arbitrary: it rule: less_induct)
  case less
  note ve = Valid_rest [OF less.prems] entry_rest [OF less.prems]
  let ?r = "Next ops it"
  show ?case
  proof (cases "rest it \<noteq> [] \<and> user_key (hd (rest it)) = k \<and> step_error ops ?r = kOk")
    case True
    have nx: "invar (snd ?r)" "all (snd ?r) = all it" "rest (snd ?r) = tl (rest it)"
      using step_error_Next [OF less.prems] True by blast+
    have "length (rest (snd ?r)) < length (rest it)" using nx(3) True by (cases "rest it") auto
    then obtain c it' where "skip_key ops k (snd ?r) = Some (c, it')"
      "c = kOk \<longrightarrow> invar it' \<and> all it' = all (snd ?r) \<and> rest it' = dropWhile (\<lambda>e. user_key e = k) (rest (snd ?r))"
      using less.hyps [OF _ nx(1)] by blast
    moreover have "dropWhile (\<lambda>e. user_key e = k) (rest it) = dropWhile (\<lambda>e. user_key e = k) (tl (rest it))"
      using True by (cases "rest it") auto
    ultimately show ?thesis using True ve nx by (subst skip_key.simps) (auto simp: Let_def)
  next
    case False
    then show ?thesis
      using ve less.prems by (cases "rest it") (auto simp: skip_key.simps [of ops k it] Let_def)
  qed
qed

lemma vis_advance_ok:
  assumes "invar (vis_input v)" "vis_status v = kOk" "\<not> vis_valid v"
  shows "\<exists>c v'. vis_advance ops v = Some (c, v') \<and>
     (c = kOk \<longrightarrow> vis_invar invar rest v' \<and> vis_sequence v' = vis_sequence v \<and>
        all (vis_input v') = all (vis_input v) \<and> vis_rest rest v' = vis_rest rest v) \<and>
     (c \<noteq> kOk \<longrightarrow> \<not> vis_Valid v' \<and> vis_status v' = c)"
proof -
  obtain c found it where adv: "AdvanceToVisible ops (vis_sequence v) (vis_input v) = Some (c, found, it)"
    and ok: "c = kOk \<Longrightarrow> invar it \<and> all it = all (vis_input v) \<and>
      visible_entries (vis_sequence v) (rest (vis_input v)) = visible_entries (vis_sequence v) (rest it) \<and>
      (if found then rest it \<noteq> [] \<and> visible_entries (vis_sequence v) (rest it) =
         hd (rest it) # visible_entries (vis_sequence v) (dropWhile (\<lambda>x. user_key x = user_key (hd (rest it))) (tl (rest it)))
       else rest it = [])"
    using AdvanceToVisible_refines [OF assms(1)] by metis
  show ?thesis
  proof (cases "c = kOk")
    case True
    with adv ok assms show ?thesis
      by (simp add: vis_advance_def vis_invar_def vis_rest_def Let_def)
  next
    case False
    with adv show ?thesis by (auto simp: vis_advance_def vis_SetError_def vis_Valid_def)
  qed
qed

text \<open>Every call returns, and a successful one moves by exactly one visible value.\<close>

lemma vis_Next_ok:
  assumes inv: "vis_invar invar rest v" and valid: "vis_Valid v"
  shows "\<exists>c v'. vis_Next ops v = Some (c, v') \<and>
     (c = kOk \<longrightarrow> vis_invar invar rest v' \<and> vis_sequence v' = vis_sequence v \<and>
        vis_rest rest v' = tl (vis_rest rest v)) \<and>
     (c \<noteq> kOk \<longrightarrow> \<not> vis_Valid v' \<and> vis_status v' = c)"
proof -
  let ?es = "rest (vis_input v)"
  have i: "invar (vis_input v)" and st: "vis_status v = kOk" "vis_valid v" and ne: "?es \<noteq> []"
    and cur: "vis_rest rest v =
      hd ?es # visible_entries (vis_sequence v) (dropWhile (\<lambda>x. user_key x = user_key (hd ?es)) (tl ?es))"
    using inv valid by (auto simp: vis_invar_def vis_Valid_def Let_def split: if_splits)
  have ent: "entry ops (vis_input v) = hd ?es" by (rule entry_rest [OF i ne])
  obtain c it where sk: "skip_key ops (user_key (hd ?es)) (vis_input v) = Some (c, it)"
    and ok: "c = kOk \<Longrightarrow> invar it \<and> rest it = dropWhile (\<lambda>e. user_key e = user_key (hd ?es)) ?es"
    using skip_key_refines [OF i] by blast
  define v1 where "v1 = v\<lparr>vis_valid := False, vis_input := it\<rparr>"
  have step: "vis_Next ops v = (if c \<noteq> kOk then Some (vis_SetError c v1) else vis_advance ops v1)"
    using st ent sk by (simp add: vis_Next_def Let_def v1_def)
  show ?thesis
  proof (cases "c = kOk")
    case True
    have "dropWhile (\<lambda>e. user_key e = user_key (hd ?es)) ?es = dropWhile (\<lambda>e. user_key e = user_key (hd ?es)) (tl ?es)"
      using ne by (cases ?es) auto
    then have "vis_rest rest v1 = tl (vis_rest rest v)" using cur ok [OF True] by (simp add: v1_def vis_rest_def)
    moreover have "invar (vis_input v1)" "vis_status v1 = kOk" "\<not> vis_valid v1" "vis_sequence v1 = vis_sequence v"
      using ok [OF True] st by (simp_all add: v1_def)
    ultimately show ?thesis using vis_advance_ok [of v1] step True by auto
  next
    case False
    with step show ?thesis by (auto simp: vis_SetError_def vis_Valid_def)
  qed
qed

lemma vis_Seek_ok:
  assumes inv: "vis_invar invar rest v"
  shows "\<exists>c v'. vis_Seek ops k v = Some (c, v') \<and>
     (c = kOk \<longrightarrow> vis_invar invar rest v' \<and> vis_rest rest v' =
        visible_entries (vis_sequence v) (filter (\<lambda>e. \<not> user_key e < k) (all (vis_input v)))) \<and>
     (c \<noteq> kOk \<longrightarrow> \<not> vis_Valid v' \<and> vis_status v' = c)"
proof -
  have i: "invar (vis_input v)" and st: "vis_status v = kOk" using inv by (simp_all add: vis_invar_def)
  let ?r = "Seek ops k (vis_input v)"
  define v1 where "v1 = v\<lparr>vis_valid := False, vis_input := snd ?r\<rparr>"
  have step: "vis_Seek ops k v =
      (if step_error ops ?r \<noteq> kOk then Some (vis_SetError (step_error ops ?r) v1) else vis_advance ops v1)"
    using st by (simp add: vis_Seek_def Let_def v1_def)
  show ?thesis
  proof (cases "step_error ops ?r = kOk")
    case True
    note sk = step_error_Seek [OF i True]
    have v1: "invar (vis_input v1)" "vis_status v1 = kOk" "\<not> vis_valid v1" "vis_sequence v1 = vis_sequence v"
      "vis_rest rest v1 = visible_entries (vis_sequence v) (filter (\<lambda>e. \<not> user_key e < k) (all (vis_input v)))"
      using sk st by (simp_all add: v1_def vis_rest_def)
    then show ?thesis using vis_advance_ok [OF v1(1-3)] step True by auto
  next
    case False
    with step show ?thesis by (auto simp: vis_SetError_def vis_Valid_def)
  qed
qed

lemma NewVisibilityIterator_ok:
  assumes "invar it"
  shows "\<exists>r. NewVisibilityIterator ops (Some it) n = Some r \<and> r \<noteq> UB \<and>
     (\<forall>v. r = Ok v \<longrightarrow> vis_invar invar rest v \<and> vis_rest rest v = visible_entries n (rest it))"
  using vis_advance_ok [of "\<lparr>vis_input = it, vis_sequence = n, vis_valid = False, vis_status = kOk\<rparr>"] assms
  by (auto simp: NewVisibilityIterator_def vis_rest_def)

lemma vis_Valid_iff: "vis_invar invar rest v \<Longrightarrow> vis_Valid v \<longleftrightarrow> vis_rest rest v \<noteq> []"
  by (auto simp: vis_invar_def vis_Valid_def vis_rest_def Let_def visible_entries_def split: if_splits)

lemma vis_entry_hd: "vis_invar invar rest v \<Longrightarrow> vis_Valid v \<Longrightarrow> vis_entry ops v = hd (vis_rest rest v)"
  by (auto simp: vis_invar_def vis_Valid_def vis_entry_def Let_def entry_rest split: if_splits)

end

text \<open>Draining a visibility iterator.\<close>

fun vis_collect ::
  "'i InternalIterator \<Rightarrow> nat \<Rightarrow> 'i VisibilityIterator \<Rightarrow> (InternalEntry list \<times> StatusCode) option" where
  "vis_collect ops 0 v = Some ([], vis_status v)"
| "vis_collect ops (Suc n) v =
     (if \<not> vis_Valid v then Some ([], vis_status v)
      else Option.bind (vis_Next ops v) (\<lambda>(c, v').
        if c \<noteq> kOk then Some ([vis_entry ops v], c)
        else Option.bind (vis_collect ops n v') (\<lambda>(es, c). Some (vis_entry ops v # es, c))))"

context internal_iterator
begin

lemma vis_collect_ok:
  "vis_invar invar rest v \<Longrightarrow>
     \<exists>es c. vis_collect ops n v = Some (es, c) \<and> (c = kOk \<longrightarrow> es = take n (vis_rest rest v))"
proof (induction n arbitrary: v)
  case (Suc n)
  show ?case
  proof (cases "vis_Valid v")
    case True
    obtain c v' where nx: "vis_Next ops v = Some (c, v')"
      and ok: "c = kOk \<Longrightarrow> vis_invar invar rest v' \<and> vis_rest rest v' = tl (vis_rest rest v)"
      using vis_Next_ok [OF Suc.prems True] by blast
    have hd: "vis_entry ops v = hd (vis_rest rest v)" "vis_rest rest v \<noteq> []"
      using vis_entry_hd [OF Suc.prems True] vis_Valid_iff [OF Suc.prems] True by simp_all
    show ?thesis
    proof (cases "c = kOk")
      case c: True
      obtain es c' where rec: "vis_collect ops n v' = Some (es, c')" "c' = kOk \<longrightarrow> es = take n (vis_rest rest v')"
        using Suc.IH ok [OF c] by blast
      have "vis_rest rest v = hd (vis_rest rest v) # vis_rest rest v'" using ok [OF c] hd(2) by simp
      then have "take (Suc n) (vis_rest rest v) = hd (vis_rest rest v) # take n (vis_rest rest v')"
        by (metis take_Suc_Cons)
      then show ?thesis using rec nx c True hd by simp
    qed (use nx True in simp)
  qed (use Suc.prems in \<open>simp add: vis_Valid_iff\<close>)
qed simp

end

section \<open>Inputs that cannot fail\<close>

context reliable_iterator
begin

lemma Next_no_error: "invar it \<Longrightarrow> rest it \<noteq> [] \<Longrightarrow> step_error ops (Next ops it) = kOk"
  using Next_total [of it] by (auto simp: step_error_def)

lemma scan_key_total: "invar it \<Longrightarrow> \<exists>found it'. scan_key ops n k seen it = Some (kOk, found, it')"
proof (induction "length (rest it)" arbitrary: it seen rule: less_induct)
  case less
  show ?case
  proof (cases "Valid ops it \<and> user_key (entry ops it) = k \<and>
      \<not> (\<not> seen \<and> sequence (entry ops it) \<le> n \<and> etype (entry ops it) = kValue)")
    case True
    then have ne: "rest it \<noteq> []" using Valid_rest [OF less.prems] by blast
    note ok = Next_no_error [OF less.prems ne] and nx = step_error_Next [OF less.prems ne Next_no_error [OF less.prems ne]]
    have "length (rest (snd (Next ops it))) < length (rest it)" using nx(3) ne by (cases "rest it") auto
    then show ?thesis using less.hyps [OF _ nx(1)] True ok by (subst scan_key.simps) (auto simp: Let_def)
  next
    case False
    then show ?thesis by (subst scan_key.simps) auto
  qed
qed

lemma AdvanceToVisible_total: "invar it \<Longrightarrow> \<exists>found it'. AdvanceToVisible ops n it = Some (kOk, found, it')"
proof (induction "length (rest it)" arbitrary: it rule: less_induct)
  case less
  show ?case
  proof (cases "Valid ops it")
    case True
    then have ne: "rest it \<noteq> []" using Valid_rest [OF less.prems] by blast
    have e: "entry ops it = hd (rest it)" by (rule entry_rest [OF less.prems ne])
    obtain found it' where sk: "scan_key ops n (user_key (hd (rest it))) False it = Some (kOk, found, it')"
      using scan_key_total [OF less.prems] by blast
    then have it': "invar it'" "scan_list n (user_key (hd (rest it))) False (rest it) = (found, rest it')"
      using scan_key_refines [OF less.prems, of n "user_key (hd (rest it))" False] by auto
    have "length (rest it') < length (rest it)" if "\<not> found"
      using scan_list_suffix [OF it'(2)] ne that by auto
    then show ?thesis using less.hyps [OF _ it'(1)] True e sk by (subst AdvanceToVisible.simps) auto
  next
    case False
    then show ?thesis by (subst AdvanceToVisible.simps) (simp add: ex_bool_eq)
  qed
qed

lemma skip_key_total: "invar it \<Longrightarrow> \<exists>it'. skip_key ops k it = Some (kOk, it')"
proof (induction "length (rest it)" arbitrary: it rule: less_induct)
  case less
  show ?case
  proof (cases "Valid ops it \<and> user_key (entry ops it) = k")
    case True
    then have ne: "rest it \<noteq> []" using Valid_rest [OF less.prems] by blast
    note ok = Next_no_error [OF less.prems ne] and nx = step_error_Next [OF less.prems ne Next_no_error [OF less.prems ne]]
    have "length (rest (snd (Next ops it))) < length (rest it)" using nx(3) ne by (cases "rest it") auto
    then show ?thesis using less.hyps [OF _ nx(1)] True ok by (subst skip_key.simps) (auto simp: Let_def)
  next
    case False
    then show ?thesis by (subst skip_key.simps) auto
  qed
qed

lemma vis_advance_total: "invar (vis_input v) \<Longrightarrow> \<exists>v'. vis_advance ops v = Some (kOk, v')"
  using AdvanceToVisible_total [of "vis_input v" "vis_sequence v"] by (auto simp: vis_advance_def)

lemma vis_Next_total: "vis_invar invar rest v \<Longrightarrow> \<exists>v'. vis_Next ops v = Some (kOk, v')"
proof -
  assume inv: "vis_invar invar rest v"
  then have i: "invar (vis_input v)" "vis_status v = kOk" by (simp_all add: vis_invar_def)
  obtain it where sk: "skip_key ops (user_key (entry ops (vis_input v))) (vis_input v) = Some (kOk, it)"
    using skip_key_total [OF i(1)] by blast
  have "invar it" using skip_key_refines [OF i(1), of "user_key (entry ops (vis_input v))"] sk by auto
  then show ?thesis using vis_advance_total [of "v\<lparr>vis_valid := False, vis_input := it\<rparr>"] i(2) sk
    by (simp add: vis_Next_def Let_def)
qed

lemma NewVisibilityIterator_total: "invar it \<Longrightarrow> \<exists>v. NewVisibilityIterator ops (Some it) n = Some (Ok v)"
  using vis_advance_total [of "\<lparr>vis_input = it, vis_sequence = n, vis_valid = False, vis_status = kOk\<rparr>"]
  by (auto simp: NewVisibilityIterator_def)

lemma vis_collect_total: "vis_invar invar rest v \<Longrightarrow> \<exists>es. vis_collect ops n v = Some (es, kOk)"
proof (induction n arbitrary: v)
  case (Suc n)
  obtain v' where nx: "vis_Next ops v = Some (kOk, v')" using vis_Next_total [OF Suc.prems] by blast
  show ?case
  proof (cases "vis_Valid v")
    case True
    then have "vis_invar invar rest v'" using vis_Next_ok [OF Suc.prems True] nx by auto
    then show ?thesis using Suc.IH nx True by fastforce
  qed (use Suc.prems in \<open>simp add: vis_invar_def\<close>)
qed (simp add: vis_invar_def)

text \<open>Opening and draining a view of the input at a sequence.\<close>

lemma visible_run:
  assumes "invar it" "length (rest it) \<le> k"
  shows "\<exists>v. NewVisibilityIterator ops (Some it) n = Some (Ok v) \<and> vis_collect ops k v = Some (visible_entries n (rest it), kOk)"
proof -
  obtain v where v: "NewVisibilityIterator ops (Some it) n = Some (Ok v)" using NewVisibilityIterator_total [OF assms(1)] by blast
  have inv: "vis_invar invar rest v" "vis_rest rest v = visible_entries n (rest it)"
    using NewVisibilityIterator_ok [OF assms(1), of n] v by auto
  have "length (visible_from n d es) \<le> length es" for d es
    by (induction n d es rule: visible_from.induct) auto
  then have "length (visible_entries n (rest it)) \<le> k" using order_trans [OF _ assms(2)] by (simp add: visible_entries_def)
  moreover obtain es where "vis_collect ops k v = Some (es, kOk)" using vis_collect_total [OF inv(1)] by blast
  ultimately show ?thesis using v vis_collect_ok [OF inv(1), of k] inv(2) by auto
qed

end

section \<open>Properties\<close>

text \<open>
  C31: The visibility filter over a captured run without duplicate versions opens, never fails, and
  delivers, in strictly increasing key order, exactly the values a reader at the given sequence sees:
  for each key the newest version not above the sequence, unless that version is a tombstone.
\<close>

theorem visibility_view_exact:
  assumes "vi_invar it" "no_duplicates (vi_rest it)" "length (vi_rest it) \<le> k"
  shows "\<exists>v es. NewVisibilityIterator vector_ops (Some it) n = Some (Ok v) \<and> vis_collect vector_ops k v = Some (es, kOk) \<and>
    set es = {e. visible (set (vi_rest it)) (user_key e) n e \<and> etype e = kValue} \<and> sorted_wrt (<) (map user_key es)"
proof -
  have ord: "ordered (vi_rest it)"
    using vector_iterator.rest_ordered [OF assms(1)] assms(2) by (simp add: ordered_iff_no_duplicates)
  obtain v where v: "NewVisibilityIterator vector_ops (Some it) n = Some (Ok v)"
    "vis_collect vector_ops k v = Some (visible_entries n (vi_rest it), kOk)"
    using vector_iterator.visible_run [OF assms(1,3)] by blast
  have "sorted_wrt (<) (map user_key (visible_entries n (vi_rest it)))"
    unfolding visible_entries_def by (rule visible_from_sorted [OF ord]) simp
  with v visible_entries_spec [OF ord] show ?thesis by blast
qed

theorem visibility_view_exact_witness:
  "\<exists>v es. NewVisibilityIterator vector_ops
       (Some \<lparr>vi_entries = [\<lparr>user_key = [1], sequence = 5, etype = kTombstone, evalue = []\<rparr>,
                \<lparr>user_key = [1], sequence = 2, etype = kValue, evalue = [8]\<rparr>], vi_end = [], vi_index = 0, vi_status = kOk\<rparr>) 3 = Some (Ok v) \<and>
     vis_collect vector_ops 2 v = Some (es, kOk) \<and> \<lparr>user_key = [1], sequence = 2, etype = kValue, evalue = [8]\<rparr> \<in> set es"
proof -
  let ?it = "\<lparr>vi_entries = [\<lparr>user_key = [1], sequence = 5, etype = kTombstone, evalue = []\<rparr>,
                \<lparr>user_key = [1], sequence = 2, etype = kValue, evalue = [8]\<rparr>], vi_end = [], vi_index = 0, vi_status = kOk\<rparr> :: VectorIterator"
  have "vi_invar ?it" "no_duplicates (vi_rest ?it)" "length (vi_rest ?it) \<le> 2"
    by (simp_all add: vi_invar_def vi_rest_def before_end_def no_duplicates_def InternalLess_iff)
  then obtain v es where v: "NewVisibilityIterator vector_ops (Some ?it) 3 = Some (Ok v)" "vis_collect vector_ops 2 v = Some (es, kOk)"
    "set es = {e. visible (set (vi_rest ?it)) (user_key e) 3 e \<and> etype e = kValue}"
    using visibility_view_exact by blast
  moreover have "\<lparr>user_key = [1], sequence = 2, etype = kValue, evalue = [8]\<rparr> \<in> set es"
    unfolding v(3) by (simp add: visible_def vi_rest_def before_end_def)
  ultimately show ?thesis by blast
qed

end
