(* ===== verification/Db_Read.thy ===== *)
theory Db_Read
  imports Crash_Safety Table_Iterator Merging_Iterator Visibility_Iterator
begin

text \<open>
  The read path of the database: snapshots, point reads and iterators (\<open>src/db/db.cpp\<close> and the read
  handlers of \<open>src/db/db_impl.cpp\<close>). A point read asks every source and keeps the newest version; a range read
  merges iterators over the sources and filters what is visible.
\<close>

section \<open>Snapshots\<close>

text \<open>A handle on a registered sequence; \<open>sn_state\<close> is the registry it belongs to, absent after a move.\<close>

record Snapshot =
  sn_state :: "nat option"
  sn_sequence :: u64
  sn_registered :: bool

definition Snapshot_destroy :: "Snapshot \<Rightarrow> SnapshotState \<Rightarrow> SnapshotState" where
  "Snapshot_destroy s ss = (if sn_state s \<noteq> None \<and> sn_registered s then Unregister (sn_sequence s) ss else ss)"

text \<open>Moving yields the new handle and what is left of the old one; assignment releases the target first.\<close>

definition Snapshot_move :: "Snapshot \<Rightarrow> Snapshot \<times> Snapshot" where
  "Snapshot_move other = (other, \<lparr>sn_state = None, sn_sequence = 0, sn_registered = False\<rparr>)"

definition Snapshot_assign :: "Snapshot \<Rightarrow> Snapshot \<Rightarrow> SnapshotState \<Rightarrow> (Snapshot \<times> Snapshot) \<times> SnapshotState" where
  "Snapshot_assign target other ss = (Snapshot_move other, Snapshot_destroy target ss)"

definition RecordReadLockWait :: "Db \<Rightarrow> Db" where
  "RecordReadLockWait db = db\<lparr>db_read_metrics := (db_read_metrics db)
     \<lparr>rm_read_lock_acquisitions := rm_read_lock_acquisitions (db_read_metrics db) + 1\<rparr>\<rparr>"

definition GetSnapshot :: "(Db, Snapshot) op" where
  "GetSnapshot db =
     (let db = RecordReadLockWait db in
      if CheckOpen db \<noteq> kOk then (Err (CheckOpen db), db)
      else
        let seq = db_next_sequence db - 1 in
        case TryRegister seq (unat (o_max_active_snapshots (db_options db))) (db_snapshots db) of
          (registered, ss) \<Rightarrow>
            let db = db\<lparr>db_snapshots := ss\<rparr> in
            if registered then (Ok \<lparr>sn_state = Some (db_registry db), sn_sequence = seq, sn_registered = True\<rparr>, db)
            else (Err kResourceExhausted, db))"

definition foreign_snapshot :: "Snapshot option \<Rightarrow> Db \<Rightarrow> bool" where
  "foreign_snapshot snapshot db = (case snapshot of None \<Rightarrow> False | Some s \<Rightarrow> sn_state s \<noteq> Some (db_registry db))"

definition read_sequence :: "Snapshot option \<Rightarrow> Db \<Rightarrow> u64" where
  "read_sequence snapshot db = (case snapshot of None \<Rightarrow> db_next_sequence db - 1 | Some s \<Rightarrow> sn_sequence s)"

section \<open>Point reads\<close>

text \<open>The lambda \<open>consider\<close> of \<open>Get\<close>: an answer replaces the newest so far only if it is strictly newer.\<close>

definition consider_newest :: "(Db, InternalEntry) op \<Rightarrow> InternalEntry option \<Rightarrow> (Db, InternalEntry option) op" where
  "consider_newest candidate newest db =
     (case candidate db of
        (Ok e, db) \<Rightarrow>
          (Ok (case newest of None \<Rightarrow> Some e | Some m \<Rightarrow> if sequence e > sequence m then Some e else newest), db)
      | (Err c, db) \<Rightarrow> if c = kNotFound then (Ok newest, db) else (Err c, db)
      | (UB, db) \<Rightarrow> (UB, db))"

fun get_tables ::
  "(InternalEntry list \<Rightarrow> u64) \<Rightarrow> bytes \<Rightarrow> u64 \<Rightarrow> nat \<Rightarrow> TableMeta list \<Rightarrow> InternalEntry option
   \<Rightarrow> (Db, InternalEntry option) op" where
  "get_tables charge key n i [] newest = op_return newest"
| "get_tables charge key n i (meta # further) newest =
     (if BytewiseLess key (tm_smallest_key meta) \<or> BytewiseLess (tm_largest_key meta) key
      then get_tables charge key n (Suc i) further newest
      else op_bind (consider_newest (on_table (\<lambda>r. Table_Get charge r key n) i) newest)
             (get_tables charge key n (Suc i) further))"

definition get_memtable :: "bytes \<Rightarrow> u64 \<Rightarrow> (Db, InternalEntry option) op" where
  "get_memtable key n = consider_newest (\<lambda>db. (MemTable_Get (db_memtable db) key n, db)) None"

definition get_immutable :: "bytes \<Rightarrow> u64 \<Rightarrow> InternalEntry option \<Rightarrow> (Db, InternalEntry option) op" where
  "get_immutable key n newest db =
     (case db_immutable db of
        None \<Rightarrow> (Ok newest, db)
      | Some imm \<Rightarrow> consider_newest (\<lambda>db. (MemTable_Get imm key n, db)) newest db)"

definition get_live ::
  "(InternalEntry list \<Rightarrow> u64) \<Rightarrow> bytes \<Rightarrow> u64 \<Rightarrow> InternalEntry option \<Rightarrow> (Db, InternalEntry option) op" where
  "get_live charge key n newest db =
     (if length (live_tables (db_current db)) \<noteq> length (db_tables db) then (Err kCorruption, db)
      else get_tables charge key n 0 (live_tables (db_current db)) newest db)"

definition Db_Get :: "(InternalEntry list \<Rightarrow> u64) \<Rightarrow> bytes \<Rightarrow> Snapshot option \<Rightarrow> (Db, bytes) op" where
  "Db_Get charge key snapshot db =
     (let db = RecordReadLockWait db in
      if CheckOpen db \<noteq> kOk then (Err (CheckOpen db), db)
      else if foreign_snapshot snapshot db then (Err kInvalidArgument, db)
      else
        let db = db\<lparr>db_read_metrics := (db_read_metrics db)\<lparr>rm_point_lookups := rm_point_lookups (db_read_metrics db) + 1\<rparr>\<rparr>;
            n = read_sequence snapshot db in
        op_bind (get_memtable key n) (\<lambda>newest.
        op_bind (get_immutable key n newest) (\<lambda>newest.
        op_bind (get_live charge key n newest) (\<lambda>newest db.
          case newest of
            None \<Rightarrow> (Err kNotFound, db)
          | Some e \<Rightarrow> if etype e = kTombstone then (Err kNotFound, db) else (Ok (evalue e), db)))) db)"

section \<open>Iterators\<close>

text \<open>The inputs of a merge are table iterators and captured vectors behind one virtual interface.\<close>

datatype AnyIterator = DiskInput TableIterator | MemoryInput VectorIterator

definition any_ops :: "(InternalEntry list \<Rightarrow> u64) \<Rightarrow> AnyIterator InternalIterator" where
  "any_ops charge =
     \<lparr>Valid = (\<lambda>it. case it of DiskInput d \<Rightarrow> Valid (table_ops charge) d | MemoryInput v \<Rightarrow> Valid vector_ops v),
      entry = (\<lambda>it. case it of DiskInput d \<Rightarrow> entry (table_ops charge) d | MemoryInput v \<Rightarrow> entry vector_ops v),
      Seek = (\<lambda>k it. case it of DiskInput d \<Rightarrow> apsnd DiskInput (Seek (table_ops charge) k d)
                              | MemoryInput v \<Rightarrow> apsnd MemoryInput (Seek vector_ops k v)),
      Next = (\<lambda>it. case it of DiskInput d \<Rightarrow> apsnd DiskInput (Next (table_ops charge) d)
                            | MemoryInput v \<Rightarrow> apsnd MemoryInput (Next vector_ops v)),
      status = (\<lambda>it. case it of DiskInput d \<Rightarrow> status (table_ops charge) d | MemoryInput v \<Rightarrow> status vector_ops v)\<rparr>"

definition overlaps :: "TableMeta \<Rightarrow> bytes \<Rightarrow> bytes \<Rightarrow> bool" where
  "overlaps meta beg end_key =
     (\<not> (end_key \<noteq> [] \<and> \<not> BytewiseLess (tm_smallest_key meta) end_key \<or> BytewiseLess (tm_largest_key meta) beg))"

fun table_inputs ::
  "(InternalEntry list \<Rightarrow> u64) \<Rightarrow> bytes \<Rightarrow> bytes \<Rightarrow> nat \<Rightarrow> TableMeta list \<Rightarrow> (Db, AnyIterator list) op" where
  "table_inputs charge beg end_key i [] = op_return []"
| "table_inputs charge beg end_key i (meta # further) =
     (if \<not> overlaps meta beg end_key then table_inputs charge beg end_key (Suc i) further
      else
        op_bind (\<lambda>db. (Table_NewIterator charge (dt_reader (db_tables db ! i)) (table_state (dt_file (db_tables db ! i)) db)
                          beg end_key, db)) (\<lambda>disk.
        op_bind (db_modify (\<lambda>db. db\<lparr>db_read_metrics := (db_read_metrics db)
                   \<lparr>rm_scan_table_inputs := rm_scan_table_inputs (db_read_metrics db) + 1\<rparr>\<rparr>)) (\<lambda>_.
        op_bind (table_inputs charge beg end_key (Suc i) further) (\<lambda>its. op_return (DiskInput disk # its)))))"

definition memory_inputs :: "bytes \<Rightarrow> bytes \<Rightarrow> Db \<Rightarrow> AnyIterator list result" where
  "memory_inputs beg end_key db =
     rbind (NewVectorIterator (MemTable_Scan (db_memtable db) beg end_key) beg end_key) (\<lambda>mem.
       case db_immutable db of
         None \<Rightarrow> Ok [MemoryInput mem]
       | Some imm \<Rightarrow>
           rbind (NewVectorIterator (MemTable_Scan imm beg end_key) beg end_key) (\<lambda>frozen.
             Ok [MemoryInput mem, MemoryInput frozen]))"

text \<open>
  A public iterator owns the filtered merge, the readers it needs (part of its inputs here) and the start
  of its range. A handle without one is empty or moved from.
\<close>

record DbIterator =
  it_view :: "AnyIterator MergingIterator VisibilityIterator"
  it_begin :: bytes

abbreviation merged_ops :: "(InternalEntry list \<Rightarrow> u64) \<Rightarrow> AnyIterator MergingIterator InternalIterator" where
  "merged_ops charge \<equiv> merging_ops (any_ops charge)"

definition merge_inputs :: "(InternalEntry list \<Rightarrow> u64) \<Rightarrow> bytes \<Rightarrow> bytes \<Rightarrow> (Db, AnyIterator MergingIterator) op" where
  "merge_inputs charge beg end_key db =
     op_bind (table_inputs charge beg end_key 0 (live_tables (db_current db))) (\<lambda>disks.
     op_bind (\<lambda>db. (memory_inputs beg end_key db, db)) (\<lambda>mems.
     op_of (NewMergingIterator (any_ops charge) (disks @ mems)))) db"

definition Db_NewIterator ::
  "(InternalEntry list \<Rightarrow> u64) \<Rightarrow> bytes \<Rightarrow> bytes \<Rightarrow> Snapshot option \<Rightarrow> Db \<Rightarrow> (DbIterator result \<times> Db) option" where
  "Db_NewIterator charge beg end_key snapshot db =
     (let db = RecordReadLockWait db in
      if CheckOpen db \<noteq> kOk then Some (Err (CheckOpen db), db)
      else if end_key \<noteq> [] \<and> BytewiseLess end_key beg then Some (Err kInvalidArgument, db)
      else if foreign_snapshot snapshot db then Some (Err kInvalidArgument, db)
      else if length (live_tables (db_current db)) \<noteq> length (db_tables db) then Some (Err kCorruption, db)
      else
        let n = read_sequence snapshot db in
        case merge_inputs charge beg end_key db of
          (Ok merged, db) \<Rightarrow>
            (case NewVisibilityIterator (merged_ops charge) (Some merged) n of
               None \<Rightarrow> None
             | Some (Ok view) \<Rightarrow>
                 Some (Ok \<lparr>it_view = view, it_begin = beg\<rparr>,
                       db\<lparr>db_read_metrics := (db_read_metrics db)\<lparr>rm_range_scans := rm_range_scans (db_read_metrics db) + 1\<rparr>\<rparr>)
             | Some (Err c) \<Rightarrow> Some (Err c, db)
             | Some UB \<Rightarrow> Some (UB, db))
        | (Err c, db) \<Rightarrow> Some (Err c, db)
        | (UB, db) \<Rightarrow> Some (UB, db))"

definition it_Valid :: "DbIterator option \<Rightarrow> bool" where
  "it_Valid it = (case it of None \<Rightarrow> False | Some i \<Rightarrow> vis_Valid (it_view i))"

definition it_key :: "(InternalEntry list \<Rightarrow> u64) \<Rightarrow> DbIterator \<Rightarrow> bytes" where
  "it_key charge i = user_key (vis_entry (merged_ops charge) (it_view i))"

definition it_value :: "(InternalEntry list \<Rightarrow> u64) \<Rightarrow> DbIterator \<Rightarrow> bytes" where
  "it_value charge i = evalue (vis_entry (merged_ops charge) (it_view i))"

definition it_status :: "DbIterator option \<Rightarrow> StatusCode" where
  "it_status it = (case it of None \<Rightarrow> kAlreadyClosed | Some i \<Rightarrow> vis_status (it_view i))"

definition it_Seek ::
  "(InternalEntry list \<Rightarrow> u64) \<Rightarrow> bytes \<Rightarrow> DbIterator option \<Rightarrow> (StatusCode \<times> DbIterator option) option" where
  "it_Seek charge target it =
     (case it of
        None \<Rightarrow> Some (kAlreadyClosed, None)
      | Some i \<Rightarrow>
          map_option (\<lambda>(c, v). (c, Some (i\<lparr>it_view := v\<rparr>)))
            (vis_Seek (merged_ops charge) (if BytewiseLess target (it_begin i) then it_begin i else target) (it_view i)))"

definition it_Next :: "(InternalEntry list \<Rightarrow> u64) \<Rightarrow> DbIterator option \<Rightarrow> (StatusCode \<times> DbIterator option) option" where
  "it_Next charge it =
     (case it of
        None \<Rightarrow> Some (kAlreadyClosed, None)
      | Some i \<Rightarrow> map_option (\<lambda>(c, v). (c, Some (i\<lparr>it_view := v\<rparr>))) (vis_Next (merged_ops charge) (it_view i)))"

partial_function (option) scan_loop ::
  "(InternalEntry list \<Rightarrow> u64) \<Rightarrow> DbIterator option \<Rightarrow> (bytes \<times> bytes) list \<Rightarrow> (bytes \<times> bytes) list result option" where
  "scan_loop charge it out =
     (if it_Valid it
      then Option.bind (it_Next charge it) (\<lambda>(c, it').
             if c \<noteq> kOk then Some (Err c)
             else scan_loop charge it' (out @ [(it_key charge (the it), it_value charge (the it))]))
      else Some (if it_status it \<noteq> kOk then Err (it_status it) else Ok out))"

definition Db_Scan ::
  "(InternalEntry list \<Rightarrow> u64) \<Rightarrow> bytes \<Rightarrow> bytes \<Rightarrow> Db \<Rightarrow> ((bytes \<times> bytes) list result \<times> Db) option" where
  "Db_Scan charge beg end_key db =
     Option.bind (Db_NewIterator charge beg end_key None db) (\<lambda>(r, db).
       case r of
         Ok i \<Rightarrow> map_option (\<lambda>out. (out, db)) (scan_loop charge (Some i) [])
       | Err c \<Rightarrow> Some (Err c, db)
       | UB \<Rightarrow> Some (UB, db))"

section \<open>What a table read leaves unchanged\<close>

text \<open>Reading a table adds blocks of that table to the cache and nothing else.\<close>

definition cache_grown :: "u64 \<Rightarrow> BlockCache \<Rightarrow> BlockCache \<Rightarrow> bool" where
  "cache_grown number c c' \<longleftrightarrow>
     bc_capacity c' = bc_capacity c \<and> (\<forall>e \<in> set (bc_lru c'). e \<in> set (bc_lru c) \<or> table_number (ce_key e) = number)"

lemma cache_grown_refl [simp]: "cache_grown number c c"
  by (simp add: cache_grown_def)

lemma cache_grown_trans: "cache_grown number a b \<Longrightarrow> cache_grown number b c \<Longrightarrow> cache_grown number a c"
  by (auto simp: cache_grown_def)

lemma evict_grown: "cache_grown number c (evict charge c)"
proof (induction charge c rule: evict.induct)
  case (1 charge c)
  let ?c = "cache_Remove (last (bc_lru c)) c"
  let ?d = "?c\<lparr>bc_metrics := (bc_metrics ?c)\<lparr>cache_evictions := cache_evictions (bc_metrics ?c) + 1\<rparr>\<rparr>"
  have "cache_grown number c ?d" by (auto simp: cache_Remove_def cache_grown_def)
  then show ?case using 1 cache_grown_trans by (subst evict.simps) (auto simp: Let_def)
qed

lemma Lookup_grown: "cache_grown number c (snd (Lookup key c))"
  by (auto simp: Lookup_def Let_def cache_grown_def splice_front_keys)

lemma Insert_grown: "cache_grown (table_number key) c (Insert key block charge c)"
  using evict_grown [of "table_number key" c charge] by (auto simp: Insert_def Let_def cache_grown_def splice_front_keys)

text \<open>Another table's blocks stay correct.\<close>

lemma cache_ok_grown:
  "cache_ok r data c \<Longrightarrow> bc_inv c' \<Longrightarrow> cache_grown number c c' \<Longrightarrow> number \<noteq> sr_table_number r \<Longrightarrow> cache_ok r data c'"
  unfolding cache_ok_def cache_grown_def by (metis BlockCacheKey.select_convs(1))

definition state_kept :: "u64 \<Rightarrow> TableState \<Rightarrow> TableState \<Rightarrow> bool" where
  "state_kept number ts ts' \<longleftrightarrow>
     ra_data (ts_file ts') = ra_data (ts_file ts) \<and> (reads_ok (ra_reads (ts_file ts)) \<longrightarrow> reads_ok (ra_reads (ts_file ts'))) \<and>
     (case ts_cache ts of None \<Rightarrow> ts_cache ts' = None | Some c \<Rightarrow> \<exists>c'. ts_cache ts' = Some c' \<and> cache_grown number c c')"

lemma state_kept_refl [simp]: "state_kept number ts ts"
  by (auto simp: state_kept_def split: option.split)

lemma state_kept_trans: "state_kept number a b \<Longrightarrow> state_kept number b c \<Longrightarrow> state_kept number a c"
  by (auto simp: state_kept_def intro: cache_grown_trans split: option.splits)

lemma load_block_kept: "state_kept (sr_table_number r) ts (snd (load_block charge r m b ts))"
proof -
  obtain x ts' where run: "load_block charge r m b ts = (x, ts')" by fastforce
  note c = load_block_cases [OF run]
  have "(case ts_cache ts of None \<Rightarrow> ts_cache ts' = None | Some c \<Rightarrow> \<exists>c'. ts_cache ts' = Some c' \<and> cache_grown (sr_table_number r) c c')"
    using c Insert_grown [of "\<lparr>table_number = sr_table_number r, block_offset = bm_offset m\<rparr>"]
    by (auto split: option.split if_splits)
  then show ?thesis using c by (simp add: run state_kept_def)
qed

lemma ReadBlock_kept: "state_kept (sr_table_number r) ts (snd (ReadBlock charge r m b ts))"
proof (cases "ts_cache ts")
  case (Some c)
  let ?key = "\<lparr>table_number = sr_table_number r, block_offset = bm_offset m\<rparr>"
  obtain h c' where l: "Lookup ?key c = (h, c')" by fastforce
  have "state_kept (sr_table_number r) ts (ts\<lparr>ts_cache := Some c'\<rparr>)"
    using Lookup_grown [of "sr_table_number r" c ?key] l Some by (simp add: state_kept_def)
  then show ?thesis using Some l load_block_kept state_kept_trans
    by (cases h) (fastforce simp: ReadBlock_def split: if_splits)+
qed (simp add: ReadBlock_def load_block_kept)

lemma FindInV2Block_kept: "state_kept number ts (snd (FindInV2Block m key n ts))"
proof -
  obtain y f where rd: "ReadExactly (unat (bm_offset m)) (unat (bm_size m)) (ts_file ts) = (y, f)" by fastforce
  then show ?thesis using ReadExactly_outcomes [OF rd]
    by (cases y) (auto simp: FindInV2Block_def on_file_def op_bind_def op_modify_def op_of_def state_kept_def split: option.split)
qed

lemma Table_Get_kept: "state_kept (sr_table_number r) ts (snd (Table_Get charge r key n ts))"
proof -
  have p: "state_kept (sr_table_number r) ts (count_probe ts)" by (simp add: state_kept_def split: option.split)
  have read: "state_kept (sr_table_number r) t (snd (op_bind (ReadBlock charge r m True) (\<lambda>es. op_of (f es)) t))" for m f t
    using ReadBlock_kept [of r t charge m True] by (auto simp: op_bind_def op_of_def split: prod.split result.split)
  show ?thesis
    using state_kept_trans [OF p] FindInV2Block_kept p
    by (simp add: Table_Get_def op_bind_def op_modify_def op_simps split: list.split)
       (auto intro!: state_kept_trans [OF p] read [unfolded op_bind_def])
qed

section \<open>Readable databases\<close>

text \<open>
  The condition under which reads are correct: sources in good order, cached blocks that belong to a table and
  agree with its file, distinct table numbers that are those of the manifest, manifest ranges that cover their
  tables, and no version held twice.
\<close>

definition db_sources :: "Db \<Rightarrow> InternalEntry list list" where
  "db_sources db =
     map dt_entries (db_tables db) @ mt_all (db_memtable db) # (case db_immutable db of None \<Rightarrow> [] | Some m \<Rightarrow> [mt_all m])"

lemma contents_sources: "contents db = set (concat (db_sources db))"
  by (auto simp: contents_def memory_def db_sources_def split: option.split)

definition covers :: "TableMeta \<Rightarrow> InternalEntry list \<Rightarrow> bool" where
  "covers meta es \<longleftrightarrow> (\<forall>e \<in> set es. tm_smallest_key meta \<le> user_key e \<and> user_key e \<le> tm_largest_key meta)"

definition table_sound :: "BlockCache \<Rightarrow> DbTable \<Rightarrow> bool" where
  "table_sound c t \<longleftrightarrow> reader_ok (dt_reader t) (ra_data (dt_file t)) \<and> cache_ok (dt_reader t) (ra_data (dt_file t)) c"

abbreviation dt_number :: "DbTable \<Rightarrow> u64" where
  "dt_number t \<equiv> sr_table_number (dt_reader t)"

definition cache_known :: "BlockCache \<Rightarrow> DbTable list \<Rightarrow> bool" where
  "cache_known c ts \<longleftrightarrow> bc_inv c \<and> (\<forall>e \<in> set (bc_lru c). table_number (ce_key e) \<in> dt_number ` set ts)"

definition db_sound :: "Db \<Rightarrow> bool" where
  "db_sound db \<longleftrightarrow>
     mt_inv (db_memtable db) \<and> (\<forall>m. db_immutable db = Some m \<longrightarrow> mt_inv m) \<and>
     (\<forall>t \<in> set (db_tables db). table_sound (db_cache db) t) \<and> distinct (map dt_number (db_tables db)) \<and>
     map dt_number (db_tables db) = map tm_file_number (live_tables (db_current db)) \<and>
     list_all2 covers (live_tables (db_current db)) (map dt_entries (db_tables db)) \<and> no_duplicates (concat (db_sources db)) \<and>
     cache_known (db_cache db) (db_tables db)"

text \<open>A sound database is readable while its tables can be read.\<close>

definition table_readable :: "BlockCache \<Rightarrow> DbTable \<Rightarrow> bool" where
  "table_readable c t \<longleftrightarrow> table_sound c t \<and> reads_ok (ra_reads (dt_file t))"

definition db_readable :: "Db \<Rightarrow> bool" where
  "db_readable db \<longleftrightarrow> db_sound db \<and> (\<forall>t \<in> set (db_tables db). reads_ok (ra_reads (dt_file t)))"

lemma db_readable_eq:
  "db_readable db \<longleftrightarrow>
     mt_inv (db_memtable db) \<and> (\<forall>m. db_immutable db = Some m \<longrightarrow> mt_inv m) \<and>
     (\<forall>t \<in> set (db_tables db). table_readable (db_cache db) t) \<and> distinct (map dt_number (db_tables db)) \<and>
     list_all2 covers (live_tables (db_current db)) (map dt_entries (db_tables db)) \<and> no_duplicates (concat (db_sources db)) \<and>
     map dt_number (db_tables db) = map tm_file_number (live_tables (db_current db)) \<and> cache_known (db_cache db) (db_tables db)"
  by (auto simp: db_readable_def db_sound_def table_readable_def)

lemma no_duplicates_unique: "no_duplicates es \<Longrightarrow> versions_unique (set es)"
  unfolding no_duplicates_def versions_unique_def same_version_def distinct_map inj_on_def by auto

lemma readable_unique: "db_readable db \<Longrightarrow> versions_unique (contents db)"
  by (simp add: db_readable_eq contents_sources no_duplicates_unique del: set_concat)

lemma readable_lengths: "db_readable db \<Longrightarrow> length (live_tables (db_current db)) = length (db_tables db)"
  unfolding db_readable_eq by (metis length_map list_all2_lengthD)

text \<open>What reads change: file positions, cached blocks and counters.\<close>

definition read_only :: "Db \<Rightarrow> Db \<Rightarrow> bool" where
  "read_only db db' \<longleftrightarrow>
     db' = db\<lparr>db_tables := db_tables db', db_cache := db_cache db', db_read_metrics := db_read_metrics db'\<rparr> \<and>
     map dt_reader (db_tables db') = map dt_reader (db_tables db) \<and>
     map dt_entries (db_tables db') = map dt_entries (db_tables db) \<and> bc_capacity (db_cache db') = bc_capacity (db_cache db)"

lemma read_only_fields:
  assumes "read_only db db'"
  shows "db_memtable db' = db_memtable db" "db_immutable db' = db_immutable db" "db_manifest db' = db_manifest db"
    "db_next_sequence db' = db_next_sequence db" "db_sources db' = db_sources db" "contents db' = contents db"
    "db_snapshots db' = db_snapshots db" "db_registry db' = db_registry db" "length (db_tables db') = length (db_tables db)"
    "db_options db' = db_options db"
proof -
  have e: "db' = db\<lparr>db_tables := db_tables db', db_cache := db_cache db', db_read_metrics := db_read_metrics db'\<rparr>"
    and m: "map dt_entries (db_tables db') = map dt_entries (db_tables db)" using assms by (simp_all add: read_only_def)
  show f: "db_memtable db' = db_memtable db" "db_immutable db' = db_immutable db" "db_manifest db' = db_manifest db"
    "db_next_sequence db' = db_next_sequence db" "db_snapshots db' = db_snapshots db" "db_registry db' = db_registry db"
    "db_options db' = db_options db"
    by (subst e, simp)+
  show "db_sources db' = db_sources db" using f m by (simp add: db_sources_def)
  then show "contents db' = contents db" by (simp add: contents_sources)
  show "length (db_tables db') = length (db_tables db)" using m map_eq_imp_length_eq by blast
qed

lemma read_only_refl: "read_only db db"
  by (simp add: read_only_def)

lemma read_only_metrics: "read_only db db' \<Longrightarrow> read_only db (db'\<lparr>db_read_metrics := x\<rparr>)"
  by (cases db; cases db') (simp add: read_only_def)

lemma read_only_trans: "read_only a b \<Longrightarrow> read_only b c \<Longrightarrow> read_only a c"
  by (cases a; cases b; cases c) (simp add: read_only_def)

lemma readable_metrics [simp]: "db_readable (db\<lparr>db_read_metrics := x\<rparr>) = db_readable db"
  by (simp add: db_readable_eq db_sources_def)

section \<open>Point reads are correct\<close>

text \<open>The newest version seen so far, over the versions considered so far.\<close>

definition newest_of :: "InternalEntry set \<Rightarrow> bytes \<Rightarrow> u64 \<Rightarrow> InternalEntry option \<Rightarrow> bool" where
  "newest_of S key n newest \<longleftrightarrow> (case newest of None \<Rightarrow> none_visible S key n | Some e \<Rightarrow> visible S key n e)"

definition answers :: "InternalEntry set \<Rightarrow> bytes \<Rightarrow> u64 \<Rightarrow> InternalEntry result \<Rightarrow> bool" where
  "answers T key n r \<longleftrightarrow> (case r of Ok e \<Rightarrow> visible T key n e | Err c \<Rightarrow> c = kNotFound \<and> none_visible T key n | UB \<Rightarrow> False)"

lemma lookup_answers: "ordered es \<Longrightarrow> answers (set es) key n (lookup_result es key n)"
  by (auto simp: answers_def lookup_result_def find_version_None find_version_visible split: option.split)

lemma MemTable_answers: "mt_inv m \<Longrightarrow> answers (set (mt_all m)) key n (MemTable_Get m key n)"
  using memtable.get_visible memtable.get_error memtable.get_safe
  by (auto simp: answers_def split: result.split)

lemma consider_newest_ok:
  assumes "candidate db = (r, db')" "answers T key n r" "newest_of S key n newest"
  obtains newest' where "consider_newest candidate newest db = (Ok newest', db')" "newest_of (S \<union> T) key n newest'"
proof (cases r)
  case (Ok e)
  have "newest_of (S \<union> T) key n (case newest of None \<Rightarrow> Some e | Some m \<Rightarrow> if sequence e > sequence m then Some e else newest)"
    using assms(2,3) Ok by (cases newest) (auto simp: newest_of_def answers_def visible_def none_visible_def)
  then show thesis using that assms(1) Ok by (simp add: consider_newest_def)
next
  case (Err c)
  then have "newest_of (S \<union> T) key n newest"
    using assms(2,3) by (auto simp: newest_of_def answers_def visible_def none_visible_def split: option.splits)
  then show thesis using that assms(1,2) Err by (simp add: consider_newest_def answers_def)
qed (use assms(2) in \<open>simp add: answers_def\<close>)

lemma newest_of_skip: "newest_of S key n newest \<Longrightarrow> \<forall>e \<in> T. user_key e \<noteq> key \<Longrightarrow> newest_of (S \<union> T) key n newest"
  by (auto simp: newest_of_def visible_def none_visible_def split: option.splits)

lemma on_table_read:
  assumes db: "db_readable db" and i: "i < length (db_tables db)"
    and run: "m (dt_reader (db_tables db ! i)) (table_state (dt_file (db_tables db ! i)) db) = (x, ts)"
    and kept: "state_kept (dt_number (db_tables db ! i)) (table_state (dt_file (db_tables db ! i)) db) ts"
    and ok: "ts_ok (dt_reader (db_tables db ! i)) (ra_data (dt_file (db_tables db ! i))) ts"
  shows "\<exists>db'. on_table m i db = (x, db') \<and> read_only db db' \<and> db_readable db'"
proof -
  let ?t = "db_tables db ! i" and ?c = "db_cache db"
  obtain c where c: "ts_cache ts = Some c" "cache_grown (dt_number ?t) ?c c"
    "ra_data (ts_file ts) = ra_data (dt_file ?t)" "reads_ok (ra_reads (dt_file ?t)) \<longrightarrow> reads_ok (ra_reads (ts_file ts))"
    using kept by (auto simp: state_kept_def table_state_def)
  have cok: "cache_ok (dt_reader ?t) (ra_data (dt_file ?t)) c" using ok c(1) by (simp add: ts_ok_def)
  let ?new = "?t\<lparr>dt_file := ts_file ts\<rparr>"
  let ?db = "(absorb_state ts db)\<lparr>db_tables := (db_tables db)[i := ?new]\<rparr>"
  have t: "table_readable ?c s" if "s \<in> set (db_tables db)" for s using db that by (simp add: db_readable_eq)
  have number: "dt_number s \<noteq> dt_number ?t" if "j < length (db_tables db)" "j \<noteq> i" "s = db_tables db ! j" for s j
    using db i that by (auto simp: db_readable_eq distinct_conv_nth)
  have tables: "table_readable c s" if s: "s \<in> set ((db_tables db)[i := ?new])" for s
  proof -
    obtain j where j: "j < length (db_tables db)" "s = (db_tables db)[i := ?new] ! j" using s by (auto simp: in_set_conv_nth)
    show ?thesis
    proof (cases "j = i")
      case True
      then show ?thesis using j t [of ?t] i c cok by (simp add: table_readable_def table_sound_def)
    next
      case False
      then have sj: "s = db_tables db ! j" using j by simp
      then have "table_readable ?c s" using t j(1) by simp
      moreover have "bc_inv c" using cok by (simp add: cache_ok_def)
      ultimately show ?thesis using cache_ok_grown [OF _ _ c(2)] number [OF j(1) False sj]
        by (auto simp: table_readable_def table_sound_def)
    qed
  qed
  have readers: "map dt_reader ((db_tables db)[i := ?new]) = map dt_reader (db_tables db)"
    using i by (simp add: map_update list_update_same_conv)
  have numbers: "map dt_number ((db_tables db)[i := ?new]) = map dt_number (db_tables db)"
    using i by (simp add: map_update list_update_same_conv)
  have entries: "map dt_entries ((db_tables db)[i := ?new]) = map dt_entries (db_tables db)"
    using i c(3) by (simp add: map_update list_update_same_conv dt_entries_def)
  have ro: "read_only db ?db"
    using readers entries c(1,2) by (simp add: read_only_def absorb_state_def cache_grown_def)
  have "cache_known c (db_tables db)"
    using db i c(2) cok by (force simp: db_readable_eq cache_known_def cache_grown_def cache_ok_def)
  then have "cache_known c ((db_tables db)[i := ?new])"
    using arg_cong [OF numbers, of set] by (simp add: cache_known_def)
  moreover have "distinct (map tm_file_number (live_tables (db_current db)))" using db by (metis db_readable_eq)
  ultimately have "db_readable ?db"
    using db tables numbers entries c(1) by (simp add: db_readable_eq absorb_state_def db_sources_def)
  with ro show ?thesis using run by (simp add: on_table_def Let_def)
qed

lemma on_table_Get:
  assumes db: "db_readable db" and on: "bc_capacity (db_cache db) \<noteq> 0" and i: "i < length (db_tables db)"
  shows "\<exists>db'. on_table (\<lambda>r. Table_Get charge r key n) i db = (lookup_result (dt_entries (db_tables db ! i)) key n, db') \<and>
    read_only db db' \<and> db_readable db'"
proof -
  let ?t = "db_tables db ! i"
  let ?ts = "table_state (dt_file ?t) db"
  obtain x ts where run: "Table_Get charge (dt_reader ?t) key n ?ts = (x, ts)" by fastforce
  have t: "table_readable (db_cache db) ?t" using db i by (simp add: db_readable_eq)
  have "ts_ok (dt_reader ?t) (ra_data (dt_file ?t)) ?ts" using t by (simp add: ts_ok_def table_state_def table_readable_def table_sound_def)
  moreover have "cache_enabled (ts_cache ?ts)" using on by (simp add: cache_enabled_def table_state_def)
  ultimately have g: "ts_ok (dt_reader ?t) (ra_data (dt_file ?t)) ts" "x = lookup_result (dt_entries ?t) key n"
    using Table_Get_ok [OF _ _ _ run, of "ra_data (dt_file ?t)"] t
    by (auto simp: table_readable_def table_sound_def dt_entries_def table_state_def)
  have "state_kept (dt_number ?t) ?ts ts" using Table_Get_kept [of "dt_reader ?t" ?ts charge key n] run by simp
  then show ?thesis using on_table_read [where m = "\<lambda>r. Table_Get charge r key n", OF db i run _ g(1)] g(2) by simp
qed

lemma table_ordered: "db_readable db \<Longrightarrow> t \<in> set (db_tables db) \<Longrightarrow> ordered (dt_entries t)"
  by (auto simp: db_readable_eq table_readable_def table_sound_def dt_entries_def intro: table_entries_ordered)

lemma get_tables_ok:
  assumes "db_readable db" "bc_capacity (db_cache db) \<noteq> 0" "list_all2 covers ms (map dt_entries (drop i (db_tables db)))"
    "newest_of S key n newest"
  shows "\<exists>newest' db'. get_tables charge key n i ms newest db = (Ok newest', db') \<and> read_only db db' \<and> db_readable db' \<and>
    newest_of (S \<union> set (concat (map dt_entries (drop i (db_tables db))))) key n newest'"
  using assms
proof (induction ms arbitrary: i S newest db)
  case Nil
  then show ?case by (auto simp: op_simps read_only_refl)
next
  case (Cons meta ms)
  have i: "i < length (db_tables db)" using Cons.prems(3) list_all2_lengthD by fastforce
  then have split: "drop i (db_tables db) = db_tables db ! i # drop (Suc i) (db_tables db)" by (simp add: Cons_nth_drop_Suc)
  let ?T = "set (dt_entries (db_tables db ! i))"
  have cov: "covers meta (dt_entries (db_tables db ! i))" "list_all2 covers ms (map dt_entries (drop (Suc i) (db_tables db)))"
    using Cons.prems(3) by (simp_all add: split)
  show ?case
  proof (cases "key < tm_smallest_key meta \<or> tm_largest_key meta < key")
    case True
    then have "\<forall>e \<in> ?T. user_key e \<noteq> key" using cov(1) by (auto simp: covers_def)
    from Cons.IH [OF Cons.prems(1,2) cov(2) newest_of_skip [OF Cons.prems(4) this]]
    show ?thesis using True by (simp add: split BytewiseLess_def Un_assoc)
  next
    case False
    obtain db1 where t: "on_table (\<lambda>r. Table_Get charge r key n) i db = (lookup_result (dt_entries (db_tables db ! i)) key n, db1)"
      "read_only db db1" "db_readable db1"
      using on_table_Get [OF Cons.prems(1,2) i] by blast
    have "ordered (dt_entries (db_tables db ! i))" using table_ordered [OF Cons.prems(1)] i by simp
    then have "answers ?T key n (lookup_result (dt_entries (db_tables db ! i)) key n)" by (rule lookup_answers)
    from consider_newest_ok [where candidate = "on_table (\<lambda>r. Table_Get charge r key n) i", OF t(1) this Cons.prems(4)]
    obtain newest1 where c: "consider_newest (on_table (\<lambda>r. Table_Get charge r key n) i) newest db = (Ok newest1, db1)"
      "newest_of (S \<union> ?T) key n newest1" by metis
    have "map dt_entries (drop (Suc i) (db_tables db1)) = map dt_entries (drop (Suc i) (db_tables db))"
      using t(2) by (simp add: read_only_def drop_map [symmetric])
    moreover have "bc_capacity (db_cache db1) \<noteq> 0" using Cons.prems(2) t(2) by (simp add: read_only_def)
    ultimately obtain newest' db' where "get_tables charge key n (Suc i) ms newest1 db1 = (Ok newest', db')" "read_only db1 db'"
      "db_readable db'" "newest_of (S \<union> ?T \<union> set (concat (map dt_entries (drop (Suc i) (db_tables db))))) key n newest'"
      using Cons.IH [OF t(3) _ _ c(2), of "Suc i"] cov(2) by auto
    then show ?thesis using False c(1) read_only_trans [OF t(2)]
      by (simp add: op_bind_def BytewiseLess_def split Un_assoc)
  qed
qed

definition live_value :: "InternalEntry set \<Rightarrow> bytes \<Rightarrow> u64 \<Rightarrow> bytes \<Rightarrow> bool" where
  "live_value V key n val \<longleftrightarrow> (\<exists>e. visible V key n e \<and> etype e = kValue \<and> evalue e = val)"

lemma RecordReadLockWait_facts [simp]:
  "CheckOpen (RecordReadLockWait db) = CheckOpen db" "foreign_snapshot s (RecordReadLockWait db) = foreign_snapshot s db"
  "read_sequence s (RecordReadLockWait db) = read_sequence s db" "db_readable (RecordReadLockWait db) = db_readable db"
  "db_manifest (RecordReadLockWait db) = db_manifest db" "db_tables (RecordReadLockWait db) = db_tables db"
  "db_cache (RecordReadLockWait db) = db_cache db" "db_memtable (RecordReadLockWait db) = db_memtable db"
  "db_immutable (RecordReadLockWait db) = db_immutable db" "read_only db (RecordReadLockWait db)"
  "contents (RecordReadLockWait db) = contents db" "db_sources (RecordReadLockWait db) = db_sources db"
  by (simp_all add: RecordReadLockWait_def CheckOpen_def foreign_snapshot_def read_sequence_def read_only_metrics read_only_refl
      contents_sources db_sources_def del: set_concat cong: option.case_cong)

lemma Db_Get_ok:
  assumes db: "db_readable db" and on: "bc_capacity (db_cache db) \<noteq> 0" and live: "CheckOpen db = kOk" "\<not> foreign_snapshot s db"
  shows "\<exists>newest db'. Db_Get charge key s db =
      (case newest of None \<Rightarrow> (Err kNotFound, db')
       | Some e \<Rightarrow> if etype e = kTombstone then (Err kNotFound, db') else (Ok (evalue e), db')) \<and>
    newest_of (contents db) key (read_sequence s db) newest \<and> read_only db db' \<and> db_readable db'"
proof -
  let ?n = "read_sequence s db"
  let ?db = "(RecordReadLockWait db)\<lparr>db_read_metrics := (db_read_metrics (RecordReadLockWait db))
    \<lparr>rm_point_lookups := rm_point_lookups (db_read_metrics (RecordReadLockWait db)) + 1\<rparr>\<rparr>"
  have r: "read_only db ?db" by (rule read_only_metrics) simp
  have q: "db_readable ?db" using db by simp
  have f: "db_memtable ?db = db_memtable db" "db_immutable ?db = db_immutable db" "db_manifest ?db = db_manifest db"
    "db_tables ?db = db_tables db" "db_cache ?db = db_cache db" "read_sequence s ?db = ?n"
    by (simp_all add: RecordReadLockWait_def read_sequence_def cong: option.case_cong)
  have none: "newest_of {} key ?n None" by (simp add: newest_of_def none_visible_def)
  have inv: "mt_inv (db_memtable db)" "\<And>m. db_immutable db = Some m \<Longrightarrow> mt_inv m"
    "list_all2 covers (live_tables (db_current db)) (map dt_entries (db_tables db))" using db by (simp_all add: db_readable_eq)
  obtain n1 where n1: "get_memtable key ?n ?db = (Ok n1, ?db)" "newest_of (set (mt_all (db_memtable db))) key ?n n1"
    using consider_newest_ok [OF _ MemTable_answers [OF inv(1)] none, of "\<lambda>db. (MemTable_Get (db_memtable db) key ?n, db)" ?db ?db]
    by (auto simp: f get_memtable_def)
  obtain n2 where n2: "get_immutable key ?n n1 ?db = (Ok n2, ?db)" "newest_of (memory db) key ?n n2"
  proof (cases "db_immutable db")
    case None
    then show thesis using that [of n1] n1(2) by (simp add: f memory_def get_immutable_def)
  next
    case (Some m)
    from consider_newest_ok [OF _ MemTable_answers [OF inv(2) [OF Some]] n1(2), of "\<lambda>db. (MemTable_Get m key ?n, db)" ?db ?db]
    obtain n2 where "consider_newest (\<lambda>db. (MemTable_Get m key ?n, db)) n1 ?db = (Ok n2, ?db)"
      "newest_of (set (mt_all (db_memtable db)) \<union> set (mt_all m)) key ?n n2" by auto
    then show thesis using that [of n2] Some by (simp add: f memory_def get_immutable_def)
  qed
  have len: "length (live_tables (db_current db)) = length (db_tables db)" using list_all2_lengthD [OF inv(3)] by simp
  obtain n3 db' where n3: "get_live charge key ?n n2 ?db = (Ok n3, db')" "read_only ?db db'"
    "db_readable db'" "newest_of (memory db \<union> set (concat (map dt_entries (db_tables db)))) key ?n n3"
    using get_tables_ok [OF q _ _ n2(2), of "live_tables (db_current db)" 0 charge] on inv(3) len by (auto simp: f get_live_def)
  have "contents db = memory db \<union> set (concat (map dt_entries (db_tables db)))" by (simp add: contents_def)
  then show ?thesis
    using n1(1) n2(1) n3 read_only_trans [OF r n3(2)] live
    by (intro exI [of _ n3] exI [of _ db'])
       (simp add: Db_Get_def Let_def op_bind_def f(6) split: option.split del: set_concat)
qed

end
