(* ===== verification/Db_Scan.thy ===== *)
theory Db_Scan
  imports Db_Read
begin

text \<open>
  Range reads of the database are complete within their range (\<open>DB::Impl::NewIterator\<close> and \<open>Scan\<close>), and the
  properties of the read path. The inputs of the merge are table iterators and captured vectors, so the merge and
  the visibility filter are instantiated on their disjoint sum.
\<close>

section \<open>The inputs of a range read\<close>

fun any_good :: "AnyIterator \<Rightarrow> bool" where
  "any_good (DiskInput d) = si_good d"
| "any_good (MemoryInput v) = vi_invar v"

fun any_all :: "AnyIterator \<Rightarrow> InternalEntry list" where
  "any_all (DiskInput d) = si_all d"
| "any_all (MemoryInput v) = vi_all v"

fun any_rest :: "AnyIterator \<Rightarrow> InternalEntry list" where
  "any_rest (DiskInput d) = si_rest d"
| "any_rest (MemoryInput v) = vi_rest v"

lemma apsnd_eq_iff: "apsnd f r = (c, y) \<longleftrightarrow> (\<exists>x. r = (c, x) \<and> y = f x)"
  by (cases r) auto

interpretation any_reliable: reliable_iterator "any_ops charge" any_good any_all any_rest for charge
proof
  fix it it' k
  assume g: "any_good it"
  show "status (any_ops charge) it = kOk" "Valid (any_ops charge) it \<longleftrightarrow> any_rest it \<noteq> []"
    "weakly_ordered (any_all it)" "weakly_ordered (any_rest it)"
    using g by (cases it; simp add: any_ops_def table_reliable.healthy vector_iterator.healthy table_reliable.Valid_rest
        vector_iterator.Valid_rest table_reliable.all_ordered vector_iterator.all_ordered table_reliable.rest_ordered
        vector_iterator.rest_ordered)+
  show "entry (any_ops charge) it = hd (any_rest it)" if "any_rest it \<noteq> []"
    using g that by (cases it) (simp_all add: any_ops_def table_reliable.entry_rest vector_iterator.entry_rest)
  show "any_good it' \<and> any_all it' = any_all it \<and> any_rest it' = filter (\<lambda>e. \<not> user_key e < k) (any_all it)"
    if run: "Seek (any_ops charge) k it = (kOk, it')" "status (any_ops charge) it' = kOk"
  proof (cases it)
    case (DiskInput d)
    then obtain d' where "Seek (table_ops charge) k d = (kOk, d')" "it' = DiskInput d'" "status (table_ops charge) d' = kOk"
      using run by (auto simp: any_ops_def apsnd_eq_iff)
    then show ?thesis using table_reliable.Seek_ok [of d charge k d'] g DiskInput by simp
  next
    case (MemoryInput v)
    then obtain v' where "Seek vector_ops k v = (kOk, v')" "it' = MemoryInput v'" "status vector_ops v' = kOk"
      using run by (auto simp: any_ops_def apsnd_eq_iff)
    then show ?thesis using vector_iterator.Seek_ok [of v k v'] g MemoryInput by simp
  qed
  show "any_good it' \<and> any_all it' = any_all it \<and> any_rest it' = tl (any_rest it)"
    if run: "any_rest it \<noteq> []" "Next (any_ops charge) it = (kOk, it')" "status (any_ops charge) it' = kOk"
  proof (cases it)
    case (DiskInput d)
    then obtain d' where "Next (table_ops charge) d = (kOk, d')" "it' = DiskInput d'" "status (table_ops charge) d' = kOk"
      using run by (auto simp: any_ops_def apsnd_eq_iff)
    then show ?thesis using table_reliable.Next_ok [of d charge d'] g run(1) DiskInput by simp
  next
    case (MemoryInput v)
    then obtain v' where "Next vector_ops v = (kOk, v')" "it' = MemoryInput v'" "status vector_ops v' = kOk"
      using run by (auto simp: any_ops_def apsnd_eq_iff)
    then show ?thesis using vector_iterator.Next_ok [of v v'] g run(1) MemoryInput by simp
  qed
  show "\<exists>it'. Seek (any_ops charge) k it = (kOk, it') \<and> status (any_ops charge) it' = kOk"
  proof (cases it)
    case (DiskInput d)
    then obtain d' where "Seek (table_ops charge) k d = (kOk, d') \<and> status (table_ops charge) d' = kOk"
      using table_reliable.Seek_total [of d charge k] g by auto
    then show ?thesis using DiskInput by (simp add: any_ops_def)
  next
    case (MemoryInput v)
    then obtain v' where "Seek vector_ops k v = (kOk, v') \<and> status vector_ops v' = kOk"
      using vector_iterator.Seek_total [of v k] g by auto
    then show ?thesis using MemoryInput by (simp add: any_ops_def)
  qed
  show "\<exists>it'. Next (any_ops charge) it = (kOk, it') \<and> status (any_ops charge) it' = kOk" if run: "any_rest it \<noteq> []"
  proof (cases it)
    case (DiskInput d)
    then obtain d' where "Next (table_ops charge) d = (kOk, d') \<and> status (table_ops charge) d' = kOk"
      using table_reliable.Next_total [of d charge] g run by auto
    then show ?thesis using DiskInput by (simp add: any_ops_def)
  next
    case (MemoryInput v)
    then obtain v' where "Next vector_ops v = (kOk, v') \<and> status vector_ops v' = kOk"
      using vector_iterator.Next_total [of v] g run by auto
    then show ?thesis using MemoryInput by (simp add: any_ops_def)
  qed
qed

definition merged_good :: "AnyIterator MergingIterator \<Rightarrow> bool" where
  "merged_good m \<longleftrightarrow> mi_invar any_good any_rest m \<and> no_duplicates (mi_all any_all m) \<and> no_duplicates (mi_rest any_rest m)"

interpretation merged_reliable: reliable_iterator "merged_ops charge" merged_good "mi_all any_all" "mi_rest any_rest" for charge
  unfolding merged_good_def by (rule any_reliable.merging_reliable)

text \<open>A merge over inputs in good order delivers all their entries in the order of the versions.\<close>

lemma NewMergingIterator_good:
  assumes good: "\<forall>it \<in> set its. any_good it" and nodup: "no_duplicates (concat (map any_all its))"
  shows "\<exists>mg. NewMergingIterator (any_ops charge) its = Ok mg \<and> merged_good mg \<and>
    mi_rest any_rest mg = sort_versions (concat (map any_all its))"
proof -
  let ?es = "concat (map any_all its)"
  let ?start = "\<lparr>mi_inputs = its, mi_heap = [], mi_winner = None, mi_previous_key = [],
        mi_previous_sequence = 0, mi_has_previous = False, mi_status = kOk\<rparr>"
  obtain mg where mg: "NewMergingIterator (any_ops charge) its = Ok mg"
    using any_reliable.NewMergingIterator_total [OF good] nodup by auto
  have mi: "mi_invar any_good any_rest mg" "mi_rest any_rest mg = sort_versions ?es"
    using any_reliable.NewMergingIterator_ok [OF mg good] by auto
  have "fst (mi_Seek (any_ops charge) [] ?start) = kOk"
    using mg by (auto simp: NewMergingIterator_def split: prod.splits if_splits)
  then have "mi_all any_all mg = sort_versions ?es"
    using mg good any_reliable.mi_Seek_ok [of ?start charge "[]" mg]
    by (auto simp: NewMergingIterator_def mi_all_def split: prod.splits if_splits)
  then have "merged_good mg" using mi nodup by (simp add: merged_good_def no_duplicates_def)
  then show ?thesis using mg mi by blast
qed

section \<open>Range reads\<close>

text \<open>
  What a range read merges: of every table whose range overlaps, all entries below the end key; of the
  MemTables, the entries of the range.
\<close>

definition table_part :: "bytes \<Rightarrow> bytes \<Rightarrow> TableMeta \<Rightarrow> InternalEntry list \<Rightarrow> InternalEntry list" where
  "table_part beg end_key meta es = filter (\<lambda>e. overlaps meta beg end_key \<and> before_end end_key e) es"

definition memory_part :: "bytes \<Rightarrow> bytes \<Rightarrow> InternalEntry list \<Rightarrow> InternalEntry list" where
  "memory_part beg end_key es = filter (\<lambda>e. in_range beg end_key (user_key e)) es"

definition scan_sources :: "bytes \<Rightarrow> bytes \<Rightarrow> Db \<Rightarrow> InternalEntry list list" where
  "scan_sources beg end_key db =
     map2 (table_part beg end_key) (live_tables (db_current db)) (map dt_entries (db_tables db)) @
     memory_part beg end_key (mt_all (db_memtable db)) #
       (case db_immutable db of None \<Rightarrow> [] | Some m \<Rightarrow> [memory_part beg end_key (mt_all m)])"

lemma no_duplicates_parts:
  assumes "list_all2 (\<lambda>a b. \<exists>P. a = filter P b) xs ys" "no_duplicates (concat ys)"
  shows "no_duplicates (concat xs)"
proof -
  have "no_duplicates (concat ys) \<Longrightarrow> no_duplicates (concat xs) \<and> set (concat xs) \<subseteq> set (concat ys)"
    using assms(1)
  proof (induction rule: list_all2_induct)
    case (Cons a xs b ys)
    then obtain P where "a = filter P b" by blast
    with Cons show ?case by (auto simp: no_duplicates_def distinct_map_filter)
  qed simp
  then show ?thesis using assms(2) by blast
qed

lemma scan_sources_no_duplicates:
  assumes "db_readable db"
  shows "no_duplicates (concat (scan_sources beg end_key db))"
proof (rule no_duplicates_parts)
  have len: "length (live_tables (db_current db)) = length (map dt_entries (db_tables db))"
    using readable_lengths [OF assms] by simp
  have "list_all2 (\<lambda>a b. \<exists>P. a = filter P b) (map2 (table_part beg end_key) ms es) es" if "length ms = length es" for ms es
    using that by (induction ms es rule: list_induct2) (auto simp: table_part_def)
  then show "list_all2 (\<lambda>a b. \<exists>P. a = filter P b) (scan_sources beg end_key db) (db_sources db)"
    using len by (auto simp: scan_sources_def db_sources_def memory_part_def intro!: list_all2_appendI split: option.split)
qed (use assms in \<open>simp add: db_readable_eq\<close>)

lemma table_inputs_ok:
  assumes "db_readable db" "end_key = [] \<or> \<not> end_key < beg" "length ms = length (drop i (db_tables db))"
  shows "\<exists>its x. table_inputs charge beg end_key i ms db = (Ok its, db\<lparr>db_read_metrics := x\<rparr>) \<and> (\<forall>it \<in> set its. any_good it) \<and>
    concat (map any_all its) = concat (map2 (table_part beg end_key) ms (map dt_entries (drop i (db_tables db))))"
  using assms
proof (induction ms arbitrary: i db)
  case Nil
  then show ?case by (auto simp: op_simps intro!: exI [of _ "db_read_metrics db"])
next
  case (Cons meta ms)
  have i: "i < length (db_tables db)" using Cons.prems(3) by simp
  then have split: "drop i (db_tables db) = db_tables db ! i # drop (Suc i) (db_tables db)" by (simp add: Cons_nth_drop_Suc)
  have len: "length ms = length (drop (Suc i) (db_tables db))" using Cons.prems(3) by simp
  show ?case
  proof (cases "overlaps meta beg end_key")
    case False
    then have "table_part beg end_key meta es = []" for es by (simp add: table_part_def)
    then show ?thesis using Cons.IH [OF Cons.prems(1,2) len] False by (simp add: split)
  next
    case True
    let ?t = "db_tables db ! i"
    let ?ts = "table_state (dt_file ?t) db"
    have t: "table_readable (db_cache db) ?t" using Cons.prems(1) i by (simp add: db_readable_eq)
    then have "reader_ok (dt_reader ?t) (ra_data (ts_file ?ts))" "ts_ok (dt_reader ?t) (ra_data (ts_file ?ts)) ?ts"
      by (simp_all add: table_readable_def table_sound_def table_state_def ts_ok_def)
    from Table_NewIterator_cases [OF this Cons.prems(2), of charge] t
    obtain it where it: "Table_NewIterator charge (dt_reader ?t) ?ts beg end_key = Ok it" "si_good it"
      "si_all it = filter (before_end end_key) (dt_entries ?t)"
      by (auto simp: table_readable_def table_sound_def table_state_def dt_entries_def)
    let ?db = "db\<lparr>db_read_metrics := (db_read_metrics db)\<lparr>rm_scan_table_inputs := rm_scan_table_inputs (db_read_metrics db) + 1\<rparr>\<rparr>"
    obtain its x where rest: "table_inputs charge beg end_key (Suc i) ms ?db = (Ok its, db\<lparr>db_read_metrics := x\<rparr>)"
      "\<forall>it \<in> set its. any_good it"
      "concat (map any_all its) = concat (map2 (table_part beg end_key) ms (map dt_entries (drop (Suc i) (db_tables db))))"
      using Cons.IH [of ?db "Suc i"] Cons.prems(1,2) len by auto
    have "table_part beg end_key meta (dt_entries ?t) = si_all it" using True it(3) by (simp add: table_part_def)
    then show ?thesis using True it(1,2) rest
      by (intro exI [of _ "DiskInput it # its"] exI [of _ x]) (simp add: op_bind_def db_modify_def op_simps split)
  qed
qed

lemma NewVectorIterator_memory:
  assumes "mt_inv m"
  shows "\<exists>it. NewVectorIterator (MemTable_Scan m beg end_key) beg end_key = Ok it \<and> vi_invar it \<and>
    vi_all it = memory_part beg end_key (mt_all m)"
proof -
  have "ordered (MemTable_Scan m beg end_key)" by (rule MemTable_Scan_ordered [OF assms])
  then have "weakly_ordered (MemTable_Scan m beg end_key)" by (rule ordered_weakly)
  moreover have "filter (before_end end_key) (MemTable_Scan m beg end_key) = MemTable_Scan m beg end_key"
    using MemTable_Scan_filter [OF assms, of beg end_key] by (auto simp: filter_id_conv before_end_def in_range_def)
  ultimately show ?thesis
    using MemTable_Scan_filter [OF assms, of beg end_key]
    by (auto simp: NewVectorIterator_def is_sorted_internal_iff vi_Seek_def vi_invar_def vi_all_def memory_part_def)
qed

lemma memory_inputs_ok:
  assumes "db_readable db"
  shows "\<exists>its. memory_inputs beg end_key db = Ok its \<and> (\<forall>it \<in> set its. any_good it) \<and>
    map any_all its = memory_part beg end_key (mt_all (db_memtable db)) #
       (case db_immutable db of None \<Rightarrow> [] | Some m \<Rightarrow> [memory_part beg end_key (mt_all m)])"
proof -
  have inv: "mt_inv (db_memtable db)" "\<And>m. db_immutable db = Some m \<Longrightarrow> mt_inv m" using assms by (simp_all add: db_readable_eq)
  obtain it where it: "NewVectorIterator (MemTable_Scan (db_memtable db) beg end_key) beg end_key = Ok it" "vi_invar it"
    "vi_all it = memory_part beg end_key (mt_all (db_memtable db))" using NewVectorIterator_memory [OF inv(1)] by blast
  show ?thesis
  proof (cases "db_immutable db")
    case None
    then show ?thesis using it by (simp add: memory_inputs_def)
  next
    case (Some m)
    obtain it' where "NewVectorIterator (MemTable_Scan m beg end_key) beg end_key = Ok it'" "vi_invar it'"
      "vi_all it' = memory_part beg end_key (mt_all m)" using NewVectorIterator_memory [OF inv(2) [OF Some]] by blast
    then show ?thesis using it Some by (simp add: memory_inputs_def)
  qed
qed

definition it_invar :: "DbIterator \<Rightarrow> bool" where
  "it_invar i \<longleftrightarrow> vis_invar merged_good (mi_rest any_rest) (it_view i)"

definition it_rest :: "DbIterator \<Rightarrow> InternalEntry list" where
  "it_rest i = vis_rest (mi_rest any_rest) (it_view i)"

lemma Db_NewIterator_ok:
  assumes db: "db_readable db" and live: "CheckOpen db = kOk" "\<not> foreign_snapshot s db" and r: "end_key = [] \<or> \<not> end_key < beg"
  shows "\<exists>i x. Db_NewIterator charge beg end_key s db = Some (Ok i, db\<lparr>db_read_metrics := x\<rparr>) \<and> it_invar i \<and> it_begin i = beg \<and>
    it_rest i = visible_entries (read_sequence s db) (sort_versions (concat (scan_sources beg end_key db)))"
proof -
  let ?db = "RecordReadLockWait db" and ?n = "read_sequence s db"
  have q: "db_readable ?db" using db by simp
  have metrics: "\<And>x. ?db\<lparr>db_read_metrics := x\<rparr> = db\<lparr>db_read_metrics := x\<rparr>" by (simp add: RecordReadLockWait_def)
  have len: "length (live_tables (db_current db)) = length (db_tables db)" by (rule readable_lengths [OF db])
  obtain disks x where d: "table_inputs charge beg end_key 0 (live_tables (db_current db)) ?db = (Ok disks, db\<lparr>db_read_metrics := x\<rparr>)"
    "\<forall>it \<in> set disks. any_good it"
    "concat (map any_all disks) = concat (map2 (table_part beg end_key) (live_tables (db_current db)) (map dt_entries (db_tables db)))"
    using table_inputs_ok [OF q r, of "live_tables (db_current db)" 0 charge] len by (auto simp: metrics)
  obtain mems where m: "memory_inputs beg end_key (db\<lparr>db_read_metrics := x\<rparr>) = Ok mems" "\<forall>it \<in> set mems. any_good it"
    "map any_all mems = memory_part beg end_key (mt_all (db_memtable db)) #
       (case db_immutable db of None \<Rightarrow> [] | Some m \<Rightarrow> [memory_part beg end_key (mt_all m)])"
    using memory_inputs_ok [of "db\<lparr>db_read_metrics := x\<rparr>" beg end_key] db by auto
  let ?es = "concat (scan_sources beg end_key db)"
  have all: "concat (map any_all (disks @ mems)) = ?es" "\<forall>it \<in> set (disks @ mems). any_good it"
    using d(2,3) m(2,3) by (auto simp: scan_sources_def)
  have nodup: "no_duplicates ?es" by (rule scan_sources_no_duplicates [OF db])
  obtain mg where mg: "NewMergingIterator (any_ops charge) (disks @ mems) = Ok mg" and good: "merged_good mg"
    and mi: "mi_rest any_rest mg = sort_versions ?es"
    using NewMergingIterator_good [OF all(2), of charge] nodup all(1) by auto
  obtain v where v: "NewVisibilityIterator (merged_ops charge) (Some mg) ?n = Some (Ok v)"
    using merged_reliable.NewVisibilityIterator_total [OF good] by blast
  have vi: "vis_invar merged_good (mi_rest any_rest) v" "vis_rest (mi_rest any_rest) v = visible_entries ?n (sort_versions ?es)"
    using merged_reliable.NewVisibilityIterator_ok [OF good, of charge ?n] v mi by auto
  have "merge_inputs charge beg end_key ?db = (Ok mg, db\<lparr>db_read_metrics := x\<rparr>)"
    using d(1) m(1) mg by (simp add: merge_inputs_def op_bind_def op_of_def)
  moreover have "\<not> (end_key \<noteq> [] \<and> BytewiseLess end_key beg)" using r by (auto simp: BytewiseLess_def)
  ultimately show ?thesis
    using live len v vi
    by (intro exI [of _ "\<lparr>it_view = v, it_begin = beg\<rparr>"] exI [of _ "x\<lparr>rm_range_scans := rm_range_scans x + 1\<rparr>"])
       (simp add: Db_NewIterator_def Let_def it_invar_def it_rest_def del: not_less de_Morgan_conj)
qed

lemma it_Next_ok:
  assumes "it_invar i" "it_Valid (Some i)"
  shows "\<exists>i'. it_Next charge (Some i) = Some (kOk, Some i') \<and> it_invar i' \<and> it_rest i' = tl (it_rest i)"
proof -
  have v: "vis_Valid (it_view i)" using assms(2) by (simp add: it_Valid_def)
  obtain v' where "vis_Next (merged_ops charge) (it_view i) = Some (kOk, v')"
    using merged_reliable.vis_Next_total [OF assms(1) [unfolded it_invar_def]] by blast
  then show ?thesis
    using merged_reliable.vis_Next_ok [OF assms(1) [unfolded it_invar_def] v, of charge]
    by (auto simp: it_Next_def it_invar_def it_rest_def)
qed

lemma it_Valid_iff: "it_invar i \<Longrightarrow> it_Valid (Some i) \<longleftrightarrow> it_rest i \<noteq> []"
  by (simp add: it_Valid_def it_rest_def it_invar_def merged_reliable.vis_Valid_iff)

lemma it_entry_hd:
  "it_invar i \<Longrightarrow> it_Valid (Some i) \<Longrightarrow> it_key charge i = user_key (hd (it_rest i)) \<and> it_value charge i = evalue (hd (it_rest i))"
  using merged_reliable.vis_entry_hd [of "it_view i" charge]
  by (simp add: it_key_def it_value_def it_invar_def it_rest_def it_Valid_def)

text \<open>The loop of \<open>Scan\<close> ends and delivers everything.\<close>

lemma scan_loop_ok:
  "it_invar i \<Longrightarrow> scan_loop charge (Some i) out = Some (Ok (out @ map (\<lambda>e. (user_key e, evalue e)) (it_rest i)))"
proof (induction "length (it_rest i)" arbitrary: i out)
  case 0
  then have "\<not> it_Valid (Some i)" "it_status (Some i) = kOk" using it_Valid_iff [of i]
    by (simp_all add: it_status_def it_invar_def vis_invar_def)
  then show ?case using 0 by (subst scan_loop.simps) simp
next
  case (Suc n)
  then have v: "it_Valid (Some i)" using it_Valid_iff [of i] by auto
  obtain i' where nx: "it_Next charge (Some i) = Some (kOk, Some i')" "it_invar i'" "it_rest i' = tl (it_rest i)"
    using it_Next_ok [OF Suc.prems v] by blast
  have "n = length (it_rest i')" using Suc.hyps(2) nx(3) by simp
  from Suc.hyps(1) [OF this nx(2)] have "scan_loop charge (Some i') (out @ [(it_key charge i, it_value charge i)]) =
      Some (Ok (out @ (it_key charge i, it_value charge i) # map (\<lambda>e. (user_key e, evalue e)) (tl (it_rest i))))"
    by (simp add: nx(3))
  moreover have "map (\<lambda>e. (user_key e, evalue e)) (it_rest i) =
      (it_key charge i, it_value charge i) # map (\<lambda>e. (user_key e, evalue e)) (tl (it_rest i))"
    using it_entry_hd [OF Suc.prems v, of charge] Suc.hyps(2) by (cases "it_rest i") auto
  ultimately show ?case using v nx(1) by (subst scan_loop.simps) simp
qed

lemma set_concat_map2: "length ms = length es \<Longrightarrow> set (concat (map2 f ms es)) = (\<Union>i < length es. set (f (ms ! i) (es ! i)))"
  by (induction ms es rule: list_induct2) (simp_all add: lessThan_Suc_eq_insert_0 image_image)

text \<open>Inside the range the merged sources hold every version of a key.\<close>

lemma scan_sources_set:
  assumes "db_readable db"
  shows "set (concat (scan_sources beg end_key db)) =
    {e \<in> memory db. in_range beg end_key (user_key e)} \<union>
    (\<Union>i < length (db_tables db). if overlaps (live_tables (db_current db) ! i) beg end_key
       then {e \<in> set (dt_entries (db_tables db ! i)). before_end end_key e} else {})"
proof -
  let ?ms = "live_tables (db_current db)" and ?ts = "db_tables db"
  have len: "length ?ms = length ?ts" by (rule readable_lengths [OF assms])
  have "set (concat (map2 (table_part beg end_key) ?ms (map dt_entries ?ts))) =
      (\<Union>i < length ?ts. set (table_part beg end_key (?ms ! i) (dt_entries (?ts ! i))))"
    using len by (subst set_concat_map2) simp_all
  also have "\<dots> = (\<Union>i < length ?ts. if overlaps (?ms ! i) beg end_key then {e \<in> set (dt_entries (?ts ! i)). before_end end_key e} else {})"
    by (auto simp: table_part_def split: if_splits)
  finally show ?thesis
    by (auto simp: scan_sources_def memory_part_def memory_def simp del: set_concat split: option.splits)
qed

lemma readable_read_metrics: "contents (db\<lparr>db_read_metrics := x\<rparr>) = contents db"
  by (simp add: contents_def memory_def)

lemma Db_Scan_ok:
  assumes db: "db_readable db" and live: "CheckOpen db = kOk" and r: "end_key = [] \<or> \<not> end_key < beg"
  shows "\<exists>es x. Db_Scan charge beg end_key db = Some (Ok (map (\<lambda>e. (user_key e, evalue e)) es), db\<lparr>db_read_metrics := x\<rparr>) \<and>
    sorted_wrt (<) (map user_key es) \<and>
    set es = {e. visible (set (concat (scan_sources beg end_key db))) (user_key e) (db_next_sequence db - 1) e \<and> etype e = kValue}"
proof -
  let ?n = "db_next_sequence db - 1" and ?s = "sort_versions (concat (scan_sources beg end_key db))"
  obtain i x where i: "Db_NewIterator charge beg end_key None db = Some (Ok i, db\<lparr>db_read_metrics := x\<rparr>)" "it_invar i"
    "it_rest i = visible_entries ?n ?s"
    using Db_NewIterator_ok [OF db live(1) _ r, of None charge] by (auto simp: foreign_snapshot_def read_sequence_def)
  have ord: "ordered ?s"
    unfolding ordered_iff_no_duplicates using scan_sources_no_duplicates [OF db, of beg end_key] by (simp add: no_duplicates_def)
  have "set (it_rest i) = {e. visible (set (concat (scan_sources beg end_key db))) (user_key e) ?n e \<and> etype e = kValue}"
    using visible_entries_spec [OF ord, of ?n] i(3) by simp
  moreover have "sorted_wrt (<) (map user_key (it_rest i))"
    unfolding i(3) visible_entries_def by (rule visible_from_sorted [OF ord]) simp
  moreover have "Db_Scan charge beg end_key db = Some (Ok (map (\<lambda>e. (user_key e, evalue e)) (it_rest i)), db\<lparr>db_read_metrics := x\<rparr>)"
    using i(1) scan_loop_ok [OF i(2), of charge "[]"] by (simp add: Db_Scan_def)
  ultimately show ?thesis by blast
qed

lemma contents_nth: "contents db = memory db \<union> (\<Union>i < length (db_tables db). set (dt_entries (db_tables db ! i)))"
  by (simp add: contents_def set_conv_nth [of "db_tables db"]) blast

lemma scan_visible_in_range:
  assumes db: "db_readable db" and k: "in_range beg end_key k" "user_key e = k"
  shows "visible (set (concat (scan_sources beg end_key db))) k n e \<longleftrightarrow> visible (contents db) k n e"
proof -
  have cov: "covers (live_tables (db_current db) ! i) (dt_entries (db_tables db ! i))" if "i < length (db_tables db)" for i
    using db that by (auto simp: db_readable_eq list_all2_conv_all_nth)
  have "overlaps (live_tables (db_current db) ! i) beg end_key"
    if "i < length (db_tables db)" "a \<in> set (dt_entries (db_tables db ! i))" "user_key a = k" for i a
    using cov [OF that(1)] that k(1) by (auto simp: covers_def overlaps_def in_range_def BytewiseLess_def)
  then have "a \<in> set (concat (scan_sources beg end_key db)) \<longleftrightarrow> a \<in> contents db" if "user_key a = k" for a
    using k(1) that unfolding scan_sources_set [OF db] contents_nth by (auto simp: in_range_def before_end_def split: if_splits)
  then show ?thesis using k(2) unfolding visible_def by metis
qed

text \<open>Outside, a range read depends on the tables alone.\<close>

lemma scan_sources_below:
  assumes "db_readable db" "a \<in> set (concat (scan_sources beg end_key db))" "user_key a < beg"
  shows "\<exists>j < length (db_tables db). a \<in> set (dt_entries (db_tables db ! j))"
  using assms(2,3) unfolding scan_sources_set [OF assms(1)] by (auto simp: in_range_def split: if_splits)

section \<open>A small database\<close>

definition two_entries :: "InternalEntry list" where
  "two_entries = [\<lparr>user_key = [1], sequence = 1, etype = kValue, evalue = [7]\<rparr>, \<lparr>user_key = [2], sequence = 2, etype = kValue, evalue = [8]\<rparr>]"

definition two_meta :: TableMeta where
  "two_meta = \<lparr>tm_file_number = 1, tm_file_size = 0, tm_smallest_key = [1], tm_largest_key = [2], tm_min_sequence = 1, tm_max_sequence = 2\<rparr>"

definition two_table :: DbTable where
  "two_table =
     (let blk = (case EncodeDataBlock two_entries 16 of Ok b \<Rightarrow> b | _ \<Rightarrow> []) in
      \<lparr>dt_reader = \<lparr>sr_file_size = of_nat (length blk), sr_version = kSstableVersion,
         sr_blocks = [\<lparr>bm_first_key = [1], bm_last_key = [2], bm_offset = 0, bm_size = of_nat (length blk)\<rparr>],
         sr_properties = None, sr_table_number = 1\<rparr>,
       dt_file = \<lparr>ra_data = blk, ra_reads = []\<rparr>\<rparr>)"

definition flushed_db :: Db where
  "flushed_db = (sample_db MemTable_empty [])
     \<lparr>db_tables := [two_table], db_next_sequence := 3,
      db_manifest := \<lparr>ms_current = initial_snapshot\<lparr>live_tables := [two_meta]\<rparr>\<rparr>\<rparr>"

lemma two_block: "\<exists>blk. EncodeDataBlock two_entries 16 = Ok blk \<and> length blk < 200"
  unfolding EncodeDataBlock_def two_entries_def encode_v2_entries.simps Let_def
  by (simp add: FitsU32_def InternalLess_builder_def max_u32_def length_PutFixed BytewiseLess_def)

lemma two_table_ok: "table_readable c two_table \<and> dt_entries two_table = two_entries" if "bc_lru c = []" "bc_inv c" for c
proof -
  obtain blk where b: "EncodeDataBlock two_entries 16 = Ok blk" "length blk < 200" using two_block by blast
  have dec: "DecodeDataBlock blk kSstableVersion = Ok two_entries"
    by (rule DecodeEncodeDataBlock [OF b(1)]) (simp add: two_entries_def)
  let ?m = "\<lparr>bm_first_key = [1], bm_last_key = [2], bm_offset = 0, bm_size = of_nat (length blk)\<rparr>"
  have t: "dt_reader two_table = \<lparr>sr_file_size = of_nat (length blk), sr_version = kSstableVersion, sr_blocks = [?m],
      sr_properties = None, sr_table_number = 1\<rparr>" "dt_file two_table = \<lparr>ra_data = blk, ra_reads = []\<rparr>"
    by (simp_all add: two_table_def b)
  have len: "unat (of_nat (length blk) :: u64) = length blk" using b(2) by (simp add: unat_of_nat_u64 max_u64_def)
  have be: "block_entries (dt_reader two_table) blk ?m = two_entries" by (simp add: block_entries_def t len dec)
  have "block_ok (dt_reader two_table) blk ?m"
    using be dec by (simp add: block_ok_def len t(1)) (simp add: two_entries_def)
  then have "reader_ok (dt_reader two_table) blk" by (simp add: reader_ok_def t)
  then show ?thesis using be that by (simp add: table_readable_def table_sound_def t(2) dt_entries_def table_entries_def cache_ok_def) (simp add: t)
qed

lemma flushed_db_readable: "db_readable flushed_db" "CheckOpen flushed_db = kOk"
  "contents flushed_db = set two_entries" "bc_capacity (db_cache flushed_db) \<noteq> 0"
proof -
  have t: "table_readable (db_cache flushed_db) two_table" "dt_entries two_table = two_entries"
    using two_table_ok [of "db_cache flushed_db"] by (simp_all add: flushed_db_def sample_db_def BlockCache_new_def bc_inv_def)
  moreover have "dt_number two_table = 1" by (simp add: two_table_def Let_def)
  moreover have "cache_known (db_cache flushed_db) [two_table]"
    by (simp add: cache_known_def flushed_db_def sample_db_def) (simp add: BlockCache_new_def)
  ultimately show "db_readable flushed_db"
    by (simp add: db_readable_eq flushed_db_def sample_db_def db_sources_def covers_def two_meta_def two_entries_def no_duplicates_def)
  show "contents flushed_db = set two_entries"
    using t by (simp add: contents_def memory_def flushed_db_def sample_db_def)
  show "CheckOpen flushed_db = kOk" "bc_capacity (db_cache flushed_db) \<noteq> 0"
    by (simp_all add: CheckOpen_def flushed_db_def sample_db_def BlockCache_new_def)
qed

text \<open>A point read returns the newest visible version.\<close>

lemma Db_Get_value:
  assumes "db_readable db" and "bc_capacity (db_cache db) \<noteq> 0" and "CheckOpen db = kOk" and "\<not> foreign_snapshot s db"
  shows "\<exists>r db'. Db_Get charge key s db = (r, db') \<and> contents db' = contents db \<and> db_readable db' \<and>
    (\<forall>v. r = Ok v \<longleftrightarrow> live_value (contents db) key (read_sequence s db) v) \<and> (r = Err kNotFound \<or> (\<exists>v. r = Ok v))"
proof -
  obtain newest db' where g: "Db_Get charge key s db =
      (case newest of None \<Rightarrow> (Err kNotFound, db')
       | Some e \<Rightarrow> if etype e = kTombstone then (Err kNotFound, db') else (Ok (evalue e), db'))"
    "newest_of (contents db) key (read_sequence s db) newest" "read_only db db'" "db_readable db'"
    using Db_Get_ok [OF assms, of charge key] by blast
  have u: "visible (contents db) key (read_sequence s db) a \<Longrightarrow> visible (contents db) key (read_sequence s db) b \<Longrightarrow> a = b" for a b
    using readable_unique [OF assms(1)] visible_unique by blast
  have c: "contents db' = contents db" by (rule read_only_fields(6) [OF g(3)])
  show ?thesis
  proof (cases newest)
    case None
    then have "\<not> live_value (contents db) key (read_sequence s db) v" for v
      using g(2) visible_not_none by (auto simp: newest_of_def live_value_def)
    then show ?thesis using g(1,4) c None by simp
  next
    case (Some e)
    then have vis: "visible (contents db) key (read_sequence s db) e" using g(2) by (simp add: newest_of_def)
    then have "live_value (contents db) key (read_sequence s db) v \<longleftrightarrow> etype e = kValue \<and> evalue e = v" for v
      using u by (auto simp: live_value_def)
    moreover have "etype e = kTombstone \<longleftrightarrow> etype e \<noteq> kValue" by (cases "etype e") auto
    ultimately show ?thesis using g(1,4) c Some by auto
  qed
qed

section \<open>Properties\<close>



text \<open>
  C9: A range read delivers, in strictly increasing key order, every live entry of its range: for every key not below
  \<open>begin\<close>, the result holds the visible value of the key over all sources exactly when the key is below \<open>end\<close> and
  has one. The loop of \<open>Scan\<close> always ends. (Nothing is claimed for keys below \<open>begin\<close>.)
\<close>

theorem db_scan_complete:
  assumes "db_readable db" and "CheckOpen db = kOk" and "end_key = [] \<or> \<not> end_key < beg"
  shows "\<exists>es db'. Db_Scan charge beg end_key db = Some (Ok (map (\<lambda>e. (user_key e, evalue e)) es), db') \<and>
    contents db' = contents db \<and> db_readable db' \<and> sorted_wrt (<) (map user_key es) \<and>
    (\<forall>e. beg \<le> user_key e \<longrightarrow> (e \<in> set es \<longleftrightarrow> in_range beg end_key (user_key e) \<and>
       visible (contents db) (user_key e) (db_next_sequence db - 1) e \<and> etype e = kValue))"
proof -
  obtain es x where s: "Db_Scan charge beg end_key db = Some (Ok (map (\<lambda>e. (user_key e, evalue e)) es), db\<lparr>db_read_metrics := x\<rparr>)"
    "sorted_wrt (<) (map user_key es)"
    "set es = {e. visible (set (concat (scan_sources beg end_key db))) (user_key e) (db_next_sequence db - 1) e \<and> etype e = kValue}"
    using Db_Scan_ok [OF assms] by blast
  have out: "\<not> visible (set (concat (scan_sources beg end_key db))) (user_key e) n e"
    if "beg \<le> user_key e" "\<not> in_range beg end_key (user_key e)" for e n
    using that unfolding visible_def scan_sources_set [OF assms(1)]
    by (auto simp: in_range_def before_end_def split: if_splits)
  have "e \<in> set es \<longleftrightarrow> in_range beg end_key (user_key e) \<and>
       visible (contents db) (user_key e) (db_next_sequence db - 1) e \<and> etype e = kValue" if "beg \<le> user_key e" for e
    using that out [OF that] scan_visible_in_range [OF assms(1)] unfolding s(3) by blast
  then show ?thesis using s(1,2) assms(1)
    by (intro exI [of _ es] exI [of _ "db\<lparr>db_read_metrics := x\<rparr>"]) (simp add: readable_read_metrics)
qed

theorem db_scan_complete_witness:
  "\<exists>es db'. Db_Scan (\<lambda>es. 1) [] [] flushed_db = Some (Ok (map (\<lambda>e. (user_key e, evalue e)) es), db') \<and> set es = set two_entries"
proof -
  obtain es db' where s: "Db_Scan (\<lambda>es. 1) [] [] flushed_db = Some (Ok (map (\<lambda>e. (user_key e, evalue e)) es), db')"
    "\<forall>e. [] \<le> user_key e \<longrightarrow> (e \<in> set es \<longleftrightarrow> in_range [] [] (user_key e) \<and>
       visible (contents flushed_db) (user_key e) (db_next_sequence flushed_db - 1) e \<and> etype e = kValue)"
    using db_scan_complete [OF flushed_db_readable(1,2), of "[]" "[]" "\<lambda>es. 1"] by blast
  have n: "db_next_sequence flushed_db - 1 = 2" by (simp add: flushed_db_def)
  have "visible (set two_entries) (user_key e) 2 e \<and> etype e = kValue \<longleftrightarrow> e \<in> set two_entries" for e
    by (auto simp: visible_def two_entries_def)
  then have "e \<in> set es \<longleftrightarrow> e \<in> set two_entries" for e
    using s(2) [rule_format, of e] unfolding flushed_db_readable(3) n by (simp add: in_range_def)
  then show ?thesis using s(1) by blast
qed



end
