(* ===== verification/Table_Output.thy ===== *)
theory Table_Output
  imports Db_Scan
begin

text \<open>
  What a flush and a compaction share: a table that was built, opened again and validated holds exactly the entries
  given to the builder, whatever the outcomes of the system calls, as long as every step reports success. The second
  part says how a state of the database stays sound when the table is added.
\<close>

section \<open>Successful reads do not depend on the system calls\<close>

definition stable :: "(RandomAccessFile, 'a) op \<Rightarrow> bool" where
  "stable m \<longleftrightarrow>
     (\<forall>f x f'. m f = (Ok x, f') \<longrightarrow> ra_data f' = ra_data f \<and>
        (\<forall>g. ra_data g = ra_data f \<and> reads_ok (ra_reads g) \<longrightarrow>
           (\<exists>g'. m g = (Ok x, g') \<and> ra_data g' = ra_data g \<and> reads_ok (ra_reads g'))))"

lemma stable_ReadExactly [simp]: "stable (ReadExactly off n)"
proof -
  have "ra_data f' = ra_data f \<and> (\<exists>g'. ReadExactly off n g = (Ok x, g') \<and> ra_data g' = ra_data g \<and> reads_ok (ra_reads g'))"
    if run: "ReadExactly off n f = (Ok x, f')" and g: "ra_data g = ra_data f" "reads_ok (ra_reads g)" for f x f' g
  proof -
    note o = ReadExactly_outcomes [OF run]
    obtain y g' where y: "ReadExactly off n g = (y, g')" by fastforce
    note o' = ReadExactly_outcomes [OF y]
    have "y = Ok x"
    proof (cases "n = 0")
      case True
      then show ?thesis using run y by (simp add: ReadExactly.simps [of off 0] op_simps)
    qed (use o o' g in auto)
    then show ?thesis using o o' g y by auto
  qed
  moreover have "ra_data f' = ra_data f" if "ReadExactly off n f = (Ok x, f')" for f x f'
    using ReadExactly_outcomes [OF that] by simp
  ultimately show ?thesis unfolding stable_def by blast
qed

lemma stable_const [simp]: "stable (op_return x)" "stable (op_of r)" "stable (op_fail c)"
  by (auto simp: stable_def op_simps op_of_def)

lemma stable_bind:
  assumes "stable m" "\<And>x. stable (k x)"
  shows "stable (op_bind m k)"
  unfolding stable_def
proof (intro allI impI)
  fix f x f'
  assume "op_bind m k f = (Ok x, f')"
  then obtain y f1 where 1: "m f = (Ok y, f1)" "k y f1 = (Ok x, f')" by (auto simp: op_bind_def split: prod.splits result.splits)
  have d: "ra_data f1 = ra_data f" "ra_data f' = ra_data f1" using 1 assms unfolding stable_def by blast+
  have "\<exists>g'. op_bind m k g = (Ok x, g') \<and> ra_data g' = ra_data g \<and> reads_ok (ra_reads g')"
    if g: "ra_data g = ra_data f" "reads_ok (ra_reads g)" for g
  proof -
    obtain g1 where g1: "m g = (Ok y, g1)" "ra_data g1 = ra_data g" "reads_ok (ra_reads g1)"
      using assms(1) 1(1) g unfolding stable_def by blast
    then obtain g2 where "k y g1 = (Ok x, g2)" "ra_data g2 = ra_data g1" "reads_ok (ra_reads g2)"
      using assms(2) [of y] 1(2) d g(1) unfolding stable_def by metis
    then show ?thesis using g1 by (simp add: op_bind_def)
  qed
  then show "ra_data f' = ra_data f \<and> (\<forall>g. ra_data g = ra_data f \<and> reads_ok (ra_reads g) \<longrightarrow>
      (\<exists>g'. op_bind m k g = (Ok x, g') \<and> ra_data g' = ra_data g \<and> reads_ok (ra_reads g')))" using d by simp
qed

lemma stable_read_footer: "stable (read_footer n)"
  unfolding read_footer_def by (intro stable_bind) (auto intro!: stable_bind split: result.split)

lemma stable_Open: "stable (Open number)"
proof -
  define body where "body n = op_bind (read_footer n) (\<lambda>footer.
        let footer_size = (if ft_version footer = kSstableVersionV1 then kSstableV1FooterSize else kSstableFooterSize);
            sections_end = of_nat n - of_nat footer_size in
        if \<not> sections_ok footer sections_end then op_fail kCorruption
        else op_bind (ReadExactly (unat (ft_index_offset footer)) (unat (ft_index_size footer))) (\<lambda>index_bytes.
        op_bind (op_of (DecodeIndex index_bytes)) (\<lambda>blocks.
        op_bind (if ft_version footer = kSstableVersion
                 then op_bind (ReadExactly (unat (ft_properties_offset footer)) (unat (ft_properties_size footer)))
                        (\<lambda>bytes. op_bind (op_of (DecodeProperties bytes)) (\<lambda>p. op_return (Some p)))
                 else op_return None) (\<lambda>properties.
        if \<not> list_all (block_in_range (ft_index_offset footer)) blocks then op_fail kCorruption
        else op_return
          \<lparr>sr_file_size = of_nat n, sr_version = ft_version footer, sr_blocks = blocks,
           sr_properties = properties, sr_table_number = number\<rparr>))))" for n
  have "stable (body n)" for n
    unfolding body_def by (intro stable_bind stable_read_footer) (auto simp: Let_def intro!: stable_bind)
  moreover have "Open number f = (if FileSize f < kSstableV1FooterSize then (Err kCorruption, f) else body (FileSize f) f)" for f
    by (simp add: Open_def body_def Let_def)
  ultimately show ?thesis unfolding stable_def by (auto simp: FileSize_def)
qed

section \<open>A built table holds its entries\<close>

lemma opened_table:
  assumes fresh: "wf_data w = []" and built: "build_table es (SSTableBuilder_new w n r) = (Ok info, b)"
    and data: "ra_data f = wf_data (sb_file b)" and small: "length (ra_data f) < 2 ^ 32"
    and seq: "\<forall>e \<in> set es. sequence e \<noteq> 0" and opened: "Open number f = (Ok rd, f')"
  shows "reader_ok rd (ra_data f') \<and> table_entries rd (ra_data f') = es \<and> sr_table_number rd = number \<and>
    ra_data f' = ra_data f \<and> info_of es info \<and> es \<noteq> []"
proof -
  obtain cs idx props where t: "concat cs = es" "table_ok r cs idx props (info_properties info)"
    "wf_data (sb_file b) = table_image r cs idx props" "info_of es info" "es \<noteq> []"
    using build_table_ok [OF fresh built] by blast
  let ?g = "f\<lparr>ra_reads := []\<rparr>"
  have img: "ra_data ?g = table_image r cs idx props" using data t(3) by simp
  have "length idx \<le> length (table_image r cs idx props)" by (simp add: table_image_def)
  then have len: "length idx < 2 ^ 32" "length (table_image r cs idx props) \<le> max_u64"
    using small img by (simp_all add: max_u64_def)
  have "reads_ok (ra_reads ?g)" by simp
  moreover have "\<forall>e \<in> set (concat cs). sequence e \<noteq> 0" using seq t(1) by simp
  ultimately obtain rd' g' where "Open number ?g = (Ok rd', g')"
    "rd' = \<lparr>sr_file_size = of_nat (FileSize ?g), sr_version = kSstableVersion, sr_blocks = metas r 0 cs,
           sr_properties = Some (info_properties info), sr_table_number = number\<rparr>"
    "reader_ok rd' (ra_data ?g)" "table_entries rd' (ra_data ?g) = concat cs"
    by (elim Open_image [OF t(2) img _ len(2,1), of number])
  then have o: "Open number ?g = (Ok rd', g')" "sr_table_number rd' = number" "reader_ok rd' (ra_data f)"
    "table_entries rd' (ra_data f) = es" using t(1) by simp_all
  have st: "ra_data f' = ra_data f \<and> (\<forall>g. ra_data g = ra_data f \<and> reads_ok (ra_reads g) \<longrightarrow>
      (\<exists>g'. Open number g = (Ok rd, g') \<and> ra_data g' = ra_data g \<and> reads_ok (ra_reads g')))"
    using stable_Open [of number] opened unfolding stable_def by blast
  have "\<exists>g'. Open number ?g = (Ok rd, g')" using st [THEN conjunct2, rule_format, of ?g] by auto
  then show ?thesis using o t(4,5) st by auto
qed

lemma load_block_uncached:
  "load_block charge r m False ts = (x, ts') \<Longrightarrow> ra_data (ts_file ts') = ra_data (ts_file ts) \<and> ts_cache ts' = ts_cache ts"
  using load_block_cases [of charge r m False ts x ts'] by (auto split: if_splits option.splits)

lemma validate_blocks_frame:
  "validate_blocks charge r ms s ts = (x, ts') \<Longrightarrow> ra_data (ts_file ts') = ra_data (ts_file ts) \<and> ts_cache ts' = ts_cache ts"
proof (induction ms arbitrary: s ts)
  case (Cons m ms)
  obtain y t where l: "load_block charge r m False ts = (y, t)" by fastforce
  note k = load_block_uncached [OF l]
  show ?case
  proof (cases y)
    case (Ok es)
    then show ?thesis using Cons.prems Cons.IH [of _ t] l k
      by (auto simp: ReadBlock_uncached op_bind_def op_simps split: if_splits)
  qed (use Cons.prems l k in \<open>auto simp: ReadBlock_uncached op_bind_def\<close>)
qed (simp add: op_simps)

lemma Validate_frame:
  "ValidateAndGetProperties charge r ts = (x, ts') \<Longrightarrow> ra_data (ts_file ts') = ra_data (ts_file ts) \<and> ts_cache ts' = ts_cache ts"
  by (auto simp: ValidateAndGetProperties_def op_bind_def op_simps split: if_splits prod.splits result.splits
      dest!: validate_blocks_frame)

section \<open>Writing a table\<close>

lemma OpenWritable_fresh:
  assumes "OpenWritable name False fs = (Ok h, fs')"
  shows "wf_data (snd h) = [] \<and> bound fs' name = Some (fst h)"
  using assms
proof (cases rule: OpenWritable_cases)
  case (truncated i p)
  then have "bound fs' = bound (set_node i fresh_node fs)" using same_files_bound by simp
  then show ?thesis using truncated by (simp add: open_handle_def fresh_node_def bound_def set_node_def)
qed (auto simp: open_handle_def fresh_node_def bound_def map_add_def split: option.split)

lemma write_back_twice: "nd_data (fs_nodes (write_back h fs) (fst h)) = wf_data (snd h)" "bound (write_back h fs) = bound fs"
  by (cases h; simp add: write_back_def Let_def set_node_def bound_def fun_eq_iff)+

text \<open>The steps from the first byte to the opened reader, on the whole database.\<close>

definition table_written :: "u64 \<Rightarrow> InternalEntry list \<Rightarrow> BuiltTableInfo \<Rightarrow> DbTable \<Rightarrow> bool" where
  "table_written number es info t \<longleftrightarrow>
     (length (ra_data (dt_file t)) < 2 ^ 32 \<longrightarrow> (\<forall>e \<in> set es. sequence e \<noteq> 0) \<longrightarrow>
        reader_ok (dt_reader t) (ra_data (dt_file t)) \<and> dt_entries t = es \<and> dt_number t = number \<and>
        info_of es info \<and> es \<noteq> [])"

lemma open_reader_written:
  assumes h: "wf_data w = []" "build_table es (SSTableBuilder_new w n r) = (Ok info, b)"
    and fs: "bound (db_fs db) name = Some i" "nd_data (fs_nodes (db_fs db) i) = wf_data (sb_file b)"
    and o: "open_reader number name db = (Ok t, db')"
  shows "table_written number es info t \<and> (\<exists>fs'. db' = db\<lparr>db_fs := fs'\<rparr>)"
proof -
  obtain f fs' f' where f: "OpenRandomAccess name (db_fs db) = (Ok f, fs')" "Open number f = (Ok (dt_reader t), f')" "dt_file t = f'"
    "db' = db\<lparr>db_fs := fs'\<rparr>"
    using o by (auto simp: open_reader_def op_bind_def on_fs_def split: prod.splits result.splits)
  have d: "ra_data f = wf_data (sb_file b)" using f(1) fs by (auto elim: OpenRandomAccess_cases)
  have "ra_data f' = ra_data f" using stable_Open [of number, unfolded stable_def, rule_format, OF f(2)] by simp
  then show ?thesis using opened_table [OF h d _ _ f(2)] f(3,4) by (auto simp: table_written_def dt_entries_def)
qed

lemma validate_reader_kept:
  assumes "validate_reader charge t db = (Ok (info, t'), db')"
  shows "(\<exists>x. db' = db\<lparr>db_read_metrics := x\<rparr>) \<and> dt_reader t' = dt_reader t \<and> ra_data (dt_file t') = ra_data (dt_file t)"
proof -
  obtain ts where v: "ValidateAndGetProperties charge (dt_reader t) (table_state (dt_file t) db) = (Ok info, ts)"
    "t' = t\<lparr>dt_file := ts_file ts\<rparr>" "db' = absorb_state ts db"
    using assms
    by (cases "ValidateAndGetProperties charge (dt_reader t) (table_state (dt_file t) db)"; cases "fst (ValidateAndGetProperties charge (dt_reader t) (table_state (dt_file t) db))")
       (auto simp: validate_reader_def on_table_file_def op_bind_def)
  note k = Validate_frame [OF v(1)]
  have "db' = db\<lparr>db_read_metrics := (db_read_metrics db)\<lparr>rm_table := ts_counters ts\<rparr>\<rparr>"
    using k v(3) by (simp add: absorb_state_def table_state_def)
  then have "\<exists>x. db' = db\<lparr>db_read_metrics := x\<rparr>" by blast
  then show ?thesis using k v(2) by (simp add: table_state_def)
qed

lemma table_written_validated:
  "table_written number es info t \<Longrightarrow> dt_reader t' = dt_reader t \<Longrightarrow> ra_data (dt_file t') = ra_data (dt_file t) \<Longrightarrow>
     table_written number es info t'"
  by (simp add: table_written_def dt_entries_def)

lemma covers_written: "info_of es info \<Longrightarrow> ordered es \<Longrightarrow> covers (meta_of number info) es"
  unfolding covers_def meta_of_def info_of_def
proof (intro ballI)
  fix e
  assume i: "es \<noteq> [] \<longrightarrow> unat (ti_entry_count info) = length es \<and> ti_smallest_key info = user_key (hd es) \<and>
      ti_largest_key info = user_key (last es) \<and> ti_min_sequence info = Min (sequence ` set es) \<and>
      ti_max_sequence info = Max (sequence ` set es)" and o: "ordered es" and e: "e \<in> set es"
  have "user_key (hd es) \<le> user_key e" using o e by (cases es) (auto simp: InternalLess_iff)
  then show "tm_smallest_key \<lparr>tm_file_number = number, tm_file_size = ti_file_size info, tm_smallest_key = ti_smallest_key info,
         tm_largest_key = ti_largest_key info, tm_min_sequence = ti_min_sequence info, tm_max_sequence = ti_max_sequence info\<rparr>
       \<le> user_key e \<and> user_key e \<le> tm_largest_key \<lparr>tm_file_number = number, tm_file_size = ti_file_size info, tm_smallest_key = ti_smallest_key info,
         tm_largest_key = ti_largest_key info, tm_min_sequence = ti_min_sequence info, tm_max_sequence = ti_max_sequence info\<rparr>"
    using ordered_last_key [OF o e] i e by auto
qed

section \<open>Frames\<close>

text \<open>Handlers change the file system and the list of files to remove; a sound state stays sound.\<close>

definition files_only :: "Db \<Rightarrow> Db \<Rightarrow> bool" where
  "files_only db db' \<longleftrightarrow> db' = db\<lparr>db_fs := db_fs db', db_pending_cleanup := db_pending_cleanup db'\<rparr>"

lemma files_only_refl [simp]: "files_only db db"
  by (simp add: files_only_def)

lemma files_only_trans: "files_only a b \<Longrightarrow> files_only b c \<Longrightarrow> files_only a c"
  by (cases a; cases b; cases c) (simp add: files_only_def)

lemma files_only_update [simp]: "files_only db (db\<lparr>db_fs := fs\<rparr>)" "files_only db (db\<lparr>db_pending_cleanup := p\<rparr>)"
  by (simp_all add: files_only_def)

lemma on_fs_files: "on_fs m db = (r, db') \<Longrightarrow> files_only db db'"
  using on_fs_result [of m db r db'] by auto

lemma BestEffortRemove_files: "files_only db (snd (BestEffortRemove p db))"
proof -
  obtain r db' where o: "on_fs (Remove p) db = (r, db')" by fastforce
  have "files_only db' (RememberCleanup p db')" by (simp add: RememberCleanup_def)
  then have "files_only db (RememberCleanup p db')" using on_fs_files [OF o] files_only_trans by blast
  then show ?thesis using on_fs_files [OF o] o by (cases r) (simp_all add: BestEffortRemove_def)
qed

lemma BestEffortSyncDir_files: "files_only db (BestEffortSyncDir db)"
  using on_fs_files [of SyncDir db] by (cases "on_fs SyncDir db") (simp add: BestEffortSyncDir_def)

lemma remove_all_files: "files_only db (snd (remove_all ps db))"
proof (induction ps arbitrary: db)
  case (Cons p ps)
  obtain a db1 where 1: "BestEffortRemove p db = (a, db1)" by fastforce
  obtain b db2 where 2: "remove_all ps db1 = (b, db2)" by fastforce
  have "files_only db db1" using BestEffortRemove_files [of db p] 1 by simp
  moreover have "files_only db1 db2" using Cons.IH [of db1] 2 by simp
  ultimately show ?case using 1 2 files_only_trans by auto
qed simp

lemma CleanupObsoleteFiles_files: "files_only db (CleanupObsoleteFiles db)"
proof -
  let ?db = "db\<lparr>db_pending_cleanup := []\<rparr>"
  obtain a db1 where 1: "remove_all (db_pending_cleanup db) ?db = (a, db1)" by fastforce
  obtain r db2 where 2: "on_fs ListDir db1 = (r, db2)" by fastforce
  have "files_only db ?db" by simp
  then have f: "files_only db db2" using remove_all_files [of ?db "db_pending_cleanup db"] on_fs_files [OF 2] 1
    by (metis files_only_trans snd_conv)
  then have s: "files_only db (BestEffortSyncDir db2)" using BestEffortSyncDir_files files_only_trans by blast
  show ?thesis
  proof (cases r)
    case (Ok names)
    obtain b db3 where 3: "remove_all (filter (obsolete (db_current db2)) names) db2 = (b, db3)" by fastforce
    then have "files_only db db3" using f remove_all_files [of db2] by (metis files_only_trans snd_conv)
    then show ?thesis using 1 2 3 Ok BestEffortSyncDir_files files_only_trans by (auto simp: CleanupObsoleteFiles_def)
  qed (use 1 2 f s in \<open>auto simp: CleanupObsoleteFiles_def\<close>)
qed

lemma files_only_fields:
  assumes "files_only db db'"
  shows "db_memtable db' = db_memtable db" "db_immutable db' = db_immutable db" "db_manifest db' = db_manifest db"
    "db_tables db' = db_tables db" "db_cache db' = db_cache db" "db_options db' = db_options db"
    "db_snapshots db' = db_snapshots db" "db_next_sequence db' = db_next_sequence db"
    "db_sound db' = db_sound db" "contents db' = contents db" "db_readable db' = db_readable db"
proof -
  have e: "db' = db\<lparr>db_fs := db_fs db', db_pending_cleanup := db_pending_cleanup db'\<rparr>" using assms by (simp add: files_only_def)
  show f: "db_memtable db' = db_memtable db" "db_immutable db' = db_immutable db" "db_manifest db' = db_manifest db"
    "db_tables db' = db_tables db" "db_cache db' = db_cache db" "db_options db' = db_options db"
    "db_snapshots db' = db_snapshots db" "db_next_sequence db' = db_next_sequence db"
    by (subst e, simp)+
  show "contents db' = contents db" by (simp add: contents_def memory_def f)
  show "db_sound db' = db_sound db" by (simp add: db_sound_def db_sources_def f)
  then show "db_readable db' = db_readable db" by (simp add: db_readable_def f)
qed

lemma sound_metrics [simp]: "db_sound (db\<lparr>db_read_metrics := x\<rparr>) = db_sound db"
  by (simp add: db_sound_def db_sources_def)

lemma db_publish_Ok:
  assumes "db_publish pb next db = (Ok (), db')"
  shows "snapshot_valid next \<and> db_current db' = next \<and> (\<exists>ms fs. db' = db\<lparr>db_manifest := ms, db_fs := fs\<rparr>)"
proof -
  obtain x ms fs where p: "Publish pb next (db_manifest db) (db_fs db) = (x, ms, fs)" by (metis prod_cases3)
  then obtain out where o: "x = Ok out" "po_state out = kDurable" "db' = db\<lparr>db_manifest := ms, db_fs := fs\<rparr>"
    using assms by (auto simp: db_publish_def Let_def split: result.splits ManifestPublishState.splits)
  then have "(\<exists>b. Encode pb next = Ok b) \<and> ms_current ms = next"
    using p by (auto simp: Publish_def NotPublished_def VisibleNotDurable_def split: result.splits prod.splits)
  then show ?thesis using o(3) by (auto simp: Encode_Ok_iff)
qed

section \<open>Exchanging tables\<close>

text \<open>
  A state with other tables is sound if the cache has no block under the number of a new table, the manifest names the tables
  and covers them, and the cache has only blocks of the tables that are left.
\<close>

lemma sound_exchange:
  assumes db: "db_sound db"
    and mem: "db_memtable db' = db_memtable db" "\<And>m. db_immutable db' = Some m \<Longrightarrow> mt_inv m"
    and new: "\<And>t. t \<in> set (db_tables db') \<Longrightarrow> t \<in> set (db_tables db) \<or>
        reader_ok (dt_reader t) (ra_data (dt_file t)) \<and> (\<forall>e \<in> set (bc_lru (db_cache db')). table_number (ce_key e) \<noteq> dt_number t)"
    and num: "distinct (map tm_file_number (live_tables (db_current db')))"
      "map dt_number (db_tables db') = map tm_file_number (live_tables (db_current db'))"
    and cov: "list_all2 covers (live_tables (db_current db')) (map dt_entries (db_tables db'))"
    and dup: "no_duplicates (concat (db_sources db'))"
    and cache: "bc_inv (db_cache db')" "\<And>e. e \<in> set (bc_lru (db_cache db')) \<Longrightarrow>
        e \<in> set (bc_lru (db_cache db)) \<and> table_number (ce_key e) \<in> dt_number ` set (db_tables db')"
  shows "db_sound db'"
proof -
  have "table_sound (db_cache db') t" if t: "t \<in> set (db_tables db')" for t
    using new [OF t]
  proof
    assume "t \<in> set (db_tables db)"
    then have "table_sound (db_cache db) t" using db by (simp add: db_sound_def)
    then show ?thesis using cache_ok_subset [of "dt_reader t" "ra_data (dt_file t)" "db_cache db" "db_cache db'"] cache
      by (auto simp: table_sound_def)
  next
    assume r: "reader_ok (dt_reader t) (ra_data (dt_file t)) \<and> (\<forall>e \<in> set (bc_lru (db_cache db')). table_number (ce_key e) \<noteq> dt_number t)"
    then have "ce_key e \<noteq> \<lparr>table_number = dt_number t, block_offset = off\<rparr>" if "e \<in> set (bc_lru (db_cache db'))" for e off
      using that by fastforce
    then show ?thesis using r cache(1) by (simp add: table_sound_def cache_ok_def)
  qed
  then show ?thesis using assms by (auto simp: db_sound_def cache_known_def)
qed

section \<open>Layers\<close>

text \<open>The sources from the oldest to the newest: a version of a key in a later source is newer.\<close>

definition layers :: "Db \<Rightarrow> InternalEntry list list" where
  "layers db = map dt_entries (db_tables db) @ (case db_immutable db of None \<Rightarrow> [] | Some m \<Rightarrow> [mt_all m]) @ [mt_all (db_memtable db)]"

definition older :: "InternalEntry list \<Rightarrow> InternalEntry list \<Rightarrow> bool" where
  "older as bs \<longleftrightarrow> (\<forall>a \<in> set as. \<forall>b \<in> set bs. user_key a = user_key b \<longrightarrow> sequence a < sequence b)"

definition layered :: "Db \<Rightarrow> bool" where
  "layered db \<longleftrightarrow> sorted_wrt older (layers db)"

lemma contents_layers: "contents db = set (concat (layers db))"
  by (auto simp: contents_def memory_def layers_def split: option.split)

lemma sources_layers: "mset (concat (db_sources db)) = mset (concat (layers db))"
  by (auto simp: db_sources_def layers_def split: option.split)

lemma no_duplicates_perm: "mset xs = mset ys \<Longrightarrow> no_duplicates xs = no_duplicates ys"
  unfolding no_duplicates_def by (rule mset_eq_imp_distinct_iff) simp

lemma sound_layers: "db_sound db \<Longrightarrow> no_duplicates (concat (layers db))"
  using no_duplicates_perm [OF sources_layers [of db]] by (simp add: db_sound_def)

section \<open>Steps that keep what the database holds\<close>

text \<open>
  A step is quiet if it changes files, flags, counters, errors and bookkeeping of the manifest only: the MemTables, the tables,
  the cache, the snapshots and the sequence are the same.
\<close>

definition quiet :: "Db \<Rightarrow> Db \<Rightarrow> bool" where
  "quiet d d' \<longleftrightarrow> db_memtable d' = db_memtable d \<and> db_immutable d' = db_immutable d \<and> db_tables d' = db_tables d \<and>
     live_tables (db_current d') = live_tables (db_current d) \<and> db_cache d' = db_cache d \<and> db_snapshots d' = db_snapshots d \<and>
     db_next_sequence d' = db_next_sequence d \<and> db_options d' = db_options d \<and> db_registry d' = db_registry d"

lemma quiet_refl [simp]: "quiet d d"
  by (simp add: quiet_def)

lemma quiet_trans: "quiet a b \<Longrightarrow> quiet b c \<Longrightarrow> quiet a c"
  by (simp add: quiet_def)

lemma quiet_facts:
  assumes "quiet d d'"
  shows "layers d' = layers d" "contents d' = contents d" "db_sound d' = db_sound d" "db_readable d' = db_readable d" "layered d' = layered d"
proof -
  show l: "layers d' = layers d" using assms by (simp add: layers_def quiet_def cong: option.case_cong)
  show "layered d' = layered d" by (simp add: layered_def l)
  show "contents d' = contents d" by (simp add: contents_layers l)
  show s: "db_sound d' = db_sound d" using assms by (simp add: db_sound_def db_sources_def quiet_def cong: option.case_cong)
  show "db_readable d' = db_readable d" using assms s by (simp add: db_readable_def quiet_def)
qed

lemma quiet_update [simp]: "quiet d (d\<lparr>db_fs := fs\<rparr>)" "quiet d (d\<lparr>db_read_metrics := rm\<rparr>)" "quiet d (d\<lparr>db_terminal_error := te\<rparr>)"
  "quiet d (d\<lparr>db_write_metrics := wm\<rparr>)" "quiet d (d\<lparr>db_compaction_metrics := cm\<rparr>)" "quiet d (d\<lparr>db_background_error := be\<rparr>)"
  "quiet d (d\<lparr>db_wal := w\<rparr>)" "quiet d (d\<lparr>db_wal := w, db_fs := fs\<rparr>)"
  by (simp_all add: quiet_def)

lemma files_only_quiet: "files_only d d' \<Longrightarrow> quiet d d'"
  by (cases d; cases d') (simp add: quiet_def files_only_def)

text \<open>A publication changes the manifest only when it succeeds.\<close>

lemma db_publish_quiet:
  assumes "db_publish pb next db = (r, db')" and "r = Ok () \<Longrightarrow> live_tables next = live_tables (db_current db)"
  shows "quiet db db'"
proof -
  obtain x ms fs where p: "Publish pb next (db_manifest db) (db_fs db) = (x, ms, fs)" by (metis prod_cases3)
  have same: "ms = db_manifest db" if "\<not> (\<exists>out. x = Ok out \<and> po_state out = kDurable)"
    using p that by (auto simp: Publish_def NotPublished_def VisibleNotDurable_def Durable_def split: result.splits prod.splits)
  show ?thesis
  proof (cases "\<exists>out. x = Ok out \<and> po_state out = kDurable")
    case True
    then have "r = Ok ()" "db' = db\<lparr>db_manifest := ms, db_fs := fs\<rparr>" using assms(1) p by (auto simp: db_publish_def)
    moreover have "db_current db' = next" using db_publish_Ok [of pb "next" db db'] assms(1) \<open>r = Ok ()\<close> by simp
    ultimately show ?thesis using assms(2) by (simp add: quiet_def)
  next
    case False
    then show ?thesis using assms(1) p same
      by (auto simp: db_publish_def Let_def quiet_def split: result.splits ManifestPublishState.splits)
  qed
qed

definition quiet_op :: "(Db, 'a) op \<Rightarrow> bool" where
  "quiet_op m \<longleftrightarrow> (\<forall>db r db'. m db = (r, db') \<longrightarrow> quiet db db')"

lemma quiet_opD: "quiet_op m \<Longrightarrow> m db = (r, db') \<Longrightarrow> quiet db db'"
  by (simp add: quiet_op_def)

lemma quiet_op_simps [simp]: "quiet_op (on_fs m)" "quiet_op (op_return x)" "quiet_op (op_of y)" "quiet_op (op_fail c)" "quiet_op (check p c)"
  using files_only_quiet [OF on_fs_files] by (auto simp: quiet_op_def op_simps op_of_def check_def split: if_splits)

lemma quiet_op_bind: "quiet_op m \<Longrightarrow> (\<And>x. quiet_op (k x)) \<Longrightarrow> quiet_op (op_bind m k)"
  unfolding quiet_op_def op_bind_def by (auto split: prod.splits result.splits) (metis quiet_trans)+

end
