(* ===== verification/Flush.thy ===== *)
theory Flush
  imports Table_Output
begin

text \<open>
  A successful \<open>FlushImmutableMemTable\<close> moves the sealed MemTable to disk without changing what the database holds:
  the new table has exactly its entries, and the state stays sound whatever other threads do while the flush works
  without the lock.
\<close>

section \<open>The steps of a successful flush\<close>

text \<open>Writing, opening and validating a table, as a flush and a compaction do it.\<close>

lemma write_steps:
  assumes o: "on_fs (OpenWritable temp False) d = (Ok h, d1)" and b: "run_builder es h d1 = (Ok built, d2)"
    and r: "open_reader number temp d2 = (Ok v, d3)" and v: "validate_reader charge v d3 = (Ok (properties, t), d4)"
  shows "table_written number es built t \<and> (\<exists>x. files_only (d\<lparr>db_read_metrics := x\<rparr>) d4)"
proof -
  obtain fs1 where 1: "OpenWritable temp False (db_fs d) = (Ok h, fs1)" "d1 = d\<lparr>db_fs := fs1\<rparr>" using on_fs_result [OF o] by auto
  have h: "wf_data (snd h) = []" "bound fs1 temp = Some (fst h)" using OpenWritable_fresh [OF 1(1)] by auto
  obtain sb where 2: "build_table es (SSTableBuilder_new (snd h) (unat (o_sstable_block_bytes (db_options d1)))
      (o_sstable_restart_interval (db_options d1))) = (Ok built, sb)" "d2 = d1\<lparr>db_fs := write_back (fst h, sb_file sb) (db_fs d1)\<rparr>"
    using b by (auto simp: run_builder_def split: prod.splits)
  have "bound (db_fs d2) temp = Some (fst h)" "nd_data (fs_nodes (db_fs d2) (fst h)) = wf_data (sb_file sb)"
    using 1(2) 2(2) h(2) write_back_twice [of "(fst h, sb_file sb)" fs1] by simp_all
  from open_reader_written [OF h(1) 2(1) this r] obtain fs3 where w: "table_written number es built v" "d3 = d2\<lparr>db_fs := fs3\<rparr>" by auto
  obtain x where x: "d4 = d3\<lparr>db_read_metrics := x\<rparr>" "dt_reader t = dt_reader v" "ra_data (dt_file t) = ra_data (dt_file v)"
    using validate_reader_kept [OF v] by auto
  have "files_only (d\<lparr>db_read_metrics := x\<rparr>) d4" using 1(2) 2(2) w(2) x(1) by (simp add: files_only_def)
  then show ?thesis using table_written_validated [OF w(1) x(2,3)] by blast
qed

lemma flush_write_Ok:
  assumes "flush_write charge number es d0 = (Ok (built, properties, t), d)"
  shows "table_written number es built t \<and> (\<exists>x. files_only (d0\<lparr>db_read_metrics := x\<rparr>) d)"
proof -
  let ?temp = "SstableTempFileName number"
  from assms obtain d1 h d2 d3 v d4 d5 d6 where
    s: "check (es \<noteq> []) kCorruption d0 = (Ok (), d1)" "on_fs (OpenWritable ?temp False) d1 = (Ok h, d2)"
    "run_builder es h d2 = (Ok built, d3)" "open_reader number ?temp d3 = (Ok v, d4)" "validate_reader charge v d4 = (Ok (properties, t), d5)"
    "on_fs (Rename ?temp (SstableFileName number)) d5 = (Ok (), d6)" "on_fs SyncDir d6 = (Ok (), d)"
    by (auto simp: flush_write_def op_bind_Ok_iff op_simps)
  have "d1 = d0" using s(1) by (simp add: check_def split: if_splits)
  with write_steps [OF s(2-5)] obtain x where
    w: "table_written number es built t" "files_only (d0\<lparr>db_read_metrics := x\<rparr>) d5" by auto
  have "files_only (d0\<lparr>db_read_metrics := x\<rparr>) d" using w(2) on_fs_files [OF s(6)] on_fs_files [OF s(7)] files_only_trans by blast
  then show ?thesis using w(1) by blast
qed

lemma flush_entries_steps:
  assumes "flush_entries pb charge others (number, wal, es) d0 = (Ok (), db')"
  obtains built properties t d x where "table_written number es built t" "files_only (d0\<lparr>db_read_metrics := x\<rparr>) d"
    "flush_publish pb number wal built (properties, t) (others d) = (Ok (), db')"
proof -
  from assms obtain built properties t d where w: "flush_write charge number es d0 = (Ok (built, properties, t), d)"
    "flush_publish pb number wal built (properties, t) (others d) = (Ok (), db')"
    by (auto simp: flush_entries_def op_bind_Ok_iff db_modify_def)
  then show thesis using that flush_write_Ok [OF w(1)] by blast
qed

lemma flush_steps:
  assumes "FlushImmutableMemTable pb charge others db = (Ok (), db')" "db_immutable db = Some imm"
  obtains number wal built properties t d x where "table_written number (MemTable_Scan imm [] []) built t"
    "files_only (db\<lparr>db_read_metrics := x\<rparr>) d" "flush_publish pb number wal built (properties, t) (others d) = (Ok (), db')"
proof -
  obtain number wal d0 where w: "flush_entries pb charge others (number, wal, MemTable_Scan imm [] []) d0 = (Ok (), db')"
    "files_only db d0"
  proof -
    obtain work d0 where 0: "flush_begin db = (Ok work, d0)"
      "(case work of None \<Rightarrow> op_return () | Some w \<Rightarrow> flush_entries pb charge others w) d0 = (Ok (), db')"
      using assms(1) unfolding FlushImmutableMemTable_def op_bind_Ok_iff by blast
    have "d0 = CleanupObsoleteFiles db" "work = Some (active_wal_number (db_current db) - 1, immutable_wal_number (db_current db),
        MemTable_Scan imm [] [])"
      using 0(1) assms(2) by (simp_all add: flush_begin_def Let_def split: if_splits)
    then show thesis using that 0(2) CleanupObsoleteFiles_files [of db] by simp
  qed
  obtain built properties t d x where f: "table_written number (MemTable_Scan imm [] []) built t"
    "files_only (d0\<lparr>db_read_metrics := x\<rparr>) d" "flush_publish pb number wal built (properties, t) (others d) = (Ok (), db')"
    by (rule flush_entries_steps [OF w(1)])
  have "files_only (db\<lparr>db_read_metrics := x\<rparr>) (d0\<lparr>db_read_metrics := x\<rparr>)"
    using w(2) by (cases db; cases d0) (simp add: files_only_def)
  then show thesis using that f files_only_trans by blast
qed

text \<open>Until the publication a flush is quiet, whatever happens to it.\<close>

lemma validate_reader_quiet: "quiet_op (validate_reader charge t)"
proof -
  have "quiet db (absorb_state ts db)"
    if "ValidateAndGetProperties charge (dt_reader t) (table_state (dt_file t) db) = (x, ts)" for x ts db
    using Validate_frame [OF that] by (simp add: absorb_state_def table_state_def quiet_def)
  then show ?thesis
    by (auto simp: quiet_op_def validate_reader_def on_table_file_def op_bind_def split: prod.splits result.splits)
qed

lemma open_reader_quiet: "quiet_op (open_reader number name)"
  unfolding open_reader_def by (intro quiet_op_bind quiet_op_simps) (auto simp: quiet_op_def split: prod.splits result.splits)

lemma flush_write_quiet: "quiet_op (flush_write charge number es)"
proof -
  have "quiet_op (run_builder es h)" for h by (auto simp: quiet_op_def run_builder_def split: prod.splits)
  then show ?thesis unfolding flush_write_def by (intro quiet_op_bind quiet_op_simps open_reader_quiet validate_reader_quiet)
qed

lemma flush_begin_quiet: "quiet_op flush_begin"
  using files_only_quiet [OF CleanupObsoleteFiles_files]
  by (auto simp: quiet_op_def flush_begin_def Let_def split: option.splits if_splits)

lemma flush_publish_failed:
  assumes "flush_publish pb number wal built verified db = (r, db')" "r \<noteq> Ok ()"
  shows "quiet db db'"
  using assms db_publish_quiet [of pb _ db] by (auto simp: flush_publish_def Let_def op_bind_def split: if_splits prod.splits result.splits)

section \<open>The state stays sound\<close>

lemma UpdateCompactionGauges_fields [simp]:
  "db_memtable (UpdateCompactionGauges db) = db_memtable db" "db_immutable (UpdateCompactionGauges db) = db_immutable db"
  "db_tables (UpdateCompactionGauges db) = db_tables db" "db_manifest (UpdateCompactionGauges db) = db_manifest db"
  "db_cache (UpdateCompactionGauges db) = db_cache db" "db_next_sequence (UpdateCompactionGauges db) = db_next_sequence db"
  "db_snapshots (UpdateCompactionGauges db) = db_snapshots db" "db_options (UpdateCompactionGauges db) = db_options db"
  by (simp_all add: UpdateCompactionGauges_def Let_def)

lemma flush_install_fields:
  "db_memtable (flush_install wal built t db) = db_memtable db" "db_immutable (flush_install wal built t db) = None"
  "db_tables (flush_install wal built t db) = db_tables db @ [t]" "db_manifest (flush_install wal built t db) = db_manifest db"
  "db_cache (flush_install wal built t db) = db_cache db" "db_next_sequence (flush_install wal built t db) = db_next_sequence db"
proof -
  define d where "d = (let db = db\<lparr>db_tables := db_tables db @ [t], db_immutable := None,
                 db_compaction_metrics := (db_compaction_metrics db)\<lparr>cm_flush_output_bytes :=
                   cm_flush_output_bytes (db_compaction_metrics db) + ti_file_size built\<rparr>\<rparr>;
          db = UpdateCompactionGauges db
      in db\<lparr>db_compaction_requested := (db_compaction_requested db \<or> NeedsBackgroundCompaction db),
                  db_write_metrics := (db_write_metrics db)
                    \<lparr>wm_background_queue_depth := 0, wm_immutable_memtable_bytes := 0\<rparr>\<rparr>)"
  obtain b d1 where r: "BestEffortRemove (WalFileName wal) d = (b, d1)" by fastforce
  have i: "flush_install wal built t db = (if b then BestEffortSyncDir d1 else d1)"
    using r by (simp add: flush_install_def d_def Let_def)
  have "files_only d (flush_install wal built t db)"
    unfolding i using BestEffortRemove_files [of d "WalFileName wal"] BestEffortSyncDir_files [of d1] r files_only_trans by auto
  note f = files_only_fields [OF this]
  show "db_memtable (flush_install wal built t db) = db_memtable db" "db_immutable (flush_install wal built t db) = None"
    "db_tables (flush_install wal built t db) = db_tables db @ [t]" "db_manifest (flush_install wal built t db) = db_manifest db"
    "db_cache (flush_install wal built t db) = db_cache db" "db_next_sequence (flush_install wal built t db) = db_next_sequence db"
    unfolding f(1-5,8) by (simp_all add: d_def Let_def)
qed

lemma MemTable_Scan_all: "mt_inv m \<Longrightarrow> MemTable_Scan m [] [] = mt_all m"
  by (subst MemTable_Scan_filter) (simp_all add: in_range_def)

lemma flush_publish_sound:
  assumes p: "flush_publish pb number wal built (properties, t) db = (Ok (), db')"
    and db: "db_sound db" "db_immutable db = Some imm"
    and t: "table_written number (MemTable_Scan imm [] []) built t" "length (ra_data (dt_file t)) < 2 ^ 32"
    and seq: "\<forall>e \<in> set (mt_all imm). sequence e \<noteq> 0"
  shows "db_sound db' \<and> layers db' = layers db \<and> db_immutable db' = None"
proof -
  let ?meta = "meta_of number built"
  let ?next = "(db_current db)\<lparr>immutable_wal_number := 0, last_sequence := ti_max_sequence built,
      live_tables := live_tables (db_current db) @ [?meta]\<rparr>"
  have inv: "mt_inv imm" using db by (simp add: db_sound_def)
  have w: "reader_ok (dt_reader t) (ra_data (dt_file t))" "dt_entries t = mt_all imm" "dt_number t = number" "info_of (mt_all imm) built"
    using t seq MemTable_Scan_all [OF inv] by (simp_all add: table_written_def)
  obtain d where d: "db_publish pb ?next db = (Ok (), d)" "db' = flush_install wal built t d"
    using p by (auto simp: flush_publish_def Let_def op_bind_Ok_iff split: if_splits)
  obtain ms fs where pub: "snapshot_valid ?next" "db_current d = ?next" "d = db\<lparr>db_manifest := ms, db_fs := fs\<rparr>"
    using db_publish_Ok [OF d(1)] by blast
  note f = flush_install_fields [of wal built t d, folded d(2)]
  have tabs: "db_tables db' = db_tables db @ [t]" "db_memtable db' = db_memtable db" "db_cache db' = db_cache db"
    "live_tables (db_current db') = live_tables (db_current db) @ [?meta]"
    using f pub(2,3) by simp_all
  have num: "map dt_number (db_tables db) = map tm_file_number (live_tables (db_current db))" using db by (simp add: db_sound_def)
  have dist: "distinct (map tm_file_number (live_tables (db_current db) @ [?meta]))" using pub(1) by (simp add: snapshot_valid_def)
  then have new: "number \<notin> dt_number ` set (db_tables db)"
    using arg_cong [OF num, of set] by (simp add: meta_of_def)
  then have uncached: "\<forall>e \<in> set (bc_lru (db_cache db)). table_number (ce_key e) \<noteq> number"
    using db(1) by (auto simp: db_sound_def cache_known_def)
  have src: "db_sources db' = map dt_entries (db_tables db) @ [mt_all imm, mt_all (db_memtable db)]"
    using tabs f(2) w(2) by (simp add: db_sources_def)
  have old: "db_sources db = map dt_entries (db_tables db) @ [mt_all (db_memtable db), mt_all imm]"
    using db(2) by (simp add: db_sources_def)
  have "no_duplicates (concat (db_sources db'))"
    using no_duplicates_perm [of "concat (db_sources db')" "concat (db_sources db)"] db(1) src old by (simp add: db_sound_def)
  moreover have "covers ?meta (dt_entries t)"
    using covers_written [OF w(4)] table_entries_ordered [OF w(1)] w(2) by (simp add: dt_entries_def)
  ultimately have "db_sound db'"
    using db(1) w(1,3) dist num uncached f(2) tabs
    by (intro sound_exchange [OF db(1)]) (auto simp: db_sound_def cache_known_def meta_of_def list_all2_appendI)
  moreover have "layers db' = layers db" using tabs f(2) w(2) db(2) by (simp add: layers_def)
  ultimately show ?thesis using f(2) by simp
qed

section \<open>A flush that succeeds\<close>

definition any_pb :: Protobuf where
  "any_pb = \<lparr>ByteSizeLong = (\<lambda>_. 1), SerializeToString = (\<lambda>_. Some [0]), ParseFromArray = (\<lambda>_. None)\<rparr>"

definition sealed_memtable :: MemTable where
  "sealed_memtable = \<lparr>mt_entries = [([1], [sample_entry])], mt_bytes = 90\<rparr>"

definition sealed_snapshot :: ManifestSnapshot where
  "sealed_snapshot = \<lparr>active_wal_number = 3, next_file_number = 4, last_sequence = 0, live_tables = [], immutable_wal_number = 1\<rparr>"

definition sealed_db :: Db where
  "sealed_db = (sample_db MemTable_empty [])
     \<lparr>db_immutable := Some sealed_memtable, db_manifest := \<lparr>ms_current = sealed_snapshot\<rparr>, db_next_sequence := 6\<rparr>"

lemma sealed_db_facts:
  "db_sound sealed_db" "db_immutable sealed_db = Some sealed_memtable" "mt_all sealed_memtable = [sample_entry]"
  "MemTable_Scan sealed_memtable [] [] = [sample_entry]" "layers sealed_db = [[sample_entry], []]"
proof -
  have inv: "mt_inv sealed_memtable" and all: "mt_all sealed_memtable = [sample_entry]"
    by (simp_all add: sealed_memtable_def mt_inv_def mt_shape_def versions_ok_def mt_all_def sample_entry_def)
  show "mt_all sealed_memtable = [sample_entry]" by (rule all)
  show "db_immutable sealed_db = Some sealed_memtable" by (simp add: sealed_db_def)
  show "MemTable_Scan sealed_memtable [] [] = [sample_entry]" using MemTable_Scan_all [OF inv] all by simp
  show "layers sealed_db = [[sample_entry], []]" by (simp add: layers_def sealed_db_def sample_db_def all)
  show "db_sound sealed_db"
    by (simp add: db_sound_def sealed_db_def sample_db_def inv db_sources_def all sealed_snapshot_def cache_known_def no_duplicates_def)
       (simp add: BlockCache_new_def bc_inv_def)
qed

text \<open>The disk after the temporary table file was written.\<close>

definition temp_disk :: "SSTableBuilder \<Rightarrow> FileSystem" where
  "temp_disk b = write_back (2, sb_file b)
     (sample_disk\<lparr>fs_dir := fs_dir sample_disk @ [(SstableTempFileName 2, 2)], fs_past := [fs_dir sample_disk], fs_fresh := 3,
        fs_nodes := (fs_nodes sample_disk)(2 := fresh_node)\<rparr>)"

lemma sealed_begin: "flush_begin sealed_db = (Ok (Some (2, 1, [sample_entry])), sealed_db)"
proof -
  have "\<not> obsolete sealed_snapshot (WalFileName 1)"
    by (simp add: obsolete_def WalFileName_def Parse_Format sealed_snapshot_def)
  moreover have "\<not> obsolete sealed_snapshot kManifest"
    using Parse_canonical(2) [of kManifest] numbered_names(1) [symmetric]
    by (cases "ParseNumberedFileName kManifest") (simp add: obsolete_def, blast)
  moreover have "db_current sealed_db = sealed_snapshot" by (simp add: sealed_db_def)
  ultimately have "CleanupObsoleteFiles sealed_db = sealed_db"
    by (simp add: CleanupObsoleteFiles_def sealed_db_def sample_db_def on_fs_def ListDir_def syscall_def pop_fault_def sample_disk_def)
  then show ?thesis
    using sealed_db_facts(2,4) by (simp add: flush_begin_def Let_def) (simp add: sealed_db_def sealed_snapshot_def sample_db_def)
qed

lemma sealed_open:
  "on_fs (OpenWritable (SstableTempFileName 2) False) sealed_db =
     (Ok (2, sample_file), sealed_db\<lparr>db_fs := sample_disk\<lparr>fs_dir := fs_dir sample_disk @ [(SstableTempFileName 2, 2)],
        fs_past := [fs_dir sample_disk], fs_fresh := 3, fs_nodes := (fs_nodes sample_disk)(2 := fresh_node)\<rparr>\<rparr>)"
  by (simp add: sealed_db_def sample_db_def on_fs_def OpenWritable_def syscall_def pop_fault_def pop_plan_def no_plan_def bound_def
      sample_disk_def open_handle_def fresh_node_def sample_file_def change_dir_def set_node_def)

text \<open>The table that the builder wrote is opened, and its validation returns the properties of the builder.\<close>

lemma sealed_table:
  obtains info b p and t :: DbTable where "build_table [sample_entry] (SSTableBuilder_new sample_file 4096 16) = (Ok info, b)"
    "length (wf_data (sb_file b)) < 1000" "info_of [sample_entry] info" "ti_file_size info \<noteq> 0"
    "Open 2 \<lparr>ra_data = wf_data (sb_file b), ra_reads = []\<rparr> = (Ok (dt_reader t), dt_file t)" "ra_data (dt_file t) = wf_data (sb_file b)"
    "\<And>charge c rc. \<exists>ts. ValidateAndGetProperties charge (dt_reader t) \<lparr>ts_file = dt_file t, ts_cache = c, ts_counters = rc\<rparr> = (Ok p, ts)"
    "Matches (meta_of 2 info) p"
proof -
  obtain info b where b: "build_table [sample_entry] (SSTableBuilder_new sample_file 4096 16) = (Ok info, b)"
    "length (wf_data (sb_file b)) < 1000" using sample_table_built by blast
  have fresh: "wf_data sample_file = []" by (simp add: sample_file_def)
  obtain cs idx props where t: "concat cs = [sample_entry]" "table_ok 16 cs idx props (info_properties info)"
    "wf_data (sb_file b) = table_image 16 cs idx props" "info_of [sample_entry] info" "ti_file_size info = of_nat (length (wf_data (sb_file b)))"
    using build_table_ok [OF fresh b(1)] by blast
  let ?f = "\<lparr>ra_data = wf_data (sb_file b), ra_reads = []\<rparr>"
  have len: "length idx < 2 ^ 32" "length (table_image 16 cs idx props) \<le> max_u64"
    using b(2) t(3) by (simp_all add: table_image_def max_u64_def)
  obtain rd f' where o: "Open 2 ?f = (Ok rd, f')" "reads_ok (ra_reads f')" "ra_data f' = wf_data (sb_file b)"
    "rd = \<lparr>sr_file_size = of_nat (FileSize ?f), sr_version = kSstableVersion, sr_blocks = metas 16 0 cs,
           sr_properties = Some (info_properties info), sr_table_number = 2\<rparr>"
    "reader_ok rd (wf_data (sb_file b))" "table_entries rd (wf_data (sb_file b)) = [sample_entry]"
    by (rule Open_image [OF t(2) _ _ len(2,1), of ?f 2]) (use t in \<open>auto simp: sample_entry_def\<close>)
  have props: "sr_properties rd = Some (info_properties info)" "sr_file_size rd = ti_file_size info"
    using o(4) t(5) by (simp_all add: FileSize_def)
  define p where "p = \<lparr>ti_file_size = ti_file_size info, ti_entry_count = ti_entry_count info, ti_smallest_key = ti_smallest_key info,
    ti_largest_key = ti_largest_key info, ti_min_sequence = ti_min_sequence info, ti_max_sequence = ti_max_sequence info\<rparr>"
  have "\<exists>ts. ValidateAndGetProperties charge rd \<lparr>ts_file = f', ts_cache = c, ts_counters = rc\<rparr> = (Ok p, ts)" for charge c rc
  proof -
    obtain i ts where v: "ValidateAndGetProperties charge rd \<lparr>ts_file = f', ts_cache = c, ts_counters = rc\<rparr> = (Ok i, ts)"
      using ValidateAndGetProperties_total [OF o(5,6) _ props(1) t(4)] o(2,3) by fastforce
    then have "i = p"
      using props by (auto simp: ValidateAndGetProperties_def p_def info_properties_def op_bind_Ok_iff op_simps split: if_splits)
    then show ?thesis using v by blast
  qed
  moreover have "Matches (meta_of 2 info) p" by (simp add: Matches_def meta_of_def p_def)
  moreover have "ti_file_size info \<noteq> 0"
  proof -
    have "0 < length (wf_data (sb_file b))" by (simp add: t(3) table_image_def length_EncodeFooter kSstableFooterSize_def)
    then show ?thesis using b(2) t(5) by (simp add: word_of_nat_eq_0_iff nat_dvd_not_less)
  qed
  ultimately show thesis using that [of info b "\<lparr>dt_reader = rd, dt_file = f'\<rparr>" p] b t(4) o(1,3) by simp
qed

text \<open>Publishing on a healthy disk succeeds.\<close>

lemma healthy_publish:
  assumes "fs_faults (db_fs db) = []" "fs_plans (db_fs db) = []" "bound (db_fs db) kTemp = None" "fs_exists (db_fs db)"
    "snapshot_valid next" "\<forall>t \<in> set (live_tables next). length (tm_smallest_key t) \<le> 100 \<and> length (tm_largest_key t) \<le> 100"
  shows "\<exists>fs. db_publish any_pb next db = (Ok (), db\<lparr>db_manifest := (db_manifest db)\<lparr>ms_current := next\<rparr>, db_fs := fs\<rparr>)"
proof -
  have e: "Encode any_pb next = Ok (manifest_frame [0])"
    using assms(5,6) by (auto simp: Encode_Ok_iff any_pb_def kMaxManifestFileBytes_def kManifestHeaderBytes_def)
  have b: "map_of (fs_dir (db_fs db)) kTemp = None" using assms(3) by (simp add: bound_def)
  have "\<exists>fs. Publish any_pb next (db_manifest db) (db_fs db) = (Ok Durable, (db_manifest db)\<lparr>ms_current := next\<rparr>, fs)"
    using assms(1,2,4) b
    by (simp add: Publish_def e write_temp_def OpenWritable_def syscall_def pop_fault_def pop_plan_def no_plan_def bound_def open_handle_def
        fresh_node_def handle_Append_def handle_Sync_def handle_Close_def on_handle_def Append_def Sync_def CloseFile_def op_bind_def
        write_back_def mark_clean_def set_node_def change_dir_def Rename_def SyncDir_def rename_entry_def append_loop_all Let_def
        map_add_def)
  then show ?thesis by (auto simp: db_publish_def Durable_def Let_def)
qed

lemma temp_disk_facts:
  "fs_faults (temp_disk b) = []" "fs_plans (temp_disk b) = []" "fs_exists (temp_disk b)" "bound (temp_disk b) (SstableTempFileName 2) = Some 2"
  "nd_data (fs_nodes (temp_disk b) 2) = wf_data (sb_file b)"
  "fs_dir (temp_disk b) = [(kManifest, 0), (WalFileName 1, 1), (SstableTempFileName 2, 2)]"
  by (simp_all add: temp_disk_def write_back_def set_node_def Let_def sample_disk_def bound_def)

lemma sealed_rename:
  "\<exists>fs. Rename (SstableTempFileName 2) (SstableFileName 2) (temp_disk b) = (Ok (), fs) \<and> fs_faults fs = [] \<and> fs_plans fs = [] \<and>
     fs_exists fs \<and> bound fs kTemp = None"
  using temp_disk_facts [of b]
  by (simp add: Rename_def syscall_def pop_fault_def bound_def rename_entry_def change_dir_def)

lemma healthy_SyncDir:
  "fs_faults fs = [] \<Longrightarrow> fs_exists fs \<Longrightarrow> \<exists>fs'. SyncDir fs = (Ok (), fs') \<and> fs_faults fs' = [] \<and> fs_plans fs' = fs_plans fs \<and>
     fs_exists fs' \<and> bound fs' = bound fs"
  by (simp add: SyncDir_def syscall_def pop_fault_def bound_def fun_eq_iff)

lemma validate_reader_run:
  assumes run: "ValidateAndGetProperties charge (dt_reader t) (table_state (dt_file t) db) = (Ok p, ts)"
  shows "\<exists>v x. validate_reader charge t db = (Ok (p, v), db\<lparr>db_read_metrics := x\<rparr>) \<and> ra_data (dt_file v) = ra_data (dt_file t)"
proof -
  have k: "ra_data (ts_file ts) = ra_data (dt_file t)" "ts_cache ts = Some (db_cache db)"
    using Validate_frame [OF run] by (simp_all add: table_state_def)
  have "validate_reader charge t db =
      (Ok (p, t\<lparr>dt_file := ts_file ts\<rparr>), db\<lparr>db_read_metrics := (db_read_metrics db)\<lparr>rm_table := ts_counters ts\<rparr>\<rparr>)"
    by (simp add: validate_reader_def op_bind_def on_table_file_def run absorb_state_def k(2))
  moreover have "ra_data (dt_file (t\<lparr>dt_file := ts_file ts\<rparr>)) = ra_data (dt_file t)" using k(1) by simp
  ultimately show ?thesis by blast
qed

lemma sealed_flush:
  "\<exists>db'. FlushImmutableMemTable any_pb charge id sealed_db = (Ok (), db') \<and> (\<forall>t \<in> set (db_tables db'). length (ra_data (dt_file t)) < 2 ^ 32)"
proof -
  obtain info b p and t :: DbTable where t: "build_table [sample_entry] (SSTableBuilder_new sample_file 4096 16) = (Ok info, b)"
    "length (wf_data (sb_file b)) < 1000" "info_of [sample_entry] info" "ti_file_size info \<noteq> 0"
    "Open 2 \<lparr>ra_data = wf_data (sb_file b), ra_reads = []\<rparr> = (Ok (dt_reader t), dt_file t)" "ra_data (dt_file t) = wf_data (sb_file b)"
    "\<And>charge c rc. \<exists>ts. ValidateAndGetProperties charge (dt_reader t) \<lparr>ts_file = dt_file t, ts_cache = c, ts_counters = rc\<rparr> = (Ok p, ts)"
    "Matches (meta_of 2 info) p"
    by (rule sealed_table) blast
  define d1 where "d1 = snd (on_fs (OpenWritable (SstableTempFileName 2) False) sealed_db)"
  let ?d2 = "sealed_db\<lparr>db_fs := temp_disk b\<rparr>"
  have opts: "db_options d1 = sample_options" by (simp add: d1_def sealed_open) (simp add: sealed_db_def sample_db_def)
  have built: "run_builder [sample_entry] (2, sample_file) d1 = (Ok info, ?d2)"
    using t(1) by (simp add: run_builder_def opts sample_options_def) (simp add: d1_def sealed_open temp_disk_def)
  have "OpenRandomAccess (SstableTempFileName 2) (temp_disk b) = (Ok \<lparr>ra_data = wf_data (sb_file b), ra_reads = []\<rparr>, temp_disk b)"
    using temp_disk_facts [of b] by (simp add: OpenRandomAccess_def syscall_def pop_fault_def pop_plan_def no_plan_def)
  then have opened: "open_reader 2 (SstableTempFileName 2) ?d2 = (Ok t, ?d2)"
    using t(5) by (simp add: open_reader_def op_bind_def on_fs_def)
  obtain ts where "ValidateAndGetProperties charge (dt_reader t) (table_state (dt_file t) ?d2) = (Ok p, ts)"
    unfolding table_state_def using t(7) by blast
  then obtain v x where val: "validate_reader charge t ?d2 = (Ok (p, v), ?d2\<lparr>db_read_metrics := x\<rparr>)" "ra_data (dt_file v) = wf_data (sb_file b)"
    using validate_reader_run t(6) by metis
  obtain fs1 where 1: "Rename (SstableTempFileName 2) (SstableFileName 2) (temp_disk b) = (Ok (), fs1)" "fs_faults fs1 = []" "fs_plans fs1 = []"
    "fs_exists fs1" "bound fs1 kTemp = None" using sealed_rename by blast
  obtain fs2 where 2: "SyncDir fs1 = (Ok (), fs2)" "fs_faults fs2 = []" "fs_plans fs2 = []" "fs_exists fs2" "bound fs2 kTemp = None"
    using healthy_SyncDir [OF 1(2,4)] 1(3,5) by auto
  let ?d3 = "sealed_db\<lparr>db_read_metrics := x, db_fs := fs2\<rparr>"
  let ?next = "sealed_snapshot\<lparr>immutable_wal_number := 0, last_sequence := ti_max_sequence info, live_tables := [meta_of 2 info]\<rparr>"
  have "snapshot_valid ?next" using t(3,4) by (simp add: snapshot_valid_def table_valid_def sealed_snapshot_def meta_of_def info_of_def sample_entry_def)
  moreover have "\<forall>t \<in> set (live_tables ?next). length (tm_smallest_key t) \<le> 100 \<and> length (tm_largest_key t) \<le> 100"
    using t(3) by (simp add: meta_of_def info_of_def sample_entry_def)
  ultimately obtain fs3 where pub: "db_publish any_pb ?next ?d3 =
      (Ok (), ?d3\<lparr>db_manifest := (db_manifest ?d3)\<lparr>ms_current := ?next\<rparr>, db_fs := fs3\<rparr>)"
    using healthy_publish [of ?d3 ?next] 2 by auto
  define d4 where "d4 = ?d3\<lparr>db_manifest := (db_manifest ?d3)\<lparr>ms_current := ?next\<rparr>, db_fs := fs3\<rparr>"
  have cur: "db_current ?d3 = sealed_snapshot" "db_immutable ?d3 \<noteq> None" "immutable_wal_number sealed_snapshot = 1"
    "active_wal_number sealed_snapshot = 3" "live_tables sealed_snapshot = []" "db_tables d4 = []"
    by (simp_all add: sealed_db_def sealed_snapshot_def d4_def sample_db_def)
  have pub: "flush_publish any_pb 2 1 info (p, v) ?d3 = (Ok (), flush_install 1 info v d4)"
    unfolding flush_publish_def cur(1,3,4,5) Let_def op_bind_def using pub cur(2) t(8) by (simp add: d4_def)
  have opn: "on_fs (OpenWritable (SstableTempFileName 2) False) sealed_db = (Ok (2, sample_file), d1)" by (simp add: d1_def sealed_open)
  have ren: "on_fs (Rename (SstableTempFileName 2) (SstableFileName 2)) (?d2\<lparr>db_read_metrics := x\<rparr>) =
      (Ok (), sealed_db\<lparr>db_read_metrics := x, db_fs := fs1\<rparr>)" using 1(1) by (simp add: on_fs_def)
  have syn: "on_fs SyncDir (sealed_db\<lparr>db_read_metrics := x, db_fs := fs1\<rparr>) = (Ok (), ?d3)" using 2(1) by (simp add: on_fs_def)
  have "flush_entries any_pb charge id (2, 1, [sample_entry]) sealed_db = (Ok (), flush_install 1 info v d4)"
    unfolding flush_entries_def flush_write_def using opn built opened val(1) ren syn pub
    by (simp add: op_bind_def check_def db_modify_def op_simps)
  then have "FlushImmutableMemTable any_pb charge id sealed_db = (Ok (), flush_install 1 info v d4)"
    by (simp add: FlushImmutableMemTable_def op_bind_def sealed_begin)
  then show ?thesis using val(2) t(2) cur(6) flush_install_fields(3) [of 1 info v d4] by simp
qed

section \<open>Properties\<close>

text \<open>
  C14: A successful flush moves the sealed MemTable to disk and loses nothing. Whatever the system calls return along the
  way, and whatever other threads do while the flush works without the lock as long as they keep the database sound
  and do not touch the sealed MemTable, a flush that reports success leaves a sound database without a sealed MemTable
  that holds exactly the versions that it held when the flush took the lock again, in the same order of age. (Tables are smaller than 4 GiB, and
  sequences are positive.)
\<close>

theorem flush_preserves_contents:
  assumes "FlushImmutableMemTable pb charge others db = (Ok (), db')" and "db_sound db" and "db_immutable db = Some imm"
    and "\<forall>d. db_sound d \<and> db_immutable d = Some imm \<longrightarrow> db_sound (others d) \<and> db_immutable (others d) = Some imm"
    and "\<forall>t \<in> set (db_tables db'). length (ra_data (dt_file t)) < 2 ^ 32" and "\<forall>e \<in> set (mt_all imm). sequence e \<noteq> 0"
  shows "\<exists>d. db_sound d \<and> layers d = layers db \<and> db_sound db' \<and> layers db' = layers (others d) \<and> db_immutable db' = None"
proof -
  obtain number wal built properties t d x where f: "table_written number (MemTable_Scan imm [] []) built t"
    "files_only (db\<lparr>db_read_metrics := x\<rparr>) d" "flush_publish pb number wal built (properties, t) (others d) = (Ok (), db')"
    by (rule flush_steps [OF assms(1,3)])
  have d: "db_sound d" "layers d = layers db" "db_immutable d = Some imm"
    using files_only_fields [OF f(2)] assms(2,3) by (simp_all add: layers_def)
  have env: "db_sound (others d)" "db_immutable (others d) = Some imm" using assms(4) d by blast+
  have "t \<in> set (db_tables db')"
    using f(3) flush_install_fields(3) by (auto simp: flush_publish_def Let_def op_bind_Ok_iff split: if_splits)
  then have "db_sound db' \<and> layers db' = layers (others d) \<and> db_immutable db' = None"
    using flush_publish_sound [OF f(3) env f(1)] assms(5,6) by blast
  then show ?thesis using d by blast
qed

theorem flush_preserves_contents_witness:
  "\<exists>db'. FlushImmutableMemTable any_pb (\<lambda>es. 1) id sealed_db = (Ok (), db') \<and> db_sound db' \<and> layers db' = [[sample_entry], []] \<and>
     db_immutable db' = None"
proof -
  obtain db' where r: "FlushImmutableMemTable any_pb (\<lambda>es. 1) id sealed_db = (Ok (), db')"
    "\<forall>t \<in> set (db_tables db'). length (ra_data (dt_file t)) < 2 ^ 32" using sealed_flush by blast
  show ?thesis
    using flush_preserves_contents [OF r(1) sealed_db_facts(1,2) _ r(2)] r(1) sealed_db_facts(3,5)
    by (auto simp: sample_entry_def)
qed

end
