(* ===== verification/Compaction.thy ===== *)
theory Compaction
  imports Flush
begin

text \<open>
  Compaction (\<open>DB::Impl::Compact\<close> and \<open>CompactTablePrefix\<close> of \<open>src/db/db_impl.cpp\<close>): the oldest tables are merged
  into one, versions that no reader can see are dropped when the merge covers every table, and the manifest is
  switched to the new table. A background compaction reserves its file number first and works without the lock, so
  its last step starts from a state that other threads may have changed (the argument \<open>others\<close>).
\<close>

section \<open>Which versions are kept\<close>

text \<open>The loop variables of the merge that decide on a version.\<close>

record Retention =
  rt_previous_key :: bytes
  rt_first_for_key :: bool
  rt_retained_watermark_version :: bool
  rt_retained_versions :: u64
  rt_retained_bytes :: u64

definition Retention_start :: Retention where
  "Retention_start = \<lparr>rt_previous_key = [], rt_first_for_key = True, rt_retained_watermark_version = False,
     rt_retained_versions = 0, rt_retained_bytes = 0\<rparr>"

abbreviation no_snapshot :: u64 where
  "no_snapshot \<equiv> - 1"

definition next_key :: "InternalEntry \<Rightarrow> Retention \<Rightarrow> Retention" where
  "next_key e rt =
     (if rt_first_for_key rt \<or> user_key e \<noteq> rt_previous_key rt
      then rt\<lparr>rt_previous_key := user_key e, rt_first_for_key := False, rt_retained_watermark_version := False\<rparr>
      else rt)"

definition decide :: "bool \<Rightarrow> u64 \<Rightarrow> InternalEntry \<Rightarrow> Retention \<Rightarrow> bool \<times> Retention" where
  "decide covers_all watermark e rt =
     (if \<not> covers_all then (True, rt)
      else if watermark = no_snapshot
      then (\<not> rt_retained_watermark_version rt \<and> etype e = kValue, rt\<lparr>rt_retained_watermark_version := True\<rparr>)
      else if sequence e > watermark then (True, rt)
      else if \<not> rt_retained_watermark_version rt then (True, rt\<lparr>rt_retained_watermark_version := True\<rparr>)
      else (False, rt))"

definition count_retained :: "InternalEntry \<Rightarrow> Retention \<Rightarrow> Retention" where
  "count_retained e rt =
     (let entry_bytes = of_nat (length (user_key e)) + of_nat (length (evalue e)) in
      rt\<lparr>rt_retained_versions := rt_retained_versions rt + 1,
         rt_retained_bytes := (if entry_bytes > - 1 - rt_retained_bytes rt then - 1 else rt_retained_bytes rt + entry_bytes)\<rparr>)"

definition retention_step :: "bool \<Rightarrow> u64 \<Rightarrow> InternalEntry \<Rightarrow> Retention \<Rightarrow> bool \<times> Retention" where
  "retention_step covers_all watermark e rt =
     (case decide covers_all watermark e (next_key e rt) of
        (retain, rt) \<Rightarrow> (retain, if retain \<and> covers_all then count_retained e rt else rt))"

section \<open>The merge\<close>

fun compaction_inputs :: "(InternalEntry list \<Rightarrow> u64) \<Rightarrow> DbTable list \<Rightarrow> (Db, AnyIterator list) op" where
  "compaction_inputs charge [] = op_return []"
| "compaction_inputs charge (t # ts) =
     op_bind (\<lambda>db. (Table_NewIterator charge (dt_reader t) (table_state (dt_file t) db) [] [], db)) (\<lambda>disk.
     op_bind (compaction_inputs charge ts) (\<lambda>its. op_return (DiskInput disk # its)))"

text \<open>The builder is created, with its file, at the first version that is kept.\<close>

type_synonym table_writer = "nat \<times> SSTableBuilder"

definition open_writer :: "string \<Rightarrow> table_writer option \<Rightarrow> (Db, table_writer) op" where
  "open_writer temp writer =
     (case writer of
        Some w \<Rightarrow> op_return w
      | None \<Rightarrow>
          op_bind (on_fs (OpenWritable temp False)) (\<lambda>h db.
            (Ok (fst h, SSTableBuilder_new (snd h) (unat (o_sstable_block_bytes (db_options db)))
                  (o_sstable_restart_interval (db_options db))), db)))"

definition writer_Add :: "InternalEntry \<Rightarrow> table_writer \<Rightarrow> (Db, table_writer) op" where
  "writer_Add e w db =
     (case Add e (snd w) of
        (c, b) \<Rightarrow>
          let db = db\<lparr>db_fs := write_back (fst w, sb_file b) (db_fs db)\<rparr> in
          if c \<noteq> kOk then (Err c, db) else (Ok (fst w, b), db))"

definition keep_entry :: "string \<Rightarrow> bool \<Rightarrow> InternalEntry \<Rightarrow> table_writer option \<Rightarrow> (Db, table_writer option) op" where
  "keep_entry temp retain e writer =
     (if retain then op_bind (open_writer temp writer) (\<lambda>w. op_bind (writer_Add e w) (\<lambda>w. op_return (Some w)))
      else op_return writer)"

partial_function (option) compact_loop ::
  "(InternalEntry list \<Rightarrow> u64) \<Rightarrow> string \<Rightarrow> bool \<Rightarrow> u64 \<Rightarrow> AnyIterator MergingIterator \<Rightarrow> Retention \<Rightarrow> table_writer option
   \<Rightarrow> Db \<Rightarrow> ((Retention \<times> table_writer option) result \<times> Db) option" where
  "compact_loop charge temp covers_all watermark merged rt writer db =
     (if Valid (merged_ops charge) merged
      then
        let e = entry (merged_ops charge) merged; step = retention_step covers_all watermark e rt in
        (case keep_entry temp (fst step) e writer db of
           (Ok writer', db') \<Rightarrow>
             (let nx = Next (merged_ops charge) merged in
              if fst nx \<noteq> kOk then Some (Err (fst nx), db')
              else compact_loop charge temp covers_all watermark (snd nx) (snd step) writer' db')
         | (Err c, db') \<Rightarrow> Some (Err c, db')
         | (UB, db') \<Rightarrow> Some (UB, db'))
      else Some (if status (merged_ops charge) merged \<noteq> kOk then Err (status (merged_ops charge) merged) else Ok (rt, writer), db))"

section \<open>The new table\<close>

definition writer_Finish :: "table_writer \<Rightarrow> (Db, BuiltTableInfo) op" where
  "writer_Finish w db =
     (case Finish (snd w) of (r, b) \<Rightarrow> (r, db\<lparr>db_fs := write_back (fst w, sb_file b) (db_fs db)\<rparr>))"

definition publish_table ::
  "(InternalEntry list \<Rightarrow> u64) \<Rightarrow> u64 \<Rightarrow> table_writer \<Rightarrow> (Db, TableMeta \<times> DbTable) op" where
  "publish_table charge number w =
     op_bind (writer_Finish w) (\<lambda>built.
     op_bind (open_reader number (SstableTempFileName number)) (\<lambda>verified.
     op_bind (validate_reader charge verified) (\<lambda>(properties, verified).
     op_bind (check (Matches (meta_of number built) properties) kCorruption) (\<lambda>_.
     op_bind (on_fs (Rename (SstableTempFileName number) (SstableFileName number))) (\<lambda>_.
     op_bind (on_fs SyncDir) (\<lambda>_. op_return (meta_of number built, verified)))))))"

definition replace_tables ::
  "(InternalEntry list \<Rightarrow> u64) \<Rightarrow> u64 \<Rightarrow> table_writer option \<Rightarrow> (Db, (TableMeta \<times> DbTable) option) op" where
  "replace_tables charge number writer =
     (case writer of
        None \<Rightarrow> op_return None
      | Some w \<Rightarrow> op_bind (publish_table charge number w) (\<lambda>t. op_return (Some t)))"

section \<open>Switching the manifest\<close>

definition compacted_snapshot :: "nat \<Rightarrow> u64 \<Rightarrow> TableMeta option \<Rightarrow> ManifestSnapshot \<Rightarrow> ManifestSnapshot" where
  "compacted_snapshot inputs number replacement current =
     (let next = current\<lparr>live_tables := drop inputs (live_tables current)\<rparr> in
      case replacement of
        Some meta \<Rightarrow>
          (let next = next\<lparr>live_tables := meta # live_tables next\<rparr> in
           if next_file_number next = number then next\<lparr>next_file_number := next_file_number next + 1\<rparr> else next)
      | None \<Rightarrow> if next_file_number next = number + 1 then next\<lparr>next_file_number := number\<rparr> else next)"

definition compaction_finished ::
  "bool \<Rightarrow> TableMeta list \<Rightarrow> bool \<Rightarrow> Retention \<Rightarrow> (TableMeta \<times> DbTable) option \<Rightarrow> Db \<Rightarrow> Db" where
  "compaction_finished background selected covers_all rt replacement db =
     (let db = db\<lparr>db_tables := (case replacement of Some (_, t) \<Rightarrow> [t] | None \<Rightarrow> []) @ drop (length selected) (db_tables db)\<rparr>;
          db = (if covers_all
                then db\<lparr>db_snapshots := SetLastFullCompactionRetention (rt_retained_versions rt) (rt_retained_bytes rt) (db_snapshots db)\<rparr>
                else db);
          cm = db_compaction_metrics db;
          db = db\<lparr>db_compaction_metrics := cm
            \<lparr>cm_compactions := cm_compactions cm + 1,
             cm_background_compactions := cm_background_compactions cm + (if background then 1 else 0),
             cm_compaction_input_tables := cm_compaction_input_tables cm + of_nat (length selected),
             cm_compaction_output_tables := cm_compaction_output_tables cm + (if replacement = None then 0 else 1),
             cm_compaction_input_bytes := cm_compaction_input_bytes cm + sum_list (map tm_file_size selected),
             cm_compaction_output_bytes := cm_compaction_output_bytes cm +
               (case replacement of Some (meta, _) \<Rightarrow> tm_file_size meta | None \<Rightarrow> 0)\<rparr>\<rparr>
      in UpdateCompactionGauges db)"

text \<open>After the lock: the blocks of the replaced tables leave the cache, and their files are removed.\<close>

definition drop_replaced :: "TableMeta list \<Rightarrow> Db \<Rightarrow> Db" where
  "drop_replaced selected db =
     (let db = db\<lparr>db_cache := fold (\<lambda>meta. EraseTable (tm_file_number meta)) selected (db_cache db)\<rparr> in
      case remove_all (map (\<lambda>meta. SstableFileName (tm_file_number meta)) selected) db of
        (removed_any, db) \<Rightarrow> if removed_any then BestEffortSyncDir db else db)"

definition install_compaction ::
  "Protobuf \<Rightarrow> bool \<Rightarrow> TableMeta list \<Rightarrow> u64 \<Rightarrow> bool \<Rightarrow> Retention \<Rightarrow> (TableMeta \<times> DbTable) option \<Rightarrow> (Db, unit) op" where
  "install_compaction pb background selected number covers_all rt replacement db =
     (let current = db_current db; n = length selected in
      if length (live_tables current) \<noteq> length (db_tables db) \<or> length (db_tables db) < n then (Err kCorruption, db)
      else if map tm_file_number (take n (live_tables current)) \<noteq> map tm_file_number selected then (Err kCorruption, db)
      else
        op_bind (db_publish pb (compacted_snapshot n number (map_option fst replacement) current)) (\<lambda>_ db.
          (Ok (), drop_replaced selected (compaction_finished background selected covers_all rt replacement db))) db)"

section \<open>The whole job\<close>

text \<open>What a compaction works on, taken under the lock; nothing when there is nothing to do.\<close>

record CompactionWork =
  cw_number :: u64
  cw_meta :: "TableMeta list"
  cw_tables :: "DbTable list"
  cw_covers_all :: bool

definition reserve_number :: "Protobuf \<Rightarrow> bool \<Rightarrow> (Db, unit) op" where
  "reserve_number pb background db =
     (if background then db_publish pb ((db_current db)\<lparr>next_file_number := next_file_number (db_current db) + 1\<rparr>) db
      else (Ok (), db))"

definition select_tables :: "Protobuf \<Rightarrow> nat \<Rightarrow> bool \<Rightarrow> (Db, CompactionWork option) op" where
  "select_tables pb input_count background db =
     (if CheckOpen db \<noteq> kOk then (Err (CheckOpen db), db)
      else if input_count = 0 \<or> length (db_tables db) < input_count then (Ok None, db)
      else if length (live_tables (db_current db)) \<noteq> length (db_tables db) then (Err kCorruption, db)
      else if background \<and> input_count \<noteq> unat (o_compaction_table_trigger (db_options db)) then (Err kCorruption, db)
      else
        let db = (if background then db else CleanupObsoleteFiles db); current = db_current db in
        if next_file_number current = - 1 then (Err kResourceExhausted, db)
        else
          op_bind (reserve_number pb background) (\<lambda>_. op_return (Some
            \<lparr>cw_number = next_file_number current, cw_meta = take input_count (live_tables current),
             cw_tables = take input_count (db_tables db), cw_covers_all = (input_count = length (live_tables current))\<rparr>)) db)"

definition merge_tables :: "(InternalEntry list \<Rightarrow> u64) \<Rightarrow> DbTable list \<Rightarrow> (Db, AnyIterator MergingIterator) op" where
  "merge_tables charge ts = op_bind (compaction_inputs charge ts) (\<lambda>its. op_of (NewMergingIterator (any_ops charge) its))"

text \<open>
  The work without the lock: merge the inputs, write what is kept and reopen it. The result is the account of the merge and
  the new table with its manifest entry, if there is one. Then other threads act (\<open>others\<close>) until the lock is taken
  again; an explicit compaction holds the lock all the time.
\<close>

definition compact_write ::
  "(InternalEntry list \<Rightarrow> u64) \<Rightarrow> CompactionWork \<Rightarrow> Db \<Rightarrow> ((Retention \<times> (TableMeta \<times> DbTable) option) result \<times> Db) option" where
  "compact_write charge work db =
     (case merge_tables charge (cw_tables work) db of
        (Ok merged, db) \<Rightarrow>
          Option.bind (compact_loop charge (SstableTempFileName (cw_number work)) (cw_covers_all work)
              (OldestOr no_snapshot (db_snapshots db)) merged Retention_start None db) (\<lambda>(r, db).
            case r of
              Ok (rt, writer) \<Rightarrow>
                Some (op_bind (replace_tables charge (cw_number work) writer) (\<lambda>replacement. op_return (rt, replacement)) db)
            | Err c \<Rightarrow> Some (Err c, db)
            | UB \<Rightarrow> Some (UB, db))
      | (Err c, db) \<Rightarrow> Some (Err c, db)
      | (UB, db) \<Rightarrow> Some (UB, db))"

definition compact_selected ::
  "Protobuf \<Rightarrow> (InternalEntry list \<Rightarrow> u64) \<Rightarrow> (Db \<Rightarrow> Db) \<Rightarrow> bool \<Rightarrow> CompactionWork \<Rightarrow> Db \<Rightarrow> (unit result \<times> Db) option" where
  "compact_selected pb charge others background work db =
     Option.bind (compact_write charge work db) (\<lambda>(r, db).
       case r of
         Ok (rt, replacement) \<Rightarrow>
           Some (install_compaction pb background (cw_meta work) (cw_number work) (cw_covers_all work) rt replacement
             (if background then others db else db))
       | Err c \<Rightarrow> Some (Err c, db)
       | UB \<Rightarrow> Some (UB, db))"

definition CompactTablePrefix ::
  "Protobuf \<Rightarrow> (InternalEntry list \<Rightarrow> u64) \<Rightarrow> (Db \<Rightarrow> Db) \<Rightarrow> nat \<Rightarrow> bool \<Rightarrow> Db \<Rightarrow> (unit result \<times> Db) option" where
  "CompactTablePrefix pb charge others input_count background db =
     (case select_tables pb input_count background db of
        (Ok None, db) \<Rightarrow> Some (Ok (), db)
      | (Ok (Some work), db) \<Rightarrow> compact_selected pb charge others background work db
      | (Err c, db) \<Rightarrow> Some (Err c, db)
      | (UB, db) \<Rightarrow> Some (UB, db))"

section \<open>What the merge keeps\<close>

text \<open>The versions a merge passes to the builder, and their description: those above the watermark and the one
  visible at it, or without a snapshot the latest of each key unless it is a deletion.\<close>

fun retained :: "bool \<Rightarrow> u64 \<Rightarrow> Retention \<Rightarrow> InternalEntry list \<Rightarrow> InternalEntry list" where
  "retained covers_all watermark rt [] = []"
| "retained covers_all watermark rt (e # es) =
     (case retention_step covers_all watermark e rt of
        (retain, rt') \<Rightarrow> (if retain then [e] else []) @ retained covers_all watermark rt' es)"

definition kept :: "u64 \<Rightarrow> InternalEntry set \<Rightarrow> InternalEntry \<Rightarrow> bool" where
  "kept watermark V e \<longleftrightarrow>
     (if watermark = no_snapshot then visible V (user_key e) watermark e \<and> etype e = kValue
      else e \<in> V \<and> (sequence e > watermark \<or> visible V (user_key e) watermark e))"

lemma retained_partial: "retained False watermark rt es = es"
  by (induction es arbitrary: rt) (auto simp: retention_step_def decide_def)

lemma count_retained_simps [simp]:
  "rt_previous_key (count_retained e rt) = rt_previous_key rt" "rt_first_for_key (count_retained e rt) = rt_first_for_key rt"
  "rt_retained_watermark_version (count_retained e rt) = rt_retained_watermark_version rt"
  by (simp_all add: count_retained_def Let_def)

text \<open>After the versions \<open>ps\<close> the flag tells whether one of the current key at or below the watermark was seen.\<close>

definition seen :: "u64 \<Rightarrow> InternalEntry list \<Rightarrow> Retention \<Rightarrow> bool" where
  "seen watermark ps rt \<longleftrightarrow>
     (if ps = [] then rt_first_for_key rt
      else \<not> rt_first_for_key rt \<and> rt_previous_key rt = user_key (last ps) \<and>
        (rt_retained_watermark_version rt \<longleftrightarrow> (\<exists>p \<in> set ps. user_key p = user_key (last ps) \<and> sequence p \<le> watermark)))"

lemma next_key_seen:
  assumes "seen w ps rt" "ordered (ps @ e # es)"
  shows "\<not> rt_first_for_key (next_key e rt) \<and> rt_previous_key (next_key e rt) = user_key e \<and>
    (rt_retained_watermark_version (next_key e rt) \<longleftrightarrow> (\<exists>p \<in> set ps. user_key p = user_key e \<and> sequence p \<le> w))"
proof (cases "ps = [] \<or> user_key e \<noteq> user_key (last ps)")
  case True
  have "user_key p \<noteq> user_key e" if "p \<in> set ps" for p
  proof -
    have "last ps \<in> set ps" using that by (cases ps) auto
    then have "ordered ps" "InternalLess (last ps) e" using assms(2) by (auto simp: sorted_wrt_append)
    then have "user_key p \<le> user_key (last ps)" "user_key (last ps) < user_key e"
      using ordered_last_key [OF _ that] True that by (auto simp: InternalLess_iff)
    then show ?thesis by simp
  qed
  moreover have "rt_first_for_key rt \<or> user_key e \<noteq> rt_previous_key rt" using assms(1) True by (auto simp: seen_def split: if_splits)
  ultimately show ?thesis by (auto simp: next_key_def)
next
  case False
  then show ?thesis using assms(1) by (auto simp: next_key_def seen_def)
qed

lemma visible_first:
  assumes "ordered (ps @ e # es)"
  shows "visible (set (ps @ e # es)) (user_key e) w e \<longleftrightarrow>
    sequence e \<le> w \<and> \<not> (\<exists>p \<in> set ps. user_key p = user_key e \<and> sequence p \<le> w)"
proof -
  have "sequence e < sequence p" if "p \<in> set ps" "user_key p = user_key e" for p
    using assms that by (auto simp: sorted_wrt_append InternalLess_iff)
  moreover have "sequence p < sequence e" if "p \<in> set es" "user_key p = user_key e" for p
    using assms that by (auto simp: sorted_wrt_append InternalLess_iff)
  ultimately show ?thesis unfolding visible_def by fastforce
qed

lemma retention_step_seen:
  assumes "seen w ps rt" "ordered (ps @ e # es)" "retention_step True w e rt = (k, rt')"
  shows "k = kept w (set (ps @ e # es)) e \<and> seen w (ps @ [e]) rt'"
proof -
  let ?r = "next_key e rt"
  note n = next_key_seen [OF assms(1,2)]
  obtain r where d: "decide True w e ?r = (k, r)" "rt' = (if k then count_retained e r else r)"
    using assms(3) by (auto simp: retention_step_def split: prod.splits)
  have "rt_first_for_key r = rt_first_for_key ?r" "rt_previous_key r = rt_previous_key ?r"
    "rt_retained_watermark_version r \<longleftrightarrow> rt_retained_watermark_version ?r \<or> sequence e \<le> w"
    using d(1) by (auto simp: decide_def split: if_splits)
  then have "seen w (ps @ [e]) rt'" using n d(2) by (auto simp: seen_def)
  moreover have "k = kept w (set (ps @ e # es)) e"
    using d(1) n unfolding kept_def visible_first [OF assms(2)] by (auto simp: decide_def split: if_splits)
  ultimately show ?thesis by simp
qed

lemma retained_kept_from:
  assumes "ordered (ps @ es)" "seen w ps rt"
  shows "retained True w rt es = filter (kept w (set (ps @ es))) es"
  using assms
proof (induction es arbitrary: ps rt)
  case (Cons e es)
  obtain k rt' where s: "retention_step True w e rt = (k, rt')" by fastforce
  note step = retention_step_seen [OF Cons.prems(2,1) s]
  have "retained True w rt' es = filter (kept w (set ((ps @ [e]) @ es))) es"
    by (rule Cons.IH) (use Cons.prems step in simp_all)
  then show ?case using s step by simp
qed simp

lemma retained_kept: "ordered es \<Longrightarrow> retained True w Retention_start es = filter (kept w (set es)) es"
  using retained_kept_from [of "[]"] by (simp add: seen_def Retention_start_def)

lemma retained_subseq: "\<exists>P. retained c w rt es = filter P es" if "ordered es" "rt = Retention_start"
  using that retained_kept retained_partial [of w rt es] by (cases c) (auto intro: exI [of _ "\<lambda>_. True"])

text \<open>
  Readers at or after the watermark, and those that see everything, see the same values; \<open>newer\<close> are the versions
  outside the merge.
\<close>

definition reader_allowed :: "u64 \<Rightarrow> InternalEntry set \<Rightarrow> u64 \<Rightarrow> bool" where
  "reader_allowed watermark V n \<longleftrightarrow> watermark \<noteq> no_snapshot \<and> watermark \<le> n \<or> (\<forall>e \<in> V. sequence e \<le> n)"

definition all_newer :: "InternalEntry set \<Rightarrow> InternalEntry set \<Rightarrow> bool" where
  "all_newer newer V \<longleftrightarrow> (\<forall>m \<in> newer. \<forall>e \<in> V. user_key m = user_key e \<longrightarrow> sequence e < sequence m)"

lemma kept_below:
  assumes "e \<in> set es" "\<not> kept w (set es) e" "w \<noteq> no_snapshot" "ordered es"
  shows "\<exists>f \<in> set es. kept w (set es) f \<and> user_key f = user_key e \<and> sequence f \<le> w \<and> sequence e \<le> sequence f"
proof -
  have "sequence e \<le> w" using assms by (auto simp: kept_def)
  then obtain f where "find_version es (user_key e) w = Some f"
    using assms(1) find_version_None [of es "user_key e" w] by (cases "find_version es (user_key e) w") (auto simp: none_visible_def)
  then have "visible (set es) (user_key e) w f" using find_version_visible assms(4) by blast
  then show ?thesis using assms(1,3) \<open>sequence e \<le> w\<close> by (auto simp: kept_def visible_def intro!: bexI [of _ f])
qed

lemma kept_visible:
  assumes "ordered es" "w \<noteq> no_snapshot" "w \<le> n \<or> (\<forall>e \<in> set es. sequence e \<le> n)"
  shows "visible (M \<union> {e \<in> set es. kept w (set es) e}) k n e \<longleftrightarrow> visible (M \<union> set es) k n e"
proof
  assume v: "visible (M \<union> {e \<in> set es. kept w (set es) e}) k n e"
  have "sequence a \<le> sequence e" if a: "a \<in> set es" "user_key a = k" "sequence a \<le> n" for a
  proof (cases "kept w (set es) a")
    case False
    from kept_below [OF a(1) this assms(2,1)] obtain f where f: "f \<in> set es" "kept w (set es) f" "user_key f = k"
      "sequence f \<le> w" "sequence a \<le> sequence f" using a(2) by auto
    then have "sequence f \<le> n" using assms(3) by auto
    then have "sequence f \<le> sequence e" using v f(1-3) unfolding visible_def by fastforce
    then show ?thesis using f(5) by simp
  qed (use v a in \<open>auto simp: visible_def\<close>)
  then show "visible (M \<union> set es) k n e" using v by (auto simp: visible_def)
next
  assume v: "visible (M \<union> set es) k n e"
  have "kept w (set es) e" if e: "e \<in> set es"
  proof (cases "sequence e > w")
    case False
    have "sequence a \<le> sequence e" if "a \<in> set es" "user_key a = k" "sequence a \<le> w" for a
    proof -
      have "sequence a \<le> n" using assms(3) that by auto
      then show ?thesis using v that by (auto simp: visible_def)
    qed
    then show ?thesis using v e False assms(2) by (auto simp: kept_def visible_def)
  qed (use e assms(2) in \<open>simp add: kept_def\<close>)
  then show "visible (M \<union> {e \<in> set es. kept w (set es) e}) k n e" using v by (auto simp: visible_def)
qed

lemma kept_live_value:
  assumes "ordered es" "all_newer M (set es)" "reader_allowed w (set es) n"
  shows "live_value (M \<union> {e \<in> set es. kept w (set es) e}) k n v \<longleftrightarrow> live_value (M \<union> set es) k n v"
proof (cases "w = no_snapshot")
  case True
  then have top: "sequence e \<le> n" if "e \<in> set es" for e using assms(3) that by (simp add: reader_allowed_def)
  have "visible (M \<union> {e \<in> set es. kept w (set es) e}) k n e \<longleftrightarrow> visible (M \<union> set es) k n e" if val: "etype e = kValue" for e
  proof
    assume v: "visible (M \<union> {e \<in> set es. kept w (set es) e}) k n e"
    have "sequence a \<le> sequence e" if "a \<in> set es" "user_key a = k" for a
      using v that assms(2) True by (fastforce simp: visible_def kept_def all_newer_def)
    then show "visible (M \<union> set es) k n e" using v by (auto simp: visible_def)
  next
    assume v: "visible (M \<union> set es) k n e"
    have "kept w (set es) e" if "e \<in> set es" using v val that top True by (auto simp: kept_def visible_def)
    then show "visible (M \<union> {e \<in> set es. kept w (set es) e}) k n e" using v by (auto simp: visible_def)
  qed
  then show ?thesis unfolding live_value_def by blast
next
  case False
  then show ?thesis using kept_visible [OF assms(1) False, of n M k] assms(3) by (auto simp: reader_allowed_def live_value_def)
qed

section \<open>The merge loop\<close>

text \<open>What the loop does to the new table: it opens the writer at the first kept version and adds the others.\<close>

fun keep_all :: "string \<Rightarrow> InternalEntry list \<Rightarrow> table_writer option \<Rightarrow> (Db, table_writer option) op" where
  "keep_all temp [] writer = op_return writer"
| "keep_all temp (e # es) writer = op_bind (keep_entry temp True e writer) (keep_all temp es)"

fun retention_after :: "bool \<Rightarrow> u64 \<Rightarrow> Retention \<Rightarrow> InternalEntry list \<Rightarrow> Retention" where
  "retention_after covers_all watermark rt [] = rt"
| "retention_after covers_all watermark rt (e # es) =
     retention_after covers_all watermark (snd (retention_step covers_all watermark e rt)) es"

text \<open>Over inputs that can be read the loop ends; it fails only when the new table cannot be written.\<close>

lemma compact_loop_ok:
  assumes "merged_good m" "mi_rest any_rest m = es"
  shows "compact_loop charge temp c w m rt writer db = Some
    (case keep_all temp (retained c w rt es) writer db of
       (Ok writer', db') \<Rightarrow> (Ok (retention_after c w rt es, writer'), db')
     | (Err x, db') \<Rightarrow> (Err x, db')
     | (UB, db') \<Rightarrow> (UB, db'))"
  using assms
proof (induction es arbitrary: m rt writer db)
  case Nil
  then have "\<not> Valid (merged_ops charge) m" "status (merged_ops charge) m = kOk"
    using merged_reliable.Valid_rest [OF Nil(1), of charge] merged_reliable.healthy [OF Nil(1), of charge] by simp_all
  then show ?case by (subst compact_loop.simps) (simp add: op_simps)
next
  case (Cons e es)
  have ne: "mi_rest any_rest m \<noteq> []" using Cons.prems(2) by simp
  have v: "Valid (merged_ops charge) m" "entry (merged_ops charge) m = e"
    using merged_reliable.Valid_rest [OF Cons.prems(1), of charge] merged_reliable.entry_rest [OF Cons.prems(1) ne, of charge]
      Cons.prems(2) by simp_all
  obtain m' where nx: "Next (merged_ops charge) m = (kOk, m')" "status (merged_ops charge) m' = kOk"
    using merged_reliable.Next_total [OF Cons.prems(1) ne, of charge] by blast
  have m': "merged_good m'" "mi_rest any_rest m' = es"
    using merged_reliable.Next_ok [OF Cons.prems(1) ne nx] Cons.prems(2) by simp_all
  obtain k rt' where st: "retention_step c w e rt = (k, rt')" by fastforce
  note IH = Cons.IH [OF m']
  have after: "retention_after c w rt (e # es) = retention_after c w rt' es" using st by simp
  show ?case
  proof (cases k)
    case False
    then show ?thesis using v nx st IH [of rt' writer db] unfolding after by (subst compact_loop.simps) (simp add: keep_entry_def op_simps)
  next
    case True
    obtain r db1 where ke: "keep_entry temp True e writer db = (r, db1)" by fastforce
    then show ?thesis using v nx st True IH unfolding after by (subst compact_loop.simps) (cases r; simp add: op_bind_def)
  qed
qed

lemma writer_Add_Ok:
  assumes "writer_Add e (i, b) db = (Ok w, db')"
  shows "\<exists>b'. Add e b = (kOk, b') \<and> w = (i, b') \<and> files_only db db' \<and> bound (db_fs db') = bound (db_fs db)"
proof -
  obtain c b' where a: "Add e b = (c, b')" by fastforce
  then have "c = kOk" "w = (i, b')" "db' = db\<lparr>db_fs := write_back (i, sb_file b') (db_fs db)\<rparr>"
    using assms by (simp_all add: writer_Add_def Let_def split: if_splits)
  then show ?thesis using a write_back_twice(2) by simp
qed

lemma keep_all_Some:
  assumes "keep_all temp es (Some (i, b)) db = (Ok w, db')"
  shows "\<exists>b'. add_all es b = (kOk, b') \<and> w = Some (i, b') \<and> files_only db db' \<and> bound (db_fs db') = bound (db_fs db)"
  using assms
proof (induction es arbitrary: b db)
  case (Cons e es)
  obtain w1 db1 where 1: "writer_Add e (i, b) db = (Ok w1, db1)" "keep_all temp es (Some w1) db1 = (Ok w, db')"
    using Cons.prems by (auto simp: keep_entry_def open_writer_def op_bind_Ok_iff op_simps)
  obtain b1 where b1: "Add e b = (kOk, b1)" "w1 = (i, b1)" "files_only db db1" "bound (db_fs db1) = bound (db_fs db)"
    using writer_Add_Ok [OF 1(1)] by blast
  from Cons.IH [OF 1(2) [unfolded b1(2)]] show ?case using b1 files_only_trans by auto
qed (auto simp: op_simps)

text \<open>The writer after the loop: nothing when nothing was kept, else a builder that took the kept versions.\<close>

lemma keep_all_None:
  assumes "keep_all temp es None db = (Ok w, db')"
  shows "files_only db db' \<and>
    (if es = [] then w = None
     else \<exists>i f b. w = Some (i, b) \<and> wf_data f = [] \<and> bound (db_fs db') temp = Some i \<and>
       add_all es (SSTableBuilder_new f (unat (o_sstable_block_bytes (db_options db))) (o_sstable_restart_interval (db_options db))) = (kOk, b))"
proof (cases es)
  case Nil
  then show ?thesis using assms by (simp add: op_simps)
next
  case (Cons e es')
  obtain h d1 w1 d2 where 1: "on_fs (OpenWritable temp False) db = (Ok h, d1)"
    "writer_Add e (fst h, SSTableBuilder_new (snd h) (unat (o_sstable_block_bytes (db_options d1))) (o_sstable_restart_interval (db_options d1))) d1 = (Ok w1, d2)"
    "keep_all temp es' (Some w1) d2 = (Ok w, db')"
    using assms Cons by (auto simp: keep_entry_def open_writer_def op_bind_Ok_iff op_simps)
  have h: "wf_data (snd h) = []" "bound (db_fs d1) temp = Some (fst h)" "db_options d1 = db_options db" "files_only db d1"
    using OpenWritable_fresh [of temp "db_fs db" h] on_fs_result [OF 1(1)] by auto
  obtain b1 where b1: "Add e (SSTableBuilder_new (snd h) (unat (o_sstable_block_bytes (db_options d1))) (o_sstable_restart_interval (db_options d1))) = (kOk, b1)"
    "w1 = (fst h, b1)" "files_only d1 d2" "bound (db_fs d2) = bound (db_fs d1)" using writer_Add_Ok [OF 1(2)] by blast
  obtain b2 where b2: "add_all es' b1 = (kOk, b2)" "w = Some (fst h, b2)" "files_only d2 db'" "bound (db_fs db') = bound (db_fs d2)"
    using keep_all_Some [OF 1(3) [unfolded b1(2)]] by blast
  have "files_only db db'" using h(4) b1(3) b2(3) files_only_trans by blast
  then show ?thesis using h b1 b2 Cons by auto
qed

section \<open>The new table holds what was kept\<close>

definition replacement_holds :: "u64 \<Rightarrow> InternalEntry list \<Rightarrow> (TableMeta \<times> DbTable) option \<Rightarrow> bool" where
  "replacement_holds number es replacement \<longleftrightarrow>
     (case replacement of
        None \<Rightarrow> es = []
      | Some (meta, t) \<Rightarrow> \<exists>built. meta = meta_of number built \<and> table_written number es built t)"

lemma publish_table_written:
  assumes w: "wf_data f = []" "add_all es (SSTableBuilder_new f n r) = (kOk, b)" "bound (db_fs db) (SstableTempFileName number) = Some i"
    and p: "publish_table charge number (i, b) db = (Ok (meta, t), db')"
  shows "\<exists>built x. meta = meta_of number built \<and> table_written number es built t \<and> files_only (db\<lparr>db_read_metrics := x\<rparr>) db'"
proof -
  let ?temp = "SstableTempFileName number"
  obtain built d1 v d2 pr d3 d4 d5 where s: "writer_Finish (i, b) db = (Ok built, d1)" "open_reader number ?temp d1 = (Ok v, d2)"
    "validate_reader charge v d2 = (Ok (pr, t), d3)" "check (Matches (meta_of number built) pr) kCorruption d3 = (Ok (), d4)"
    "on_fs (Rename ?temp (SstableFileName number)) d4 = (Ok (), d5)" "on_fs SyncDir d5 = (Ok (), db')" "meta = meta_of number built"
    using p by (auto simp: publish_table_def op_bind_Ok_iff op_simps split: prod.splits)
  obtain b' where f: "Finish b = (Ok built, b')" "d1 = db\<lparr>db_fs := write_back (i, sb_file b') (db_fs db)\<rparr>"
    using s(1) by (auto simp: writer_Finish_def split: prod.splits)
  have "build_table es (SSTableBuilder_new f n r) = (Ok built, b')" using w(2) f(1) by (simp add: build_table_def)
  moreover have "bound (db_fs d1) ?temp = Some i" "nd_data (fs_nodes (db_fs d1) i) = wf_data (sb_file b')"
    using f(2) w(3) write_back_twice [of "(i, sb_file b')" "db_fs db"] by simp_all
  ultimately obtain fs2 where v: "table_written number es built v" "d2 = d1\<lparr>db_fs := fs2\<rparr>"
    using open_reader_written [OF w(1) _ _ _ s(2)] by blast
  obtain x where x: "d3 = d2\<lparr>db_read_metrics := x\<rparr>" "dt_reader t = dt_reader v" "ra_data (dt_file t) = ra_data (dt_file v)"
    using validate_reader_kept [OF s(3)] by auto
  have "d4 = d3" using s(4) by (simp add: check_def split: if_splits)
  then have "files_only (db\<lparr>db_read_metrics := x\<rparr>) d4" using f(2) v(2) x(1) by (simp add: files_only_def)
  then have "files_only (db\<lparr>db_read_metrics := x\<rparr>) db'" using on_fs_files [OF s(5)] on_fs_files [OF s(6)] files_only_trans by blast
  then show ?thesis using s(7) table_written_validated [OF v(1) x(2,3)] by blast
qed

lemma replacement_written:
  assumes k: "keep_all (SstableTempFileName number) es None db = (Ok w, d)" and r: "replace_tables charge number w d = (Ok rep, db')"
  shows "replacement_holds number es rep \<and> (\<exists>x. files_only (db\<lparr>db_read_metrics := x\<rparr>) db')"
proof (cases es)
  case Nil
  then have "w = None" "files_only db d" using keep_all_None [OF k] by simp_all
  moreover have "db\<lparr>db_read_metrics := db_read_metrics db\<rparr> = db" by simp
  ultimately show ?thesis using Nil r by (auto simp: replace_tables_def op_simps replacement_holds_def intro!: exI [of _ "db_read_metrics db"])
next
  case (Cons e es')
  obtain i f b where w: "files_only db d" "w = Some (i, b)" "wf_data f = []" "bound (db_fs d) (SstableTempFileName number) = Some i"
    "add_all es (SSTableBuilder_new f (unat (o_sstable_block_bytes (db_options db))) (o_sstable_restart_interval (db_options db))) = (kOk, b)"
    using keep_all_None [OF k] Cons by auto
  obtain meta t where p: "publish_table charge number (i, b) d = (Ok (meta, t), db')" "rep = Some (meta, t)"
    using r w(2) by (auto simp: replace_tables_def op_bind_Ok_iff op_simps)
  obtain built x where "meta = meta_of number built" "table_written number es built t" "files_only (d\<lparr>db_read_metrics := x\<rparr>) db'"
    using publish_table_written [OF w(3,5,4) p(1)] by blast
  moreover have "files_only (db\<lparr>db_read_metrics := x\<rparr>) (d\<lparr>db_read_metrics := x\<rparr>)"
    using w(1) by (cases db; cases d) (simp add: files_only_def)
  ultimately show ?thesis using p(2) files_only_trans by (auto simp: replacement_holds_def)
qed

section \<open>The inputs\<close>

lemma compaction_inputs_ok:
  assumes "\<forall>t \<in> set ts. table_readable (db_cache db) t"
  shows "\<exists>its. compaction_inputs charge ts db = (Ok its, db) \<and> (\<forall>it \<in> set its. any_good it) \<and>
    concat (map any_all its) = concat (map dt_entries ts)"
  using assms
proof (induction ts)
  case (Cons t ts)
  let ?ts = "table_state (dt_file t) db"
  have t: "table_readable (db_cache db) t" using Cons.prems by simp
  then have "reader_ok (dt_reader t) (ra_data (ts_file ?ts))" "ts_ok (dt_reader t) (ra_data (ts_file ?ts)) ?ts"
    by (simp_all add: table_readable_def table_sound_def table_state_def ts_ok_def)
  from Table_NewIterator_cases [OF this, of "[]" "[]" charge] t
  obtain it where it: "Table_NewIterator charge (dt_reader t) ?ts [] [] = Ok it" "si_good it" "si_all it = dt_entries t"
    by (auto simp: table_readable_def table_sound_def table_state_def dt_entries_def before_end_def)
  obtain its where "compaction_inputs charge ts db = (Ok its, db)" "\<forall>it \<in> set its. any_good it"
    "concat (map any_all its) = concat (map dt_entries ts)" using Cons by auto
  then show ?case using it by (intro exI [of _ "DiskInput it # its"]) (simp add: op_bind_def op_simps)
qed (simp add: op_simps)

lemma merge_tables_ok:
  assumes "\<forall>t \<in> set ts. table_readable (db_cache db) t" "no_duplicates (concat (map dt_entries ts))"
  shows "\<exists>m. merge_tables charge ts db = (Ok m, db) \<and> merged_good m \<and>
    mi_rest any_rest m = sort_versions (concat (map dt_entries ts))"
proof -
  obtain its where its: "compaction_inputs charge ts db = (Ok its, db)" "\<forall>it \<in> set its. any_good it"
    "concat (map any_all its) = concat (map dt_entries ts)" using compaction_inputs_ok [OF assms(1)] by blast
  then show ?thesis using NewMergingIterator_good [OF its(2), of charge] assms(2)
    by (auto simp: merge_tables_def op_bind_def op_of_def)
qed

section \<open>Erasing tables from the cache\<close>

lemma EraseTable_capacity: "bc_capacity (EraseTable number c) = bc_capacity c"
proof -
  have "bc_capacity (foldl (\<lambda>c e. if table_number (ce_key e) \<noteq> number then c else cache_Remove e c) c es) = bc_capacity c" for es
    by (induction es arbitrary: c) (simp_all add: cache_Remove_def)
  then show ?thesis by (simp add: EraseTable_def Let_def)
qed

lemma EraseTables_kept:
  "bc_inv c \<Longrightarrow> bc_capacity c \<noteq> 0 \<Longrightarrow> bc_inv (fold (\<lambda>meta. EraseTable (tm_file_number meta)) ms c) \<and>
     set (bc_lru (fold (\<lambda>meta. EraseTable (tm_file_number meta)) ms c)) =
       {e \<in> set (bc_lru c). table_number (ce_key e) \<notin> tm_file_number ` set ms}"
proof (induction ms arbitrary: c)
  case (Cons m ms)
  note k = EraseTable_cases [OF Cons.prems, of "tm_file_number m"]
  show ?case using Cons.IH [OF k(1)] k(2) Cons.prems(2) by (auto simp: EraseTable_capacity)
qed simp

section \<open>Installing the result\<close>

lemma UpdateCompactionGauges_registry [simp]: "db_registry (UpdateCompactionGauges db) = db_registry db"
  by (simp add: UpdateCompactionGauges_def Let_def)

lemma compaction_finished_fields:
  "db_memtable (compaction_finished bg sel c rt rep db) = db_memtable db" "db_immutable (compaction_finished bg sel c rt rep db) = db_immutable db"
  "db_manifest (compaction_finished bg sel c rt rep db) = db_manifest db" "db_cache (compaction_finished bg sel c rt rep db) = db_cache db"
  "db_tables (compaction_finished bg sel c rt rep db) = (case rep of Some (_, t) \<Rightarrow> [t] | None \<Rightarrow> []) @ drop (length sel) (db_tables db)"
  "db_next_sequence (compaction_finished bg sel c rt rep db) = db_next_sequence db"
  "ss_active (db_snapshots (compaction_finished bg sel c rt rep db)) = ss_active (db_snapshots db)"
  "db_options (compaction_finished bg sel c rt rep db) = db_options db" "db_registry (compaction_finished bg sel c rt rep db) = db_registry db"
  unfolding compaction_finished_def Let_def by (simp_all add: SetLastFullCompactionRetention_def)

lemma drop_replaced_files:
  "files_only (db\<lparr>db_cache := fold (\<lambda>meta. EraseTable (tm_file_number meta)) sel (db_cache db)\<rparr>) (drop_replaced sel db)"
proof -
  let ?db = "db\<lparr>db_cache := fold (\<lambda>meta. EraseTable (tm_file_number meta)) sel (db_cache db)\<rparr>"
  obtain b d where r: "remove_all (map (\<lambda>meta. SstableFileName (tm_file_number meta)) sel) ?db = (b, d)" by fastforce
  then have "files_only ?db d" using remove_all_files [of ?db "map (\<lambda>meta. SstableFileName (tm_file_number meta)) sel"] by simp
  then show ?thesis using r BestEffortSyncDir_files [of d] files_only_trans by (auto simp: drop_replaced_def Let_def)
qed

lemma compacted_snapshot_live:
  "live_tables (compacted_snapshot n number rep s) = (case rep of Some m \<Rightarrow> [m] | None \<Rightarrow> []) @ drop n (live_tables s)"
  by (simp add: compacted_snapshot_def Let_def split: option.split)

lemma layers_split: "n \<le> length (db_tables db) \<Longrightarrow> layers db = map dt_entries (take n (db_tables db)) @ drop n (layers db)"
  by (simp add: layers_def take_map [symmetric])

text \<open>The layers after the tables were exchanged.\<close>

definition exchanged :: "nat \<Rightarrow> InternalEntry list \<Rightarrow> Db \<Rightarrow> InternalEntry list list" where
  "exchanged n es db = (if es = [] then [] else [es]) @ drop n (layers db)"

lemma install_steps:
  assumes "install_compaction pb bg sel number c rt rep db = (Ok (), db')"
  obtains d where "length (live_tables (db_current db)) = length (db_tables db)" "length sel \<le> length (db_tables db)"
    "map tm_file_number (take (length sel) (live_tables (db_current db))) = map tm_file_number sel"
    "db_publish pb (compacted_snapshot (length sel) number (map_option fst rep) (db_current db)) db = (Ok (), d)"
    "db' = drop_replaced sel (compaction_finished bg sel c rt rep d)"
  using assms by (auto simp: install_compaction_def Let_def op_bind_Ok_iff split: if_splits)

abbreviation new_tables :: "(TableMeta \<times> DbTable) option \<Rightarrow> DbTable list" where
  "new_tables rep \<equiv> (case rep of Some (_, t) \<Rightarrow> [t] | None \<Rightarrow> [])"

lemma replacement_table:
  assumes rep: "replacement_holds number es rep" and small: "\<forall>t \<in> set (new_tables rep). length (ra_data (dt_file t)) < 2 ^ 32"
    and es: "\<forall>e \<in> set es. sequence e \<noteq> 0"
  shows "list_all2 covers (map fst (case rep of None \<Rightarrow> [] | Some mt \<Rightarrow> [mt])) (map dt_entries (new_tables rep))"
    "\<forall>t \<in> set (new_tables rep). reader_ok (dt_reader t) (ra_data (dt_file t)) \<and> dt_number t = number"
    "map dt_entries (new_tables rep) = (if es = [] then [] else [es])"
    "map dt_number (new_tables rep) = map tm_file_number (map fst (case rep of None \<Rightarrow> [] | Some mt \<Rightarrow> [mt]))"
proof -
  have "list_all2 covers (map fst (case rep of None \<Rightarrow> [] | Some mt \<Rightarrow> [mt])) (map dt_entries (new_tables rep)) \<and>
    (\<forall>t \<in> set (new_tables rep). reader_ok (dt_reader t) (ra_data (dt_file t)) \<and> dt_number t = number) \<and>
    map dt_entries (new_tables rep) = (if es = [] then [] else [es]) \<and>
    map dt_number (new_tables rep) = map tm_file_number (map fst (case rep of None \<Rightarrow> [] | Some mt \<Rightarrow> [mt]))"
  proof (cases rep)
    case None
    then show ?thesis using rep by (simp add: replacement_holds_def)
  next
    case (Some mt)
    obtain meta t where mt: "mt = (meta, t)" by fastforce
    obtain built where w: "meta = meta_of number built" "table_written number es built t"
      using rep Some mt by (auto simp: replacement_holds_def)
    then have t: "reader_ok (dt_reader t) (ra_data (dt_file t))" "dt_entries t = es" "dt_number t = number" "info_of es built" "es \<noteq> []"
      using small es Some mt by (simp_all add: table_written_def)
    have "covers meta (dt_entries t)" using covers_written [OF t(4)] table_entries_ordered [OF t(1)] t(2) w(1) by (simp add: dt_entries_def)
    then show ?thesis using Some mt t w(1) by (simp add: meta_of_def)
  qed
  then show "list_all2 covers (map fst (case rep of None \<Rightarrow> [] | Some mt \<Rightarrow> [mt])) (map dt_entries (new_tables rep))"
    "\<forall>t \<in> set (new_tables rep). reader_ok (dt_reader t) (ra_data (dt_file t)) \<and> dt_number t = number"
    "map dt_entries (new_tables rep) = (if es = [] then [] else [es])"
    "map dt_number (new_tables rep) = map tm_file_number (map fst (case rep of None \<Rightarrow> [] | Some mt \<Rightarrow> [mt]))"
    by blast+
qed

text \<open>What a successful installation leaves.\<close>

lemma install_fields:
  assumes "install_compaction pb bg sel number c rt rep db = (Ok (), db')"
  shows "db_tables db' = new_tables rep @ drop (length sel) (db_tables db)" "db_memtable db' = db_memtable db"
    "db_immutable db' = db_immutable db" "db_cache db' = fold (\<lambda>meta. EraseTable (tm_file_number meta)) sel (db_cache db)"
    "live_tables (db_current db') = map fst (case rep of None \<Rightarrow> [] | Some mt \<Rightarrow> [mt]) @ drop (length sel) (live_tables (db_current db))"
    "snapshot_valid (db_current db')" "length sel \<le> length (db_tables db)"
    "tm_file_number ` set (take (length sel) (live_tables (db_current db))) = tm_file_number ` set sel"
    "db_next_sequence db' = db_next_sequence db" "ss_active (db_snapshots db') = ss_active (db_snapshots db)"
    "db_options db' = db_options db" "db_registry db' = db_registry db"
proof -
  obtain d where s: "length sel \<le> length (db_tables db)"
    "map tm_file_number (take (length sel) (live_tables (db_current db))) = map tm_file_number sel"
    "db_publish pb (compacted_snapshot (length sel) number (map_option fst rep) (db_current db)) db = (Ok (), d)"
    "db' = drop_replaced sel (compaction_finished bg sel c rt rep d)" by (rule install_steps [OF assms])
  obtain ms fs where pub: "snapshot_valid (compacted_snapshot (length sel) number (map_option fst rep) (db_current db))"
    "db_current d = compacted_snapshot (length sel) number (map_option fst rep) (db_current db)" "d = db\<lparr>db_manifest := ms, db_fs := fs\<rparr>"
    using db_publish_Ok [OF s(3)] by blast
  note f = files_only_fields [OF drop_replaced_files [where db = "compaction_finished bg sel c rt rep d" and sel = sel, folded s(4)]]
  show "db_tables db' = new_tables rep @ drop (length sel) (db_tables db)" "db_memtable db' = db_memtable db"
    "db_immutable db' = db_immutable db" "db_cache db' = fold (\<lambda>meta. EraseTable (tm_file_number meta)) sel (db_cache db)"
    unfolding f(1,2,4,5) by (simp_all add: compaction_finished_fields pub(3))
  have q: "quiet ((compaction_finished bg sel c rt rep d)\<lparr>db_cache := fold (\<lambda>meta. EraseTable (tm_file_number meta)) sel (db_cache (compaction_finished bg sel c rt rep d))\<rparr>) db'"
    unfolding s(4) by (rule files_only_quiet [OF drop_replaced_files])
  then show "db_next_sequence db' = db_next_sequence db" "ss_active (db_snapshots db') = ss_active (db_snapshots db)"
    "db_options db' = db_options db" "db_registry db' = db_registry db"
    by (simp_all add: quiet_def compaction_finished_fields pub(3))
  have cur: "db_current db' = compacted_snapshot (length sel) number (map_option fst rep) (db_current db)"
    unfolding f(3) by (simp add: compaction_finished_fields pub(2))
  show "live_tables (db_current db') = map fst (case rep of None \<Rightarrow> [] | Some mt \<Rightarrow> [mt]) @ drop (length sel) (live_tables (db_current db))"
    "snapshot_valid (db_current db')" unfolding cur by (simp_all add: compacted_snapshot_live pub(1) split: option.split)
  show "length sel \<le> length (db_tables db)" by (rule s(1))
  show "tm_file_number ` set (take (length sel) (live_tables (db_current db))) = tm_file_number ` set sel"
    using arg_cong [OF s(2), of set] by simp
qed

lemma no_duplicates_part:
  assumes "no_duplicates (as @ bs)" "es = filter P (sort_versions as)"
  shows "no_duplicates (es @ bs)"
proof -
  have "distinct (map (\<lambda>e. (user_key e, sequence e)) es)"
    unfolding assms(2) by (rule distinct_map_filter) (use assms(1) in \<open>simp add: no_duplicates_def\<close>)
  moreover have "set es \<subseteq> set as" using assms(2) by auto
  ultimately show ?thesis using assms(1) by (auto simp: no_duplicates_def)
qed

lemma install_sound:
  assumes run: "install_compaction pb bg sel number c rt rep db = (Ok (), db')" and db: "db_sound db" "bc_capacity (db_cache db) \<noteq> 0"
    and rep: "replacement_holds number es rep" and small: "\<forall>t \<in> set (db_tables db'). length (ra_data (dt_file t)) < 2 ^ 32"
    and es: "es = filter P (sort_versions (concat (map dt_entries (take (length sel) (db_tables db)))))" "\<forall>e \<in> set es. sequence e \<noteq> 0"
  shows "db_sound db' \<and> layers db' = exchanged (length sel) es db"
proof -
  let ?n = "length sel"
  note f = install_fields [OF run]
  note new = replacement_table [OF rep _ es(2)]
  have small': "\<forall>t \<in> set (new_tables rep). length (ra_data (dt_file t)) < 2 ^ 32" using small f(1) by simp
  have num: "map dt_number (db_tables db) = map tm_file_number (live_tables (db_current db))" using db by (simp add: db_sound_def)
  have lay: "layers db' = exchanged ?n es db"
    using new(3) [OF small'] f(7) by (simp add: layers_def exchanged_def f(1-3) drop_map)
  note split = layers_split [OF f(7)]
  have "no_duplicates (concat (map dt_entries (take ?n (db_tables db))) @ concat (drop ?n (layers db)))"
    using sound_layers [OF db(1)] split by (metis concat_append)
  from no_duplicates_part [OF this es(1)] have "no_duplicates (concat (layers db'))"
    by (cases "es = []") (simp_all add: lay exchanged_def)
  then have dup: "no_duplicates (concat (db_sources db'))" using no_duplicates_perm [OF sources_layers [of db']] by simp
  have dist: "distinct (map tm_file_number (live_tables (db_current db')))" using f(6) by (simp add: snapshot_valid_def)
  have "set (map dt_number (db_tables db)) = set (map dt_number (take ?n (db_tables db))) \<union> set (map dt_number (drop ?n (db_tables db)))"
    by (metis append_take_drop_id map_append set_append)
  moreover have "set (map dt_number (take ?n (db_tables db))) = tm_file_number ` set sel"
    using arg_cong [OF num, of "\<lambda>xs. set (take ?n xs)"] f(8) by (simp add: take_map)
  ultimately have numbers: "dt_number ` set (db_tables db) = tm_file_number ` set sel \<union> dt_number ` set (drop ?n (db_tables db))" by simp
  have nums: "map dt_number (db_tables db') = map tm_file_number (live_tables (db_current db'))"
    using new(4) [OF small'] arg_cong [OF num, of "drop ?n"] by (simp add: f(1,5) drop_map)
  have cache: "bc_inv (db_cache db')" "e \<in> set (bc_lru (db_cache db')) \<Longrightarrow>
      e \<in> set (bc_lru (db_cache db)) \<and> table_number (ce_key e) \<in> dt_number ` set (drop ?n (db_tables db))" for e
    using EraseTables_kept [of "db_cache db" sel] db f(8) unfolding f(4) by (auto simp: db_sound_def cache_known_def numbers)
  have "list_all2 covers (drop ?n (live_tables (db_current db))) (map dt_entries (drop ?n (db_tables db)))"
    using db(1) by (simp add: db_sound_def drop_map [symmetric])
  then have cov: "list_all2 covers (live_tables (db_current db')) (map dt_entries (db_tables db'))"
    using new(1) [OF small'] by (simp add: f(1,5) list_all2_appendI)
  have "db_sound db'"
  proof (rule sound_exchange [OF db(1) f(2) _ _ dist nums cov dup cache(1)])
    show "mt_inv m" if "db_immutable db' = Some m" for m using that db(1) f(3) by (simp add: db_sound_def)
    show "t \<in> set (db_tables db) \<or> reader_ok (dt_reader t) (ra_data (dt_file t)) \<and>
        (\<forall>e \<in> set (bc_lru (db_cache db')). table_number (ce_key e) \<noteq> dt_number t)" if "t \<in> set (db_tables db')" for t
    proof (cases "t \<in> set (new_tables rep)")
      case True
      have "distinct (map dt_number (db_tables db'))" using dist nums by simp
      then have "dt_number t \<notin> dt_number ` set (drop ?n (db_tables db))" using True by (auto simp: f(1))
      then show ?thesis using True new(2) [OF small'] cache(2) by metis
    qed (use that in \<open>auto simp: f(1) dest: in_set_dropD\<close>)
    show "e \<in> set (bc_lru (db_cache db)) \<and> table_number (ce_key e) \<in> dt_number ` set (db_tables db')"
      if "e \<in> set (bc_lru (db_cache db'))" for e using cache(2) [OF that] by (auto simp: f(1))
  qed
  then show ?thesis using lay by simp
qed

section \<open>The whole job\<close>

lemma select_tables_quiet: "select_tables pb n bg db = (r, d) \<Longrightarrow> quiet db d"
proof -
  assume run: "select_tables pb n bg db = (r, d)"
  define db1 where "db1 = (if bg then db else CleanupObsoleteFiles db)"
  have q1: "quiet db db1" using files_only_quiet [OF CleanupObsoleteFiles_files [of db]] by (simp add: db1_def)
  have "quiet db1 d'" if "reserve_number pb bg db1 = (x, d')" for x d'
    using that db_publish_quiet [of pb _ db1 x d'] by (cases bg) (simp_all add: reserve_number_def)
  then have "quiet db d'" if "reserve_number pb bg db1 = (x, d')" for x d' using that q1 quiet_trans by blast
  then show ?thesis
    using run q1 unfolding select_tables_def Let_def db1_def [symmetric]
    by (auto simp: op_bind_def op_simps split: if_splits prod.splits result.splits)
qed

lemma select_tables_Ok:
  assumes run: "select_tables pb n bg db = (Ok (Some work), d)" and db: "db_readable db"
  shows "db_readable d" "layers d = layers db" "db_tables d = db_tables db" "db_snapshots d = db_snapshots db" "db_cache d = db_cache db"
    "cw_tables work = take n (db_tables db)" "length (cw_meta work) = n" "n \<le> length (db_tables db)"
    "cw_covers_all work \<longleftrightarrow> n = length (db_tables db)"
proof -
  define db1 where "db1 = (if bg then db else CleanupObsoleteFiles db)"
  have f1: "files_only db db1" using CleanupObsoleteFiles_files by (simp add: db1_def)
  note f = files_only_fields [OF f1]
  have l1: "layers db1 = layers db" using f by (simp add: layers_def)
  have len: "length (live_tables (db_current db)) = length (db_tables db)" by (rule readable_lengths [OF db])
  have w: "reserve_number pb bg db1 = (Ok (), d)" "n \<le> length (db_tables db)"
    "work = \<lparr>cw_number = next_file_number (db_current db1), cw_meta = take n (live_tables (db_current db1)),
       cw_tables = take n (db_tables db1), cw_covers_all = (n = length (live_tables (db_current db1)))\<rparr>"
    using run unfolding select_tables_def Let_def db1_def [symmetric]
    by (auto simp: op_bind_Ok_iff op_simps split: if_splits)
  have "db_readable d \<and> layers d = layers db1 \<and> db_tables d = db_tables db1 \<and> db_snapshots d = db_snapshots db1 \<and> db_cache d = db_cache db1"
  proof (cases bg)
    case True
    then have "db_publish pb ((db_current db1)\<lparr>next_file_number := next_file_number (db_current db1) + 1\<rparr>) db1 = (Ok (), d)"
      using w(1) by (simp add: reserve_number_def)
    from db_publish_Ok [OF this] obtain ms fs where p: "db_current d = (db_current db1)\<lparr>next_file_number := next_file_number (db_current db1) + 1\<rparr>"
      "d = db1\<lparr>db_manifest := ms, db_fs := fs\<rparr>" by blast
    then have "live_tables (ms_current ms) = live_tables (db_current db1)" by simp
    then have "db_sound d = db_sound db1" using p(2) by (simp add: db_sound_def db_sources_def)
    then show ?thesis using p(2) db f(11) by (simp add: layers_def db_readable_def)
  qed (use w(1) f(11) db in \<open>simp add: reserve_number_def\<close>)
  then show "db_readable d" "layers d = layers db" "db_tables d = db_tables db" "db_snapshots d = db_snapshots db" "db_cache d = db_cache db"
    using f l1 by simp_all
  show "cw_tables work = take n (db_tables db)" "length (cw_meta work) = n" "n \<le> length (db_tables db)"
    "cw_covers_all work \<longleftrightarrow> n = length (db_tables db)" using w(2,3) f len by simp_all
qed

definition kept_entries :: "CompactionWork \<Rightarrow> Db \<Rightarrow> InternalEntry list" where
  "kept_entries work db = retained (cw_covers_all work) (OldestOr no_snapshot (db_snapshots db)) Retention_start
     (sort_versions (concat (map dt_entries (cw_tables work))))"

lemma compact_write_Ok:
  assumes run: "compact_write charge work db = Some (Ok (rt, rep), d)"
    and ts: "\<forall>t \<in> set (cw_tables work). table_readable (db_cache db) t" "no_duplicates (concat (map dt_entries (cw_tables work)))"
  shows "replacement_holds (cw_number work) (kept_entries work db) rep \<and> quiet db d"
proof -
  let ?w = "OldestOr no_snapshot (db_snapshots db)" and ?temp = "SstableTempFileName (cw_number work)"
  obtain m where m: "merge_tables charge (cw_tables work) db = (Ok m, db)" "merged_good m"
    "mi_rest any_rest m = sort_versions (concat (map dt_entries (cw_tables work)))" using merge_tables_ok [OF ts] by blast
  obtain r d1 where k: "keep_all ?temp (kept_entries work db) None db = (r, d1)" by fastforce
  note loop = compact_loop_ok [OF m(2) refl, of charge ?temp "cw_covers_all work" ?w Retention_start None db, unfolded m(3),
      folded kept_entries_def, unfolded k]
  obtain writer where w: "r = Ok writer" using run m(1) loop by (cases r) (auto simp: compact_write_def)
  have f: "replace_tables charge (cw_number work) writer d1 = (Ok rep, d)"
    using run m(1) loop w by (auto simp: compact_write_def op_bind_Ok_iff op_simps)
  from replacement_written [OF k [unfolded w] f] show ?thesis using files_only_quiet quiet_trans quiet_update(2) by blast
qed

lemma exchanged_layered:
  assumes "sorted_wrt older (layers e)" "set es \<subseteq> set (concat (take n (layers e)))"
  shows "sorted_wrt older (exchanged n es e)"
proof -
  have s: "sorted_wrt older (take n (layers e) @ drop n (layers e))" using assms(1) by simp
  then have "older es bs" if "bs \<in> set (drop n (layers e))" for bs
    using that assms(2) unfolding sorted_wrt_append older_def by fastforce
  then show ?thesis using s by (auto simp: exchanged_def sorted_wrt_append)
qed

lemma exchanged_live_value:
  assumes "sorted_wrt older (layers e)" "ordered vs" "set vs = set (concat (take n (layers e)))" "es = retained c w Retention_start vs"
    "reader_allowed w (set vs) s"
  shows "live_value (set (concat (exchanged n es e))) k s v \<longleftrightarrow> live_value (set (concat (layers e))) k s v"
proof -
  let ?M = "set (concat (drop n (layers e)))"
  have split: "set (concat (layers e)) = ?M \<union> set vs"
    unfolding assms(3) by (metis Un_commute append_take_drop_id concat_append set_append)
  have new: "set (concat (exchanged n es e)) = ?M \<union> set es" by (auto simp: exchanged_def)
  show ?thesis
  proof (cases c)
    case False
    then show ?thesis using assms(4) retained_partial split new by simp
  next
    case True
    have "sorted_wrt older (take n (layers e) @ drop n (layers e))" using assms(1) by simp
    then have "all_newer ?M (set vs)" unfolding assms(3) all_newer_def sorted_wrt_append older_def by fastforce
    from kept_live_value [OF assms(2) this assms(5)] show ?thesis
      using retained_kept [OF assms(2), of w] assms(4) True split new by simp
  qed
qed

lemma pinned_allowed:
  assumes "ss_inv ss" "s \<in># pins ss \<or> (\<forall>a \<in> V. sequence a \<le> s)"
  shows "reader_allowed (OldestOr no_snapshot ss) V s"
proof (cases "\<forall>a \<in> V. sequence a \<le> s")
  case False
  then have p: "s \<in># pins ss" using assms(2) by blast
  have "OldestOr no_snapshot ss \<le> s" by (rule snapshot_state.oldest_lower [OF assms(1) p])
  moreover have "s \<noteq> no_snapshot" using False by (auto simp: not_le)
  ultimately show ?thesis using word_order.extremum_uniqueI [of s] by (auto simp: reader_allowed_def)
qed (simp add: reader_allowed_def)

lemma tables_positive: "db_sound db \<Longrightarrow> t \<in> set (db_tables db) \<Longrightarrow> e \<in> set (dt_entries t) \<Longrightarrow> sequence e \<noteq> 0"
  by (force simp: db_sound_def table_sound_def reader_ok_def block_ok_def dt_entries_def table_entries_def)

text \<open>Until the installation a compaction is quiet, whatever happens to it, and a failed installation is quiet too.\<close>

lemma keep_entry_quiet: "quiet_op (keep_entry temp retain e writer)"
proof -
  have "quiet_op (writer_Add e w)" for w by (auto simp: quiet_op_def writer_Add_def Let_def split: prod.splits if_splits)
  moreover have "quiet_op (open_writer temp writer)"
    unfolding open_writer_def by (cases writer) (auto intro!: quiet_op_bind, simp add: quiet_op_def)
  ultimately show ?thesis unfolding keep_entry_def by (auto intro!: quiet_op_bind)
qed

lemma compact_loop_quiet:
  assumes "compact_loop charge temp c w merged rt writer db = Some y"
  shows "quiet db (snd y)"
proof (rule compact_loop.raw_induct [where P = "\<lambda>charge temp c w merged rt writer db y. quiet db (snd y)", OF _ assms], goal_cases)
  case (1 loop charge temp c w merged rt writer db y)
  show ?case
  proof (cases "Valid (merged_ops charge) merged")
    case True
    let ?e = "entry (merged_ops charge) merged"
    obtain x d where k: "keep_entry temp (fst (retention_step c w ?e rt)) ?e writer db = (x, d)" by fastforce
    have q: "quiet db d" by (rule quiet_opD [OF keep_entry_quiet k])
    show ?thesis
    proof (cases x)
      case (Ok writer')
      then show ?thesis using 1(2) True k q quiet_trans [OF q 1(1)] by (auto simp: Let_def split: if_splits)
    qed (use 1(2) True k q in \<open>auto simp: Let_def\<close>)
  qed (use 1(2) in auto)
qed

lemma replace_tables_quiet: "quiet_op (replace_tables charge number writer)"
proof -
  have "quiet_op (writer_Finish w)" for w by (auto simp: quiet_op_def writer_Finish_def split: prod.splits)
  then have "quiet_op (publish_table charge number w)" for w
    unfolding publish_table_def case_prod_beta by (intro quiet_op_bind quiet_op_simps open_reader_quiet validate_reader_quiet)
  then show ?thesis unfolding replace_tables_def by (cases writer) (auto intro!: quiet_op_bind)
qed

lemma compaction_inputs_quiet: "quiet_op (compaction_inputs charge ts)"
proof (induction ts)
  case (Cons t ts)
  show ?case unfolding compaction_inputs.simps by (intro quiet_op_bind Cons.IH quiet_op_simps) (simp add: quiet_op_def)
qed simp

lemma compact_write_quiet:
  assumes "compact_write charge work db = Some (r, d)"
  shows "quiet db d"
proof -
  have m: "quiet_op (merge_tables charge (cw_tables work))" unfolding merge_tables_def by (intro quiet_op_bind compaction_inputs_quiet quiet_op_simps)
  obtain x d1 where 1: "merge_tables charge (cw_tables work) db = (x, d1)" by fastforce
  note q1 = quiet_opD [OF m 1]
  show ?thesis
  proof (cases x)
    case (Ok merged)
    obtain y d2 where 2: "compact_loop charge (SstableTempFileName (cw_number work)) (cw_covers_all work)
        (OldestOr no_snapshot (db_snapshots d1)) merged Retention_start None d1 = Some (y, d2)"
      using assms 1 Ok by (auto simp: compact_write_def bind_eq_Some_conv)
    have q2: "quiet db d2" using compact_loop_quiet [OF 2] q1 quiet_trans by auto
    have "quiet_op (op_bind (replace_tables charge (cw_number work) writer) (\<lambda>rep. op_return (rt, rep)))" for writer and rt :: Retention
      by (intro quiet_op_bind replace_tables_quiet quiet_op_simps)
    then show ?thesis using assms 1 2 Ok q2 quiet_trans [OF q2]
      by (cases y) (auto simp: compact_write_def dest!: quiet_opD)
  qed (use assms 1 q1 in \<open>auto simp: compact_write_def\<close>)
qed

lemma install_failed:
  assumes "install_compaction pb bg sel number c rt rep db = (r, db')" "r \<noteq> Ok ()"
  shows "quiet db db'"
  using assms db_publish_quiet [of pb _ db] by (auto simp: install_compaction_def Let_def op_bind_def split: if_splits prod.splits result.splits)

text \<open>
  Installing what was written: \<open>e\<close> is the state at that time, whose first tables still hold the versions that were merged.
\<close>

lemma install_step:
  assumes inst: "install_compaction pb bg sel number c rt rep e = (Ok (), db')" and e: "db_sound e" "layered e" "bc_capacity (db_cache e) \<noteq> 0"
    and vs: "vs = sort_versions (concat (map dt_entries (take (length sel) (db_tables e))))"
    and rep: "replacement_holds number (retained c w Retention_start vs) rep"
    and small: "\<forall>t \<in> set (db_tables db'). length (ra_data (dt_file t)) < 2 ^ 32"
  shows "db_sound db' \<and> layered db' \<and> contents db' \<subseteq> contents e \<and>
    (\<forall>key s v. reader_allowed w (set vs) s \<longrightarrow> (live_value (contents db') key s v \<longleftrightarrow> live_value (contents e) key s v))"
proof -
  let ?n = "length sel" and ?es = "retained c w Retention_start vs"
  have len: "?n \<le> length (db_tables e)" by (rule install_fields(7) [OF inst])
  note split = layers_split [OF len]
  have "no_duplicates (concat (map dt_entries (take ?n (db_tables e))))"
    using sound_layers [OF e(1)] by (subst (asm) split) (simp add: no_duplicates_def)
  then have ord: "ordered vs" unfolding vs ordered_iff_no_duplicates by (simp add: no_duplicates_def)
  obtain P where P: "?es = filter P vs" using retained_subseq [OF ord refl] by metis
  have "\<forall>a \<in> set vs. sequence a \<noteq> 0" using tables_positive [OF e(1)] unfolding vs by (auto dest: in_set_takeD)
  then have pos: "\<forall>a \<in> set ?es. sequence a \<noteq> 0" unfolding P by simp
  have i: "db_sound db'" "layers db' = exchanged ?n ?es e"
    using install_sound [OF inst e(1,3) rep small _ pos, of P] P vs by simp_all
  have set_vs: "set vs = set (concat (take ?n (layers e)))"
    unfolding vs using split len by (metis append_eq_conv_conj length_map length_take min.absorb2 set_sort_versions)
  have sub: "set ?es \<subseteq> set (concat (take ?n (layers e)))" unfolding P set_vs [symmetric] by auto
  then have "layered db'" using exchanged_layered [of e ?es ?n] e(2) i(2) by (simp add: layered_def)
  moreover have "contents db' \<subseteq> contents e"
  proof -
    have "set (concat (exchanged ?n ?es e)) \<subseteq> set ?es \<union> set (concat (drop ?n (layers e)))" by (auto simp: exchanged_def)
    moreover have "set (concat (layers e)) = set (concat (take ?n (layers e))) \<union> set (concat (drop ?n (layers e)))"
      by (metis append_take_drop_id concat_append set_append)
    ultimately show ?thesis unfolding contents_layers i(2) using sub by blast
  qed
  moreover have "live_value (contents db') key s v \<longleftrightarrow> live_value (contents e) key s v" if "reader_allowed w (set vs) s" for key s v
    using exchanged_live_value [OF _ ord set_vs refl that] e(2) i(2) by (simp add: contents_layers layered_def del: set_concat)
  ultimately show ?thesis using i(1) by blast
qed

lemma selected_written:
  assumes sel: "select_tables pb n bg db = (Ok (Some work), d0)" and run: "compact_write charge work d0 = Some (Ok (rt, rep), d)"
    and db: "db_readable db"
  shows "quiet db d \<and> length (cw_meta work) = n \<and> n \<le> length (db_tables db) \<and>
    replacement_holds (cw_number work) (retained (cw_covers_all work) (OldestOr no_snapshot (db_snapshots db)) Retention_start
      (sort_versions (concat (map dt_entries (take n (db_tables db)))))) rep"
proof -
  note w = select_tables_Ok [OF sel db]
  have sound: "db_sound db" using db by (simp add: db_readable_def)
  have "no_duplicates (concat (map dt_entries (take n (db_tables db))))"
    using sound_layers [OF sound] by (subst (asm) layers_split [OF w(8)]) (simp add: no_duplicates_def)
  then have inputs: "\<forall>t \<in> set (cw_tables work). table_readable (db_cache d0) t" "no_duplicates (concat (map dt_entries (cw_tables work)))"
    using db w(5,6) by (auto simp: db_readable_eq dest: in_set_takeD)
  have "quiet d0 d" "replacement_holds (cw_number work) (kept_entries work d0) rep" using compact_write_Ok [OF run inputs] by blast+
  then show ?thesis using select_tables_quiet [OF sel] quiet_trans w(4,6-8) by (auto simp: kept_entries_def)
qed

lemma compaction_step:
  assumes sel: "select_tables pb n bg db = (Ok (Some work), d0)" and run: "compact_selected pb charge others bg work d0 = Some (Ok (), db')"
    and db: "db_readable db" "layered db" "bc_capacity (db_cache db) \<noteq> 0" "ss_inv (db_snapshots db)"
    and rely: "\<forall>d. db_sound d \<and> layered d \<longrightarrow> db_sound (others d) \<and> layered (others d) \<and>
      bc_capacity (db_cache (others d)) = bc_capacity (db_cache d) \<and>
      take (length (db_tables d)) (map dt_entries (db_tables (others d))) = map dt_entries (db_tables d)"
    and small: "\<forall>t \<in> set (db_tables db'). length (ra_data (dt_file t)) < 2 ^ 32"
  shows "\<exists>d e. layers d = layers db \<and> e \<in> {d, others d} \<and> db_sound db' \<and> layered db' \<and>
    (\<forall>key s v. s \<in># pins (db_snapshots db) \<or> (\<forall>a \<in> contents db. sequence a \<le> s) \<longrightarrow>
       (live_value (contents db') key s v \<longleftrightarrow> live_value (contents e) key s v))"
proof -
  let ?ts = "take n (db_tables db)" and ?w = "OldestOr no_snapshot (db_snapshots db)"
  let ?vs = "sort_versions (concat (map dt_entries ?ts))"
  obtain rt rep d where w: "compact_write charge work d0 = Some (Ok (rt, rep), d)"
    "install_compaction pb bg (cw_meta work) (cw_number work) (cw_covers_all work) rt rep (if bg then others d else d) = (Ok (), db')"
  proof -
    obtain x d where x: "compact_write charge work d0 = Some (x, d)" using run by (auto simp: compact_selected_def bind_eq_Some_conv)
    then obtain y where "x = Ok y" using run by (cases x) (simp_all add: compact_selected_def)
    then show thesis using that x run by (cases y) (simp add: compact_selected_def)
  qed
  define e where "e = (if bg then others d else d)"
  have r: "quiet db d" "length (cw_meta work) = n" "n \<le> length (db_tables db)"
    "replacement_holds (cw_number work) (retained (cw_covers_all work) ?w Retention_start ?vs) rep"
    using selected_written [OF sel w(1) db(1)] by blast+
  have d: "db_sound d" "layered d" "layers d = layers db" "db_tables d = db_tables db" "db_cache d = db_cache db"
    using quiet_facts [OF r(1)] r(1) db(1,2) by (simp_all add: db_readable_def quiet_def)
  have o: "db_sound (others d)" "layered (others d)" "bc_capacity (db_cache (others d)) = bc_capacity (db_cache d)"
    "take (length (db_tables d)) (map dt_entries (db_tables (others d))) = map dt_entries (db_tables d)"
    using rely d(1,2) by blast+
  have "take n (map dt_entries (db_tables (others d))) = take n (map dt_entries (db_tables db))"
    using arg_cong [OF o(4), of "take n"] r(3) d(4) by (simp add: min_absorb1)
  then have e: "db_sound e" "layered e" "bc_capacity (db_cache e) \<noteq> 0" "map dt_entries (take n (db_tables e)) = map dt_entries ?ts"
    using o d db(3) by (simp_all add: e_def take_map)
  have vs: "?vs = sort_versions (concat (map dt_entries (take (length (cw_meta work)) (db_tables e))))" using e(4) r(2) by simp
  note step = install_step [OF w(2) [folded e_def] e(1-3) vs r(4) small]
  have "reader_allowed ?w (set ?vs) s" if "s \<in># pins (db_snapshots db) \<or> (\<forall>a \<in> contents db. sequence a \<le> s)" for s
  proof (rule pinned_allowed [OF db(4)])
    have "set ?vs \<subseteq> contents db" by (auto simp: contents_def dest!: in_set_takeD)
    then show "s \<in># pins (db_snapshots db) \<or> (\<forall>a \<in> set ?vs. sequence a \<le> s)" using that by blast
  qed
  then show ?thesis using step d(3) unfolding e_def by (intro exI [of _ d] exI [of _ "if bg then others d else d"]) auto
qed

section \<open>A compaction that succeeds\<close>

text \<open>A table with a deletion: the compaction of all tables leaves nothing.\<close>

definition tomb_entry :: InternalEntry where
  "tomb_entry = \<lparr>user_key = [1], sequence = 1, etype = kTombstone, evalue = []\<rparr>"

definition tomb_meta :: TableMeta where
  "tomb_meta = \<lparr>tm_file_number = 1, tm_file_size = 9, tm_smallest_key = [1], tm_largest_key = [1], tm_min_sequence = 1, tm_max_sequence = 1\<rparr>"

definition tomb_table :: DbTable where
  "tomb_table =
     (let blk = (case EncodeDataBlock [tomb_entry] 16 of Ok b \<Rightarrow> b | _ \<Rightarrow> []) in
      \<lparr>dt_reader = \<lparr>sr_file_size = of_nat (length blk), sr_version = kSstableVersion,
         sr_blocks = [\<lparr>bm_first_key = [1], bm_last_key = [1], bm_offset = 0, bm_size = of_nat (length blk)\<rparr>],
         sr_properties = None, sr_table_number = 1\<rparr>,
       dt_file = \<lparr>ra_data = blk, ra_reads = []\<rparr>\<rparr>)"

definition tomb_db :: Db where
  "tomb_db = (sample_db MemTable_empty [])
     \<lparr>db_tables := [tomb_table], db_next_sequence := 2,
      db_manifest := \<lparr>ms_current = \<lparr>active_wal_number = 2, next_file_number = 3, last_sequence = 1, live_tables = [tomb_meta],
        immutable_wal_number = 0\<rparr>\<rparr>,
      db_fs := sample_disk\<lparr>fs_dir := [(kManifest, 0), (WalFileName 2, 1), (SstableFileName 1, 2)]\<rparr>\<rparr>"

lemma tomb_table_ok: "table_readable c tomb_table \<and> dt_entries tomb_table = [tomb_entry]" if "bc_lru c = []" "bc_inv c" for c
proof -
  have "\<exists>blk. EncodeDataBlock [tomb_entry] 16 = Ok blk \<and> length blk < 200"
    unfolding EncodeDataBlock_def tomb_entry_def encode_v2_entries.simps Let_def
    by (simp add: FitsU32_def InternalLess_builder_def max_u32_def length_PutFixed BytewiseLess_def)
  then obtain blk where b: "EncodeDataBlock [tomb_entry] 16 = Ok blk" "length blk < 200" by blast
  have dec: "DecodeDataBlock blk kSstableVersion = Ok [tomb_entry]" by (rule DecodeEncodeDataBlock [OF b(1)]) (simp add: tomb_entry_def)
  let ?m = "\<lparr>bm_first_key = [1], bm_last_key = [1], bm_offset = 0, bm_size = of_nat (length blk)\<rparr>"
  have t: "dt_reader tomb_table = \<lparr>sr_file_size = of_nat (length blk), sr_version = kSstableVersion, sr_blocks = [?m],
      sr_properties = None, sr_table_number = 1\<rparr>" "dt_file tomb_table = \<lparr>ra_data = blk, ra_reads = []\<rparr>"
    by (simp_all add: tomb_table_def b)
  have len: "unat (of_nat (length blk) :: u64) = length blk" using b(2) by (simp add: unat_of_nat_u64 max_u64_def)
  have be: "block_entries (dt_reader tomb_table) blk ?m = [tomb_entry]" by (simp add: block_entries_def t len dec)
  have "block_ok (dt_reader tomb_table) blk ?m" using be dec by (simp add: block_ok_def len t(1)) (simp add: tomb_entry_def)
  then have "reader_ok (dt_reader tomb_table) blk" by (simp add: reader_ok_def t)
  then show ?thesis using be that by (simp add: table_readable_def table_sound_def t(2) dt_entries_def table_entries_def cache_ok_def) (simp add: t)
qed

lemma tomb_db_facts: "db_readable tomb_db" "layers tomb_db = [[tomb_entry], []]" "layered tomb_db" "bc_capacity (db_cache tomb_db) \<noteq> 0"
  "ss_inv (db_snapshots tomb_db)" "db_tables tomb_db = [tomb_table]" "table_readable (db_cache tomb_db) tomb_table"
  "dt_entries tomb_table = [tomb_entry]" "db_snapshots tomb_db = SnapshotState_empty"
proof -
  have t: "table_readable (db_cache tomb_db) tomb_table" "dt_entries tomb_table = [tomb_entry]"
    using tomb_table_ok [of "db_cache tomb_db"] by (simp_all add: tomb_db_def sample_db_def BlockCache_new_def bc_inv_def)
  moreover have "dt_number tomb_table = 1" by (simp add: tomb_table_def Let_def)
  moreover have "cache_known (db_cache tomb_db) [tomb_table]"
    by (simp add: cache_known_def tomb_db_def sample_db_def) (simp add: BlockCache_new_def)
  ultimately show "db_readable tomb_db"
    by (simp add: db_readable_eq tomb_db_def sample_db_def db_sources_def covers_def tomb_meta_def tomb_entry_def no_duplicates_def)
  show l: "layers tomb_db = [[tomb_entry], []]" using t by (simp add: layers_def tomb_db_def sample_db_def)
  show "layered tomb_db" by (simp add: layered_def l older_def)
  show "bc_capacity (db_cache tomb_db) \<noteq> 0" "db_tables tomb_db = [tomb_table]" "db_snapshots tomb_db = SnapshotState_empty"
    by (simp_all add: tomb_db_def sample_db_def BlockCache_new_def)
  then show "ss_inv (db_snapshots tomb_db)" by (simp add: ss_inv_def SnapshotState_empty_def)
qed (use tomb_table_ok [of "db_cache tomb_db"] in \<open>simp_all add: tomb_db_def sample_db_def BlockCache_new_def bc_inv_def\<close>)

lemma tomb_selected:
  "select_tables any_pb 1 False tomb_db = (Ok (Some \<lparr>cw_number = 3, cw_meta = [tomb_meta], cw_tables = [tomb_table], cw_covers_all = True\<rparr>), tomb_db)"
proof -
  have "\<not> obsolete (db_current tomb_db) (WalFileName 2)"
    by (simp add: obsolete_def WalFileName_def Parse_Format tomb_db_def)
  moreover have "\<not> obsolete (db_current tomb_db) (SstableFileName 1)"
    by (simp add: obsolete_def SstableFileName_def Parse_Format tomb_db_def tomb_meta_def)
  moreover have "\<not> obsolete (db_current tomb_db) kManifest"
    using Parse_canonical(2) [of kManifest] numbered_names(1) [symmetric]
    by (cases "ParseNumberedFileName kManifest") (simp add: obsolete_def, blast)
  ultimately have "CleanupObsoleteFiles tomb_db = tomb_db"
    by (simp add: CleanupObsoleteFiles_def tomb_db_def sample_db_def on_fs_def ListDir_def syscall_def pop_fault_def sample_disk_def)
  moreover have "CheckOpen tomb_db = kOk" "length (live_tables (db_current tomb_db)) = 1" "next_file_number (db_current tomb_db) = 3"
    "live_tables (db_current tomb_db) = [tomb_meta]"
    by (simp_all add: tomb_db_def sample_db_def CheckOpen_def)
  ultimately show ?thesis using tomb_db_facts(6) by (simp add: select_tables_def Let_def reserve_number_def op_bind_def op_simps)
qed

lemma tomb_compacts: "\<exists>db'. CompactTablePrefix any_pb charge id 1 False tomb_db = Some (Ok (), db') \<and> db_tables db' = []"
proof -
  let ?work = "\<lparr>cw_number = 3, cw_meta = [tomb_meta], cw_tables = [tomb_table], cw_covers_all = True\<rparr>"
  obtain m where m: "merge_tables charge [tomb_table] tomb_db = (Ok m, tomb_db)" "merged_good m" "mi_rest any_rest m = [tomb_entry]"
    using merge_tables_ok [of "[tomb_table]" tomb_db charge] tomb_db_facts(7,8) by (auto simp: no_duplicates_def)
  have keep: "retained True no_snapshot Retention_start [tomb_entry] = []"
    by (simp add: retention_step_def decide_def next_key_def Retention_start_def tomb_entry_def)
  let ?rt = "retention_after True no_snapshot Retention_start [tomb_entry]"
  have loop: "compact_loop charge (SstableTempFileName 3) True no_snapshot m Retention_start None tomb_db = Some (Ok (?rt, None), tomb_db)"
    using compact_loop_ok [OF m(2,3), of charge "SstableTempFileName 3" True no_snapshot Retention_start None tomb_db, unfolded keep]
    by (simp add: op_simps del: retention_after.simps)
  have wm: "OldestOr no_snapshot (db_snapshots tomb_db) = no_snapshot" by (simp add: tomb_db_facts(9) OldestOr_def SnapshotState_empty_def)
  let ?next = "compacted_snapshot 1 3 None (db_current tomb_db)"
  have "snapshot_valid ?next" "live_tables ?next = []"
    by (simp_all add: compacted_snapshot_def Let_def tomb_db_def snapshot_valid_def)
  moreover have "fs_faults (db_fs tomb_db) = []" "fs_plans (db_fs tomb_db) = []" "bound (db_fs tomb_db) kTemp = None" "fs_exists (db_fs tomb_db)"
    by (simp_all add: tomb_db_def sample_disk_def bound_def)
  ultimately obtain d where pub: "db_publish any_pb ?next tomb_db = (Ok (), d)" "db_tables d = [tomb_table]"
    using healthy_publish [of tomb_db ?next] tomb_db_facts(6) by fastforce
  have cur: "live_tables (db_current tomb_db) = [tomb_meta]" by (simp add: tomb_db_def)
  have inst: "install_compaction any_pb False [tomb_meta] 3 True ?rt None tomb_db =
      (Ok (), drop_replaced [tomb_meta] (compaction_finished False [tomb_meta] True ?rt None d))"
    using pub(1) tomb_db_facts(6) cur by (simp add: install_compaction_def op_bind_def)
  have "db_tables (drop_replaced [tomb_meta] (compaction_finished False [tomb_meta] True ?rt None d)) = []"
    using files_only_fields(4) [OF drop_replaced_files [where db = "compaction_finished False [tomb_meta] True ?rt None d" and sel = "[tomb_meta]"]]
      pub(2) by (simp add: compaction_finished_fields)
  moreover have "compact_selected any_pb charge id False ?work tomb_db =
      Some (Ok (), drop_replaced [tomb_meta] (compaction_finished False [tomb_meta] True ?rt None d))"
    using m(1) loop inst wm
    by (simp add: compact_selected_def compact_write_def replace_tables_def op_bind_def op_simps)
  ultimately show ?thesis using tomb_selected by (simp add: CompactTablePrefix_def)
qed

section \<open>Properties\<close>

text \<open>
  C16: What the merge loop of a full compaction keeps, against its specification: over the versions of all tables in
  order, without a snapshot it keeps of every key the newest version unless that is a deletion, and with a snapshot all
  versions above the watermark together with the version visible at it; the order is kept. This is an equality of the
  loop with a filter that looks at the whole input.
\<close>

theorem compaction_retention_spec:
  assumes "ordered es"
  shows "retained True watermark Retention_start es =
    filter (\<lambda>e. if watermark = no_snapshot then visible (set es) (user_key e) no_snapshot e \<and> etype e = kValue
                else sequence e > watermark \<or> visible (set es) (user_key e) watermark e) es"
  unfolding retained_kept [OF assms] by (rule filter_cong) (auto simp: kept_def)

theorem compaction_retention_spec_witness:
  "retained True no_snapshot Retention_start
     [\<lparr>user_key = [1], sequence = 4, etype = kTombstone, evalue = []\<rparr>, \<lparr>user_key = [1], sequence = 3, etype = kValue, evalue = [5]\<rparr>,
      \<lparr>user_key = [2], sequence = 2, etype = kValue, evalue = [6]\<rparr>] = [\<lparr>user_key = [2], sequence = 2, etype = kValue, evalue = [6]\<rparr>]"
proof -
  let ?es = "[\<lparr>user_key = [1], sequence = 4, etype = kTombstone, evalue = []\<rparr>, \<lparr>user_key = [1], sequence = 3, etype = kValue, evalue = [5]\<rparr>,
      \<lparr>user_key = [2], sequence = 2, etype = kValue, evalue = [6]\<rparr>]"
  have "ordered ?es" by (simp add: InternalLess_iff)
  then show ?thesis using compaction_retention_spec [of ?es no_snapshot] by (simp add: visible_def)
qed

text \<open>
  C15: Compaction never changes what a reader can see. On a readable database whose sources are layered by age, a
  compaction of any prefix of the tables, explicit or in the background, that reports success leaves a sound and layered
  database in which every registered snapshot, and every reader that sees all versions held at the start, reads
  the same values for all keys as before the result was installed. Other threads may write, read, flush and take
  snapshots while a background compaction works, as long as they keep the database sound and layered and only append
  tables. Failing system calls while the new table is written, validated and published are covered.
\<close>

theorem compaction_preserves_reads:
  assumes "CompactTablePrefix pb charge others n background db = Some (Ok (), db')" and "db_readable db" and "layered db"
    and "bc_capacity (db_cache db) \<noteq> 0" and "ss_inv (db_snapshots db)"
    and "\<forall>d. db_sound d \<and> layered d \<longrightarrow> db_sound (others d) \<and> layered (others d) \<and>
      bc_capacity (db_cache (others d)) = bc_capacity (db_cache d) \<and>
      take (length (db_tables d)) (map dt_entries (db_tables (others d))) = map dt_entries (db_tables d)"
    and "\<forall>t \<in> set (db_tables db'). length (ra_data (dt_file t)) < 2 ^ 32"
  shows "\<exists>d e. layers d = layers db \<and> e \<in> {d, others d} \<and> db_sound db' \<and> layered db' \<and>
    (\<forall>key s v. s \<in># pins (db_snapshots db) \<or> (\<forall>a \<in> contents db. sequence a \<le> s) \<longrightarrow>
       (live_value (contents db') key s v \<longleftrightarrow> live_value (contents e) key s v))"
proof -
  have sound: "db_sound db" using assms(2) by (simp add: db_readable_def)
  show ?thesis
  proof (cases "\<exists>d. select_tables pb n background db = (Ok None, d)")
    case True
    then have "db' = db" using assms(1) by (auto simp: CompactTablePrefix_def select_tables_def Let_def op_bind_def op_simps
          split: if_splits prod.splits result.splits)
    then show ?thesis using sound assms(3) by blast
  next
    case False
    then obtain work d where s: "select_tables pb n background db = (Ok (Some work), d)"
      "compact_selected pb charge others background work d = Some (Ok (), db')"
      using assms(1) by (auto simp: CompactTablePrefix_def split: prod.splits result.splits option.splits)
    from compaction_step [OF s assms(2-)] show ?thesis by blast
  qed
qed

theorem compaction_preserves_reads_witness:
  "\<exists>db'. CompactTablePrefix any_pb (\<lambda>es. 1) id 1 False tomb_db = Some (Ok (), db') \<and> db_sound db' \<and>
     (\<forall>v. \<not> live_value (contents db') [1] 1 v)"
proof -
  obtain db' where r: "CompactTablePrefix any_pb (\<lambda>es. 1) id 1 False tomb_db = Some (Ok (), db')" "db_tables db' = []"
    using tomb_compacts by blast
  have c: "contents tomb_db = {tomb_entry}" by (simp add: contents_layers tomb_db_facts(2))
  obtain d where d: "layers d = layers tomb_db" "db_sound db'"
    "\<forall>key s v. s \<in># pins (db_snapshots tomb_db) \<or> (\<forall>a \<in> contents tomb_db. sequence a \<le> s) \<longrightarrow>
       (live_value (contents db') key s v \<longleftrightarrow> live_value (contents d) key s v)"
    using compaction_preserves_reads [OF r(1) tomb_db_facts(1,3,4,5)] r(2) by auto
  have "contents d = {tomb_entry}" using d(1) by (simp add: contents_layers tomb_db_facts(2))
  then have "\<not> live_value (contents d) [1] 1 v" for v by (auto simp: live_value_def visible_def tomb_entry_def)
  then show ?thesis using r(1) d(2,3) c by (auto simp: tomb_entry_def)
qed

end
