(* ===== verification/Db_Open.thy ===== *)
theory Db_Open
  imports Compaction Recovery
begin

text \<open>
  Opening a database (\<open>DB::Impl::Open\<close> and its helpers in \<open>src/db/db_impl.cpp\<close>): checking the options, taking the lock,
  loading or creating the manifest, opening and validating every table, replaying the logs, removing what the manifest
  does not name and starting the worker. The properties say what holds of every database that opens, whatever bytes
  were on disk, and that a young directory opens as an empty database.
\<close>

section \<open>Construction and destruction\<close>

text \<open>The state \<open>Open\<close> builds before it touches the disk; \<open>registry\<close> is the identity of the new snapshot registry.\<close>

definition Impl_new :: "nat \<Rightarrow> Options \<Rightarrow> FileSystem \<Rightarrow> Db" where
  "Impl_new registry opts fs =
     \<lparr>db_options = opts, db_fs = fs, db_memtable = MemTable_empty, db_immutable = None, db_wal = None, db_tables = [],
      db_manifest = \<lparr>ms_current = \<lparr>active_wal_number = 0, next_file_number = 0, last_sequence = 0, live_tables = [],
        immutable_wal_number = 0\<rparr>\<rparr>,
      db_cache = BlockCache_new (o_block_cache_bytes opts) zero_cache_metrics,
      db_snapshots = SnapshotState_empty, db_registry = registry, db_terminal_error = None, db_background_error = None,
      db_pending_cleanup = [], db_next_sequence = 1, db_closed = False, db_closing = False, db_flush_requested = False,
      db_compaction_requested = False, db_flush_running = False, db_compaction_running = False, db_worker_stopping = False,
      db_read_metrics = zero_read_metrics, db_write_metrics = zero_write_metrics, db_compaction_metrics = zero_compaction_metrics\<rparr>"

definition StopBackgroundWorker :: "Db \<Rightarrow> Db" where
  "StopBackgroundWorker db = db\<lparr>db_worker_stopping := True\<rparr>"

text \<open>The destructor; the lock goes with the object unless \<open>Close\<close> has released it.\<close>

definition Impl_destroy :: "Db \<Rightarrow> Db" where
  "Impl_destroy db =
     (let db = StopBackgroundWorker db in
      if db_closed db then db
      else (let db = BestEffortClose (db_wal db) db in db\<lparr>db_fs := ReleaseLock (db_fs db)\<rparr>))"

section \<open>Finding or creating the manifest\<close>

definition EnsureDatabaseDirectory :: "(Db, unit) op" where
  "EnsureDatabaseDirectory =
     op_bind (on_fs DirExists) (\<lambda>path_exists db.
       if path_exists then (Ok (), db)
       else if \<not> o_create_if_missing (db_options db) then (Err kNotFound, db)
       else on_fs CreateDir db)"

definition LoadManifest :: "Protobuf \<Rightarrow> (Db, ManifestSnapshot) op" where
  "LoadManifest pb = on_fs (Load pb)"

text \<open>The loop of \<open>InspectInitialFiles\<close> over the directory: is there a first log, is there a temporary manifest?\<close>

fun inspect_names :: "string list \<Rightarrow> bool \<Rightarrow> bool \<Rightarrow> (bool \<times> bool) result" where
  "inspect_names [] has_wal has_temp = Ok (has_wal, has_temp)"
| "inspect_names (name # names) has_wal has_temp =
     (if name = kTemp then inspect_names names has_wal True
      else case ParseNumberedFileName name of
        Some numbered \<Rightarrow>
          (case fn_type numbered of
             kWal \<Rightarrow> if fn_number numbered \<noteq> 1 then Err kCorruption else inspect_names names True has_temp
           | kSstable \<Rightarrow> Err kCorruption
           | kSstableTemp \<Rightarrow> Err kCorruption)
      | None \<Rightarrow> inspect_names names has_wal has_temp)"

definition InspectInitialFiles :: "(Db, bool) op" where
  "InspectInitialFiles =
     op_bind (on_fs ListDir) (\<lambda>listed.
     op_bind (op_of (inspect_names listed False False)) (\<lambda>(has_initial_wal, has_manifest_temp).
       if \<not> has_initial_wal then (if has_manifest_temp then op_fail kCorruption else op_return False)
       else op_bind (on_fs (OpenRandomAccess (WalFileName 1))) (\<lambda>wal.
         if FileSize wal \<noteq> 0 then op_fail kNotSupported else op_return True)))"

definition first_snapshot :: ManifestSnapshot where
  "first_snapshot =
     \<lparr>active_wal_number = 1, next_file_number = 2, last_sequence = 0, live_tables = [], immutable_wal_number = 0\<rparr>"

text \<open>Publishing the first manifest: a failure of any kind is returned, and \<open>Open\<close> can be retried.\<close>

definition publish_first :: "Protobuf \<Rightarrow> (Db, unit) op" where
  "publish_first pb db =
     (case Publish pb first_snapshot \<lparr>ms_current = first_snapshot\<rparr> (db_fs db) of
        (Ok out, ms, fs) \<Rightarrow>
          (if po_state out = kDurable then Ok () else Err (po_status out), db\<lparr>db_fs := fs\<rparr>)
      | (Err c, ms, fs) \<Rightarrow> (Err c, db\<lparr>db_fs := fs\<rparr>)
      | (UB, ms, fs) \<Rightarrow> (UB, db\<lparr>db_fs := fs\<rparr>))"

definition CreateInitialManifest :: "Protobuf \<Rightarrow> (Db, ManifestSnapshot) op" where
  "CreateInitialManifest pb db =
     (if \<not> o_create_if_missing (db_options db) then (Err kNotFound, db)
      else
        op_bind InspectInitialFiles (\<lambda>inspected.
        op_bind (on_fs (OpenWritable (WalFileName 1) inspected)) (\<lambda>h.
        op_bind (on_fs (handle_Sync h)) (\<lambda>h.
        op_bind (on_fs (handle_Close h)) (\<lambda>_.
        op_bind (publish_first pb) (\<lambda>_. op_return first_snapshot))))) db)"

section \<open>Opening the tables\<close>

definition open_table :: "(InternalEntry list \<Rightarrow> u64) \<Rightarrow> TableMeta \<Rightarrow> (Db, DbTable) op" where
  "open_table charge meta =
     op_bind (on_fs (FileExists (SstableFileName (tm_file_number meta)))) (\<lambda>table_exists.
     op_bind (check table_exists kCorruption) (\<lambda>_.
     op_bind (open_reader (tm_file_number meta) (SstableFileName (tm_file_number meta))) (\<lambda>reader.
     op_bind (check (sr_file_size (dt_reader reader) = tm_file_size meta) kCorruption) (\<lambda>_.
     op_bind (validate_reader charge reader) (\<lambda>(properties, reader).
     op_bind (check (Matches meta properties) kCorruption) (\<lambda>_. op_return reader))))))"

fun open_tables :: "(InternalEntry list \<Rightarrow> u64) \<Rightarrow> TableMeta list \<Rightarrow> (Db, DbTable list) op" where
  "open_tables charge [] = op_return []"
| "open_tables charge (meta # further) =
     op_bind (open_table charge meta) (\<lambda>t. op_bind (open_tables charge further) (\<lambda>ts. op_return (t # ts)))"

definition OpenManifestSSTables :: "(InternalEntry list \<Rightarrow> u64) \<Rightarrow> ManifestSnapshot \<Rightarrow> (Db, unit) op" where
  "OpenManifestSSTables charge snapshot =
     op_bind (open_tables charge (live_tables snapshot)) (\<lambda>opened. db_modify (\<lambda>db. db\<lparr>db_tables := opened\<rparr>))"

section \<open>Replaying the logs\<close>

text \<open>Replay of one log into a MemTable; the result is the MemTable and the largest sequence recovered so far.\<close>

definition RecoverWal :: "u64 \<Rightarrow> u64 \<Rightarrow> MemTable \<Rightarrow> (Db, MemTable \<times> u64) op" where
  "RecoverWal wal_number floor target =
     op_bind (on_fs (FileExists (WalFileName wal_number))) (\<lambda>wal_exists.
     op_bind (check wal_exists kCorruption) (\<lambda>_.
     op_bind (on_fs (OpenSequential (WalFileName wal_number))) (\<lambda>f db.
       case Replay (Limits (db_options db)) f floor ApplyBatch target of
         (Ok replay, m) \<Rightarrow>
           op_bind (if truncated_tail replay then on_fs (Truncate (WalFileName wal_number) (valid_bytes replay)) else op_return ())
             (\<lambda>_. op_return (m, max floor (max_sequence replay))) db
       | (Err c, m) \<Rightarrow> (Err c, db)
       | (UB, m) \<Rightarrow> (UB, db))))"

definition install_immutable :: "MemTable \<Rightarrow> Db \<Rightarrow> Db" where
  "install_immutable m db =
     (let bytes = ApproximateMemoryUsage m; wm = db_write_metrics db in
      db\<lparr>db_immutable := Some m,
         db_write_metrics := wm\<lparr>wm_immutable_memtable_bytes := bytes, wm_background_queue_depth := 1,
           wm_max_background_queue_depth := UpdateMaximum (wm_max_background_queue_depth wm) 1,
           wm_max_immutable_memtable_bytes := UpdateMaximum (wm_max_immutable_memtable_bytes wm) bytes\<rparr>\<rparr>)"

definition recover_immutable :: "ManifestSnapshot \<Rightarrow> (Db, u64) op" where
  "recover_immutable snapshot =
     (if immutable_wal_number snapshot = 0 then op_return (last_sequence snapshot)
      else op_bind (RecoverWal (immutable_wal_number snapshot) (last_sequence snapshot) MemTable_empty) (\<lambda>(m, recovered_max).
           op_bind (check (\<not> MemTable_Empty m) kCorruption) (\<lambda>_.
           op_bind (db_modify (install_immutable m)) (\<lambda>_. op_return recovered_max))))"

definition RecoverWals :: "ManifestSnapshot \<Rightarrow> (Db, unit) op" where
  "RecoverWals snapshot =
     op_bind (recover_immutable snapshot) (\<lambda>recovered_max.
     op_bind (RecoverWal (active_wal_number snapshot) recovered_max MemTable_empty) (\<lambda>(m, max_seq).
     op_bind (db_modify (\<lambda>db. db\<lparr>db_memtable := m\<rparr>)) (\<lambda>_.
     op_bind (check (max_seq \<noteq> - 1) kResourceExhausted) (\<lambda>_.
     op_bind (db_modify (\<lambda>db. db\<lparr>db_next_sequence := max_seq + 1\<rparr>)) (\<lambda>_.
     op_bind (on_fs (OpenWritable (WalFileName (active_wal_number snapshot)) True)) (\<lambda>h.
     db_modify (\<lambda>db. db\<lparr>db_wal := Some (fst h, \<lparr>ww_file = snd h, ww_limits = Limits (db_options db)\<rparr>)\<rparr>)))))))"

section \<open>Open\<close>

text \<open>Whether the thread could be created is \<open>spawned\<close>.\<close>

definition StartBackgroundWorker :: "bool \<Rightarrow> (Db, unit) op" where
  "StartBackgroundWorker spawned db =
     (let db = (if db_immutable db \<noteq> None then db\<lparr>db_flush_requested := True\<rparr> else db);
          db = (if NeedsBackgroundCompaction db then db\<lparr>db_compaction_requested := True\<rparr> else db) in
      if spawned then (Ok (), db) else (Err kResourceExhausted, db))"

definition options_valid :: "Options \<Rightarrow> bool" where
  "options_valid opts \<longleftrightarrow>
     \<not> (o_memtable_bytes opts = 0 \<or> o_sstable_block_bytes opts = 0 \<or> o_sstable_restart_interval opts = 0 \<or>
        o_max_pending_write_requests opts = 0 \<or> o_max_pending_write_bytes opts = 0 \<or>
        o_max_group_commit_requests opts = 0 \<or> o_max_group_commit_bytes opts = 0) \<and> o_compaction_table_trigger opts \<noteq> 1"

definition find_manifest :: "Protobuf \<Rightarrow> (Db, ManifestSnapshot) op" where
  "find_manifest pb =
     op_bind (on_fs (FileExists kManifest)) (\<lambda>manifest_exists.
       if manifest_exists then LoadManifest pb else CreateInitialManifest pb)"

definition open_locked :: "Protobuf \<Rightarrow> (InternalEntry list \<Rightarrow> u64) \<Rightarrow> bool \<Rightarrow> (Db, unit) op" where
  "open_locked pb charge spawned =
     op_bind (find_manifest pb) (\<lambda>snapshot.
     op_bind (db_modify (\<lambda>db. db\<lparr>db_manifest := \<lparr>ms_current = snapshot\<rparr>\<rparr>)) (\<lambda>_.
     op_bind (OpenManifestSSTables charge snapshot) (\<lambda>_.
     op_bind (db_modify UpdateCompactionGauges) (\<lambda>_.
     op_bind (RecoverWals snapshot) (\<lambda>_.
     op_bind (db_modify CleanupObsoleteFiles) (\<lambda>_. StartBackgroundWorker spawned))))))"

text \<open>
  The result is the database, or an error and the disk that a failed attempt leaves. The object of a failed attempt is
  destroyed, which releases the lock it had taken.
\<close>

definition Db_Open ::
  "Protobuf \<Rightarrow> (InternalEntry list \<Rightarrow> u64) \<Rightarrow> bool \<Rightarrow> nat \<Rightarrow> string \<Rightarrow> Options \<Rightarrow> FileSystem option
   \<Rightarrow> Db result \<times> FileSystem option" where
  "Db_Open pb charge spawned registry path opts fs =
     (if path = [] then (Err kInvalidArgument, fs)
      else if \<not> options_valid opts then (Err kInvalidArgument, fs)
      else case fs of
        None \<Rightarrow> (Err kInvalidArgument, None)
      | Some fs0 \<Rightarrow>
          (case op_bind EnsureDatabaseDirectory (\<lambda>_. on_fs (LockFile ''LOCK'')) (Impl_new registry opts fs0) of
             (Ok _, db) \<Rightarrow>
               (case open_locked pb charge spawned db of
                  (Ok _, db') \<Rightarrow> (Ok db', Some (db_fs db'))
                | (Err c, db') \<Rightarrow> (Err c, Some (db_fs (Impl_destroy db')))
                | (UB, db') \<Rightarrow> (UB, Some (db_fs db')))
           | (Err c, db) \<Rightarrow> (Err c, Some (db_fs db))
           | (UB, db) \<Rightarrow> (UB, Some (db_fs db))))"

section \<open>What replay delivers\<close>

text \<open>Whatever a log holds, the versions replayed from it lie above the floor and below the reported maximum.\<close>

definition between :: "u64 \<Rightarrow> u64 \<Rightarrow> MemTable \<Rightarrow> bool" where
  "between lo hi m \<longleftrightarrow> mt_inv m \<and> (\<forall>e \<in> set (mt_all m). lo < sequence e \<and> sequence e \<le> hi)"

lemma decode_frame_nonempty: "decode_frame limits v rec = Ok es \<Longrightarrow> es \<noteq> []"
  using DecodeWalBatch_sound by (auto simp: decode_frame_def rbind_Ok_iff split: if_splits)

lemma ApplyBatch_between:
  assumes "ApplyBatch es m = (kOk, m')" "between lo p m" "es \<noteq> []" "p < sequence (hd es)" "lo \<le> p"
  shows "between lo (sequence (last es)) m' \<and> p < sequence (last es)"
proof -
  have inv: "mt_inv m" using assms(2) by (simp add: between_def)
  have "increasing es" using ApplyBatch_Ok [OF assms(1)] by simp
  note b = increasing_bounds [OF this]
  have "mt_inv m'" using ApplyBatch_preserves_inv [OF inv, of es] assms(1) by simp
  moreover have "set (mt_all m') = set (mt_all m) \<union> set es" by (rule ApplyBatch_contents [OF inv assms(1)])
  moreover have last: "p < sequence (last es)" using b(1) [of "last es"] assms(3,4) by (auto intro: less_le_trans)
  ultimately show ?thesis
    using assms(2,4,5) b last unfolding between_def by (auto intro: order.strict_trans1 order.strict_trans2 less_imp_le)
qed

lemma replay_loop_between:
  "replay_loop limits ApplyBatch f p res m = (Ok res', m') \<Longrightarrow> between lo p m \<Longrightarrow> p = max lo (max_sequence res) \<Longrightarrow>
     between lo (max lo (max_sequence res')) m'"
proof (induction "length (sq_data f)" arbitrary: f p res m rule: less_induct)
  case less
  obtain x f1 where r: "read_frame limits f = (x, f1)" by fastforce
  note run = less.prems(1) [unfolded replay_loop.simps [of limits ApplyBatch f], unfolded r]
  show ?case
  proof (cases "x = Ok Eof \<or> x = Ok Truncated")
    case True
    then show ?thesis using run less.prems(2,3) by auto
  next
    case False
    then obtain v rec where x: "x = Ok (Frame v rec)" using run by (cases x) (auto split: frame_read.splits)
    obtain es where es: "decode_frame limits v rec = Ok es" using run x by (auto split: result.splits)
    obtain c m1 where a: "ApplyBatch es m = (c, m1)" by fastforce
    have c: "c = kOk" "p < sequence (hd es)" using run x es a by (auto split: if_splits simp: not_le)
    have n: "between lo (sequence (last es)) m1" "p < sequence (last es)"
      using ApplyBatch_between [OF a [unfolded c(1)] less.prems(2) decode_frame_nonempty [OF es] c(2)] less.prems(3) by auto
    let ?res = "res\<lparr>max_sequence := sequence (last es), valid_bytes := valid_bytes res + of_nat (length rec)\<rparr>"
    have "replay_loop limits ApplyBatch f1 (sequence (last es)) ?res m1 = (Ok res', m')"
      using run x es a c by (auto simp: not_le split: if_splits)
    moreover have "length (sq_data f1) < length (sq_data f)" using read_frame_shrinks r x by blast
    moreover have "lo < sequence (last es)" using n(2) less.prems(3) by simp
    then have "sequence (last es) = max lo (max_sequence ?res)" by (simp add: max_absorb2 less_imp_le)
    ultimately show ?thesis using less.hyps n(1) by blast
  qed
qed

lemma Replay_between:
  assumes "Replay limits f lo ApplyBatch MemTable_empty = (Ok res, m)"
  shows "between lo (max lo (max_sequence res)) m"
proof -
  have "between lo lo MemTable_empty" using MemTable_empty_ok(1) by (simp add: between_def)
  then show ?thesis using replay_loop_between [OF assms [unfolded Replay_def]] by (simp add: max_def)
qed

lemma RecoverWal_Ok:
  assumes "RecoverWal number lo MemTable_empty db = (Ok (m, hi), db')"
  shows "between lo hi m \<and> lo \<le> hi \<and> files_only db db'"
proof -
  obtain b d1 d2 f d3 where s: "on_fs (FileExists (WalFileName number)) db = (Ok b, d1)" "check b kCorruption d1 = (Ok (), d2)"
    "on_fs (OpenSequential (WalFileName number)) d2 = (Ok f, d3)"
    "(case Replay (Limits (db_options d3)) f lo ApplyBatch MemTable_empty of
         (Ok replay, m) \<Rightarrow>
           op_bind (if truncated_tail replay then on_fs (Truncate (WalFileName number) (valid_bytes replay)) else op_return ())
             (\<lambda>_. op_return (m, max lo (max_sequence replay))) d3
       | (Err c, m) \<Rightarrow> (Err c, d3)
       | (UB, m) \<Rightarrow> (UB, d3)) = (Ok (m, hi), db')"
    using assms unfolding RecoverWal_def op_bind_Ok_iff by auto
  obtain res m1 where r: "Replay (Limits (db_options d3)) f lo ApplyBatch MemTable_empty = (Ok res, m1)"
    using s(4) by (auto split: prod.splits result.splits)
  have t: "m1 = m" "hi = max lo (max_sequence res)" "files_only d3 db'"
    using s(4) r on_fs_files by (auto simp: op_bind_Ok_iff op_simps split: if_splits)
  have "d2 = d1" using s(2) by (simp add: check_def split: if_splits)
  then have "files_only db db'" using on_fs_files [OF s(1)] on_fs_files [OF s(3)] t(3) files_only_trans by blast
  then show ?thesis using Replay_between [OF r] t by simp
qed

section \<open>What an opened table is\<close>

lemma decode_index_ok: "decode_index_entries bytes n p previous = Ok (bs, q) \<Longrightarrow> index_ok previous bs"
proof (induction n arbitrary: p previous bs)
  case (Suc n)
  then show ?case
    by (auto simp: Let_def rbind_Ok_iff not_less split: option.splits if_splits prod.splits)
qed simp

lemma index_ok_sorted: "index_ok previous bs \<Longrightarrow> sorted_wrt (\<lambda>a b. bm_last_key a < bm_first_key b) bs \<and>
    (previous \<noteq> None \<longrightarrow> (\<forall>b \<in> set bs. the previous < bm_first_key b))"
proof (induction bs arbitrary: previous)
  case (Cons b bs)
  have ih: "sorted_wrt (\<lambda>a b. bm_last_key a < bm_first_key b) bs" "\<forall>c \<in> set bs. bm_last_key b < bm_first_key c"
    using Cons.IH [of "Some (bm_last_key b)"] Cons.prems by auto
  then show ?case using Cons.prems by (auto intro: less_trans le_less_trans)
qed simp

lemma Open_index:
  assumes "Open number f = (Ok rd, f')"
  shows "sorted_wrt (\<lambda>a b. bm_last_key a < bm_first_key b) (sr_blocks rd) \<and> sr_table_number rd = number \<and> ra_data f' = ra_data f"
proof -
  have d: "ra_data f' = ra_data f" using stable_Open [of number] assms unfolding stable_def by blast
  obtain bytes bs where "DecodeIndex bytes = Ok bs" "sr_blocks rd = bs" "sr_table_number rd = number"
    using assms by (auto simp: Open_def Let_def op_bind_Ok_iff op_simps op_of_def split: if_splits)
  then have "index_ok None (sr_blocks rd)"
    using decode_index_ok by (auto simp: DecodeIndex_def Let_def rbind_Ok_iff split: if_splits prod.splits option.splits)
  then show ?thesis using index_ok_sorted d \<open>sr_table_number rd = number\<close> by blast
qed

text \<open>A table that was opened for a manifest entry: its blocks are sound and its entries fill the ranges of the entry.\<close>

definition table_fits :: "TableMeta \<Rightarrow> DbTable \<Rightarrow> bool" where
  "table_fits meta t \<longleftrightarrow> dt_number t = tm_file_number meta \<and> covers meta (dt_entries t) \<and> ordered (dt_entries t) \<and>
     (distinct (map bm_offset (sr_blocks (dt_reader t))) \<longrightarrow> reader_ok (dt_reader t) (ra_data (dt_file t))) \<and>
     (\<forall>e \<in> set (dt_entries t). sequence e \<noteq> 0 \<and> tm_min_sequence meta \<le> sequence e \<and> sequence e \<le> tm_max_sequence meta)"

lemma validated_fits:
  assumes o: "Open number f = (Ok (dt_reader t), dt_file t)" and n: "number = tm_file_number meta"
    and v: "ValidateAndGetProperties charge (dt_reader t) ts = (Ok p, ts')" "ra_data (ts_file ts) = ra_data (dt_file t)"
    and m: "Matches meta p"
  shows "table_fits meta t"
proof -
  let ?d = "ra_data (dt_file t)" and ?es = "dt_entries t"
  note s = ValidateAndGetProperties_sound [OF v, folded dt_entries_def]
  note i = Open_index [OF o]
  have ord: "ordered ?es" and ne: "?es \<noteq> []" using s by simp_all
  have "covers meta ?es"
    unfolding covers_def using s m ordered_last_key [OF ord] ord
    by (cases ?es) (auto simp: Matches_def InternalLess_iff)
  moreover have "\<forall>e \<in> set ?es. tm_min_sequence meta \<le> sequence e \<and> sequence e \<le> tm_max_sequence meta"
    using s m by (simp add: Matches_def)
  moreover have "\<forall>e \<in> set ?es. sequence e \<noteq> 0"
    using s by (auto simp: dt_entries_def table_entries_def block_ok_def)
  ultimately show ?thesis using s i ord n by (simp add: table_fits_def reader_ok_def)
qed

lemma open_table_fits:
  assumes "open_table charge meta db = (Ok t, db')"
  shows "table_fits meta t \<and> (\<exists>x. files_only (db\<lparr>db_read_metrics := x\<rparr>) db')"
proof -
  let ?name = "SstableFileName (tm_file_number meta)"
  obtain b d1 d2 r d3 d4 p d5 where s: "on_fs (FileExists ?name) db = (Ok b, d1)" "check b kCorruption d1 = (Ok (), d2)"
    "open_reader (tm_file_number meta) ?name d2 = (Ok r, d3)" "check (sr_file_size (dt_reader r) = tm_file_size meta) kCorruption d3 = (Ok (), d4)"
    "validate_reader charge r d4 = (Ok (p, t), d5)" "check (Matches meta p) kCorruption d5 = (Ok (), db')"
    using assms by (auto simp: open_table_def op_bind_Ok_iff op_simps split: prod.splits)
  have c: "d2 = d1" "d4 = d3" "db' = d5" "Matches meta p" using s(2,4,6) by (auto simp: check_def split: if_splits)
  obtain f fs3 where o: "OpenRandomAccess ?name (db_fs d2) = (Ok f, fs3)" "Open (tm_file_number meta) f = (Ok (dt_reader r), dt_file r)"
    "d3 = d2\<lparr>db_fs := fs3\<rparr>"
    using s(3) by (auto simp: open_reader_def op_bind_def on_fs_def split: prod.splits result.splits)
  obtain ts where v: "ValidateAndGetProperties charge (dt_reader r) (table_state (dt_file r) d4) = (Ok p, ts)"
    using s(5) by (auto simp: validate_reader_def on_table_file_def op_bind_Ok_iff split: prod.splits result.splits)
  have "table_fits meta r" by (rule validated_fits [OF o(2) refl v _ c(4)]) (simp add: table_state_def)
  moreover obtain x where x: "d5 = d4\<lparr>db_read_metrics := x\<rparr>" "dt_reader t = dt_reader r" "ra_data (dt_file t) = ra_data (dt_file r)"
    using validate_reader_kept [OF s(5)] by auto
  ultimately have "table_fits meta t" by (simp add: table_fits_def dt_entries_def)
  moreover have "files_only db d4" using on_fs_files [OF s(1)] c(1,2) o(3) files_only_trans files_only_update(1) by metis
  then have "files_only (db\<lparr>db_read_metrics := x\<rparr>) db'"
    unfolding c(3) x(1) by (cases db; cases d4) (simp add: files_only_def)
  ultimately show ?thesis by blast
qed

lemma open_tables_fit:
  "open_tables charge further db = (Ok ts, db') \<Longrightarrow> list_all2 table_fits further ts \<and> (\<exists>x. files_only (db\<lparr>db_read_metrics := x\<rparr>) db')"
proof (induction further arbitrary: db ts)
  case Nil
  then show ?case using files_only_refl [of db] by (auto simp: op_simps intro!: exI [of _ "db_read_metrics db"])
next
  case (Cons meta further)
  obtain t d1 ts1 where s: "open_table charge meta db = (Ok t, d1)" "open_tables charge further d1 = (Ok ts1, db')" "ts = t # ts1"
    using Cons.prems by (auto simp: op_bind_Ok_iff op_simps)
  obtain x where x: "table_fits meta t" "files_only (db\<lparr>db_read_metrics := x\<rparr>) d1" using open_table_fits [OF s(1)] by blast
  obtain y where y: "list_all2 table_fits further ts1" "files_only (d1\<lparr>db_read_metrics := y\<rparr>) db'" using Cons.IH [OF s(2)] by blast
  have "files_only (db\<lparr>db_read_metrics := y\<rparr>) (d1\<lparr>db_read_metrics := y\<rparr>)"
    using x(2) by (cases db; cases d1) (simp add: files_only_def)
  then have "files_only (db\<lparr>db_read_metrics := y\<rparr>) db'" using y(2) files_only_trans by blast
  then show ?case using x(1) y(1) s(3) by auto
qed

section \<open>The manifest that is used is valid\<close>

definition files_op :: "(Db, 'a) op \<Rightarrow> bool" where
  "files_op m \<longleftrightarrow> (\<forall>db r db'. m db = (r, db') \<longrightarrow> files_only db db')"

lemma files_op_simps [simp]: "files_op (on_fs m)" "files_op (op_return x)" "files_op (op_of y)" "files_op (op_fail c)" "files_op (check p c)"
  using on_fs_files by (auto simp: files_op_def op_simps op_of_def check_def split: if_splits)

lemma files_op_bind: "files_op m \<Longrightarrow> (\<And>x. files_op (k x)) \<Longrightarrow> files_op (op_bind m k)"
  unfolding files_op_def op_bind_def by (auto split: prod.splits result.splits) (metis files_only_trans)+

lemma files_op_cond: "(\<And>db. files_op (k db)) \<Longrightarrow> files_op (\<lambda>db. k db db)"
  by (simp add: files_op_def)

lemma publish_first_files: "files_op (publish_first pb)"
  by (auto simp: files_op_def publish_first_def split: prod.splits result.splits)

lemma EnsureDatabaseDirectory_files: "files_op EnsureDatabaseDirectory"
  unfolding EnsureDatabaseDirectory_def
proof (rule files_op_bind)
  show "files_op (\<lambda>db. if b then (Ok (), db) else if \<not> o_create_if_missing (db_options db) then (Err kNotFound, db) else on_fs CreateDir db)" for b
    using on_fs_files [of CreateDir] by (simp add: files_op_def)
qed simp

lemma InspectInitialFiles_files: "files_op InspectInitialFiles"
  unfolding InspectInitialFiles_def by (intro files_op_bind files_op_simps) (auto intro!: files_op_bind split: prod.split)

lemma CreateInitialManifest_files: "files_op (CreateInitialManifest pb)"
proof -
  have "files_op (op_bind InspectInitialFiles (\<lambda>inspected.
        op_bind (on_fs (OpenWritable (WalFileName 1) inspected)) (\<lambda>h.
        op_bind (on_fs (handle_Sync h)) (\<lambda>h.
        op_bind (on_fs (handle_Close h)) (\<lambda>_.
        op_bind (publish_first pb) (\<lambda>_. op_return first_snapshot))))))"
    by (intro files_op_bind files_op_simps InspectInitialFiles_files publish_first_files)
  then show ?thesis by (auto simp: files_op_def CreateInitialManifest_def)
qed

lemma find_manifest_Ok:
  assumes "find_manifest pb db = (Ok s, db')"
  shows "snapshot_valid s \<and> files_only db db'"
proof -
  have "files_op (find_manifest pb)"
    unfolding find_manifest_def LoadManifest_def by (intro files_op_bind) (simp_all add: CreateInitialManifest_files)
  moreover obtain b d where b: "on_fs (FileExists kManifest) db = (Ok b, d)"
    "(if b then LoadManifest pb else CreateInitialManifest pb) d = (Ok s, db')" using assms by (auto simp: find_manifest_def op_bind_Ok_iff)
  have "snapshot_valid s"
  proof (cases b)
    case True
    then have "\<exists>bytes. Decode pb bytes = Ok s"
      using b(2) by (auto simp: LoadManifest_def on_fs_def Load_def op_bind_def split: prod.splits result.splits if_splits)
    then show ?thesis using Decode_Ok_valid by blast
  next
    case False
    then have "s = first_snapshot"
      using b(2) by (auto simp: CreateInitialManifest_def op_bind_Ok_iff op_simps split: if_splits)
    then show ?thesis by (simp add: first_snapshot_def snapshot_valid_def)
  qed
  ultimately show ?thesis using assms by (auto simp: files_op_def)
qed

section \<open>The recovered state\<close>

lemma RecoverWals_Ok:
  assumes run: "RecoverWals s db = (Ok (), db')" and none: "db_immutable db = None"
  obtains mid where "between mid (db_next_sequence db' - 1) (db_memtable db')" "last_sequence s \<le> mid" "mid \<le> db_next_sequence db' - 1"
    "db_next_sequence db' \<noteq> 0" "case db_immutable db' of None \<Rightarrow> True | Some im \<Rightarrow> between (last_sequence s) mid im"
    "db_tables db' = db_tables db" "db_manifest db' = db_manifest db" "db_cache db' = db_cache db" "db_snapshots db' = db_snapshots db"
proof -
  obtain mid d1 m hi d2 d3 h d4 where r: "recover_immutable s db = (Ok mid, d1)"
    "RecoverWal (active_wal_number s) mid MemTable_empty d1 = (Ok (m, hi), d2)"
    "check (hi \<noteq> - 1) kResourceExhausted (d2\<lparr>db_memtable := m\<rparr>) = (Ok (), d3)"
    "on_fs (OpenWritable (WalFileName (active_wal_number s)) True) (d3\<lparr>db_next_sequence := hi + 1\<rparr>) = (Ok h, d4)"
    "db' = d4\<lparr>db_wal := Some (fst h, \<lparr>ww_file = snd h, ww_limits = Limits (db_options d4)\<rparr>)\<rparr>"
    using run by (auto simp: RecoverWals_def op_bind_Ok_iff db_modify_def split: prod.splits)
  have imm: "last_sequence s \<le> mid \<and> (case db_immutable d1 of None \<Rightarrow> True | Some im \<Rightarrow> between (last_sequence s) mid im) \<and>
      db_tables d1 = db_tables db \<and> db_manifest d1 = db_manifest db \<and> db_cache d1 = db_cache db \<and> db_snapshots d1 = db_snapshots db"
  proof (cases "immutable_wal_number s = 0")
    case True
    then show ?thesis using r(1) none by (simp add: recover_immutable_def op_simps)
  next
    case False
    then obtain im da where a: "RecoverWal (immutable_wal_number s) (last_sequence s) MemTable_empty db = (Ok (im, mid), da)"
      "d1 = install_immutable im da"
      using r(1) by (auto simp: recover_immutable_def op_bind_Ok_iff op_simps db_modify_def check_def split: prod.splits if_splits)
    have w: "between (last_sequence s) mid im" "last_sequence s \<le> mid" "files_only db da" using RecoverWal_Ok [OF a(1)] by auto
    then show ?thesis using files_only_fields [OF w(3)] a(2) by (simp add: install_immutable_def Let_def)
  qed
  have w: "between mid hi m" "mid \<le> hi" "files_only d1 d2" using RecoverWal_Ok [OF r(2)] by auto
  have h: "hi \<noteq> - 1" "d3 = d2\<lparr>db_memtable := m\<rparr>" using r(3) by (auto simp: check_def split: if_splits)
  note f2 = files_only_fields [OF w(3)]
  note f4 = files_only_fields [OF on_fs_files [OF r(4)]]
  have n: "db_next_sequence db' = hi + 1" "db_memtable db' = m" "db_immutable db' = db_immutable d1" "db_tables db' = db_tables d1"
    "db_manifest db' = db_manifest d1" "db_cache db' = db_cache d1" "db_snapshots db' = db_snapshots d1"
    using f4 f2 h(2) by (simp_all add: r(5))
  have "hi + 1 \<noteq> 0" using h(1) by (metis add_diff_cancel_right' diff_0)
  then show thesis using imm w(1,2) n by (intro that [of mid]) (simp_all cong: option.case_cong)
qed

text \<open>Sources whose sequences rise from one to the next are layered and hold no version twice.\<close>

definition rising :: "InternalEntry list list \<Rightarrow> bool" where
  "rising = sorted_wrt (\<lambda>as bs. \<forall>a \<in> set as. \<forall>b \<in> set bs. sequence a < sequence b)"

lemma rising_older: "rising Ls \<Longrightarrow> sorted_wrt older Ls"
  unfolding rising_def by (erule sorted_wrt_mono_rel [rotated]) (auto simp: older_def)

lemma rising_no_duplicates: "rising Ls \<Longrightarrow> \<forall>L \<in> set Ls. no_duplicates L \<Longrightarrow> no_duplicates (concat Ls)"
proof (induction Ls)
  case (Cons L Ls)
  then show ?case by (fastforce simp: rising_def no_duplicates_def)
qed (simp add: no_duplicates_def)

lemma fitting_tables_rise:
  assumes "list_all2 table_fits ms ts" "sorted_wrt (\<lambda>a b. tm_max_sequence a < tm_min_sequence b) ms"
  shows "rising (map dt_entries ts)"
  using assms
proof (induction rule: list_all2_induct)
  case (Cons m ms t ts)
  have "\<exists>n \<in> set ms. table_fits n u" if "u \<in> set ts" for u
    using Cons.hyps(2) that by (metis in_set_conv_nth list_all2_conv_all_nth)
  then have "sequence a < sequence b" if "a \<in> set (dt_entries t)" "u \<in> set ts" "b \<in> set (dt_entries u)" for a b u
    using Cons.hyps(1) Cons.prems that unfolding table_fits_def by (fastforce intro: le_less_trans less_le_trans)
  then show ?case using Cons.IH Cons.prems by (auto simp: rising_def)
qed (simp add: rising_def)

definition sequences_bounded :: "Db \<Rightarrow> bool" where
  "sequences_bounded db \<longleftrightarrow> (\<forall>e \<in> contents db. 0 < sequence e \<and> sequence e < db_next_sequence db)"

lemma table_fits_number: "list_all2 table_fits ms ts \<Longrightarrow> map dt_number ts = map tm_file_number ms \<and> list_all2 covers ms (map dt_entries ts)"
  by (induction rule: list_all2_induct) (auto simp: table_fits_def)

lemma below_next: "(e :: u64) \<le> n - 1 \<Longrightarrow> n \<noteq> 0 \<Longrightarrow> e < n"
proof -
  assume "e \<le> n - 1" "n \<noteq> 0"
  moreover have "unat (n - 1) = unat n - 1" using \<open>n \<noteq> 0\<close> by (subst unat_sub) (simp_all add: word_le_nat_alt unat_gt_0 Suc_le_eq)
  ultimately show "e < n" by (auto simp: word_le_nat_alt word_less_nat_alt unat_gt_0 [symmetric] simp del: unat_gt_0)
qed

lemma opened_state:
  assumes s: "snapshot_valid s" and t: "list_all2 table_fits (live_tables s) (db_tables db)" and cur: "db_current db = s"
    and m: "between mid (db_next_sequence db - 1) (db_memtable db)" "last_sequence s \<le> mid" "mid \<le> db_next_sequence db - 1" "db_next_sequence db \<noteq> 0"
    and i: "case db_immutable db of None \<Rightarrow> True | Some im \<Rightarrow> between (last_sequence s) mid im"
    and c: "bc_lru (db_cache db) = []" "bc_inv (db_cache db)"
    and off: "\<forall>t \<in> set (db_tables db). distinct (map bm_offset (sr_blocks (dt_reader t)))"
  shows "db_sound db \<and> layered db \<and> sequences_bounded db"
proof -
  let ?imm = "case db_immutable db of None \<Rightarrow> [] | Some m \<Rightarrow> [mt_all m]"
  have fit: "\<exists>n \<in> set (live_tables s). table_fits n u" if "u \<in> set (db_tables db)" for u
    using t that by (metis in_set_conv_nth list_all2_conv_all_nth)
  have disk: "0 < sequence e \<and> sequence e \<le> last_sequence s" if "u \<in> set (db_tables db)" "e \<in> set (dt_entries u)" for u e
    using fit [OF that(1)] s that(2) unfolding table_fits_def snapshot_valid_def table_valid_def
    by (fastforce simp: word_neq_0_conv intro: order_trans)
  have imm: "mt_inv im \<and> (\<forall>e \<in> set (mt_all im). last_sequence s < sequence e \<and> sequence e \<le> mid)" if "db_immutable db = Some im" for im
    using i that by (simp add: between_def)
  have mem: "mt_inv (db_memtable db)" "\<forall>e \<in> set (mt_all (db_memtable db)). mid < sequence e \<and> sequence e \<le> db_next_sequence db - 1"
    using m(1) by (simp_all add: between_def)
  have rise: "rising (layers db)"
    using fitting_tables_rise [OF t] s disk imm mem(2) m(2) unfolding layers_def rising_def snapshot_valid_def
    by (fastforce simp: sorted_wrt_append split: option.splits intro: le_less_trans)
  have ord: "no_duplicates L" if "L \<in> set (layers db)" for L
    using that fit imm mem(1) mt_all_ordered ordered_iff_no_duplicates unfolding layers_def table_fits_def
    by (fastforce split: option.splits)
  have dup: "no_duplicates (concat (layers db))" using rising_no_duplicates [OF rise] ord by blast
  have "sequence e \<le> db_next_sequence db - 1 \<and> 0 < sequence e" if "e \<in> contents db" for e
    using that disk imm mem(2) m(2,3) unfolding contents_def memory_def
    by (fastforce split: option.splits intro: order_trans le_less_trans)
  then have "sequences_bounded db" using below_next m(4) unfolding sequences_bounded_def by blast
  moreover have "db_sound db"
    using mem(1) imm fit off c dup table_fits_number [OF t] s cur no_duplicates_perm [OF sources_layers [of db]]
    by (fastforce simp: db_sound_def table_sound_def table_fits_def cache_ok_def cache_known_def snapshot_valid_def)
  ultimately show ?thesis using rising_older [OF rise] by (simp add: layered_def)
qed

lemma open_locked_Ok:
  assumes run: "open_locked pb charge spawned db = (Ok (), db')" and new: "db_immutable db = None" "bc_lru (db_cache db) = []" "bc_inv (db_cache db)"
    and off: "\<forall>t \<in> set (db_tables db'). distinct (map bm_offset (sr_blocks (dt_reader t)))"
  shows "db_sound db' \<and> layered db' \<and> sequences_bounded db'" "db_next_sequence db' \<noteq> 0" "db_cache db' = db_cache db"
    "db_snapshots db' = db_snapshots db"
proof -
  obtain s d1 ts d2 d3 where r: "find_manifest pb db = (Ok s, d1)"
    "open_tables charge (live_tables s) (d1\<lparr>db_manifest := \<lparr>ms_current = s\<rparr>\<rparr>) = (Ok ts, d2)"
    "RecoverWals s (UpdateCompactionGauges (d2\<lparr>db_tables := ts\<rparr>)) = (Ok (), d3)"
    "StartBackgroundWorker spawned (CleanupObsoleteFiles d3) = (Ok (), db')"
    using run by (auto simp: open_locked_def OpenManifestSSTables_def op_bind_Ok_iff db_modify_def)
  have s: "snapshot_valid s" "files_only db d1" using find_manifest_Ok [OF r(1)] by auto
  obtain x where t: "list_all2 table_fits (live_tables s) ts" "files_only (d1\<lparr>db_manifest := \<lparr>ms_current = s\<rparr>, db_read_metrics := x\<rparr>) d2"
    using open_tables_fit [OF r(2)] by auto
  note f1 = files_only_fields [OF s(2)]
  note f2 = files_only_fields [OF t(2)]
  have none: "db_immutable (UpdateCompactionGauges (d2\<lparr>db_tables := ts\<rparr>)) = None" using f1(2) f2(2) new(1) by simp
  obtain mid where w: "between mid (db_next_sequence d3 - 1) (db_memtable d3)" "last_sequence s \<le> mid" "mid \<le> db_next_sequence d3 - 1"
    "db_next_sequence d3 \<noteq> 0" "case db_immutable d3 of None \<Rightarrow> True | Some im \<Rightarrow> between (last_sequence s) mid im"
    "db_tables d3 = db_tables (UpdateCompactionGauges (d2\<lparr>db_tables := ts\<rparr>))"
    "db_manifest d3 = db_manifest (UpdateCompactionGauges (d2\<lparr>db_tables := ts\<rparr>))"
    "db_cache d3 = db_cache (UpdateCompactionGauges (d2\<lparr>db_tables := ts\<rparr>))"
    "db_snapshots d3 = db_snapshots (UpdateCompactionGauges (d2\<lparr>db_tables := ts\<rparr>))"
    by (rule RecoverWals_Ok [OF r(3) none])
  have w': "db_tables d3 = ts" "db_current d3 = s" "db_cache d3 = db_cache db" "db_snapshots d3 = db_snapshots db"
    using w(6-9) f1(5,7) f2(3,5,7) by simp_all
  note f3 = files_only_fields [OF CleanupObsoleteFiles_files [of d3]]
  have b: "db_tables db' = ts" "db_current db' = s" "db_cache db' = db_cache db" "db_memtable db' = db_memtable d3"
    "db_immutable db' = db_immutable d3" "db_next_sequence db' = db_next_sequence d3" "db_snapshots db' = db_snapshots db"
    using r(4) f3 w' by (auto simp: StartBackgroundWorker_def Let_def split: if_splits)
  show "db_next_sequence db' \<noteq> 0" "db_cache db' = db_cache db" "db_snapshots db' = db_snapshots db" using b w(4) by simp_all
  show "db_sound db' \<and> layered db' \<and> sequences_bounded db'"
    by (rule opened_state [OF s(1), where mid = mid]) (use w(1-5) t(1) new(2,3) off in \<open>simp_all add: b cong: option.case_cong\<close>)
qed

lemma Db_Open_Ok:
  assumes "Db_Open pb charge spawned registry path opts fs = (Ok db, fs')"
  obtains d where "open_locked pb charge spawned d = (Ok (), db)" "db_immutable d = None" "bc_lru (db_cache d) = []" "bc_inv (db_cache d)"
    "options_valid opts" "bc_capacity (db_cache d) = o_block_cache_bytes opts" "db_snapshots d = SnapshotState_empty"
proof -
  have p: "path \<noteq> []" "options_valid opts" using assms by (auto simp: Db_Open_def split: if_splits)
  obtain fs0 where fs0: "fs = Some fs0" using assms p by (cases fs) (simp_all add: Db_Open_def)
  obtain r d where o: "op_bind EnsureDatabaseDirectory (\<lambda>_. on_fs (LockFile ''LOCK'')) (Impl_new registry opts fs0) = (r, d)" by fastforce
  obtain r' d' where l: "open_locked pb charge spawned d = (r', d')" by fastforce
  have r: "r = Ok ()" using assms p fs0 o by (cases r) (simp_all add: Db_Open_def)
  have l: "open_locked pb charge spawned d = (Ok (), db)"
    using assms p fs0 o r l by (cases r') (simp_all add: Db_Open_def)
  have "files_only (Impl_new registry opts fs0) d"
  proof -
    obtain d1 where e: "EnsureDatabaseDirectory (Impl_new registry opts fs0) = (Ok (), d1)" "on_fs (LockFile ''LOCK'') d1 = (Ok (), d)"
      using o r by (auto simp: op_bind_Ok_iff)
    have "files_only (Impl_new registry opts fs0) d1" using EnsureDatabaseDirectory_files e(1) unfolding files_op_def by blast
    then show ?thesis using on_fs_files e(2) files_only_trans by blast
  qed
  note f = files_only_fields [OF this]
  show thesis using that l p f(2,5,7) by (simp add: Impl_new_def BlockCache_new_def bc_inv_def)
qed

section \<open>A young directory opens\<close>

definition young_fs :: FileSystem where
  "young_fs = \<lparr>fs_exists = False, fs_locked = False, fs_dir = [], fs_past = [], fs_nodes = (\<lambda>_. fresh_node), fs_fresh = 0,
     fs_faults = [], fs_plans = []\<rparr>"

lemma not_numbered: "\<not> is_digit (hd name) \<Longrightarrow> ParseNumberedFileName name = None"
  using Parse_canonical(2) [of name] Format_hd by (cases "ParseNumberedFileName name") auto

lemma other_names [simp]: "ParseNumberedFileName ''LOCK'' = None" "ParseNumberedFileName kManifest = None"
  by (rule not_numbered, simp add: is_digit_def kManifest_def)+

lemma LOCK_names [simp]: "''LOCK'' \<noteq> kManifest" "''LOCK'' \<noteq> kTemp" "''LOCK'' \<noteq> WalFileName n" "WalFileName n \<noteq> ''LOCK''"
  "kManifest \<noteq> ''LOCK''" "kTemp \<noteq> ''LOCK''"
proof -
  have "is_digit (hd (WalFileName n))" using Format_hd [of n kWal] by (simp add: WalFileName_def)
  moreover have "\<not> is_digit (hd ''LOCK'')" by (simp add: is_digit_def)
  ultimately show "''LOCK'' \<noteq> WalFileName n" "WalFileName n \<noteq> ''LOCK''" by metis+
qed (simp_all add: kManifest_def kTemp_def)

definition locked_fs :: FileSystem where
  "locked_fs = young_fs\<lparr>fs_exists := True, fs_locked := True, fs_dir := [(''LOCK'', 0)], fs_past := [[]], fs_fresh := 1\<rparr>"

lemma young_locked:
  assumes "o_create_if_missing opts"
  shows "op_bind EnsureDatabaseDirectory (\<lambda>_. on_fs (LockFile ''LOCK'')) (Impl_new registry opts young_fs) =
     (Ok (), Impl_new registry opts locked_fs)"
  by (simp add: op_bind_def EnsureDatabaseDirectory_def on_fs_def DirExists_def CreateDir_def LockFile_def syscall_def pop_fault_def
      young_fs_def locked_fs_def Impl_new_def bound_def change_dir_def set_node_def Let_def fun_eq_iff assms)

text \<open>The disk with the first log and the first manifest.\<close>

definition initialised :: "FileSystem \<Rightarrow> bool" where
  "initialised fs \<longleftrightarrow> fs_faults fs = [] \<and> fs_plans fs = [] \<and> fs_dir fs = [(''LOCK'', 0), (WalFileName 1, 1), (kManifest, 2)] \<and>
     nd_data (fs_nodes fs 1) = []"

lemma Impl_new_fs [simp]: "db_fs (Impl_new r opts fs) = fs" "(Impl_new r opts fs)\<lparr>db_fs := fs'\<rparr> = Impl_new r opts fs'"
  "db_options (Impl_new r opts fs) = opts"
  by (simp_all add: Impl_new_def)

definition logged_fs :: FileSystem where
  "logged_fs = locked_fs\<lparr>fs_dir := [(''LOCK'', 0), (WalFileName 1, 1)], fs_past := [[(''LOCK'', 0)], []], fs_fresh := Suc (Suc 0),
    fs_nodes := (\<lambda>_. fresh_node)(1 := fresh_node\<lparr>nd_clean := True\<rparr>)\<rparr>"

lemmas disk_defs = syscall_def pop_fault_def pop_plan_def no_plan_def bound_def open_handle_def fresh_node_def handle_Append_def
  handle_Sync_def handle_Close_def on_handle_def Append_def Sync_def CloseFile_def op_bind_def write_back_def mark_clean_def
  set_node_def change_dir_def rename_entry_def append_loop_all Let_def map_add_def

lemma first_log:
  "\<exists>h. op_bind (on_fs (OpenWritable (WalFileName 1) False)) (\<lambda>h. op_bind (on_fs (handle_Sync h)) (\<lambda>h. on_fs (handle_Close h)))
     (Impl_new registry opts locked_fs) = (Ok h, Impl_new registry opts logged_fs)"
  by (simp add: on_fs_def OpenWritable_def logged_fs_def locked_fs_def young_fs_def disk_defs fun_eq_iff)

lemma first_publish:
  "\<exists>fs. publish_first any_pb (Impl_new registry opts logged_fs) = (Ok (), Impl_new registry opts fs) \<and> initialised fs"
proof -
  have e: "Encode any_pb first_snapshot = Ok (manifest_frame [0])"
    by (auto simp: Encode_Ok_iff any_pb_def kMaxManifestFileBytes_def kManifestHeaderBytes_def snapshot_valid_def first_snapshot_def)
  have "\<exists>fs. Publish any_pb first_snapshot \<lparr>ms_current = first_snapshot\<rparr> logged_fs = (Ok Durable, \<lparr>ms_current = first_snapshot\<rparr>, fs) \<and> initialised fs"
    by (simp add: Publish_def e write_temp_def OpenWritable_def logged_fs_def locked_fs_def young_fs_def Rename_def SyncDir_def initialised_def disk_defs)
  then show ?thesis by (auto simp: publish_first_def Durable_def)
qed

lemma young_manifest:
  assumes "o_create_if_missing opts"
  shows "\<exists>fs. find_manifest any_pb (Impl_new registry opts locked_fs) = (Ok first_snapshot, Impl_new registry opts fs) \<and> initialised fs"
proof -
  let ?db = "Impl_new registry opts locked_fs"
  have i: "InspectInitialFiles ?db = (Ok False, ?db)"
    by (simp add: InspectInitialFiles_def op_bind_def on_fs_def ListDir_def syscall_def pop_fault_def locked_fs_def young_fs_def
        op_of_def op_simps)
  have n: "on_fs (FileExists kManifest) ?db = (Ok False, ?db)"
    by (simp add: on_fs_def FileExists_def locked_fs_def young_fs_def disk_defs)
  obtain h where h: "op_bind (on_fs (OpenWritable (WalFileName 1) False)) (\<lambda>h. op_bind (on_fs (handle_Sync h)) (\<lambda>h. on_fs (handle_Close h))) ?db =
      (Ok h, Impl_new registry opts logged_fs)" using first_log by blast
  obtain fs where p: "publish_first any_pb (Impl_new registry opts logged_fs) = (Ok (), Impl_new registry opts fs)" "initialised fs"
    using first_publish by blast
  obtain h1 d1 h2 d2 where "on_fs (OpenWritable (WalFileName 1) False) ?db = (Ok h1, d1)" "on_fs (handle_Sync h1) d1 = (Ok h2, d2)"
    "on_fs (handle_Close h2) d2 = (Ok h, Impl_new registry opts logged_fs)" using h by (auto simp: op_bind_Ok_iff)
  then have "find_manifest any_pb ?db = (Ok first_snapshot, Impl_new registry opts fs)"
    using p(1) i n by (simp add: find_manifest_def CreateInitialManifest_def op_bind_def op_simps assms)
  then show ?thesis using p(2) by blast
qed

lemma replay_empty:
  assumes "sq_data f = []" "sq_reads f = []"
  shows "Replay limits f lo g st = (Ok \<lparr>max_sequence = 0, valid_bytes = 0, truncated_tail = False\<rparr>, st)"
proof -
  have "fst (read_frame limits f) = Ok Eof" using assms by (intro read_frame_eof) simp_all
  then show ?thesis unfolding Replay_def by (subst replay_loop.simps) (cases "read_frame limits f", simp)
qed

text \<open>A database with nothing in it and an open log.\<close>

definition young_with :: "Options \<Rightarrow> Db \<Rightarrow> bool" where
  "young_with opts db \<longleftrightarrow> db_tables db = [] \<and> db_memtable db = MemTable_empty \<and> db_immutable db = None \<and> db_next_sequence db = 1 \<and>
     db_options db = opts \<and> \<not> db_closed db \<and> \<not> db_closing db \<and> db_terminal_error db = None \<and> db_background_error db = None \<and>
     \<not> db_compaction_running db \<and> (\<exists>i w. db_wal db = Some (i, w) \<and> ww_limits w = Limits opts \<and>
       wf_open (ww_file w) \<and> wf_writes (ww_file w) = [] \<and> wf_syncs (ww_file w) = [] \<and> wf_closes (ww_file w) = [])"

lemma young_recovered:
  assumes "initialised (db_fs db)" "db_immutable db = None" "db_tables db = []" "db_options db = opts"
    "\<not> db_closed db \<and> \<not> db_closing db \<and> db_terminal_error db = None \<and> db_background_error db = None \<and> \<not> db_compaction_running db"
  shows "\<exists>db'. RecoverWals first_snapshot db = (Ok (), db') \<and> young_with opts db'"
proof -
  let ?d = "db_fs db" and ?f = "\<lparr>sq_data = [], sq_reads = []\<rparr>" and ?db = "db\<lparr>db_memtable := MemTable_empty, db_next_sequence := 1\<rparr>"
  have b: "map_of (fs_dir ?d) (WalFileName 1) = Some 1" "nd_data (fs_nodes ?d 1) = []" "fs_faults ?d = []" "fs_plans ?d = []"
    using assms(1) by (simp_all add: initialised_def)
  have 1: "RecoverWal 1 0 MemTable_empty db = (Ok (MemTable_empty, 0), db)"
    using b by (simp add: replay_empty RecoverWal_def on_fs_def FileExists_def OpenSequential_def disk_defs op_simps check_def)
  obtain h where 2: "on_fs (OpenWritable (WalFileName 1) True) ?db = (Ok h, ?db)"
    "wf_open (snd h)" "wf_writes (snd h) = []" "wf_syncs (snd h) = []" "wf_closes (snd h) = []"
    using b by (simp add: on_fs_def OpenWritable_def disk_defs)
  define db' where "db' = ?db\<lparr>db_wal := Some (fst h, \<lparr>ww_file = snd h, ww_limits = Limits (db_options db)\<rparr>)\<rparr>"
  have "RecoverWals first_snapshot db = (Ok (), db')"
    using 1 2(1) by (simp add: RecoverWals_def recover_immutable_def first_snapshot_def op_bind_def op_simps db_modify_def check_def db'_def)
  moreover have "young_with opts db'"
    using assms(2-5) 2(2-5) by (simp add: young_with_def db'_def)
  ultimately show ?thesis by blast
qed

lemma young_kept:
  assumes "young_with opts db" "files_only db d"
  shows "\<exists>d'. StartBackgroundWorker True d = (Ok (), d') \<and> young_with opts d'"
proof -
  have "young_with opts d" using assms by (cases db; cases d) (simp add: files_only_def young_with_def)
  then show ?thesis by (simp add: StartBackgroundWorker_def Let_def young_with_def)
qed

lemma young_opens_with:
  assumes "options_valid opts" "o_create_if_missing opts"
  shows "\<exists>db fs. Db_Open any_pb charge True registry ''db'' opts (Some young_fs) = (Ok db, fs) \<and> young_with opts db"
proof -
  obtain fs where m: "find_manifest any_pb (Impl_new registry opts locked_fs) = (Ok first_snapshot, Impl_new registry opts fs)"
    "initialised fs" using young_manifest [OF assms(2)] by blast
  define d1 where "d1 = UpdateCompactionGauges ((Impl_new registry opts fs)\<lparr>db_manifest := \<lparr>ms_current = first_snapshot\<rparr>, db_tables := []\<rparr>)"
  have d1: "initialised (db_fs d1)" "db_immutable d1 = None" "db_tables d1 = []" "db_options d1 = opts"
    "\<not> db_closed d1 \<and> \<not> db_closing d1 \<and> db_terminal_error d1 = None \<and> db_background_error d1 = None \<and> \<not> db_compaction_running d1"
    using m(2) by (simp_all add: d1_def UpdateCompactionGauges_def Impl_new_def Let_def)
  obtain d2 where d2: "RecoverWals first_snapshot d1 = (Ok (), d2)" "young_with opts d2" using young_recovered [OF d1] by blast
  obtain d3 where d3: "StartBackgroundWorker True (CleanupObsoleteFiles d2) = (Ok (), d3)" "young_with opts d3"
    using young_kept [OF d2(2) CleanupObsoleteFiles_files] by blast
  have "open_locked any_pb charge True (Impl_new registry opts locked_fs) = (Ok (), d3)"
    using m(1) d2(1) d3(1)
    by (simp add: open_locked_def OpenManifestSSTables_def op_bind_def db_modify_def op_simps d1_def first_snapshot_def)
  then show ?thesis using young_locked [OF assms(2), of registry] d3(2) assms(1) by (simp add: Db_Open_def)
qed

definition young_database :: "Db \<Rightarrow> bool" where
  "young_database db \<longleftrightarrow> db_tables db = [] \<and> db_memtable db = MemTable_empty \<and> db_immutable db = None \<and> db_next_sequence db = 1 \<and>
     db_options db = sample_options \<and> \<not> db_closed db \<and> \<not> db_closing db \<and> db_terminal_error db = None \<and> db_background_error db = None \<and> (\<exists>i w. db_wal db = Some (i, w) \<and> ww_limits w = Limits sample_options \<and>
       wf_open (ww_file w) \<and> wf_writes (ww_file w) = [] \<and> wf_syncs (ww_file w) = [])"

lemma young_opens:
  "\<exists>db fs. Db_Open any_pb charge True registry ''db'' sample_options (Some young_fs) = (Ok db, fs) \<and> young_database db"
  using young_opens_with [of sample_options charge registry]
  by (auto simp: young_with_def young_database_def sample_options_def options_valid_def)

section \<open>Properties\<close>

text \<open>
  C17: Every database that \<open>Open\<close> returns is sound, whatever was on the disk. The MemTables are sorted and hold no
  version twice, every table's blocks decode to ordered entries inside the ranges of its manifest entry, no version is in
  two sources, each source is older than the next for every key they share, and every sequence is positive and below the
  next one to be assigned. The only thing \<open>Open\<close> does not check is that the index of a table names each block offset
  once, which every table that the builder wrote satisfies.
\<close>

theorem opened_database_sound:
  assumes "Db_Open pb charge spawned registry path opts fs = (Ok db, fs')"
    and "\<forall>t \<in> set (db_tables db). distinct (map bm_offset (sr_blocks (dt_reader t)))"
  shows "db_sound db \<and> layered db \<and> sequences_bounded db"
proof -
  obtain d where "open_locked pb charge spawned d = (Ok (), db)" "db_immutable d = None" "bc_lru (db_cache d) = []" "bc_inv (db_cache d)"
    by (rule Db_Open_Ok [OF assms(1)])
  then show ?thesis by (rule open_locked_Ok(1) [OF _ _ _ _ assms(2)])
qed

theorem opened_database_sound_witness:
  "\<exists>db fs. Db_Open any_pb (\<lambda>_. 1) True 0 ''db'' sample_options (Some young_fs) = (Ok db, fs) \<and> db_sound db \<and> layered db \<and> sequences_bounded db"
proof -
  obtain db fs where o: "Db_Open any_pb (\<lambda>_. 1) True 0 ''db'' sample_options (Some young_fs) = (Ok db, fs)" "db_tables db = []"
    using young_opens [of "\<lambda>_. 1" 0] by (auto simp: young_database_def)
  then show ?thesis using opened_database_sound [OF o(1)] by simp
qed

end
