(* ===== verification/Write_Path.thy ===== *)
theory Write_Path
  imports Crash_Safety
begin

text \<open>
  The write path of \<open>src/db/db_impl.cpp\<close>: write batches and their validation, the bounded writer queue
  with its leader, the formation of a group, and the application of a group to the log and to the
  MemTable.
\<close>

section \<open>Write batches\<close>

datatype OperationType = kPut | kDelete

record Operation =
  op_type :: OperationType
  op_key :: bytes
  op_value :: bytes

type_synonym WriteBatch = "Operation list"

definition Batch_Put :: "bytes \<Rightarrow> bytes \<Rightarrow> WriteBatch \<Rightarrow> WriteBatch" where
  "Batch_Put key val b = b @ [\<lparr>op_type = kPut, op_key = key, op_value = val\<rparr>]"

definition Batch_Delete :: "bytes \<Rightarrow> WriteBatch \<Rightarrow> WriteBatch" where
  "Batch_Delete key b = b @ [\<lparr>op_type = kDelete, op_key = key, op_value = []\<rparr>]"

text \<open>The validation loop adds the bytes of the operations in 64 bits.\<close>

fun validate_operations :: "Options \<Rightarrow> WriteBatch \<Rightarrow> u64 \<Rightarrow> StatusCode \<times> u64" where
  "validate_operations opts [] queue_bytes = (kOk, queue_bytes)"
| "validate_operations opts (operation # rest) queue_bytes =
     (if length (op_key operation) > unat (o_max_key_bytes opts) \<or>
         length (op_value operation) > unat (o_max_value_bytes opts)
      then (kInvalidArgument, queue_bytes)
      else
        let entry_bytes = of_nat sizeof_InternalEntry + of_nat (length (op_key operation))
                            + of_nat (length (op_value operation)) in
        if entry_bytes > - 1 - queue_bytes then (kResourceExhausted, queue_bytes)
        else validate_operations opts rest (queue_bytes + entry_bytes))"

definition ValidateWriteBatch :: "Options \<Rightarrow> WriteBatch \<Rightarrow> StatusCode \<times> u64" where
  "ValidateWriteBatch opts batch =
     (if batch = [] then (kOk, 0)
      else if length batch > kMaxWalBatchOperations then (kResourceExhausted, 0)
      else case validate_operations opts batch 0 of (c, queue_bytes) \<Rightarrow>
        if c \<noteq> kOk then (c, queue_bytes)
        else if unat queue_bytes > kMaxWalBatchBytes then (kInvalidArgument, queue_bytes)
        else (kOk, queue_bytes))"

section \<open>The writer queue\<close>

text \<open>
  A request carries an identifier to tell callers apart. The queue state is what \<open>writer_mutex_\<close>
  guards, the group the leader is working on, and the requests whose callers were given a status.
\<close>

record WriterRequest =
  wr_id :: nat
  wr_batch :: WriteBatch
  wr_queue_bytes :: u64

record WriterQueue =
  wq_queue :: "WriterRequest list"
  wq_bytes :: u64
  wq_leader :: bool
  wq_stopping :: bool
  wq_group :: "WriterRequest list"
  wq_completed :: "(WriterRequest \<times> StatusCode) list"

text \<open>The condition under which \<open>SubmitWrite\<close> waits, and the admission after it.\<close>

definition queue_full :: "Options \<Rightarrow> u64 \<Rightarrow> WriterQueue \<Rightarrow> bool" where
  "queue_full opts queue_bytes q =
     (length (wq_queue q) \<ge> unat (o_max_pending_write_requests opts) \<or>
      queue_bytes > o_max_pending_write_bytes opts - wq_bytes q)"

definition admit :: "WriterRequest \<Rightarrow> WriterQueue \<Rightarrow> WriterQueue" where
  "admit r q = q\<lparr>wq_queue := wq_queue q @ [r], wq_bytes := wq_bytes q + wr_queue_bytes r, wq_leader := True\<rparr>"

text \<open>The loop of \<open>DrainWriterQueue\<close> that forms a group from the front of the queue.\<close>

definition limit_reached :: "Options \<Rightarrow> WriterRequest list \<Rightarrow> u64 \<Rightarrow> nat \<Rightarrow> WriterRequest \<Rightarrow> bool" where
  "limit_reached opts grp group_bytes group_operations candidate =
     (grp \<noteq> [] \<and>
      (length grp \<ge> unat (o_max_group_commit_requests opts) \<or>
       group_bytes \<ge> o_max_group_commit_bytes opts \<or>
       wr_queue_bytes candidate > o_max_group_commit_bytes opts - group_bytes \<or>
       length (wr_batch candidate) > kMaxWalBatchOperations - group_operations))"

fun take_group ::
  "Options \<Rightarrow> WriterRequest list \<Rightarrow> u64 \<Rightarrow> nat \<Rightarrow> WriterRequest list \<Rightarrow> u64
   \<Rightarrow> WriterRequest list \<times> WriterRequest list \<times> u64" where
  "take_group opts grp group_bytes group_operations [] bytes = (grp, [], bytes)"
| "take_group opts grp group_bytes group_operations (candidate # queue) bytes =
     (if limit_reached opts grp group_bytes group_operations candidate
      then (grp, candidate # queue, bytes)
      else take_group opts (grp @ [candidate]) (group_bytes + wr_queue_bytes candidate)
             (group_operations + length (wr_batch candidate)) queue (bytes - wr_queue_bytes candidate))"

definition form_group :: "Options \<Rightarrow> WriterQueue \<Rightarrow> WriterQueue" where
  "form_group opts q =
     (case take_group opts [] 0 0 (wq_queue q) (wq_bytes q) of
        (grp, rest, bytes) \<Rightarrow> q\<lparr>wq_group := grp, wq_queue := rest, wq_bytes := bytes\<rparr>)"

definition complete_group :: "StatusCode \<Rightarrow> WriterQueue \<Rightarrow> WriterQueue" where
  "complete_group c q = q\<lparr>wq_completed := wq_completed q @ map (\<lambda>r. (r, c)) (wq_group q), wq_group := []\<rparr>"

text \<open>The handler for an exception out of \<open>ApplyWriteGroup\<close>: everyone fails and the leader steps down.\<close>

definition abort_group :: "WriterQueue \<Rightarrow> WriterQueue" where
  "abort_group q =
     q\<lparr>wq_completed := wq_completed q @ map (\<lambda>r. (r, kIOError)) (wq_group q @ wq_queue q), wq_group := [],
       wq_queue := [], wq_bytes := 0, wq_leader := False\<rparr>"

text \<open>
  One step of some thread: a caller is admitted (after \<open>SubmitWrite\<close>'s checks and its wait), the leader
  forms a group, finishes it with the status of \<open>ApplyWriteGroup\<close>, is thrown out of it, or finds the queue
  empty and steps down; \<open>Close\<close> stops and resumes admission.
\<close>

inductive queue_step :: "Options \<Rightarrow> WriterQueue \<Rightarrow> WriterQueue \<Rightarrow> bool" for opts where
  submit:
    "queue_step opts q (admit r q)"
    if "ValidateWriteBatch opts (wr_batch r) = (kOk, wr_queue_bytes r)" "wr_batch r \<noteq> []"
      "wr_queue_bytes r \<le> o_max_pending_write_bytes opts" "\<not> queue_full opts (wr_queue_bytes r) q" "\<not> wq_stopping q"
| form:
    "queue_step opts q (form_group opts q)" if "wq_leader q" "wq_group q = []" "wq_queue q \<noteq> []"
| finish:
    "queue_step opts q (complete_group c q)" if "wq_leader q" "wq_group q \<noteq> []"
| thrown:
    "queue_step opts q (abort_group q)" if "wq_leader q" "wq_group q \<noteq> []"
| step_down:
    "queue_step opts q (q\<lparr>wq_leader := False\<rparr>)" if "wq_leader q" "wq_group q = []" "wq_queue q = []"
| stop:
    "queue_step opts q (q\<lparr>wq_stopping := True\<rparr>)"
| resume:
    "queue_step opts q (q\<lparr>wq_stopping := False\<rparr>)"

definition empty_queue :: WriterQueue where
  "empty_queue = \<lparr>wq_queue = [], wq_bytes = 0, wq_leader = False, wq_stopping = False, wq_group = [], wq_completed = []\<rparr>"

inductive queue_reachable :: "Options \<Rightarrow> WriterQueue \<Rightarrow> bool" for opts where
  start: "queue_reachable opts empty_queue"
| step: "queue_reachable opts q \<Longrightarrow> queue_step opts q q' \<Longrightarrow> queue_reachable opts q'"

inductive_cases queue_stepE: "queue_step opts q q'"

section \<open>Applying a group\<close>

text \<open>
  \<open>PrepareForWrite\<close> waits while a sealed MemTable is pending and the active one is full. The wait ends
  when its predicate holds; \<open>others\<close> is what the other threads do until then, and is not consulted when
  the predicate holds at once.
\<close>

definition wait_over :: "Db \<Rightarrow> bool" where
  "wait_over db =
     (db_immutable db = None \<or> db_terminal_error db \<noteq> None \<or> db_background_error db \<noteq> None \<or> db_closing db \<or> db_closed db)"

definition memtable_full :: "Db \<Rightarrow> bool" where
  "memtable_full db = (ApproximateMemoryUsage (db_memtable db) \<ge> o_memtable_bytes (db_options db))"

definition count_wait :: "Db \<Rightarrow> Db" where
  "count_wait db = db\<lparr>db_write_metrics := (db_write_metrics db)
     \<lparr>wm_backpressure_waits := wm_backpressure_waits (db_write_metrics db) + 1\<rparr>\<rparr>"

partial_function (option) backpressure :: "(Db \<Rightarrow> Db) \<Rightarrow> Db \<Rightarrow> Db option" where
  "backpressure others db =
     (if db_immutable db \<noteq> None \<and> memtable_full db
      then backpressure others (if wait_over (count_wait db) then count_wait db else others (count_wait db))
      else Some db)"

definition PrepareForWrite :: "Protobuf \<Rightarrow> (Db \<Rightarrow> Db) \<Rightarrow> Db \<Rightarrow> (unit result \<times> Db) option" where
  "PrepareForWrite pb others db =
     Option.bind (backpressure others db) (\<lambda>db.
       Some (let c = CheckOpen db in
         if c \<noteq> kOk then (Err c, db)
         else if db_immutable db = None \<and> memtable_full db then RotateMemTable pb db
         else (Ok (), db)))"

fun group_entries :: "u64 \<Rightarrow> Operation list \<Rightarrow> InternalEntry list" where
  "group_entries seq [] = []"
| "group_entries seq (operation # rest) =
     \<lparr>user_key = op_key operation, sequence = seq,
      etype = (if op_type operation = kPut then kValue else kTombstone), evalue = op_value operation\<rparr>
     # group_entries (seq + 1) rest"

fun group_logical_bytes :: "u64 \<Rightarrow> Operation list \<Rightarrow> u64 option" where
  "group_logical_bytes logical [] = Some logical"
| "group_logical_bytes logical (operation # rest) =
     (let bytes = of_nat (length (op_key operation)) + of_nat (length (op_value operation)) in
      if bytes > - 1 - logical then None else group_logical_bytes (logical + bytes) rest)"

definition group_operations :: "WriterRequest list \<Rightarrow> Operation list" where
  "group_operations grp = concat (map wr_batch grp)"

text \<open>An operation of the log writer, with its bytes going to the log file.\<close>

definition on_wal :: "(WalWriter \<Rightarrow> StatusCode result \<times> WalWriter) \<Rightarrow> nat \<times> WalWriter \<Rightarrow> Db \<Rightarrow> StatusCode result \<times> Db" where
  "on_wal f wal db =
     (case wal of (i, w) \<Rightarrow>
        (case f w of (r, w') \<Rightarrow> (r, db\<lparr>db_wal := Some (i, w'), db_fs := write_back (i, ww_file w') (db_fs db)\<rparr>)))"

definition append_group :: "InternalEntry list \<Rightarrow> (Db, unit) op" where
  "append_group entries db =
     (case db_wal db of
        None \<Rightarrow> (Ok (), db)
      | Some wal \<Rightarrow>
          (case on_wal (WalWriter_AppendBatch entries) wal db of
             (Ok c, db1) \<Rightarrow>
               if c \<noteq> kOk then (Err c, db1)
               else if o_sync_on_write (db_options db)
               then (case on_wal (\<lambda>w. apfst Ok (WalWriter_Sync w)) (the (db_wal db1)) db1 of
                       (Ok c, db2) \<Rightarrow>
                         if c \<noteq> kOk then (Err c, db2)
                         else (Ok (), db2\<lparr>db_write_metrics := (db_write_metrics db2)
                                \<lparr>wm_wal_syncs := wm_wal_syncs (db_write_metrics db2) + 1\<rparr>\<rparr>)
                     | (Err c, db2) \<Rightarrow> (Err c, db2)
                     | (UB, db2) \<Rightarrow> (UB, db2))
               else (Ok (), db1)
           | (Err c, db1) \<Rightarrow> (Err c, db1)
           | (UB, db1) \<Rightarrow> (UB, db1)))"

text \<open>What \<open>ApplyWriteGroup\<close> does once \<open>PrepareForWrite\<close> has succeeded.\<close>

definition commit_group :: "Protobuf \<Rightarrow> WriterRequest list \<Rightarrow> (Db, unit) op" where
  "commit_group pb grp db =
     (let operations = group_operations grp in
      case group_logical_bytes 0 operations of
        None \<Rightarrow> (Err kResourceExhausted, db)
      | Some logical \<Rightarrow>
          if length operations > unat (- 1 - db_next_sequence db) then (Err kResourceExhausted, db)
          else
            let entries = group_entries (db_next_sequence db) operations in
            op_bind (append_group entries) (\<lambda>_ db.
              let db = db\<lparr>db_next_sequence := db_next_sequence db + of_nat (length operations)\<rparr> in
              case ApplyBatch entries (db_memtable db) of (c, m) \<Rightarrow>
                if c \<noteq> kOk then (Err c, db)
                else
                  let wm = db_write_metrics db;
                      db = db\<lparr>db_memtable := m,
                              db_write_metrics := wm
                                \<lparr>wm_writes := wm_writes wm + of_nat (length operations),
                                 wm_write_batches := wm_write_batches wm + of_nat (length grp),
                                 wm_logical_write_bytes := wm_logical_write_bytes wm + logical,
                                 wm_group_commits := wm_group_commits wm + 1,
                                 wm_grouped_write_requests := wm_grouped_write_requests wm + of_nat (length grp)\<rparr>\<rparr> in
                  if memtable_full db \<and> db_immutable db = None then RotateMemTable pb db else (Ok (), db)) db)"

definition ApplyWriteGroup :: "Protobuf \<Rightarrow> (Db \<Rightarrow> Db) \<Rightarrow> WriterRequest list \<Rightarrow> Db \<Rightarrow> (unit result \<times> Db) option" where
  "ApplyWriteGroup pb others grp db =
     (if grp = [] then Some (Ok (), db)
      else
        let rm = db_read_metrics db;
            db = db\<lparr>db_read_metrics := rm\<lparr>rm_write_lock_acquisitions := rm_write_lock_acquisitions rm + 1\<rparr>\<rparr> in
        Option.bind (PrepareForWrite pb others db) (\<lambda>(r, db).
          case r of Ok _ \<Rightarrow> Some (commit_group pb grp db) | Err c \<Rightarrow> Some (Err c, db) | UB \<Rightarrow> Some (UB, db)))"

section \<open>Group formation\<close>

definition queue_sum :: "WriterRequest list \<Rightarrow> nat" where
  "queue_sum rs = sum_list (map (\<lambda>r. unat (wr_queue_bytes r)) rs)"

definition operation_count :: "WriterRequest list \<Rightarrow> nat" where
  "operation_count rs = sum_list (map (\<lambda>r. length (wr_batch r)) rs)"

lemma queue_sum_simps [simp]:
  "queue_sum [] = 0" "queue_sum (r # rs) = unat (wr_queue_bytes r) + queue_sum rs"
  "queue_sum (rs @ ss) = queue_sum rs + queue_sum ss"
  by (simp_all add: queue_sum_def)

lemma operation_count_simps [simp]:
  "operation_count [] = 0" "operation_count (r # rs) = length (wr_batch r) + operation_count rs"
  "operation_count (rs @ ss) = operation_count rs + operation_count ss"
  by (simp_all add: operation_count_def)

text \<open>A group is the front of the queue, and the byte count drops by exactly its bytes.\<close>

lemma take_group_split:
  "take_group opts grp gb ops queue b = (grp', rest, b') \<Longrightarrow> unat b = queue_sum queue \<Longrightarrow>
     (\<exists>t. queue = t @ rest \<and> grp' = grp @ t) \<and> unat b' = queue_sum rest"
proof (induction opts grp gb ops queue b rule: take_group.induct)
  case (2 opts grp gb ops c queue b)
  show ?case
  proof (cases "limit_reached opts grp gb ops c")
    case True
    with 2 show ?thesis by auto
  next
    case False
    have "wr_queue_bytes c \<le> b" using "2.prems"(2) by (simp add: word_le_nat_alt)
    then have "unat (b - wr_queue_bytes c) = queue_sum queue" using "2.prems"(2) by (simp add: unat_sub)
    then show ?thesis using "2.IH" [OF False] "2.prems"(1) False by auto
  qed
qed auto

lemma take_group_nonempty:
  "take_group opts grp gb ops queue b = (grp', rest, b') \<Longrightarrow> grp \<noteq> [] \<or> queue \<noteq> [] \<Longrightarrow> grp' \<noteq> []"
  by (induction opts grp gb ops queue b rule: take_group.induct) (auto simp: limit_reached_def split: if_splits)

text \<open>The limits of a group: a single request of any admitted size, or several within all limits.\<close>

definition group_within :: "Options \<Rightarrow> WriterRequest list \<Rightarrow> bool" where
  "group_within opts grp \<longleftrightarrow>
     length grp \<le> unat (o_max_group_commit_requests opts) \<and>
     (length grp \<le> 1 \<or> queue_sum grp \<le> unat (o_max_group_commit_bytes opts)) \<and>
     operation_count grp \<le> kMaxWalBatchOperations"

lemma group_within_snoc:
  assumes opts: "o_max_group_commit_requests opts \<noteq> 0" and w: "group_within opts grp"
    and gb: "unat gb = queue_sum grp" and free: "\<not> limit_reached opts grp gb (operation_count grp) c"
    and c: "length (wr_batch c) \<le> kMaxWalBatchOperations"
  shows "group_within opts (grp @ [c]) \<and> unat (gb + wr_queue_bytes c) = queue_sum (grp @ [c])"
proof (cases "grp = []")
  case True
  then have "gb = 0" using gb by (simp flip: unat_eq_0)
  moreover have "1 \<le> unat (o_max_group_commit_requests opts)" using opts by (simp add: Suc_le_eq unat_gt_0)
  ultimately show ?thesis using True c by (simp add: group_within_def)
next
  case False
  let ?m = "o_max_group_commit_bytes opts"
  have l: "length grp < unat (o_max_group_commit_requests opts)" "gb < ?m" "wr_queue_bytes c \<le> ?m - gb"
    "length (wr_batch c) \<le> kMaxWalBatchOperations - operation_count grp"
    using False free by (auto simp: limit_reached_def not_le not_less)
  have "unat (wr_queue_bytes c) \<le> unat ?m - unat gb"
    using l(3) unat_sub [OF less_imp_le [OF l(2)]] by (simp add: word_le_nat_alt)
  moreover have "unat gb \<le> unat ?m" using l(2) by (simp add: word_less_nat_alt)
  ultimately have sum: "unat gb + unat (wr_queue_bytes c) \<le> unat ?m" by linarith
  then have "unat (gb + wr_queue_bytes c) = unat gb + unat (wr_queue_bytes c)"
    using unsigned_less [of ?m, where 'a = nat] by (simp add: unat_word_ariths)
  then show ?thesis using l sum gb w by (auto simp: group_within_def)
qed

lemma take_group_within:
  "take_group opts grp gb (operation_count grp) queue b = (grp', rest, b') \<Longrightarrow> o_max_group_commit_requests opts \<noteq> 0 \<Longrightarrow>
     group_within opts grp \<Longrightarrow> unat gb = queue_sum grp \<Longrightarrow> \<forall>r \<in> set queue. length (wr_batch r) \<le> kMaxWalBatchOperations \<Longrightarrow>
     group_within opts grp'"
proof (induction queue arbitrary: grp gb b)
  case (Cons c queue)
  show ?case
  proof (cases "limit_reached opts grp gb (operation_count grp) c")
    case False
    have "group_within opts (grp @ [c]) \<and> unat (gb + wr_queue_bytes c) = queue_sum (grp @ [c])"
      using Cons.prems False by (intro group_within_snoc) auto
    moreover have "take_group opts (grp @ [c]) (gb + wr_queue_bytes c) (operation_count (grp @ [c])) queue (b - wr_queue_bytes c) = (grp', rest, b')"
      using Cons.prems(1) False by simp
    ultimately show ?thesis using Cons.IH [of "grp @ [c]"] Cons.prems(2,5) by (metis list.set_intros(2))
  qed (use Cons.prems in auto)
qed auto

section \<open>The queue invariant\<close>

definition request_valid :: "Options \<Rightarrow> WriterRequest \<Rightarrow> bool" where
  "request_valid opts r \<longleftrightarrow>
     wr_batch r \<noteq> [] \<and> ValidateWriteBatch opts (wr_batch r) = (kOk, wr_queue_bytes r)"

definition queue_inv :: "Options \<Rightarrow> WriterQueue \<Rightarrow> bool" where
  "queue_inv opts q \<longleftrightarrow>
     unat (wq_bytes q) = queue_sum (wq_queue q) \<and> wq_bytes q \<le> o_max_pending_write_bytes opts \<and>
     length (wq_queue q) \<le> unat (o_max_pending_write_requests opts) \<and>
     (wq_queue q \<noteq> [] \<or> wq_group q \<noteq> [] \<longrightarrow> wq_leader q) \<and>
     (\<forall>r \<in> set (wq_queue q @ wq_group q). request_valid opts r) \<and> group_within opts (wq_group q)"

definition history :: "WriterQueue \<Rightarrow> WriterRequest list" where
  "history q = map fst (wq_completed q) @ wq_group q @ wq_queue q"

lemma request_valid_count: "request_valid opts r \<Longrightarrow> length (wr_batch r) \<le> kMaxWalBatchOperations"
  by (auto simp: request_valid_def ValidateWriteBatch_def split: if_splits)

lemma group_within_Nil [simp]: "group_within opts []"
  by (simp add: group_within_def)

lemma admit_inv:
  assumes inv: "queue_inv opts q" and r: "request_valid opts r" "\<not> queue_full opts (wr_queue_bytes r) q"
  shows "queue_inv opts (admit r q)"
proof -
  let ?m = "o_max_pending_write_bytes opts"
  have le: "wq_bytes q \<le> ?m" "wr_queue_bytes r \<le> ?m - wq_bytes q"
    using inv r(2) by (auto simp: queue_inv_def queue_full_def not_less)
  then have "unat (wr_queue_bytes r) \<le> unat ?m - unat (wq_bytes q)" "unat (wq_bytes q) \<le> unat ?m"
    by (simp_all add: word_le_nat_alt unat_sub)
  then have s: "unat (wq_bytes q) + unat (wr_queue_bytes r) \<le> unat ?m" by linarith
  then have e: "unat (wq_bytes q + wr_queue_bytes r) = unat (wq_bytes q) + unat (wr_queue_bytes r)"
    using unsigned_less [of ?m, where 'a = nat] by (simp add: unat_word_ariths)
  then have "wq_bytes q + wr_queue_bytes r \<le> ?m" using s by (simp add: word_le_nat_alt)
  then show ?thesis using inv r e by (auto simp: queue_inv_def admit_def queue_full_def)
qed

lemma form_group_result:
  assumes inv: "queue_inv opts q" and opts: "o_max_group_commit_requests opts \<noteq> 0" and g: "wq_group q = []"
    and ne: "wq_queue q \<noteq> []" and l: "wq_leader q"
  shows "queue_inv opts (form_group opts q) \<and> wq_group (form_group opts q) \<noteq> [] \<and>
    wq_group (form_group opts q) @ wq_queue (form_group opts q) = wq_queue q"
proof -
  obtain grp rest b where t: "take_group opts [] 0 0 (wq_queue q) (wq_bytes q) = (grp, rest, b)" by (metis prod_cases3)
  have split: "wq_queue q = grp @ rest" "unat b = queue_sum rest"
    using take_group_split [OF t] inv by (auto simp: queue_inv_def)
  have "grp \<noteq> []" using take_group_nonempty [OF t] ne by simp
  moreover have "group_within opts grp"
    using take_group_within [of opts "[]" 0 "wq_queue q" "wq_bytes q" grp rest b] t opts inv request_valid_count
    by (auto simp: queue_inv_def)
  moreover have "b \<le> o_max_pending_write_bytes opts"
  proof -
    have "unat b \<le> unat (wq_bytes q)" using split inv by (simp add: queue_inv_def)
    also have "\<dots> \<le> unat (o_max_pending_write_bytes opts)" using inv by (simp add: queue_inv_def word_le_nat_alt)
    finally show ?thesis by (simp add: word_le_nat_alt)
  qed
  moreover have "form_group opts q = q\<lparr>wq_group := grp, wq_queue := rest, wq_bytes := b\<rparr>"
    by (simp add: form_group_def t)
  ultimately show ?thesis using split inv l by (auto simp: queue_inv_def)
qed

lemma queue_step_inv:
  assumes "queue_step opts q q'" "queue_inv opts q" "o_max_group_commit_requests opts \<noteq> 0"
  shows "queue_inv opts q' \<and> (history q' = history q \<or> (\<exists>r. q' = admit r q \<and> history q' = history q @ [r]))"
  using assms(1)
proof (cases rule: queue_step.cases)
  case (submit r)
  then have "queue_inv opts (admit r q)" using admit_inv [OF assms(2)] by (simp add: request_valid_def)
  then show ?thesis using submit by (auto simp: history_def admit_def)
next
  case form
  then show ?thesis using form_group_result [OF assms(2,3)]
    by (auto simp: history_def form_group_def split: prod.splits)
next
  case (finish c)
  then show ?thesis using assms(2) by (auto simp: history_def complete_group_def queue_inv_def comp_def)
next
  case thrown
  then show ?thesis using assms(2) by (auto simp: history_def abort_group_def queue_inv_def comp_def)
qed (use assms(2) in \<open>auto simp: history_def queue_inv_def\<close>)

lemma queue_reachable_inv:
  "queue_reachable opts q \<Longrightarrow> o_max_group_commit_requests opts \<noteq> 0 \<Longrightarrow> queue_inv opts q"
proof (induction rule: queue_reachable.induct)
  case start
  then show ?case by (simp add: queue_inv_def empty_queue_def)
qed (use queue_step_inv in blast)

section \<open>The wait for room\<close>

text \<open>
  A wait whose predicate holds while the loop condition still does is never left: nothing in the loop
  changes either of them, and \<open>mutex_\<close> is not released.
\<close>

lemma backpressure_stuck:
  "db_immutable db \<noteq> None \<Longrightarrow> memtable_full db \<Longrightarrow> wait_over db \<Longrightarrow> backpressure others db = None"
proof (rule ccontr)
  assume a: "db_immutable db \<noteq> None" "memtable_full db" "wait_over db" and "backpressure others db \<noteq> None"
  then obtain x where x: "backpressure others db = Some x" by auto
  have "\<not> (db_immutable db \<noteq> None \<and> memtable_full db \<and> wait_over db)"
  proof (rule backpressure.raw_induct [where P = "\<lambda>others db x. \<not> (db_immutable db \<noteq> None \<and> memtable_full db \<and> wait_over db)", OF _ x])
    fix f others db x
    assume IH: "\<And>others db x. f others db = Some x \<Longrightarrow> \<not> (db_immutable db \<noteq> None \<and> memtable_full db \<and> wait_over db)"
      and step: "(if db_immutable db \<noteq> None \<and> memtable_full db
         then f others (if wait_over (count_wait db) then count_wait db else others (count_wait db)) else Some db) = Some x"
    show "\<not> (db_immutable db \<noteq> None \<and> memtable_full db \<and> wait_over db)"
    proof
      assume s: "db_immutable db \<noteq> None \<and> memtable_full db \<and> wait_over db"
      then have s': "db_immutable (count_wait db) \<noteq> None \<and> memtable_full (count_wait db) \<and> wait_over (count_wait db)"
        by (simp add: count_wait_def memtable_full_def wait_over_def)
      from step s s' have "f others (count_wait db) = Some x" by simp
      with IH s' show False by blast
    qed
  qed
  with a show False by blast
qed

lemma backpressure_returns:
  assumes "\<And>d. db_immutable (others d) = None \<or> \<not> memtable_full (others d)"
    and "\<not> (db_immutable db \<noteq> None \<and> memtable_full db \<and> wait_over db)"
  shows "\<exists>db'. backpressure others db = Some db' \<and> (db_immutable db' = None \<or> \<not> memtable_full db')"
proof (cases "db_immutable db \<noteq> None \<and> memtable_full db")
  case True
  then have "\<not> wait_over (count_wait db)" using assms(2) by (simp add: count_wait_def wait_over_def)
  then have "backpressure others db = backpressure others (others (count_wait db))"
    using True by (subst backpressure.simps) simp
  also have "\<dots> = Some (others (count_wait db))"
    using assms(1) [of "count_wait db"] by (subst backpressure.simps) auto
  finally show ?thesis using assms(1) by blast
next
  case False
  then show ?thesis by (subst backpressure.simps) auto
qed

section \<open>Committing a group\<close>

lemma length_group_entries [simp]: "length (group_entries n ops) = length ops"
  by (induction ops arbitrary: n) auto

lemma group_entries_nth:
  "i < length ops \<Longrightarrow> sequence (group_entries n ops ! i) = n + of_nat i \<and> user_key (group_entries n ops ! i) = op_key (ops ! i) \<and>
     evalue (group_entries n ops ! i) = op_value (ops ! i) \<and>
     etype (group_entries n ops ! i) = (if op_type (ops ! i) = kPut then kValue else kTombstone)"
  by (induction ops arbitrary: n i) (auto simp: nth_Cons split: nat.splits)

lemma group_entries_hd: "ops \<noteq> [] \<Longrightarrow> sequence (hd (group_entries n ops)) = n"
  by (cases ops) auto

lemma group_entries_last:
  assumes "ops \<noteq> []" and "length ops \<le> unat (- 1 - n :: u64)"
  shows "n \<le> sequence (last (group_entries n ops))" and "sequence (last (group_entries n ops)) < n + of_nat (length ops)"
    and "unat (n + of_nat (length ops)) = unat n + length ops"
proof -
  let ?k = "length ops"
  have m: "unat (- 1 - n) = max_u64 - unat n"
    using unat_sub [of n "- 1"] by (simp add: max_u64_def unsigned_minus_1_eq_mask mask_eq_exp_minus_1)
  then have sum: "unat n + ?k \<le> max_u64" using assms(2) unat_u64_le [of n] by linarith
  have add: "unat (n + of_nat j) = unat n + j" if "j \<le> ?k" for j
    using that sum by (simp add: unat_word_ariths max_u64_def)
  then show "unat (n + of_nat ?k) = unat n + ?k" by simp
  have ne: "group_entries n ops \<noteq> []" using assms(1) by (cases ops) auto
  have l: "sequence (last (group_entries n ops)) = n + of_nat (?k - 1)"
    using assms(1) group_entries_nth [of "?k - 1" ops n] by (simp add: last_conv_nth [OF ne])
  then show "n \<le> sequence (last (group_entries n ops))" using add [of "?k - 1"] by (simp add: word_le_nat_alt)
  show "sequence (last (group_entries n ops)) < n + of_nat ?k"
    unfolding l word_less_nat_alt using add [of "?k - 1"] add [of ?k] assms(1) by simp
qed

lemma WalWriter_AppendBatch_result:
  assumes "WalWriter_AppendBatch es w = (r, w')"
  shows "ww_limits w' = ww_limits w \<and>
    (r = Ok kOk \<longrightarrow> batch_ok (ww_limits w) es \<and> wf_data (ww_file w') = wf_data (ww_file w) @ batch_frame es)"
proof (cases "batch_ok (ww_limits w) es")
  case True
  obtain c f where f: "Append (batch_frame es) (ww_file w) = (c, f)" by fastforce
  then have "c = kOk \<Longrightarrow> wf_data f = wf_data (ww_file w) @ batch_frame es" using Append_result [OF f] by simp
  then show ?thesis using assms True f
    by (auto simp: WalWriter_AppendBatch_def EncodeWalBatch_eq append_encoded_def)
qed (use assms in \<open>auto simp: WalWriter_AppendBatch_def EncodeWalBatch_eq append_encoded_def\<close>)

lemma WalWriter_Sync_result:
  assumes "WalWriter_Sync w = (c, w')"
  shows "ww_limits w' = ww_limits w \<and> wf_data (ww_file w') = wf_data (ww_file w) \<and>
    (c = kOk \<longrightarrow> wf_durable (ww_file w') = wf_data (ww_file w))"
  using assms by (auto simp: WalWriter_Sync_def Sync_def split: prod.splits if_splits list.splits io_outcome.splits)

text \<open>The effect of the log part of a commit on the log file, and on nothing else in memory.\<close>

definition log_of :: "Db \<Rightarrow> bytes" where
  "log_of db = (case db_wal db of None \<Rightarrow> [] | Some (i, w) \<Rightarrow> wf_data (ww_file w))"

lemma append_group_result:
  assumes wal: "db_wal db = Some (i, w)" and a: "append_group es db = (r, db')"
  obtains w' where "db_wal db' = Some (i, w')" "ww_limits w' = ww_limits w"
    "db_memtable db' = db_memtable db" "db_immutable db' = db_immutable db" "db_next_sequence db' = db_next_sequence db"
    "db_options db' = db_options db" "db_manifest db' = db_manifest db" "only_node i (db_fs db) (db_fs db')"
    "nd_data (fs_nodes (db_fs db') i) = wf_data (ww_file w')" "nd_durable (fs_nodes (db_fs db') i) = wf_durable (ww_file w')"
    "r = Ok () \<longrightarrow> batch_ok (ww_limits w) es \<and> wf_data (ww_file w') = wf_data (ww_file w) @ batch_frame es \<and>
       (o_sync_on_write (db_options db) \<longrightarrow> wf_durable (ww_file w') = wf_data (ww_file w'))"
proof -
  obtain r1 w1 where 1: "WalWriter_AppendBatch es w = (r1, w1)" by fastforce
  note a1 = WalWriter_AppendBatch_result [OF 1]
  obtain c w2 where 2: "WalWriter_Sync w1 = (c, w2)" by fastforce
  note a2 = WalWriter_Sync_result [OF 2]
  let ?db1 = "db\<lparr>db_wal := Some (i, w1), db_fs := write_back (i, ww_file w1) (db_fs db)\<rparr>"
  let ?db2 = "?db1\<lparr>db_wal := Some (i, w2), db_fs := write_back (i, ww_file w2) (db_fs ?db1)\<rparr>"
  note wb = write_back_simps(6,7) [of "(i, ww_file w1)" "db_fs db"] write_back_simps(6,7) [of "(i, ww_file w2)" "db_fs ?db1"]
  have o1: "only_node i (db_fs db) (db_fs ?db1)" using write_back_only [of "(i, ww_file w1)" "db_fs db"] by simp
  have o2: "only_node i (db_fs db) (db_fs ?db2)"
    using only_node_trans [OF o1, of "db_fs ?db2"] write_back_only [of "(i, ww_file w2)" "db_fs ?db1"] by simp
  show thesis
  proof (cases "r1 = Ok kOk \<and> o_sync_on_write (db_options db)")
    case True
    show thesis using a wal 1 2 True a1 a2 wb o2
      by (intro that [of w2]) (auto simp: append_group_def on_wal_def split: if_splits)
  next
    case False
    show thesis using a wal 1 False a1 wb o1
      by (intro that [of w1]) (auto simp: append_group_def on_wal_def split: if_splits result.splits)
  qed
qed

lemma commit_group_cases:
  assumes "commit_group pb grp db = (r, db')"
  obtains (rejected) "db' = db" "r \<noteq> Ok ()"
    | (log_failed) r1 where "append_group (group_entries (db_next_sequence db) (group_operations grp)) db = (r1, db')" "r1 \<noteq> Ok ()" "r \<noteq> Ok ()"
    | (table_failed) db1 c m where "append_group (group_entries (db_next_sequence db) (group_operations grp)) db = (Ok (), db1)"
        "ApplyBatch (group_entries (db_next_sequence db) (group_operations grp)) (db_memtable db1) = (c, m)" "c \<noteq> kOk" "r \<noteq> Ok ()"
        "db' = db1\<lparr>db_next_sequence := db_next_sequence db1 + of_nat (length (group_operations grp))\<rparr>"
        "length (group_operations grp) \<le> unat (- 1 - db_next_sequence db)"
    | (committed) db1 m wm db2 where "append_group (group_entries (db_next_sequence db) (group_operations grp)) db = (Ok (), db1)"
        "length (group_operations grp) \<le> unat (- 1 - db_next_sequence db)"
        "ApplyBatch (group_entries (db_next_sequence db) (group_operations grp)) (db_memtable db1) = (kOk, m)"
        "db2 = db1\<lparr>db_next_sequence := db_next_sequence db1 + of_nat (length (group_operations grp)), db_memtable := m, db_write_metrics := wm\<rparr>"
        "db' = db2 \<and> r = Ok () \<or> RotateMemTable pb db2 = (r, db')"
proof -
  let ?ops = "group_operations grp" and ?es = "group_entries (db_next_sequence db) (group_operations grp)"
  show ?thesis
  proof (cases "group_logical_bytes 0 ?ops = None \<or> length ?ops > unat (- 1 - db_next_sequence db)")
    case True
    then show ?thesis using assms by (intro rejected) (auto simp: commit_group_def Let_def split: option.splits)
  next
    case False
    then obtain logical where l: "group_logical_bytes 0 ?ops = Some logical" "\<not> length ?ops > unat (- 1 - db_next_sequence db)" by auto
    obtain r1 db1 where a: "append_group ?es db = (r1, db1)" by fastforce
    show ?thesis
    proof (cases "r1 = Ok ()")
      case False
      then show ?thesis using assms l a by (intro log_failed [of r1]) (auto simp: commit_group_def Let_def op_bind_def split: result.splits)
    next
      case True
      obtain c m where m: "ApplyBatch ?es (db_memtable db1) = (c, m)" by fastforce
      show ?thesis
      proof (cases "c = kOk")
        case False
        then show ?thesis using assms l a True m by (intro table_failed [of db1 c m]) (auto simp: commit_group_def Let_def op_bind_def)
      next
        case c: True
        show ?thesis
          by (rule committed [of db1 m])
             (use assms l a True m c in \<open>auto simp: commit_group_def Let_def op_bind_def split: if_splits\<close>)
      qed
    qed
  qed
qed

lemma RotateMemTable_memory_set: "RotateMemTable pb db = (r, db') \<Longrightarrow> memory db' = memory db \<and> db_next_sequence db' = db_next_sequence db"
  using RotateMemTable_memory [of pb db r db']
  by (auto simp: memory_def same_memory_def rotated_memory_def)

lemma memory_committed:
  assumes "mt_inv (db_memtable db)" "append_group es db = (Ok (), db1)" "db_wal db = Some (i, w)"
    "ApplyBatch es (db_memtable db1) = (kOk, m)"
  shows "memory (db1\<lparr>db_next_sequence := n, db_memtable := m, db_write_metrics := wm\<rparr>) = memory db \<union> set es"
proof -
  have "db_memtable db1 = db_memtable db" "db_immutable db1 = db_immutable db"
    by (rule append_group_result [OF assms(3,2)]; simp)+
  moreover have "set (mt_all m) = set (mt_all (db_memtable db1)) \<union> set es"
    using ApplyBatch_contents assms(1,4) calculation(1) by metis
  ultimately show ?thesis by (auto simp: memory_def)
qed

lemma append_group_safe:
  assumes safe: "db_safe pb db" and wal: "db_wal db = Some (i, w)" and a: "append_group es db = (r, db')"
  shows "db_safe pb db'"
proof -
  let ?act = "WalFileName (active_wal_number (db_current db))"
  have b: "bound (db_fs db) ?act = Some i" using safe wal by (auto simp: db_safe_def wal_attached_def)
  obtain w' where w': "db_wal db' = Some (i, w')" "db_manifest db' = db_manifest db" "only_node i (db_fs db) (db_fs db')"
    "nd_data (fs_nodes (db_fs db') i) = wf_data (ww_file w')" "nd_durable (fs_nodes (db_fs db') i) = wf_durable (ww_file w')"
    by (rule append_group_result [OF wal a])
  have "manifest_on_disk pb (db_current db) (db_fs db')"
    using safe by (intro manifest_on_disk_only_node [OF _ w'(3) b]) (auto simp: db_safe_def)
  then show ?thesis using w' b by (simp add: db_safe_def wal_attached_def only_node_bound [OF w'(3)])
qed

text \<open>A commit that returns success, with or without the rotation at its end.\<close>

lemma commit_group_Ok:
  assumes safe: "db_safe pb db" and wal: "db_wal db = Some (i, w)" and inv: "mt_inv (db_memtable db)"
    and c: "commit_group pb grp db = (Ok (), db')"
  shows "(let es = group_entries (db_next_sequence db) (group_operations grp) in
     memory db' = memory db \<union> set es \<and> batch_ok (ww_limits w) es \<and>
     length (group_operations grp) \<le> unat (- 1 - db_next_sequence db) \<and>
     db_next_sequence db' = db_next_sequence db + of_nat (length (group_operations grp)) \<and>
     nd_data (fs_nodes (db_fs db') i) = wf_data (ww_file w) @ batch_frame es \<and>
     (o_sync_on_write (db_options db) \<longrightarrow> nd_durable (fs_nodes (db_fs db') i) = wf_data (ww_file w) @ batch_frame es))"
  using c
proof (cases rule: commit_group_cases)
  case (committed db1 m wm db2)
  let ?es = "group_entries (db_next_sequence db) (group_operations grp)"
  obtain w' where w': "db_wal db1 = Some (i, w')" "db_next_sequence db1 = db_next_sequence db"
    "nd_data (fs_nodes (db_fs db1) i) = wf_data (ww_file w')" "nd_durable (fs_nodes (db_fs db1) i) = wf_durable (ww_file w')"
    "batch_ok (ww_limits w) ?es" "wf_data (ww_file w') = wf_data (ww_file w) @ batch_frame ?es"
    "o_sync_on_write (db_options db) \<longrightarrow> wf_durable (ww_file w') = wf_data (ww_file w')"
    by (rule append_group_result [OF wal committed(1)]) auto
  have mem: "memory db2 = memory db \<union> set ?es"
    unfolding committed(4) by (rule memory_committed [OF inv committed(1) wal committed(3)])
  have safe2: "db_safe pb db2"
    using append_group_safe [OF safe wal committed(1)] by (simp add: committed(4) db_safe_def wal_attached_def)
  have wal2: "db_wal db2 = Some (i, w')" using w'(1) by (simp add: committed(4))
  have next2: "db_next_sequence db2 = db_next_sequence db + of_nat (length (group_operations grp))"
    using w'(2) by (simp add: committed(4))
  have log: "nd_data (fs_nodes (db_fs db') i) = wf_data (ww_file w')" "nd_durable (fs_nodes (db_fs db') i) = wf_durable (ww_file w')"
    using committed(5) RotateMemTable_log [OF safe2 wal2] w'(3,4) by (auto simp: committed(4))
  have "memory db' = memory db2" "db_next_sequence db' = db_next_sequence db2"
    using committed(5) RotateMemTable_memory_set [of pb db2] by auto
  then show ?thesis using log mem next2 w'(5-7) committed(2) by (simp add: Let_def)
qed simp_all

text \<open>A commit whose record is written but whose sync fails: the record stays, the sequence counter too.\<close>

lemma commit_group_sync_failed:
  assumes wal: "db_wal db = Some (i, w)" and os: "wf_open (ww_file w)" "wf_writes (ww_file w) = []" "wf_syncs (ww_file w) = Failed # os"
    and sync: "o_sync_on_write (db_options db)" and c: "commit_group pb grp db = (Err kIOError, db')"
  obtains w' where "append_group (group_entries (db_next_sequence db) (group_operations grp)) db = (Err kIOError, db')"
    "db_wal db' = Some (i, w')" "ww_limits w' = ww_limits w" "db_next_sequence db' = db_next_sequence db" "db_memtable db' = db_memtable db"
    "batch_ok (ww_limits w) (group_entries (db_next_sequence db) (group_operations grp))"
    "ww_file w' = (ww_file w)\<lparr>wf_data := wf_data (ww_file w) @ batch_frame (group_entries (db_next_sequence db) (group_operations grp)),
       wf_syncs := os\<rparr>" "db_options db' = db_options db" "length (group_operations grp) \<le> unat (- 1 - db_next_sequence db)"
proof -
  let ?es = "group_entries (db_next_sequence db) (group_operations grp)"
  let ?f = "(ww_file w)\<lparr>wf_data := wf_data (ww_file w) @ batch_frame ?es, wf_writes := []\<rparr>"
  have app: "WalWriter_AppendBatch ?es w = (if batch_ok (ww_limits w) ?es then (Ok kOk, w\<lparr>ww_file := ?f\<rparr>) else (Ok kInvalidArgument, w))"
    using os by (simp add: WalWriter_AppendBatch_def append_encoded_def EncodeWalBatch_eq Append_def append_loop_all)
  have syn: "WalWriter_Sync (w\<lparr>ww_file := ?f\<rparr>) = (kIOError, w\<lparr>ww_file := ?f\<lparr>wf_syncs := os\<rparr>\<rparr>)"
    using os by (simp add: WalWriter_Sync_def Sync_def)
  have nok: "\<And>c. append_group ?es db \<noteq> (Ok (), c)"
    using wal sync app syn by (auto simp: append_group_def on_wal_def)
  from c have a: "append_group ?es db = (Err kIOError, db')"
    using nok by (auto simp: commit_group_def Let_def op_bind_def split: option.splits if_splits prod.splits result.splits)
  then have ok: "batch_ok (ww_limits w) ?es"
    using wal app by (auto simp: append_group_def on_wal_def split: if_splits)
  have "db' = (db\<lparr>db_wal := Some (i, w\<lparr>ww_file := ?f\<rparr>), db_fs := write_back (i, ?f) (db_fs db)\<rparr>)
      \<lparr>db_wal := Some (i, w\<lparr>ww_file := ?f\<lparr>wf_syncs := os\<rparr>\<rparr>), db_fs := write_back (i, ?f\<lparr>wf_syncs := os\<rparr>) (write_back (i, ?f) (db_fs db))\<rparr>"
    using a wal sync app syn ok by (simp add: append_group_def on_wal_def)
  moreover have "length (group_operations grp) \<le> unat (- 1 - db_next_sequence db)"
    using c by (rule contrapos_pp) (simp add: commit_group_def Let_def split: option.split)
  ultimately show thesis using a ok os by (intro that [of "w\<lparr>ww_file := ?f\<lparr>wf_syncs := os\<rparr>\<rparr>"]) simp_all
qed

lemma frames_increase_snoc: "frames_increase p bs \<Longrightarrow> frames_max p bs < sequence (hd b) \<Longrightarrow> frames_increase p (bs @ [b])"
  by (induction bs arbitrary: p) (auto simp: frames_max_def split: if_splits)

section \<open>Properties\<close>

text \<open>
  C19: In every reachable state of the writer queue the byte count is exactly the sum over the waiting
  requests and within its limit, the number of waiting requests is within its limit, waiting or grouped
  requests always have a leader at work, and the leader's group obeys the request, byte and operation limits
  (a single request may exceed the byte limit); so none of the unsigned subtractions in the admission and
  grouping conditions wraps around.
\<close>

theorem writer_queue_invariant:
  assumes "queue_reachable opts q" and "o_max_group_commit_requests opts \<noteq> 0"
  shows "unat (wq_bytes q) = queue_sum (wq_queue q) \<and> wq_bytes q \<le> o_max_pending_write_bytes opts \<and>
    length (wq_queue q) \<le> unat (o_max_pending_write_requests opts) \<and>
    (wq_queue q = [] \<and> wq_group q = [] \<or> wq_leader q) \<and>
    length (wq_group q) \<le> unat (o_max_group_commit_requests opts) \<and>
    (length (wq_group q) \<le> 1 \<or> queue_sum (wq_group q) \<le> unat (o_max_group_commit_bytes opts)) \<and>
    length (group_operations (wq_group q)) \<le> kMaxWalBatchOperations"
proof -
  have "length (group_operations rs) = operation_count rs" for rs
    by (induction rs) (simp_all add: group_operations_def)
  then show ?thesis using queue_reachable_inv [OF assms] by (auto simp: queue_inv_def group_within_def)
qed

definition sample_request :: "nat \<Rightarrow> byte \<Rightarrow> WriterRequest" where
  "sample_request n b = \<lparr>wr_id = n, wr_batch = [\<lparr>op_type = kPut, op_key = [b], op_value = [b]\<rparr>], wr_queue_bytes = 82\<rparr>"

lemma sample_queue_reachable:
  "queue_reachable sample_options (form_group sample_options (admit (sample_request 1 7) empty_queue))"
proof -
  have "queue_step sample_options empty_queue (admit (sample_request 1 7) empty_queue)"
    by (rule queue_step.submit)
       (simp_all add: sample_request_def ValidateWriteBatch_def sample_options_def sizeof_InternalEntry_def kMaxWalBatchOperations_def
         kMaxWalBatchBytes_def queue_full_def empty_queue_def)
  moreover have "queue_step sample_options (admit (sample_request 1 7) empty_queue)
      (form_group sample_options (admit (sample_request 1 7) empty_queue))"
    by (rule queue_step.form) (simp_all add: admit_def empty_queue_def)
  ultimately show ?thesis using queue_reachable.start queue_reachable.step by metis
qed

theorem writer_queue_invariant_witness:
  "queue_reachable sample_options (form_group sample_options (admit (sample_request 1 7) empty_queue)) \<and>
   wq_leader (form_group sample_options (admit (sample_request 1 7) empty_queue)) \<and>
   wq_group (form_group sample_options (admit (sample_request 1 7) empty_queue)) = [sample_request 1 7]"
proof -
  let ?q = "form_group sample_options (admit (sample_request 1 7) empty_queue)"
  have g: "wq_group ?q = [sample_request 1 7]"
    by (simp add: form_group_def admit_def empty_queue_def limit_reached_def)
  have "wq_queue ?q = [] \<and> wq_group ?q = [] \<or> wq_leader ?q"
    using writer_queue_invariant [OF sample_queue_reachable] by (simp add: sample_options_def)
  then show ?thesis using sample_queue_reachable g by simp
qed



text \<open>
  C12: A group commit that reports success (with \<open>sync_on_write\<close>) is durable and visible: the operations of the
  group, in the order of its requests, get the consecutive sequences from \<open>next_sequence_\<close> on; exactly their
  entries are added to what memory holds; and the log file ends with one record of them, written and synced,
  even when the commit also rotates the MemTable.
\<close>

theorem write_group_durable:
  assumes "db_safe pb db" and "db_wal db = Some (i, w)" and "mt_inv (db_memtable db)" and "o_sync_on_write (db_options db)"
    and "commit_group pb grp db = (Ok (), db')"
  shows "let es = group_entries (db_next_sequence db) (group_operations grp) in
    length es = length (group_operations grp) \<and>
    (\<forall>j < length es. sequence (es ! j) = db_next_sequence db + of_nat j \<and> user_key (es ! j) = op_key (group_operations grp ! j) \<and>
       evalue (es ! j) = op_value (group_operations grp ! j)) \<and>
    unat (db_next_sequence db') = unat (db_next_sequence db) + length es \<and>
    memory db' = memory db \<union> set es \<and>
    nd_data (fs_nodes (db_fs db') i) = wf_data (ww_file w) @ batch_frame es \<and>
    nd_durable (fs_nodes (db_fs db') i) = wf_data (ww_file w) @ batch_frame es"
proof -
  let ?ops = "group_operations grp"
  note c = commit_group_Ok [OF assms(1-3,5)]
  then have "?ops \<noteq> []" by (auto simp: batch_ok_def Let_def)
  moreover have "length ?ops \<le> unat (- 1 - db_next_sequence db)" using c by (simp add: Let_def)
  ultimately have "unat (db_next_sequence db + of_nat (length ?ops)) = unat (db_next_sequence db) + length ?ops"
    by (rule group_entries_last(3))
  then show ?thesis using c assms(4) group_entries_nth [of _ ?ops "db_next_sequence db"] by (simp add: Let_def)
qed

text \<open>An append without faults writes the whole record.\<close>

lemma WalWriter_AppendBatch_clean:
  "batch_ok (ww_limits w) es \<Longrightarrow> wf_open (ww_file w) \<Longrightarrow> wf_writes (ww_file w) = [] \<Longrightarrow>
   WalWriter_AppendBatch es w = (Ok kOk, w\<lparr>ww_file := (ww_file w)\<lparr>wf_data := wf_data (ww_file w) @ batch_frame es, wf_writes := []\<rparr>\<rparr>)"
  by (simp add: WalWriter_AppendBatch_def append_encoded_def EncodeWalBatch_eq Append_def append_loop_all)

text \<open>When nothing fails a commit succeeds.\<close>

lemma commit_group_progress:
  assumes wal: "db_wal db = Some (i, w)" "wf_open (ww_file w)" "wf_writes (ww_file w) = []" "wf_syncs (ww_file w) = []"
    and ok: "batch_ok (ww_limits w) (group_entries (db_next_sequence db) (group_operations grp))"
    and ops: "group_logical_bytes 0 (group_operations grp) = Some l" "length (group_operations grp) \<le> unat (- 1 - db_next_sequence db)"
    and m: "ApplyBatch (group_entries (db_next_sequence db) (group_operations grp)) (db_memtable db) = (kOk, m)"
      "mt_bytes m < o_memtable_bytes (db_options db)"
  shows "\<exists>db'. commit_group pb grp db = (Ok (), db')"
proof -
  let ?es = "group_entries (db_next_sequence db) (group_operations grp)"
  have "\<exists>db1. append_group ?es db = (Ok (), db1)"
    using wal by (cases "o_sync_on_write (db_options db)")
      (simp_all add: append_group_def on_wal_def WalWriter_AppendBatch_clean [OF ok] WalWriter_Sync_def Sync_def)
  then obtain db1 where a: "append_group ?es db = (Ok (), db1)" by blast
  have d: "db_memtable db1 = db_memtable db" "db_options db1 = db_options db"
    by (rule append_group_result [OF wal(1) a]; simp)+
  moreover have "\<not> o_memtable_bytes (db_options db) \<le> mt_bytes m" using m(2) by (simp add: not_le)
  ultimately show ?thesis using a ops m(1) by (simp add: commit_group_def op_bind_def memtable_full_def ApproximateMemoryUsage_def Let_def)
qed

text \<open>When only the sync fails the caller gets its error.\<close>

lemma commit_group_sync_fails:
  assumes wal: "db_wal db = Some (i, w)" "wf_open (ww_file w)" "wf_writes (ww_file w) = []" "wf_syncs (ww_file w) = Failed # os"
      "o_sync_on_write (db_options db)"
    and ok: "batch_ok (ww_limits w) (group_entries (db_next_sequence db) (group_operations grp))"
    and ops: "group_logical_bytes 0 (group_operations grp) = Some l" "length (group_operations grp) \<le> unat (- 1 - db_next_sequence db)"
  shows "\<exists>db'. commit_group pb grp db = (Err kIOError, db')"
  using wal ops ok
  by (simp add: commit_group_def Let_def op_bind_def append_group_def on_wal_def WalWriter_AppendBatch_clean WalWriter_Sync_def Sync_def)

lemma sample_batch_ok: "batch_ok (Limits sample_options) (group_entries 1 (group_operations [sample_request n b]))"
  by (simp add: sample_request_def group_operations_def batch_ok_def entry_fits_def entry_ok_def kMaxWalBatchOperations_def
      kMaxWalBatchBytes_def Limits_def sample_options_def)

lemma sample_commit_ok:
  assumes "db_options db = sample_options" "db_memtable db = MemTable_empty" "db_next_sequence db = 1" "db_wal db = Some (i, w)"
    "ww_limits w = Limits sample_options" "wf_open (ww_file w)" "wf_writes (ww_file w) = []" "wf_syncs (ww_file w) = []"
  shows "\<exists>db'. commit_group pb [sample_request n b] db = (Ok (), db')"
proof (rule commit_group_progress [OF assms(4,6-8)])
  let ?es = "group_entries (db_next_sequence db) (group_operations [sample_request n b])"
  show "batch_ok (ww_limits w) ?es"
    by (simp add: assms sample_batch_ok)
  show "ApplyBatch ?es (db_memtable db) = (kOk, \<lparr>mt_entries = [([b], ?es)], mt_bytes = 82\<rparr>)"
    by (simp add: assms ApplyBatch_def sample_request_def group_operations_def EntryBytes_def sizeof_InternalEntry_def
        stage_def stage_one_def commit_staged_def MemTable_empty_def)
qed (simp_all add: assms sample_request_def group_operations_def sample_options_def)

theorem write_group_durable_witness:
  "\<exists>db'. commit_group sample_pb [sample_request 1 7] (sample_db MemTable_empty []) = (Ok (), db') \<and>
     nd_durable (fs_nodes (db_fs db') 1) = batch_frame [\<lparr>user_key = [7], sequence = 1, etype = kValue, evalue = [7]\<rparr>] \<and>
     memory db' = {\<lparr>user_key = [7], sequence = 1, etype = kValue, evalue = [7]\<rparr>}"
proof -
  let ?db = "sample_db MemTable_empty []"
  let ?w = "\<lparr>ww_file = sample_handle [], ww_limits = Limits sample_options\<rparr>"
  have db: "db_wal ?db = Some (1, ?w)" "mt_inv (db_memtable ?db)" "o_sync_on_write (db_options ?db)"
    by (simp_all add: sample_db_def sample_options_def)
  have "\<exists>db'. commit_group sample_pb [sample_request 1 7] ?db = (Ok (), db')"
    by (rule sample_commit_ok [OF _ _ _ db(1)]) (simp_all add: sample_db_def sample_handle_def)
  then obtain db' where c: "commit_group sample_pb [sample_request 1 7] ?db = (Ok (), db')" by blast
  from write_group_durable [OF sample_db_safe db c] show ?thesis
    using c by (auto simp: Let_def sample_request_def group_operations_def sample_db_def sample_handle_def memory_def)
qed

text \<open>
  C21: A failed sync of the log is not contained. When the record of a group is appended but its sync fails,
  the caller gets an error and the sequence counter does not move, although the record stays in the file; a
  later group then reuses the same sequences, is acknowledged as durable, and the log it was acknowledged
  into can no longer be replayed: recovery rejects the second record because its sequences do not increase.
\<close>

theorem failed_sync_then_commit_unrecoverable:
  assumes safe: "db_safe pb db" and wal: "db_wal db = Some (i, w)" and inv: "mt_inv (db_memtable db)"
    and os: "wf_open (ww_file w)" "wf_writes (ww_file w) = []" "wf_syncs (ww_file w) = Failed # os"
    and sync: "o_sync_on_write (db_options db)"
    and log: "wf_data (ww_file w) = log_bytes bs" "\<forall>b \<in> set bs. batch_ok (ww_limits w) b" "frames_increase floor bs"
      "frames_max floor bs < db_next_sequence db"
    and c1: "commit_group pb grp1 db = (Err kIOError, db1)" and c2: "commit_group pb grp2 db1 = (Ok (), db2)"
    and f: "sq_data f = nd_data (fs_nodes (db_fs db2) i)" "reads_ok (sq_reads f)"
  shows "\<exists>c. fst (Replay (ww_limits w) f floor ApplyBatch MemTable_empty) = Err c"
proof -
  let ?e1 = "group_entries (db_next_sequence db) (group_operations grp1)"
  let ?e2 = "group_entries (db_next_sequence db) (group_operations grp2)"
  obtain w' where w': "append_group ?e1 db = (Err kIOError, db1)"
    "db_wal db1 = Some (i, w')" "ww_limits w' = ww_limits w" "db_next_sequence db1 = db_next_sequence db" "db_memtable db1 = db_memtable db"
    "batch_ok (ww_limits w) ?e1" "ww_file w' = (ww_file w)\<lparr>wf_data := wf_data (ww_file w) @ batch_frame ?e1, wf_syncs := os\<rparr>"
    "length (group_operations grp1) \<le> unat (- 1 - db_next_sequence db)"
    by (rule commit_group_sync_failed [OF wal os sync c1])
  have e1: "group_operations grp1 \<noteq> []" using w'(6) by (auto simp: batch_ok_def)
  have safe1: "db_safe pb db1" by (rule append_group_safe [OF safe wal w'(1)])
  have c: "batch_ok (ww_limits w) ?e2" "nd_data (fs_nodes (db_fs db2) i) = wf_data (ww_file w) @ batch_frame ?e1 @ batch_frame ?e2"
    using commit_group_Ok [OF safe1 w'(2) _ c2] inv w'(3-5,7) by (simp_all add: Let_def)
  then have e2: "group_operations grp2 \<noteq> []" by (auto simp: batch_ok_def)
  have inc: "frames_increase floor (bs @ [?e1])"
    using frames_increase_snoc [OF log(3)] log(4) group_entries_hd [OF e1] by simp
  have stale: "sequence (hd ?e2) \<le> frames_max floor (bs @ [?e1])"
    using group_entries_last(1) [OF e1 w'(8)] group_entries_hd [OF e2] by (simp add: frames_max_def)
  show ?thesis unfolding Replay_def
    by (rule replay_loop_stale [where rest = "[]", OF _ f(2) _ c(1) inc stale]) (use f(1) c(2) log(1,2) w'(6) in auto)
qed

theorem failed_sync_then_commit_unrecoverable_witness:
  "\<exists>db1 db2 c. commit_group sample_pb [sample_request 1 7] (sample_db MemTable_empty [Failed]) = (Err kIOError, db1) \<and>
     commit_group sample_pb [sample_request 2 8] db1 = (Ok (), db2) \<and>
     fst (Replay (Limits sample_options) \<lparr>sq_data = nd_data (fs_nodes (db_fs db2) 1), sq_reads = []\<rparr> 0 ApplyBatch MemTable_empty) = Err c"
proof -
  let ?db = "sample_db MemTable_empty [Failed]"
  let ?w = "\<lparr>ww_file = sample_handle [Failed], ww_limits = Limits sample_options\<rparr>"
  have db: "db_wal ?db = Some (1, ?w)" "mt_inv (db_memtable ?db)" "wf_open (ww_file ?w)" "wf_writes (ww_file ?w) = []"
    "wf_syncs (ww_file ?w) = Failed # []" "o_sync_on_write (db_options ?db)"
    by (simp_all add: sample_db_def sample_options_def sample_handle_def)
  have "\<exists>db1. commit_group sample_pb [sample_request 1 7] ?db = (Err kIOError, db1)"
    by (rule commit_group_sync_fails [OF db(1,3-6)])
       (simp_all add: sample_batch_ok sample_db_def, simp_all add: sample_request_def group_operations_def)
  then obtain db1 where c1: "commit_group sample_pb [sample_request 1 7] ?db = (Err kIOError, db1)" by blast
  obtain w' where w': "db_wal db1 = Some (1, w')" "ww_limits w' = Limits sample_options" "db_next_sequence db1 = 1" 
    "db_memtable db1 = MemTable_empty" "ww_file w' = (ww_file ?w)\<lparr>wf_data := wf_data (ww_file ?w) @ batch_frame (group_entries 1 (group_operations [sample_request 1 7])),
       wf_syncs := []\<rparr>" "db_options db1 = sample_options"
    by (rule commit_group_sync_failed [OF db(1,3-6) c1]) (simp add: sample_db_def)
  have "\<exists>db2. commit_group sample_pb [sample_request 2 8] db1 = (Ok (), db2)"
    by (rule sample_commit_ok [OF w'(6,4,3,1,2)]) (simp_all add: w' sample_handle_def)
  then obtain db2 where c2: "commit_group sample_pb [sample_request 2 8] db1 = (Ok (), db2)" by blast
  have "\<exists>c. fst (Replay (ww_limits ?w) \<lparr>sq_data = nd_data (fs_nodes (db_fs db2) 1), sq_reads = []\<rparr> 0 ApplyBatch MemTable_empty) = Err c"
    by (rule failed_sync_then_commit_unrecoverable [where bs = "[]", OF sample_db_safe db _ _ _ _ c1 c2])
       (simp_all add: sample_db_def sample_handle_def frames_max_def)
  then show ?thesis using c1 c2 by auto
qed

text \<open>
  C22: A failed background flush turns backpressure into a livelock. When the active MemTable is full, the sealed
  one is still there and the background error is set, the predicate of the wait in \<open>PrepareForWrite\<close> holds
  at once, so the loop neither sleeps nor leaves: the leader of the next group never returns, whatever the other
  threads would do, and it holds the database mutex while it spins.
\<close>

theorem backpressure_livelock:
  assumes "grp \<noteq> []" and "db_immutable db \<noteq> None" and "memtable_full db" and "db_background_error db = Some c"
  shows "ApplyWriteGroup pb others grp db = None"
proof -
  let ?db = "db\<lparr>db_read_metrics := (db_read_metrics db)\<lparr>rm_write_lock_acquisitions := rm_write_lock_acquisitions (db_read_metrics db) + 1\<rparr>\<rparr>"
  have "backpressure others ?db = None"
    using assms(2-4) by (intro backpressure_stuck) (simp_all add: memtable_full_def wait_over_def)
  then show ?thesis using assms(1) by (simp add: ApplyWriteGroup_def PrepareForWrite_def Let_def)
qed

definition stuck_db :: Db where
  "stuck_db = (sample_db \<lparr>mt_entries = [([7], [\<lparr>user_key = [7], sequence = 1, etype = kValue, evalue = [7]\<rparr>])], mt_bytes = 82\<rparr> [])
     \<lparr>db_options := sample_options\<lparr>o_memtable_bytes := 82\<rparr>, db_immutable := Some MemTable_empty, db_background_error := Some kIOError\<rparr>"

theorem backpressure_livelock_witness:
  "ApplyWriteGroup sample_pb id [sample_request 1 7] stuck_db = None"
proof (rule backpressure_livelock)
  show "db_background_error stuck_db = Some kIOError" by (simp add: stuck_db_def)
qed (simp_all add: stuck_db_def sample_db_def memtable_full_def ApproximateMemoryUsage_def)

end
