(* ===== verification/Db_Lifecycle.thy ===== *)
theory Db_Lifecycle
  imports Db_Open Write_Path
begin

text \<open>
  The threads of an open database (\<open>src/db/db_impl.cpp\<close>): callers that submit writes and drain the writer queue, the
  background worker, explicit compaction and \<open>Close\<close>, and the public class \<open>DB\<close> with its metrics (\<open>src/db/db.cpp\<close>).
  A thread gives up its mutex at the waits and between the phases of its work. What all other threads do at the
  \<open>n\<close>-th such point is \<open>env n\<close>, an argument of the operation, so that a run is a function of the interference; a wait
  that is never satisfied has no result (\<open>None\<close>).
\<close>

section \<open>Waiting\<close>

text \<open>A wait on a condition variable: the predicate is tested first and again after each wake-up.\<close>

partial_function (option) wait_until :: "('s \<Rightarrow> bool) \<Rightarrow> (nat \<Rightarrow> 's \<Rightarrow> 's) \<Rightarrow> nat \<Rightarrow> 's \<Rightarrow> (nat \<times> 's) option" where
  "wait_until p env n s = (if p s then Some (n, s) else wait_until p env (Suc n) (env n s))"

definition RecordWriteLockWait :: "Db \<Rightarrow> Db" where
  "RecordWriteLockWait db = (let rm = db_read_metrics db in
     db\<lparr>db_read_metrics := rm\<lparr>rm_write_lock_acquisitions := rm_write_lock_acquisitions rm + 1\<rparr>\<rparr>)"

definition failed :: "Db \<Rightarrow> bool" where
  "failed db \<longleftrightarrow> db_terminal_error db \<noteq> None \<or> db_background_error db \<noteq> None"

definition flush_settled :: "Db \<Rightarrow> bool" where
  "flush_settled db \<longleftrightarrow> db_immutable db = None \<and> \<not> db_flush_running db \<or> failed db \<or> db_worker_stopping db"

definition work_settled :: "Db \<Rightarrow> bool" where
  "work_settled db \<longleftrightarrow> db_immutable db = None \<and> \<not> db_flush_running db \<and> \<not> db_compaction_running db \<and>
     \<not> db_flush_requested db \<and> \<not> db_compaction_requested db \<or> failed db \<or> db_worker_stopping db"

definition WaitForBackgroundFlush :: "(nat \<Rightarrow> Db \<Rightarrow> Db) \<Rightarrow> nat \<Rightarrow> Db \<Rightarrow> (nat \<times> Db) option" where
  "WaitForBackgroundFlush env n db = wait_until flush_settled env n db"

definition WaitForBackgroundWork :: "(nat \<Rightarrow> Db \<Rightarrow> Db) \<Rightarrow> nat \<Rightarrow> Db \<Rightarrow> (nat \<times> Db) option" where
  "WaitForBackgroundWork env n db = wait_until work_settled env n db"

section \<open>The background worker\<close>

text \<open>What the worker finds to do when it wakes up; both requests are consumed.\<close>

datatype background_task = FlushTask | CompactTask | NoTask

definition next_task :: "Db \<Rightarrow> background_task \<times> Db" where
  "next_task db =
     (let flush = db_flush_requested db \<and> db_immutable db \<noteq> None;
          compact = \<not> flush \<and> db_compaction_requested db \<and> \<not> db_closing db;
          db = db\<lparr>db_flush_requested := False, db_compaction_requested := False\<rparr> in
      if flush then (FlushTask, db\<lparr>db_flush_running := True\<rparr>)
      else if compact then (CompactTask, db\<lparr>db_compaction_running := True\<rparr>)
      else (NoTask, db))"

text \<open>The bookkeeping after a task, under the lock again.\<close>

definition record_failure :: "background_task \<Rightarrow> StatusCode \<Rightarrow> Db \<Rightarrow> Db" where
  "record_failure task c db =
     (let db = (if db_terminal_error db = None then db\<lparr>db_background_error := Some c\<rparr> else db);
          wm = db_write_metrics db; cm = db_compaction_metrics db in
      if task = FlushTask
      then db\<lparr>db_write_metrics := wm\<lparr>wm_background_flush_failures := wm_background_flush_failures wm + 1\<rparr>\<rparr>
      else db\<lparr>db_compaction_metrics := cm\<lparr>cm_compaction_failures := cm_compaction_failures cm + 1\<rparr>\<rparr>)"

definition record_success :: "background_task \<Rightarrow> Db \<Rightarrow> Db" where
  "record_success task db =
     (let wm = db_write_metrics db in
      if task = FlushTask then db\<lparr>db_write_metrics := wm\<lparr>wm_background_flushes := wm_background_flushes wm + 1\<rparr>\<rparr>
      else if NeedsBackgroundCompaction db then db\<lparr>db_compaction_requested := True\<rparr>
      else db)"

definition finish_task :: "background_task \<Rightarrow> StatusCode \<Rightarrow> Db \<Rightarrow> Db" where
  "finish_task task c db =
     (let db = db\<lparr>db_flush_running := False, db_compaction_running := False\<rparr> in
      if c \<noteq> kOk then record_failure task c db else record_success task db)"

definition run_task ::
  "Protobuf \<Rightarrow> (InternalEntry list \<Rightarrow> u64) \<Rightarrow> (Db \<Rightarrow> Db) \<Rightarrow> background_task \<Rightarrow> Db \<Rightarrow> (unit result \<times> Db) option" where
  "run_task pb charge others task db =
     (if task = FlushTask then Some (FlushImmutableMemTable pb charge others db)
      else CompactTablePrefix pb charge others (unat (o_compaction_table_trigger (db_options db))) True db)"

text \<open>
  The loop. The mutex is free before, inside and after a task. Exceptions of a task (it raises none of its own) would
  become \<open>kIOError\<close>; allocation failures are not modelled.
\<close>

definition worker_wakes :: "Db \<Rightarrow> bool" where
  "worker_wakes db \<longleftrightarrow> db_worker_stopping db \<or> db_flush_requested db \<or> db_compaction_requested db"

partial_function (option) BackgroundWorkLoop ::
  "Protobuf \<Rightarrow> (InternalEntry list \<Rightarrow> u64) \<Rightarrow> (nat \<Rightarrow> Db \<Rightarrow> Db) \<Rightarrow> nat \<Rightarrow> Db \<Rightarrow> (unit result \<times> Db) option" where
  "BackgroundWorkLoop pb charge env n db =
     Option.bind (wait_until worker_wakes env n db) (\<lambda>(n, db).
       if db_worker_stopping db then Some (Ok (), db)
       else case next_task db of (task, db) \<Rightarrow>
         if task = NoTask then BackgroundWorkLoop pb charge env n db
         else Option.bind (run_task pb charge (env (n + 1)) task (env n db)) (\<lambda>(r, db).
           case r of
             UB \<Rightarrow> Some (UB, db)
           | Ok _ \<Rightarrow> BackgroundWorkLoop pb charge env (n + 3) (finish_task task kOk (env (n + 2) db))
           | Err c \<Rightarrow> BackgroundWorkLoop pb charge env (n + 3) (finish_task task c (env (n + 2) db))))"

section \<open>Explicit compaction\<close>

definition Compact ::
  "Protobuf \<Rightarrow> (InternalEntry list \<Rightarrow> u64) \<Rightarrow> (nat \<Rightarrow> Db \<Rightarrow> Db) \<Rightarrow> Db \<Rightarrow> (unit result \<times> Db) option" where
  "Compact pb charge env db =
     (let db = RecordWriteLockWait db in
      if CheckOpen db \<noteq> kOk then Some (Err (CheckOpen db), db)
      else Option.bind (WaitForBackgroundWork env 0 db) (\<lambda>(n, db).
        if CheckOpen db \<noteq> kOk then Some (Err (CheckOpen db), db)
        else CompactTablePrefix pb charge (env (n + 1)) (length (db_tables db)) False (env n db)))"

section \<open>Submitting a write\<close>

text \<open>
  The writer queue has its own mutex, so a caller acts on the queue and the database together. Threads that take only the
  database mutex while a group is applied are \<open>others n\<close>.
\<close>

type_synonym shared = "WriterQueue \<times> Db"

definition set_queue_depth :: "nat \<Rightarrow> Db \<Rightarrow> Db" where
  "set_queue_depth depth db = db\<lparr>db_write_metrics := (db_write_metrics db)\<lparr>wm_writer_queue_depth := of_nat depth\<rparr>\<rparr>"

definition status_of :: "unit result \<Rightarrow> StatusCode" where
  "status_of r = (case r of Err c \<Rightarrow> c | _ \<Rightarrow> kOk)"

partial_function (option) DrainWriterQueue ::
  "Protobuf \<Rightarrow> (nat \<Rightarrow> Db \<Rightarrow> Db) \<Rightarrow> (nat \<Rightarrow> shared \<Rightarrow> shared) \<Rightarrow> nat \<Rightarrow> shared \<Rightarrow> (unit result \<times> nat \<times> shared) option" where
  "DrainWriterQueue pb others env n s =
     (case s of (q, db) \<Rightarrow>
        if wq_queue q = [] then Some (Ok (), n, q\<lparr>wq_leader := False\<rparr>, set_queue_depth 0 db)
        else
          case env n (form_group (db_options db) q, set_queue_depth (length (wq_queue (form_group (db_options db) q))) db) of
            (q1, db1) \<Rightarrow>
              Option.bind (ApplyWriteGroup pb (others n) (wq_group (form_group (db_options db) q)) db1) (\<lambda>(r, db2).
                if r = UB then Some (UB, n, q1, db2)
                else case env (n + 1) (q1, db2) of (q2, db3) \<Rightarrow>
                  DrainWriterQueue pb others env (n + 2) (complete_group (status_of r) q2, db3)))"

definition count_queued :: "nat \<Rightarrow> Db \<Rightarrow> Db" where
  "count_queued depth db =
     (let wm = db_write_metrics db in
      db\<lparr>db_write_metrics := wm\<lparr>wm_writer_queue_depth := of_nat depth,
         wm_max_writer_queue_depth := UpdateMaximum (wm_max_writer_queue_depth wm) (of_nat depth)\<rparr>\<rparr>)"

definition request_status :: "WriterRequest \<Rightarrow> WriterQueue \<Rightarrow> StatusCode" where
  "request_status r q = (case map_of (wq_completed q) r of Some c \<Rightarrow> c | None \<Rightarrow> kOk)"

text \<open>The caller that finds no leader becomes one and drains the queue; the others wait for their request to be completed.\<close>

definition enqueue :: "Protobuf \<Rightarrow> (nat \<Rightarrow> Db \<Rightarrow> Db) \<Rightarrow> (nat \<Rightarrow> shared \<Rightarrow> shared) \<Rightarrow> WriterRequest \<Rightarrow> nat \<Rightarrow> shared
    \<Rightarrow> (unit result \<times> shared) option" where
  "enqueue pb others env r n s =
     (case s of (q, db) \<Rightarrow>
        if wq_stopping q then Some (Err kAlreadyClosed, q, db)
        else
          let q1 = admit r q; db1 = count_queued (length (wq_queue q1)) db in
          if \<not> wq_leader q
          then Option.bind (DrainWriterQueue pb others env n (q1, db1)) (\<lambda>(u, m, q2, db2).
            Some (if u = UB then UB else (if request_status r q2 = kOk then Ok () else Err (request_status r q2)), q2, db2))
          else Option.bind (wait_until (\<lambda>(q, db). map_of (wq_completed q) r \<noteq> None) env n (q1, db1)) (\<lambda>(m, q2, db2).
            Some (if request_status r q2 = kOk then Ok () else Err (request_status r q2), q2, db2)))"

definition SubmitWrite :: "Protobuf \<Rightarrow> (nat \<Rightarrow> Db \<Rightarrow> Db) \<Rightarrow> (nat \<Rightarrow> shared \<Rightarrow> shared) \<Rightarrow> nat \<Rightarrow> WriteBatch \<Rightarrow> shared
    \<Rightarrow> (unit result \<times> shared) option" where
  "SubmitWrite pb others env caller batch s =
     (case s of (q, db) \<Rightarrow>
        case ValidateWriteBatch (db_options db) batch of (c, queue_bytes) \<Rightarrow>
          if c \<noteq> kOk then Some (Err c, s)
          else if batch = [] then Some (if CheckOpen db = kOk then Ok () else Err (CheckOpen db), s)
          else if queue_bytes > o_max_pending_write_bytes (db_options db) then Some (Err kResourceExhausted, s)
          else
            Option.bind (wait_until (\<lambda>(q, d). wq_stopping q \<or> \<not> queue_full (db_options db) queue_bytes q) env 0 s) (\<lambda>(n, s).
              enqueue pb others env \<lparr>wr_id = caller, wr_batch = batch, wr_queue_bytes = queue_bytes\<rparr> n s))"

definition Db_Put :: "Protobuf \<Rightarrow> (nat \<Rightarrow> Db \<Rightarrow> Db) \<Rightarrow> (nat \<Rightarrow> shared \<Rightarrow> shared) \<Rightarrow> nat \<Rightarrow> bytes \<Rightarrow> bytes \<Rightarrow> shared
    \<Rightarrow> (unit result \<times> shared) option" where
  "Db_Put pb others env caller key val = SubmitWrite pb others env caller (Batch_Put key val [])"

definition Db_Delete :: "Protobuf \<Rightarrow> (nat \<Rightarrow> Db \<Rightarrow> Db) \<Rightarrow> (nat \<Rightarrow> shared \<Rightarrow> shared) \<Rightarrow> nat \<Rightarrow> bytes \<Rightarrow> shared
    \<Rightarrow> (unit result \<times> shared) option" where
  "Db_Delete pb others env caller key = SubmitWrite pb others env caller (Batch_Delete key [])"

definition Db_Write :: "Protobuf \<Rightarrow> (nat \<Rightarrow> Db \<Rightarrow> Db) \<Rightarrow> (nat \<Rightarrow> shared \<Rightarrow> shared) \<Rightarrow> nat \<Rightarrow> WriteBatch \<Rightarrow> shared
    \<Rightarrow> (unit result \<times> shared) option" where
  "Db_Write pb others env caller batch = SubmitWrite pb others env caller batch"

section \<open>Close\<close>

definition StopWriterQueue :: "(nat \<Rightarrow> shared \<Rightarrow> shared) \<Rightarrow> nat \<Rightarrow> shared \<Rightarrow> (nat \<times> shared) option" where
  "StopWriterQueue env n s = wait_until (\<lambda>(q, db). \<not> wq_leader q) env n (apfst (\<lambda>q. q\<lparr>wq_stopping := True\<rparr>) s)"

definition ResumeWriterQueue :: "shared \<Rightarrow> shared" where
  "ResumeWriterQueue s = (case s of (q, db) \<Rightarrow> (if db_closed db then q else q\<lparr>wq_stopping := False\<rparr>, db))"

text \<open>The loop that lets the worker finish and empties a MemTable above its limit; it ends on the first error.\<close>

partial_function (option) close_loop :: "Protobuf \<Rightarrow> (nat \<Rightarrow> Db \<Rightarrow> Db) \<Rightarrow> nat \<Rightarrow> Db \<Rightarrow> (unit result \<times> nat \<times> Db) option" where
  "close_loop pb env n db =
     (if failed db then Some (Ok (), n, db)
      else if db_compaction_running db
      then Option.bind (wait_until (\<lambda>db. \<not> db_compaction_running db \<or> failed db) env n db) (\<lambda>(n, db). close_loop pb env n db)
      else if db_immutable db \<noteq> None
      then Option.bind (WaitForBackgroundFlush env n (db\<lparr>db_flush_requested := True\<rparr>)) (\<lambda>(n, db). close_loop pb env n db)
      else if memtable_full db
      then (case RotateMemTable pb db of
              (Ok _, db) \<Rightarrow> close_loop pb env n db
            | (Err c, db) \<Rightarrow> close_loop pb env n (db\<lparr>db_background_error := Some c\<rparr>)
            | (UB, db) \<Rightarrow> Some (UB, n, db))
      else Some (Ok (), n, db))"

text \<open>Stopping the worker: the mutex is free while the thread is joined.\<close>

definition join_worker :: "(nat \<Rightarrow> Db \<Rightarrow> Db) \<Rightarrow> nat \<Rightarrow> Db \<Rightarrow> Db" where
  "join_worker env n db = env n (db\<lparr>db_worker_stopping := True\<rparr>)"

definition close_status :: "Db \<Rightarrow> unit result" where
  "close_status db = (case db_background_error db of None \<Rightarrow> Ok () | Some c \<Rightarrow> Err c)"

definition mark_closed :: "Db \<Rightarrow> Db" where
  "mark_closed db = db\<lparr>db_closed := True, db_fs := ReleaseLock (db_fs db)\<rparr>"

text \<open>The end of \<open>Close\<close>: the log is synced if writes are, the worker joined, the log closed and the lock released.\<close>

definition close_wal :: "(nat \<Rightarrow> Db \<Rightarrow> Db) \<Rightarrow> nat \<Rightarrow> nat \<times> WalWriter \<Rightarrow> shared \<Rightarrow> unit result \<times> shared" where
  "close_wal env n wal s =
     (case s of (q, db) \<Rightarrow>
        case (if o_sync_on_write (db_options db) then on_wal (\<lambda>w. apfst Ok (WalWriter_Sync w)) wal db else (Ok kOk, db)) of
          (Ok c, db1) \<Rightarrow>
            if c \<noteq> kOk then (Err c, ResumeWriterQueue (q, db1\<lparr>db_closing := False\<rparr>))
            else (let db2 = join_worker env n db1 in
                  case db_wal db2 of
                    None \<Rightarrow> (UB, q, db2)
                  | Some wal \<Rightarrow>
                      (case on_wal (\<lambda>w. apfst Ok (WalWriter_Close w)) wal db2 of
                         (Ok c, db3) \<Rightarrow> (if c \<noteq> kOk then Err c else close_status db3, q, mark_closed db3)
                       | (Err c, db3) \<Rightarrow> (Err c, q, mark_closed db3)
                       | (UB, db3) \<Rightarrow> (UB, q, db3)))
        | (Err c, db1) \<Rightarrow> (Err c, q, db1)
        | (UB, db1) \<Rightarrow> (UB, q, db1))"

definition Close :: "Protobuf \<Rightarrow> (nat \<Rightarrow> shared \<Rightarrow> shared) \<Rightarrow> (nat \<Rightarrow> Db \<Rightarrow> Db) \<Rightarrow> shared \<Rightarrow> (unit result \<times> shared) option" where
  "Close pb writers env s =
     Option.bind (StopWriterQueue writers 0 s) (\<lambda>(m, q, db).
       let db = RecordWriteLockWait db in
       if db_closed db then Some (Err kAlreadyClosed, q, db)
       else Option.bind (close_loop pb env 0 (db\<lparr>db_closing := True, db_compaction_requested := False\<rparr>)) (\<lambda>(r, n, db).
         if r = UB then Some (UB, q, db)
         else case db_wal db of
           None \<Rightarrow> (let db = join_worker env n db in Some (close_status db, q, mark_closed db))
         | Some wal \<Rightarrow> Some (close_wal env n wal (q, db))))"

section \<open>Metrics and the public class\<close>

definition GetReadMetrics :: "Db \<Rightarrow> ReadMetrics \<times> CacheMetrics" where
  "GetReadMetrics db = (db_read_metrics db, bc_metrics (db_cache db))"

definition GetWriteMetrics :: "Db \<Rightarrow> WriteMetrics" where
  "GetWriteMetrics db = db_write_metrics db"

definition GetCompactionMetrics :: "Db \<Rightarrow> CompactionMetrics" where
  "GetCompactionMetrics db = db_compaction_metrics db"

record SnapshotMetrics =
  sm_active_snapshots :: u64
  sm_oldest_snapshot_sequence :: u64
  sm_last_full_compaction_retained_versions :: u64
  sm_last_full_compaction_retained_bytes :: u64

definition zero_snapshot_metrics :: SnapshotMetrics where
  "zero_snapshot_metrics = \<lparr>sm_active_snapshots = 0, sm_oldest_snapshot_sequence = 0,
     sm_last_full_compaction_retained_versions = 0, sm_last_full_compaction_retained_bytes = 0\<rparr>"

definition GetSnapshotMetrics :: "Db \<Rightarrow> SnapshotMetrics" where
  "GetSnapshotMetrics db =
     (let s = db_snapshots db; active = ActiveCount s in
      \<lparr>sm_active_snapshots = of_nat active, sm_oldest_snapshot_sequence = (if active = 0 then 0 else OldestOr 0 s),
       sm_last_full_compaction_retained_versions = ss_retained_versions s,
       sm_last_full_compaction_retained_bytes = ss_retained_bytes s\<rparr>)"

text \<open>\<open>DB\<close> owns its implementation through a pointer that is null after a move.\<close>

definition DB_Open :: "Protobuf \<Rightarrow> (InternalEntry list \<Rightarrow> u64) \<Rightarrow> bool \<Rightarrow> nat \<Rightarrow> string \<Rightarrow> Options \<Rightarrow> FileSystem
    \<Rightarrow> Db option result \<times> FileSystem option" where
  "DB_Open pb charge spawned registry path opts fs =
     (case Db_Open pb charge spawned registry path opts (Some fs) of
        (Ok db, fs') \<Rightarrow> (Ok (Some db), fs') | (Err c, fs') \<Rightarrow> (Err c, fs') | (UB, fs') \<Rightarrow> (UB, fs'))"

definition DB_GetReadMetrics :: "Db option \<Rightarrow> ReadMetrics \<times> CacheMetrics" where
  "DB_GetReadMetrics impl = (case impl of Some db \<Rightarrow> GetReadMetrics db | None \<Rightarrow> (zero_read_metrics, zero_cache_metrics))"

definition DB_GetWriteMetrics :: "Db option \<Rightarrow> WriteMetrics" where
  "DB_GetWriteMetrics impl = (case impl of Some db \<Rightarrow> GetWriteMetrics db | None \<Rightarrow> zero_write_metrics)"

definition DB_GetCompactionMetrics :: "Db option \<Rightarrow> CompactionMetrics" where
  "DB_GetCompactionMetrics impl = (case impl of Some db \<Rightarrow> GetCompactionMetrics db | None \<Rightarrow> zero_compaction_metrics)"

definition DB_GetSnapshotMetrics :: "Db option \<Rightarrow> SnapshotMetrics" where
  "DB_GetSnapshotMetrics impl = (case impl of Some db \<Rightarrow> GetSnapshotMetrics db | None \<Rightarrow> zero_snapshot_metrics)"

text \<open>
  For the tools around the library: what other threads do while an operation waits for the worker, for the writer queue, for
  the leader to step down, and while \<open>Close\<close> waits.
\<close>

record Surroundings =
  su_others :: "nat \<Rightarrow> Db \<Rightarrow> Db"
  su_queue :: "nat \<Rightarrow> shared \<Rightarrow> shared"
  su_writers :: "nat \<Rightarrow> shared \<Rightarrow> shared"
  su_close :: "nat \<Rightarrow> Db \<Rightarrow> Db"

end
