(* ===== verification/Labelled_System.thy ===== *)
theory Labelled_System
  imports Main
begin

text \<open>
  Transition systems whose steps carry a list of labels, and the interface through which a system is related to an abstract
  state: an invariant of its steps, a simulation of the labels, and observations that stay the same while they are pinned.
\<close>

inductive labelled_run :: "('s \<Rightarrow> 'l list \<Rightarrow> 's \<Rightarrow> bool) \<Rightarrow> 's \<Rightarrow> 'l list \<Rightarrow> 's \<Rightarrow> bool" for step where
  stop: "labelled_run step s [] s"
| more_steps: "labelled_run step s ls s' \<Longrightarrow> step s' ls' s'' \<Longrightarrow> labelled_run step s (ls @ ls') s''"

text \<open>A run in whose states, but for the last, a condition holds.\<close>

inductive guarded_run :: "('s \<Rightarrow> 'l list \<Rightarrow> 's \<Rightarrow> bool) \<Rightarrow> ('s \<Rightarrow> bool) \<Rightarrow> 's \<Rightarrow> 's \<Rightarrow> bool" for step P where
  guard_stop: "guarded_run step P s s"
| guard_step: "guarded_run step P s s' \<Longrightarrow> P s' \<Longrightarrow> step s' ls s'' \<Longrightarrow> guarded_run step P s s''"

locale labelled_simulation =
  fixes step :: "'s \<Rightarrow> 'l list \<Rightarrow> 's \<Rightarrow> bool" and invar :: "'s \<Rightarrow> bool" and represents :: "'s \<Rightarrow> 'a \<Rightarrow> bool"
    and perform :: "'l list \<Rightarrow> 'a \<Rightarrow> 'a"
  assumes invar_step: "invar s \<Longrightarrow> step s ls s' \<Longrightarrow> invar s'"
    and simulated_step: "invar s \<Longrightarrow> step s ls s' \<Longrightarrow> represents s a \<Longrightarrow> represents s' (perform ls a)"
    and perform_nil: "perform [] a = a"
    and perform_append: "perform (ls @ ls') a = perform ls' (perform ls a)"
begin

lemma invar_run: "labelled_run step s ls s' \<Longrightarrow> invar s \<Longrightarrow> invar s'"
  by (induction rule: labelled_run.induct) (auto intro: invar_step)

lemma simulated_run: "labelled_run step s ls s' \<Longrightarrow> invar s \<Longrightarrow> represents s a \<Longrightarrow> represents s' (perform ls a)"
proof (induction rule: labelled_run.induct)
  case (more_steps s ls s' ls' s'')
  then have "represents s'' (perform ls' (perform ls a))" using simulated_step invar_run by blast
  then show ?case by (simp add: perform_append)
qed (simp add: perform_nil)

lemma invar_guarded_run: "guarded_run step P s s' \<Longrightarrow> invar s \<Longrightarrow> invar s'"
  by (induction rule: guarded_run.induct) (auto intro: invar_step)

end

locale pinned_observation = labelled_simulation +
  fixes pinned :: "'a \<Rightarrow> 'k \<Rightarrow> bool" and observes :: "'a \<Rightarrow> 'k \<Rightarrow> 'v \<Rightarrow> bool"
  assumes observed_step: "invar s \<Longrightarrow> step s ls s' \<Longrightarrow> pinned s k \<Longrightarrow> observes s k v \<Longrightarrow> observes s' k v"
begin

lemma observed_run: "guarded_run step (\<lambda>s. pinned s k) s s' \<Longrightarrow> invar s \<Longrightarrow> observes s k v \<Longrightarrow> observes s' k v"
  by (induction rule: guarded_run.induct) (auto intro: observed_step dest: invar_guarded_run)

end

end
