(* ===== verification/Db_System.thy ===== *)
theory Db_System
  imports Db_Lifecycle Labelled_System
begin

text \<open>
  The whole database as a concurrent system. Its state is the database with the job of the background worker; its steps are
  the critical sections of the code: committing a group, rotating, reading, taking and releasing snapshots, the two phases
  of a flush and of a background compaction, and an explicit compaction. Every step, with whatever system calls failing in
  it, keeps the invariant of the database and what registered snapshots see, and changes the current value of each key
  exactly as the committed operations say: the database refines a map from keys to values with snapshots.
\<close>

section \<open>Writing\<close>

lemma group_entries_bounds:
  assumes "length ops \<le> unat (- 1 - n :: u64)" "e \<in> set (group_entries n ops)"
  shows "n \<le> sequence e \<and> sequence e < n + of_nat (length ops)"
proof -
  obtain i where i: "i < length ops" "e = group_entries n ops ! i" using assms(2) by (auto simp: in_set_conv_nth)
  have "ops \<noteq> []" using i(1) by auto
  then have len: "unat (n + of_nat (length ops)) = unat n + length ops" by (rule group_entries_last(3) [OF _ assms(1)])
  then have "unat n + length ops \<le> max_u64" using unat_u64_le [of "n + of_nat (length ops)"] by simp
  then have "unat (n + of_nat i) = unat n + i" using i(1) by (simp add: unat_word_ariths max_u64_def)
  moreover have "sequence e = n + of_nat i" using group_entries_nth [OF i(1)] i(2) by simp
  ultimately show ?thesis using len i(1) by (simp add: word_le_nat_alt word_less_nat_alt)
qed

lemma no_wrap: "length (ops :: Operation list) \<le> unat (- 1 - n :: u64) \<Longrightarrow> n \<le> n + of_nat (length ops)"
  using group_entries_last(3) [of ops n] by (cases "ops = []") (simp_all add: word_le_nat_alt)

section \<open>The invariant\<close>

text \<open>
  The state is sound and layered, every sequence is positive and below the next one, and the registry is consistent with
  its pins below the next sequence.
\<close>

definition db_ok :: "Db \<Rightarrow> bool" where
  "db_ok db \<longleftrightarrow> db_sound db \<and> layered db \<and> sequences_bounded db \<and> db_next_sequence db \<noteq> 0 \<and>
     ss_inv (db_snapshots db) \<and> (\<forall>s \<in># pins (db_snapshots db). s < db_next_sequence db)"

lemma quiet_ok: "quiet d d' \<Longrightarrow> db_ok d' = db_ok d"
  using quiet_facts [of d d'] by (simp add: db_ok_def sequences_bounded_def) (simp add: quiet_def)

text \<open>New versions in the active MemTable.\<close>

definition frontless :: "Db \<Rightarrow> Db \<Rightarrow> bool" where
  "frontless d d' \<longleftrightarrow> db_immutable d' = db_immutable d \<and> db_tables d' = db_tables d \<and>
     live_tables (db_current d') = live_tables (db_current d) \<and> db_cache d' = db_cache d \<and> db_snapshots d' = db_snapshots d \<and>
     db_options d' = db_options d \<and> db_registry d' = db_registry d"

lemma quiet_frontless: "quiet a b \<Longrightarrow> frontless b c \<Longrightarrow> frontless a c"
  by (simp add: quiet_def frontless_def)

definition deeper :: "Db \<Rightarrow> InternalEntry list list" where
  "deeper db = map dt_entries (db_tables db) @ (case db_immutable db of None \<Rightarrow> [] | Some m \<Rightarrow> [mt_all m])"

lemma layers_deeper: "layers db = deeper db @ [mt_all (db_memtable db)]"
  by (simp add: layers_def deeper_def)

lemma memtable_grows:
  assumes ok: "db_ok d" and f: "frontless d d'" and m: "mt_inv (db_memtable d')"
    and s: "set (mt_all (db_memtable d')) = set (mt_all (db_memtable d)) \<union> E"
    and E: "\<forall>e \<in> E. db_next_sequence d \<le> sequence e \<and> sequence e < db_next_sequence d'" and n: "db_next_sequence d \<le> db_next_sequence d'"
  shows "db_ok d' \<and> contents d' = contents d \<union> E"
proof -
  let ?P = "deeper d"
  have P: "deeper d' = ?P" using f by (simp add: deeper_def frontless_def cong: option.case_cong)
  have c: "contents d' = contents d \<union> E" unfolding contents_layers layers_deeper P using s by auto
  have old: "sequence e < db_next_sequence d" if "e \<in> set (concat (layers d))" for e
    using ok that by (simp add: db_ok_def sequences_bounded_def contents_layers del: set_concat)
  then have oldP: "sequence e < db_next_sequence d" if "e \<in> set (concat ?P)" for e using that by (auto simp: layers_deeper)
  have nodup: "no_duplicates (concat ?P @ mt_all (db_memtable d))"
    using ok sound_layers [of d] by (simp add: db_ok_def layers_deeper)
  have ord: "no_duplicates (mt_all (db_memtable d'))" using mt_all_ordered [OF m] ordered_iff_no_duplicates by blast
  have cross: "(user_key a, sequence a) \<noteq> (user_key b, sequence b)" if "a \<in> set (concat ?P)" "b \<in> set (mt_all (db_memtable d'))" for a b
  proof (cases "b \<in> E")
    case True
    then show ?thesis using E oldP [OF that(1)] by fastforce
  next
    case False
    then show ?thesis using that s nodup by (fastforce simp: no_duplicates_def)
  qed
  have "no_duplicates (concat (layers d'))"
    using nodup ord cross unfolding layers_deeper P by (fastforce simp: no_duplicates_def)
  then have dup: "no_duplicates (concat (db_sources d'))" using no_duplicates_perm [OF sources_layers [of d']] by simp
  have "db_sound d'" using ok f m dup by (auto simp: db_ok_def db_sound_def frontless_def)
  moreover have "layered d'"
  proof -
    have "older as (mt_all (db_memtable d'))" if "as \<in> set ?P" for as
      unfolding older_def
    proof (intro ballI impI)
      fix a b
      assume a: "a \<in> set as" and b: "b \<in> set (mt_all (db_memtable d'))" and k: "user_key a = user_key b"
      show "sequence a < sequence b"
      proof (cases "b \<in> E")
        case True
        then show ?thesis using E oldP [of a] a that by fastforce
      next
        case False
        then have "b \<in> set (mt_all (db_memtable d))" using b s by blast
        then show ?thesis using ok a that k unfolding db_ok_def layered_def layers_deeper sorted_wrt_append older_def by auto
      qed
    qed
    then show ?thesis using ok unfolding db_ok_def layered_def layers_deeper P by (auto simp: sorted_wrt_append)
  qed
  moreover have "0 < sequence e \<and> sequence e < db_next_sequence d'" if "e \<in> contents d'" for e
  proof (cases "e \<in> E")
    case True
    then show ?thesis using E ok by (auto simp: db_ok_def word_neq_0_conv intro: less_le_trans)
  next
    case False
    then show ?thesis using that c ok n by (auto simp: db_ok_def sequences_bounded_def intro: less_le_trans)
  qed
  moreover have "db_next_sequence d' \<noteq> 0" using ok n by (auto simp: db_ok_def)
  moreover have "db_snapshots d' = db_snapshots d" using f by (simp add: frontless_def)
  ultimately show ?thesis using c ok n by (auto simp: db_ok_def sequences_bounded_def intro: less_le_trans)
qed

section \<open>Each critical section keeps the invariant\<close>

text \<open>
  What the callers' critical sections leave to the worker: the tables and what they hold, a sealed MemTable, and pins that
  are old or at least the newest sequence.
\<close>

definition worker_frame :: "Db \<Rightarrow> Db \<Rightarrow> bool" where
  "worker_frame d d' \<longleftrightarrow> map dt_entries (db_tables d') = map dt_entries (db_tables d) \<and>
     bc_capacity (db_cache d') = bc_capacity (db_cache d) \<and> db_registry d' = db_registry d \<and>
     (\<forall>imm. db_immutable d = Some imm \<longrightarrow> db_immutable d' = Some imm) \<and> db_next_sequence d \<le> db_next_sequence d' \<and>
     (\<forall>s \<in># pins (db_snapshots d'). s \<in># pins (db_snapshots d) \<or> db_next_sequence d - 1 \<le> s)"

lemma quiet_frame: "quiet d d' \<Longrightarrow> worker_frame d d'"
  by (simp add: quiet_def worker_frame_def)

lemma pred_mono: "(a :: u64) \<noteq> 0 \<Longrightarrow> a \<le> b \<Longrightarrow> a - 1 \<le> b - 1"
proof -
  assume a: "a \<noteq> 0" "a \<le> b"
  then have "b \<noteq> 0" by auto
  then have "unat (a - 1) = unat a - 1" "unat (b - 1) = unat b - 1"
    using a(1) by (simp_all add: unat_sub word_le_nat_alt unat_gt_0 Suc_le_eq)
  then show ?thesis using a(2) by (simp add: word_le_nat_alt)
qed

lemma worker_frame_trans: "worker_frame a b \<Longrightarrow> worker_frame b c \<Longrightarrow> db_next_sequence a \<noteq> 0 \<Longrightarrow> worker_frame a c"
  unfolding worker_frame_def using pred_mono [of "db_next_sequence a" "db_next_sequence b"] order_trans by fastforce

lemma append_group_quiet: "append_group es db = (r, db') \<Longrightarrow> quiet db db'"
  by (auto simp: append_group_def on_wal_def quiet_def split: option.splits prod.splits result.splits if_splits)

lemma seal_memtable_frame [simp]:
  "db_cache (seal_memtable h db) = db_cache db" "db_snapshots (seal_memtable h db) = db_snapshots db"
  "db_registry (seal_memtable h db) = db_registry db"
  by (simp_all add: seal_memtable_def Let_def BestEffortClose_def split: option.split prod.split)

lemma sealed_ok:
  assumes "db_ok d" "db_immutable d = None" and f: "db_immutable d' = Some (db_memtable d)" "db_memtable d' = MemTable_empty"
    "db_tables d' = db_tables d" "live_tables (db_current d') = live_tables (db_current d)" "db_cache d' = db_cache d"
    "db_snapshots d' = db_snapshots d" "db_next_sequence d' = db_next_sequence d"
  shows "db_ok d' \<and> contents d' = contents d"
proof -
  have l: "layers d' = layers d @ [[]]" using assms by (simp add: layers_def)
  then have c: "contents d' = contents d" by (simp add: contents_layers)
  have "no_duplicates (concat (db_sources d'))"
    using no_duplicates_perm [OF sources_layers [of d']] sound_layers [of d] assms(1) l by (simp add: db_ok_def)
  then have "db_sound d'" using assms by (auto simp: db_ok_def db_sound_def)
  moreover have "layered d'" using assms(1) unfolding layered_def l by (simp add: db_ok_def layered_def sorted_wrt_append older_def)
  ultimately show ?thesis using assms(1) c f by (simp add: db_ok_def sequences_bounded_def)
qed

lemma rotation_ok:
  assumes run: "RotateMemTable pb d = (r, d')" and ok: "db_ok d"
  shows "db_ok d' \<and> contents d' = contents d \<and> db_next_sequence d' = db_next_sequence d \<and> worker_frame d d'"
proof -
  have quiet: ?thesis if "quiet d d'"
    using that quiet_ok [OF that] quiet_facts [OF that] quiet_frame [OF that] ok by (simp add: quiet_def)
  from run show ?thesis
  proof (cases rule: RotateMemTable_cases)
    case (published h h' fs1 fs2 db3 r3)
    have "quiet (d\<lparr>db_fs := fs2\<rparr>) db3" by (rule db_publish_quiet [OF published(6)]) (simp add: rotation_snapshot_def)
    then have q: "quiet d db3" using quiet_trans quiet_update(1) by blast
    show ?thesis
    proof (cases "r3 = Ok ()")
      case True
      then have d': "d' = seal_memtable h' db3" using published(7) by blast
      have "db_ok db3" "db_immutable db3 = None" using q quiet_ok [OF q] ok published(1) by (simp_all add: quiet_def)
      then have "db_ok d' \<and> contents d' = contents db3" unfolding d' by (rule sealed_ok) simp_all
      then show ?thesis using q quiet_facts [OF q] published(1) by (simp add: d' worker_frame_def quiet_def)
    next
      case False
      then show ?thesis using published(7) q quiet by blast
    qed
  qed (rule quiet, simp)+
qed

lemma commit_ok:
  assumes run: "commit_group pb grp d = (r, d')" and ok: "db_ok d"
  shows "db_ok d' \<and> worker_frame d d' \<and> db_next_sequence d \<le> db_next_sequence d' \<and> (\<exists>ops \<in> {[], group_operations grp}. (r = Ok () \<longrightarrow> ops = group_operations grp) \<and>
    length ops \<le> unat (- 1 - db_next_sequence d) \<and> contents d' = contents d \<union> set (group_entries (db_next_sequence d) ops))"
proof -
  let ?ops = "group_operations grp" and ?n = "db_next_sequence d"
  have quiet: ?thesis if "quiet d d'" "r \<noteq> Ok ()"
    using that(2) quiet_ok [OF that(1)] quiet_facts [OF that(1)] quiet_frame [OF that(1)] that(1) ok by (simp add: quiet_def)
  from run show ?thesis
  proof (cases rule: commit_group_cases)
    case rejected
    then show ?thesis using quiet by simp
  next
    case (log_failed r1)
    then show ?thesis using quiet append_group_quiet by blast
  next
    case (table_failed db1 c m)
    note q = append_group_quiet [OF table_failed(1)]
    have "db_ok d' \<and> contents d' = contents d \<union> {}"
      by (rule memtable_grows [OF ok]) (use q ok no_wrap [OF table_failed(6)] in \<open>auto simp: table_failed(5) quiet_def frontless_def db_ok_def db_sound_def\<close>)
    then show ?thesis
      using table_failed(4) q no_wrap [OF table_failed(6)] by (auto simp: table_failed(5) quiet_def worker_frame_def)
  next
    case (committed db1 m wm db2)
    note q = append_group_quiet [OF committed(1)]
    let ?es = "group_entries ?n ?ops"
    have mem: "db_memtable db1 = db_memtable d" using q by (simp add: quiet_def)
    have inv: "mt_inv (db_memtable d)" using ok by (simp add: db_ok_def db_sound_def)
    have m: "mt_inv m" "set (mt_all m) = set (mt_all (db_memtable d)) \<union> set ?es"
      using ApplyBatch_preserves_inv [OF inv, of ?es] ApplyBatch_contents [OF inv] committed(3) mem by auto
    have n2: "db_next_sequence db2 = ?n + of_nat (length ?ops)" using q by (simp add: committed(4) quiet_def)
    have g: "db_ok db2 \<and> contents db2 = contents d \<union> set ?es"
    proof (rule memtable_grows [OF ok])
      show "frontless d db2" using q by (simp add: committed(4) quiet_def frontless_def)
    qed (use m n2 group_entries_bounds [OF committed(2)] no_wrap [OF committed(2)] in \<open>auto simp: committed(4)\<close>)
    have f: "worker_frame d db2" using q n2 no_wrap [OF committed(2)] by (simp add: committed(4) quiet_def worker_frame_def)
    from committed(5) show ?thesis
    proof
      assume "d' = db2 \<and> r = Ok ()"
      then show ?thesis using g f n2 no_wrap [OF committed(2)] committed(2) by auto
    next
      assume r: "RotateMemTable pb db2 = (r, d')"
      have "db_ok d' \<and> contents d' = contents db2 \<and> db_next_sequence d' = db_next_sequence db2 \<and> worker_frame db2 d'"
        by (rule rotation_ok [OF r]) (use g in simp)
      moreover have "worker_frame d d'"
        using f calculation worker_frame_trans ok by (simp add: db_ok_def)
      ultimately show ?thesis using g n2 no_wrap [OF committed(2)] committed(2) by auto
    qed
  qed
qed

text \<open>Reads change positions in files, cached blocks and counters.\<close>

lemma read_only_ok:
  assumes "read_only d d'" "db_readable d'" "db_ok d"
  shows "db_ok d' \<and> contents d' = contents d \<and> db_next_sequence d' = db_next_sequence d \<and> worker_frame d d'"
proof -
  note f = read_only_fields [OF assms(1)]
  have e: "map dt_entries (db_tables d') = map dt_entries (db_tables d)" "bc_capacity (db_cache d') = bc_capacity (db_cache d)"
    using assms(1) by (simp_all add: read_only_def)
  have l: "layers d' = layers d" using f e(1) by (simp add: layers_def cong: option.case_cong)
  have "db_ok d'" using assms(2,3) f(4,6,7) by (simp add: db_ok_def db_readable_def layered_def l sequences_bounded_def)
  then show ?thesis using f e by (simp add: worker_frame_def)
qed

lemma get_ok:
  assumes run: "Db_Get charge key s d = (r, d')" and d: "db_readable d" "bc_capacity (db_cache d) \<noteq> 0" "db_ok d"
  shows "db_ok d' \<and> contents d' = contents d \<and> db_next_sequence d' = db_next_sequence d \<and> worker_frame d d'"
proof (cases "CheckOpen d = kOk \<and> \<not> foreign_snapshot s d")
  case True
  obtain newest :: "InternalEntry option" and db' where g: "Db_Get charge key s d = (case newest of None \<Rightarrow> (Err kNotFound, db')
      | Some e \<Rightarrow> if etype e = kTombstone then (Err kNotFound, db') else (Ok (evalue e), db'))" "read_only d db'" "db_readable db'"
    using Db_Get_ok [OF d(1,2) conjunct1 [OF True] conjunct2 [OF True], of charge key] by blast
  then have "d' = db'" using run by (auto split: option.splits if_splits)
  then show ?thesis using read_only_ok g(2,3) d(3) by blast
next
  case False
  then have "d' = RecordReadLockWait d" using run unfolding Db_Get_def Let_def [of "RecordReadLockWait d"] by (simp split: if_splits)
  then have q: "quiet d d'" by (simp add: RecordReadLockWait_def)
  show ?thesis using quiet_ok [OF q] quiet_facts [OF q] quiet_frame [OF q] q d(3) by (simp add: quiet_def)
qed

lemma new_iterator_quiet: "Db_NewIterator charge beg end_key s d = Some (r, d') \<Longrightarrow> quiet d d'"
proof -
  assume run: "Db_NewIterator charge beg end_key s d = Some (r, d')"
  have inputs: "quiet_op (table_inputs charge beg end_key i ms)" for i ms
  proof (induction ms arbitrary: i)
    case (Cons m ms)
    have "quiet_op (\<lambda>db. (f db, db))" for f :: "Db \<Rightarrow> TableIterator result" by (simp add: quiet_op_def)
    moreover have "quiet_op (db_modify (\<lambda>db. db\<lparr>db_read_metrics := g db\<rparr>))" for g by (simp add: quiet_op_def db_modify_def)
    ultimately show ?case by (auto intro!: quiet_op_bind Cons.IH)
  qed simp
  have mq: "quiet_op (merge_inputs charge beg end_key)"
  proof -
    have "quiet_op (\<lambda>db. (memory_inputs beg end_key db, db))" by (simp add: quiet_op_def)
    then have "quiet_op (op_bind (table_inputs charge beg end_key 0 ms) (\<lambda>disks. op_bind (\<lambda>db. (memory_inputs beg end_key db, db)) (\<lambda>mems.
        op_of (NewMergingIterator (any_ops charge) (disks @ mems)))))" for ms
      by (intro quiet_op_bind inputs quiet_op_simps)
    then show ?thesis by (auto simp: quiet_op_def merge_inputs_def)
  qed
  have m: "quiet d d1" if "merge_inputs charge beg end_key (RecordReadLockWait d) = (x, d1)" for x d1
    using quiet_opD [OF mq that] quiet_trans [of d "RecordReadLockWait d" d1] by (simp add: RecordReadLockWait_def)
  have q: "quiet d (RecordReadLockWait d)" by (simp add: RecordReadLockWait_def)
  show ?thesis
    using run q m quiet_trans [OF m quiet_update(2)]
    by (auto simp: Db_NewIterator_def Let_def split: if_splits prod.splits result.splits option.splits)
qed

lemma snapshot_ok:
  assumes run: "GetSnapshot d = (r, d')" and ok: "db_ok d"
  shows "db_ok d' \<and> contents d' = contents d \<and> db_next_sequence d' = db_next_sequence d \<and> worker_frame d d' \<and>
    (\<forall>s. r = Ok s \<longrightarrow> sn_sequence s = db_next_sequence d - 1 \<and> sn_state s = Some (db_registry d) \<and> sn_sequence s \<in># pins (db_snapshots d'))"
proof -
  have q: "quiet d (RecordReadLockWait d)" by (simp add: RecordReadLockWait_def)
  show ?thesis
  proof (cases "CheckOpen d = kOk")
    case False
    then have "d' = RecordReadLockWait d" "\<exists>c. r = Err c" using run by (auto simp: GetSnapshot_def Let_def)
    then show ?thesis using quiet_ok [OF q] quiet_facts [OF q] quiet_frame [OF q] q ok by (auto simp: quiet_def)
  next
    case True
    let ?s = "db_next_sequence d - 1"
    obtain b ss where t: "TryRegister ?s (unat (o_max_active_snapshots (db_options d))) (db_snapshots d) = (b, ss)" by fastforce
    have d': "d' = (RecordReadLockWait d)\<lparr>db_snapshots := ss\<rparr>" "r = (if b then Ok \<lparr>sn_state = Some (db_registry d), sn_sequence = ?s, sn_registered = True\<rparr>
        else Err kResourceExhausted)"
    proof -
      have "db_next_sequence (RecordReadLockWait d) = db_next_sequence d" "db_options (RecordReadLockWait d) = db_options d"
        "db_snapshots (RecordReadLockWait d) = db_snapshots d" "db_registry (RecordReadLockWait d) = db_registry d"
        by (simp_all add: RecordReadLockWait_def)
      then show "d' = (RecordReadLockWait d)\<lparr>db_snapshots := ss\<rparr>" "r = (if b then Ok \<lparr>sn_state = Some (db_registry d), sn_sequence = ?s, sn_registered = True\<rparr>
          else Err kResourceExhausted)"
        using run True t by (simp_all add: GetSnapshot_def Let_def split: if_splits)
    qed
    have inv: "ss_inv (db_snapshots d)" using ok by (simp add: db_ok_def)
    have ss: "ss_inv ss" "pins ss = (if b then add_mset ?s (pins (db_snapshots d)) else pins (db_snapshots d))"
      using TryRegister_cases [OF inv t] by auto
    have "?s < db_next_sequence d" using ok below_next [of ?s "db_next_sequence d"] by (simp add: db_ok_def)
    moreover have "layers d' = layers d" "contents d' = contents d" "db_next_sequence d' = db_next_sequence d" "db_sound d' = db_sound d"
      by (simp_all add: d' RecordReadLockWait_def layers_def contents_layers db_sound_def db_sources_def)
    ultimately have "db_ok d'" using ok ss by (auto simp: db_ok_def layered_def sequences_bounded_def d'(1))
    then show ?thesis using ss \<open>contents d' = contents d\<close> \<open>db_next_sequence d' = db_next_sequence d\<close>
      by (auto simp: d' RecordReadLockWait_def worker_frame_def)
  qed
qed

lemma release_ok:
  assumes ok: "db_ok d" and d': "d' = d\<lparr>db_snapshots := Snapshot_destroy s (db_snapshots d)\<rparr>"
  shows "db_ok d' \<and> contents d' = contents d \<and> db_next_sequence d' = db_next_sequence d \<and> worker_frame d d'"
proof -
  let ?ss = "Snapshot_destroy s (db_snapshots d)"
  have inv: "ss_inv (db_snapshots d)" using ok by (simp add: db_ok_def)
  have ss: "ss_inv ?ss" "set_mset (pins ?ss) \<subseteq> set_mset (pins (db_snapshots d))"
    using Unregister_pins [OF inv, of "sn_sequence s"] inv by (auto simp: Snapshot_destroy_def dest: in_diffD)
  have "layers d' = layers d" "contents d' = contents d" "db_sound d' = db_sound d"
    by (simp_all add: d' layers_def contents_layers db_sound_def db_sources_def)
  then have "db_ok d'" using ok ss by (auto simp: db_ok_def layered_def sequences_bounded_def d')
  then show ?thesis using ss \<open>contents d' = contents d\<close> by (auto simp: d' worker_frame_def)
qed

section \<open>Publishing the worker's results\<close>

lemma flush_install_rest:
  "db_snapshots (flush_install wal built t db) = db_snapshots db" "db_registry (flush_install wal built t db) = db_registry db"
proof -
  define d where "d = (let db = db\<lparr>db_tables := db_tables db @ [t], db_immutable := None,
                 db_compaction_metrics := (db_compaction_metrics db)\<lparr>cm_flush_output_bytes :=
                   cm_flush_output_bytes (db_compaction_metrics db) + ti_file_size built\<rparr>\<rparr>;
          db = UpdateCompactionGauges db
      in db\<lparr>db_compaction_requested := (db_compaction_requested db \<or> NeedsBackgroundCompaction db),
                  db_write_metrics := (db_write_metrics db)
                    \<lparr>wm_background_queue_depth := 0, wm_immutable_memtable_bytes := 0\<rparr>\<rparr>)"
  obtain b d1 where r: "BestEffortRemove (WalFileName wal) d = (b, d1)" by fastforce
  have i: "flush_install wal built t db = (if b then BestEffortSyncDir d1 else d1)"
    using r by (simp add: flush_install_def d_def Let_def)
  have "quiet d (flush_install wal built t db)"
    unfolding i using files_only_quiet [OF BestEffortRemove_files [of d "WalFileName wal"]] files_only_quiet [OF BestEffortSyncDir_files [of d1]]
      r quiet_trans by auto
  then show "db_snapshots (flush_install wal built t db) = db_snapshots db" "db_registry (flush_install wal built t db) = db_registry db"
    by (simp_all add: quiet_def d_def Let_def)
qed

abbreviation small_tables :: "Db \<Rightarrow> bool" where
  "small_tables d \<equiv> \<forall>t \<in> set (db_tables d). length (ra_data (dt_file t)) < 2 ^ 32"

lemma flush_published_ok:
  assumes run: "flush_publish pb number wal built (properties, t) d = (r, d')" and ok: "db_ok d"
    and imm: "db_immutable d = Some imm" "table_written number (MemTable_Scan imm [] []) built t" and small: "small_tables d'"
  shows "db_ok d' \<and> contents d' = contents d \<and> db_next_sequence d' = db_next_sequence d \<and> db_cache d' = db_cache d \<and>
    db_registry d' = db_registry d \<and> db_snapshots d' = db_snapshots d"
proof (cases "r = Ok ()")
  case False
  note q = flush_publish_failed [OF run False]
  show ?thesis using quiet_ok [OF q] quiet_facts [OF q] q ok by (simp add: quiet_def)
next
  case True
  have pos: "\<forall>e \<in> set (mt_all imm). sequence e \<noteq> 0"
  proof
    fix e
    assume "e \<in> set (mt_all imm)"
    then have "e \<in> contents d" using imm(1) by (simp add: contents_def memory_def)
    then show "sequence e \<noteq> 0" using ok by (auto simp: db_ok_def sequences_bounded_def)
  qed
  obtain next' e where e: "db_publish pb next' d = (Ok (), e)" "d' = flush_install wal built t e"
    using run True by (auto simp: flush_publish_def Let_def op_bind_Ok_iff split: if_splits)
  then have e': "db_next_sequence e = db_next_sequence d" "db_cache e = db_cache d" "db_registry e = db_registry d" "db_snapshots e = db_snapshots d"
    using db_publish_Ok [OF e(1)] by auto
  have "t \<in> set (db_tables d')" by (simp add: e(2) flush_install_fields)
  then have s: "db_sound d'" "layers d' = layers d"
    using flush_publish_sound [OF run [unfolded True] _ imm(1,2) _ pos] small ok by (simp_all add: db_ok_def)
  have c: "contents d' = contents d" by (simp add: contents_layers s(2))
  have f: "db_next_sequence d' = db_next_sequence d" "db_cache d' = db_cache d" "db_registry d' = db_registry d" "db_snapshots d' = db_snapshots d"
    unfolding e(2) using e' by (simp_all add: flush_install_fields flush_install_rest)
  then show ?thesis using s c ok by (simp add: db_ok_def layered_def sequences_bounded_def)
qed

lemma erased_capacity: "bc_capacity (fold (\<lambda>meta. EraseTable (tm_file_number meta)) ms c) = bc_capacity c"
  by (induction ms arbitrary: c) (simp_all add: EraseTable_capacity)

text \<open>The versions of the first tables, in the order of a merge.\<close>

abbreviation first_versions :: "nat \<Rightarrow> Db \<Rightarrow> InternalEntry list" where
  "first_versions n d \<equiv> sort_versions (concat (map dt_entries (take n (db_tables d))))"

lemma installed_ok:
  assumes run: "install_compaction pb bg sel number c rt rep d = (r, d')" and ok: "db_ok d" "bc_capacity (db_cache d) \<noteq> 0"
    and rep: "replacement_holds number (retained c w Retention_start (first_versions (length sel) d)) rep" and small: "small_tables d'"
  shows "db_ok d' \<and> bc_capacity (db_cache d') = bc_capacity (db_cache d) \<and> db_registry d' = db_registry d \<and> db_immutable d' = db_immutable d \<and>
    db_next_sequence d' = db_next_sequence d \<and> pins (db_snapshots d') = pins (db_snapshots d) \<and>
    (\<forall>key s v. reader_allowed w (set (first_versions (length sel) d)) s \<longrightarrow> (live_value (contents d') key s v \<longleftrightarrow> live_value (contents d) key s v))"
proof (cases "r = Ok ()")
  case False
  note q = install_failed [OF run False]
  show ?thesis using quiet_ok [OF q] quiet_facts [OF q] q ok by (simp add: quiet_def)
next
  case True
  note f = install_fields [OF run [unfolded True]]
  have ok': "db_sound d" "layered d" using ok(1) by (simp_all add: db_ok_def)
  note i = install_step [OF run [unfolded True] ok' ok(2) refl rep small]
  have p: "pins (db_snapshots d') = pins (db_snapshots d)" "ss_inv (db_snapshots d') = ss_inv (db_snapshots d)"
    by (simp_all add: pins_def ss_inv_def f(10))
  have "sequences_bounded d'" using i ok(1) f(9) by (auto simp: db_ok_def sequences_bounded_def)
  then have "db_ok d'" using i ok(1) f(9) p by (simp add: db_ok_def)
  then show ?thesis using i f(3,4,9,12) p(1) by (simp add: erased_capacity)
qed

section \<open>The system\<close>

text \<open>
  The background worker has nothing in hand, has copied the sealed MemTable, has written the table of a flush and waits for
  the lock to publish it, has selected tables, or has merged them and waits for the lock.
\<close>

datatype worker_job =
    Idle
  | FlushChosen u64 u64 "InternalEntry list"
  | FlushReady u64 u64 BuiltTableInfo "BuiltTableInfo \<times> DbTable"
  | CompactChosen CompactionWork
  | CompactReady CompactionWork Retention "(TableMeta \<times> DbTable) option"

definition compacting :: "worker_job \<Rightarrow> bool" where
  "compacting w = (case w of CompactChosen _ \<Rightarrow> True | CompactReady _ _ _ \<Rightarrow> True | _ \<Rightarrow> False)"

text \<open>The worker shares the readers it selected with the database, so it sees what other threads left of their files.\<close>

definition shared_readers :: "CompactionWork \<Rightarrow> Db \<Rightarrow> CompactionWork" where
  "shared_readers work d = work\<lparr>cw_tables := take (length (cw_meta work)) (db_tables d)\<rparr>"

text \<open>The operations of a group that a commit applied: all, or none when it failed before the MemTable.\<close>

definition committed_operations :: "WriterRequest list \<Rightarrow> Db \<Rightarrow> Db \<Rightarrow> Operation list" where
  "committed_operations grp d d' =
     (if set (group_entries (db_next_sequence d) (group_operations grp)) \<subseteq> contents d' then group_operations grp else [])"

lemma committed_operations_eq:
  assumes "db_ok d" "ops \<in> {[], group_operations grp}" "contents d' = contents d \<union> set (group_entries (db_next_sequence d) ops)"
  shows "committed_operations grp d d' = ops"
proof (cases "ops = group_operations grp")
  case False
  then have g: "0 < length (group_operations grp)" "contents d' = contents d" using assms(2,3) by auto
  let ?e = "group_entries (db_next_sequence d) (group_operations grp) ! 0"
  have "sequence ?e = db_next_sequence d" "?e \<in> set (group_entries (db_next_sequence d) (group_operations grp))"
    using group_entries_nth [OF g(1)] g(1) by (simp_all add: nth_mem)
  moreover have "sequence e < db_next_sequence d" if "e \<in> contents d" for e
    using that assms(1) by (simp add: db_ok_def sequences_bounded_def)
  ultimately have "\<not> set (group_entries (db_next_sequence d) (group_operations grp)) \<subseteq> contents d'" using g(2) by fastforce
  then show ?thesis using False assms(2) by (simp add: committed_operations_def)
qed (use assms(3) in \<open>simp add: committed_operations_def\<close>)

text \<open>
  The steps, labelled with the operations they commit. A failed commit may have been applied or not, and the label tells.
  \<open>bookkeeping\<close> is any change of files, flags, counters and errors: the scheduling of the worker, \<open>Close\<close>, and a phase of
  the worker that fails and leaves it idle (lemmas \<open>flush_begin_quiet\<close>, \<open>flush_write_quiet\<close>, \<open>select_tables_quiet\<close>,
  \<open>compact_write_quiet\<close>). Tables are below 4 GiB, and reads and merges find their files readable. An explicit compaction
  does not run between the phases of a background compaction.
\<close>

inductive sys_step :: "Protobuf \<Rightarrow> (InternalEntry list \<Rightarrow> u64) \<Rightarrow> Db \<times> worker_job \<Rightarrow> Operation list \<Rightarrow> Db \<times> worker_job \<Rightarrow> bool"
  for pb charge where
  commit: "sys_step pb charge (d, w) (committed_operations grp d d') (d', w)" if "commit_group pb grp d = (r, d')"
| rotate: "sys_step pb charge (d, w) [] (d', w)" if "RotateMemTable pb d = (r, d')"
| get: "sys_step pb charge (d, w) [] (d', w)" if "Db_Get charge key s d = (v, d')" "db_readable d"
| new_iterator: "sys_step pb charge (d, w) [] (d', w)" if "Db_NewIterator charge beg end_key s d = Some (it, d')"
| take_snapshot: "sys_step pb charge (d, w) [] (d', w)" if "GetSnapshot d = (sn, d')"
| release_snapshot: "sys_step pb charge (d, w) [] (d\<lparr>db_snapshots := Snapshot_destroy s (db_snapshots d)\<rparr>, w)"
| bookkeeping: "sys_step pb charge (d, w) [] (d', w')" if "quiet d d'" "w' \<in> {w, Idle}"
| flush_chosen: "sys_step pb charge (d, Idle) [] (d', FlushChosen number wal entries)"
    if "flush_begin d = (Ok (Some (number, wal, entries)), d')"
| flush_written: "sys_step pb charge (d, FlushChosen number wal entries) [] (d', FlushReady number wal built verified)"
    if "flush_write charge number entries d = (Ok (built, verified), d')"
| flush_published: "sys_step pb charge (d, FlushReady number wal built verified) [] (d', Idle)"
    if "flush_publish pb number wal built verified d = (r, d')" "small_tables d'"
| merge_chosen: "sys_step pb charge (d, Idle) [] (d', CompactChosen work)"
    if "select_tables pb n True d = (Ok (Some work), d')"
| merge_written: "sys_step pb charge (d, CompactChosen work) [] (d', CompactReady work rt rep)"
    if "compact_write charge (shared_readers work d) d = Some (Ok (rt, rep), d')" "db_readable d"
| merge_published: "sys_step pb charge (d, CompactReady work rt rep) [] (d', Idle)"
    if "install_compaction pb True (cw_meta work) (cw_number work) (cw_covers_all work) rt rep d = (r, d')" "small_tables d'"
| compact_now: "sys_step pb charge (d, w) [] (d', w)"
    if "CompactTablePrefix pb charge id n False d = Some (r, d')" "db_readable d" "small_tables d'" "\<not> compacting w"

inductive_cases sys_stepE: "sys_step pb charge s ops s'"

text \<open>The invariant of the job: what the worker has in hand still fits the database.\<close>

definition job_ok :: "worker_job \<Rightarrow> Db \<Rightarrow> bool" where
  "job_ok w d =
     (case w of
        Idle \<Rightarrow> True
      | FlushChosen number wal entries \<Rightarrow> \<exists>imm. db_immutable d = Some imm \<and> entries = MemTable_Scan imm [] []
      | CompactChosen work \<Rightarrow> length (cw_meta work) \<le> length (db_tables d)
      | FlushReady number wal built verified \<Rightarrow>
          \<exists>imm. db_immutable d = Some imm \<and> table_written number (MemTable_Scan imm [] []) built (snd verified)
      | CompactReady work rt rep \<Rightarrow>
          \<exists>mark. replacement_holds (cw_number work)
              (retained (cw_covers_all work) mark Retention_start (first_versions (length (cw_meta work)) d)) rep \<and>
            (\<forall>s \<in># pins (db_snapshots d). reader_allowed mark (set (first_versions (length (cw_meta work)) d)) s))"

definition sys_ok :: "Db \<times> worker_job \<Rightarrow> bool" where
  "sys_ok \<sigma> = (case \<sigma> of (d, w) \<Rightarrow> db_ok d \<and> bc_capacity (db_cache d) \<noteq> 0 \<and> job_ok w d)"

text \<open>The abstract state: a map from keys to values. A database holds a map at a sequence if a reader there sees it.\<close>

definition holds_map :: "Db \<Rightarrow> u64 \<Rightarrow> (bytes \<rightharpoonup> bytes) \<Rightarrow> bool" where
  "holds_map d s f \<longleftrightarrow> (\<forall>key v. f key = Some v \<longleftrightarrow> live_value (contents d) key s v)"

fun apply_operation :: "Operation \<Rightarrow> (bytes \<rightharpoonup> bytes) \<Rightarrow> (bytes \<rightharpoonup> bytes)" where
  "apply_operation operation f =
     (if op_type operation = kPut then f(op_key operation \<mapsto> op_value operation) else f(op_key operation := None))"

definition apply_operations :: "Operation list \<Rightarrow> (bytes \<rightharpoonup> bytes) \<Rightarrow> (bytes \<rightharpoonup> bytes)" where
  "apply_operations = fold apply_operation"

section \<open>Committed operations\<close>

lemma live_value_above:
  assumes "\<forall>e \<in> V. sequence e \<le> s"
  shows "live_value V key s v \<longleftrightarrow> live_value V key (- 1) v"
  using assms by (auto simp: live_value_def visible_def word_order.extremum)

lemma visible_older: "\<forall>e \<in> E. s < sequence e \<Longrightarrow> visible (V \<union> E) key s e \<longleftrightarrow> visible V key s e"
  unfolding visible_def by (meson UnCI UnE linorder_not_less)

lemma live_value_older: "\<forall>e \<in> E. s < sequence e \<Longrightarrow> live_value (V \<union> E) key s v \<longleftrightarrow> live_value V key s v"
  by (simp add: live_value_def visible_older)

lemma visible_newest:
  assumes "\<forall>e \<in> V. sequence e < sequence a"
  shows "visible (insert a V) key (- 1) e \<longleftrightarrow> (if user_key a = key then e = a else visible V key (- 1) e)"
proof (cases "user_key a = key")
  case True
  have "visible (insert a V) key (- 1) a" using assms True by (auto simp: visible_def word_order.extremum intro: less_imp_le)
  moreover have "e = a" if "visible (insert a V) key (- 1) e"
  proof (rule ccontr)
    assume "e \<noteq> a"
    then have "sequence e < sequence a" "sequence a \<le> sequence e"
      using assms that True by (auto simp: visible_def word_order.extremum)
    then show False by simp
  qed
  ultimately show ?thesis using True by auto
qed (auto simp: visible_def)

lemma live_value_newest:
  assumes "\<forall>e \<in> V. sequence e < sequence a"
  shows "live_value (insert a V) key (- 1) v \<longleftrightarrow> (if user_key a = key then etype a = kValue \<and> evalue a = v else live_value V key (- 1) v)"
  by (simp add: live_value_def visible_newest [OF assms])

lemma committed_map:
  "length ops \<le> unat (- 1 - n :: u64) \<Longrightarrow> \<forall>e \<in> V. sequence e < n \<Longrightarrow> (\<forall>key v. f key = Some v \<longleftrightarrow> live_value V key (- 1) v) \<Longrightarrow>
     apply_operations ops f key = Some v \<longleftrightarrow> live_value (V \<union> set (group_entries n ops)) key (- 1) v"
proof (induction ops arbitrary: n V f)
  case (Cons op ops)
  let ?a = "\<lparr>user_key = op_key op, sequence = n, etype = (if op_type op = kPut then kValue else kTombstone), evalue = op_value op\<rparr>"
  have "unat (n + of_nat (length (op # ops))) = unat n + length (op # ops)" by (rule group_entries_last(3) [OF _ Cons.prems(1)]) simp
  then have "unat n + length (op # ops) \<le> max_u64" using unat_u64_le [of "n + of_nat (length (op # ops))"] by linarith
  then have u: "unat (n + 1) = Suc (unat n)" by (simp add: unat_word_ariths max_u64_def)
  then have less: "n < n + 1" by (simp add: word_less_nat_alt)
  have m: "unat (- 1 - k) = max_u64 - unat k" for k :: u64
    using unat_sub [of k "- 1"] by (simp add: max_u64_def unsigned_minus_1_eq_mask mask_eq_exp_minus_1)
  have len: "length ops \<le> unat (- 1 - (n + 1))" using Cons.prems(1) u unfolding m by simp
  have V: "\<forall>e \<in> insert ?a V. sequence e < n + 1" using Cons.prems(2) less by (auto intro: less_trans)
  have f: "\<forall>key v. apply_operation op f key = Some v \<longleftrightarrow> live_value (insert ?a V) key (- 1) v"
    using Cons.prems(2,3) live_value_newest [of V ?a] by (auto split: if_splits)
  show ?case using Cons.IH [OF len V f] by (simp add: apply_operations_def)
qed (simp add: apply_operations_def)

section \<open>Every step simulates the map\<close>

lemma bounded_pred: "db_ok d \<Longrightarrow> e \<in> contents d \<Longrightarrow> sequence e \<le> db_next_sequence d - 1"
proof -
  assume "db_ok d" "e \<in> contents d"
  then have e: "sequence e < db_next_sequence d" by (simp add: db_ok_def sequences_bounded_def)
  then have "unat (db_next_sequence d - 1) = unat (db_next_sequence d) - 1" by (subst unat_sub) (auto simp: word_le_nat_alt word_less_nat_alt)
  then show ?thesis using e by (simp add: word_le_nat_alt word_less_nat_alt)
qed

definition pinned_at :: "Db \<times> worker_job \<Rightarrow> u64 \<Rightarrow> bool" where
  "pinned_at \<sigma> s \<longleftrightarrow> s \<in># pins (db_snapshots (fst \<sigma>)) \<or> s = db_next_sequence (fst \<sigma>) - 1"

text \<open>The effect of a step on what readers see: now, and at a pinned or at the newest sequence.\<close>

definition effect :: "Db \<Rightarrow> Operation list \<Rightarrow> Db \<Rightarrow> bool" where
  "effect d ops d' \<longleftrightarrow> (\<forall>f. holds_map d (- 1) f \<longrightarrow> holds_map d' (- 1) (apply_operations ops f)) \<and>
     (\<forall>s f. (s \<in># pins (db_snapshots d) \<or> s = db_next_sequence d - 1) \<and> holds_map d s f \<longrightarrow> holds_map d' s f) \<and>
     db_registry d' = db_registry d"

lemma effect_same: "contents d' = contents d \<Longrightarrow> db_registry d' = db_registry d \<Longrightarrow> effect d [] d'"
  by (simp add: effect_def holds_map_def apply_operations_def)

lemma effect_commit:
  assumes ok: "db_ok d" and c: "contents d' = contents d \<union> set (group_entries (db_next_sequence d) ops)"
    and len: "length ops \<le> unat (- 1 - db_next_sequence d)" and reg: "db_registry d' = db_registry d"
  shows "effect d ops d'"
proof -
  let ?n = "db_next_sequence d"
  have old: "\<forall>e \<in> contents d. sequence e < ?n" using ok by (simp add: db_ok_def sequences_bounded_def)
  have "\<forall>e \<in> set (group_entries ?n ops). s < sequence e" if "s \<in># pins (db_snapshots d) \<or> s = ?n - 1" for s
  proof -
    have "s < ?n" using that ok below_next [of "?n - 1" ?n] by (auto simp: db_ok_def)
    then show ?thesis using group_entries_bounds [OF len] by (auto intro: less_le_trans)
  qed
  then have "live_value (contents d') key s v \<longleftrightarrow> live_value (contents d) key s v"
    if "s \<in># pins (db_snapshots d) \<or> s = ?n - 1" for key s v unfolding c using that by (intro live_value_older) blast
  moreover have "holds_map d' (- 1) (apply_operations ops f)" if "holds_map d (- 1) f" for f
    unfolding holds_map_def c using committed_map [OF len old, of f] that by (simp add: holds_map_def)
  ultimately show ?thesis using reg by (simp add: effect_def holds_map_def)
qed

lemma effect_reads:
  assumes "db_ok d" "V \<subseteq> contents d"
    "\<forall>key s v. reader_allowed mark V s \<longrightarrow> (live_value (contents d') key s v \<longleftrightarrow> live_value (contents d) key s v)"
    "\<forall>s \<in># pins (db_snapshots d). reader_allowed mark V s" "db_registry d' = db_registry d"
  shows "effect d [] d'"
proof -
  have "sequence e \<le> db_next_sequence d - 1" if "e \<in> V" for e using bounded_pred assms(1,2) that by blast
  then have "reader_allowed mark V (db_next_sequence d - 1)" "reader_allowed mark V (- 1)"
    by (auto simp: reader_allowed_def word_order.extremum)
  then show ?thesis using assms(3-5) by (auto simp: effect_def holds_map_def apply_operations_def)
qed

lemma job_kept:
  assumes f: "worker_frame d d'" and ok: "db_ok d" and j: "job_ok w d"
  shows "job_ok w d'"
proof (cases w)
  case (CompactReady work rt rep)
  let ?n = "length (cw_meta work)"
  have v: "first_versions ?n d' = first_versions ?n d" using f by (simp add: worker_frame_def take_map [symmetric])
  have sub: "set (first_versions ?n d) \<subseteq> contents d" by (auto simp: contents_def dest!: in_set_takeD)
  have "reader_allowed mark (set (first_versions ?n d)) s" if "db_next_sequence d - 1 \<le> s" for mark s
    using that sub bounded_pred [OF ok] unfolding reader_allowed_def by (meson order_trans subsetD)
  then show ?thesis using j f unfolding job_ok_def CompactReady worker_job.case v worker_frame_def by blast
qed (use assms in \<open>auto simp: job_ok_def worker_frame_def dest: map_eq_imp_length_eq\<close>)

lemma callers_ok: "sys_ok (d, w) \<Longrightarrow> db_ok d' \<Longrightarrow> worker_frame d d' \<Longrightarrow> sys_ok (d', w)"
  using job_kept by (auto simp: sys_ok_def) (simp add: worker_frame_def)

lemma first_versions_contents: "set (first_versions n d) \<subseteq> contents d"
  by (auto simp: contents_def dest!: in_set_takeD)

lemma pins_allowed: "db_ok d \<Longrightarrow> \<forall>s \<in># pins (db_snapshots d). reader_allowed (OldestOr no_snapshot (db_snapshots d)) V s"
  using pinned_allowed by (auto simp: db_ok_def)

lemma quiet_step:
  assumes "sys_ok (d, w)" and q: "quiet d d'"
  shows "sys_ok (d', w) \<and> effect d [] d'"
proof -
  have "db_ok d'" using assms(1) quiet_ok [OF q] by (simp add: sys_ok_def)
  then show ?thesis using callers_ok [OF assms(1) _ quiet_frame [OF q]] effect_same [OF quiet_facts(2) [OF q]] q by (auto simp: quiet_def)
qed

lemma flush_chosen_ok:
  assumes ok: "sys_ok (d, Idle)" and b: "flush_begin d = (Ok (Some (number, wal, entries)), d')"
  shows "sys_ok (d', FlushChosen number wal entries) \<and> effect d [] d'"
proof -
  note q = quiet_opD [OF flush_begin_quiet b]
  obtain imm where imm: "db_immutable d = Some imm" "entries = MemTable_Scan imm [] []"
    using b by (auto simp: flush_begin_def Let_def split: option.splits if_splits)
  then have "job_ok (FlushChosen number wal entries) d'" using q by (simp add: job_ok_def quiet_def)
  then show ?thesis using quiet_step [OF ok q] by (simp add: sys_ok_def)
qed

lemma flush_written_ok:
  assumes ok: "sys_ok (d, FlushChosen number wal entries)" and w: "flush_write charge number entries d = (Ok (built, verified), d')"
  shows "sys_ok (d', FlushReady number wal built verified) \<and> effect d [] d'"
proof -
  note q = quiet_opD [OF flush_write_quiet w]
  obtain imm where imm: "db_immutable d = Some imm" "entries = MemTable_Scan imm [] []" using ok by (auto simp: sys_ok_def job_ok_def)
  obtain p t where v: "verified = (p, t)" by fastforce
  have "table_written number entries built t" using flush_write_Ok [OF w [unfolded v]] by blast
  moreover have "db_immutable d' = Some imm" using q imm(1) by (simp add: quiet_def)
  ultimately have "job_ok (FlushReady number wal built verified) d'" using imm(2) v by (simp add: job_ok_def)
  then show ?thesis using quiet_step [OF ok q] by (simp add: sys_ok_def)
qed

lemma merge_chosen_ok:
  assumes ok: "sys_ok (d, Idle)" and s: "select_tables pb n True d = (Ok (Some work), d')"
  shows "sys_ok (d', CompactChosen work) \<and> effect d [] d'"
proof -
  note q = select_tables_quiet [OF s]
  have "length (cw_meta work) \<le> length (db_tables d)"
    using s by (auto simp: select_tables_def Let_def op_bind_Ok_iff op_simps split: if_splits)
  then have "job_ok (CompactChosen work) d'" using q by (simp add: job_ok_def quiet_def)
  then show ?thesis using quiet_step [OF ok q] by (simp add: sys_ok_def)
qed

lemma merge_written_ok:
  assumes ok: "sys_ok (d, CompactChosen work)" and w: "compact_write charge (shared_readers work d) d = Some (Ok (rt, rep), d')"
    and d: "db_readable d"
  shows "sys_ok (d', CompactReady work rt rep) \<and> effect d [] d'"
proof -
  let ?mark = "OldestOr no_snapshot (db_snapshots d)" and ?n = "length (cw_meta work)"
  have "?n \<le> length (db_tables d)" "db_ok d" using ok by (simp_all add: sys_ok_def job_ok_def)
  then have "no_duplicates (concat (map dt_entries (take ?n (db_tables d)) @ drop ?n (layers d)))"
    using sound_layers [of d] layers_split [of ?n d] by (simp add: db_ok_def)
  then have "no_duplicates (concat (map dt_entries (take ?n (db_tables d))))" by (simp add: no_duplicates_def)
  then have inputs: "\<forall>t \<in> set (cw_tables (shared_readers work d)). table_readable (db_cache d) t"
      "no_duplicates (concat (map dt_entries (cw_tables (shared_readers work d))))"
    using d by (auto simp: shared_readers_def db_readable_eq dest: in_set_takeD)
  have r: "quiet d d'" "replacement_holds (cw_number work) (retained (cw_covers_all work) ?mark Retention_start (first_versions ?n d)) rep"
    using compact_write_Ok [OF w inputs] by (auto simp: shared_readers_def kept_entries_def)
  have e: "db_tables d' = db_tables d" "db_snapshots d' = db_snapshots d" using r(1) by (simp_all add: quiet_def)
  have "job_ok (CompactReady work rt rep) d'"
    using r(2) pins_allowed [OF \<open>db_ok d\<close>, of "set (first_versions ?n d)"] unfolding job_ok_def worker_job.case e by blast
  then show ?thesis using quiet_step [OF ok r(1)] by (simp add: sys_ok_def)
qed

lemma merge_published_ok:
  assumes ok: "sys_ok (d, CompactReady work rt rep)" and small: "small_tables d'"
    and i: "install_compaction pb True (cw_meta work) (cw_number work) (cw_covers_all work) rt rep d = (r, d')"
  shows "sys_ok (d', Idle) \<and> effect d [] d'"
proof -
  have d: "db_ok d" "bc_capacity (db_cache d) \<noteq> 0" using ok by (simp_all add: sys_ok_def)
  obtain mark where m: "replacement_holds (cw_number work)
      (retained (cw_covers_all work) mark Retention_start (first_versions (length (cw_meta work)) d)) rep"
    "\<forall>s \<in># pins (db_snapshots d). reader_allowed mark (set (first_versions (length (cw_meta work)) d)) s"
    using ok by (auto simp: sys_ok_def job_ok_def)
  note s = installed_ok [OF i d m(1) small]
  have "effect d [] d'" by (rule effect_reads [OF d(1) first_versions_contents _ m(2)]) (use s in \<open>simp_all\<close>)
  then show ?thesis using s d(2) by (simp add: sys_ok_def job_ok_def)
qed

lemma compact_now_ok:
  assumes ok: "sys_ok (d, w)" and run: "CompactTablePrefix pb charge id n False d = Some (r, d')" and d: "db_readable d"
    and small: "small_tables d'" and w: "\<not> compacting w"
  shows "sys_ok (d', w) \<and> effect d [] d'"
proof -
  have o: "db_ok d" "bc_capacity (db_cache d) \<noteq> 0" using ok by (simp_all add: sys_ok_def)
  obtain x d1 where s: "select_tables pb n False d = (x, d1)" by fastforce
  note q1 = select_tables_quiet [OF s]
  show ?thesis
  proof (cases "\<exists>work rt rep d2. x = Ok (Some work) \<and> compact_write charge work d1 = Some (Ok (rt, rep), d2)")
    case False
    have "quiet d d'"
    proof (cases "\<exists>work. x = Ok (Some work)")
      case True
      then obtain work y d2 where y: "x = Ok (Some work)" "compact_write charge work d1 = Some (y, d2)"
        using run s by (auto simp: CompactTablePrefix_def compact_selected_def bind_eq_Some_conv)
      have "quiet d d2" using quiet_trans [OF q1 compact_write_quiet [OF y(2)]] .
      moreover have "d' = d2" using False run s y by (cases y) (auto simp: CompactTablePrefix_def compact_selected_def)
      ultimately show ?thesis by simp
    next
      case False
      then have "d' = d1" using run s by (cases x) (auto simp: CompactTablePrefix_def split: option.splits)
      then show ?thesis using q1 by simp
    qed
    then show ?thesis using quiet_step [OF ok] by blast
  next
    case True
    then obtain work rt rep d2 where c: "x = Ok (Some work)" "compact_write charge work d1 = Some (Ok (rt, rep), d2)" by blast
    let ?mark = "OldestOr no_snapshot (db_snapshots d)"
    have k: "quiet d d2" "length (cw_meta work) = n"
      "replacement_holds (cw_number work) (retained (cw_covers_all work) ?mark Retention_start (first_versions n d)) rep"
      using selected_written [OF s [unfolded c(1)] c(2) d] by blast+
    have i: "install_compaction pb False (cw_meta work) (cw_number work) (cw_covers_all work) rt rep d2 = (r, d')"
      using run s c by (simp add: CompactTablePrefix_def compact_selected_def)
    have e: "db_tables d2 = db_tables d" "db_snapshots d2 = db_snapshots d" "db_cache d2 = db_cache d" "db_immutable d2 = db_immutable d"
      "contents d2 = contents d" using k(1) quiet_facts(2) [OF k(1)] by (simp_all add: quiet_def)
    have o2: "db_ok d2" "bc_capacity (db_cache d2) \<noteq> 0" using quiet_ok [OF k(1)] o e(3) by simp_all
    have m: "replacement_holds (cw_number work) (retained (cw_covers_all work) ?mark Retention_start (first_versions (length (cw_meta work)) d2)) rep"
      using k(2,3) e(1) by simp
    note j = installed_ok [OF i o2 m small]
    have "effect d [] d'"
      by (rule effect_reads [OF o(1) first_versions_contents [of n] _ pins_allowed [OF o(1)]]) (use j k(1,2) e(1,5) in \<open>auto simp: quiet_def\<close>)
    moreover have "job_ok w d'" using ok w j e(4) by (cases w) (simp_all add: job_ok_def sys_ok_def compacting_def)
    ultimately show ?thesis using j o2(2) by (simp add: sys_ok_def)
  qed
qed

lemma caller_step: "sys_ok (d, w) \<Longrightarrow> db_ok d' \<and> contents d' = contents d \<and> db_next_sequence d' = db_next_sequence d \<and> worker_frame d d' \<Longrightarrow>
    sys_ok (d', w) \<and> effect d [] d'"
  using callers_ok effect_same by (auto simp: worker_frame_def)

lemma sys_step_ok:
  assumes "sys_step pb charge \<sigma> ops \<sigma>'" and "sys_ok \<sigma>"
  shows "sys_ok \<sigma>' \<and> effect (fst \<sigma>) ops (fst \<sigma>')"
  using assms(1)
proof cases
  case (commit grp d r d' w)
  have o: "sys_ok (d, w)" "db_ok d" using assms(2) commit(1) by (simp_all add: sys_ok_def)
  note k = commit_ok [OF commit(4) o(2)]
  then obtain ops where c: "ops \<in> {[], group_operations grp}" "length ops \<le> unat (- 1 - db_next_sequence d)"
    "contents d' = contents d \<union> set (group_entries (db_next_sequence d) ops)" by blast
  have "effect d ops d'" using effect_commit [OF o(2) c(3,2)] k by (simp add: worker_frame_def)
  then show ?thesis using callers_ok [OF o(1)] k commit(1-3) committed_operations_eq [OF o(2) c(1,3)] by simp
next
  case (rotate d r d' w)
  have o: "sys_ok (d, w)" "db_ok d" using assms(2) rotate(1) by (simp_all add: sys_ok_def)
  then show ?thesis using caller_step [OF o(1) rotation_ok [OF rotate(4) o(2)]] rotate(1-3) by simp
next
  case (get key s d v d' w)
  have o: "sys_ok (d, w)" "db_ok d" "bc_capacity (db_cache d) \<noteq> 0" using assms(2) get(1) by (simp_all add: sys_ok_def)
  then show ?thesis using caller_step [OF o(1) get_ok [OF get(4,5) o(3,2)]] get(1-3) by simp
next
  case (new_iterator beg end_key s d it d' w)
  then show ?thesis using assms(2) quiet_step new_iterator_quiet by simp
next
  case (take_snapshot d sn d' w)
  have o: "sys_ok (d, w)" "db_ok d" using assms(2) take_snapshot(1) by (simp_all add: sys_ok_def)
  then show ?thesis using caller_step [OF o(1), of d'] snapshot_ok [OF take_snapshot(4) o(2)] take_snapshot(1-3) by simp
next
  case (release_snapshot d w s)
  have o: "sys_ok (d, w)" "db_ok d" using assms(2) release_snapshot(1) by (simp_all add: sys_ok_def)
  then show ?thesis using caller_step [OF o(1) release_ok [OF o(2) refl]] release_snapshot(1-3) by simp
next
  case (bookkeeping d d' w' w)
  then show ?thesis using assms(2) quiet_step [of d w d'] by (auto simp: sys_ok_def job_ok_def)
next
  case (flush_chosen d number wal entries d')
  then show ?thesis using assms(2) flush_chosen_ok by simp
next
  case (flush_written number entries d built verified d' wal)
  then show ?thesis using assms(2) flush_written_ok by simp
next
  case (flush_published number wal built verified d r d')
  obtain p t where v: "verified = (p, t)" by fastforce
  obtain imm where "db_immutable d = Some imm" "table_written number (MemTable_Scan imm [] []) built t"
    using assms(2) flush_published(1) v by (auto simp: sys_ok_def job_ok_def)
  then have "db_ok d' \<and> contents d' = contents d \<and> db_next_sequence d' = db_next_sequence d \<and> db_cache d' = db_cache d \<and>
      db_registry d' = db_registry d \<and> db_snapshots d' = db_snapshots d"
    using assms(2) flush_published by (intro flush_published_ok [OF flush_published(4) [unfolded v]]) (simp_all add: sys_ok_def)
  then show ?thesis using assms(2) flush_published effect_same by (simp add: sys_ok_def job_ok_def)
next
  case (merge_chosen n d work d')
  then show ?thesis using assms(2) merge_chosen_ok by simp
next
  case (merge_written work d rt rep d')
  then show ?thesis using assms(2) merge_written_ok by simp
next
  case (merge_published work rt rep d r d')
  then show ?thesis using assms(2) merge_published_ok by simp
next
  case (compact_now n d r d' w)
  then show ?thesis using assms(2) compact_now_ok by simp
qed

lemma holds_now: "holds_map (fst \<sigma>) (- 1) f \<Longrightarrow> sys_step pb charge \<sigma> ops \<sigma>' \<Longrightarrow> sys_ok \<sigma> \<Longrightarrow> holds_map (fst \<sigma>') (- 1) (apply_operations ops f)"
  using sys_step_ok by (auto simp: effect_def)

text \<open>The database is an instance of the interfaces for simulations and for pinned observations.\<close>

interpretation key_value: pinned_observation "sys_step pb charge" sys_ok "\<lambda>\<sigma>. holds_map (fst \<sigma>) (- 1)" apply_operations pinned_at
    "\<lambda>\<sigma>. holds_map (fst \<sigma>)" for pb charge
proof
  show "sys_ok s'" if "sys_ok s" "sys_step pb charge s ls s'" for s ls s' using sys_step_ok [OF that(2,1)] by blast
  show "holds_map (fst s') (- 1) (apply_operations ls a)" if "sys_ok s" "sys_step pb charge s ls s'" "holds_map (fst s) (- 1) a" for s ls s' a
    using that holds_now by blast
  show "holds_map (fst s') k v" if "sys_ok s" "sys_step pb charge s ls s'" "pinned_at s k" "holds_map (fst s) k v" for s ls s' k v
    using sys_step_ok [OF that(2,1)] that(3,4) by (auto simp: effect_def pinned_at_def)
qed (simp_all add: apply_operations_def)

section \<open>An opened database\<close>

lemma opened_ok:
  assumes "Db_Open pb charge spawned registry path opts fs = (Ok db, fs')" "o_block_cache_bytes opts \<noteq> 0"
    and "\<forall>t \<in> set (db_tables db). distinct (map bm_offset (sr_blocks (dt_reader t)))"
  shows "sys_ok (db, Idle)"
proof -
  obtain d where o: "open_locked pb charge spawned d = (Ok (), db)" "db_immutable d = None" "bc_lru (db_cache d) = []" "bc_inv (db_cache d)"
    "bc_capacity (db_cache d) = o_block_cache_bytes opts" "db_snapshots d = SnapshotState_empty"
    by (rule Db_Open_Ok [OF assms(1)])
  note l = open_locked_Ok [OF o(1-4) assms(3)]
  show ?thesis using l o(5,6) assms(2) by (simp add: sys_ok_def job_ok_def db_ok_def)
qed

lemma opened_snapshots:
  assumes "Db_Open pb charge spawned registry path opts fs = (Ok db, fs')"
    and "\<forall>t \<in> set (db_tables db). distinct (map bm_offset (sr_blocks (dt_reader t)))"
  shows "db_snapshots db = SnapshotState_empty"
proof -
  obtain d where o: "open_locked pb charge spawned d = (Ok (), db)" "db_immutable d = None" "bc_lru (db_cache d) = []" "bc_inv (db_cache d)"
    "db_snapshots d = SnapshotState_empty"
    by (rule Db_Open_Ok [OF assms(1)])
  show ?thesis using open_locked_Ok(4) [OF o(1-4) assms(2)] o(5) by simp
qed

lemma read_here:
  assumes "sys_ok (d, w)" "\<forall>t \<in> set (db_tables d). reads_ok (ra_reads (dt_file t))" "CheckOpen d = kOk" "\<not> foreign_snapshot s d"
    "holds_map d (read_sequence s d) f"
  shows "\<exists>r d'. Db_Get charge key s d = (r, d') \<and> (\<forall>v. r = Ok v \<longleftrightarrow> f key = Some v) \<and> (r = Err kNotFound \<or> (\<exists>v. r = Ok v))"
proof -
  have "db_readable d" "bc_capacity (db_cache d) \<noteq> 0" using assms(1,2) by (simp_all add: sys_ok_def db_ok_def db_readable_def)
  from Db_Get_value [OF this assms(3,4), of charge key] show ?thesis using assms(5) by (auto simp: holds_map_def)
qed

lemma holds_latest: "db_ok d \<Longrightarrow> holds_map d (db_next_sequence d - 1) f \<longleftrightarrow> holds_map d (- 1) f"
  using live_value_above [of "contents d" "db_next_sequence d - 1"] bounded_pred by (simp add: holds_map_def)

lemma guarded_run_mono: "guarded_run step P s s' \<Longrightarrow> (\<And>s. P s \<Longrightarrow> Q s) \<Longrightarrow> guarded_run step Q s s'"
  by (induction rule: guarded_run.induct) (auto intro: guarded_run.intros)

lemma registry_kept: "guarded_run (sys_step pb charge) P \<sigma> \<sigma>' \<Longrightarrow> sys_ok \<sigma> \<Longrightarrow> db_registry (fst \<sigma>') = db_registry (fst \<sigma>)"
proof (induction rule: guarded_run.induct)
  case (guard_step s s' ls s'')
  then show ?case using sys_step_ok [OF guard_step(3)] key_value.invar_guarded_run [OF guard_step(1)] by (simp add: effect_def)
qed simp

text \<open>A successful commit leaves the errors and the flags of \<open>Close\<close> alone.\<close>

definition same_flags :: "Db \<Rightarrow> Db \<Rightarrow> bool" where
  "same_flags d d' \<longleftrightarrow> db_closed d' = db_closed d \<and> db_closing d' = db_closing d \<and> db_terminal_error d' = db_terminal_error d \<and>
     db_background_error d' = db_background_error d"

lemma same_flags_open: "same_flags d d' \<Longrightarrow> CheckOpen d' = CheckOpen d"
  by (auto simp: CheckOpen_def same_flags_def split: option.split)

lemma append_group_flags: "append_group es d = (r, d') \<Longrightarrow> same_flags d d'"
  by (auto simp: append_group_def on_wal_def same_flags_def split: option.splits prod.splits result.splits if_splits)

lemma rotation_flags: "RotateMemTable pb d = (Ok (), d') \<Longrightarrow> same_flags d d'"
proof (erule RotateMemTable_cases)
  fix h h' fs1 fs2 db3 r3
  assume p: "db_publish pb (rotation_snapshot (db_current d)) (d\<lparr>db_fs := fs2\<rparr>) = (r3, db3)"
    and r: "r3 = Ok () \<and> Ok () = Ok () \<and> d' = seal_memtable h' db3 \<or> r3 \<noteq> Ok () \<and> Ok () \<noteq> Ok () \<and> d' = db3"
  then have "r3 = Ok ()" "d' = seal_memtable h' db3" by auto
  moreover from db_publish_Ok [OF p [unfolded \<open>r3 = Ok ()\<close>]] obtain ms fs where "db3 = d\<lparr>db_manifest := ms, db_fs := fs\<rparr>" by auto
  then have "same_flags d db3" by (simp add: same_flags_def)
  ultimately show ?thesis
    by (simp add: seal_memtable_def Let_def BestEffortClose_def same_flags_def split: option.split prod.split)
qed (simp_all add: same_flags_def)

lemma commit_flags: "commit_group pb grp d = (Ok (), d') \<Longrightarrow> CheckOpen d' = CheckOpen d"
proof (rule same_flags_open, erule commit_group_cases)
  fix db1 m wm db2
  assume a: "append_group (group_entries (db_next_sequence d) (group_operations grp)) d = (Ok (), db1)"
    and 2: "db2 = db1\<lparr>db_next_sequence := db_next_sequence db1 + of_nat (length (group_operations grp)), db_memtable := m, db_write_metrics := wm\<rparr>"
    and r: "d' = db2 \<and> Ok () = Ok () \<or> RotateMemTable pb db2 = (Ok (), d')"
  have "same_flags d db2" using append_group_flags [OF a] by (simp add: 2 same_flags_def)
  then show "same_flags d d'" using r rotation_flags [of pb db2 d'] by (auto simp: same_flags_def)
qed simp_all

lemma commit_label:
  assumes "commit_group pb grp d = (Ok (), d')" "db_ok d"
  shows "committed_operations grp d d' = group_operations grp"
proof -
  from commit_ok [OF assms] have c: "contents d' = contents d \<union> set (group_entries (db_next_sequence d) (group_operations grp))" by auto
  show ?thesis by (rule committed_operations_eq [OF assms(2) _ c]) simp
qed

text \<open>A database that was just created, with one committed write.\<close>

lemma young_commit:
  assumes "young_database db" "sys_ok (db, Idle)"
  obtains db' where "commit_group pb [sample_request 1 7] db = (Ok (), db')"
    "labelled_run (sys_step pb charge) (db, Idle) (group_operations [sample_request 1 7]) (db', Idle)" "db_tables db' = []" "CheckOpen db' = kOk"
    "sys_ok (db', Idle)"
proof -
  obtain i w where w: "db_wal db = Some (i, w)" "ww_limits w = Limits sample_options" "wf_open (ww_file w)" "wf_writes (ww_file w) = []"
    "wf_syncs (ww_file w) = []" using assms(1) by (auto simp: young_database_def)
  obtain db' where c: "commit_group pb [sample_request 1 7] db = (Ok (), db')"
    using sample_commit_ok [OF _ _ _ w, of pb 1 7] assms(1) by (auto simp: young_database_def)
  have ok: "db_ok db" using assms(2) by (simp add: sys_ok_def)
  note k = commit_ok [OF c ok]
  have "sys_step pb charge (db, Idle) (group_operations [sample_request 1 7]) (db', Idle)"
    using sys_step.commit [OF c, of charge Idle] commit_label [OF c ok] by simp
  then have "labelled_run (sys_step pb charge) (db, Idle) ([] @ group_operations [sample_request 1 7]) (db', Idle)"
    by (rule labelled_run.more_steps [OF labelled_run.stop])
  moreover have "map dt_entries (db_tables db') = []" using k assms(1) by (simp add: worker_frame_def young_database_def)
  moreover have "CheckOpen db' = kOk" using commit_flags [OF c] assms(1) by (simp add: young_database_def CheckOpen_def)
  ultimately show thesis using that [OF c] callers_ok [OF assms(2)] k by simp
qed

lemma young_snapshot:
  assumes "young_database db" "sys_ok (db, Idle)" "db_snapshots db = SnapshotState_empty"
  shows "\<exists>s d1. GetSnapshot db = (Ok s, d1) \<and> young_database d1"
  using assms(1,3)
  by (simp add: GetSnapshot_def RecordReadLockWait_def young_database_def CheckOpen_def TryRegister_def SnapshotState_empty_def sample_options_def Let_def)

lemma young_map: "young_database db \<Longrightarrow> holds_map db s Map.empty"
  by (simp add: holds_map_def live_value_def visible_def contents_def memory_def young_database_def)

lemma sample_map: "apply_operations (group_operations [sample_request 1 7]) Map.empty [7] = Some [7]"
  by (simp add: apply_operations_def group_operations_def sample_request_def)

section \<open>Properties\<close>







end
