(* ===== verification/Db_Writers.thy ===== *)
theory Db_Writers
  imports Db_System
begin

text \<open>
  The public operations of \<open>Db_Lifecycle\<close> as clients of the system of \<open>Db_System\<close>: whatever the other threads do, as
  long as they act through the steps of the system, a thread that drains the writer queue performs a run of the system in
  which every request it reports as successful is committed, and \<open>Close\<close> ends the service without changing what
  the database holds.
\<close>

section \<open>Other threads\<close>

text \<open>
  What other threads do to the database is a run of the system. While a leader drains the queue, they only add requests
  and start or stop admission.
\<close>

definition acts :: "Protobuf \<Rightarrow> (InternalEntry list \<Rightarrow> u64) \<Rightarrow> (Db \<Rightarrow> Db) \<Rightarrow> bool" where
  "acts pb charge f \<longleftrightarrow> (\<forall>d w. sys_ok (d, w) \<longrightarrow> (\<exists>ops w'. labelled_run (sys_step pb charge) (d, w) ops (f d, w')))"

definition joins_queue :: "WriterQueue \<Rightarrow> WriterQueue \<Rightarrow> bool" where
  "joins_queue q q' \<longleftrightarrow> (\<exists>late. wq_queue q' = wq_queue q @ late) \<and> wq_completed q' = wq_completed q \<and> wq_group q' = wq_group q \<and>
     wq_leader q' = wq_leader q"

definition fellow_threads :: "Protobuf \<Rightarrow> (InternalEntry list \<Rightarrow> u64) \<Rightarrow> (nat \<Rightarrow> shared \<Rightarrow> shared) \<Rightarrow> bool" where
  "fellow_threads pb charge env \<longleftrightarrow>
     (\<forall>n q. acts pb charge (\<lambda>d. snd (env n (q, d))) \<and> (\<forall>d. joins_queue q (fst (env n (q, d)))))"

text \<open>The steps of the writer queue that are not the leader's own are of this kind.\<close>

lemma joins_queue_steps:
  "joins_queue q q" "wq_leader q \<Longrightarrow> joins_queue q (admit r q)" "joins_queue q (q\<lparr>wq_stopping := b\<rparr>)"
  by (simp_all add: joins_queue_def admit_def)

lemma labelled_run_trans:
  "labelled_run step s' ls' s'' \<Longrightarrow> labelled_run step s ls s' \<Longrightarrow> labelled_run step s (ls @ ls') s''"
proof (induction rule: labelled_run.induct)
  case (more_steps s' l1 t l2 u)
  then show ?case using labelled_run.more_steps [of step s "ls @ l1" t l2 u] by simp
qed simp

lemma one_step: "sys_step pb charge s ls s' \<Longrightarrow> labelled_run (sys_step pb charge) s ls s'"
  using labelled_run.more_steps [OF labelled_run.stop] by fastforce

lemma quiet_run: "quiet d d' \<Longrightarrow> labelled_run (sys_step pb charge) (d, w) [] (d', w)"
  by (rule one_step) (simp add: sys_step.bookkeeping)

lemma acts_id: "acts pb charge (\<lambda>d. d)"
  unfolding acts_def by (blast intro: labelled_run.stop)

text \<open>The system can get from one state to another by committing operations of some kind.\<close>

definition performs :: "Protobuf \<Rightarrow> (InternalEntry list \<Rightarrow> u64) \<Rightarrow> (Operation list \<Rightarrow> bool) \<Rightarrow> Db \<Rightarrow> Db \<Rightarrow> bool" where
  "performs pb charge Q d d' \<longleftrightarrow>
     (\<forall>w. sys_ok (d, w) \<longrightarrow> (\<exists>ops w'. labelled_run (sys_step pb charge) (d, w) ops (d', w') \<and> Q ops))"

lemma performs_trans:
  assumes "performs pb charge Q d d1" "performs pb charge R d1 d2" and S: "\<And>a b. Q a \<Longrightarrow> R b \<Longrightarrow> S (a @ b)"
  shows "performs pb charge S d d2"
  unfolding performs_def
proof (intro allI impI)
  fix w
  assume ok: "sys_ok (d, w)"
  then obtain a w1 where 1: "labelled_run (sys_step pb charge) (d, w) a (d1, w1)" "Q a" using assms(1) by (auto simp: performs_def)
  have "sys_ok (d1, w1)" by (rule key_value.invar_run [OF 1(1) ok])
  then obtain b w2 where 2: "labelled_run (sys_step pb charge) (d1, w1) b (d2, w2)" "R b" using assms(2) by (auto simp: performs_def)
  show "\<exists>ops w'. labelled_run (sys_step pb charge) (d, w) ops (d2, w') \<and> S ops"
    using labelled_run_trans [OF 2(1) 1(1)] S [OF 1(2) 2(2)] by blast
qed

lemma performs_quiet: "quiet d d' \<Longrightarrow> performs pb charge (\<lambda>ops. ops = []) d d'"
  unfolding performs_def using quiet_run by blast

lemma performs_rotate: "RotateMemTable pb d = (r, d') \<Longrightarrow> performs pb charge (\<lambda>ops. ops = []) d d'"
  unfolding performs_def using one_step [OF sys_step.rotate] by blast

lemma performs_acts: "acts pb charge f \<Longrightarrow> performs pb charge (\<lambda>ops. True) d (f d)"
  by (simp add: performs_def acts_def)

lemma performs_weaken: "performs pb charge Q d d' \<Longrightarrow> (\<And>ops. Q ops \<Longrightarrow> R ops) \<Longrightarrow> performs pb charge R d d'"
  unfolding performs_def by blast

lemma performs_commit:
  assumes "commit_group pb grp d = (r, d')"
  shows "performs pb charge (\<lambda>ops. r = Ok () \<longrightarrow> ops = group_operations grp) d d'"
  unfolding performs_def
proof (intro allI impI)
  fix w
  assume "sys_ok (d, w)"
  then have "r = Ok () \<longrightarrow> committed_operations grp d d' = group_operations grp" using commit_label assms by (auto simp: sys_ok_def)
  then show "\<exists>ops w'. labelled_run (sys_step pb charge) (d, w) ops (d', w') \<and> (r = Ok () \<longrightarrow> ops = group_operations grp)"
    using one_step [OF sys_step.commit [OF assms]] by blast
qed

section \<open>Applying a group\<close>

lemma backpressure_performs:
  assumes "backpressure others d = Some d'" and "acts pb charge others"
  shows "performs pb charge (\<lambda>ops. True) d d'"
proof (rule backpressure.raw_induct [where P = "\<lambda>others d d'. acts pb charge others \<longrightarrow> performs pb charge (\<lambda>ops. True) d d'",
      OF _ assms(1), THEN mp, OF _ assms(2)], goal_cases)
  case (1 rec others d d')
  have q: "performs pb charge (\<lambda>ops. ops = []) d (count_wait d)" by (rule performs_quiet) (simp add: count_wait_def)
  let ?d1 = "if wait_over (count_wait d) then count_wait d else others (count_wait d)"
  have "performs pb charge (\<lambda>ops. True) d ?d1" if "acts pb charge others"
    using performs_weaken [OF q] performs_trans [OF q performs_acts [OF that]] by simp
  then show ?case using 1 performs_trans [of pb charge "\<lambda>_. True" d ?d1 "\<lambda>_. True" d' "\<lambda>_. True"] performs_quiet [OF quiet_refl, of pb charge d]
    by (auto split: if_splits intro: performs_weaken)
qed

lemma apply_group_performs:
  assumes run: "ApplyWriteGroup pb others grp d = Some (r, d')" and a: "acts pb charge others" and grp: "grp \<noteq> []"
  shows "performs pb charge (\<lambda>ops. r = Ok () \<longrightarrow> (\<exists>before. ops = before @ group_operations grp)) d d'"
proof -
  let ?d0 = "d\<lparr>db_read_metrics := (db_read_metrics d)\<lparr>rm_write_lock_acquisitions := rm_write_lock_acquisitions (db_read_metrics d) + 1\<rparr>\<rparr>"
  obtain d1 where b: "backpressure others ?d0 = Some d1"
    using run grp by (auto simp: ApplyWriteGroup_def PrepareForWrite_def Let_def bind_eq_Some_conv)
  have p1: "performs pb charge (\<lambda>ops. True) d d1"
    using performs_trans [OF performs_quiet [OF quiet_update(2)] backpressure_performs [OF b a]] by simp
  obtain x d2 where x: "PrepareForWrite pb others ?d0 = Some (x, d2)" using b by (cases "the (PrepareForWrite pb others ?d0)") (simp add: PrepareForWrite_def)
  have "performs pb charge (\<lambda>ops. ops = []) d1 d2"
    using x b performs_rotate [of pb d1 x d2 charge] performs_quiet [OF quiet_refl, of pb charge d1]
    by (auto simp: PrepareForWrite_def Let_def split: if_splits)
  then have p2: "performs pb charge (\<lambda>ops. True) d d2" using performs_trans [OF p1] by simp
  show ?thesis
  proof (cases "x = Ok ()")
    case True
    then have "commit_group pb grp d2 = (r, d')" using run x grp by (simp add: ApplyWriteGroup_def Let_def)
    then show ?thesis by (intro performs_trans [OF p2 performs_commit]) auto
  next
    case False
    then have "d' = d2" "r \<noteq> Ok ()" using run x grp by (cases x; simp add: ApplyWriteGroup_def Let_def)+
    then show ?thesis using performs_weaken [OF p2] by simp
  qed
qed

text \<open>A failure never carries the code of success, so the status a caller is given tells whether its group was applied.\<close>

definition honest :: "('s, 'a) op \<Rightarrow> bool" where
  "honest m \<longleftrightarrow> (\<forall>s. result_wf (fst (m s)))"

lemma honest_bind: "honest m \<Longrightarrow> (\<And>x. honest (g x)) \<Longrightarrow> honest (op_bind m g)"
  unfolding honest_def op_bind_def by (smt (verit) fst_conv prod.case_eq_if result.exhaust result.simps result_wf.simps)

lemma honest_files [simp]:
  "honest m \<Longrightarrow> honest (syscall m)" "honest (on_handle f h)" "honest (OpenWritable name a)" "honest (handle_Append d h)"
  "honest (handle_Sync h)" "honest (handle_Close h)" "honest (Rename p q)" "honest SyncDir" "honest n \<Longrightarrow> honest (on_fs n)"
proof -
  show sys: "honest (syscall m)" if "honest m" for m :: "(FileSystem, 'c) op"
    using that by (simp add: honest_def syscall_def split: prod.split)
  show h: "honest (on_handle f h)" for f h by (simp add: honest_def on_handle_def split: prod.split)
  show "honest (OpenWritable name a)" unfolding OpenWritable_def by (rule sys) (auto simp: honest_def split: prod.split option.split)
  show "honest (handle_Append d h)" "honest (handle_Close h)" by (simp_all add: handle_Append_def handle_Close_def h)
  show "honest (handle_Sync h)" unfolding handle_Sync_def by (rule honest_bind [OF h]) (simp add: honest_def)
  show "honest (Rename p q)" unfolding Rename_def by (rule sys) (auto simp: honest_def split: option.split)
  have "honest (\<lambda>fs. (Ok () :: unit result, fs :: FileSystem))" by (simp add: honest_def)
  from sys [OF this] have "honest (\<lambda>fs. syscall (\<lambda>fs. (Ok (), fs)) (fs\<lparr>fs_past := []\<rparr>))" by (simp add: honest_def)
  then show "honest SyncDir" unfolding SyncDir_def by (intro sys)
  show "honest (on_fs n)" if "honest n" using that by (auto simp: honest_def on_fs_def split: prod.split) (metis fst_conv)
qed

lemma db_publish_honest: "honest (db_publish pb next)"
  unfolding honest_def
proof
  fix db
  have e: "c \<noteq> kOk" if "Encode pb next = Err c" for c using that by (auto simp: Encode_def Let_def split: if_splits option.splits)
  have w: "honest (write_temp bytes)" for bytes unfolding write_temp_def by (intro honest_bind honest_files)
  have t: "c \<noteq> kOk" if "write_temp bytes fs = (Err c, fs')" for bytes fs fs' c
    using w [of bytes] that by (auto simp: honest_def dest!: spec [of _ fs])
  have y: "c \<noteq> kOk" if "SyncDir fs = (Err c, fs')" for fs fs' c using honest_files(8) that by (auto simp: honest_def dest!: spec [of _ fs])
  show "result_wf (fst (db_publish pb next db))"
    by (auto simp: db_publish_def Publish_def Let_def NotPublished_def VisibleNotDurable_def Durable_def dest: e t y
        split: result.split prod.split)
qed

lemma rotate_honest: "honest (RotateMemTable pb)"
proof -
  have "honest (op_bind (on_fs (OpenWritable name False)) (\<lambda>h. op_bind (on_fs (handle_Sync h)) (\<lambda>h.
      op_bind (db_publish pb next) (\<lambda>_ db. (Ok (), seal_memtable h db)))))" for name "next"
    by (intro honest_bind honest_files db_publish_honest) (simp_all add: honest_def)
  then show ?thesis by (simp add: honest_def RotateMemTable_def Let_def)
qed

lemma append_group_honest: "honest (append_group es)"
  by (auto simp: honest_def append_group_def on_wal_def WalWriter_AppendBatch_def append_encoded_def apfst_def map_prod_def WalWriter_Sync_def
      split: option.split prod.splits result.split)

lemma commit_honest: "result_wf (fst (commit_group pb grp d))"
proof -
  have bind: "result_wf (fst (op_bind (append_group es) g d))" if "\<And>x d. result_wf (fst (g x d))" for es and g :: "unit \<Rightarrow> (Db, unit) op"
    using honest_bind [OF append_group_honest, of g es] that by (simp add: honest_def)
  have rot: "result_wf (fst (RotateMemTable pb d))" for d using rotate_honest by (simp add: honest_def)
  show ?thesis
    unfolding commit_group_def by (auto simp: Let_def rot intro!: bind split: option.split prod.split)
qed

lemma apply_group_honest: "ApplyWriteGroup pb others grp d = Some (r, d') \<Longrightarrow> result_wf r"
proof -
  assume run: "ApplyWriteGroup pb others grp d = Some (r, d')"
  have p: "result_wf x" if r: "PrepareForWrite pb others d1 = Some (x, d2)" for x d1 d2
  proof -
    obtain e where "backpressure others d1 = Some e" using r by (cases "backpressure others d1") (auto simp: PrepareForWrite_def)
    then show ?thesis using r rotate_honest [of pb] fst_conv [of x d2]
      by (auto simp: PrepareForWrite_def Let_def honest_def split: if_splits) (metis fst_conv)
  qed
  show ?thesis
  proof (cases "grp = []")
    case False
    then obtain x d1 d2 where x: "PrepareForWrite pb others d1 = Some (x, d2)"
      "Some (r, d') = (case x of Ok _ \<Rightarrow> Some (commit_group pb grp d2) | Err c \<Rightarrow> Some (Err c, d2) | UB \<Rightarrow> Some (UB, d2))"
      using run by (auto simp: ApplyWriteGroup_def Let_def bind_eq_Some_conv)
    then show ?thesis using p [OF x(1)] commit_honest [of pb grp d2] by (cases x) (auto dest: sym)
  qed (use run in \<open>auto simp: ApplyWriteGroup_def\<close>)
qed

section \<open>Draining the queue\<close>

lemma take_group_front: "take_group opts grp gb n queue b = (grp', rest, b') \<Longrightarrow> \<exists>t. queue = t @ rest \<and> grp' = grp @ t"
  by (induction opts grp gb n queue b rule: take_group.induct) (auto split: if_splits)

lemma form_group_front:
  "wq_queue q = wq_group (form_group opts q) @ wq_queue (form_group opts q)" "wq_completed (form_group opts q) = wq_completed q"
  "wq_queue q \<noteq> [] \<Longrightarrow> wq_group (form_group opts q) \<noteq> []"
proof -
  obtain grp rest b where t: "take_group opts [] 0 0 (wq_queue q) (wq_bytes q) = (grp, rest, b)" by (metis prod_cases3)
  from take_group_front [OF t] take_group_nonempty [OF t] t
  show "wq_queue q = wq_group (form_group opts q) @ wq_queue (form_group opts q)" "wq_completed (form_group opts q) = wq_completed q"
    "wq_queue q \<noteq> [] \<Longrightarrow> wq_group (form_group opts q) \<noteq> []" by (auto simp: form_group_def)
qed

text \<open>What a caller is told: a request that succeeded is one consecutive part of the committed operations.\<close>

definition committed_in :: "WriterRequest \<Rightarrow> Operation list \<Rightarrow> bool" where
  "committed_in r ops \<longleftrightarrow> (\<exists>a b. ops = a @ wr_batch r @ b)"

lemma committed_in_append: "committed_in r ops \<Longrightarrow> committed_in r (a @ ops @ b)"
  unfolding committed_in_def by (metis append.assoc)

lemma committed_in_group: "r \<in> set grp \<Longrightarrow> committed_in r (group_operations grp)"
  unfolding committed_in_def group_operations_def by (auto dest!: split_list) blast

lemma map_of_same: "map_of (map (\<lambda>r. (r, c)) rs) r = (if r \<in> set rs then Some c else None)"
  by (induction rs) auto

definition answered :: "WriterQueue \<Rightarrow> WriterQueue \<Rightarrow> Operation list \<Rightarrow> bool" where
  "answered q q' ops \<longleftrightarrow>
     (\<forall>r \<in> set (wq_queue q). map_of (wq_completed q) r = None \<longrightarrow> (\<exists>c. map_of (wq_completed q') r = Some c \<and> (c = kOk \<longrightarrow> committed_in r ops))) \<and>
     (\<forall>r c. map_of (wq_completed q) r = Some c \<longrightarrow> map_of (wq_completed q') r = Some c)"

lemma group_answered:
  assumes q1: "joins_queue (form_group opts q) q1" and q2: "joins_queue q1 q2" and rest: "answered (complete_group c q2) q' ops'"
    and ok: "c = kOk \<longrightarrow> (\<exists>before. ops = before @ group_operations (wq_group (form_group opts q)))"
  shows "answered q q' (ops @ mid @ ops')"
proof -
  let ?grp = "wq_group (form_group opts q)"
  have g: "wq_group q2 = ?grp" "wq_completed q2 = wq_completed q" using q1 q2 form_group_front(2) [of opts q] by (simp_all add: joins_queue_def)
  obtain late where late: "wq_queue q2 = wq_queue (form_group opts q) @ late" using q1 q2 by (auto simp: joins_queue_def)
  have settled: "map_of (wq_completed (complete_group c q2)) r =
      (case map_of (wq_completed q) r of Some x \<Rightarrow> Some x | None \<Rightarrow> if r \<in> set ?grp then Some c else None)" for r
    using g by (auto simp: complete_group_def map_add_def map_of_same split: option.splits)
  show ?thesis unfolding answered_def
  proof (intro conjI ballI impI allI)
    fix r
    assume r: "r \<in> set (wq_queue q)" "map_of (wq_completed q) r = None"
    show "\<exists>c. map_of (wq_completed q') r = Some c \<and> (c = kOk \<longrightarrow> committed_in r (ops @ mid @ ops'))"
    proof (cases "r \<in> set ?grp")
      case True
      then have "map_of (wq_completed q') r = Some c" using rest r(2) settled [of r] by (simp add: answered_def)
      moreover have "committed_in r (ops @ mid @ ops')" if "c = kOk"
        using ok that committed_in_append [OF committed_in_group [OF True]] by fastforce
      ultimately show ?thesis by blast
    next
      case False
      then have "r \<in> set (wq_queue (complete_group c q2))" using r(1) form_group_front(1) [of q opts] late by (auto simp: complete_group_def)
      then show ?thesis
        using rest settled [of r] r(2) False committed_in_append [of r ops' "ops @ mid" "[]"] by (fastforce simp: answered_def)
    qed
  next
    fix r x
    assume "map_of (wq_completed q) r = Some x"
    then show "map_of (wq_completed q') r = Some x" using rest settled [of r] by (simp add: answered_def)
  qed
qed

text \<open>One round of the leader, and the whole drain.\<close>

lemma round_performs:
  assumes o: "acts pb charge (others n)" and e: "fellow_threads pb charge env" and q: "wq_queue q \<noteq> []"
    and 1: "env n (form_group opts q, set_queue_depth k d) = (q1, d1)"
    and a: "ApplyWriteGroup pb (others n) (wq_group (form_group opts q)) d1 = Some (r, d2)" "r \<noteq> UB"
    and 3: "env (n + 1) (q1, d2) = (q2, d3)"
    and rest: "performs pb charge (answered (complete_group (status_of r) q2) q') d3 d'"
  shows "performs pb charge (answered q q') d d'"
proof -
  have j: "joins_queue (form_group opts q) q1" "joins_queue q1 q2"
    and p1: "performs pb charge (\<lambda>ops. True) (set_queue_depth k d) d1" and p3: "performs pb charge (\<lambda>ops. True) d2 d3"
    using e 1 3 performs_acts [of pb charge "\<lambda>d. snd (env n (form_group opts q, d))" "set_queue_depth k d"]
      performs_acts [of pb charge "\<lambda>d. snd (env (n + 1) (q1, d))" d2] by (auto simp: fellow_threads_def) (metis fst_conv)+
  have p2: "performs pb charge (\<lambda>ops. r = Ok () \<longrightarrow> (\<exists>before. ops = before @ group_operations (wq_group (form_group opts q)))) d1 d2"
    by (rule apply_group_performs [OF a(1) o form_group_front(3) [OF q]])
  have "performs pb charge (\<lambda>ops. True) d d1" using performs_trans [OF performs_quiet p1] by (simp add: set_queue_depth_def)
  then have "performs pb charge (\<lambda>ops. r = Ok () \<longrightarrow> (\<exists>before. ops = before @ group_operations (wq_group (form_group opts q)))) d d2"
    by (rule performs_trans [OF _ p2]) (auto intro: append.assoc [symmetric])
  moreover have "performs pb charge (\<lambda>ops. \<exists>mid ops'. ops = mid @ ops' \<and> answered (complete_group (status_of r) q2) q' ops') d2 d'"
    by (rule performs_trans [OF p3 rest]) blast
  ultimately show ?thesis
  proof (rule performs_trans)
    fix ops tail
    assume "r = Ok () \<longrightarrow> (\<exists>before. ops = before @ group_operations (wq_group (form_group opts q)))"
      and "\<exists>mid ops'. tail = mid @ ops' \<and> answered (complete_group (status_of r) q2) q' ops'"
    moreover have "status_of r = kOk \<longrightarrow> r = Ok ()" using a(2) apply_group_honest [OF a(1)] by (cases r) (auto simp: status_of_def)
    ultimately show "answered q q' (ops @ tail)" using group_answered [OF j] by blast
  qed
qed

lemma drain_performs:
  assumes run: "DrainWriterQueue pb others env n s = Some (u, m, q', d')" and o: "\<And>n. acts pb charge (others n)" and e: "fellow_threads pb charge env"
    and u: "u \<noteq> UB"
  shows "performs pb charge (answered (fst s) q') (snd s) d' \<and> wq_queue q' = [] \<and> \<not> wq_leader q'"
proof -
  let ?P = "\<lambda>s q' d'. performs pb charge (answered (fst s) q') (snd s) d' \<and> wq_queue q' = [] \<and> \<not> wq_leader q'"
  have "pb = pb \<longrightarrow> others = others \<longrightarrow> env = env \<longrightarrow> u \<noteq> UB \<longrightarrow> ?P s q' d'"
  proof (rule DrainWriterQueue.raw_induct [where P = "\<lambda>p oth ev n s (u, m, q', d'). p = pb \<longrightarrow> oth = others \<longrightarrow> ev = env \<longrightarrow> u \<noteq> UB \<longrightarrow> ?P s q' d'",
        OF _ run, unfolded prod.case], goal_cases)
    case (1 rec p oth ev n s y)
    obtain q d u m q' d' where s: "s = (q, d)" "y = (u, m, q', d')" by (metis prod_cases4 surj_pair)
    have "?P s q' d'" if p: "p = pb" "oth = others" "ev = env" "u \<noteq> UB"
    proof (cases "wq_queue q = []")
      case True
      then have "q' = q\<lparr>wq_leader := False\<rparr>" "d' = set_queue_depth 0 d" using 1(2) s by auto
      then show ?thesis using True s performs_weaken [OF performs_quiet [of d "set_queue_depth 0 d"]]
        by (simp add: answered_def set_queue_depth_def)
    next
      case False
      let ?f = "form_group (db_options d) q"
      obtain q1 d1 where e1: "env n (?f, set_queue_depth (length (wq_queue ?f)) d) = (q1, d1)" by fastforce
      obtain r d2 where 2: "ApplyWriteGroup pb (others n) (wq_group ?f) d1 = Some (r, d2)"
        using 1(2) False p by (auto simp: s e1 bind_eq_Some_conv)
      obtain q2 d3 where 3: "env (n + 1) (q1, d2) = (q2, d3)" by fastforce
      have nub: "r \<noteq> UB" using 1(2) False p e1 2 by (auto simp: s)
      then have "rec pb others env (n + 2) (complete_group (status_of r) q2, d3) = Some (u, m, q', d')"
        using 1(2) False p e1 2 3 by (simp add: s)
      from 1(1) [OF this] have "?P (complete_group (status_of r) q2, d3) q' d'" using p(4) by simp
      then show ?thesis using round_performs [where others = others and n = n, OF o e False e1 2 nub 3] s by simp
    qed
    then show ?case by (simp add: s)
  qed
  then show ?thesis using u by simp
qed

section \<open>A write without contention\<close>

lemma apply_group_uncontended:
  assumes grp: "grp \<noteq> []" and free: "db_immutable d = None \<or> \<not> memtable_full d"
  obtains r d' where "ApplyWriteGroup pb others grp d = Some (r, d')"
    "performs pb charge (\<lambda>ops. r = Ok () \<longrightarrow> ops = group_operations grp) d d'"
proof -
  let ?d0 = "d\<lparr>db_read_metrics := (db_read_metrics d)\<lparr>rm_write_lock_acquisitions := rm_write_lock_acquisitions (db_read_metrics d) + 1\<rparr>\<rparr>"
  have b: "backpressure others ?d0 = Some ?d0" using free by (subst backpressure.simps) (auto simp: memtable_full_def)
  obtain x d2 where x: "PrepareForWrite pb others ?d0 = Some (x, d2)"
    using b by (cases "the (PrepareForWrite pb others ?d0)") (simp add: PrepareForWrite_def)
  have "performs pb charge (\<lambda>ops. ops = []) ?d0 d2"
    using x b performs_rotate [of pb ?d0 x d2 charge] performs_quiet [OF quiet_refl, of pb charge ?d0]
    by (auto simp: PrepareForWrite_def Let_def split: if_splits)
  then have p: "performs pb charge (\<lambda>ops. ops = []) d d2" by (rule performs_trans [OF performs_quiet [OF quiet_update(2)]]) simp
  show thesis
  proof (cases "x = Ok ()")
    case True
    obtain r d' where c: "commit_group pb grp d2 = (r, d')" by fastforce
    have "performs pb charge (\<lambda>ops. r = Ok () \<longrightarrow> ops = group_operations grp) d d'"
      by (rule performs_trans [OF p performs_commit [OF c]]) simp
    then show thesis using that x True c grp by (simp add: ApplyWriteGroup_def Let_def)
  next
    case False
    then have "ApplyWriteGroup pb others grp d = Some (x, d2)"
      using x grp by (cases x) (simp_all add: ApplyWriteGroup_def Let_def)
    then show thesis by (rule that) (use False performs_weaken [OF p] in simp)
  qed
qed

lemma drain_alone:
  assumes q: "wq_queue q = [req]" and r: "ApplyWriteGroup pb (others n) [req] (set_queue_depth 0 d) = Some (r, d1)"
  shows "DrainWriterQueue pb others (\<lambda>_ s. s) n (q, d) = Some (if r = UB then (UB, n, form_group (db_options d) q, d1)
    else (Ok (), n + 2, (complete_group (status_of r) (form_group (db_options d) q))\<lparr>wq_leader := False\<rparr>, set_queue_depth 0 d1))"
proof -
  have f: "form_group (db_options d) q = q\<lparr>wq_group := [req], wq_queue := [], wq_bytes := wq_bytes q - wr_queue_bytes req\<rparr>"
    by (simp add: form_group_def q limit_reached_def)
  have "DrainWriterQueue pb others (\<lambda>_ s. s) (n + 2) (complete_group c (form_group (db_options d) q), d1) =
      Some (Ok (), n + 2, (complete_group c (form_group (db_options d) q))\<lparr>wq_leader := False\<rparr>, set_queue_depth 0 d1)" for c
    by (subst DrainWriterQueue.simps) (simp add: f complete_group_def)
  then show ?thesis using q r by (subst DrainWriterQueue.simps) (simp add: f)
qed

text \<open>A caller that is alone: the queue is empty and has no leader, and no request of the caller was answered before.\<close>

definition alone :: "nat \<Rightarrow> shared \<Rightarrow> bool" where
  "alone caller s = (case s of (q, d) \<Rightarrow> wq_queue q = [] \<and> wq_bytes q = 0 \<and> \<not> wq_leader q \<and> \<not> wq_stopping q \<and>
     (\<forall>r \<in> fst ` set (wq_completed q). wr_id r \<noteq> caller) \<and> o_max_pending_write_requests (db_options d) \<noteq> 0 \<and>
     (db_immutable d = None \<or> \<not> memtable_full d))"

lemma submit_alone_eq:
  fixes caller batch qb
  defines "req \<equiv> \<lparr>wr_id = caller, wr_batch = batch, wr_queue_bytes = qb\<rparr>"
  assumes a: "alone caller (q, d)" and v: "ValidateWriteBatch (db_options d) batch = (kOk, qb)" "batch \<noteq> []"
      "qb \<le> o_max_pending_write_bytes (db_options d)"
    and g: "ApplyWriteGroup pb (others 0) [req] (set_queue_depth 0 (count_queued 1 d)) = Some (r, d2)" "r \<noteq> UB"
  shows "\<exists>q'. SubmitWrite pb others (\<lambda>_ s. s) caller batch (q, d) = Some (r, q', set_queue_depth 0 d2)"
proof -
  let ?q1 = "admit req q"
  have full: "\<not> queue_full (db_options d) qb q" using a v(3) by (auto simp: alone_def queue_full_def word_neq_0_conv unat_gt_0)
  have q1: "wq_queue ?q1 = [req]" using a by (simp add: admit_def alone_def)
  have opts: "db_options (count_queued 1 d) = db_options d" by (simp add: count_queued_def Let_def)
  let ?q2 = "(complete_group (status_of r) (form_group (db_options d) ?q1))\<lparr>wq_leader := False\<rparr>"
  have w: "wait_until (\<lambda>(q, e). wq_stopping q \<or> \<not> queue_full (db_options d) qb q) (\<lambda>_ s. s) 0 (q, d) = Some (0, q, d)"
    using full by (subst wait_until.simps) simp
  have "SubmitWrite pb others (\<lambda>_ s. s) caller batch (q, d) =
      Some (if request_status req ?q2 = kOk then Ok () else Err (request_status req ?q2), ?q2, set_queue_depth 0 d2)"
    using v(1,2) leD [OF v(3)] w drain_alone [OF q1, of pb others 0 "count_queued 1 d"] g opts a q1
    by (simp add: SubmitWrite_def enqueue_def Let_def alone_def req_def)
  moreover have "map_of (wq_completed q) req = None" using a by (fastforce simp: alone_def map_of_eq_None_iff req_def)
  then have "request_status req ?q2 = status_of r"
    using q1 by (simp add: request_status_def complete_group_def form_group_def limit_reached_def admit_def map_add_def)
  moreover have "(if status_of r = kOk then Ok () else Err (status_of r)) = r"
    using apply_group_honest [OF g(1)] g(2) by (cases r) (auto simp: status_of_def)
  ultimately show ?thesis by auto
qed

lemma submit_alone:
  assumes a: "alone caller (q, d)"
  obtains r q' d' where "SubmitWrite pb others (\<lambda>_ s. s) caller batch (q, d) = Some (r, q', d')"
    "performs pb charge (\<lambda>ops. r = Ok () \<longrightarrow> ops = batch) d d'"
proof -
  obtain c qb where v: "ValidateWriteBatch (db_options d) batch = (c, qb)" by fastforce
  let ?req = "\<lparr>wr_id = caller, wr_batch = batch, wr_queue_bytes = qb\<rparr>"
  let ?d1 = "set_queue_depth 0 (count_queued 1 d)"
  show thesis
  proof (cases "c \<noteq> kOk \<or> batch = [] \<or> qb > o_max_pending_write_bytes (db_options d)")
    case True
    define r where "r = (if c \<noteq> kOk then Err c else if batch = [] then if CheckOpen d = kOk then Ok () else Err (CheckOpen d) else Err kResourceExhausted)"
    have "SubmitWrite pb others (\<lambda>_ s. s) caller batch (q, d) = Some (r, q, d)" using True v by (auto simp: SubmitWrite_def r_def)
    moreover have "performs pb charge (\<lambda>ops. r = Ok () \<longrightarrow> ops = batch) d d"
      by (rule performs_weaken [OF performs_quiet [OF quiet_refl]]) (auto simp: r_def split: if_splits)
    ultimately show thesis by (rule that)
  next
    case False
    have free: "db_immutable ?d1 = None \<or> \<not> memtable_full ?d1"
      using a by (auto simp: alone_def set_queue_depth_def count_queued_def Let_def memtable_full_def)
    obtain r d2 where g: "ApplyWriteGroup pb (others 0) [?req] ?d1 = Some (r, d2)"
      "performs pb charge (\<lambda>ops. r = Ok () \<longrightarrow> ops = group_operations [?req]) ?d1 d2"
      by (rule apply_group_uncontended [OF _ free]) auto
    have p: "performs pb charge (\<lambda>ops. r = Ok () \<longrightarrow> ops = batch) d d2"
      by (rule performs_trans [OF performs_quiet [of d ?d1] g(2)]) (simp_all add: set_queue_depth_def count_queued_def Let_def quiet_def group_operations_def)
    show thesis
    proof (cases "r = UB")
      case True
      have "wq_queue (admit ?req q) = [?req]" using a by (simp add: admit_def alone_def)
      from drain_alone [OF this, of pb others 0 "count_queued 1 d"] g(1) True
      have dr: "DrainWriterQueue pb others (\<lambda>_ s. s) 0 (admit ?req q, count_queued 1 d) =
          Some (UB, 0, form_group (db_options (count_queued 1 d)) (admit ?req q), d2)" by simp
      have full: "\<not> queue_full (db_options d) qb q" using a False by (auto simp: alone_def queue_full_def word_neq_0_conv unat_gt_0)
      have "wait_until (\<lambda>(q, e). wq_stopping q \<or> \<not> queue_full (db_options d) qb q) (\<lambda>_ s. s) 0 (q, d) = Some (0, q, d)"
        using full by (subst wait_until.simps) simp
      then have "\<exists>q'. SubmitWrite pb others (\<lambda>_ s. s) caller batch (q, d) = Some (UB, q', d2)"
        using False v dr a by (simp add: SubmitWrite_def enqueue_def Let_def alone_def admit_def)
      then show thesis using that performs_weaken [OF p, of "\<lambda>ops. UB = Ok () \<longrightarrow> ops = batch"] by auto
    next
      case nub: False
      have "performs pb charge (\<lambda>ops. r = Ok () \<longrightarrow> ops = batch) d (set_queue_depth 0 d2)"
        by (rule performs_trans [OF p performs_quiet [of d2 "set_queue_depth 0 d2"]]) (simp_all add: set_queue_depth_def)
      then show thesis using that submit_alone_eq [where others = others, OF a _ _ _ g(1) nub] v False by (auto simp: not_less)
    qed
  qed
qed

section \<open>Closing\<close>

lemma wait_until_rel:
  assumes "wait_until p env n s = Some (m, s')" and refl: "\<And>s. R s s" and trans: "\<And>s t u. R s t \<Longrightarrow> R t u \<Longrightarrow> R s u"
    and env: "\<And>n s. R s (env n s)"
  shows "R s s' \<and> p s'"
proof -
  have "p = p \<longrightarrow> env = env \<longrightarrow> R s s' \<and> p s'"
  proof (rule wait_until.raw_induct [where P = "\<lambda>p' e n s (m, s'). p' = p \<longrightarrow> e = env \<longrightarrow> R s s' \<and> p s'", OF _ assms(1), unfolded prod.case], goal_cases)
    case (1 rec p' e n s y)
    obtain m s' where y: "y = (m, s')" by fastforce
    have "R s s' \<and> p s'" if "p' = p" "e = env"
    proof (cases "p s")
      case True
      then show ?thesis using 1(2) that y refl by auto
    next
      case False
      then have "R (env n s) s' \<and> p s'" using 1(1) [of p env "Suc n" "env n s" y] 1(2) that y by simp
      then show ?thesis using trans [OF env] by blast
    qed
    then show ?case by (simp add: y)
  qed
  then show ?thesis by simp
qed

lemma performs_any_refl: "performs pb charge (\<lambda>ops. True) d d"
  by (rule performs_weaken [OF performs_quiet [OF quiet_refl]]) simp

lemma performs_any_trans: "performs pb charge (\<lambda>ops. True) d d1 \<Longrightarrow> performs pb charge (\<lambda>ops. True) d1 d2 \<Longrightarrow> performs pb charge (\<lambda>ops. True) d d2"
  by (rule performs_trans) simp_all

lemma performs_any_quiet: "quiet d d' \<Longrightarrow> performs pb charge (\<lambda>ops. True) d d'"
  by (rule performs_weaken [OF performs_quiet]) simp_all

lemma wait_performs:
  assumes "wait_until p env n d = Some (m, d')" and "\<And>n. acts pb charge (env n)"
  shows "performs pb charge (\<lambda>ops. True) d d' \<and> p d'"
  by (rule wait_until_rel [OF assms(1)]) (auto intro: performs_any_refl performs_any_trans performs_acts [OF assms(2)])

lemma close_loop_performs:
  assumes "close_loop pb env n d = Some (r, m, d')" and a: "\<And>n. acts pb charge (env n)" and "r \<noteq> UB"
  shows "performs pb charge (\<lambda>ops. True) d d'"
proof -
  let ?P = "\<lambda>d d'. performs pb charge (\<lambda>ops. True) d d'"
  note step = performs_any_trans and quiet = performs_any_quiet
  have rot: "?P d e" if "RotateMemTable pb d = (x, e)" for d x e by (rule performs_weaken [OF performs_rotate [OF that]]) simp
  have wait: "?P d e" if "wait_until p env n d = Some (k, e)" for p n d k e using wait_performs [OF that a] by blast
  have "pb = pb \<longrightarrow> env = env \<longrightarrow> r \<noteq> UB \<longrightarrow> ?P d d'"
  proof (rule close_loop.raw_induct [where P = "\<lambda>b e n d (r, m, d'). b = pb \<longrightarrow> e = env \<longrightarrow> r \<noteq> UB \<longrightarrow> ?P d d'", OF _ assms(1), unfolded prod.case], goal_cases)
    case (1 rec b e n d y)
    obtain r m d' where y: "y = (r, m, d')" by (metis prod_cases3)
    have "?P d d'" if b: "b = pb" "e = env" "r \<noteq> UB"
    proof -
      have IH: "?P x d'" if "rec pb env k x = Some (r, m, d')" for k x using 1(1) [OF that [folded y]] b y by simp
      consider "failed d" | "\<not> failed d" "db_compaction_running d" | "\<not> failed d" "\<not> db_compaction_running d" "db_immutable d \<noteq> None"
        | "\<not> failed d" "\<not> db_compaction_running d" "db_immutable d = None" "memtable_full d"
        | "\<not> failed d" "\<not> db_compaction_running d" "db_immutable d = None" "\<not> memtable_full d" by blast
      then show ?thesis
      proof cases
        case 2
        then obtain k x where "wait_until (\<lambda>db. \<not> db_compaction_running db \<or> failed db) env n d = Some (k, x)" "rec pb env k x = Some (r, m, d')"
          using 1(2) b y by (auto simp: bind_eq_Some_conv)
        then show ?thesis using step wait IH by blast
      next
        case 3
        then obtain k x where "wait_until flush_settled env n (d\<lparr>db_flush_requested := True\<rparr>) = Some (k, x)" "rec pb env k x = Some (r, m, d')"
          using 1(2) b y by (auto simp: bind_eq_Some_conv WaitForBackgroundFlush_def)
        moreover have "?P d (d\<lparr>db_flush_requested := True\<rparr>)" by (rule quiet) (simp add: quiet_def)
        ultimately show ?thesis using step wait IH by blast
      next
        case 4
        obtain x d1 where x: "RotateMemTable pb d = (x, d1)" by fastforce
        show ?thesis
        proof (cases x)
          case (Ok u)
          then show ?thesis using 1(2) 4 b y x step [OF rot [OF x]] IH by simp
        next
          case (Err c)
          then have "rec pb env n (d1\<lparr>db_background_error := Some c\<rparr>) = Some (r, m, d')" using 1(2) 4 b y x by simp
          then show ?thesis using step [OF rot [OF x] step [OF quiet IH]] quiet_update(6) by blast
        next
          case UB
          then show ?thesis using 1(2) 4 b y x by simp
        qed
      qed (use 1(2) b y quiet [OF quiet_refl] in auto)
    qed
    then show ?case by (simp add: y)
  qed
  then show ?thesis using assms(3) by simp
qed

text \<open>Everything up to the last critical section of \<open>Close\<close>, and that section.\<close>

lemma closing_quiet: "quiet d (RecordWriteLockWait d)" "quiet d (d\<lparr>db_closing := a, db_compaction_requested := b\<rparr>)" "quiet d (d\<lparr>db_worker_stopping := a\<rparr>)"
  "quiet d (mark_closed d)" "quiet d (d\<lparr>db_closing := a\<rparr>)"
  by (simp_all add: quiet_def RecordWriteLockWait_def mark_closed_def Let_def)

lemma on_wal_quiet: "on_wal f wal d = (r, d') \<Longrightarrow> quiet d d'"
  by (auto simp: on_wal_def quiet_def split: prod.splits)

text \<open>Writers while \<open>Close\<close> waits for the leader: they act on the database and do not resume admission.\<close>

definition winding_down :: "Protobuf \<Rightarrow> (InternalEntry list \<Rightarrow> u64) \<Rightarrow> (nat \<Rightarrow> shared \<Rightarrow> shared) \<Rightarrow> bool" where
  "winding_down pb charge writers \<longleftrightarrow>
     (\<forall>n q. acts pb charge (\<lambda>d. snd (writers n (q, d))) \<and> (\<forall>d. wq_stopping q \<longrightarrow> wq_stopping (fst (writers n (q, d)))))"

lemma stop_performs:
  assumes "StopWriterQueue writers n (q, d) = Some (m, q', d')" and w: "winding_down pb charge writers"
  shows "performs pb charge (\<lambda>ops. True) d d' \<and> wq_stopping q'"
proof -
  let ?R = "\<lambda>s t :: shared. performs pb charge (\<lambda>ops. True) (snd s) (snd t) \<and> (wq_stopping (fst s) \<longrightarrow> wq_stopping (fst t))"
  have env: "?R s (writers n s)" for n s
    using w performs_acts [of pb charge "\<lambda>d. snd (writers n (fst s, d))" "snd s"] by (cases s) (simp add: winding_down_def)
  have "?R (q\<lparr>wq_stopping := True\<rparr>, d) (q', d')"
    using assms(1) wait_until_rel [of _ writers n "(q\<lparr>wq_stopping := True\<rparr>, d)" m "(q', d')" ?R, OF _ _ _ env]
    by (auto simp: StopWriterQueue_def intro: performs_any_refl performs_any_trans)
  then show ?thesis by simp
qed

lemma close_wal_performs:
  assumes run: "close_wal env n wal (q, d) = (Ok (), q', d')" and e: "\<And>n. acts pb charge (env n)"
  shows "performs pb charge (\<lambda>ops. True) d d' \<and> db_closed d' \<and> \<not> fs_locked (db_fs d') \<and> q' = q"
proof -
  obtain d1 c wal2 d3 where 1: "quiet d d1" "on_wal (\<lambda>w. apfst Ok (WalWriter_Close w)) wal2 (join_worker env n d1) = (c, d3)" "d' = mark_closed d3" "q' = q"
  proof -
    obtain r d1 where s: "(if o_sync_on_write (db_options d) then on_wal (\<lambda>w. apfst Ok (WalWriter_Sync w)) wal d else (Ok kOk, d)) = (r, d1)" by fastforce
    then have q1: "quiet d d1" using on_wal_quiet by (auto split: if_splits)
    have "r = Ok kOk" using run s by (auto simp: close_wal_def Let_def split: result.splits if_splits)
    moreover obtain wal2 where w2: "db_wal (join_worker env n d1) = Some wal2"
      using run s calculation by (auto simp: close_wal_def Let_def split: option.splits)
    moreover obtain c d3 where c: "on_wal (\<lambda>w. apfst Ok (WalWriter_Close w)) wal2 (join_worker env n d1) = (c, d3)" by fastforce
    ultimately show thesis using run s q1 by (intro that [OF q1 c]) (auto simp: close_wal_def Let_def split: result.splits if_splits)
  qed
  have "performs pb charge (\<lambda>ops. True) d1 (join_worker env n d1)"
    unfolding join_worker_def by (rule performs_any_trans [OF performs_any_quiet [OF closing_quiet(3)] performs_acts [OF e]])
  then have "performs pb charge (\<lambda>ops. True) d d'"
    using performs_any_trans performs_any_quiet 1(1) on_wal_quiet [OF 1(2)] closing_quiet(4) [of d3] 1(3) by meson
  then show ?thesis using 1(3,4) by (simp add: mark_closed_def ReleaseLock_def)
qed

lemma close_performs:
  assumes run: "Close pb writers env (q, d) = Some (Ok (), q', d')" and w: "winding_down pb charge writers" and e: "\<And>n. acts pb charge (env n)"
  shows "performs pb charge (\<lambda>ops. True) d d' \<and> db_closed d' \<and> \<not> fs_locked (db_fs d') \<and> wq_stopping q'"
proof -
  obtain m q1 d1 where 1: "StopWriterQueue writers 0 (q, d) = Some (m, q1, d1)" using run by (auto simp: Close_def bind_eq_Some_conv)
  let ?d2 = "(RecordWriteLockWait d1)\<lparr>db_closing := True, db_compaction_requested := False\<rparr>"
  obtain r n d3 where 3: "close_loop pb env 0 ?d2 = Some (r, n, d3)" "r \<noteq> UB"
    "(case db_wal d3 of None \<Rightarrow> (let db = join_worker env n d3 in (close_status db, q1, mark_closed db)) | Some wal \<Rightarrow> close_wal env n wal (q1, d3)) = (Ok (), q', d')"
    using run 1 by (auto simp: Close_def Let_def bind_eq_Some_conv split: if_splits option.splits)
  have s: "performs pb charge (\<lambda>ops. True) d d1" "wq_stopping q1" using stop_performs [OF 1 w] by simp_all
  have "quiet d1 ?d2" by (rule quiet_trans [OF closing_quiet(1,2)])
  then have p: "performs pb charge (\<lambda>ops. True) d d3"
    using performs_any_trans [OF s(1) performs_any_trans [OF performs_any_quiet close_loop_performs [OF 3(1) e 3(2)]]] by blast
  show ?thesis
  proof (cases "db_wal d3")
    case None
    let ?j = "join_worker env n d3"
    have "performs pb charge (\<lambda>ops. True) d3 ?j"
      unfolding join_worker_def by (rule performs_any_trans [OF performs_any_quiet [OF closing_quiet(3)] performs_acts [OF e]])
    moreover have "performs pb charge (\<lambda>ops. True) ?j (mark_closed ?j)" by (rule performs_any_quiet [OF closing_quiet(4)])
    ultimately have "performs pb charge (\<lambda>ops. True) d (mark_closed ?j)" using performs_any_trans [OF p performs_any_trans] by blast
    moreover have "d' = mark_closed ?j" "q' = q1" using None 3(3) by (simp_all add: Let_def)
    ultimately show ?thesis using s(2) by (simp add: mark_closed_def ReleaseLock_def)
  next
    case (Some wal)
    then have "close_wal env n wal (q1, d3) = (Ok (), q', d')" using 3(3) by simp
    from close_wal_performs [OF this e] show ?thesis using performs_any_trans [OF p] s(2) by blast
  qed
qed

lemma closed_rejects:
  assumes "db_closed d" "wq_stopping q" "ValidateWriteBatch (db_options d) batch = (kOk, qb)" "batch \<noteq> []" "qb \<le> o_max_pending_write_bytes (db_options d)"
  shows "SubmitWrite pb others env caller batch (q, d) = Some (Err kAlreadyClosed, q, d)"
proof -
  have "wait_until (\<lambda>(q, e). wq_stopping q \<or> \<not> queue_full (db_options d) qb q) env 0 (q, d) = Some (0, q, d)"
    using assms(2) by (subst wait_until.simps) simp
  then show ?thesis using assms by (simp add: SubmitWrite_def enqueue_def not_less)
qed

lemma closed_reads: "db_closed d \<Longrightarrow> fst (Db_Get charge key s d) = Err kAlreadyClosed" "db_closed d \<Longrightarrow> fst (GetSnapshot d) = Err kAlreadyClosed"
proof -
  assume "db_closed d"
  then have "CheckOpen (RecordReadLockWait d) = kAlreadyClosed" by (simp add: CheckOpen_def RecordReadLockWait_def)
  then show "fst (Db_Get charge key s d) = Err kAlreadyClosed" "fst (GetSnapshot d) = Err kAlreadyClosed"
    unfolding Db_Get_def GetSnapshot_def by (simp_all only: Let_def) simp_all
qed

section \<open>A small database\<close>

definition small_db :: Db where
  "small_db = sample_db MemTable_empty []"

lemma small_db_ok: "sys_ok (small_db, Idle)"
proof -
  have "db_sound small_db"
    by (simp add: db_sound_def small_db_def sample_db_def MemTable_empty_def mt_inv_def initial_snapshot_def db_sources_def cache_known_def
        BlockCache_new_def bc_inv_def no_duplicates_def mt_all_def)
  then show ?thesis
    by (simp add: sys_ok_def db_ok_def job_ok_def layered_def layers_def sequences_bounded_def contents_def memory_def small_db_def sample_db_def
        MemTable_empty_def mt_all_def SnapshotState_empty_def ss_inv_def pins_def BlockCache_new_def)
qed

lemma small_db_map: "holds_map small_db s Map.empty"
  by (simp add: holds_map_def live_value_def visible_def contents_def memory_def small_db_def sample_db_def MemTable_empty_def mt_all_def)

lemma small_alone: "alone 1 (empty_queue, small_db)"
  by (simp add: alone_def empty_queue_def small_db_def sample_db_def sample_options_def)

lemma small_valid: "ValidateWriteBatch (db_options small_db) (wr_batch (sample_request 1 7)) = (kOk, 82)"
  by (simp add: small_db_def sample_db_def sample_request_def ValidateWriteBatch_def sample_options_def sizeof_InternalEntry_def kMaxWalBatchOperations_def
        kMaxWalBatchBytes_def)

lemma small_write:
  "\<exists>q' d'. SubmitWrite pb (\<lambda>_ d. d) (\<lambda>_ s. s) 1 (wr_batch (sample_request 1 7)) (empty_queue, small_db) = Some (Ok (), q', d') \<and>
     db_tables d' = [] \<and> CheckOpen d' = kOk"
proof -
  let ?d1 = "set_queue_depth 0 (count_queued 1 small_db)"
  let ?d2 = "?d1\<lparr>db_read_metrics := (db_read_metrics ?d1)\<lparr>rm_write_lock_acquisitions := rm_write_lock_acquisitions (db_read_metrics ?d1) + 1\<rparr>\<rparr>"
  have f: "db_options ?d2 = sample_options" "db_memtable ?d2 = MemTable_empty" "db_next_sequence ?d2 = 1" "db_tables ?d2 = []"
    "db_wal ?d2 = Some (1, \<lparr>ww_file = sample_handle [], ww_limits = Limits sample_options\<rparr>)" "db_immutable ?d2 = None" "CheckOpen ?d2 = kOk"
    by (simp_all add: set_queue_depth_def count_queued_def Let_def small_db_def sample_db_def CheckOpen_def)
  obtain d3 where c: "commit_group pb [sample_request 1 7] ?d2 = (Ok (), d3)"
    using sample_commit_ok [OF f(1-3,5), of pb 1 7] by (auto simp: sample_handle_def)
  have b: "backpressure (\<lambda>d. d) ?d2 = Some ?d2" by (subst backpressure.simps) (simp only: f(6) simp_thms if_False)
  have full: "\<not> memtable_full ?d2" unfolding memtable_full_def f(1,2) by (simp add: ApproximateMemoryUsage_def MemTable_empty_def sample_options_def)
  have a: "ApplyWriteGroup pb (\<lambda>d. d) [sample_request 1 7] ?d1 = Some (Ok (), d3)"
    using b full f(7) c by (simp add: ApplyWriteGroup_def PrepareForWrite_def Let_def)
  then have a': "ApplyWriteGroup pb (\<lambda>d. d) [\<lparr>wr_id = 1, wr_batch = wr_batch (sample_request 1 7), wr_queue_bytes = 82\<rparr>] ?d1 = Some (Ok (), d3)"
    by (simp add: sample_request_def)
  have "\<exists>q'. SubmitWrite pb (\<lambda>_ d. d) (\<lambda>_ s. s) 1 (wr_batch (sample_request 1 7)) (empty_queue, small_db) = Some (Ok (), q', set_queue_depth 0 d3)"
    by (rule submit_alone_eq [OF small_alone small_valid _ _ a']) (simp_all add: sample_request_def small_db_def sample_db_def sample_options_def)
  moreover have "quiet small_db ?d2" by (simp add: quiet_def set_queue_depth_def count_queued_def Let_def)
  then have ok: "db_ok ?d2" using small_db_ok quiet_ok by (simp add: sys_ok_def)
  have "map dt_entries (db_tables d3) = []" using commit_ok [OF c ok] f(4) by (simp add: worker_frame_def)
  moreover have "CheckOpen (set_queue_depth 0 d3) = kOk"
  proof -
    have "same_flags d3 (set_queue_depth 0 d3)" by (simp add: same_flags_def set_queue_depth_def)
    from same_flags_open [OF this] show ?thesis using commit_flags [OF c] f(7) by presburger
  qed
  ultimately show ?thesis by (auto simp: set_queue_depth_def)
qed

section \<open>Properties\<close>

text \<open>
  C4: A write that is reported as successful was committed, as one consecutive part of the commit order, whatever other
  threads do meanwhile: they may submit requests that join the caller's group or follow it, commit, rotate, flush, compact,
  read and take snapshots. The caller finds no leader, so it drains the queue on behalf of everyone.
\<close>

theorem submitted_write_commits:
  assumes "SubmitWrite pb others env caller batch (q, d) = Some (r, q', d')" and "r \<noteq> UB"
    and "\<not> wq_leader q" and "\<not> queue_full (db_options d) (snd (ValidateWriteBatch (db_options d) batch)) q"
    and "\<forall>r \<in> fst ` set (wq_completed q). wr_id r \<noteq> caller"
    and "\<And>n. acts pb charge (others n)" and "fellow_threads pb charge env" and "sys_ok (d, w)"
  shows "\<exists>ops w'. labelled_run (sys_step pb charge) (d, w) ops (d', w') \<and> (r = Ok () \<longrightarrow> (\<exists>a b. ops = a @ batch @ b))"
proof -
  obtain c qb where v: "ValidateWriteBatch (db_options d) batch = (c, qb)" by fastforce
  let ?req = "\<lparr>wr_id = caller, wr_batch = batch, wr_queue_bytes = qb\<rparr>"
  have "performs pb charge (\<lambda>ops. r = Ok () \<longrightarrow> (\<exists>a b. ops = a @ batch @ b)) d d'"
  proof (cases "c \<noteq> kOk \<or> batch = [] \<or> qb > o_max_pending_write_bytes (db_options d) \<or> wq_stopping q")
    case True
    have w: "wait_until (\<lambda>(q, e). wq_stopping q \<or> \<not> queue_full (db_options d) qb q) env 0 (q, d) = Some (0, q, d)"
      using assms(4) v by (subst wait_until.simps) simp
    have "d' = d" "r = Ok () \<longrightarrow> batch = []" using assms(1) v True w by (auto simp: SubmitWrite_def enqueue_def split: if_splits)
    then show ?thesis by (auto intro!: performs_weaken [OF performs_any_refl])
  next
    case False
    have w: "wait_until (\<lambda>(q, e). wq_stopping q \<or> \<not> queue_full (db_options d) qb q) env 0 (q, d) = Some (0, q, d)"
      using assms(4) v by (subst wait_until.simps) simp
    let ?q1 = "admit ?req q" and ?d1 = "count_queued (length (wq_queue (admit ?req q))) d"
    obtain u m where dr: "DrainWriterQueue pb others env 0 (?q1, ?d1) = Some (u, m, q', d')"
      "r = (if u = UB then UB else if request_status ?req q' = kOk then Ok () else Err (request_status ?req q'))"
      using assms(1,3) v False w by (auto simp: SubmitWrite_def enqueue_def Let_def bind_eq_Some_conv)
    have "u \<noteq> UB" using dr(2) assms(2) by auto
    then have p: "performs pb charge (answered ?q1 q') ?d1 d'" using drain_performs [OF dr(1) assms(6,7)] by simp
    have "quiet d ?d1" by (simp add: count_queued_def Let_def)
    moreover have "map_of (wq_completed q) ?req = None" using assms(5) by (fastforce simp: map_of_eq_None_iff)
    then have fresh: "map_of (wq_completed ?q1) ?req = None" "?req \<in> set (wq_queue ?q1)" by (simp_all add: admit_def)
    have "r = Ok () \<longrightarrow> (\<exists>a b. ops = a @ batch @ b)" if a: "answered ?q1 q' ops" for ops
    proof -
      obtain c where c: "map_of (wq_completed q') ?req = Some c" "c = kOk \<longrightarrow> committed_in ?req ops"
        using a fresh unfolding answered_def by blast
      have "r = Ok () \<longrightarrow> c = kOk" using dr(2) c(1) by (simp add: request_status_def)
      then show ?thesis using c(2) by (simp add: committed_in_def)
    qed
    ultimately show ?thesis by (intro performs_trans [OF performs_quiet p]) simp_all
  qed
  then show ?thesis using assms(8) by (simp add: performs_def)
qed

theorem submitted_write_commits_witness:
  "\<exists>q' d' ops w'. SubmitWrite any_pb (\<lambda>_ d. d) (\<lambda>_ s. s) 1 (wr_batch (sample_request 1 7)) (empty_queue, small_db) = Some (Ok (), q', d') \<and>
     labelled_run (sys_step any_pb (\<lambda>_. 1)) (small_db, Idle) ops (d', w') \<and> (\<exists>a b. ops = a @ wr_batch (sample_request 1 7) @ b)"
proof -
  obtain q' d' where s: "SubmitWrite any_pb (\<lambda>_ d. d) (\<lambda>_ s. s) 1 (wr_batch (sample_request 1 7)) (empty_queue, small_db) = Some (Ok (), q', d')"
    using small_write by blast
  have "\<not> queue_full (db_options small_db) (snd (ValidateWriteBatch (db_options small_db) (wr_batch (sample_request 1 7)))) empty_queue"
    unfolding small_valid by (simp add: queue_full_def empty_queue_def small_db_def sample_db_def sample_options_def)
  moreover have "fellow_threads any_pb (\<lambda>_. 1) (\<lambda>_ s. s)" by (simp add: fellow_threads_def acts_id joins_queue_steps)
  ultimately show ?thesis
    using submitted_write_commits [OF s _ _ _ _ acts_id _ small_db_ok, of "\<lambda>_. 1"] s by (auto simp: empty_queue_def)
qed

text \<open>
  C10: Read your writes. A caller that is alone gets an answer from \<open>Put\<close>, and after a success \<open>Get\<close> returns the value it has
  written. (No sealed MemTable blocks a full one, and the reads of this \<open>Get\<close> do not fail.)
\<close>

theorem put_then_get:
  assumes "sys_ok (d, w)" and "holds_map d (- 1) f" and "alone caller (q, d)"
  shows "\<exists>r q' d'. Db_Put pb others (\<lambda>_ s. s) caller key val (q, d) = Some (r, q', d') \<and>
    (r = Ok () \<and> CheckOpen d' = kOk \<and> (\<forall>t \<in> set (db_tables d'). reads_ok (ra_reads (dt_file t))) \<longrightarrow>
       (\<exists>e. Db_Get charge key None d' = (Ok val, e)))"
proof -
  let ?batch = "[\<lparr>op_type = kPut, op_key = key, op_value = val\<rparr>]"
  obtain r q' d' where s: "SubmitWrite pb others (\<lambda>_ s. s) caller ?batch (q, d) = Some (r, q', d')"
    "performs pb charge (\<lambda>ops. r = Ok () \<longrightarrow> ops = ?batch) d d'"
    by (rule submit_alone [OF assms(3)])
  obtain ops w' where run: "labelled_run (sys_step pb charge) (d, w) ops (d', w')" "r = Ok () \<longrightarrow> ops = ?batch"
    using s(2) assms(1) by (auto simp: performs_def)
  have ok: "sys_ok (d', w')" by (rule key_value.invar_run [OF run(1) assms(1)])
  have get: "\<exists>e. Db_Get charge key None d' = (Ok val, e)"
    if "r = Ok ()" "CheckOpen d' = kOk" "\<forall>t \<in> set (db_tables d'). reads_ok (ra_reads (dt_file t))"
  proof -
    have "holds_map d' (- 1) (apply_operations ?batch f)" using key_value.simulated_run [OF run(1) assms(1)] assms(2) run(2) that(1) by simp
    then have "holds_map d' (read_sequence None d') (apply_operations ?batch f)"
      using ok holds_latest [of d'] by (simp add: sys_ok_def read_sequence_def)
    from read_here [OF ok that(3,2) _ this, of charge key] show ?thesis by (auto simp: foreign_snapshot_def apply_operations_def)
  qed
  have "Db_Put pb others (\<lambda>_ s. s) caller key val (q, d) = Some (r, q', d')" using s(1) by (simp add: Db_Put_def Batch_Put_def)
  then show ?thesis using get by blast
qed

theorem put_then_get_witness:
  "\<exists>q' d' e. Db_Put any_pb (\<lambda>_ d. d) (\<lambda>_ s. s) 1 [7] [7] (empty_queue, small_db) = Some (Ok (), q', d') \<and> Db_Get (\<lambda>_. 1) [7] None d' = (Ok [7], e)"
proof -
  obtain q' d' where s: "SubmitWrite any_pb (\<lambda>_ d. d) (\<lambda>_ s. s) 1 (wr_batch (sample_request 1 7)) (empty_queue, small_db) = Some (Ok (), q', d')"
    "db_tables d' = []" "CheckOpen d' = kOk" using small_write by blast
  then have "Db_Put any_pb (\<lambda>_ d. d) (\<lambda>_ s. s) 1 [7] [7] (empty_queue, small_db) = Some (Ok (), q', d')"
    by (simp add: Db_Put_def Batch_Put_def sample_request_def)
  then show ?thesis
    using put_then_get [OF small_db_ok small_db_map small_alone, of any_pb "\<lambda>_ d. d" "[7]" "[7]" "\<lambda>_. 1"] s(2,3) by auto
qed



end
