(* ===== verification/Lab_Session.thy ===== *)
theory Lab_Session
  imports Db_Lifecycle
begin

text \<open>
  The session of the Lab (\<open>tools/lab/lab_session.cpp\<close>): it owns one database, runs one command at a time on it, and keeps a
  bounded history of operations and events. Durations and time stamps are left out, as are the points of the metrics,
  which are made of them, the sizes of directories, and the file to which events are copied on a best effort basis.
  \<open>None\<close> as the result of a command means that an operation of the database does not return.
\<close>

section \<open>Reports\<close>

text \<open>The diagnostic copy of a database (\<open>db/diagnostic_snapshot.cpp\<close>).\<close>

record TableInfo =
  ti_file_number :: u64
  ti_file_size :: u64
  ti_smallest_key :: bytes
  ti_largest_key :: bytes
  ti_min_sequence :: u64
  ti_max_sequence :: u64

record DiagnosticSnapshot =
  ds_options :: Options
  ds_memtable_bytes :: u64
  ds_memtable_entries :: nat
  ds_next_sequence :: u64
  ds_active_wal_number :: u64
  ds_last_sequence :: u64
  ds_live_tables :: "TableInfo list"
  ds_pending_cleanup :: nat
  ds_closed :: bool
  ds_terminal_error :: "StatusCode option"

definition table_info :: "TableMeta \<Rightarrow> TableInfo" where
  "table_info t =
     \<lparr>ti_file_number = tm_file_number t, ti_file_size = tm_file_size t, ti_smallest_key = tm_smallest_key t,
      ti_largest_key = tm_largest_key t, ti_min_sequence = tm_min_sequence t, ti_max_sequence = tm_max_sequence t\<rparr>"

definition DBLabPeer_Snapshot :: "Db option \<Rightarrow> DiagnosticSnapshot result" where
  "DBLabPeer_Snapshot impl =
     (case impl of
        None \<Rightarrow> Err kAlreadyClosed
      | Some db \<Rightarrow>
          Ok \<lparr>ds_options = db_options db, ds_memtable_bytes = ApproximateMemoryUsage (db_memtable db),
             ds_memtable_entries = length (MemTable_Scan (db_memtable db) [] []), ds_next_sequence = db_next_sequence db,
             ds_active_wal_number = active_wal_number (db_current db), ds_last_sequence = last_sequence (db_current db),
             ds_live_tables = map table_info (live_tables (db_current db)), ds_pending_cleanup = length (db_pending_cleanup db),
             ds_closed = db_closed db, ds_terminal_error = db_terminal_error db\<rparr>)"

record LabState =
  st_path :: string
  st_options :: Options
  st_open :: bool
  st_memtable_bytes :: u64
  st_memtable_entries :: nat
  st_next_sequence :: u64
  st_active_wal :: u64
  st_last_sequence :: u64
  st_tables :: "TableInfo list"
  st_pending_cleanup :: nat
  st_terminal_error :: "StatusCode option"

datatype OperationKind = PutOp | GetOp | DeleteOp | ScanOp | CompactOp

record OperationRequest =
  rq_kind :: OperationKind
  rq_key :: bytes
  rq_value :: bytes
  rq_begin :: bytes
  rq_end :: bytes

record OperationResult =
  or_operation_id :: string
  or_request :: OperationRequest
  or_status :: StatusCode
  or_value :: "(bytes \<times> bytes) option"
  or_entries :: "(bytes \<times> bytes) list"
  or_before :: LabState
  or_after :: LabState

text \<open>The summary of an event is a text or a status as text.\<close>

datatype summary = Text string | StatusText StatusCode

record Event =
  ev_id :: u64
  ev_operation_id :: string
  ev_level :: string
  ev_phase :: string
  ev_summary :: summary

record LabMetrics =
  lm_puts :: u64
  lm_gets :: u64
  lm_deletes :: u64
  lm_scans :: u64
  lm_compactions :: u64
  lm_errors :: u64
  lm_flushes :: u64
  lm_compact_count :: u64

definition kMaxEvents :: nat where "kMaxEvents = 10000"
definition kMaxOperations :: nat where "kMaxOperations = 10000"

section \<open>The session\<close>

text \<open>\<open>lab_disks\<close> is the content of the directories, but for the one whose files are in the hands of the open database.\<close>

record Lab =
  lab_db :: "shared option"
  lab_disks :: "string \<Rightarrow> FileSystem"
  lab_path :: string
  lab_options :: Options
  lab_operations :: "OperationResult list"
  lab_events :: "Event list"
  lab_metrics :: LabMetrics
  lab_next_operation_id :: u64
  lab_next_event_id :: u64

definition SnapshotLocked :: "Lab \<Rightarrow> LabState" where
  "SnapshotLocked lab =
     (let state = \<lparr>st_path = lab_path lab, st_options = lab_options lab, st_open = (lab_db lab \<noteq> None), st_memtable_bytes = 0,
                   st_memtable_entries = 0, st_next_sequence = 1, st_active_wal = 0, st_last_sequence = 0, st_tables = [],
                   st_pending_cleanup = 0, st_terminal_error = None\<rparr> in
      case lab_db lab of
        None \<Rightarrow> state
      | Some (q, db) \<Rightarrow>
          (case DBLabPeer_Snapshot (Some db) of
             Ok d \<Rightarrow>
               state\<lparr>st_options := ds_options d, st_memtable_bytes := ds_memtable_bytes d, st_memtable_entries := ds_memtable_entries d,
                 st_next_sequence := ds_next_sequence d, st_active_wal := ds_active_wal_number d, st_last_sequence := ds_last_sequence d,
                 st_pending_cleanup := ds_pending_cleanup d, st_terminal_error := ds_terminal_error d, st_tables := ds_live_tables d\<rparr>
           | Err c \<Rightarrow> state\<lparr>st_terminal_error := Some c\<rparr>
           | UB \<Rightarrow> state))"

fun OperationName :: "OperationKind \<Rightarrow> string" where
  "OperationName PutOp = ''put''"
| "OperationName GetOp = ''get''"
| "OperationName DeleteOp = ''delete''"
| "OperationName ScanOp = ''scan''"
| "OperationName CompactOp = ''compact''"

definition AddEventLocked :: "string \<Rightarrow> string \<Rightarrow> string \<Rightarrow> summary \<Rightarrow> Lab \<Rightarrow> Lab" where
  "AddEventLocked operation_id level phase summary lab =
     (let events = lab_events lab @ [\<lparr>ev_id = lab_next_event_id lab, ev_operation_id = operation_id, ev_level = level,
                                      ev_phase = phase, ev_summary = summary\<rparr>] in
      lab\<lparr>lab_next_event_id := lab_next_event_id lab + 1,
          lab_events := (if length events > kMaxEvents then tl events else events)\<rparr>)"

definition GetEvents :: "Lab \<Rightarrow> Event list" where
  "GetEvents lab = rev (lab_events lab)"

definition EventsAfter :: "u64 \<Rightarrow> Lab \<Rightarrow> Event list" where
  "EventsAfter n lab = filter (\<lambda>e. ev_id e > n) (lab_events lab)"

definition NextOperationIdLocked :: "Lab \<Rightarrow> string \<times> Lab" where
  "NextOperationIdLocked lab =
     (''op-'' @ decimal (unat (lab_next_operation_id lab)), lab\<lparr>lab_next_operation_id := lab_next_operation_id lab + 1\<rparr>)"

definition CountLocked :: "OperationKind \<Rightarrow> bool \<Rightarrow> LabMetrics \<Rightarrow> LabMetrics" where
  "CountLocked kind success m =
     (let m = (case kind of
                 PutOp \<Rightarrow> m\<lparr>lm_puts := lm_puts m + 1\<rparr>
               | GetOp \<Rightarrow> m\<lparr>lm_gets := lm_gets m + 1\<rparr>
               | DeleteOp \<Rightarrow> m\<lparr>lm_deletes := lm_deletes m + 1\<rparr>
               | ScanOp \<Rightarrow> m\<lparr>lm_scans := lm_scans m + 1\<rparr>
               | CompactOp \<Rightarrow> m\<lparr>lm_compactions := lm_compactions m + 1\<rparr>) in
      if success then m else m\<lparr>lm_errors := lm_errors m + 1\<rparr>)"

section \<open>Opening and closing\<close>

text \<open>The part of \<open>Open\<close>, \<open>Close\<close> and \<open>Reopen\<close> that closes the current database and drops its handle.\<close>

definition close_current :: "Protobuf \<Rightarrow> Surroundings \<Rightarrow> Lab \<Rightarrow> (StatusCode \<times> Lab) option" where
  "close_current pb su lab =
     (case lab_db lab of
        None \<Rightarrow> Some (kOk, lab)
      | Some s \<Rightarrow> Option.bind (Close pb (su_writers su) (su_close su) s) (\<lambda>(r, q, db).
          let dropped = lab\<lparr>lab_db := None, lab_disks := (lab_disks lab)(lab_path lab := db_fs (Impl_destroy db))\<rparr> in
          case r of
            Ok _ \<Rightarrow> Some (kOk, dropped)
          | Err c \<Rightarrow> Some (if c \<noteq> kAlreadyClosed then (c, lab\<lparr>lab_db := Some (q, db)\<rparr>) else (kOk, dropped))
          | UB \<Rightarrow> None))"

definition open_current ::
  "Protobuf \<Rightarrow> (InternalEntry list \<Rightarrow> u64) \<Rightarrow> bool \<Rightarrow> nat \<Rightarrow> string \<Rightarrow> Options \<Rightarrow> Lab \<Rightarrow> (StatusCode \<times> Lab) option" where
  "open_current pb charge spawned registry path opts lab =
     (case DB_Open pb charge spawned registry path opts (lab_disks lab path) of
        (Ok (Some db), _) \<Rightarrow> Some (kOk, lab\<lparr>lab_db := Some (empty_queue, db)\<rparr>)
      | (Err c, fs) \<Rightarrow> Some (c, lab\<lparr>lab_disks := (lab_disks lab)(path := (case fs of Some f \<Rightarrow> f | None \<Rightarrow> lab_disks lab path))\<rparr>)
      | _ \<Rightarrow> None)"

definition LabSession_Open ::
  "Protobuf \<Rightarrow> (InternalEntry list \<Rightarrow> u64) \<Rightarrow> bool \<Rightarrow> nat \<Rightarrow> Surroundings \<Rightarrow> bool \<Rightarrow> string \<Rightarrow> Options \<Rightarrow> Lab
   \<Rightarrow> (LabState result \<times> Lab) option" where
  "LabSession_Open pb charge spawned registry su active path opts lab =
     (if active then Some (Err kNotSupported, lab)
      else if path = [] then Some (Err kInvalidArgument, lab)
      else Option.bind (close_current pb su lab) (\<lambda>(c, lab).
        if c \<noteq> kOk then Some (Err c, lab)
        else Option.bind (open_current pb charge spawned registry path opts lab) (\<lambda>(c, lab).
          if c \<noteq> kOk then Some (Err c, lab)
          else let lab = AddEventLocked [] ''success'' ''session.open'' (Text ''Opened live TinyLSM session'')
                           (lab\<lparr>lab_path := path, lab_options := opts\<rparr>) in
            Some (Ok (SnapshotLocked lab), lab))))"

definition LabSession_Close :: "Protobuf \<Rightarrow> Surroundings \<Rightarrow> bool \<Rightarrow> Lab \<Rightarrow> (LabState result \<times> Lab) option" where
  "LabSession_Close pb su active lab =
     (if active then Some (Err kNotSupported, lab)
      else if lab_db lab = None then Some (Ok (SnapshotLocked lab), lab)
      else Option.bind (close_current pb su lab) (\<lambda>(c, lab).
        if c \<noteq> kOk then Some (Err c, lab)
        else let lab = AddEventLocked [] ''info'' ''session.close'' (Text ''Closed live TinyLSM session'') lab in
          Some (Ok (SnapshotLocked lab), lab)))"

definition Reopen ::
  "Protobuf \<Rightarrow> (InternalEntry list \<Rightarrow> u64) \<Rightarrow> bool \<Rightarrow> nat \<Rightarrow> Surroundings \<Rightarrow> bool \<Rightarrow> bool \<Rightarrow> Lab \<Rightarrow> (LabState result \<times> Lab) option" where
  "Reopen pb charge spawned registry su active workload_owned lab =
     (if \<not> workload_owned \<and> active then Some (Err kNotSupported, lab)
      else if lab_path lab = [] then Some (Err kInvalidArgument, lab)
      else Option.bind (close_current pb su lab) (\<lambda>(c, lab).
        if c \<noteq> kOk then Some (Err c, lab)
        else Option.bind (open_current pb charge spawned registry (lab_path lab) (lab_options lab) lab) (\<lambda>(c, lab).
          if c \<noteq> kOk then Some (Err c, lab)
          else let lab = (if workload_owned then lab
                          else AddEventLocked [] ''success'' ''session.reopen''
                            (Text ''Reopened live TinyLSM session and recovered durable state'') lab) in
            Some (Ok (SnapshotLocked lab), lab))))"

section \<open>Executing a command\<close>

definition write_operation :: "OperationKind \<Rightarrow> bool" where
  "write_operation kind = (kind = PutOp \<or> kind = DeleteOp \<or> kind = CompactOp)"

text \<open>The operation of the database, by \<open>caller\<close>: status, value and entries.\<close>

definition perform_request ::
  "Protobuf \<Rightarrow> (InternalEntry list \<Rightarrow> u64) \<Rightarrow> Surroundings \<Rightarrow> nat \<Rightarrow> OperationRequest \<Rightarrow> shared
   \<Rightarrow> ((StatusCode \<times> (bytes \<times> bytes) option \<times> (bytes \<times> bytes) list) \<times> shared) option" where
  "perform_request pb charge su caller rq s =
     (let plain = (\<lambda>(r, s). case r of Ok _ \<Rightarrow> Some ((kOk, None, []), s) | Err c \<Rightarrow> Some ((c, None, []), s) | UB \<Rightarrow> None) in
      case rq_kind rq of
        PutOp \<Rightarrow> Option.bind (Db_Put pb (su_others su) (su_queue su) caller (rq_key rq) (rq_value rq) s) plain
      | DeleteOp \<Rightarrow> Option.bind (Db_Delete pb (su_others su) (su_queue su) caller (rq_key rq) s) plain
      | GetOp \<Rightarrow>
          (case s of (q, db) \<Rightarrow>
             (case Db_Get charge (rq_key rq) None db of
                (Ok val, db) \<Rightarrow> Some ((kOk, Some (rq_key rq, val), []), q, db)
              | (Err c, db) \<Rightarrow> Some ((c, None, []), q, db)
              | (UB, db) \<Rightarrow> None))
      | ScanOp \<Rightarrow>
          (case s of (q, db) \<Rightarrow>
             Option.bind (Db_Scan charge (rq_begin rq) (rq_end rq) db) (\<lambda>(r, db).
               case r of
                 Ok entries \<Rightarrow> Some ((kOk, None, entries), q, db)
               | Err c \<Rightarrow> Some ((c, None, []), q, db)
               | UB \<Rightarrow> None))
      | CompactOp \<Rightarrow>
          (case s of (q, db) \<Rightarrow> Option.bind (Compact pb charge (su_others su) db) (\<lambda>(r, db). plain (r, q, db))))"

definition dispatch ::
  "Protobuf \<Rightarrow> (InternalEntry list \<Rightarrow> u64) \<Rightarrow> Surroundings \<Rightarrow> bool \<Rightarrow> bool \<Rightarrow> nat \<Rightarrow> OperationRequest \<Rightarrow> Lab
   \<Rightarrow> ((StatusCode \<times> (bytes \<times> bytes) option \<times> (bytes \<times> bytes) list) \<times> Lab) option" where
  "dispatch pb charge su active workload_owned caller rq lab =
     (if write_operation (rq_kind rq) \<and> \<not> workload_owned \<and> active then Some ((kNotSupported, None, []), lab)
      else case lab_db lab of
        None \<Rightarrow> Some ((kAlreadyClosed, None, []), lab)
      | Some s \<Rightarrow> map_option (\<lambda>(out, s). (out, lab\<lparr>lab_db := Some s\<rparr>)) (perform_request pb charge su caller rq s))"

text \<open>A change of the active log or of the number of tables is counted as a flush.\<close>

definition flush_seen :: "OperationKind \<Rightarrow> LabState \<Rightarrow> LabState \<Rightarrow> bool" where
  "flush_seen kind before after =
     (kind \<noteq> CompactOp \<and> (st_active_wal before \<noteq> st_active_wal after \<or> length (st_tables before) \<noteq> length (st_tables after)))"

definition count_success :: "OperationKind \<Rightarrow> bool \<Rightarrow> LabMetrics \<Rightarrow> LabMetrics" where
  "count_success kind flushed m =
     (let m = (if flushed then m\<lparr>lm_flushes := lm_flushes m + 1\<rparr> else m) in
      if kind = CompactOp then m\<lparr>lm_compact_count := lm_compact_count m + 1\<rparr> else m)"

text \<open>What \<open>Execute\<close> keeps of a finished operation: metrics, events and the history.\<close>

definition conclude :: "bool \<Rightarrow> OperationResult \<Rightarrow> Lab \<Rightarrow> Lab" where
  "conclude retain_detail res lab =
     (let kind = rq_kind (or_request res); success = (or_status res = kOk);
          flushed = (success \<and> flush_seen kind (or_before res) (or_after res));
          m = CountLocked kind success (lab_metrics lab);
          lab = lab\<lparr>lab_metrics := (if success then count_success kind flushed m else m)\<rparr>;
          lab = (if flushed \<and> retain_detail
                 then AddEventLocked (or_operation_id res) ''info'' ''flush.publish'' (Text ''Published a new Manifest and active WAL'') lab
                 else lab);
          lab = (if \<not> retain_detail then lab
                 else if success
                 then AddEventLocked (or_operation_id res) ''success'' ''operation.complete'' (Text (''Completed '' @ OperationName kind)) lab
                 else AddEventLocked (or_operation_id res) ''error'' ''operation.error'' (StatusText (or_status res)) lab);
          operations = res # lab_operations lab in
      if retain_detail
      then lab\<lparr>lab_operations := (if length operations > kMaxOperations then butlast operations else operations)\<rparr>
      else lab)"

definition Execute ::
  "Protobuf \<Rightarrow> (InternalEntry list \<Rightarrow> u64) \<Rightarrow> Surroundings \<Rightarrow> bool \<Rightarrow> OperationRequest \<Rightarrow> bool \<Rightarrow> bool \<Rightarrow> Lab
   \<Rightarrow> (OperationResult \<times> Lab) option" where
  "Execute pb charge su active request retain_detail workload_owned lab =
     (let caller = unat (lab_next_operation_id lab);
          (operation_id, lab) = NextOperationIdLocked lab;
          before = SnapshotLocked lab;
          lab = (if retain_detail
                 then AddEventLocked operation_id ''info'' ''operation.start'' (Text (''Started '' @ OperationName (rq_kind request))) lab
                 else lab) in
      Option.bind (dispatch pb charge su active workload_owned caller request lab) (\<lambda>((status, val, entries), lab).
        let res = \<lparr>or_operation_id = operation_id, or_request = request, or_status = status, or_value = val, or_entries = entries,
                   or_before = before, or_after = SnapshotLocked lab\<rparr> in
        Some (res, conclude retain_detail res lab)))"

section \<open>The event history\<close>

type_synonym event_text = "string \<times> string \<times> string \<times> summary"

definition text_of :: "Event \<Rightarrow> event_text" where
  "text_of e = (ev_operation_id e, ev_level e, ev_phase e, ev_summary e)"

fun add_event :: "event_text \<Rightarrow> Lab \<Rightarrow> Lab" where
  "add_event (a, b, c, d) lab = AddEventLocked a b c d lab"

fun numbered :: "u64 \<Rightarrow> event_text list \<Rightarrow> Event list" where
  "numbered n [] = []"
| "numbered n ((a, b, c, d) # xs) =
     \<lparr>ev_id = n, ev_operation_id = a, ev_level = b, ev_phase = c, ev_summary = d\<rparr> # numbered (n + 1) xs"

text \<open>The history holds the latest events, numbered without a gap up to the next number.\<close>

definition events_ok :: "Lab \<Rightarrow> bool" where
  "events_ok lab \<longleftrightarrow> length (lab_events lab) \<le> kMaxEvents \<and> lab_next_event_id lab \<noteq> 0 \<and> (\<forall>e \<in> set (lab_events lab). ev_id e < lab_next_event_id lab)"

lemma numbered_facts [simp]: "length (numbered n xs) = length xs" "map text_of (numbered n xs) = xs"
  by (induction n xs rule: numbered.induct) (simp_all add: text_of_def)

lemma numbered_ids: "unat n + length xs < 2 ^ 64 \<Longrightarrow> e \<in> set (numbered n xs) \<Longrightarrow> n \<le> ev_id e"
proof (induction n xs rule: numbered.induct)
  case (2 n a b c d xs)
  have u: "unat (n + 1) = unat n + 1" using 2(2) by (simp add: unat_word_ariths)
  show ?case
  proof (cases "ev_id e = n")
    case False
    then have "n + 1 \<le> ev_id e" using 2 u by auto
    then show ?thesis using u by (simp add: word_le_nat_alt)
  qed simp
qed simp

lemma add_events:
  "length (lab_events lab) \<le> kMaxEvents \<Longrightarrow>
   lab_events (fold add_event xs lab) =
     drop (length (lab_events lab) + length xs - kMaxEvents) (lab_events lab @ numbered (lab_next_event_id lab) xs)"
proof (induction xs arbitrary: lab)
  case (Cons x xs)
  obtain a b c d where x: "x = (a, b, c, d)" by (cases x)
  let ?e = "\<lparr>ev_id = lab_next_event_id lab, ev_operation_id = a, ev_level = b, ev_phase = c, ev_summary = d\<rparr>"
  let ?l = "AddEventLocked a b c d lab"
  have l: "lab_events ?l = drop (length (lab_events lab) + 1 - kMaxEvents) (lab_events lab @ [?e])" "lab_next_event_id ?l = lab_next_event_id lab + 1"
    using Cons.prems by (auto simp: AddEventLocked_def Let_def drop_Suc Suc_diff_le simp del: drop_append)
  have "length (lab_events ?l) \<le> kMaxEvents" using Cons.prems l(1) by simp
  note IH = Cons.IH [OF this]
  let ?j = "length (lab_events lab) + 1 - kMaxEvents" and ?rest = "numbered (lab_next_event_id lab + 1) xs"
  have pos: "0 < kMaxEvents" "Suc 0 - kMaxEvents = 0" by (simp_all add: kMaxEvents_def)
  have j: "?j \<le> length (lab_events lab @ [?e])" using pos(1) by simp
  have split: "lab_events ?l @ ?rest = drop ?j (lab_events lab @ ?e # ?rest)" using j pos(2) unfolding l(1) by simp
  have "length (lab_events ?l) + length xs - kMaxEvents + ?j = length (lab_events lab) + Suc (length xs) - kMaxEvents"
    using Cons.prems pos(1) unfolding l(1) by auto
  then show ?case using IH split x unfolding l(2) by (simp del: drop_append)
qed simp

section \<open>Properties\<close>

text \<open>
  A client that polls for events misses none and gets none twice: if it asks for the events after the last number it has
  seen, and no more events were added since than the history holds, it gets exactly the added ones, in order.
\<close>

theorem events_delivered:
  assumes "events_ok lab" and "length xs \<le> kMaxEvents" and "unat (lab_next_event_id lab) + length xs < 2 ^ 64"
  shows "EventsAfter (lab_next_event_id lab - 1) (fold add_event xs lab) = numbered (lab_next_event_id lab) xs"
proof -
  let ?n = "lab_next_event_id lab" and ?old = "lab_events lab"
  let ?new = "numbered ?n xs" and ?k = "length ?old + length xs - kMaxEvents"
  have n: "?n \<noteq> 0" "length ?old \<le> kMaxEvents" "\<forall>e \<in> set ?old. ev_id e < ?n" using assms(1) by (simp_all add: events_ok_def)
  have k: "?k \<le> length ?old" using assms(2) by simp
  have after: "m > ?n - 1 \<longleftrightarrow> ?n \<le> m" for m using n(1) unat_minus_one [OF n(1)] unat_gt_0 [of ?n] by (auto simp: word_less_nat_alt word_le_nat_alt)
  have "filter (\<lambda>e. ev_id e > ?n - 1) (drop ?k ?old) = []"
    using n(3) by (auto simp: after filter_empty_conv not_le dest: in_set_dropD)
  moreover have "filter (\<lambda>e. ev_id e > ?n - 1) ?new = ?new"
    using numbered_ids [OF assms(3)] by (auto simp: after filter_id_conv)
  ultimately show ?thesis using add_events [OF n(2), of xs] k by (simp add: EventsAfter_def)
qed

theorem events_delivered_witness:
  "\<exists>lab. EventsAfter 4 (fold add_event [([], ''info'', ''p'', Text ''a''), ([], ''info'', ''q'', Text ''b'')] lab) =
     numbered 5 [([], ''info'', ''p'', Text ''a''), ([], ''info'', ''q'', Text ''b'')]"
proof -
  obtain lab :: Lab where l: "lab_events lab = []" "lab_next_event_id lab = 5"
    by (metis Lab.select_convs(6,9))
  show ?thesis using events_delivered [of lab "[([], ''info'', ''p'', Text ''a''), ([], ''info'', ''q'', Text ''b'')]"] l
    by (intro exI [of _ lab]) (simp add: events_ok_def kMaxEvents_def)
qed

end
