(* ===== verification/Base64.thy ===== *)
theory Base64
  imports Status
begin

unbundle bit_operations_syntax

text \<open>
  Base64, which the tools use to carry arbitrary bytes in JSON: the encoder of the command line (\<open>tools/cli/cli_app.cpp\<close>),
  the encoder and the decoder of the Lab server (\<open>tools/lab/lab_http_server.cpp\<close>) and its printable form of byte strings.
  The two encoders agree, and decoding inverts encoding.
\<close>

section \<open>Encoders\<close>

definition ascii :: "string \<Rightarrow> bytes" where
  "ascii s = map of_char s"

definition alphabet :: bytes where
  "alphabet = ascii ''ABCDEFGHIJKLMNOPQRSTUVWXYZabcdefghijklmnopqrstuvwxyz0123456789+/''"

definition pad :: byte where
  "pad = of_char CHR ''=''"

text \<open>The command line packs three bytes into a 32-bit group and cuts it into four parts.\<close>

definition group_part :: "u32 \<Rightarrow> nat \<Rightarrow> byte" where
  "group_part grp n = alphabet ! unat (drop_bit n grp AND 0x3f)"

fun Cli_Base64Encode :: "bytes \<Rightarrow> bytes" where
  "Cli_Base64Encode (first # second # third # rest) =
     (let grp = push_bit 16 (ucast first) OR push_bit 8 (ucast second) OR ucast third in
      [group_part grp 18, group_part grp 12, group_part grp 6, group_part grp 0] @ Cli_Base64Encode rest)"
| "Cli_Base64Encode [first, second] =
     (let grp = push_bit 16 (ucast first) OR push_bit 8 (ucast second) in
      [group_part grp 18, group_part grp 12, group_part grp 6, pad])"
| "Cli_Base64Encode [first] = (let grp = push_bit 16 (ucast first) in [group_part grp 18, group_part grp 12, pad, pad])"
| "Cli_Base64Encode [] = []"

text \<open>The Lab server cuts the bytes directly; missing bytes count as zero.\<close>

fun Base64Encode :: "bytes \<Rightarrow> bytes" where
  "Base64Encode [] = []"
| "Base64Encode (first # rest) =
     (let second = (case rest of [] \<Rightarrow> 0 | b # _ \<Rightarrow> b);
          third = (case rest of _ # b # _ \<Rightarrow> b | _ \<Rightarrow> 0) in
      [alphabet ! unat (drop_bit 2 first),
       alphabet ! unat (push_bit 4 (first AND 0x03) OR drop_bit 4 second),
       if rest = [] then pad else alphabet ! unat (push_bit 2 (second AND 0x0F) OR drop_bit 6 third),
       if length rest < 2 then pad else alphabet ! unat (third AND 0x3F)] @ Base64Encode (drop 2 rest))"

section \<open>Decoder\<close>

text \<open>The table of the decoder; \<open>None\<close> is its entry \<open>-1\<close>.\<close>

definition table :: "byte \<Rightarrow> byte option" where
  "table b =
     (if of_char CHR ''A'' \<le> b \<and> b \<le> of_char CHR ''Z'' then Some (b - of_char CHR ''A'')
      else if of_char CHR ''a'' \<le> b \<and> b \<le> of_char CHR ''z'' then Some (b - of_char CHR ''a'' + 26)
      else if of_char CHR ''0'' \<le> b \<and> b \<le> of_char CHR ''9'' then Some (b - of_char CHR ''0'' + 52)
      else if b = of_char CHR ''+'' then Some 62
      else if b = of_char CHR ''/'' then Some 63
      else None)"

fun decode_quads :: "bytes \<Rightarrow> bytes option" where
  "decode_quads [] = Some []"
| "decode_quads (first # second # third # fourth # rest) =
     (if first = pad \<or> second = pad then None
      else case (table first, table second, if third = pad then Some 0 else table third, if fourth = pad then Some 0 else table fourth) of
        (Some a, Some b, Some c, Some d) \<Rightarrow>
          if third = pad \<and> fourth \<noteq> pad \<or> (third = pad \<or> fourth = pad) \<and> rest \<noteq> [] then None
          else map_option (\<lambda>bytes. [push_bit 2 a OR drop_bit 4 b] @
                 (if third \<noteq> pad then [push_bit 4 b OR drop_bit 2 c] else []) @
                 (if fourth \<noteq> pad then [push_bit 6 c OR d] else []) @ bytes) (decode_quads rest)
      | _ \<Rightarrow> None)"
| "decode_quads _ = None"

definition Base64Decode :: "bytes \<Rightarrow> bytes option" where
  "Base64Decode input = (if length input mod 4 \<noteq> 0 then None else decode_quads input)"

section \<open>Printable bytes\<close>

definition digits :: bytes where
  "digits = ascii ''0123456789abcdef''"

definition DisplayBytes :: "bytes \<Rightarrow> bytes" where
  "DisplayBytes bytes =
     (if list_all (\<lambda>value. value \<ge> 32 \<and> value \<noteq> 127) bytes then bytes
      else ascii ''0x'' @ concat (map (\<lambda>value. [digits ! unat (drop_bit 4 value), digits ! unat (value AND 0x0F)]) bytes))"

section \<open>The alphabet\<close>

lemma alphabet_blocks:
  "alphabet = map (\<lambda>i. 65 + of_nat i) [0..<26] @ map (\<lambda>i. 97 + of_nat i) [0..<26] @ map (\<lambda>i. 48 + of_nat i) [0..<10] @ [43, 47]"
  by (simp add: alphabet_def ascii_def upt_rec)

lemma letters [simp]: "of_char CHR ''A'' = (65 :: byte)" "of_char CHR ''Z'' = (90 :: byte)" "of_char CHR ''a'' = (97 :: byte)" "of_char CHR ''z'' = (122 :: byte)"
  "of_char CHR ''0'' = (48 :: byte)" "of_char CHR ''9'' = (57 :: byte)" "of_char CHR ''+'' = (43 :: byte)" "of_char CHR ''/'' = (47 :: byte)"
  "of_char CHR ''='' = (61 :: byte)"
  by simp_all

lemma shifted_byte: "k + n < 256 \<Longrightarrow> unat (of_nat k + of_nat n :: byte) = k + n"
  by (simp add: unat_word_ariths unat_of_nat)

lemma byte_neq: "unat a = m \<Longrightarrow> m \<noteq> unat b \<Longrightarrow> a \<noteq> (b :: byte)"
  by auto

lemma alphabet_table:
  assumes "i < 64"
  shows "table (alphabet ! i) = Some (of_nat i) \<and> alphabet ! i \<noteq> pad"
proof -
  consider "i < 26" | "26 \<le> i" "i < 52" | "52 \<le> i" "i < 62" | "i = 62" | "i = 63" using assms by linarith
  then show ?thesis
  proof cases
    case 1
    have e: "alphabet ! i = 65 + of_nat i" using 1 by (simp add: alphabet_blocks nth_append)
    have u: "unat (65 + of_nat i :: byte) = 65 + i" using shifted_byte [of 65 i] 1 by simp
    have r: "65 \<le> (65 + of_nat i :: byte)" "(65 + of_nat i :: byte) \<le> 90" "65 + of_nat i \<noteq> (61 :: byte)"
      using 1 u byte_neq [OF u, of 61] by (simp_all add: word_le_nat_alt)
    show ?thesis unfolding e table_def pad_def letters using r by simp
  next
    case 2
    have "\<not> i < 26" "i - 26 < 26" using 2 by auto
    then have e: "alphabet ! i = 97 + of_nat (i - 26)" by (simp add: alphabet_blocks nth_append)
    have u: "unat (97 + of_nat (i - 26) :: byte) = 97 + (i - 26)" using shifted_byte [of 97 "i - 26"] 2 by simp
    have r: "97 \<le> (97 + of_nat (i - 26) :: byte)" "(97 + of_nat (i - 26) :: byte) \<le> 122" "97 + of_nat (i - 26) \<noteq> (61 :: byte)"
      "\<not> (97 + of_nat (i - 26) :: byte) \<le> 90"
      using 2 u byte_neq [OF u, of 61] by (simp_all add: word_le_nat_alt)
    have "(of_nat (i - 26) + 26 :: byte) = of_nat i" using 2 by simp
    then show ?thesis unfolding e table_def pad_def letters using r by simp
  next
    case 3
    have "\<not> i < 26" "\<not> i - 26 < 26" "i - 26 - 26 = i - 52" "i - 52 < 10" using 3 by auto
    then have e: "alphabet ! i = 48 + of_nat (i - 52)" by (simp add: alphabet_blocks nth_append)
    have u: "unat (48 + of_nat (i - 52) :: byte) = 48 + (i - 52)" using shifted_byte [of 48 "i - 52"] 3 by simp
    have r: "48 \<le> (48 + of_nat (i - 52) :: byte)" "(48 + of_nat (i - 52) :: byte) \<le> 57" "48 + of_nat (i - 52) \<noteq> (61 :: byte)"
      "\<not> 65 \<le> (48 + of_nat (i - 52) :: byte)" "\<not> 97 \<le> (48 + of_nat (i - 52) :: byte)"
      using 3 u byte_neq [OF u, of 61] by (simp_all add: word_le_nat_alt)
    have "(of_nat (i - 52) + 52 :: byte) = of_nat i" using 3 by simp
    then show ?thesis unfolding e table_def pad_def letters using r by simp
  qed (simp_all add: alphabet_blocks nth_append table_def pad_def)
qed

lemma alphabet_byte:
  assumes "w < 64"
  shows "table (alphabet ! unat w) = Some w" "alphabet ! unat w \<noteq> pad"
proof -
  have "unat w < 64" using assms by (simp add: word_less_nat_alt)
  then show "table (alphabet ! unat w) = Some w" "alphabet ! unat w \<noteq> pad" using alphabet_table [of "unat w"] by simp_all
qed

lemma byte_bits: "bit a 0 = bit b 0 \<Longrightarrow> bit a 1 = bit b 1 \<Longrightarrow> bit a 2 = bit b 2 \<Longrightarrow> bit a 3 = bit b 3 \<Longrightarrow> bit a 4 = bit b 4 \<Longrightarrow>
   bit a 5 = bit b 5 \<Longrightarrow> bit a 6 = bit b 6 \<Longrightarrow> bit a 7 = bit b 7 \<Longrightarrow> a = (b :: byte)"
proof (rule bit_word_eqI, goal_cases)
  case (1 n)
  have "n < 8" using 1(9) by simp
  then consider "n = 0" | "n = 1" | "n = 2" | "n = 3" | "n = 4" | "n = 5" | "n = 6" | "n = 7" by linarith
  then show ?case by cases (use 1 in simp_all)
qed

lemma parts_back: "push_bit 2 (drop_bit 2 a) OR drop_bit 4 (push_bit 4 (a AND 3) OR drop_bit 4 b) = (a :: byte)"
  "push_bit 4 (push_bit 4 (a AND 3) OR drop_bit 4 b) OR drop_bit 2 (push_bit 2 (b AND 0x0F) OR drop_bit 6 c) = (b :: byte)"
  "push_bit 6 (push_bit 2 (b AND 0x0F) OR drop_bit 6 c) OR (c AND 0x3F) = (c :: byte)"
  by (rule byte_bits; simp add: bit_simps)+

lemma byte_over: "8 \<le> n \<Longrightarrow> \<not> bit (a :: byte) n"
  using bit_imp_le_length [of a n] by auto

lemma parts_masked: "drop_bit 2 a AND 0x3F = drop_bit 2 (a :: byte)"
  "(push_bit 4 (a AND 3) OR drop_bit 4 b) AND 0x3F = (push_bit 4 (a AND 3) OR drop_bit 4 b :: byte)"
  "(push_bit 2 (a AND 0x0F) OR drop_bit 6 b) AND 0x3F = (push_bit 2 (a AND 0x0F) OR drop_bit 6 b :: byte)"
  "(a AND 0x3F) AND 0x3F = (a AND 0x3F)"
  by (rule byte_bits; simp add: bit_simps byte_over)+

lemma masked_small: "w AND 0x3F = w \<Longrightarrow> w < (64 :: byte)"
proof -
  assume w: "w AND 0x3F = w"
  have "w AND 0x3F \<le> 0x3F" by (rule word_and_le1)
  then show "w < 64" unfolding w by (simp add: word_le_nat_alt word_less_nat_alt)
qed

lemmas parts_small = parts_masked [THEN masked_small]

section \<open>Decoding inverts encoding\<close>

lemma encode_cases:
  "Base64Encode (a # b # c # rest) = [alphabet ! unat (drop_bit 2 a), alphabet ! unat (push_bit 4 (a AND 3) OR drop_bit 4 b),
     alphabet ! unat (push_bit 2 (b AND 0x0F) OR drop_bit 6 c), alphabet ! unat (c AND 0x3F)] @ Base64Encode rest"
  "Base64Encode [a, b] = [alphabet ! unat (drop_bit 2 a), alphabet ! unat (push_bit 4 (a AND 3) OR drop_bit 4 b),
     alphabet ! unat (push_bit 2 (b AND 0x0F) OR drop_bit 6 0), pad]"
  "Base64Encode [a] = [alphabet ! unat (drop_bit 2 a), alphabet ! unat (push_bit 4 (a AND 3) OR drop_bit 4 0), pad, pad]"
  by (simp_all add: Let_def)

lemma encode_length: "length (Base64Encode x) mod 4 = 0"
  by (induction x rule: Base64Encode.induct) (simp_all add: Let_def)

lemma decode_quad:
  "w1 < 64 \<Longrightarrow> w2 < 64 \<Longrightarrow> w3 < 64 \<Longrightarrow> w4 < 64 \<Longrightarrow>
     decode_quads ([alphabet ! unat w1, alphabet ! unat w2, alphabet ! unat w3, alphabet ! unat w4] @ rest) =
     map_option (\<lambda>bytes. [push_bit 2 w1 OR drop_bit 4 w2, push_bit 4 w2 OR drop_bit 2 w3, push_bit 6 w3 OR w4] @ bytes) (decode_quads rest)"
  "w1 < 64 \<Longrightarrow> w2 < 64 \<Longrightarrow> w3 < 64 \<Longrightarrow>
     decode_quads [alphabet ! unat w1, alphabet ! unat w2, alphabet ! unat w3, pad] = Some [push_bit 2 w1 OR drop_bit 4 w2, push_bit 4 w2 OR drop_bit 2 w3]"
  "w1 < 64 \<Longrightarrow> w2 < 64 \<Longrightarrow> decode_quads [alphabet ! unat w1, alphabet ! unat w2, pad, pad] = Some [push_bit 2 w1 OR drop_bit 4 w2]"
  by (simp_all add: alphabet_byte)

lemma decode_encode: "decode_quads (Base64Encode x) = Some x"
proof (induction x rule: Cli_Base64Encode.induct)
  case (1 a b c rest)
  show ?case unfolding encode_cases decode_quad(1) [OF parts_small] parts_back using 1 by simp
next
  case (2 a b)
  show ?case unfolding encode_cases decode_quad(2) [OF parts_small(1-3)] parts_back ..
next
  case (3 a)
  show ?case unfolding encode_cases decode_quad(3) [OF parts_small(1,2)] parts_back ..
qed simp

text \<open>The two encoders cut the same parts.\<close>

lemma part_eq:
  fixes x :: u32 and w :: byte
  assumes w: "w AND 0x3F = w" and bits: "bit x 0 = bit w 0" "bit x 1 = bit w 1" "bit x 2 = bit w 2" "bit x 3 = bit w 3" "bit x 4 = bit w 4" "bit x 5 = bit w 5"
  shows "alphabet ! unat (x AND 0x3f) = alphabet ! unat w"
proof -
  have m: "0x3f = (mask 6 :: u32)" "0x3F = (mask 6 :: byte)" by (simp_all add: mask_eq_exp_minus_1)
  have "x AND 0x3f = ucast w"
  proof (rule bit_word_eqI)
    fix n
    have b: "bit w n \<Longrightarrow> n < 6" using arg_cong [OF w, of "\<lambda>v. bit v n"] by (auto simp: m(2) bit_and_iff bit_mask_iff)
    consider "n = 0" | "n = 1" | "n = 2" | "n = 3" | "n = 4" | "n = 5" | "6 \<le> n" by linarith
    then show "bit (x AND 0x3f) n = bit (ucast w :: u32) n"
      by cases (use bits b in \<open>auto simp: m(1) bit_and_iff bit_mask_iff bit_ucast_iff\<close>)
  qed
  moreover have "unat (ucast w :: u32) = unat w" using unsigned_less [of w, where 'a = nat] by (simp add: unsigned_ucast_eq take_bit_nat_eq_self)
  ultimately show ?thesis by simp
qed

lemma group_parts:
  fixes a b c :: byte
  defines "g \<equiv> push_bit 16 (ucast a) OR push_bit 8 (ucast b) OR ucast c :: u32"
  shows "group_part g 18 = alphabet ! unat (drop_bit 2 a)" "group_part g 12 = alphabet ! unat (push_bit 4 (a AND 3) OR drop_bit 4 b)"
    "group_part g 6 = alphabet ! unat (push_bit 2 (b AND 0x0F) OR drop_bit 6 c)" "group_part g 0 = alphabet ! unat (c AND 0x3F)"
  unfolding group_part_def
  by (rule part_eq [OF parts_masked(1)] part_eq [OF parts_masked(2)] part_eq [OF parts_masked(3)] part_eq [OF parts_masked(4)];
      simp add: g_def bit_simps byte_over)+

section \<open>Properties\<close>

text \<open>
  Base64 as the tools use it loses nothing: the encoders of the command line and of the Lab server produce the same
  characters, and the decoder of the Lab server returns the encoded bytes, for every byte string.
\<close>

theorem base64_roundtrip: "Cli_Base64Encode x = Base64Encode x \<and> Base64Decode (Cli_Base64Encode x) = Some x"
proof
  show e: "Cli_Base64Encode x = Base64Encode x"
  proof (induction x rule: Cli_Base64Encode.induct)
    case (1 a b c rest)
    then show ?case unfolding encode_cases by (simp add: Let_def group_parts del: Base64Encode.simps)
  next
    case (2 a b)
    show ?case unfolding encode_cases using group_parts [of a b 0] by (simp add: Let_def del: Base64Encode.simps)
  next
    case (3 a)
    show ?case unfolding encode_cases using group_parts [of a 0 0] by (simp add: Let_def del: Base64Encode.simps)
  qed simp
  show "Base64Decode (Cli_Base64Encode x) = Some x" by (simp add: e Base64Decode_def encode_length decode_encode)
qed

end
