(* ===== verification/Lab_Workload.thy ===== *)
theory Lab_Workload
  imports Lab_Session Base64 Db_Writers
begin

text \<open>
  Workloads of the Lab (\<open>tools/lab/lab_session.cpp\<close>): a thread runs generated operations on the database, compares every
  answer with a reference map, and can be paused, resumed and cancelled by other threads. The thread is a machine whose
  steps are the critical sections of \<open>RunWorkload\<close>; the commands of other threads interleave with them in any order.
\<close>

section \<open>Configuration and progress\<close>

datatype WorkloadDistribution = kSequential | kUniform | kHotspot

datatype WorkloadStatus = kIdle | kRunning | kPaused | kCompleted | kCancelled | kFailed

record WorkloadConfig =
  wc_operation_count :: u64
  wc_seed :: u64
  wc_key_space :: u64
  wc_value_bytes :: nat
  wc_put_ratio :: u32
  wc_get_ratio :: u32
  wc_delete_ratio :: u32
  wc_operations_per_second :: u32
  wc_distribution :: WorkloadDistribution
  wc_reopen_every :: u64

text \<open>What was expected and what was seen, where the code has texts.\<close>

datatype observation =
  Value bytes | NotFoundText | SuccessText | OpenText | ClosedText | ReadableText | ReopenText
| EntryCount nat | Reported StatusCode

record WorkloadMismatch =
  wm_operation :: u64
  wm_key :: bytes
  wm_expected :: observation
  wm_actual :: observation

definition mismatch_at :: "u64 \<Rightarrow> bytes \<Rightarrow> observation \<Rightarrow> observation \<Rightarrow> WorkloadMismatch" where
  "mismatch_at operation key expected actual = \<lparr>wm_operation = operation, wm_key = key, wm_expected = expected, wm_actual = actual\<rparr>"

text \<open>The number of the run in its identifier; whether the time stamps of start and end are set.\<close>

record WorkloadRun =
  wl_id :: u64
  wl_status :: WorkloadStatus
  wl_config :: WorkloadConfig
  wl_completed_operations :: u64
  wl_started :: bool
  wl_finished :: bool
  wl_mismatch :: "WorkloadMismatch option"
  wl_performance_mode :: bool

abbreviation active_status :: "WorkloadStatus \<Rightarrow> bool" where
  "active_status st \<equiv> st = kRunning \<or> st = kPaused"

section \<open>Generated operations\<close>

definition next_random :: "u64 \<Rightarrow> u64" where
  "next_random random = random * 6364136223846793005 + 1442695040888963407"

text \<open>The index of a key and the generator behind it.\<close>

definition key_index :: "WorkloadConfig \<Rightarrow> u64 \<Rightarrow> u64 \<Rightarrow> u64 \<times> u64" where
  "key_index config operation random =
     (case wc_distribution config of
        kSequential \<Rightarrow> (operation mod wc_key_space config, random)
      | kUniform \<Rightarrow> (let random = next_random random in (random mod wc_key_space config, random))
      | kHotspot \<Rightarrow>
          (let hot_keys = max 1 (wc_key_space config div 5);
               first = next_random random; random = next_random first in
           (if first mod 100 < 80 then random mod hot_keys else random mod wc_key_space config, random)))"

definition key_text :: "u64 \<Rightarrow> bytes" where
  "key_text index = (let digits = decimal (unat index) in ascii (''key-'' @ replicate (8 - length digits) (CHR ''0'') @ digits))"

definition key_for :: "WorkloadConfig \<Rightarrow> u64 \<Rightarrow> u64 \<Rightarrow> bytes \<times> u64" where
  "key_for config operation random = apfst key_text (key_index config operation random)"

definition value_for :: "WorkloadConfig \<Rightarrow> u64 \<Rightarrow> bytes" where
  "value_for config operation =
     (let val = ascii (''value-'' @ decimal (unat operation)); n = wc_value_bytes config in
      take n val @ replicate (n - length val) (of_char CHR ''a'' + of_nat (unat operation mod 26)))"

definition request_of :: "OperationKind \<Rightarrow> bytes \<Rightarrow> bytes \<Rightarrow> OperationRequest" where
  "request_of kind key val = \<lparr>rq_kind = kind, rq_key = key, rq_value = val, rq_begin = [], rq_end = []\<rparr>"

type_synonym reference = "(bytes, bytes) omap"

text \<open>The request, the reference after it and the generator.\<close>

definition generate :: "WorkloadConfig \<Rightarrow> u64 \<Rightarrow> reference \<Rightarrow> u64 \<Rightarrow> OperationRequest \<times> reference \<times> u64" where
  "generate config operation reference random =
     (let (key, random) = key_for config operation random; random = next_random random; selector = random mod 100 in
      if selector < ucast (wc_put_ratio config)
      then (let val = value_for config operation in (request_of PutOp key val, om_put key val reference, random))
      else if selector < ucast (wc_put_ratio config + wc_get_ratio config) then (request_of GetOp key [], reference, random)
      else (request_of DeleteOp key [], om_erase key reference, random))"

section \<open>Comparing with the reference\<close>

definition compare_get :: "u64 \<Rightarrow> bytes \<Rightarrow> reference \<Rightarrow> OperationResult \<Rightarrow> WorkloadMismatch option" where
  "compare_get operation key reference actual =
     (case om_find reference key of
        None \<Rightarrow> if or_status actual \<noteq> kNotFound then Some (mismatch_at operation key NotFoundText (Reported (or_status actual))) else None
      | Some expected \<Rightarrow>
          if or_status actual \<noteq> kOk \<or> or_value actual = None \<or> snd (the (or_value actual)) \<noteq> expected
          then Some (mismatch_at operation key (Value expected)
                 (case or_value actual of Some v \<Rightarrow> Value (snd v) | None \<Rightarrow> NotFoundText))
          else None)"

definition compare_result :: "u64 \<Rightarrow> OperationRequest \<Rightarrow> reference \<Rightarrow> OperationResult \<Rightarrow> WorkloadMismatch option" where
  "compare_result operation request reference actual =
     (if rq_kind request = GetOp then compare_get operation (rq_key request) reference actual
      else if or_status actual \<noteq> kOk then Some (mismatch_at operation (rq_key request) SuccessText (Reported (or_status actual)))
      else None)"

fun compare_entries :: "u64 \<Rightarrow> reference \<Rightarrow> (bytes \<times> bytes) list \<Rightarrow> WorkloadMismatch option" where
  "compare_entries ops ((k, v) # expected) ((k', v') # entries) =
     (if k' \<noteq> k \<or> v' \<noteq> v then Some (mismatch_at ops k' (Value v) (Value v')) else compare_entries ops expected entries)"
| "compare_entries ops _ _ = None"

definition compare_scan :: "u64 \<Rightarrow> reference \<Rightarrow> OperationResult \<Rightarrow> WorkloadMismatch option" where
  "compare_scan ops reference scan =
     (if or_status scan \<noteq> kOk \<or> length (or_entries scan) \<noteq> length reference
      then Some (mismatch_at ops (ascii ''<full-scan>'') (EntryCount (length reference))
             (if or_status scan = kOk then EntryCount (length (or_entries scan)) else Reported (or_status scan)))
      else compare_entries ops reference (or_entries scan))"

section \<open>The thread\<close>

text \<open>Where the thread stands between two critical sections.\<close>

datatype Phase =
  Initial | InitialFailed WorkloadMismatch | Gate u64 | Operate u64 | Reopening u64 bytes
| Recording u64 "WorkloadMismatch option" | Pace u64 | Check | Verify | Mark WorkloadMismatch | Finishing | Ended

record Runner =
  rn_config :: WorkloadConfig
  rn_retain_detail :: bool
  rn_reference :: reference
  rn_random :: u64
  rn_phase :: Phase

text \<open>
  The members that \<open>workload_mutex_\<close> guards, the database behind \<open>mutex_\<close>, the thread while it is joinable, and the callers
  of \<open>StartWorkload\<close> that gave up the mutex to join the previous thread, before and after they have joined it. The process
  ends when a joinable thread is overwritten (\<open>ws_terminated\<close>).
\<close>

record Workload =
  ws_lab :: Lab
  ws_run :: WorkloadRun
  ws_cancel_requested :: bool
  ws_thread :: "Runner option"
  ws_joining :: "WorkloadConfig list"
  ws_joined :: "WorkloadConfig list"
  ws_next_id :: u64
  ws_terminated :: bool

definition IsWorkloadActive :: "Workload \<Rightarrow> bool" where
  "IsWorkloadActive s = active_status (wl_status (ws_run s))"

text \<open>What the session is given: the runtime, the size estimate, the outcome of starting a worker, registry and other threads.\<close>

record Engine =
  en_pb :: Protobuf
  en_charge :: "InternalEntry list \<Rightarrow> u64"
  en_spawned :: bool
  en_registry :: nat
  en_surroundings :: Surroundings

definition at_phase :: "Phase \<Rightarrow> Runner \<Rightarrow> Workload \<Rightarrow> Workload" where
  "at_phase phase r s = s\<lparr>ws_thread := Some (r\<lparr>rn_phase := phase\<rparr>)\<rparr>"

definition on_run :: "(WorkloadRun \<Rightarrow> WorkloadRun) \<Rightarrow> Workload \<Rightarrow> Workload" where
  "on_run f s = s\<lparr>ws_run := f (ws_run s)\<rparr>"

text \<open>The first critical section: a scan fills the reference.\<close>

definition initial_scan :: "Engine \<Rightarrow> Runner \<Rightarrow> Workload \<Rightarrow> Workload option" where
  "initial_scan en r s =
     (let failure = (\<lambda>expected actual. mismatch_at 0 (ascii ''<initial-scan>'') expected actual) in
      case lab_db (ws_lab s) of
        None \<Rightarrow> Some (at_phase (InitialFailed (failure OpenText ClosedText)) r s)
      | Some (q, db) \<Rightarrow>
          Option.bind (Db_Scan (en_charge en) [] [] db) (\<lambda>(res, db).
            let s = s\<lparr>ws_lab := (ws_lab s)\<lparr>lab_db := Some (q, db)\<rparr>\<rparr> in
            case res of
              Ok entries \<Rightarrow>
                Some (at_phase (Gate 0)
                  (r\<lparr>rn_reference := foldl (\<lambda>m (k, v). om_put k v m) [] entries,
                     rn_random := (if wc_seed (rn_config r) = 0 then 1 else wc_seed (rn_config r))\<rparr>) s)
            | Err c \<Rightarrow> Some (at_phase (InitialFailed (failure ReadableText (Reported c))) r s)
            | UB \<Rightarrow> None))"

definition execute_step :: "Engine \<Rightarrow> Runner \<Rightarrow> OperationRequest \<Rightarrow> Workload \<Rightarrow> (OperationResult \<times> Workload) option" where
  "execute_step en r request s =
     map_option (\<lambda>(res, lab). (res, s\<lparr>ws_lab := lab\<rparr>))
       (Execute (en_pb en) (en_charge en) (en_surroundings en) (IsWorkloadActive s) request (rn_retain_detail r) True (ws_lab s))"

definition operate :: "Engine \<Rightarrow> u64 \<Rightarrow> Runner \<Rightarrow> Workload \<Rightarrow> Workload option" where
  "operate en operation r s =
     (let config = rn_config r; (request, reference, random) = generate config operation (rn_reference r) (rn_random r) in
      Option.bind (execute_step en r request s) (\<lambda>(actual, s).
        let r = r\<lparr>rn_reference := reference, rn_random := random\<rparr>; mismatch = compare_result operation request reference actual in
        if mismatch = None \<and> wc_reopen_every config \<noteq> 0 \<and> (operation + 1) mod wc_reopen_every config = 0
        then Some (at_phase (Reopening operation (rq_key request)) r s)
        else Some (at_phase (Recording operation mismatch) r s)))"

definition reopen_step :: "Engine \<Rightarrow> u64 \<Rightarrow> bytes \<Rightarrow> Runner \<Rightarrow> Workload \<Rightarrow> Workload option" where
  "reopen_step en operation key r s =
     Option.bind (Reopen (en_pb en) (en_charge en) (en_spawned en) (en_registry en) (en_surroundings en) (IsWorkloadActive s) True (ws_lab s))
       (\<lambda>(reopened, lab). let s = s\<lparr>ws_lab := lab\<rparr> in
         case reopened of
           Ok _ \<Rightarrow> Some (at_phase (Recording operation None) r s)
         | Err c \<Rightarrow> Some (at_phase (Recording operation (Some (mismatch_at operation key ReopenText (Reported c)))) r s)
         | UB \<Rightarrow> None)"

text \<open>A mismatch is recorded with the status, and then reported in an event.\<close>

definition mismatch_event :: "string \<Rightarrow> Workload \<Rightarrow> Workload" where
  "mismatch_event txt s = s\<lparr>ws_lab := AddEventLocked [] ''error'' ''workload.mismatch'' (Text txt) (ws_lab s)\<rparr>"

definition record_mismatch :: "WorkloadMismatch \<Rightarrow> Workload \<Rightarrow> Workload" where
  "record_mismatch m = on_run (\<lambda>run. run\<lparr>wl_status := kFailed, wl_mismatch := Some m\<rparr>)"

definition record_progress :: "u64 \<Rightarrow> WorkloadMismatch option \<Rightarrow> Runner \<Rightarrow> Workload \<Rightarrow> Workload" where
  "record_progress operation mismatch r s =
     (let s = on_run (\<lambda>run. run\<lparr>wl_completed_operations := operation + 1\<rparr>) s in
      case mismatch of
        None \<Rightarrow> at_phase (Pace operation) r s
      | Some m \<Rightarrow> at_phase Check r (mismatch_event ''Captured the first deterministic reference-model mismatch'' (record_mismatch m s)))"

definition finish_run :: "Workload \<Rightarrow> Workload" where
  "finish_run s =
     on_run (\<lambda>run. (if active_status (wl_status run)
                     then run\<lparr>wl_status := (if ws_cancel_requested s then kCancelled else kCompleted)\<rparr> else run)
                    \<lparr>wl_finished := True\<rparr>) s"

text \<open>
  One step of \<open>RunWorkload\<close>; \<open>None\<close> while it waits or when the database does not return. The wait between two
  operations can always end, because its deadline passes.
\<close>

definition RunWorkload :: "Engine \<Rightarrow> Runner \<Rightarrow> Workload \<Rightarrow> Workload option" where
  "RunWorkload en r s =
     (case rn_phase r of
        Initial \<Rightarrow> initial_scan en r s
      | InitialFailed m \<Rightarrow>
          Some (at_phase Ended r (mismatch_event ''Could not initialize the reference model from TinyLSM''
            (on_run (\<lambda>run. run\<lparr>wl_finished := True\<rparr>) (record_mismatch m s))))
      | Gate operation \<Rightarrow>
          if \<not> operation < wc_operation_count (rn_config r) then Some (at_phase Check r s)
          else if ws_cancel_requested s then Some (at_phase Check r s)
          else if wl_status (ws_run s) = kPaused then None
          else Some (at_phase (Operate operation) r s)
      | Operate operation \<Rightarrow> operate en operation r s
      | Reopening operation key \<Rightarrow> reopen_step en operation key r s
      | Recording operation mismatch \<Rightarrow> Some (record_progress operation mismatch r s)
      | Pace operation \<Rightarrow> Some (at_phase (if ws_cancel_requested s then Check else Gate (operation + 1)) r s)
      | Check \<Rightarrow>
          Some (at_phase (if \<not> ws_cancel_requested s \<and> wl_status (ws_run s) = kRunning then Verify else Finishing) r s)
      | Verify \<Rightarrow>
          Option.bind (execute_step en r (request_of ScanOp [] []) s) (\<lambda>(scan, s).
            case compare_scan (wc_operation_count (rn_config r)) (rn_reference r) scan of
              None \<Rightarrow> Some (at_phase Finishing r s)
            | Some m \<Rightarrow> Some (at_phase (Mark m) r s))
      | Mark m \<Rightarrow> Some (at_phase Finishing r (mismatch_event ''Final full Scan differs from the reference model'' (record_mismatch m s)))
      | Finishing \<Rightarrow> Some (at_phase Ended r (finish_run s))
      | Ended \<Rightarrow> None)"

section \<open>Commands\<close>

definition config_valid :: "WorkloadConfig \<Rightarrow> bool" where
  "config_valid config \<longleftrightarrow>
     \<not> (wc_operation_count config = 0 \<or> wc_key_space config = 0 \<or> wc_operations_per_second config = 0 \<or>
        wc_put_ratio config + wc_get_ratio config + wc_delete_ratio config \<noteq> 100)"

text \<open>The second half of \<open>StartWorkload\<close>; assigning to a thread that is joinable ends the process.\<close>

definition launch :: "WorkloadConfig \<Rightarrow> Workload \<Rightarrow> Workload" where
  "launch config s =
     (let performance_mode = (wc_operations_per_second config \<ge> 500);
          s' = s\<lparr>ws_next_id := ws_next_id s + 1, ws_cancel_requested := False,
                 ws_run := \<lparr>wl_id = ws_next_id s, wl_status = kRunning, wl_config = config, wl_completed_operations = 0,
                            wl_started = True, wl_finished = False, wl_mismatch = None, wl_performance_mode = performance_mode\<rparr>\<rparr> in
      if ws_thread s \<noteq> None then s'\<lparr>ws_terminated := True\<rparr>
      else s'\<lparr>ws_thread := Some \<lparr>rn_config = config, rn_retain_detail = \<not> performance_mode, rn_reference = [], rn_random = 0, rn_phase = Initial\<rparr>\<rparr>)"

text \<open>\<open>StartWorkload\<close> up to its return, or up to the point where it releases the mutex to join the previous thread (\<open>Ok None\<close>).\<close>

definition StartWorkload :: "WorkloadConfig \<Rightarrow> Workload \<Rightarrow> WorkloadRun option result \<times> Workload" where
  "StartWorkload config s =
     (if \<not> config_valid config then (Err kInvalidArgument, s)
      else if lab_db (ws_lab s) = None then (Err kAlreadyClosed, s)
      else if IsWorkloadActive s then (Err kNotSupported, s)
      else if ws_thread s \<noteq> None then (Ok None, s\<lparr>ws_joining := config # ws_joining s\<rparr>)
      else let s = launch config s in (Ok (Some (ws_run s)), s))"

definition PauseWorkload :: "Workload \<Rightarrow> WorkloadRun result \<times> Workload" where
  "PauseWorkload s =
     (if wl_status (ws_run s) \<noteq> kRunning then (Err kNotSupported, s)
      else let s = on_run (\<lambda>run. run\<lparr>wl_status := kPaused\<rparr>) s in (Ok (ws_run s), s))"

definition ResumeWorkload :: "Workload \<Rightarrow> WorkloadRun result \<times> Workload" where
  "ResumeWorkload s =
     (if wl_status (ws_run s) \<noteq> kPaused then (Err kNotSupported, s)
      else let s = on_run (\<lambda>run. run\<lparr>wl_status := kRunning\<rparr>) s in (Ok (ws_run s), s))"

definition CancelWorkload :: "Workload \<Rightarrow> WorkloadRun result \<times> Workload" where
  "CancelWorkload s =
     (if \<not> IsWorkloadActive s then (Err kNotSupported, s)
      else (Ok (ws_run s), s\<lparr>ws_cancel_requested := True\<rparr>))"

text \<open>The request of the destructor, before it joins the thread.\<close>

definition StopWorkload :: "Workload \<Rightarrow> Workload" where
  "StopWorkload s = s\<lparr>ws_cancel_requested := True\<rparr>"

section \<open>Interleavings\<close>

text \<open>Any change of the session by its other clients and the worker of the database is allowed between two steps.\<close>

inductive workload_step :: "Engine \<Rightarrow> Workload \<Rightarrow> Workload \<Rightarrow> bool" for en where
  thread: "ws_thread s = Some r \<Longrightarrow> RunWorkload en r s = Some s' \<Longrightarrow> workload_step en s s'"
| start: "workload_step en s (snd (StartWorkload config s))"
| join: "ws_thread s = Some r \<Longrightarrow> rn_phase r = Ended \<Longrightarrow> ws_joining s = as @ config # bs \<Longrightarrow>
    workload_step en s (s\<lparr>ws_thread := None, ws_joining := as @ bs, ws_joined := config # ws_joined s\<rparr>)"
| relaunch: "ws_joined s = as @ config # bs \<Longrightarrow> workload_step en s (launch config (s\<lparr>ws_joined := as @ bs\<rparr>))"
| pause: "workload_step en s (snd (PauseWorkload s))"
| resume: "workload_step en s (snd (ResumeWorkload s))"
| cancel: "workload_step en s (snd (CancelWorkload s))"
| stop: "workload_step en s (StopWorkload s)"
| elsewhere: "workload_step en s (s\<lparr>ws_lab := lab\<rparr>)"

inductive_cases workload_stepE: "workload_step en s s'"

definition idle_run :: WorkloadRun where
  "idle_run = \<lparr>wl_id = 0, wl_status = kIdle,
     wl_config = \<lparr>wc_operation_count = 0, wc_seed = 0, wc_key_space = 0, wc_value_bytes = 0, wc_put_ratio = 0, wc_get_ratio = 0,
       wc_delete_ratio = 0, wc_operations_per_second = 0, wc_distribution = kUniform, wc_reopen_every = 0\<rparr>,
     wl_completed_operations = 0, wl_started = False, wl_finished = False, wl_mismatch = None, wl_performance_mode = False\<rparr>"

definition idle_workload :: "Lab \<Rightarrow> Workload" where
  "idle_workload lab = \<lparr>ws_lab = lab, ws_run = idle_run, ws_cancel_requested = False, ws_thread = None, ws_joining = [],
     ws_joined = [], ws_next_id = 1, ws_terminated = False\<rparr>"

section \<open>Invariant\<close>

text \<open>What holds while the thread stands at a phase.\<close>

definition phase_ok :: "Phase \<Rightarrow> Workload \<Rightarrow> bool" where
  "phase_ok phase s =
     (let run = ws_run s; done_ops = wl_completed_operations run; all_ops = wc_operation_count (wl_config run); act = IsWorkloadActive s in
      case phase of
        Initial \<Rightarrow> act \<and> done_ops = 0
      | InitialFailed m \<Rightarrow> act \<and> done_ops = 0
      | Gate n \<Rightarrow> act \<and> done_ops = n
      | Operate n \<Rightarrow> act \<and> done_ops = n \<and> n < all_ops
      | Reopening n key \<Rightarrow> act \<and> done_ops = n \<and> n < all_ops
      | Recording n m \<Rightarrow> act \<and> done_ops = n \<and> n < all_ops
      | Pace n \<Rightarrow> act \<and> done_ops = n + 1
      | Check \<Rightarrow> (act \<or> wl_status run = kFailed) \<and> (act \<longrightarrow> ws_cancel_requested s \<or> done_ops = all_ops)
      | Verify \<Rightarrow> act \<and> done_ops = all_ops
      | Mark m \<Rightarrow> act \<and> done_ops = all_ops
      | Finishing \<Rightarrow> (act \<or> wl_status run = kFailed) \<and> (act \<longrightarrow> ws_cancel_requested s \<or> done_ops = all_ops)
      | Ended \<Rightarrow> \<not> act \<and> wl_finished run)"

definition run_ok :: "WorkloadRun \<Rightarrow> bool" where
  "run_ok run \<longleftrightarrow> (wl_status run = kFailed \<longleftrightarrow> wl_mismatch run \<noteq> None) \<and>
     wl_completed_operations run \<le> wc_operation_count (wl_config run) \<and>
     (wl_status run = kCompleted \<longrightarrow> wl_completed_operations run = wc_operation_count (wl_config run))"

definition workload_ok :: "Workload \<Rightarrow> bool" where
  "workload_ok s \<longleftrightarrow> ws_terminated s \<or> run_ok (ws_run s) \<and>
     (case ws_thread s of
        None \<Rightarrow> \<not> IsWorkloadActive s
      | Some r \<Rightarrow> rn_config r = wl_config (ws_run s) \<and> phase_ok (rn_phase r) s)"

lemmas machine_defs = workload_ok_def run_ok_def phase_ok_def IsWorkloadActive_def at_phase_def on_run_def mismatch_event_def
  record_mismatch_def Let_def

lemma execute_frame: "execute_step en r request s = Some (res, s') \<Longrightarrow> \<exists>lab. s' = s\<lparr>ws_lab := lab\<rparr>"
  by (auto simp: execute_step_def)

lemma lab_irrelevant [simp]:
  "phase_ok phase (s\<lparr>ws_lab := lab\<rparr>) = phase_ok phase s" "IsWorkloadActive (s\<lparr>ws_lab := lab\<rparr>) = IsWorkloadActive s"
  by (cases phase) (simp_all add: phase_ok_def IsWorkloadActive_def Let_def)

text \<open>Other threads change the status between running and paused, and request to cancel.\<close>

lemma phase_kept:
  assumes "phase_ok phase s" "IsWorkloadActive s' = IsWorkloadActive s" "wl_status (ws_run s') = kFailed \<longleftrightarrow> wl_status (ws_run s) = kFailed"
    "wl_completed_operations (ws_run s') = wl_completed_operations (ws_run s)" "wl_config (ws_run s') = wl_config (ws_run s)"
    "wl_finished (ws_run s') = wl_finished (ws_run s)" "ws_cancel_requested s \<Longrightarrow> ws_cancel_requested s'"
  shows "phase_ok phase s'"
  using assms by (cases phase) (auto simp: phase_ok_def Let_def)

lemma commanded_ok:
  assumes "workload_ok s" "ws_thread s' = ws_thread s" "ws_terminated s' = ws_terminated s" "IsWorkloadActive s' = IsWorkloadActive s"
    "wl_status (ws_run s') = kFailed \<longleftrightarrow> wl_status (ws_run s) = kFailed" "wl_status (ws_run s') = kCompleted \<longleftrightarrow> wl_status (ws_run s) = kCompleted"
    "wl_completed_operations (ws_run s') = wl_completed_operations (ws_run s)" "wl_config (ws_run s') = wl_config (ws_run s)"
    "wl_finished (ws_run s') = wl_finished (ws_run s)" "wl_mismatch (ws_run s') = wl_mismatch (ws_run s)"
    "ws_cancel_requested s \<Longrightarrow> ws_cancel_requested s'"
  shows "workload_ok s'"
  using assms phase_kept [of _ s s'] by (auto simp: workload_ok_def run_ok_def split: option.splits)

lemma thread_irrelevant [simp]:
  "phase_ok phase (s\<lparr>ws_thread := th\<rparr>) = phase_ok phase s" "IsWorkloadActive (s\<lparr>ws_thread := th\<rparr>) = IsWorkloadActive s"
  by (cases phase) (simp_all add: phase_ok_def IsWorkloadActive_def Let_def)

lemma at_phase_ok:
  "workload_ok (at_phase phase r s) \<longleftrightarrow> ws_terminated s \<or> run_ok (ws_run s) \<and> rn_config r = wl_config (ws_run s) \<and> phase_ok phase s"
  by (simp add: workload_ok_def at_phase_def)

lemma thread_facts:
  "workload_ok s \<Longrightarrow> ws_thread s = Some r \<Longrightarrow> ws_terminated s \<or> run_ok (ws_run s) \<and> rn_config r = wl_config (ws_run s) \<and> phase_ok (rn_phase r) s"
  by (simp add: workload_ok_def)

text \<open>A thread that moves to another phase and touches at most the session and its own variables.\<close>

lemma moved_ok:
  assumes "workload_ok s" "ws_thread s = Some r" "rn_phase r = ph" "rn_config r' = rn_config r" "phase_ok ph s \<Longrightarrow> phase_ok phase s"
  shows "workload_ok (at_phase phase r' (s\<lparr>ws_lab := lab\<rparr>))"
  using thread_facts [OF assms(1,2)] assms(3-5) by (auto simp: at_phase_ok)

lemma step_unsigned: "(n :: u64) < m \<Longrightarrow> n + 1 \<le> m"
  by (simp add: inc_le)

lemma initial_ok:
  assumes "workload_ok s" "ws_thread s = Some r" "rn_phase r = Initial" "initial_scan en r s = Some s'"
  shows "workload_ok s'"
proof -
  obtain phase r' lab where s': "s' = at_phase phase r' (s\<lparr>ws_lab := lab\<rparr>)" "rn_config r' = rn_config r" "phase = Gate 0 \<or> (\<exists>m. phase = InitialFailed m)"
  proof (cases "lab_db (ws_lab s)")
    case None
    then show thesis using assms(4) that [of "InitialFailed (mismatch_at 0 (ascii ''<initial-scan>'') OpenText ClosedText)" r "ws_lab s"]
      by (simp add: initial_scan_def Let_def)
  next
    case (Some qd)
    obtain q db where qd: "qd = (q, db)" by fastforce
    obtain res db' where scan: "Db_Scan (en_charge en) [] [] db = Some (res, db')"
      using assms(4) Some qd by (auto simp: initial_scan_def Let_def bind_eq_Some_conv)
    show thesis
    proof (cases res)
      case (Ok entries)
      then show thesis using assms(4) Some qd scan
        by (intro that [of "Gate 0" "r\<lparr>rn_reference := foldl (\<lambda>m (k, v). om_put k v m) [] entries,
            rn_random := (if wc_seed (rn_config r) = 0 then 1 else wc_seed (rn_config r))\<rparr>" "(ws_lab s)\<lparr>lab_db := Some (q, db')\<rparr>"])
          (simp_all add: initial_scan_def Let_def)
    next
      case (Err c)
      then show thesis using assms(4) Some qd scan
        by (intro that [of "InitialFailed (mismatch_at 0 (ascii ''<initial-scan>'') ReadableText (Reported c))" r "(ws_lab s)\<lparr>lab_db := Some (q, db')\<rparr>"])
          (simp_all add: initial_scan_def Let_def)
    next
      case UB
      then show thesis using assms(4) Some qd scan by (simp add: initial_scan_def Let_def)
    qed
  qed
  have "phase_ok phase s" if "phase_ok Initial s" using that s'(3) by (auto simp: phase_ok_def Let_def)
  then show ?thesis unfolding s'(1) by (rule moved_ok [OF assms(1-3) s'(2)])
qed

lemma operate_ok:
  assumes "workload_ok s" "ws_thread s = Some r" "rn_phase r = Operate n" "operate en n r s = Some s'"
  shows "workload_ok s'"
proof -
  obtain request reference random where g: "generate (rn_config r) n (rn_reference r) (rn_random r) = (request, reference, random)"
    by (cases "generate (rn_config r) n (rn_reference r) (rn_random r)")
  obtain actual lab where e: "execute_step en r request s = Some (actual, s\<lparr>ws_lab := lab\<rparr>)"
    using assms(4) g execute_frame by (fastforce simp: operate_def bind_eq_Some_conv Let_def)
  obtain phase where s': "s' = at_phase phase (r\<lparr>rn_reference := reference, rn_random := random\<rparr>) (s\<lparr>ws_lab := lab\<rparr>)"
    "(\<exists>key. phase = Reopening n key) \<or> (\<exists>m. phase = Recording n m)"
    using assms(4) g e by (auto simp: operate_def Let_def split: if_splits)
  from s'(2) have "phase_ok phase s" if "phase_ok (Operate n) s" using that by (auto simp: phase_ok_def Let_def)
  then show ?thesis unfolding s'(1) by (intro moved_ok [OF assms(1-3)]) simp_all
qed

lemma reopen_ok:
  assumes "workload_ok s" "ws_thread s = Some r" "rn_phase r = Reopening n key" "reopen_step en n key r s = Some s'"
  shows "workload_ok s'"
proof -
  obtain res lab where re: "Reopen (en_pb en) (en_charge en) (en_spawned en) (en_registry en) (en_surroundings en) (IsWorkloadActive s) True (ws_lab s) = Some (res, lab)"
    using assms(4) by (auto simp: reopen_step_def bind_eq_Some_conv)
  obtain m where s': "s' = at_phase (Recording n m) r (s\<lparr>ws_lab := lab\<rparr>)"
    using assms(4) re by (cases res) (auto simp: reopen_step_def Let_def)
  have "phase_ok (Recording n m) s" if "phase_ok (Reopening n key) s" using that by (simp add: phase_ok_def Let_def)
  then show ?thesis unfolding s' by (intro moved_ok [OF assms(1-3)]) simp_all
qed

lemma verify_ok:
  assumes "workload_ok s" "ws_thread s = Some r" "rn_phase r = Verify" "RunWorkload en r s = Some s'"
  shows "workload_ok s'"
proof -
  obtain scan lab where e: "execute_step en r (request_of ScanOp [] []) s = Some (scan, s\<lparr>ws_lab := lab\<rparr>)"
    using assms(3,4) execute_frame by (fastforce simp: RunWorkload_def bind_eq_Some_conv)
  obtain phase where s': "s' = at_phase phase r (s\<lparr>ws_lab := lab\<rparr>)" "phase = Finishing \<or> (\<exists>m. phase = Mark m)"
    using assms(3,4) e by (auto simp: RunWorkload_def split: option.splits)
  from s'(2) have "phase_ok phase s" if "phase_ok Verify s" using that by (auto simp: phase_ok_def Let_def)
  then show ?thesis unfolding s'(1) by (intro moved_ok [OF assms(1-3)]) simp_all
qed

lemma failed_ok:
  assumes "workload_ok s" "ws_thread s = Some r" "run_ok (ws_run s) \<Longrightarrow> phase_ok (rn_phase r) s \<Longrightarrow> wl_completed_operations (ws_run s') \<le> wc_operation_count (wl_config (ws_run s))"
    "ws_terminated s' = ws_terminated s" "wl_config (ws_run s') = wl_config (ws_run s)" "phase = Check \<or> phase = Finishing"
  shows "workload_ok (at_phase phase r (mismatch_event txt (record_mismatch m s')))"
  using thread_facts [OF assms(1,2)] assms(3-6)
  by (auto simp: at_phase_ok mismatch_event_def record_mismatch_def on_run_def run_ok_def phase_ok_def IsWorkloadActive_def Let_def)

lemma thread_ok:
  assumes "workload_ok s" "ws_thread s = Some r" "RunWorkload en r s = Some s'"
  shows "workload_ok s'"
proof (cases "rn_phase r")
  case Initial
  then show ?thesis using initial_ok assms by (simp add: RunWorkload_def)
next
  case (InitialFailed m)
  then show ?thesis using assms(3) thread_facts [OF assms(1,2)]
    by (auto simp: RunWorkload_def at_phase_ok mismatch_event_def record_mismatch_def on_run_def run_ok_def phase_ok_def IsWorkloadActive_def Let_def)
next
  case (Gate n)
  then show ?thesis using assms(3) thread_facts [OF assms(1,2)]
    by (auto simp: RunWorkload_def at_phase_ok run_ok_def phase_ok_def Let_def not_less split: if_splits)
next
  case (Operate n)
  then show ?thesis using operate_ok assms by (simp add: RunWorkload_def)
next
  case (Reopening n key)
  then show ?thesis using reopen_ok assms by (simp add: RunWorkload_def)
next
  case (Recording n m)
  have le: "phase_ok (Recording n m) s \<Longrightarrow> n + 1 \<le> wc_operation_count (wl_config (ws_run s))"
    using step_unsigned by (simp add: phase_ok_def Let_def)
  show ?thesis
  proof (cases m)
    case None
    then show ?thesis using assms(3) thread_facts [OF assms(1,2)] Recording le
      by (auto simp: RunWorkload_def record_progress_def at_phase_ok on_run_def run_ok_def phase_ok_def IsWorkloadActive_def Let_def)
  next
    case (Some x)
    have "s' = at_phase Check r (mismatch_event ''Captured the first deterministic reference-model mismatch''
        (record_mismatch x (on_run (\<lambda>run. run\<lparr>wl_completed_operations := n + 1\<rparr>) s)))"
      using assms(3) Recording Some by (simp add: RunWorkload_def record_progress_def)
    then show ?thesis using Recording le by (auto intro!: failed_ok [OF assms(1,2)] simp: on_run_def)
  qed
next
  case (Pace n)
  then show ?thesis using assms(3) thread_facts [OF assms(1,2)] by (auto simp: RunWorkload_def at_phase_ok phase_ok_def Let_def)
next
  case Check
  then show ?thesis using assms(3) thread_facts [OF assms(1,2)]
    by (auto simp: RunWorkload_def at_phase_ok phase_ok_def IsWorkloadActive_def Let_def)
next
  case Verify
  then show ?thesis using verify_ok assms by blast
next
  case (Mark m)
  then have "s' = at_phase Finishing r (mismatch_event ''Final full Scan differs from the reference model'' (record_mismatch m s))"
    using assms(3) by (simp add: RunWorkload_def)
  then show ?thesis by (auto intro!: failed_ok [OF assms(1,2)] simp: run_ok_def)
next
  case Finishing
  then show ?thesis using assms(3) thread_facts [OF assms(1,2)]
    by (auto simp: RunWorkload_def at_phase_ok finish_run_def on_run_def run_ok_def phase_ok_def IsWorkloadActive_def Let_def)
next
  case Ended
  then show ?thesis using assms(3) by (simp add: RunWorkload_def)
qed

lemma launch_ok: "workload_ok (launch config s)"
  by (simp add: launch_def workload_ok_def run_ok_def phase_ok_def IsWorkloadActive_def Let_def)

lemma workload_step_ok: "workload_step en s s' \<Longrightarrow> workload_ok s \<Longrightarrow> workload_ok s'"
proof (induction rule: workload_step.induct)
  case (thread s r s')
  then show ?case using thread_ok by blast
next
  case (start s config)
  have "workload_ok (s\<lparr>ws_joining := config # ws_joining s\<rparr>)"
    by (rule commanded_ok [OF start]) (simp_all add: IsWorkloadActive_def)
  then show ?case using start launch_ok by (simp add: StartWorkload_def Let_def)
next
  case (join s r as config bs)
  then show ?case by (auto simp: machine_defs)
next
  case (relaunch s as config bs)
  show ?case by (rule launch_ok)
next
  case (pause s)
  show ?case by (rule commanded_ok [OF pause]) (simp_all add: PauseWorkload_def on_run_def IsWorkloadActive_def Let_def)
next
  case (resume s)
  show ?case by (rule commanded_ok [OF resume]) (simp_all add: ResumeWorkload_def on_run_def IsWorkloadActive_def Let_def)
next
  case (cancel s)
  show ?case by (rule commanded_ok [OF cancel]) (simp_all add: CancelWorkload_def IsWorkloadActive_def)
next
  case (stop s)
  show ?case by (rule commanded_ok [OF stop]) (simp_all add: StopWorkload_def IsWorkloadActive_def)
next
  case (elsewhere s lab)
  show ?case by (rule commanded_ok [OF elsewhere]) (simp_all add: IsWorkloadActive_def)
qed

lemma workload_run_ok: "(workload_step en)\<^sup>*\<^sup>* s s' \<Longrightarrow> workload_ok s \<Longrightarrow> workload_ok s'"
  by (induction rule: rtranclp_induct) (auto intro: workload_step_ok)

lemma idle_ok: "workload_ok (idle_workload lab)"
  by (simp add: workload_ok_def run_ok_def idle_workload_def idle_run_def IsWorkloadActive_def)

section \<open>The reference and the database\<close>

text \<open>A run of \<open>Execute\<close> is its operation of the database; what it reports and counts does not touch the database.\<close>

lemma event_db [simp]: "lab_db (AddEventLocked a b c e lab) = lab_db lab"
  by (simp add: AddEventLocked_def Let_def)

lemma conclude_db [simp]: "lab_db (conclude retain res lab) = lab_db lab"
  by (simp add: conclude_def Let_def)

lemma Execute_owned:
  assumes "Execute pb charge su act rq retain True lab = Some (res, lab')" "lab_db lab = Some s"
  obtains s' where "perform_request pb charge su (unat (lab_next_operation_id lab)) rq s = Some ((or_status res, or_value res, or_entries res), s')"
    "lab_db lab' = Some s'"
proof -
  obtain lab1 where d: "Option.bind (dispatch pb charge su act True (unat (lab_next_operation_id lab)) rq lab1) (\<lambda>((status, val, entries), lab2).
      let res = \<lparr>or_operation_id = fst (NextOperationIdLocked lab), or_request = rq, or_status = status, or_value = val, or_entries = entries,
                 or_before = SnapshotLocked (snd (NextOperationIdLocked lab)), or_after = SnapshotLocked lab2\<rparr> in
      Some (res, conclude retain res lab2)) = Some (res, lab')" "lab_db lab1 = lab_db lab"
    using assms(1) by (cases retain) (auto simp: Execute_def Let_def NextOperationIdLocked_def)
  obtain out s' where p: "perform_request pb charge su (unat (lab_next_operation_id lab)) rq s = Some (out, s')"
    using d assms(2) by (auto simp: dispatch_def bind_eq_Some_conv)
  then have "out = (or_status res, or_value res, or_entries res)" "lab_db lab' = Some s'"
    using d assms(2) by (auto simp: dispatch_def Let_def split: prod.splits)
  then show thesis using that p by simp
qed

lemma write_result:
  assumes "alone caller (q, d)" "sys_ok (d, w)" "holds_map d (- 1) f" "SubmitWrite pb others (\<lambda>_ s. s) caller batch (q, d) = Some (Ok (), q', d')"
  shows "\<exists>w'. sys_ok (d', w') \<and> holds_map d' (- 1) (apply_operations batch f)"
proof -
  obtain r q1 d1 where s: "SubmitWrite pb others (\<lambda>_ s. s) caller batch (q, d) = Some (r, q1, d1)"
    "performs pb (\<lambda>_. 1) (\<lambda>ops. r = Ok () \<longrightarrow> ops = batch) d d1"
    by (rule submit_alone [OF assms(1)])
  then have "performs pb (\<lambda>_. 1) (\<lambda>ops. ops = batch) d d'" using assms(4) by simp
  then obtain w' where run: "labelled_run (sys_step pb (\<lambda>_. 1)) (d, w) batch (d', w')" using assms(2) by (auto simp: performs_def)
  show ?thesis using key_value.invar_run [OF run assms(2)] key_value.simulated_run [OF run assms(2)] assms(3) by auto
qed

text \<open>What the workload relies on between two of its operations.\<close>

definition engine_matches :: "nat \<Rightarrow> reference \<Rightarrow> shared \<Rightarrow> bool" where
  "engine_matches caller reference s = (case s of (q, d) \<Rightarrow> (\<exists>w. sys_ok (d, w)) \<and> holds_map d (- 1) (om_find reference) \<and> om_sorted reference \<and>
     alone caller (q, d) \<and> CheckOpen d = kOk \<and> (\<forall>t \<in> set (db_tables d). reads_ok (ra_reads (dt_file t))))"

lemma read_latest:
  assumes "engine_matches caller reference (q, d)"
  shows "\<exists>r d' w'. Db_Get charge key None d = (r, d') \<and> (\<forall>v. r = Ok v \<longleftrightarrow> om_find reference key = Some v) \<and> (r = Err kNotFound \<or> (\<exists>v. r = Ok v)) \<and>
    sys_ok (d', w') \<and> holds_map d' (- 1) (om_find reference)"
proof -
  obtain w where e: "sys_ok (d, w)" "holds_map d (- 1) (om_find reference)" "CheckOpen d = kOk"
    "\<forall>t \<in> set (db_tables d). reads_ok (ra_reads (dt_file t))" using assms by (auto simp: engine_matches_def)
  have "holds_map d (read_sequence None d) (om_find reference)" using e(1,2) holds_latest [of d] by (simp add: sys_ok_def read_sequence_def)
  then obtain r d' where g: "Db_Get charge key None d = (r, d')" "\<forall>v. r = Ok v \<longleftrightarrow> om_find reference key = Some v" "r = Err kNotFound \<or> (\<exists>v. r = Ok v)"
    using read_here [OF e(1,4,3), of None "om_find reference" charge key] by (auto simp: foreign_snapshot_def)
  have "db_readable d" using e(1,4) by (simp add: sys_ok_def db_ok_def db_readable_def)
  then have step: "sys_step any_pb charge (d, w) [] (d', w)" using g(1) by (rule sys_step.get [rotated])
  have "sys_ok (d', w)" by (rule key_value.invar_step [OF e(1) step])
  moreover have "holds_map d' (- 1) (om_find reference)" using key_value.simulated_step [OF e(1) step, of "om_find reference"] e(2) by (simp add: apply_operations_def)
  ultimately show ?thesis using g by blast
qed

lemma scan_everything:
  assumes "engine_matches caller reference (q, d)"
  shows "\<exists>d'. Db_Scan charge [] [] d = Some (Ok reference, d')"
proof -
  obtain w where e: "sys_ok (d, w)" "holds_map d (- 1) (om_find reference)" "CheckOpen d = kOk" "om_sorted reference"
    "\<forall>t \<in> set (db_tables d). reads_ok (ra_reads (dt_file t))" using assms by (auto simp: engine_matches_def)
  have r: "db_readable d" using e(1,5) by (simp add: sys_ok_def db_ok_def db_readable_def)
  obtain es x where s: "Db_Scan charge [] [] d = Some (Ok (map (\<lambda>e. (user_key e, evalue e)) es), d\<lparr>db_read_metrics := x\<rparr>)"
    "sorted_wrt (<) (map user_key es)"
    "set es = {e. visible (set (concat (scan_sources [] [] d))) (user_key e) (db_next_sequence d - 1) e \<and> etype e = kValue}"
    using Db_Scan_ok [OF r e(3), of "[]" "[]"] by blast
  define kv where "kv = map (\<lambda>e. (user_key e, evalue e)) es"
  have es: "e' \<in> set es \<longleftrightarrow> visible (contents d) (user_key e') (db_next_sequence d - 1) e' \<and> etype e' = kValue" for e'
    unfolding s(3) using scan_visible_in_range [OF r, of "[]" "[]"] by (simp add: in_range_def)
  have sorted: "om_sorted kv" using s(2) by (simp add: kv_def comp_def)
  have eq: "om_find kv k = Some v \<longleftrightarrow> om_find reference k = Some v" for k v
  proof -
    have "(k, v) \<in> set kv \<longleftrightarrow> live_value (contents d) k (db_next_sequence d - 1) v"
      unfolding live_value_def kv_def using es by (force simp: visible_def)
    then have "om_find kv k = Some v \<longleftrightarrow> live_value (contents d) k (db_next_sequence d - 1) v"
      unfolding om_find_in_set [OF sorted] .
    also have "\<dots> \<longleftrightarrow> om_find reference k = Some v"
      using e(1,2) holds_latest [of d "om_find reference"] by (simp add: sys_ok_def holds_map_def)
    finally show ?thesis .
  qed
  have "om_find kv k = om_find reference k" for k using eq [of k] by (cases "om_find reference k"; cases "om_find kv k") auto
  then have "om_find kv = om_find reference" by blast
  then have "kv = reference" by (rule om_eqI [OF sorted e(4)])
  then show ?thesis using s(1) unfolding kv_def by simp
qed

lemma compare_entries_same: "compare_entries n m m = None"
  by (induction m) auto

lemma generate_sound:
  assumes "generate config n reference random = (rq, reference', random')" "om_sorted reference"
  shows "om_sorted reference' \<and>
    (case rq_kind rq of
       PutOp \<Rightarrow> om_find reference' = (om_find reference)(rq_key rq \<mapsto> rq_value rq)
     | GetOp \<Rightarrow> reference' = reference
     | DeleteOp \<Rightarrow> om_find reference' = (om_find reference)(rq_key rq := None)
     | _ \<Rightarrow> False)"
  using assms om_sorted_put om_sorted_erase om_find_erase
  by (auto simp: generate_def request_of_def Let_def split: prod.splits if_splits)

lemma SubmitWrite_Err: "SubmitWrite pb others env caller batch s = Some (Err c, s') \<Longrightarrow> c \<noteq> kOk"
  by (auto simp: SubmitWrite_def enqueue_def bind_eq_Some_conv Let_def split: if_splits prod.splits)

lemma write_outcome:
  assumes "Option.bind (SubmitWrite pb others env caller batch s)
      (\<lambda>(r, s). case r of Ok _ \<Rightarrow> Some ((kOk, None, []), s) | Err c \<Rightarrow> Some ((c, None, []), s) | UB \<Rightarrow> None) = Some ((st, val, es), s')" "st = kOk"
  shows "SubmitWrite pb others env caller batch s = Some (Ok (), s')"
proof -
  obtain r s1 where w: "SubmitWrite pb others env caller batch s = Some (r, s1)" using assms(1) by (auto simp: bind_eq_Some_conv)
  then show ?thesis using assms SubmitWrite_Err [of pb others env caller batch s] by (cases r) auto
qed

text \<open>One operation of the workload, on a database that matches the reference.\<close>

lemma perform_generated:
  assumes "engine_matches caller reference (q, d)" "su_queue su = (\<lambda>_ s. s)"
    "generate config n reference random = (rq, reference', random')" "perform_request pb charge su caller rq (q, d) = Some ((st, val, es), q', d')"
  shows "(rq_kind rq = GetOp \<longrightarrow> (case om_find reference (rq_key rq) of None \<Rightarrow> st = kNotFound | Some v \<Rightarrow> st = kOk \<and> val = Some (rq_key rq, v))) \<and>
    (st = kOk \<or> rq_kind rq = GetOp \<longrightarrow> (\<exists>w'. sys_ok (d', w') \<and> holds_map d' (- 1) (om_find reference')))"
proof -
  obtain w where e: "sys_ok (d, w)" "holds_map d (- 1) (om_find reference)" "alone caller (q, d)" "om_sorted reference"
    using assms(1) by (auto simp: engine_matches_def)
  note g = generate_sound [OF assms(3) e(4)]
  have written: "\<exists>w'. sys_ok (d', w') \<and> holds_map d' (- 1) (apply_operations batch (om_find reference))"
    if "SubmitWrite pb (su_others su) (su_queue su) caller batch (q, d) = Some (Ok (), q', d')" for batch
    using write_result [OF e(3,1,2)] that assms(2) by simp
  show ?thesis
  proof (cases "rq_kind rq")
    case PutOp
    then have p: "Option.bind (SubmitWrite pb (su_others su) (su_queue su) caller [\<lparr>op_type = kPut, op_key = rq_key rq, op_value = rq_value rq\<rparr>] (q, d))
        (\<lambda>(r, s). case r of Ok _ \<Rightarrow> Some ((kOk, None, []), s) | Err c \<Rightarrow> Some ((c, None, []), s) | UB \<Rightarrow> None) = Some ((st, val, es), q', d')"
      using assms(4) by (simp add: perform_request_def Db_Put_def Batch_Put_def Let_def)
    show ?thesis using PutOp g written [OF write_outcome [OF p]] by (auto simp: apply_operations_def)
  next
    case DeleteOp
    then have p: "Option.bind (SubmitWrite pb (su_others su) (su_queue su) caller [\<lparr>op_type = kDelete, op_key = rq_key rq, op_value = []\<rparr>] (q, d))
        (\<lambda>(r, s). case r of Ok _ \<Rightarrow> Some ((kOk, None, []), s) | Err c \<Rightarrow> Some ((c, None, []), s) | UB \<Rightarrow> None) = Some ((st, val, es), q', d')"
      using assms(4) by (simp add: perform_request_def Db_Delete_def Batch_Delete_def Let_def)
    show ?thesis using DeleteOp g written [OF write_outcome [OF p]] by (auto simp: apply_operations_def)
  next
    case GetOp
    obtain r d1 w' where get: "Db_Get charge (rq_key rq) None d = (r, d1)" "\<forall>v. r = Ok v \<longleftrightarrow> om_find reference (rq_key rq) = Some v"
      "r = Err kNotFound \<or> (\<exists>v. r = Ok v)" "sys_ok (d1, w')" "holds_map d1 (- 1) (om_find reference)"
      using read_latest [OF assms(1), of charge "rq_key rq"] by blast
    have ref: "reference' = reference" using g GetOp by simp
    show ?thesis
    proof (cases "om_find reference (rq_key rq)")
      case None
      then have "r = Err kNotFound" using get(2,3) by auto
      then show ?thesis using None ref get(1,4,5) assms(4) GetOp by (auto simp: perform_request_def)
    next
      case (Some v)
      then have "r = Ok v" using get(2) by blast
      then show ?thesis using Some ref get(1,4,5) assms(4) GetOp by (auto simp: perform_request_def)
    qed
  next
    case ScanOp
    then show ?thesis using g by simp
  next
    case CompactOp
    then show ?thesis using g by simp
  qed
qed

section \<open>Commands at a bad moment\<close>

text \<open>A step of the thread alone.\<close>

definition thread_step :: "Engine \<Rightarrow> Workload \<Rightarrow> Workload \<Rightarrow> bool" where
  "thread_step en s s' \<longleftrightarrow> (\<exists>r. ws_thread s = Some r \<and> RunWorkload en r s = Some s')"

lemma thread_moves: "RunWorkload en (r\<lparr>rn_phase := phase\<rparr>) (at_phase phase r s) = Some s' \<Longrightarrow> thread_step en (at_phase phase r s) s'"
  by (simp add: thread_step_def at_phase_def)

lemma at_phase_fields [simp]:
  "ws_cancel_requested (at_phase phase r s) = ws_cancel_requested s" "ws_run (at_phase phase r s) = ws_run s" "ws_lab (at_phase phase r s) = ws_lab s"
  "at_phase phase' (r\<lparr>rn_phase := x\<rparr>) (at_phase phase r s) = at_phase phase' r s"
  by (simp_all add: at_phase_def)

text \<open>
  Two callers start a workload after one has ended: the first releases the mutex to join the old thread, the second starts a
  new one meanwhile, and the first does not look again before it overwrites the thread object.
\<close>

lemma concurrent_starts_terminate:
  assumes "ws_thread s = Some r" "rn_phase r = Ended" "\<not> IsWorkloadActive s" "lab_db (ws_lab s) \<noteq> None" "config_valid c" "config_valid c'"
  shows "\<exists>s'. (workload_step en)\<^sup>*\<^sup>* s s' \<and> ws_terminated s'"
proof -
  define s1 where "s1 = s\<lparr>ws_joining := c # ws_joining s\<rparr>"
  define s2 where "s2 = s1\<lparr>ws_thread := None, ws_joining := ws_joining s, ws_joined := c # ws_joined s1\<rparr>"
  have "snd (StartWorkload c s) = s1" using assms by (auto simp: StartWorkload_def s1_def)
  then have 1: "workload_step en s s1" using workload_step.start [of en s c] by simp
  have 2: "workload_step en s1 s2"
    using workload_step.join [where s = s1 and r = r and as = "[]" and config = c and bs = "ws_joining s"] assms(1,2) by (simp add: s1_def s2_def)
  have "snd (StartWorkload c' s2) = launch c' s2" using assms(3,4,6) by (auto simp: StartWorkload_def s1_def s2_def IsWorkloadActive_def Let_def)
  then have 3: "workload_step en s2 (launch c' s2)" using workload_step.start [of en s2 c'] by simp
  have joined: "ws_joined (launch c' s2) = [] @ c # ws_joined s" by (simp add: launch_def s2_def s1_def Let_def)
  have "ws_terminated (launch c ((launch c' s2)\<lparr>ws_joined := [] @ ws_joined s\<rparr>))" by (simp add: launch_def s2_def Let_def)
  moreover have "workload_step en (launch c' s2) (launch c ((launch c' s2)\<lparr>ws_joined := [] @ ws_joined s\<rparr>))"
    by (rule workload_step.relaunch [OF joined])
  ultimately show ?thesis using 1 2 3 by (meson converse_rtranclp_into_rtranclp rtranclp.rtrancl_refl)
qed

section \<open>Sample states\<close>

definition sample_engine :: Engine where
  "sample_engine = \<lparr>en_pb = any_pb, en_charge = (\<lambda>_. 1), en_spawned = True, en_registry = 0,
     en_surroundings = \<lparr>su_others = (\<lambda>_ d. d), su_queue = (\<lambda>_ s. s), su_writers = (\<lambda>_ s. s), su_close = (\<lambda>_ d. d)\<rparr>\<rparr>"

definition sample_config :: WorkloadConfig where
  "sample_config = \<lparr>wc_operation_count = 1, wc_seed = 1, wc_key_space = 10, wc_value_bytes = 8, wc_put_ratio = 0, wc_get_ratio = 100,
     wc_delete_ratio = 0, wc_operations_per_second = 10, wc_distribution = kSequential, wc_reopen_every = 0\<rparr>"

definition sample_lab :: Lab where
  "sample_lab = \<lparr>lab_db = Some (empty_queue, small_db), lab_disks = (\<lambda>_. young_fs), lab_path = ''db'', lab_options = sample_options,
     lab_operations = [], lab_events = [], lab_metrics = \<lparr>lm_puts = 0, lm_gets = 0, lm_deletes = 0, lm_scans = 0, lm_compactions = 0,
     lm_errors = 0, lm_flushes = 0, lm_compact_count = 0\<rparr>, lab_next_operation_id = 1, lab_next_event_id = 1\<rparr>"

definition sample_workload :: Workload where
  "sample_workload = launch sample_config (idle_workload sample_lab)"

lemma sample_started: "workload_step sample_engine (idle_workload sample_lab) sample_workload"
proof -
  have "snd (StartWorkload sample_config (idle_workload sample_lab)) = sample_workload"
    by (simp add: StartWorkload_def config_valid_def sample_config_def idle_workload_def sample_lab_def idle_run_def IsWorkloadActive_def
        sample_workload_def Let_def)
  then show ?thesis using workload_step.start [of sample_engine "idle_workload sample_lab" sample_config] by simp
qed

lemma sample_matches: "engine_matches 1 [] (empty_queue, small_db)"
  using small_db_ok small_db_map [of "- 1"] small_alone
  by (auto simp: engine_matches_def CheckOpen_def small_db_def sample_db_def)

section \<open>Properties\<close>

text \<open>
  C27: The state of a workload makes sense in every interleaving of the thread with commands to start, pause, resume, cancel and
  stop it. It is failed exactly when a mismatch is recorded; it never counts more operations than were asked for, and a
  completed one has run all of them; while it is running or paused there is a thread of the same configuration that has not
  ended, and a thread that has ended left a final status and its time of completion.
\<close>

theorem workload_states_consistent:
  assumes "(workload_step en)\<^sup>*\<^sup>* (idle_workload lab) s" and "\<not> ws_terminated s"
  shows "(wl_status (ws_run s) = kFailed \<longleftrightarrow> wl_mismatch (ws_run s) \<noteq> None) \<and>
    wl_completed_operations (ws_run s) \<le> wc_operation_count (wl_config (ws_run s)) \<and>
    (wl_status (ws_run s) = kCompleted \<longrightarrow> wl_completed_operations (ws_run s) = wc_operation_count (wl_config (ws_run s))) \<and>
    (IsWorkloadActive s \<longrightarrow> (\<exists>r. ws_thread s = Some r \<and> rn_phase r \<noteq> Ended \<and> rn_config r = wl_config (ws_run s))) \<and>
    (\<forall>r. ws_thread s = Some r \<and> rn_phase r = Ended \<longrightarrow> \<not> IsWorkloadActive s \<and> wl_finished (ws_run s))"
  using workload_run_ok [OF assms(1) idle_ok] assms(2)
  by (auto simp: workload_ok_def run_ok_def phase_ok_def Let_def split: option.splits)

theorem workload_states_consistent_witness:
  "(workload_step sample_engine)\<^sup>*\<^sup>* (idle_workload sample_lab) sample_workload \<and> IsWorkloadActive sample_workload \<and>
     (\<exists>r. ws_thread sample_workload = Some r \<and> rn_phase r \<noteq> Ended)"
proof -
  have run: "(workload_step sample_engine)\<^sup>*\<^sup>* (idle_workload sample_lab) sample_workload" using sample_started by (rule r_into_rtranclp)
  have "\<not> ws_terminated sample_workload" "IsWorkloadActive sample_workload"
    by (simp_all add: sample_workload_def launch_def idle_workload_def Let_def IsWorkloadActive_def)
  then show ?thesis using workload_states_consistent [OF run] run by blast
qed



text \<open>
  C28: A pause can cost the final check. If a workload is paused while it waits after its last operation, the thread does not
  stay paused: it runs to its end, by its own steps and without touching the database, and the workload is reported as
  completed although the database was never compared with the reference.
\<close>

theorem paused_workload_completes_unverified:
  assumes "ws_thread s = Some r" and "rn_phase r = Pace n" and "n + 1 = wc_operation_count (rn_config r)"
    and "wl_status (ws_run s) = kRunning" and "\<not> ws_cancel_requested s"
  shows "\<exists>s'. wl_status (ws_run (snd (PauseWorkload s))) = kPaused \<and> (thread_step en)\<^sup>*\<^sup>* (snd (PauseWorkload s)) s' \<and>
    wl_status (ws_run s') = kCompleted \<and> ws_lab s' = ws_lab s"
proof -
  define p where "p = snd (PauseWorkload s)"
  have p: "wl_status (ws_run p) = kPaused" "\<not> ws_cancel_requested p" "ws_thread p = Some r" "ws_lab p = ws_lab s"
    using assms by (simp_all add: p_def PauseWorkload_def on_run_def Let_def)
  have 1: "thread_step en p (at_phase (Gate (n + 1)) r p)" using p(2,3) assms(2) by (simp add: thread_step_def RunWorkload_def)
  have 2: "thread_step en (at_phase (Gate (n + 1)) r p) (at_phase Check r p)" using assms(3) by (intro thread_moves) (simp add: RunWorkload_def)
  have 3: "thread_step en (at_phase Check r p) (at_phase Finishing r p)" using p(1) by (intro thread_moves) (simp add: RunWorkload_def)
  have 4: "thread_step en (at_phase Finishing r p) (at_phase Ended r (finish_run (at_phase Finishing r p)))"
    by (intro thread_moves) (simp add: RunWorkload_def at_phase_def)
  have "(thread_step en)\<^sup>*\<^sup>* p (at_phase Ended r (finish_run (at_phase Finishing r p)))"
    using 1 2 3 4 by (meson converse_rtranclp_into_rtranclp rtranclp.rtrancl_refl)
  moreover have "wl_status (ws_run (finish_run (at_phase Finishing r p))) = kCompleted" "ws_lab (finish_run (at_phase Finishing r p)) = ws_lab s"
    using p by (simp_all add: finish_run_def on_run_def)
  ultimately show ?thesis unfolding p_def [symmetric] using p(1) by (intro exI [of _ "at_phase Ended r (finish_run (at_phase Finishing r p))"]) simp
qed

theorem paused_workload_completes_unverified_witness:
  "\<exists>r s'. rn_phase r = Pace 0 \<and> (thread_step sample_engine)\<^sup>*\<^sup>* (snd (PauseWorkload (sample_workload\<lparr>ws_thread := Some r\<rparr>))) s' \<and>
     wl_status (ws_run s') = kCompleted"
proof -
  define r where "r = \<lparr>rn_config = sample_config, rn_retain_detail = True, rn_reference = [([1], [2])], rn_random = 5, rn_phase = Pace 0\<rparr>"
  have "ws_thread (sample_workload\<lparr>ws_thread := Some r\<rparr>) = Some r" "rn_phase r = Pace 0" "0 + 1 = wc_operation_count (rn_config r)"
    "wl_status (ws_run (sample_workload\<lparr>ws_thread := Some r\<rparr>)) = kRunning" "\<not> ws_cancel_requested (sample_workload\<lparr>ws_thread := Some r\<rparr>)"
    by (simp_all add: r_def sample_config_def sample_workload_def launch_def idle_workload_def Let_def)
  from paused_workload_completes_unverified [OF this, of sample_engine] this(2) show ?thesis by blast
qed

end
