(* ===== verification/Storage_Inspector.thy ===== *)
theory Storage_Inspector
  imports Wal_Log Manifest_Codec Sstable_Reader Filename
begin

text \<open>
  \<open>tools/lab/storage_inspector.cpp\<close>: reading the files of a database without opening it, page by page, for the Lab. The
  inspector decodes with the codecs of the engine and reports what does not decode. The files stand still during a call.
  The properties say that the pages of a log list its records exactly once and in order, and what goes wrong at a torn
  header.
\<close>

section \<open>Files\<close>

text \<open>What a name of the database directory stands for; a faulty file has a size but cannot be opened or read.\<close>

datatype disk_file = Absent | Symlink | Regular bytes | Faulty nat

type_synonym directory = "string \<Rightarrow> disk_file"

definition kMaxPageItems :: nat where "kMaxPageItems = 100"
definition kMaxRangeBytes :: nat where "kMaxRangeBytes = 256 * 1024"

lemmas inspector_limits = kMaxPageItems_def kMaxRangeBytes_def

definition file_size :: "directory \<Rightarrow> string \<Rightarrow> nat result" where
  "file_size disk name =
     (case disk name of Regular data \<Rightarrow> Ok (length data) | Faulty n \<Rightarrow> Ok n | _ \<Rightarrow> Err kIOError)"

definition ReadFileRange :: "directory \<Rightarrow> string \<Rightarrow> nat \<Rightarrow> nat \<Rightarrow> bytes result" where
  "ReadFileRange disk name offset len =
     rbind (file_size disk name) (\<lambda>bytes_total.
       if offset > bytes_total \<or> len > bytes_total - offset then Err kInvalidArgument
       else case disk name of Regular data \<Rightarrow> Ok (take len (drop offset data)) | _ \<Rightarrow> Err kIOError)"

text \<open>
  A canonical name has one path component. A missing file is reported here or by the next call; the code is the same.
\<close>

definition CanonicalFile :: "directory \<Rightarrow> string \<Rightarrow> bool \<Rightarrow> string result" where
  "CanonicalFile disk name allow_manifest =
     (if name = [] \<or> CHR ''/'' \<in> set name then Err kInvalidArgument
      else if \<not> (allow_manifest \<and> name = ''MANIFEST'') \<and> ParseNumberedFileName name = None then Err kInvalidArgument
      else case disk name of Symlink \<Rightarrow> Err kInvalidArgument | Absent \<Rightarrow> Err kIOError | _ \<Rightarrow> Ok name)"

section \<open>Items and pages\<close>

record InspectedEntry =
  ie_key :: bytes
  ie_value :: bytes
  ie_sequence :: u64
  ie_tombstone :: bool

definition CopyEntry :: "InternalEntry \<Rightarrow> InspectedEntry" where
  "CopyEntry e = \<lparr>ie_key = user_key e, ie_value = evalue e, ie_sequence = sequence e, ie_tombstone = (etype e = kTombstone)\<rparr>"

record WalRecordPageItem =
  wi_offset :: nat
  wi_encoded_bytes :: nat
  wi_entry :: "InspectedEntry option"
  wi_validation_error :: "StatusCode option"

record SstableBlockPageItem =
  bi_index :: nat
  bi_offset :: u64
  bi_size :: u64
  bi_smallest_key :: bytes
  bi_largest_key :: bytes
  bi_entries :: "InspectedEntry list"
  bi_validation_error :: "StatusCode option"

record 'a PagedResult =
  pg_items :: "'a list"
  pg_next_cursor :: "nat option"
  pg_has_more :: bool

record ManifestInspection =
  mi_format_version :: u32
  mi_active_wal :: u64
  mi_next_file_number :: u64
  mi_last_sequence :: u64

section \<open>The manifest\<close>

definition Manifest :: "Protobuf \<Rightarrow> directory \<Rightarrow> ManifestInspection result" where
  "Manifest pb disk =
     rbind (CanonicalFile disk ''MANIFEST'' True) (\<lambda>path.
     rbind (file_size disk path) (\<lambda>bytes_total.
       if bytes_total > kMaxManifestFileBytes then Err kResourceExhausted
       else
         rbind (ReadFileRange disk path 0 bytes_total) (\<lambda>bytes.
         rbind (Decode pb bytes) (\<lambda>decoded.
           Ok \<lparr>mi_format_version = ucast (Get16 bytes 4), mi_active_wal = active_wal_number decoded,
               mi_next_file_number = next_file_number decoded, mi_last_sequence = last_sequence decoded\<rparr>))))"

section \<open>The log\<close>

definition default_limits :: DecodeLimits where
  "default_limits = \<lparr>max_key_bytes = 4 * 1024 * 1024, max_value_bytes = 64 * 1024 * 1024\<rparr>"

text \<open>The entry shown for a record: of a batch, the first.\<close>

definition inspect_record :: "bytes \<Rightarrow> (InspectedEntry option \<times> StatusCode option) result" where
  "inspect_record rec =
     (case DecodeWalRecord rec default_limits of
        Ok e \<Rightarrow> Ok (Some (CopyEntry e), None)
      | UB \<Rightarrow> UB
      | Err _ \<Rightarrow>
          (case DecodeWalBatch rec default_limits of
             Ok es \<Rightarrow> (case es of [] \<Rightarrow> Ok (None, Some kCorruption) | e # _ \<Rightarrow> Ok (Some (CopyEntry e), None))
           | Err c \<Rightarrow> Ok (None, Some c)
           | UB \<Rightarrow> UB))"

text \<open>The loop over a page with room for \<open>n\<close> more items, and the offset behind it.\<close>

fun wal_items :: "(nat \<Rightarrow> nat \<Rightarrow> bytes result) \<Rightarrow> nat \<Rightarrow> nat \<Rightarrow> nat \<Rightarrow> (WalRecordPageItem list \<times> nat) result" where
  "wal_items read bytes_total offset 0 = Ok ([], offset)"
| "wal_items read bytes_total offset (Suc n) =
     (if bytes_total \<le> offset then Ok ([], offset)
      else case read offset kWalHeaderSize of
        UB \<Rightarrow> UB
      | Err c \<Rightarrow> Ok ([\<lparr>wi_offset = offset, wi_encoded_bytes = 0, wi_entry = None, wi_validation_error = Some c\<rparr>], offset)
      | Ok header \<Rightarrow>
          let payload_size = unat (Get32 header 8) in
          if payload_size > bytes_total - offset - kWalHeaderSize
          then Ok ([\<lparr>wi_offset = offset, wi_encoded_bytes = bytes_total - offset, wi_entry = None, wi_validation_error = Some kCorruption\<rparr>], bytes_total)
          else
            let encoded = kWalHeaderSize + payload_size in
            rbind (case read offset encoded of Ok rec \<Rightarrow> inspect_record rec | Err c \<Rightarrow> Ok (None, Some c) | UB \<Rightarrow> UB) (\<lambda>(e, err).
            rbind (wal_items read bytes_total (offset + encoded) n) (\<lambda>(items, end_offset).
              Ok (\<lparr>wi_offset = offset, wi_encoded_bytes = encoded, wi_entry = e, wi_validation_error = err\<rparr> # items, end_offset))))"

definition WalRecords :: "directory \<Rightarrow> string \<Rightarrow> nat \<Rightarrow> nat \<Rightarrow> WalRecordPageItem PagedResult result" where
  "WalRecords disk name cursor limit =
     rbind (CanonicalFile disk name False) (\<lambda>path.
       if (case ParseNumberedFileName name of None \<Rightarrow> True | Some f \<Rightarrow> fn_type f \<noteq> kWal) then Err kInvalidArgument
       else if limit = 0 \<or> limit > kMaxPageItems then Err kInvalidArgument
       else rbind (file_size disk path) (\<lambda>bytes_total.
         if cursor > bytes_total then Err kInvalidArgument
         else rbind (wal_items (ReadFileRange disk path) bytes_total cursor limit) (\<lambda>(items, offset).
           Ok \<lparr>pg_items = items, pg_next_cursor = (if offset < bytes_total then Some offset else None), pg_has_more = (offset < bytes_total)\<rparr>)))"

section \<open>Tables\<close>

definition inspect_footer :: "(nat \<Rightarrow> nat \<Rightarrow> bytes result) \<Rightarrow> nat \<Rightarrow> Footer result" where
  "inspect_footer read bytes_total =
     rbind (read (bytes_total - kSstableV1FooterSize) kSstableV1FooterSize) (\<lambda>v1.
       case DecodeFooter v1 of
         Ok footer \<Rightarrow> Ok footer
       | UB \<Rightarrow> UB
       | Err c \<Rightarrow>
           if bytes_total < kSstableFooterSize then Err c
           else rbind (read (bytes_total - kSstableFooterSize) kSstableFooterSize) DecodeFooter)"

definition index_range_bad :: "Footer \<Rightarrow> u64 \<Rightarrow> bool" where
  "index_range_bad f sections_end =
     (ft_index_offset f > sections_end \<or> ft_index_size f > sections_end - ft_index_offset f \<or> ft_index_size f > of_nat kMaxRangeBytes \<or>
      ft_version f = kSstableVersionV1 \<and> ft_index_offset f + ft_index_size f \<noteq> sections_end \<or>
      ft_version f = kSstableVersion \<and>
        (ft_index_offset f + ft_index_size f \<noteq> ft_properties_offset f \<or> ft_properties_offset f > sections_end \<or>
         ft_properties_size f > sections_end - ft_properties_offset f \<or> ft_properties_offset f + ft_properties_size f \<noteq> sections_end))"

definition inspect_block :: "(nat \<Rightarrow> nat \<Rightarrow> bytes result) \<Rightarrow> u32 \<Rightarrow> nat \<Rightarrow> BlockMeta \<Rightarrow> SstableBlockPageItem result" where
  "inspect_block read version index meta =
     (let item = \<lparr>bi_index = index, bi_offset = bm_offset meta, bi_size = bm_size meta, bi_smallest_key = bm_first_key meta,
                  bi_largest_key = bm_last_key meta, bi_entries = [], bi_validation_error = None\<rparr> in
      if unat (bm_size meta) > kMaxRangeBytes then Ok (item\<lparr>bi_validation_error := Some kResourceExhausted\<rparr>)
      else case read (unat (bm_offset meta)) (unat (bm_size meta)) of
        UB \<Rightarrow> UB
      | Err c \<Rightarrow> Ok (item\<lparr>bi_validation_error := Some c\<rparr>)
      | Ok block \<Rightarrow>
          (case DecodeDataBlock block version of
             Ok es \<Rightarrow> Ok (item\<lparr>bi_entries := map CopyEntry es\<rparr>)
           | Err c \<Rightarrow> Ok (item\<lparr>bi_validation_error := Some c\<rparr>)
           | UB \<Rightarrow> UB))"

fun inspect_blocks :: "(nat \<Rightarrow> nat \<Rightarrow> bytes result) \<Rightarrow> u32 \<Rightarrow> nat \<Rightarrow> BlockMeta list \<Rightarrow> SstableBlockPageItem list result" where
  "inspect_blocks read version index [] = Ok []"
| "inspect_blocks read version index (meta # metas') =
     rbind (inspect_block read version index meta) (\<lambda>item.
     rbind (inspect_blocks read version (index + 1) metas') (\<lambda>items. Ok (item # items)))"

definition SstableBlocks :: "directory \<Rightarrow> string \<Rightarrow> nat \<Rightarrow> nat \<Rightarrow> SstableBlockPageItem PagedResult result" where
  "SstableBlocks disk name cursor limit =
     rbind (CanonicalFile disk name False) (\<lambda>path.
       if (case ParseNumberedFileName name of None \<Rightarrow> True | Some f \<Rightarrow> fn_type f \<noteq> kSstable) then Err kInvalidArgument
       else if limit = 0 \<or> limit > kMaxPageItems then Err kInvalidArgument
       else rbind (file_size disk path) (\<lambda>bytes_total.
         if bytes_total < kSstableV1FooterSize then Err kCorruption
         else rbind (inspect_footer (ReadFileRange disk path) bytes_total) (\<lambda>footer.
           let footer_size = (if ft_version footer = kSstableVersionV1 then kSstableV1FooterSize else kSstableFooterSize);
               sections_end = of_nat bytes_total - of_nat footer_size in
           if index_range_bad footer sections_end then Err kCorruption
           else rbind (ReadFileRange disk path (unat (ft_index_offset footer)) (unat (ft_index_size footer))) (\<lambda>index_bytes.
             rbind (DecodeIndex index_bytes) (\<lambda>blocks.
               if cursor > length blocks then Err kInvalidArgument
               else
                 let stop = min (length blocks) (cursor + limit) in
                 rbind (inspect_blocks (ReadFileRange disk path) (ft_version footer) cursor (take (stop - cursor) (drop cursor blocks))) (\<lambda>items.
                   Ok \<lparr>pg_items = items, pg_next_cursor = (if stop < length blocks then Some stop else None),
                       pg_has_more = (stop < length blocks)\<rparr>))))))"

definition FileBytes :: "directory \<Rightarrow> string \<Rightarrow> nat \<Rightarrow> nat \<Rightarrow> bytes result" where
  "FileBytes disk name offset len =
     (if len = 0 \<or> len > kMaxRangeBytes then Err kInvalidArgument
      else rbind (CanonicalFile disk name True) (\<lambda>path. ReadFileRange disk path offset len))"

section \<open>Reading whole records\<close>

lemma read_regular: "disk name = Regular data \<Longrightarrow> ReadFileRange disk name off n =
    (if off + n \<le> length data then Ok (take n (drop off data)) else Err kInvalidArgument)"
  by (auto simp: ReadFileRange_def file_size_def)

lemma wal_name: "n \<noteq> 0 \<Longrightarrow> ParseNumberedFileName (WalFileName n) = Some \<lparr>fn_number = n, fn_type = kWal\<rparr>"
  "CHR ''/'' \<notin> set (WalFileName n)" "WalFileName n \<noteq> []"
proof -
  show "ParseNumberedFileName (WalFileName n) = Some \<lparr>fn_number = n, fn_type = kWal\<rparr>" if "n \<noteq> 0"
    unfolding WalFileName_def by (rule Parse_Format [OF that])
  show "CHR ''/'' \<notin> set (WalFileName n)" "WalFileName n \<noteq> []"
    using padded_digits [of "unat n"] padded_facts(1) [of "unat n"] unfolding WalFileName_def Format_padded by (auto simp: is_digit_def)
qed

lemma wal_page:
  assumes "disk (WalFileName n) = Regular data" "n \<noteq> 0" "cursor \<le> length data" "0 < limit" "limit \<le> kMaxPageItems"
  shows "WalRecords disk (WalFileName n) cursor limit =
    rbind (wal_items (ReadFileRange disk (WalFileName n)) (length data) cursor limit) (\<lambda>(items, offset).
      Ok \<lparr>pg_items = items, pg_next_cursor = (if offset < length data then Some offset else None), pg_has_more = (offset < length data)\<rparr>)"
  using assms wal_name [of n] by (simp add: WalRecords_def CanonicalFile_def file_size_def)

lemma batch_shown:
  assumes ok: "batch_ok default_limits es"
  shows "inspect_record (batch_frame es) = Ok (Some (CopyEntry (hd es)), None)"
proof -
  have "Get16 (batch_frame es) 4 = kWalBatchVersion" "7 < length (batch_frame es)"
    by (simp_all add: batch_frame_layout slice_simps)
  then have "DecodeWalRecord (batch_frame es) default_limits = Err kCorruption"
    by (simp add: DecodeWalRecord_def Let_def span_at_def kWalVersion_def kWalBatchVersion_def)
  moreover have "DecodeWalBatch (batch_frame es) default_limits = Ok es" by (rule EncodeDecodeWalBatch [OF ok])
  moreover have "es \<noteq> []" using ok by (simp add: batch_ok_def)
  ultimately show ?thesis by (cases es) (simp_all add: inspect_record_def)
qed

text \<open>The items of a run of batches from an offset on.\<close>

fun record_items :: "nat \<Rightarrow> InternalEntry list list \<Rightarrow> WalRecordPageItem list" where
  "record_items offset [] = []"
| "record_items offset (es # bs) =
     \<lparr>wi_offset = offset, wi_encoded_bytes = length (batch_frame es), wi_entry = Some (CopyEntry (hd es)), wi_validation_error = None\<rparr>
     # record_items (offset + length (batch_frame es)) bs"

text \<open>A torn header, too short to be read, is reported and left where it is.\<close>

definition torn_items :: "nat \<Rightarrow> bytes \<Rightarrow> WalRecordPageItem list" where
  "torn_items offset torn = (if torn = [] then [] else
     [\<lparr>wi_offset = offset, wi_encoded_bytes = 0, wi_entry = None, wi_validation_error = Some kInvalidArgument\<rparr>])"

lemma wal_items_batches:
  assumes "disk name = Regular data" "data = pre @ log_bytes bs @ torn" "\<forall>es \<in> set bs. batch_ok default_limits es" "length torn < 16"
  shows "wal_items (ReadFileRange disk name) (length data) (length pre) n =
    Ok (record_items (length pre) (take n bs) @ (if length bs < n then torn_items (length pre + length (log_bytes bs)) torn else []),
        length pre + length (log_bytes (take n bs)))"
  using assms(2,3)
proof (induction bs arbitrary: pre n)
  case Nil
  then show ?case using assms(1,4) by (cases n) (auto simp: torn_items_def read_regular kWalHeaderSize_def)
next
  case (Cons es bs)
  show ?case
  proof (cases n)
    case (Suc m)
    let ?p = "length (batch_payload es)"
    have ok: "batch_ok default_limits es" using Cons.prems by simp
    have len: "length (batch_frame es) = 16 + ?p" by (simp add: batch_frame_header batch_header_def)
    have u: "unat (of_nat ?p :: u32) = ?p" by (rule unat_of_nat_u32 [OF batch_ok_sizes(2) [OF ok]])
    have d: "data = pre @ batch_header es @ batch_payload es @ log_bytes bs @ torn" using Cons.prems(1) by (simp flip: batch_frame_header)
    have h: "length (batch_header es) = 16" by (simp add: batch_header_def)
    have r1: "ReadFileRange disk name (length pre) 16 = Ok (batch_header es)" using assms(1) d h by (simp add: read_regular)
    have r2: "ReadFileRange disk name (length pre) (16 + ?p) = Ok (batch_frame es)" using assms(1) d h by (simp add: read_regular batch_frame_header)
    have next_page: "wal_items (ReadFileRange disk name) (length data) (length pre + (16 + ?p)) m =
        Ok (record_items (length pre + (16 + ?p)) (take m bs) @ (if length bs < m then torn_items (length pre + (16 + ?p) + length (log_bytes bs)) torn else []),
            length pre + (16 + ?p) + length (log_bytes (take m bs)))"
      using Cons.IH [of "pre @ batch_frame es" m] Cons.prems len by simp
    show ?thesis using Suc d h len u r1 r2 next_page batch_shown [OF ok]
      by (simp add: kWalHeaderSize_def header_fields Let_def add.assoc)
  qed simp
qed

section \<open>A client that follows the cursors\<close>

text \<open>It asks for page after page, at most as often as its fuel allows.\<close>

fun follow_pages :: "nat \<Rightarrow> (nat \<Rightarrow> 'a PagedResult result) \<Rightarrow> nat \<Rightarrow> 'a list option" where
  "follow_pages 0 page cursor = None"
| "follow_pages (Suc fuel) page cursor =
     (case page cursor of
        Ok p \<Rightarrow> (case pg_next_cursor p of None \<Rightarrow> Some (pg_items p) | Some c \<Rightarrow> map_option (\<lambda>rest. pg_items p @ rest) (follow_pages fuel page c))
      | _ \<Rightarrow> None)"

lemma wal_page_batches:
  assumes "disk (WalFileName n) = Regular (log_bytes bs @ torn)" "n \<noteq> 0" "\<forall>es \<in> set bs. batch_ok default_limits es" "length torn < 16"
    "k \<le> length bs" "0 < limit" "limit \<le> kMaxPageItems"
  shows "WalRecords disk (WalFileName n) (length (log_bytes (take k bs))) limit =
    (let more = k + limit < length bs \<or> torn \<noteq> [] in
     Ok \<lparr>pg_items = record_items (length (log_bytes (take k bs))) (take limit (drop k bs)) @
           (if length bs < k + limit then torn_items (length (log_bytes bs)) torn else []),
         pg_next_cursor = (if more then Some (length (log_bytes (take (k + limit) bs))) else None), pg_has_more = more\<rparr>)"
proof -
  let ?data = "log_bytes bs @ torn" and ?pre = "log_bytes (take k bs)"
  have split: "?data = ?pre @ log_bytes (drop k bs) @ torn" by (metis append.assoc append_take_drop_id concat_append map_append)
  have all: "length (log_bytes bs) = length ?pre + length (log_bytes (drop k bs))"
    by (metis append_take_drop_id concat_append length_append map_append)
  have cut: "length ?pre + length (log_bytes (take limit (drop k bs))) = length (log_bytes (take (k + limit) bs))" by (simp add: take_add)
  have items: "wal_items (ReadFileRange disk (WalFileName n)) (length ?data) (length ?pre) limit =
      Ok (record_items (length ?pre) (take limit (drop k bs)) @ (if length bs < k + limit then torn_items (length (log_bytes bs)) torn else []),
          length (log_bytes (take (k + limit) bs)))"
  proof -
    have ok: "\<forall>es \<in> set (drop k bs). batch_ok default_limits es" using assms(3) by (auto dest: in_set_dropD)
    have room: "length (drop k bs) < limit \<longleftrightarrow> length bs < k + limit" using assms(5) by auto
    show ?thesis
      using wal_items_batches [where disk = disk and name = "WalFileName n" and pre = ?pre and bs = "drop k bs" and torn = torn and n = limit,
          OF assms(1) split ok assms(4)] unfolding room cut all .
  qed
  have "length (log_bytes (take (k + limit) bs)) < length ?data \<longleftrightarrow> k + limit < length bs \<or> torn \<noteq> []"
  proof (cases "k + limit < length bs")
    case True
    have "length (batch_frame (bs ! (k + limit))) > 0" by (simp add: length_batch_frame)
    moreover have "log_bytes bs = log_bytes (take (k + limit) bs) @ batch_frame (bs ! (k + limit)) @ log_bytes (drop (Suc (k + limit)) bs)"
      using id_take_nth_drop [OF True] by (metis concat.simps(2) concat_append list.simps(9) map_append)
    ultimately show ?thesis using True by simp
  qed simp
  then show ?thesis
    using wal_page [where disk = disk, OF assms(1,2) _ assms(6,7), of "length ?pre"] items split by (simp add: Let_def)
qed

section \<open>Properties\<close>

text \<open>
  C24: The pages of a log are complete. A client that follows the cursors through a log of encoded batches gets every record
  exactly once, in order, with its offset and its first entry, whatever the size of the pages, and is done after at most one
  page more than there are records.
\<close>

theorem wal_pages_complete:
  assumes "disk (WalFileName n) = Regular (log_bytes bs)" and "n \<noteq> 0" and "\<forall>es \<in> set bs. batch_ok default_limits es"
    and "0 < limit" and "limit \<le> kMaxPageItems" and "length bs < fuel"
  shows "follow_pages fuel (\<lambda>cursor. WalRecords disk (WalFileName n) cursor limit) 0 = Some (record_items 0 bs)"
proof -
  have items: "record_items off (as @ cs) = record_items off as @ record_items (off + length (log_bytes as)) cs" for off as cs
    by (induction as arbitrary: off) (simp_all add: add.assoc)
  have "follow_pages fuel (\<lambda>cursor. WalRecords disk (WalFileName n) cursor limit) (length (log_bytes (take k bs))) =
      Some (record_items (length (log_bytes (take k bs))) (drop k bs))" if "k \<le> length bs" "length bs - k < fuel" for k
    using that
  proof (induction fuel arbitrary: k)
    case (Suc fuel)
    have d: "disk (WalFileName n) = Regular (log_bytes bs @ [])" using assms(1) by simp
    note page = wal_page_batches [where disk = disk and bs = bs and torn = "[]" and k = k, OF d assms(2,3) _ Suc.prems(1) assms(4,5), simplified, unfolded Let_def]
    show ?case
    proof (cases "k + limit < length bs")
      case True
      have "length bs - (k + limit) < fuel" using Suc.prems(2) True assms(4) by linarith
      then have rest: "follow_pages fuel (\<lambda>cursor. WalRecords disk (WalFileName n) cursor limit) (length (log_bytes (take (k + limit) bs))) =
          Some (record_items (length (log_bytes (take (k + limit) bs))) (drop (k + limit) bs))" using Suc.IH True by simp
      have "drop k bs = take limit (drop k bs) @ drop (k + limit) bs" by (metis add.commute append_take_drop_id drop_drop)
      moreover have "length (log_bytes (take (k + limit) bs)) = length (log_bytes (take k bs)) + length (log_bytes (take limit (drop k bs)))"
        by (simp add: take_add)
      ultimately have "record_items (length (log_bytes (take k bs))) (drop k bs) =
          record_items (length (log_bytes (take k bs))) (take limit (drop k bs)) @ record_items (length (log_bytes (take (k + limit) bs))) (drop (k + limit) bs)"
        using items by metis
      then show ?thesis using page True rest by simp
    next
      case False
      then show ?thesis using page by (simp add: torn_items_def)
    qed
  qed simp
  from this [of 0] show ?thesis using assms(6) by simp
qed

theorem wal_pages_complete_witness:
  "\<exists>e. follow_pages 3 (\<lambda>cursor. WalRecords (\<lambda>_. Regular (log_bytes [[e], [e]])) (WalFileName 1) cursor 1) 0 = Some (record_items 0 [[e], [e]])"
proof -
  let ?e = "\<lparr>user_key = [1], sequence = 1, etype = kValue, evalue = [2]\<rparr>"
  have "batch_ok default_limits [?e]"
    by (simp add: batch_ok_def default_limits_def entry_fits_def entry_ok_def wal_consts max_u32_def)
  then show ?thesis
    by (intro exI [of _ ?e] wal_pages_complete) (simp_all add: kMaxPageItems_def)
qed

text \<open>
  C25: At a torn header the inspector never lets its client finish. When a log ends in fewer bytes than a record header, as a
  crash leaves it, the page that starts at them succeeds, reports them, and has as its next cursor its own cursor: a client
  that follows the cursors from the beginning gets no end, however often it asks.
\<close>

theorem torn_header_pages_forever:
  assumes "disk (WalFileName n) = Regular (log_bytes bs @ torn)" and "n \<noteq> 0" and "\<forall>es \<in> set bs. batch_ok default_limits es"
    and "torn \<noteq> []" and "length torn < kWalHeaderSize" and "0 < limit" and "limit \<le> kMaxPageItems"
  shows "WalRecords disk (WalFileName n) (length (log_bytes bs)) limit =
      Ok \<lparr>pg_items = torn_items (length (log_bytes bs)) torn, pg_next_cursor = Some (length (log_bytes bs)), pg_has_more = True\<rparr> \<and>
    follow_pages fuel (\<lambda>cursor. WalRecords disk (WalFileName n) cursor limit) 0 = None"
proof
  have "length torn < 16" using assms(5) by (simp add: kWalHeaderSize_def)
  from wal_page_batches [where disk = disk and bs = bs and torn = torn and k = "length bs", OF assms(1-3) this le_refl assms(6,7)]
  show "WalRecords disk (WalFileName n) (length (log_bytes bs)) limit =
      Ok \<lparr>pg_items = torn_items (length (log_bytes bs)) torn, pg_next_cursor = Some (length (log_bytes bs)), pg_has_more = True\<rparr>"
    using assms(4,6) by (simp add: Let_def)
next
  have "follow_pages fuel (\<lambda>cursor. WalRecords disk (WalFileName n) cursor limit) (length (log_bytes (take k bs))) = None" if "k \<le> length bs" for k
    using that
  proof (induction fuel arbitrary: k)
    case (Suc fuel)
    have t: "length torn < 16" using assms(5) by (simp add: kWalHeaderSize_def)
    note page = wal_page_batches [where disk = disk and bs = bs and torn = torn and k = k, OF assms(1-3) t Suc.prems assms(6,7)]
    have "take (k + limit) bs = take (min (k + limit) (length bs)) bs" by (simp add: min_def)
    then show ?case using page assms(4) Suc.IH [of "min (k + limit) (length bs)"] by (simp add: Let_def)
  qed simp
  from this [of 0] show "follow_pages fuel (\<lambda>cursor. WalRecords disk (WalFileName n) cursor limit) 0 = None" by simp
qed

theorem torn_header_pages_forever_witness:
  "\<forall>fuel. follow_pages fuel (\<lambda>cursor. WalRecords (\<lambda>_. Regular [0x57, 0x41, 0x4c]) (WalFileName 1) cursor 20) 0 = None"
  using torn_header_pages_forever [where disk = "\<lambda>_. Regular [0x57, 0x41, 0x4c]" and bs = "[]" and torn = "[0x57, 0x41, 0x4c]" and n = 1 and limit = 20]
  by (simp add: kWalHeaderSize_def kMaxPageItems_def)

end
