(* ===== verification/Cli.thy ===== *)
theory Cli
  imports Db_Lifecycle Base64
begin

text \<open>
  The command line tool (\<open>tools/cli/cli_app.cpp\<close>): parsing of the arguments, one database operation per run, the exit code
  and what is printed. Text on the standard output is modelled byte by byte; the error stream is the list of the codes
  whose messages are printed. A run has no result when an operation does not return or has undefined behaviour.
\<close>

section \<open>Arguments\<close>

definition kSuccess :: int where "kSuccess = 0"
definition kFailure :: int where "kFailure = 1"
definition kUsageError :: int where "kUsageError = 2"
definition kCliNotFound :: int where "kCliNotFound = 3"

lemmas exit_codes = kSuccess_def kFailure_def kUsageError_def kCliNotFound_def

datatype CommandType = PutCommand | GetCommand | DeleteCommand | ScanCommand

record ParsedCommand =
  pc_db_path :: bytes
  pc_type :: CommandType
  pc_first :: bytes
  pc_second :: bytes
  pc_json :: bool

definition command :: "bytes \<Rightarrow> CommandType \<Rightarrow> bytes \<Rightarrow> bytes \<Rightarrow> bool \<Rightarrow> ParsedCommand" where
  "command path type first second json = \<lparr>pc_db_path = path, pc_type = type, pc_first = first, pc_second = second, pc_json = json\<rparr>"

definition parse_get :: "bytes \<Rightarrow> bytes list \<Rightarrow> ParsedCommand option" where
  "parse_get path operands =
     (case operands of
        [key] \<Rightarrow> Some (command path GetCommand key [] False)
      | [key, flag] \<Rightarrow> if flag = ascii ''--json'' then Some (command path GetCommand key [] True) else None
      | _ \<Rightarrow> None)"

definition parse_scan :: "bytes \<Rightarrow> bytes list \<Rightarrow> ParsedCommand option" where
  "parse_scan path operands =
     (let json = (operands \<noteq> [] \<and> last operands = ascii ''--json'');
          operands = (if json then butlast operands else operands) in
      if length operands > 2 then None
      else Some (command path ScanCommand (if operands \<noteq> [] then operands ! 0 else []) (if length operands = 2 then operands ! 1 else []) json))"

definition ParseArguments :: "bytes list \<Rightarrow> ParsedCommand option" where
  "ParseArguments arguments =
     (if length arguments < 2 then None
      else
        let path = arguments ! 0; name = arguments ! 1 in
        if name = ascii ''put'' \<and> length arguments = 4 then Some (command path PutCommand (arguments ! 2) (arguments ! 3) False)
        else if name = ascii ''get'' \<and> (length arguments = 3 \<or> length arguments = 4) then parse_get path (drop 2 arguments)
        else if name = ascii ''delete'' \<and> length arguments = 3 then Some (command path DeleteCommand (arguments ! 2) [] False)
        else if name = ascii ''scan'' then parse_scan path (drop 2 arguments)
        else None)"

section \<open>Output\<close>

definition newline :: bytes where
  "newline = [10]"

definition PrintUsage :: bytes where
  "PrintUsage = ascii ''usage:'' @ newline @ ascii ''  tinylsm_cli help'' @ newline @ ascii ''  tinylsm_cli <db-path> put <key> <value>'' @ newline @
     ascii ''  tinylsm_cli <db-path> get <key> [--json]'' @ newline @ ascii ''  tinylsm_cli <db-path> delete <key>'' @ newline @
     ascii ''  tinylsm_cli <db-path> scan [begin [end]] [--json]'' @ newline"

definition quoted :: "bytes \<Rightarrow> bytes" where
  "quoted text = ascii [CHR 0x22] @ text @ ascii [CHR 0x22]"

definition WriteJsonEntry :: "bytes \<Rightarrow> bytes \<Rightarrow> bytes" where
  "WriteJsonEntry key val =
     ascii ''{'' @ quoted (ascii ''key_base64'') @ ascii '':'' @ quoted (Cli_Base64Encode key) @ ascii '','' @
     quoted (ascii ''value_base64'') @ ascii '':'' @ quoted (Cli_Base64Encode val) @ ascii ''}'' @ newline"

text \<open>What a run leaves: its exit code, the standard output, and the errors it reported (\<open>None\<close> is the usage text).\<close>

record CliResult =
  cr_code :: int
  cr_output :: bytes
  cr_errors :: "StatusCode option list"

section \<open>Handlers\<close>

text \<open>Closing decides the exit code; the handlers print \<open>output\<close> only if it is still success.\<close>

definition CloseAndReturn ::
  "Protobuf \<Rightarrow> Surroundings \<Rightarrow> int \<Rightarrow> bytes \<Rightarrow> StatusCode option list \<Rightarrow> shared \<Rightarrow> (CliResult \<times> shared) option" where
  "CloseAndReturn pb su command_result output errors s =
     Option.bind (Close pb (su_writers su) (su_close su) s) (\<lambda>(r, s).
       case r of
         Ok _ \<Rightarrow> Some (\<lparr>cr_code = command_result, cr_output = (if command_result = kSuccess then output else []), cr_errors = errors\<rparr>, s)
       | Err c \<Rightarrow> Some (\<lparr>cr_code = kFailure, cr_output = [], cr_errors = errors @ [Some c]\<rparr>, s)
       | UB \<Rightarrow> None)"

definition HandleWrite ::
  "Protobuf \<Rightarrow> Surroundings \<Rightarrow> (unit result \<times> shared) option \<Rightarrow> (CliResult \<times> shared) option" where
  "HandleWrite pb su written =
     Option.bind written (\<lambda>(r, s).
       case r of
         Ok _ \<Rightarrow> CloseAndReturn pb su kSuccess (ascii ''OK'' @ newline) [] s
       | Err c \<Rightarrow> CloseAndReturn pb su kFailure [] [Some c] s
       | UB \<Rightarrow> None)"

definition HandlePut :: "Protobuf \<Rightarrow> Surroundings \<Rightarrow> ParsedCommand \<Rightarrow> shared \<Rightarrow> (CliResult \<times> shared) option" where
  "HandlePut pb su cmd s = HandleWrite pb su (Db_Put pb (su_others su) (su_queue su) 0 (pc_first cmd) (pc_second cmd) s)"

definition HandleDelete :: "Protobuf \<Rightarrow> Surroundings \<Rightarrow> ParsedCommand \<Rightarrow> shared \<Rightarrow> (CliResult \<times> shared) option" where
  "HandleDelete pb su cmd s = HandleWrite pb su (Db_Delete pb (su_others su) (su_queue su) 0 (pc_first cmd) s)"

definition HandleGet ::
  "Protobuf \<Rightarrow> (InternalEntry list \<Rightarrow> u64) \<Rightarrow> Surroundings \<Rightarrow> ParsedCommand \<Rightarrow> shared \<Rightarrow> (CliResult \<times> shared) option" where
  "HandleGet pb charge su cmd s =
     (case s of (q, db) \<Rightarrow>
        (case Db_Get charge (pc_first cmd) None db of
           (Ok val, db) \<Rightarrow>
             CloseAndReturn pb su kSuccess (if pc_json cmd then WriteJsonEntry (pc_first cmd) val else val @ newline) [] (q, db)
         | (Err c, db) \<Rightarrow> CloseAndReturn pb su (if c = kNotFound then kCliNotFound else kFailure) [] [Some c] (q, db)
         | (UB, db) \<Rightarrow> None))"

definition scan_line :: "bool \<Rightarrow> bytes \<times> bytes \<Rightarrow> bytes" where
  "scan_line json e = (if json then WriteJsonEntry (fst e) (snd e) else fst e @ [9] @ snd e @ newline)"

definition HandleScan ::
  "Protobuf \<Rightarrow> (InternalEntry list \<Rightarrow> u64) \<Rightarrow> Surroundings \<Rightarrow> ParsedCommand \<Rightarrow> shared \<Rightarrow> (CliResult \<times> shared) option" where
  "HandleScan pb charge su cmd s =
     (case s of (q, db) \<Rightarrow>
        Option.bind (Db_Scan charge (pc_first cmd) (pc_second cmd) db) (\<lambda>(r, db).
          case r of
            Ok entries \<Rightarrow> CloseAndReturn pb su kSuccess (concat (map (scan_line (pc_json cmd)) entries)) [] (q, db)
          | Err c \<Rightarrow> CloseAndReturn pb su kFailure [] [Some c] (q, db)
          | UB \<Rightarrow> None))"

section \<open>A run\<close>

definition default_options :: Options where
  "default_options =
     \<lparr>o_memtable_bytes = 4 * 1024 * 1024, o_create_if_missing = True, o_sync_on_write = True, o_max_key_bytes = 4 * 1024 * 1024,
      o_max_value_bytes = 64 * 1024 * 1024, o_sstable_block_bytes = 16 * 1024, o_sstable_restart_interval = 16,
      o_block_cache_bytes = 8 * 1024 * 1024, o_compaction_table_trigger = 4, o_max_active_snapshots = 1024,
      o_max_pending_write_requests = 64, o_max_pending_write_bytes = 8 * 1024 * 1024, o_max_group_commit_requests = 8,
      o_max_group_commit_bytes = 1024 * 1024\<rparr>"

definition help_requested :: "bytes list \<Rightarrow> bool" where
  "help_requested arguments = (arguments \<in> {[ascii ''help''], [ascii ''-h''], [ascii ''--help'']})"

text \<open>The files are those of the directory named by the first argument; the database is what is left of the handle.\<close>

definition RunCli ::
  "Protobuf \<Rightarrow> (InternalEntry list \<Rightarrow> u64) \<Rightarrow> bool \<Rightarrow> nat \<Rightarrow> Surroundings \<Rightarrow> bytes list \<Rightarrow> FileSystem
   \<Rightarrow> (CliResult \<times> shared option) option" where
  "RunCli pb charge spawned registry su arguments fs =
     (if help_requested arguments then Some (\<lparr>cr_code = kSuccess, cr_output = PrintUsage, cr_errors = []\<rparr>, None)
      else case ParseArguments arguments of
        None \<Rightarrow> Some (\<lparr>cr_code = kUsageError, cr_output = [], cr_errors = [None]\<rparr>, None)
      | Some cmd \<Rightarrow>
          (case DB_Open pb charge spawned registry (map (\<lambda>b. char_of (unat b)) (pc_db_path cmd)) default_options fs of
             (Ok (Some db), _) \<Rightarrow>
               map_option (apsnd Some)
                 (case pc_type cmd of
                    PutCommand \<Rightarrow> HandlePut pb su cmd (empty_queue, db)
                  | GetCommand \<Rightarrow> HandleGet pb charge su cmd (empty_queue, db)
                  | DeleteCommand \<Rightarrow> HandleDelete pb su cmd (empty_queue, db)
                  | ScanCommand \<Rightarrow> HandleScan pb charge su cmd (empty_queue, db))
           | (Err c, _) \<Rightarrow> Some (\<lparr>cr_code = kFailure, cr_output = [], cr_errors = [Some c]\<rparr>, None)
           | _ \<Rightarrow> None))"

section \<open>Exit codes\<close>

lemma Close_closed: "Close pb writers env s = Some (Ok (), q', d') \<Longrightarrow> db_closed d'"
proof -
  assume run: "Close pb writers env s = Some (Ok (), q', d')"
  obtain m q1 d1 where 1: "StopWriterQueue writers 0 s = Some (m, q1, d1)" using run by (auto simp: Close_def bind_eq_Some_conv)
  obtain r n d3 where 3: "close_loop pb env 0 ((RecordWriteLockWait d1)\<lparr>db_closing := True, db_compaction_requested := False\<rparr>) = Some (r, n, d3)"
    "(case db_wal d3 of None \<Rightarrow> (let db = join_worker env n d3 in (close_status db, q1, mark_closed db)) | Some wal \<Rightarrow> close_wal env n wal (q1, d3)) = (Ok (), q', d')"
    using run 1 by (auto simp: Close_def Let_def bind_eq_Some_conv split: if_splits option.splits)
  have w: "close_wal env n wal (q1, d3) = (Ok (), q', d') \<Longrightarrow> db_closed d'" for wal
    by (auto simp: close_wal_def Let_def mark_closed_def split: prod.splits result.splits option.splits if_splits)
  show "db_closed d'" using 3(2) w by (cases "db_wal d3") (auto simp: Let_def mark_closed_def)
qed

text \<open>The two ways in which a handler ends: the database is closed and the result of the operation stands, or closing failed.\<close>

lemma CloseAndReturn_cases:
  assumes "CloseAndReturn pb su code out errs s = Some (r, q, d)"
  obtains (closed) "r = \<lparr>cr_code = code, cr_output = (if code = kSuccess then out else []), cr_errors = errs\<rparr>" "db_closed d"
    | (failed) c where "r = \<lparr>cr_code = kFailure, cr_output = [], cr_errors = errs @ [Some c]\<rparr>"
proof -
  obtain res q' d' where c: "Close pb (su_writers su) (su_close su) s = Some (res, q', d')"
    using assms by (auto simp: CloseAndReturn_def bind_eq_Some_conv)
  show thesis
  proof (cases res)
    case (Ok u)
    then show thesis using assms c Close_closed [of pb "su_writers su" "su_close su" s] by (auto simp: CloseAndReturn_def intro: closed)
  next
    case (Err e)
    then show thesis using assms c by (auto simp: CloseAndReturn_def intro: failed)
  next
    case UB
    then show thesis using assms c by (auto simp: CloseAndReturn_def)
  qed
qed

lemma HandleWrite_cases:
  assumes "HandleWrite pb su written = Some (r, q, d)"
  obtains (written) s where "written = Some (Ok (), s)" "r = \<lparr>cr_code = kSuccess, cr_output = ascii ''OK'' @ newline, cr_errors = []\<rparr>" "db_closed d"
    | (refused) errs where "r = \<lparr>cr_code = kFailure, cr_output = [], cr_errors = errs\<rparr>" "errs \<noteq> []"
proof -
  obtain res s where w: "written = Some (res, s)" using assms by (auto simp: HandleWrite_def bind_eq_Some_conv)
  show thesis
  proof (cases res)
    case (Ok u)
    then have "CloseAndReturn pb su kSuccess (ascii ''OK'' @ newline) [] s = Some (r, q, d)" using assms w by (simp add: HandleWrite_def)
    then show thesis using w Ok by (cases rule: CloseAndReturn_cases) (auto intro: written refused)
  next
    case (Err e)
    then have "CloseAndReturn pb su kFailure [] [Some e] s = Some (r, q, d)" using assms w by (simp add: HandleWrite_def)
    then show thesis by (cases rule: CloseAndReturn_cases) (auto simp: exit_codes intro: refused)
  next
    case UB
    then show thesis using assms w by (simp add: HandleWrite_def)
  qed
qed

section \<open>A sample run\<close>

definition solo :: Surroundings where
  "solo = \<lparr>su_others = (\<lambda>_ d. d), su_queue = (\<lambda>_ s. s), su_writers = (\<lambda>_ s. s), su_close = (\<lambda>_ d. d)\<rparr>"

lemma young_finds_nothing:
  assumes "young_with opts db" "db_sound db"
  shows "\<exists>d. Db_Get charge key None db = (Err kNotFound, d) \<and> young_with opts d"
proof -
  have "live_tables (db_current db) = []" using assms by (simp add: db_sound_def young_with_def)
  then show ?thesis using assms(1)
    by (auto simp: Db_Get_def Let_def RecordReadLockWait_def CheckOpen_def young_with_def foreign_snapshot_def get_memtable_def get_immutable_def
        get_live_def op_bind_def op_simps consider_newest_def MemTable_Get_def MemTable_empty_def)
qed

lemma young_closes:
  assumes "young_with opts db" "o_memtable_bytes opts \<noteq> 0"
  shows "\<exists>q' d'. Close pb (su_writers solo) (su_close solo) (empty_queue, db) = Some (Ok (), q', d')"
proof -
  let ?d = "(RecordWriteLockWait db)\<lparr>db_closing := True, db_compaction_requested := False\<rparr>"
  have l: "close_loop pb (su_close solo) 0 ?d = Some (Ok (), 0, ?d)"
    using assms by (subst close_loop.simps) (simp add: RecordWriteLockWait_def Let_def young_with_def failed_def memtable_full_def
        ApproximateMemoryUsage_def MemTable_empty_def)
  have st: "StopWriterQueue (su_writers solo) 0 (empty_queue, db) = Some (0, empty_queue\<lparr>wq_stopping := True\<rparr>, db)"
    unfolding StopWriterQueue_def by (subst wait_until.simps) (simp add: empty_queue_def)
  obtain i w where w: "db_wal ?d = Some (i, w)" "wf_open (ww_file w)" "wf_syncs (ww_file w) = []" "wf_closes (ww_file w) = []"
    using assms(1) by (auto simp: young_with_def RecordWriteLockWait_def Let_def)
  have f: "\<not> db_closed (RecordWriteLockWait db)" "db_background_error ?d = None"
    using assms(1) by (simp_all add: young_with_def RecordWriteLockWait_def Let_def)
  have "Close pb (su_writers solo) (su_close solo) (empty_queue, db) = Some (close_wal (su_close solo) 0 (i, w) (empty_queue\<lparr>wq_stopping := True\<rparr>, ?d))"
    unfolding Close_def st using l f(1) w(1) by simp
  moreover have "\<exists>q' d'. close_wal (su_close solo) 0 (i, w) (empty_queue\<lparr>wq_stopping := True\<rparr>, ?d) = (Ok (), q', d')"
    using f(2) w by (simp add: close_wal_def on_wal_def WalWriter_Sync_def WalWriter_Close_def Sync_def CloseFile_def
        join_worker_def close_status_def solo_def)
  ultimately show ?thesis by simp
qed

lemma sample_run:
  assumes "young_with default_options db" "db_sound db" "pc_type cmd = GetCommand"
  shows "\<exists>s. HandleGet pb charge solo cmd (empty_queue, db) =
    Some (\<lparr>cr_code = kCliNotFound, cr_output = [], cr_errors = [Some kNotFound]\<rparr>, s)"
proof -
  obtain d where g: "Db_Get charge (pc_first cmd) None db = (Err kNotFound, d)" "young_with default_options d"
    using young_finds_nothing [OF assms(1,2)] by blast
  obtain q' d' where "Close pb (su_writers solo) (su_close solo) (empty_queue, d) = Some (Ok (), q', d')"
    using young_closes [OF g(2), of pb] by (auto simp: default_options_def)
  then show ?thesis using g(1) by (simp add: HandleGet_def CloseAndReturn_def exit_codes)
qed

lemma sample_open:
  "\<exists>db fs'. DB_Open any_pb charge True registry ''db'' default_options young_fs = (Ok (Some db), fs') \<and> young_with default_options db \<and> db_sound db"
proof -
  obtain db fs where o': "Db_Open any_pb charge True registry ''db'' default_options (Some young_fs) = (Ok db, fs)" "young_with default_options db"
    using young_opens_with [of default_options charge registry] by (auto simp: default_options_def options_valid_def)
  obtain d where d: "open_locked any_pb charge True d = (Ok (), db)" "db_immutable d = None" "bc_lru (db_cache d) = []" "bc_inv (db_cache d)"
    by (rule Db_Open_Ok [OF o'(1)])
  have "db_sound db" using open_locked_Ok(1) [OF d] o'(2) by (simp add: young_with_def)
  then show ?thesis using o' by (simp add: DB_Open_def)
qed

section \<open>Properties\<close>



text \<open>
  With the default options a value that is larger than the writer queue is never written, although it is within the
  limit for values: \<open>max_value_bytes\<close> admits 64 MiB, but the request is refused with \<open>kResourceExhausted\<close> as soon as its
  bytes exceed the 8 MiB of \<open>max_pending_write_bytes\<close>, even when the queue is empty. The refusal leaves queue and
  database as they were and waits for nobody.
\<close>

theorem large_values_refused:
  assumes "db_options db = default_options" and "length key \<le> 4 * 1024 * 1024" and "8 * 1024 * 1024 < length val" and "length val \<le> 64 * 1024 * 1024"
  shows "Db_Put pb others env caller key val (q, db) = Some (Err kResourceExhausted, q, db)"
proof -
  let ?n = "of_nat sizeof_InternalEntry + of_nat (length key) + of_nat (length val) :: u64"
  have n: "unat ?n = sizeof_InternalEntry + length key + length val"
    using assms(2,4) by (simp add: unat_word_ariths unat_of_nat sizeof_InternalEntry_def)
  have m: "unat (- 1 :: u64) = 18446744073709551615" by (simp add: unsigned_minus_1_eq_mask mask_eq_exp_minus_1)
  have "ValidateWriteBatch default_options (Batch_Put key val []) = (kOk, ?n)"
    using assms(2,4) n by (simp add: ValidateWriteBatch_def Batch_Put_def default_options_def kMaxWalBatchOperations_def kMaxWalBatchBytes_def
        sizeof_InternalEntry_def word_less_nat_alt m)
  moreover have "?n > o_max_pending_write_bytes default_options"
    using n assms(3) by (simp add: default_options_def word_less_nat_alt)
  ultimately show ?thesis using assms(1) by (simp add: Db_Put_def SubmitWrite_def Batch_Put_def)
qed

theorem large_values_refused_witness:
  "\<exists>db. Db_Put any_pb (\<lambda>_ d. d) (\<lambda>_ s. s) 1 [7] (replicate (9 * 1024 * 1024) 0) (empty_queue, db) = Some (Err kResourceExhausted, empty_queue, db)"
proof -
  obtain db :: Db where "db_options db = default_options" using sample_open [of "\<lambda>_. 1" 0] by (auto simp: young_with_def)
  then have "Db_Put any_pb (\<lambda>_ d. d) (\<lambda>_ s. s) 1 [7] (replicate (9 * 1024 * 1024) 0) (empty_queue, db) = Some (Err kResourceExhausted, empty_queue, db)"
    by (rule large_values_refused) simp_all
  then show ?thesis by blast
qed

end
