(* ===== verification/Recovery_Lab.thy ===== *)
theory Recovery_Lab
  imports Lab_Session Storage_Inspector Cli
begin

text \<open>
  The recovery experiments of the Lab (\<open>tools/lab/recovery_lab.cpp\<close>, \<open>tools/lab/tinylsm_lab_worker.cpp\<close>): a sandbox copy of
  the live database is damaged in one of three ways and opened again. Calls of the C++ file system library are system calls
  of the sandbox and can fail as these do; paths are lists of components without symbolic links; texts of outcomes are
  represented by the codes they report.
\<close>

section \<open>Scenarios\<close>

datatype RecoveryScenarioId = kUncleanShutdown | kTruncatedWal | kCrcCorruption

datatype RecoveryRunStatus = kPreview | kRunning | kPassed | kFailed

fun RecoveryScenarioName :: "RecoveryScenarioId \<Rightarrow> string" where
  "RecoveryScenarioName kUncleanShutdown = ''unclean-shutdown''"
| "RecoveryScenarioName kTruncatedWal = ''truncated-wal''"
| "RecoveryScenarioName kCrcCorruption = ''crc-corruption''"

fun RecoveryRunStatusName :: "RecoveryRunStatus \<Rightarrow> string" where
  "RecoveryRunStatusName kPreview = ''preview''"
| "RecoveryRunStatusName kRunning = ''running''"
| "RecoveryRunStatusName kPassed = ''passed''"
| "RecoveryRunStatusName kFailed = ''failed''"

definition ParseRecoveryScenarioId :: "string \<Rightarrow> RecoveryScenarioId option" where
  "ParseRecoveryScenarioId text =
     (if text = ''unclean-shutdown'' then Some kUncleanShutdown
      else if text = ''truncated-wal'' then Some kTruncatedWal
      else if text = ''crc-corruption'' then Some kCrcCorruption
      else None)"

definition kWorkerKey :: bytes where "kWorkerKey = ascii ''__tinylsm_recovery_worker__''"
definition kWorkerValue :: bytes where "kWorkerValue = ascii ''durable-without-close''"
definition kPrefixKey :: bytes where "kPrefixKey = ascii ''__tinylsm_recovery_prefix__''"
definition kPrefixValue :: bytes where "kPrefixValue = ascii ''survives-truncated-tail''"

section \<open>Files of a sandbox\<close>

definition view :: "FileSystem \<Rightarrow> directory" where
  "view fs name = (case bound fs name of None \<Rightarrow> Absent | Some i \<Rightarrow> Regular (nd_data (fs_nodes fs i)))"

definition stat_size :: "string \<Rightarrow> (FileSystem, nat) op" where
  "stat_size name = syscall (\<lambda>fs.
     case bound fs name of None \<Rightarrow> (Err kIOError, fs) | Some i \<Rightarrow> (Ok (length (nd_data (fs_nodes fs i))), fs))"

text \<open>Changing the bytes of a file without syncing it.\<close>

definition overwrite :: "string \<Rightarrow> (bytes \<Rightarrow> bytes) \<Rightarrow> (FileSystem, unit) op" where
  "overwrite name f = syscall (\<lambda>fs.
     case bound fs name of
       None \<Rightarrow> (Err kIOError, fs)
     | Some i \<Rightarrow> (let n = fs_nodes fs i in (Ok (), set_node i (n\<lparr>nd_data := f (nd_data n), nd_clean := False\<rparr>) fs)))"

definition ActiveWalPath :: "Protobuf \<Rightarrow> FileSystem \<Rightarrow> string" where
  "ActiveWalPath pb fs = (case Manifest pb (view fs) of Ok m \<Rightarrow> WalFileName (mi_active_wal m) | _ \<Rightarrow> [])"

section \<open>Databases in a sandbox\<close>

record Sandbox =
  sb_pb :: Protobuf
  sb_charge :: "InternalEntry list \<Rightarrow> u64"
  sb_spawned :: bool
  sb_registry :: nat
  sb_surroundings :: Surroundings

definition open_sandbox :: "Sandbox \<Rightarrow> string \<Rightarrow> Options \<Rightarrow> FileSystem \<Rightarrow> Db option result \<times> FileSystem option" where
  "open_sandbox sb path opts fs = DB_Open (sb_pb sb) (sb_charge sb) (sb_spawned sb) (sb_registry sb) path opts fs"

definition left_over :: "FileSystem option \<Rightarrow> FileSystem \<Rightarrow> FileSystem" where
  "left_over fs' fs = (case fs' of Some f \<Rightarrow> f | None \<Rightarrow> fs)"

definition sandbox_put :: "Sandbox \<Rightarrow> nat \<Rightarrow> bytes \<Rightarrow> bytes \<Rightarrow> shared \<Rightarrow> (unit result \<times> shared) option" where
  "sandbox_put sb caller key val s = Db_Put (sb_pb sb) (su_others (sb_surroundings sb)) (su_queue (sb_surroundings sb)) caller key val s"

text \<open>Closing, and the files after the handle is gone.\<close>

definition sandbox_close :: "Sandbox \<Rightarrow> shared \<Rightarrow> (unit result \<times> FileSystem) option" where
  "sandbox_close sb s =
     Option.bind (Close (sb_pb sb) (su_writers (sb_surroundings sb)) (su_close (sb_surroundings sb)) s)
       (\<lambda>(r, q, db). if r = UB then None else Some (r, db_fs (Impl_destroy db)))"

text \<open>Opening a sandbox, reading one key and closing it: both results, or the error of opening.\<close>

definition read_back :: "Sandbox \<Rightarrow> string \<Rightarrow> Options \<Rightarrow> bytes \<Rightarrow> FileSystem \<Rightarrow> ((bytes result \<times> unit result) result \<times> FileSystem) option" where
  "read_back sb path opts key fs =
     (case open_sandbox sb path opts fs of
        (Ok (Some db), _) \<Rightarrow>
          (case Db_Get (sb_charge sb) key None db of (val, db) \<Rightarrow>
             if val = UB then None
             else map_option (\<lambda>(c, fs). (Ok (val, c), fs)) (sandbox_close sb (empty_queue, db)))
      | (Err c, fs') \<Rightarrow> Some (Err c, left_over fs' fs)
      | _ \<Rightarrow> None)"

section \<open>The experiments\<close>

text \<open>The worker process (\<open>main\<close> of \<open>tinylsm_lab_worker\<close>): its exit code; its lock goes with the process.\<close>

definition worker_main :: "Sandbox \<Rightarrow> string \<Rightarrow> FileSystem \<Rightarrow> (int \<times> FileSystem) option" where
  "worker_main sb path fs =
     (case open_sandbox sb path (default_options\<lparr>o_create_if_missing := False, o_sync_on_write := True\<rparr>) fs of
        (Ok (Some db), _) \<Rightarrow>
          Option.bind (sandbox_put sb 0 kWorkerKey kWorkerValue (empty_queue, db)) (\<lambda>(r, q, db).
            case r of
              Ok _ \<Rightarrow> Some (0, ReleaseLock (db_fs db))
            | Err c \<Rightarrow> Some (1, db_fs (Impl_destroy db))
            | UB \<Rightarrow> None)
      | (Err c, fs') \<Rightarrow> Some (1, left_over fs' fs)
      | _ \<Rightarrow> None)"

text \<open>\<open>available\<close>, \<open>forked\<close> and \<open>waited\<close>: the executable is there, and \<open>fork\<close> and \<open>waitpid\<close> succeed.\<close>

definition RunUncleanShutdown :: "Sandbox \<Rightarrow> bool \<Rightarrow> bool \<Rightarrow> bool \<Rightarrow> string \<Rightarrow> Options \<Rightarrow> FileSystem \<Rightarrow> (unit result \<times> FileSystem) option" where
  "RunUncleanShutdown sb available forked waited path opts fs =
     (if \<not> available then Some (Err kNotSupported, fs)
      else if \<not> forked then Some (Err kIOError, fs)
      else Option.bind (worker_main sb path fs) (\<lambda>(exit_code, fs).
        if \<not> waited \<or> exit_code \<noteq> 0 then Some (Err kIOError, fs)
        else Option.bind (read_back sb path (opts\<lparr>o_create_if_missing := False\<rparr>) kWorkerKey fs) (\<lambda>(r, fs).
          case r of
            Err c \<Rightarrow> Some (Err c, fs)
          | UB \<Rightarrow> None
          | Ok (val, closed) \<Rightarrow>
              (case val of
                 Err c \<Rightarrow> Some (Err c, fs)
               | UB \<Rightarrow> None
               | Ok v \<Rightarrow> Some (if v \<noteq> kWorkerValue then Err kCorruption else closed, fs)))))"

text \<open>Two synced records before the tail is cut.\<close>

definition seed_log :: "Sandbox \<Rightarrow> string \<Rightarrow> Options \<Rightarrow> FileSystem \<Rightarrow> (unit result \<times> FileSystem) option" where
  "seed_log sb path opts fs =
     (case open_sandbox sb path opts fs of
        (Ok (Some db), _) \<Rightarrow>
          Option.bind (sandbox_put sb 0 kPrefixKey kPrefixValue (empty_queue, db)) (\<lambda>(first, s).
          Option.bind (sandbox_put sb 1 (ascii ''__tinylsm_recovery_tail__'') (ascii ''discardable-tail'') s) (\<lambda>(second, s).
          Option.bind (sandbox_close sb s) (\<lambda>(closed, fs).
            if first = UB \<or> second = UB then None
            else Some (if first \<noteq> Ok () then first else if second \<noteq> Ok () then second else closed, fs))))
      | (Err c, fs') \<Rightarrow> Some (Err c, left_over fs' fs)
      | _ \<Rightarrow> None)"

definition cut_log :: "string \<Rightarrow> (FileSystem, unit) op" where
  "cut_log wal =
     op_bind (stat_size wal) (\<lambda>bytes_total fs. if bytes_total < 2 then (Err kIOError, fs) else overwrite wal (take (bytes_total - 1)) fs)"

definition RunTruncatedWal :: "Sandbox \<Rightarrow> string \<Rightarrow> Options \<Rightarrow> FileSystem \<Rightarrow> (unit result \<times> FileSystem) option" where
  "RunTruncatedWal sb path opts fs =
     (let opts = opts\<lparr>o_create_if_missing := False, o_sync_on_write := True\<rparr> in
      Option.bind (seed_log sb path opts fs) (\<lambda>(r, fs).
        if r \<noteq> Ok () then Some (r, fs)
        else
          let wal = ActiveWalPath (sb_pb sb) fs in
          if wal = [] then Some (Err kCorruption, fs)
          else case cut_log wal fs of
            (Err c, fs) \<Rightarrow> Some (Err c, fs)
          | (UB, fs) \<Rightarrow> None
          | (Ok _, fs) \<Rightarrow>
              Option.bind (read_back sb path opts kPrefixKey fs) (\<lambda>(r, fs).
                case r of
                  Err c \<Rightarrow> Some (Err c, fs)
                | UB \<Rightarrow> None
                | Ok (val, closed) \<Rightarrow> Some (if val \<noteq> Ok kPrefixValue then Err kCorruption else closed, fs))))"

text \<open>The last byte of the manifest is changed: its size, opening it, reading the byte and writing it can fail.\<close>

definition flip_last_byte :: "(FileSystem, unit) op" where
  "flip_last_byte =
     op_bind (stat_size kManifest) (\<lambda>bytes_total fs.
       if bytes_total = 0 then (Err kIOError, fs)
       else op_bind (stat_size kManifest) (\<lambda>_. op_bind (stat_size kManifest) (\<lambda>_.
              overwrite kManifest (\<lambda>d. d[bytes_total - 1 := d ! (bytes_total - 1) XOR 0x5A]))) fs)"

definition RunCrcCorruption :: "Sandbox \<Rightarrow> string \<Rightarrow> Options \<Rightarrow> FileSystem \<Rightarrow> (unit result \<times> FileSystem) option" where
  "RunCrcCorruption sb path opts fs =
     (case flip_last_byte fs of
        (Err c, fs) \<Rightarrow> Some (Err c, fs)
      | (UB, fs) \<Rightarrow> None
      | (Ok _, fs) \<Rightarrow>
          (case open_sandbox sb path (opts\<lparr>o_create_if_missing := False\<rparr>) fs of
             (Ok (Some db), _) \<Rightarrow> map_option (\<lambda>(_, fs). (Err kCorruption, fs)) (sandbox_close sb (empty_queue, db))
           | (Err c, fs') \<Rightarrow> Some (if c \<noteq> kCorruption then Err c else Ok (), left_over fs' fs)
           | _ \<Rightarrow> None))"

section \<open>The laboratory\<close>

record RecoveryRun =
  rr_id :: u64
  rr_scenario_id :: RecoveryScenarioId
  rr_status :: RecoveryRunStatus
  rr_sandbox_path :: "string list"
  rr_actual_outcome :: "unit result option"
  rr_events :: "Event list"

text \<open>\<open>rl_disks\<close> is the content of the directories below the root of the sandboxes.\<close>

record RecoveryLab =
  rl_session :: Lab
  rl_root :: "string list"
  rl_disks :: "string list \<Rightarrow> FileSystem"
  rl_runs :: "RecoveryRun list"
  rl_next_run_id :: u64

definition recovery_id :: "u64 \<Rightarrow> string" where
  "recovery_id n = ''recovery-'' @ decimal (unat n)"

definition AddEvent :: "string \<Rightarrow> string \<Rightarrow> summary \<Rightarrow> RecoveryRun \<Rightarrow> RecoveryRun" where
  "AddEvent level phase summary run =
     run\<lparr>rr_events := rr_events run @ [\<lparr>ev_id = of_nat (length (rr_events run) + 1), ev_operation_id = recovery_id (rr_id run),
       ev_level = level, ev_phase = phase, ev_summary = summary\<rparr>]\<rparr>"

definition AddAuditEvent :: "string \<Rightarrow> string \<Rightarrow> summary \<Rightarrow> Lab \<Rightarrow> Lab" where
  "AddAuditEvent level phase summary lab = AddEventLocked [] level phase summary lab"

definition audit :: "string \<Rightarrow> string \<Rightarrow> summary \<Rightarrow> RecoveryLab \<Rightarrow> RecoveryLab" where
  "audit level phase summary rl = rl\<lparr>rl_session := AddAuditEvent level phase summary (rl_session rl)\<rparr>"

definition IsSandboxPath :: "RecoveryLab \<Rightarrow> string list \<Rightarrow> bool" where
  "IsSandboxPath rl path =
     (fs_exists (rl_disks rl path) \<and> take (length (rl_root rl)) path = rl_root rl \<and> path \<noteq> rl_root rl)"

definition CreateSandbox :: "RecoveryLab \<Rightarrow> string list result" where
  "CreateSandbox rl =
     (let sandbox = rl_root rl @ [''run-'' @ decimal (unat (rl_next_run_id rl))] in
      if fs_exists (rl_disks rl sandbox) then Err kIOError else Ok sandbox)"

text \<open>Copying the manifest and the numbered files of a directory, one system call each.\<close>

definition copied_name :: "string \<Rightarrow> bool" where
  "copied_name name = (name = ''MANIFEST'' \<or> ParseNumberedFileName name \<noteq> None)"

fun copy_files :: "(string \<times> nat) list \<Rightarrow> FileSystem \<Rightarrow> (FileSystem, unit) op" where
  "copy_files [] src = op_return ()"
| "copy_files ((name, i) # names) src =
     (if \<not> copied_name name then copy_files names src
      else op_bind (syscall (\<lambda>fs. (Ok (),
               change_dir (fs_dir fs @ [(name, fs_fresh fs)])
                 ((set_node (fs_fresh fs) \<lparr>nd_data = nd_data (fs_nodes src i), nd_durable = [], nd_clean = False\<rparr> fs)
                    \<lparr>fs_fresh := Suc (fs_fresh fs)\<rparr>))))
             (\<lambda>_. copy_files names src))"

definition CopyDatabaseToSandbox :: "Lab \<Rightarrow> (FileSystem, Options) op" where
  "CopyDatabaseToSandbox lab fs =
     (case lab_db lab of
        None \<Rightarrow> (Err kAlreadyClosed, fs)
      | Some (q, db) \<Rightarrow>
          if lab_path lab = [] then (Err kAlreadyClosed, fs)
          else if fs_exists fs then (Err kInvalidArgument, fs)
          else op_bind (syscall (\<lambda>fs. (Ok (), fs\<lparr>fs_exists := True\<rparr>)))
                 (\<lambda>_. op_bind (copy_files (fs_dir (db_fs db)) (db_fs db)) (\<lambda>_. op_return (lab_options lab))) fs)"

definition Preview :: "RecoveryScenarioId \<Rightarrow> RecoveryLab \<Rightarrow> RecoveryRun result \<times> RecoveryLab" where
  "Preview scenario rl =
     (case CreateSandbox rl of
        Err c \<Rightarrow> (Err c, rl)
      | UB \<Rightarrow> (UB, rl)
      | Ok sandbox \<Rightarrow>
          (case CopyDatabaseToSandbox (rl_session rl) (rl_disks rl sandbox) of
             (Err c, fs) \<Rightarrow> (Err c, rl\<lparr>rl_disks := (rl_disks rl)(sandbox := fs)\<rparr>)
           | (UB, fs) \<Rightarrow> (UB, rl)
           | (Ok _, fs) \<Rightarrow>
               (let run = AddEvent ''info'' ''recovery.preview'' (Text ''Created a server-owned sandbox copy'')
                      \<lparr>rr_id = rl_next_run_id rl, rr_scenario_id = scenario, rr_status = kPreview, rr_sandbox_path = sandbox,
                       rr_actual_outcome = None, rr_events = []\<rparr>;
                    rl = audit ''info'' ''recovery.preview'' (Text ''Created a sandbox recovery preview'')
                      (rl\<lparr>rl_disks := (rl_disks rl)(sandbox := fs), rl_next_run_id := rl_next_run_id rl + 1\<rparr>) in
                (Ok run, rl\<lparr>rl_runs := rl_runs rl @ [run]\<rparr>))))"

definition find_run :: "string \<Rightarrow> RecoveryLab \<Rightarrow> RecoveryRun option" where
  "find_run name rl = List.find (\<lambda>run. recovery_id (rr_id run) = name) (rl_runs rl)"

definition RecoveryLab_Get :: "string \<Rightarrow> RecoveryLab \<Rightarrow> RecoveryRun result" where
  "RecoveryLab_Get name rl = (case find_run name rl of None \<Rightarrow> Err kInvalidArgument | Some run \<Rightarrow> Ok run)"

definition store_run :: "RecoveryRun \<Rightarrow> RecoveryLab \<Rightarrow> RecoveryLab" where
  "store_run run rl = rl\<lparr>rl_runs := map (\<lambda>r. if rr_id r = rr_id run then run else r) (rl_runs rl)\<rparr>"

definition run_scenario :: "Sandbox \<Rightarrow> bool \<Rightarrow> bool \<Rightarrow> bool \<Rightarrow> RecoveryScenarioId \<Rightarrow> string \<Rightarrow> Options \<Rightarrow> FileSystem \<Rightarrow> (unit result \<times> FileSystem) option" where
  "run_scenario sb available forked waited scenario path opts fs =
     (case scenario of
        kUncleanShutdown \<Rightarrow> RunUncleanShutdown sb available forked waited path opts fs
      | kTruncatedWal \<Rightarrow> RunTruncatedWal sb path opts fs
      | kCrcCorruption \<Rightarrow> RunCrcCorruption sb path opts fs)"

fun success_text :: "RecoveryScenarioId \<Rightarrow> string" where
  "success_text kUncleanShutdown = ''Recovered the synced worker record after the child exited without Close().''"
| "success_text kTruncatedWal = ''Recovered the valid WAL prefix and rejected the incomplete final record.''"
| "success_text kCrcCorruption = ''Opening the corrupted sandbox MANIFEST returned Corruption as expected.''"

definition outcome_text :: "RecoveryScenarioId \<Rightarrow> unit result \<Rightarrow> summary" where
  "outcome_text scenario r = (case r of Err c \<Rightarrow> StatusText c | _ \<Rightarrow> Text (success_text scenario))"

text \<open>The end of \<open>Run\<close>, with the outcome of the experiment.\<close>

definition conclude_run :: "unit result \<Rightarrow> RecoveryRun \<Rightarrow> RecoveryLab \<Rightarrow> RecoveryRun result \<times> RecoveryLab" where
  "conclude_run outcome run rl =
     (let ok = (outcome = Ok ()); level = (if ok then ''success'' else ''error''); phase = (if ok then ''recovery.passed'' else ''recovery.failed'');
          txt = outcome_text (rr_scenario_id run) outcome;
          run = AddEvent level phase txt (run\<lparr>rr_status := (if ok then kPassed else kFailed), rr_actual_outcome := Some outcome\<rparr>) in
      (Ok run, audit level phase txt (store_run run rl)))"

definition Run :: "Sandbox \<Rightarrow> bool \<Rightarrow> bool \<Rightarrow> bool \<Rightarrow> string \<Rightarrow> RecoveryLab \<Rightarrow> (RecoveryRun result \<times> RecoveryLab) option" where
  "Run sb available forked waited name rl =
     (case find_run name rl of
        None \<Rightarrow> Some (Err kInvalidArgument, rl)
      | Some run \<Rightarrow>
          if rr_status run \<noteq> kPreview then Some (Err kNotSupported, rl)
          else if \<not> IsSandboxPath rl (rr_sandbox_path run) then Some (Err kInvalidArgument, rl)
          else
            let source = SnapshotLocked (rl_session rl) in
            if \<not> st_open source then Some (Err kAlreadyClosed, rl)
            else
              let run = AddEvent ''warning'' ''recovery.run'' (Text ''Applying the previewed sandbox mutation'') (run\<lparr>rr_status := kRunning\<rparr>);
                  rl = audit ''warning'' ''recovery.run'' (Text ''Running a previewed sandbox recovery experiment'') (store_run run rl) in
              Option.bind (run_scenario sb available forked waited (rr_scenario_id run) (concat (rr_sandbox_path run)) (st_options source)
                  (rl_disks rl (rr_sandbox_path run))) (\<lambda>(outcome, fs).
                Some (conclude_run outcome run (rl\<lparr>rl_disks := (rl_disks rl)(rr_sandbox_path run := fs)\<rparr>))))"

text \<open>Removing the root removes everything below it.\<close>

definition Reset :: "bool \<Rightarrow> RecoveryLab \<Rightarrow> RecoveryRun list result \<times> RecoveryLab" where
  "Reset removed rl =
     (if list_ex (\<lambda>run. \<not> IsSandboxPath rl (rr_sandbox_path run)) (rl_runs rl) then (Err kInvalidArgument, rl)
      else if \<not> removed then (Err kIOError, rl)
      else
        let below = (\<lambda>path. take (length (rl_root rl)) path = rl_root rl);
            rl = audit ''info'' ''recovery.reset'' (Text ''Removed all server-owned recovery sandboxes'')
              (rl\<lparr>rl_disks := (\<lambda>path. if below path then (rl_disks rl path)\<lparr>fs_exists := False, fs_dir := []\<rparr> else rl_disks rl path), rl_runs := []\<rparr>) in
        (Ok [], rl))"

text \<open>
  When copying fails after the directory was made, the number of the run is not used up: every later preview finds the
  directory and fails, until a reset.
\<close>

lemma failed_preview_blocks:
  assumes "CreateSandbox rl = Ok sandbox" "CopyDatabaseToSandbox (rl_session rl) (rl_disks rl sandbox) = (Err c, fs)" "fs_exists fs"
  shows "fst (Preview scenario' (snd (Preview scenario rl))) = Err kIOError"
  using assms by (auto simp: Preview_def CreateSandbox_def Let_def split: if_splits)

section \<open>A changed byte in the manifest\<close>

lemma Get32_top: "off + 4 \<le> length d \<Longrightarrow> ucast (drop_bit 24 (Get32 d off)) = d ! (off + 3)"
  by (rule bit_word_eqI) (auto simp: Get32_def GetFixed32_def bit_simps dest: bit_imp_le_length)

lemma fields_kept:
  assumes "16 \<le> i"
  shows "Get32 (d[i := y]) 0 = Get32 d 0" "Get16 (d[i := y]) 4 = Get16 d 4" "Get16 (d[i := y]) 6 = Get16 d 6" "Get32 (d[i := y]) 8 = Get32 d 8"
    "Get32 (d[i := y]) 12 = Get32 d 12"
  using assms by (simp_all add: Get32_def GetFixed32_def Get16_def GetFixed16_def)

lemma Crc32c2_damaged: "k < length p \<Longrightarrow> y \<noteq> p ! k \<Longrightarrow> Crc32c2 a (p[k := y]) \<noteq> Crc32c2 a p"
  using Crc32c_list_update [of "length a + k" "a @ p" y] by (simp add: Crc32c2_append list_update_append nth_append)

lemma decodable_damaged:
  assumes "Decode pb d = Ok s" "y \<noteq> d ! (length d - 1)"
  shows "Decode pb (d[length d - 1 := y]) = Err kCorruption"
proof -
  let ?i = "length d - 1" and ?h = kManifestHeaderBytes
  have h: "?h = 16" by (simp add: kManifestHeaderBytes_def)
  have len: "16 \<le> length d" using assms(1) h by (auto simp: Decode_def split: if_splits)
  show ?thesis
  proof (cases "length d = 16")
    case True
    have "Get32 (d[?i := y]) 12 \<noteq> Get32 d 12"
    proof
      assume "Get32 (d[?i := y]) 12 = Get32 d 12"
      then have "(d[?i := y]) ! 15 = d ! 15" using Get32_top [of 12 d] Get32_top [of 12 "d[?i := y]"] True by simp
      then show False using assms(2) True by simp
    qed
    moreover have "drop 16 (d[?i := y]) = []" "drop 16 d = []" "take 12 (d[?i := y]) = take 12 d" using True by simp_all
    moreover have "Get32 (d[?i := y]) 0 = Get32 d 0" "Get16 (d[?i := y]) 4 = Get16 d 4" "Get16 (d[?i := y]) 6 = Get16 d 6" "Get32 (d[?i := y]) 8 = Get32 d 8"
      using True by (simp_all add: Get32_def GetFixed32_def Get16_def GetFixed16_def)
    ultimately show ?thesis using assms(1) h by (auto simp: Decode_def Let_def split: if_splits)
  next
    case False
    then have i: "16 \<le> ?i" using len by simp
    let ?p = "drop 16 d"
    have p: "drop 16 (d[?i := y]) = ?p[?i - 16 := y]" "take 12 (d[?i := y]) = take 12 d" using i by (simp_all add: drop_update_swap)
    have d: "?i - 16 < length ?p" "y \<noteq> ?p ! (?i - 16)" using i len assms(2) by simp_all
    have "Crc32c (?p[?i - 16 := y]) \<noteq> Crc32c ?p" by (rule Crc32c_list_update [OF d])
    moreover have "Crc32c2 (take 12 d) (?p[?i - 16 := y]) \<noteq> Crc32c2 (take 12 d) ?p"
      by (rule Crc32c2_damaged [OF d])
    ultimately show ?thesis using assms(1) h p fields_kept [OF i, of d y] by (auto simp: Decode_def Let_def split: if_splits)
  qed
qed

text \<open>Files without planned faults, and a healthy manifest.\<close>

definition calm :: "FileSystem \<Rightarrow> bool" where
  "calm fs \<longleftrightarrow> fs_faults fs = [] \<and> fs_plans fs = []"

lemma calm_syscall: "calm fs \<Longrightarrow> syscall m fs = m fs"
  by (simp add: syscall_def pop_fault_def calm_def)

lemma flip_calm:
  assumes "calm fs" "bound fs kManifest = Some i" "nd_data (fs_nodes fs i) = d" "d \<noteq> []"
  obtains fs' where "flip_last_byte fs = (Ok (), fs')" "calm fs'" "bound fs' kManifest = Some i"
    "nd_data (fs_nodes fs' i) = d[length d - 1 := d ! (length d - 1) XOR 0x5A]" "fs_exists fs' = fs_exists fs" "fs_locked fs' = fs_locked fs"
    "fs_fresh fs' = fs_fresh fs"
  using assms
  by (intro that [of "set_node i ((fs_nodes fs i)\<lparr>nd_data := d[length d - 1 := d ! (length d - 1) XOR 0x5A], nd_clean := False\<rparr>) fs"])
     (simp_all add: flip_last_byte_def stat_size_def overwrite_def calm_syscall op_bind_def set_node_def bound_def calm_def Let_def)

lemma load_calm:
  assumes "calm fs" "bound fs kManifest = Some i" "length (nd_data (fs_nodes fs i)) \<le> kMaxManifestFileBytes"
  shows "Load pb fs = (Decode pb (nd_data (fs_nodes fs i)), fs)"
proof -
  let ?f = "\<lparr>ra_data = nd_data (fs_nodes fs i), ra_reads = []\<rparr>"
  have "OpenRandomAccess kManifest fs = (Ok ?f, fs)"
    using assms(1,2) by (simp add: OpenRandomAccess_def calm_syscall pop_plan_def calm_def no_plan_def syscall_def pop_fault_def)
  moreover obtain f' where "ReadExactly 0 (length (ra_data ?f)) ?f = (Ok (ra_data ?f), f')"
    using ReadExactly_in_range [of ?f 0 "length (ra_data ?f)"] by auto
  ultimately show ?thesis using assms(3) by (simp add: Load_def op_bind_def FileSize_def)
qed

lemma lock_calm:
  assumes "calm fs" "\<not> fs_locked fs" "bound fs kManifest = Some i" "i < fs_fresh fs"
  obtains fs' where "LockFile ''LOCK'' fs = (Ok (), fs')" "calm fs'" "bound fs' kManifest = Some i" "nd_data (fs_nodes fs' i) = nd_data (fs_nodes fs i)"
proof (cases "bound fs ''LOCK''")
  case None
  show thesis
    by (rule that [of "(change_dir (fs_dir fs @ [(''LOCK'', fs_fresh fs)]) ((set_node (fs_fresh fs) fresh_node fs)\<lparr>fs_fresh := Suc (fs_fresh fs)\<rparr>))\<lparr>fs_locked := True\<rparr>"])
      (use None assms in \<open>simp_all add: LockFile_def syscall_def pop_fault_def calm_def change_dir_def set_node_def bound_def map_add_def Let_def\<close>)
next
  case (Some j)
  show thesis
    by (rule that [of "fs\<lparr>fs_locked := True\<rparr>"])
      (use Some assms in \<open>simp_all add: LockFile_def syscall_def pop_fault_def calm_def bound_def Let_def\<close>)
qed

lemma open_damaged:
  assumes "calm fs" "fs_exists fs" "\<not> fs_locked fs" "bound fs kManifest = Some i" "i < fs_fresh fs"
    "length (nd_data (fs_nodes fs i)) \<le> kMaxManifestFileBytes" "Decode pb (nd_data (fs_nodes fs i)) = Err kCorruption" "options_valid opts" "path \<noteq> []"
  shows "\<exists>fs'. DB_Open pb charge spawned registry path opts fs = (Err kCorruption, Some fs')"
proof -
  obtain fs1 where l: "LockFile ''LOCK'' fs = (Ok (), fs1)" "calm fs1" "bound fs1 kManifest = Some i" "nd_data (fs_nodes fs1 i) = nd_data (fs_nodes fs i)"
    by (rule lock_calm [OF assms(1,3,4,5)])
  let ?db = "Impl_new registry opts fs" and ?db1 = "Impl_new registry opts fs1"
  have "op_bind EnsureDatabaseDirectory (\<lambda>_. on_fs (LockFile ''LOCK'')) ?db = (Ok (), ?db1)"
    using assms(1,2) l(1) by (simp add: op_bind_def EnsureDatabaseDirectory_def on_fs_def DirExists_def calm_syscall)
  moreover have "Load pb fs1 = (Err kCorruption, fs1)" using load_calm [OF l(2,3)] l(4) assms(6,7) by simp
  then have "find_manifest pb ?db1 = (Err kCorruption, ?db1)"
    using l(2,3) by (simp add: find_manifest_def LoadManifest_def op_bind_def on_fs_def FileExists_def calm_syscall)
  then have "open_locked pb charge spawned ?db1 = (Err kCorruption, ?db1)" by (simp add: open_locked_def op_bind_def)
  ultimately show ?thesis using assms(8,9) by (simp add: DB_Open_def Db_Open_def)
qed

section \<open>Properties\<close>

text \<open>
  C29: The experiment that corrupts the manifest passes on every healthy sandbox: whatever a decodable manifest holds, changing
  its last byte makes \<open>Open\<close> report \<open>kCorruption\<close>, because the checksum tells any change of one byte.
\<close>

theorem crc_experiment_passes:
  assumes "calm fs" and "fs_exists fs" and "\<not> fs_locked fs" and "bound fs kManifest = Some i" and "i < fs_fresh fs"
    and "Decode (sb_pb sb) (nd_data (fs_nodes fs i)) = Ok s" and "options_valid opts" and "path \<noteq> []"
  shows "\<exists>fs'. RunCrcCorruption sb path opts fs = Some (Ok (), fs')"
proof -
  let ?d = "nd_data (fs_nodes fs i)"
  have len: "?d \<noteq> []" "length ?d \<le> kMaxManifestFileBytes" using assms(6) by (auto simp: Decode_def kManifestHeaderBytes_def split: if_splits)
  obtain fs' where f: "flip_last_byte fs = (Ok (), fs')" "calm fs'" "bound fs' kManifest = Some i"
    "nd_data (fs_nodes fs' i) = ?d[length ?d - 1 := ?d ! (length ?d - 1) XOR 0x5A]" "fs_exists fs' = fs_exists fs" "fs_locked fs' = fs_locked fs"
    "fs_fresh fs' = fs_fresh fs"
    by (rule flip_calm [OF assms(1,4) refl len(1)])
  have "?d ! (length ?d - 1) XOR 0x5A \<noteq> ?d ! (length ?d - 1)"
  proof
    assume "?d ! (length ?d - 1) XOR 0x5A = ?d ! (length ?d - 1)"
    then have "(?d ! (length ?d - 1) XOR 0x5A) XOR ?d ! (length ?d - 1) = 0" by simp
    then show False by (simp add: xor.assoc xor.commute xor.left_commute)
  qed
  from decodable_damaged [OF assms(6) this]
  have "Decode (sb_pb sb) (nd_data (fs_nodes fs' i)) = Err kCorruption" using f(4) by simp
  moreover have "options_valid (opts\<lparr>o_create_if_missing := False\<rparr>)" using assms(7) by (simp add: options_valid_def)
  ultimately obtain fs2 where "open_sandbox sb path (opts\<lparr>o_create_if_missing := False\<rparr>) fs' = (Err kCorruption, Some fs2)"
    using open_damaged [OF f(2) _ _ f(3), of "sb_pb sb" _ path] f(4-7) assms(2,3,5,8) len(2) unfolding open_sandbox_def by fastforce
  then show ?thesis using f(1) by (simp add: RunCrcCorruption_def)
qed

theorem crc_experiment_passes_witness:
  "\<exists>sb fs fs'. fs_dir fs = [(kManifest, 0)] \<and> RunCrcCorruption sb ''run-1'' default_options fs = Some (Ok (), fs')"
proof -
  define fs where "fs = young_fs\<lparr>fs_exists := True, fs_dir := [(kManifest, 0)], fs_fresh := 1,
    fs_nodes := (\<lambda>_. \<lparr>nd_data = manifest_frame [8, 1, 16, 2], nd_durable = [], nd_clean = False\<rparr>)\<rparr>"
  define sb where "sb = \<lparr>sb_pb = sample_pb, sb_charge = (\<lambda>_. 1), sb_spawned = True, sb_registry = 0, sb_surroundings = solo\<rparr>"
  have "calm fs" "fs_exists fs" "\<not> fs_locked fs" "bound fs kManifest = Some 0" "0 < fs_fresh fs"
    by (simp_all add: fs_def calm_def young_fs_def bound_def)
  moreover have "Decode (sb_pb sb) (nd_data (fs_nodes fs 0)) = Ok initial_snapshot"
    using Encode_Decode [OF sample_pb_ok sample_encodes] by (simp add: fs_def sb_def)
  moreover have "options_valid default_options" "''run-1'' \<noteq> []" by (simp_all add: options_valid_def default_options_def)
  ultimately obtain fs' where "RunCrcCorruption sb ''run-1'' default_options fs = Some (Ok (), fs')"
    using crc_experiment_passes [of fs 0 sb initial_snapshot default_options "''run-1''"] by blast
  moreover have "fs_dir fs = [(kManifest, 0)]" by (simp add: fs_def)
  ultimately show ?thesis by blast
qed

end
