(* ===== verification/MemTable_Iterator.thy ===== *)
theory MemTable_Iterator
  imports MemTable Merging_Iterator Visibility_Iterator
begin

text \<open>
  \<open>MemTable::Iterator\<close> and \<open>MemTable::NewIterator\<close> of \<open>src/memtable/memtable.cpp\<close>: a cursor into the
  table's map and into the version vector of the current key. It keeps the iterator contract
  without failing, so the merge and the visibility filter apply to it.
\<close>

section \<open>State and operations\<close>

text \<open>
  \<open>current_\<close> is a position in the ordered map, represented by the nodes from that position on; the
  empty list is \<open>end()\<close>. The table outlives the iterator and does not change under it.
\<close>

record MemTableIterator =
  mti_source :: MemTable
  mti_current :: "(bytes \<times> InternalEntry list) list"
  mti_version_index :: nat
  mti_end :: bytes
  mti_status :: StatusCode

definition mti_Valid :: "MemTableIterator \<Rightarrow> bool" where
  "mti_Valid it =
     (mti_current it \<noteq> [] \<and> (mti_end it = [] \<or> BytewiseLess (fst (hd (mti_current it))) (mti_end it)))"

definition mti_entry :: "MemTableIterator \<Rightarrow> InternalEntry" where
  "mti_entry it = snd (hd (mti_current it)) ! mti_version_index it"

definition mti_Seek :: "bytes \<Rightarrow> MemTableIterator \<Rightarrow> StatusCode \<times> MemTableIterator" where
  "mti_Seek target it =
     (kOk, it\<lparr>mti_current := om_lower_bound target (mt_entries (mti_source it)), mti_version_index := 0\<rparr>)"

definition mti_Next :: "MemTableIterator \<Rightarrow> StatusCode \<times> MemTableIterator" where
  "mti_Next it =
     (if \<not> mti_Valid it then (kOk, it)
      else let i = mti_version_index it + 1 in
        (kOk, if i = length (snd (hd (mti_current it)))
              then it\<lparr>mti_current := tl (mti_current it), mti_version_index := 0\<rparr>
              else it\<lparr>mti_version_index := i\<rparr>))"

definition memtable_ops :: "MemTableIterator InternalIterator" where
  "memtable_ops =
     \<lparr>Valid = mti_Valid, entry = mti_entry, Seek = mti_Seek, Next = mti_Next, status = mti_status\<rparr>"

definition MemTable_NewIterator :: "MemTable \<Rightarrow> bytes \<Rightarrow> bytes \<Rightarrow> MemTableIterator result" where
  "MemTable_NewIterator m beg end_key =
     (if end_key \<noteq> [] \<and> BytewiseLess end_key beg then Err kInvalidArgument
      else Ok (snd (mti_Seek beg \<lparr>mti_source = m, mti_current = [], mti_version_index = 0,
                                  mti_end = end_key, mti_status = kOk\<rparr>)))"

section \<open>The iterator contract\<close>

definition mti_flat :: "MemTableIterator \<Rightarrow> InternalEntry list" where
  "mti_flat it = drop (mti_version_index it) (concat (map snd (mti_current it)))"

definition mti_all :: "MemTableIterator \<Rightarrow> InternalEntry list" where
  "mti_all it = filter (before_end (mti_end it)) (mt_all (mti_source it))"

definition mti_rest :: "MemTableIterator \<Rightarrow> InternalEntry list" where
  "mti_rest it = filter (before_end (mti_end it)) (mti_flat it)"

definition mti_invar :: "MemTableIterator \<Rightarrow> bool" where
  "mti_invar it \<longleftrightarrow> mti_status it = kOk \<and> mt_inv (mti_source it) \<and>
     (\<exists>n. mti_current it = drop n (mt_entries (mti_source it))) \<and>
     (mti_current it \<noteq> [] \<longrightarrow> mti_version_index it < length (snd (hd (mti_current it))))"

lemma mt_shape_drop: "mt_shape es \<Longrightarrow> mt_shape (drop n es)"
  unfolding mt_shape_def by (auto simp: drop_map [symmetric] sorted_wrt_drop dest: in_set_dropD)

lemma mti_shape: "mti_invar it \<Longrightarrow> mt_shape (mti_current it)"
  by (auto simp: mti_invar_def mt_inv_def mt_shape_drop)

lemma mti_flat_Cons:
  assumes "mti_invar it" "mti_current it \<noteq> []"
  shows "mti_flat it = mti_entry it # tl (mti_flat it)" "user_key (mti_entry it) = fst (hd (mti_current it))"
proof -
  obtain k vs cs where c: "mti_current it = (k, vs) # cs" using assms(2) by (metis list.exhaust surj_pair)
  have i: "mti_version_index it < length vs" using assms c by (simp add: mti_invar_def)
  then show "mti_flat it = mti_entry it # tl (mti_flat it)"
    by (simp add: mti_flat_def mti_entry_def c Cons_nth_drop_Suc [symmetric])
  have "versions_ok k vs" using mti_shape [OF assms(1)] c by (simp add: mt_shape_def)
  then show "user_key (mti_entry it) = fst (hd (mti_current it))"
    using i by (simp add: mti_entry_def c versions_ok_def)
qed

lemma mti_flat_ordered: "mti_invar it \<Longrightarrow> weakly_ordered (mti_flat it)"
  using mt_all_ordered [of "\<lparr>mt_entries = mti_current it, mt_bytes = 0\<rparr>"] mti_shape [of it]
  by (simp add: mti_flat_def mt_inv_def mt_all_def ordered_weakly weakly_ordered_drop)

lemma mti_flat_empty: "mti_invar it \<Longrightarrow> mti_flat it = [] \<longleftrightarrow> mti_current it = []"
  using mti_flat_Cons [of it] by (cases "mti_current it = []") (auto simp: mti_flat_def)

lemma mti_Next_flat:
  assumes inv: "mti_invar it" and valid: "mti_Valid it" and step: "mti_Next it = (c, it')"
  shows "mti_invar it' \<and> mti_source it' = mti_source it \<and> mti_end it' = mti_end it \<and> mti_flat it' = tl (mti_flat it)"
proof -
  have "mti_current it \<noteq> []" using valid by (simp add: mti_Valid_def)
  then obtain k vs cs where c: "mti_current it = (k, vs) # cs" by (metis list.exhaust surj_pair)
  obtain n where n: "mti_current it = drop n (mt_entries (mti_source it))" using inv by (auto simp: mti_invar_def)
  then have tl: "cs = drop (Suc n) (mt_entries (mti_source it))" using c by (metis drop_Suc list.sel(3) tl_drop)
  have i: "mti_version_index it < length vs" using inv c by (simp add: mti_invar_def)
  have flat: "tl (mti_flat it) = drop (Suc (mti_version_index it)) vs @ concat (map snd cs)"
    using i by (simp add: mti_flat_def c tl_drop drop_Suc [symmetric])
  have shape: "mt_shape cs" using tl inv by (auto simp: mti_invar_def mt_inv_def mt_shape_drop)
  show ?thesis
  proof (cases "Suc (mti_version_index it) = length vs")
    case True
    have "cs \<noteq> [] \<longrightarrow> 0 < length (snd (hd cs))"
      using shape by (cases cs) (auto simp: mt_shape_def versions_ok_def)
    with True valid step c inv tl flat show ?thesis
      by (auto simp: mti_Next_def Let_def mti_invar_def mti_flat_def)
  next
    case False
    then have "it' = it\<lparr>mti_version_index := Suc (mti_version_index it)\<rparr>" using valid step c by (simp add: mti_Next_def)
    moreover have "mti_flat (it\<lparr>mti_version_index := Suc (mti_version_index it)\<rparr>) = tl (mti_flat it)"
      unfolding flat using i by (simp add: mti_flat_def c)
    moreover have "Suc (mti_version_index it) < length vs" using i False by simp
    ultimately show ?thesis using inv c by (auto simp: mti_invar_def)
  qed
qed

lemma mti_Seek_flat:
  assumes inv: "mti_invar it" and step: "mti_Seek k it = (c, it')"
  shows "mti_invar it' \<and> mti_source it' = mti_source it \<and> mti_end it' = mti_end it \<and>
     mti_flat it' = filter (\<lambda>e. \<not> user_key e < k) (mt_all (mti_source it))"
proof -
  let ?es = "mt_entries (mti_source it)"
  have shape: "mt_shape ?es" using inv by (simp add: mti_invar_def mt_inv_def)
  have it': "it' = it\<lparr>mti_current := om_lower_bound k ?es, mti_version_index := 0\<rparr>"
    using step by (simp add: mti_Seek_def)
  have lb: "om_lower_bound k ?es = filter (\<lambda>(k', v). \<not> k' < k) ?es"
    using shape by (intro om_lower_bound_filter) (simp add: mt_shape_def)
  have "\<exists>n. om_lower_bound k ?es = drop n ?es" by (auto simp: om_lower_bound_def dropWhile_eq_drop)
  moreover have "om_lower_bound k ?es \<noteq> [] \<longrightarrow> 0 < length (snd (hd (om_lower_bound k ?es)))"
  proof
    assume "om_lower_bound k ?es \<noteq> []"
    then have "hd (om_lower_bound k ?es) \<in> set ?es" unfolding lb by (metis filter_is_subset hd_in_set subsetD)
    then show "0 < length (snd (hd (om_lower_bound k ?es)))" using shape by (auto simp: mt_shape_def versions_ok_def)
  qed
  ultimately have "mti_invar it'" using inv by (simp add: it' mti_invar_def)
  moreover have "mti_flat it' = filter (\<lambda>e. \<not> user_key e < k) (mt_all (mti_source it))"
    using concat_filter_shape [OF shape, of "\<lambda>k'. \<not> k' < k"] by (simp add: mti_flat_def it' lb mt_all_def)
  ultimately show ?thesis by (simp add: it')
qed

interpretation memtable_iterator: reliable_iterator memtable_ops mti_invar mti_all mti_rest
proof
  fix it it' k
  assume inv: "mti_invar it"
  note wo = mti_flat_ordered [OF inv]
  note flat = mti_flat_Cons [OF inv]
  show "status memtable_ops it = kOk" using inv by (simp add: memtable_ops_def mti_invar_def)
  have valid: "mti_Valid it \<longleftrightarrow> mti_rest it \<noteq> []"
  proof (cases "mti_current it = []")
    case False
    then have "hd (mti_flat it) = mti_entry it" "mti_flat it \<noteq> []" using flat by (metis list.sel(1), metis list.distinct(1))
    with False flat show ?thesis
      by (simp add: mti_Valid_def mti_rest_def before_end_hd [OF wo] before_end_def BytewiseLess_def)
  qed (simp add: mti_Valid_def mti_rest_def mti_flat_def)
  then show "Valid memtable_ops it \<longleftrightarrow> mti_rest it \<noteq> []" by (simp add: memtable_ops_def)
  have head: "mti_rest it = mti_entry it # filter (before_end (mti_end it)) (tl (mti_flat it))" if "mti_rest it \<noteq> []"
  proof -
    have "mti_Valid it" using valid that by simp
    then have c: "mti_current it \<noteq> []" "before_end (mti_end it) (mti_entry it)"
      using flat by (auto simp: mti_Valid_def before_end_def BytewiseLess_def)
    have "filter (before_end (mti_end it)) (mti_entry it # tl (mti_flat it)) =
        mti_entry it # filter (before_end (mti_end it)) (tl (mti_flat it))" using c by simp
    then show ?thesis using flat(1) [OF c(1)] by (simp add: mti_rest_def)
  qed
  show "entry memtable_ops it = hd (mti_rest it)" if "mti_rest it \<noteq> []"
    using head [OF that] by (simp add: memtable_ops_def)
  show "weakly_ordered (mti_rest it)" using wo by (simp add: mti_rest_def weakly_ordered_filter)
  show "weakly_ordered (mti_all it)"
    using inv mt_all_ordered by (simp add: mti_all_def mti_invar_def ordered_weakly weakly_ordered_filter)
  show "mti_invar it' \<and> mti_all it' = mti_all it \<and> mti_rest it' = filter (\<lambda>e. \<not> user_key e < k) (mti_all it)"
    if "Seek memtable_ops k it = (kOk, it')"
    using that mti_Seek_flat [OF inv, of k kOk it']
    by (auto simp: memtable_ops_def mti_all_def mti_rest_def conj_commute)
  show "mti_invar it' \<and> mti_all it' = mti_all it \<and> mti_rest it' = tl (mti_rest it)"
    if "mti_rest it \<noteq> []" "Next memtable_ops it = (kOk, it')"
  proof -
    have "mti_Valid it" using valid that(1) by simp
    then have "mti_invar it' \<and> mti_source it' = mti_source it \<and> mti_end it' = mti_end it \<and> mti_flat it' = tl (mti_flat it)"
      using mti_Next_flat [OF inv, of kOk it'] that(2) by (simp add: memtable_ops_def)
    with head [OF that(1)] show ?thesis by (simp add: mti_all_def mti_rest_def)
  qed
  show "\<exists>it'. Seek memtable_ops k it = (kOk, it') \<and> status memtable_ops it' = kOk"
    using inv by (simp add: memtable_ops_def mti_Seek_def mti_invar_def)
  show "\<exists>it'. Next memtable_ops it = (kOk, it') \<and> status memtable_ops it' = kOk"
    using inv by (simp add: memtable_ops_def mti_Next_def mti_invar_def Let_def)
qed

lemma MemTable_NewIterator_ok:
  assumes "mt_inv m" "MemTable_NewIterator m b e = Ok it"
  shows "mti_invar it \<and> mti_rest it = MemTable_Scan m b e"
proof -
  let ?it = "\<lparr>mti_source = m, mti_current = [], mti_version_index = 0, mti_end = e, mti_status = kOk\<rparr>"
  have "mti_invar ?it"
    using assms(1) by (auto simp: mti_invar_def intro!: exI [of _ "length (mt_entries m)"])
  moreover have "mti_Seek b ?it = (kOk, it)"
    using assms(2) by (auto simp: MemTable_NewIterator_def mti_Seek_def split: if_splits)
  ultimately have "mti_invar it \<and> mti_end it = e \<and> mti_flat it = filter (\<lambda>x. \<not> user_key x < b) (mt_all m)"
    using mti_Seek_flat by force
  then show ?thesis
    using assms(1) by (auto simp: mti_rest_def MemTable_Scan_filter in_range_def before_end_def not_less intro: filter_cong)
qed

end
