(* ===== verification/Spec2Isabelle.thy ===== *)
theory Spec2Isabelle
  imports Db_Writers Lab_Workload Recovery_Lab Write_Path Sstable_Table Merging_Iterator Visibility_Iterator MemTable_Iterator Filename Snapshot_Registry
begin

text \<open>
  \<^bold>\<open>TinyLSM\<close> is an embedded key-value store in C++ (\<open>src/src\<close>, \<open>src/include\<close>). Writers append batches of versions to a
  write-ahead log and apply them to a MemTable; a full MemTable is sealed and a background worker writes it as a sorted
  table; tables are merged by compaction; a manifest names the files that count. Readers see the newest version at or
  below their sequence, and registered snapshots keep the versions they need. This development models these parts as HOL
  functions, one definition per function of the source, and proves what makes them correct.

  \<^bold>\<open>Theories and sources.\<close>

  \<^item> \<open>Prelude\<close>, \<open>Status\<close>, \<open>Coding\<close>, \<open>Entries\<close>, \<open>Ordered_Map\<close>: bytes are lists of 8-bit words, stored and computed integers
    are words of their width, results are a sum with an extra constructor \<open>UB\<close> for undefined behaviour
    (\<open>status.h\<close>, \<open>result.h\<close>, \<open>util/\<close>, \<open>model/internal_entry.h\<close>, \<open>std::map\<close>). \<open>visible\<close> and \<open>live_value\<close> specify reads.
  \<^item> \<open>MemTable\<close>, \<open>MemTable_Iterator\<close> (\<open>memtable/\<close>): representation invariant, byte accounting, atomic batches, reads and
    scans that meet the specification.
  \<^item> \<open>Wal_Codec\<close>, \<open>Wal_Log\<close>, \<open>Recovery\<close> (\<open>wal/\<close>): records decode to what was encoded, decoders stay inside their input, and
    replaying any prefix of a log applies exactly the complete batches.
  \<^item> \<open>File_Io\<close>, \<open>File_System\<close> (\<open>io/file.cpp\<close>): the loops around system calls and the operations on names, over explicit
    outcomes of the calls, with what is visible and what is durable kept apart; \<open>crashed\<close> is what a power loss may leave.
  \<^item> \<open>Manifest_Codec\<close>, \<open>Manifest_State\<close> (\<open>manifest/\<close>): framing, validation and atomic publication.
  \<^item> \<open>Iterators\<close>, \<open>Merging_Iterator\<close>, \<open>Visibility_Iterator\<close> (\<open>iterator/\<close>): a contract for iterators (a locale), the merge
    and the visibility filter proved once against it, and interpretations for vectors, MemTables, tables and their sum.
  \<^item> \<open>Sstable_Format\<close>, \<open>Sstable_Codec\<close>, \<open>Block_Codec\<close>, \<open>Block_Lookup\<close>, \<open>Sstable_Builder\<close>, \<open>Sstable_Reader\<close>, \<open>Sstable_Table\<close>,
    \<open>Table_Iterator\<close>, \<open>Block_Cache\<close> (\<open>sstable/\<close>): formats, builder, reader, cache; a built table serves the reads of its
    entries, and a validated table is sound whatever its bytes are.
  \<^item> \<open>Filename\<close>, \<open>Snapshot_Registry\<close> (\<open>db/filename.cpp\<close>, \<open>db/snapshot_registry.cpp\<close>).
  \<^item> \<open>Db_State\<close>, \<open>Rotation\<close>, \<open>Crash_Safety\<close>, \<open>Write_Path\<close>, \<open>Db_Read\<close>, \<open>Db_Scan\<close>, \<open>Table_Output\<close>, \<open>Flush\<close>, \<open>Compaction\<close>,
    \<open>Db_Open\<close>, \<open>Db_Lifecycle\<close> (\<open>db/db_impl.cpp\<close>, \<open>db/db.cpp\<close>): the database. A critical section is one function on the
    record \<open>Db\<close>; what other threads do while a handler waits or works without the lock is an argument of it (\<open>others\<close>,
    \<open>env\<close>).
  \<^item> \<open>Labelled_System\<close>, \<open>Db_System\<close>: the database as a system of all critical sections in any order. It keeps its invariant,
    refines a map from keys to values, and registered snapshots read the map they were taken from.
  \<^item> \<open>Db_Writers\<close>: the public writes and \<open>Close\<close>, with all their waiting, as runs of that system. A successful write was
    committed in one piece, a caller alone reads what it has written, and a closed database serves nobody.
  \<^item> \<open>Base64\<close>, \<open>Cli\<close> (\<open>tools/cli/cli_app.cpp\<close>, the byte codings of \<open>tools/lab/lab_http_server.cpp\<close>): the command line from
    its arguments to exit code and output.
  \<^item> \<open>Storage_Inspector\<close> (\<open>tools/lab/storage_inspector.cpp\<close>): pages of logs and tables for the Lab, and a client that follows
    their cursors.
  \<^item> \<open>Lab_Session\<close>, \<open>Lab_Workload\<close> (\<open>tools/lab/lab_session.cpp\<close>, \<open>db/diagnostic_snapshot.cpp\<close>): the session of the Lab and its
    workloads, as a machine that interleaves the critical sections of the thread with commands. The status is consistent in
    every interleaving, and a correct database is never accused of a mismatch.
  \<^item> \<open>Recovery_Lab\<close> (\<open>tools/lab/recovery_lab.cpp\<close>, \<open>tools/lab/tinylsm_lab_worker.cpp\<close>): experiments on damaged copies.

  \<^bold>\<open>Loops.\<close> Structural loops are total functions. Loops that may not end are partial functions whose result \<open>None\<close> means
  that they do not return (\<open>backpressure\<close>, the visibility filter, the waits of \<open>Db_Lifecycle\<close>); where they always return,
  this is proved, and where they do not, it is a finding.

  \<^bold>\<open>Assumptions.\<close> The Protobuf runtime is the parameter \<open>pb\<close> with the hypothesis \<open>protobuf_ok\<close>; the size estimate of a
  decoded block is the parameter \<open>charge\<close>; each system call takes its outcome from the state, and an exhausted list of
  outcomes means success. A rotation is crash safe if the directory reaches the disk in the order of its updates.
  Properties of the whole database assume that the block cache is enabled (without it, point reads can be stale, see
  \<open>Block_Lookup\<close>), that tables are below 4 GiB, and that the block offsets of an opened table are distinct.

  \<^bold>\<open>Not modelled.\<close> Allocation failure and other exceptions, clocks and the nanosecond counters, status messages (callers
  branch on codes only), destructors of handles, memory ordering of the counters; the benchmark. Of
  the Lab (\<open>tools/lab\<close>): the HTTP routes, whose JSON and HTTP libraries are not part of the repository, the points of the
  metrics, which are made of times and loads of the process, listings of directories, and the log file of events.
\<close>

end
